(* ===== verification/Olsr_Prelude.thy ===== *)
theory Olsr_Prelude
  imports Main "HOL-Library.Word"
begin

text \<open>
  Shared vocabulary of the development: the C integer types the daemon uses, the
  collections of simplification rules the component theories fill, the result type of
  operations that dereference pointers, and the generic facts on lists that several
  components rest on (sequences sorted by key, in which equal keys keep their order of
  arrival).
\<close>

unbundle bit_operations_syntax

section \<open>Machine types\<close>

type_synonym u8 = "8 word"
type_synonym u16 = "16 word"
type_synonym u32 = "32 word"
type_synonym u64 = "64 word"

named_theorems olsr_defs \<open>definitions of the model that proofs unfold as a group\<close>
named_theorems olsr_keep \<open>an operation keeps a component's invariant or a field\<close>

lemma unat_bound: "unat (a :: 'a::len word) < 2 ^ LENGTH('a)"
  by (rule unsigned_less)

lemma u32_less: "unat (a :: u32) < 2 ^ 32" and u16_less: "unat (b :: u16) < 2 ^ 16" and u8_less: "unat (c :: u8) < 2 ^ 8"
  using unat_bound [of a] unat_bound [of b] unat_bound [of c] by simp_all

lemma unat_sub32: "unat (a - b :: u32) = (if unat b \<le> unat a then unat a - unat b else unat a + 2 ^ 32 - unat b)"
  using u32_less [of a] by (simp add: unat_sub_if' not_le)

lemma unat_add32: "unat (a + b :: u32) = (if unat a + unat b < 2 ^ 32 then unat a + unat b else unat a + unat b - 2 ^ 32)"
  by (simp add: unat_plus_if')

section \<open>Loops that may fail\<close>

text \<open>A loop over a list of objects whose body may dereference an invalid pointer.\<close>

fun foldM :: "('a \<Rightarrow> 's \<Rightarrow> 's option) \<Rightarrow> 'a list \<Rightarrow> 's \<Rightarrow> 's option" where
  "foldM f [] s = Some s"
| "foldM f (x # xs) s = Option.bind (f x s) (foldM f xs)"

lemma foldM_append: "foldM f (xs @ ys) s = Option.bind (foldM f xs s) (foldM f ys)"
  by (induction f xs s rule: foldM.induct) (auto split: Option.bind_split)

section \<open>Lists of keyed nodes\<close>

text \<open>
  \<open>ins_seq k n xs\<close> puts the node \<open>n\<close> with key \<open>k\<close> into a sequence sorted by key,
  after every node whose key is not larger: the order in which an AVL tree with
  duplicates is walked.
\<close>

fun ins_seq :: "'k::linorder \<Rightarrow> 'n \<Rightarrow> ('k \<times> 'n) list \<Rightarrow> ('k \<times> 'n) list" where
  "ins_seq k n [] = [(k, n)]"
| "ins_seq k n ((k', n') # xs) =
     (if k < k' then (k, n) # (k', n') # xs else (k', n') # ins_seq k n xs)"

definition del_seq :: "'n \<Rightarrow> ('k \<times> 'n) list \<Rightarrow> ('k \<times> 'n) list" where
  "del_seq n xs = filter (\<lambda>p. snd p \<noteq> n) xs"

lemma set_ins_seq [simp]: "set (ins_seq k n xs) = insert (k, n) (set xs)"
  by (induction k n xs rule: ins_seq.induct) auto

lemma length_ins_seq [simp]: "length (ins_seq k n xs) = Suc (length xs)"
  by (induction k n xs rule: ins_seq.induct) auto

lemma sorted_ins_seq [intro]: "sorted (map fst xs) \<Longrightarrow> sorted (map fst (ins_seq k n xs))"
  by (induction k n xs rule: ins_seq.induct) auto

lemma distinct_ins_seq [intro]:
  "distinct (map snd xs) \<Longrightarrow> n \<notin> snd ` set xs \<Longrightarrow> distinct (map snd (ins_seq k n xs))"
  by (induction k n xs rule: ins_seq.induct) (auto simp: image_iff)

lemma ins_seq_append_le:
  "\<forall>p\<in>set xs. fst p \<le> k \<Longrightarrow> ins_seq k n (xs @ ys) = xs @ ins_seq k n ys"
  by (induction xs) (auto simp: not_less[symmetric])

lemma ins_seq_less: "\<forall>p\<in>set ys. k < fst p \<Longrightarrow> ins_seq k n ys = (k, n) # ys"
  by (cases ys) auto

lemma ins_seq_split:
  "\<forall>p\<in>set xs. fst p \<le> k \<Longrightarrow> \<forall>p\<in>set ys. k < fst p \<Longrightarrow>
   ins_seq k n (xs @ ys) = xs @ (k, n) # ys"
  by (simp add: ins_seq_append_le ins_seq_less)

lemma set_del_seq [simp]: "set (del_seq n xs) = {p \<in> set xs. snd p \<noteq> n}"
  by (auto simp: del_seq_def)

lemma sorted_del_seq [intro]: "sorted (map fst xs) \<Longrightarrow> sorted (map fst (del_seq n xs))"
  unfolding del_seq_def by (rule sorted_filter)

lemma distinct_del_seq [intro]: "distinct (map snd xs) \<Longrightarrow> distinct (map snd (del_seq n xs))"
  unfolding del_seq_def by (rule distinct_map_filter)

lemma del_seq_absent: "n \<notin> snd ` set xs \<Longrightarrow> del_seq n xs = xs"
  by (induction xs) (auto simp: del_seq_def)

lemma del_seq_append [simp]: "del_seq n (xs @ ys) = del_seq n xs @ del_seq n ys"
  by (simp add: del_seq_def)

lemma del_seq_Cons: "del_seq n (p # xs) = (if snd p = n then del_seq n xs else p # del_seq n xs)"
  by (simp add: del_seq_def)

lemma del_ins_seq: "n \<notin> snd ` set xs \<Longrightarrow> del_seq n (ins_seq k n xs) = xs"
  by (induction k n xs rule: ins_seq.induct) (auto simp: del_seq_Cons del_seq_absent)

lemma length_del_seq:
  "distinct (map snd xs) \<Longrightarrow> n \<in> snd ` set xs \<Longrightarrow> Suc (length (del_seq n xs)) = length xs"
  by (induction xs) (auto simp: del_seq_Cons del_seq_absent)

text \<open>A list of nodes with distinct identities splits uniquely at each of them.\<close>

lemma split_at_id:
  assumes "n \<in> snd ` set xs"
  obtains ys k zs where "xs = ys @ (k, n) # zs" "n \<notin> snd ` set ys"
proof -
  from assms obtain k where "(k, n) \<in> set xs" by auto
  hence "\<exists>x\<in>set xs. snd x = n" by force
  from split_list_first_prop [OF this] obtain ys x zs
    where "xs = ys @ x # zs" "snd x = n" "\<forall>y\<in>set ys. snd y \<noteq> n" by blast
  thus ?thesis by (intro that [of ys "fst x" zs]) auto
qed

end
