(* ===== verification/Olsr_Types.thy ===== *)
theory Olsr_Types
  imports Olsr_Prelude
begin

text \<open>
  The basic types of \<^verbatim>\<open>src/olsr_types.h\<close> and the comparisons of \<^verbatim>\<open>src/ipcalc.h\<close>. An
  address is \<open>V4\<close> of the 32-bit \<open>s_addr\<close> as a little-endian host loads it (the bytes on the
  wire are its octets from the least significant up), or \<open>V6\<close> of the sixteen bytes read as
  one number, most significant byte first, so that \<open>memcmp\<close> is the numeric order.
\<close>

datatype olsr_ip_addr = V4 u32 | V6 "128 word"

type_synonym olsr_linkcost = u32
type_synonym olsr_reltime = u32

record olsr_ip_prefix =
  prefix :: olsr_ip_addr
  prefix_len :: u8

section \<open>Comparison\<close>

fun ip_rank :: "olsr_ip_addr \<Rightarrow> nat" where
  "ip_rank (V4 a) = 2 * unat a"
| "ip_rank (V6 a) = 2 * unat a + 1"

lemma ip_rank_inj: "ip_rank a = ip_rank b \<longleftrightarrow> a = b"
proof (cases a; cases b)
  fix x y assume ab: "a = V4 x" "b = V6 y"
  have "2 * unat x \<noteq> 2 * unat y + 1" by presburger
  thus ?thesis using ab by simp
next
  fix x y assume ab: "a = V6 x" "b = V4 y"
  have "2 * unat x + 1 \<noteq> 2 * unat y" by presburger
  thus ?thesis using ab by simp
qed (auto intro: unsigned_word_eqI)

text \<open>
  The daemon runs with one address family at a time; the order below is \<open>ip4cmp\<close> on \<open>V4\<close>
  and \<open>ip6cmp\<close> on \<open>V6\<close>, made total across the two.
\<close>

instantiation olsr_ip_addr :: linorder
begin

definition less_eq_olsr_ip_addr :: "olsr_ip_addr \<Rightarrow> olsr_ip_addr \<Rightarrow> bool" where
  "a \<le> b \<longleftrightarrow> ip_rank a \<le> ip_rank b"

definition less_olsr_ip_addr :: "olsr_ip_addr \<Rightarrow> olsr_ip_addr \<Rightarrow> bool" where
  "a < b \<longleftrightarrow> ip_rank a < ip_rank b"

instance
  by standard (auto simp: less_eq_olsr_ip_addr_def less_olsr_ip_addr_def ip_rank_inj)

end

definition ip4cmp :: "u32 \<Rightarrow> u32 \<Rightarrow> int" where
  "ip4cmp a b = (if a > b then 1 else if a < b then -1 else 0)"

definition ip6cmp :: "128 word \<Rightarrow> 128 word \<Rightarrow> int" where
  "ip6cmp a b = (if a > b then 1 else if a < b then -1 else 0)"

definition ipequal :: "olsr_ip_addr \<Rightarrow> olsr_ip_addr \<Rightarrow> bool" where
  "ipequal x y = (case (x, y) of
       (V4 a, V4 b) \<Rightarrow> a = b
     | (V6 a, V6 b) \<Rightarrow> ip6cmp a b = 0
     | _ \<Rightarrow> False)"

lemma ipequal_iff [simp]: "ipequal x y \<longleftrightarrow> x = y"
  by (cases x; cases y) (auto simp: ipequal_def ip6cmp_def)

lemma less_V4 [simp]: "V4 a < V4 b \<longleftrightarrow> a < b" and less_V6 [simp]: "V6 c < V6 d \<longleftrightarrow> c < d"
  by (auto simp: less_olsr_ip_addr_def word_less_nat_alt)

lemma ip4cmp_order: "ip4cmp a b < 0 \<longleftrightarrow> V4 a < V4 b" "ip4cmp a b = 0 \<longleftrightarrow> a = b"
  by (auto simp: ip4cmp_def)

lemma ip6cmp_order: "ip6cmp a b < 0 \<longleftrightarrow> V6 a < V6 b" "ip6cmp a b = 0 \<longleftrightarrow> a = b"
  by (auto simp: ip6cmp_def)

section \<open>Octets\<close>

fun ip_bytes :: "olsr_ip_addr \<Rightarrow> u8 list" where
  "ip_bytes (V4 a) = map (\<lambda>i. ucast (drop_bit (8 * i) a)) [0..<4]"
| "ip_bytes (V6 a) = map (\<lambda>i. ucast (drop_bit (8 * (15 - i)) a)) [0..<16]"

definition v4_of_bytes :: "u8 list \<Rightarrow> u32" where
  "v4_of_bytes bs = foldr (\<lambda>b w. push_bit 8 w OR ucast b) bs 0"

definition v6_of_bytes :: "u8 list \<Rightarrow> 128 word" where
  "v6_of_bytes bs = foldl (\<lambda>w b. push_bit 8 w OR ucast b) 0 bs"

lemma length_ip_bytes: "length (ip_bytes a) = (case a of V4 _ \<Rightarrow> 4 | V6 _ \<Rightarrow> 16)"
  by (cases a) auto

lemma bit_word_eq:
  fixes a b :: "'a::len word"
  shows "(\<forall>n<LENGTH('a). bit a n = bit b n) \<Longrightarrow> a = b"
  by (rule bit_word_eqI) auto

lemma v4_bytes_id: "v4_of_bytes (ip_bytes (V4 a)) = a"
proof (rule bit_word_eq, intro allI impI)
  fix n :: nat assume "n < LENGTH(32)"
  hence n: "n < 32" by simp
  have "n < 8 \<or> 8 \<le> n \<and> n < 16 \<or> 16 \<le> n \<and> n < 24 \<or> 24 \<le> n \<and> n < 32" using n by linarith
  thus "bit (v4_of_bytes (ip_bytes (V4 a))) n = bit a n"
    by (auto simp: v4_of_bytes_def upt_rec bit_simps)
qed

lemma v6_bytes_take:
  fixes a :: "128 word"
  shows "k \<le> 16 \<Longrightarrow> v6_of_bytes (map (\<lambda>i. ucast (drop_bit (8 * (15 - i)) a)) [0..<k]) = drop_bit (8 * (16 - k)) a"
proof (induction k)
  case (Suc k)
  let ?d = "8 * (15 - k)"
  have "push_bit 8 (drop_bit (?d + 8) a) OR ucast (ucast (drop_bit ?d a) :: u8) = drop_bit ?d a"
  proof (rule bit_word_eq, intro allI impI)
    fix n :: nat assume "n < LENGTH(128)"
    thus "bit (push_bit 8 (drop_bit (?d + 8) a) OR ucast (ucast (drop_bit ?d a) :: u8)) n = bit (drop_bit ?d a) n"
      by (cases "n < 8") (auto simp: bit_simps)
  qed
  moreover have "?d + 8 = 8 * (16 - k)" "16 - Suc k = 15 - k" using Suc.prems by simp_all
  moreover from Suc have "v6_of_bytes (map (\<lambda>i. ucast (drop_bit (8 * (15 - i)) a)) [0..<k]) = drop_bit (8 * (16 - k)) a"
    by simp
  ultimately show ?case by (simp add: v6_of_bytes_def)
qed (simp add: v6_of_bytes_def bit_eq_iff bit_simps)

lemma v6_bytes_id: "v6_of_bytes (ip_bytes (V6 a)) = a"
  using v6_bytes_take [of 16 a] by simp

section \<open>Prefixes\<close>

text \<open>
  The order of prefixes in the routing tree (\<open>avl_comp_ipv4_prefix\<close>, \<open>avl_comp_ipv6_prefix\<close>):
  the addresses in network byte order first, then the prefix lengths.
\<close>

definition be_val :: "u8 list \<Rightarrow> nat" where
  "be_val bs = foldl (\<lambda>n b. n * 256 + unat b) 0 bs"

lemma be_val_simps [simp]: "be_val [] = 0" "be_val (bs @ [b]) = be_val bs * 256 + unat b"
  by (simp_all add: be_val_def)

lemma be_val_less: "be_val bs < 256 ^ length bs"
proof (induction bs rule: rev_induct)
  case (snoc b bs)
  have "unat b < 256" using u8_less [of b] by simp
  with snoc show ?case by simp
qed simp

lemma radix_split: "a * 256 + b = c * 256 + d \<Longrightarrow> b < 256 \<Longrightarrow> d < 256 \<Longrightarrow> a = c \<and> b = d" for a b c d :: nat
proof -
  assume eq: "a * 256 + b = c * 256 + d" and bd: "b < 256" "d < 256"
  have "(a * 256 + b) div 256 = (c * 256 + d) div 256" using eq by (rule arg_cong)
  moreover have "(a * 256 + b) div 256 = a" "(c * 256 + d) div 256 = c" using bd by simp_all
  ultimately have "a = c" by (simp only:)
  with eq show ?thesis by simp
qed

lemma be_val_inj: "length bs = length cs \<Longrightarrow> be_val bs = be_val cs \<longleftrightarrow> bs = cs"
proof (induction bs arbitrary: cs rule: rev_induct)
  case (snoc b bs)
  from snoc.prems obtain c cs' where cs: "cs = cs' @ [c]" "length bs = length cs'"
    by (metis length_append_singleton length_Suc_conv_rev)
  have bc: "unat b < 256" "unat c < 256" using u8_less [of b] u8_less [of c] by simp_all
  have "be_val (bs @ [b]) = be_val cs \<Longrightarrow> be_val bs = be_val cs' \<and> unat b = unat c"
    unfolding cs be_val_simps by (rule radix_split [OF _ bc])
  hence "be_val (bs @ [b]) = be_val cs \<Longrightarrow> bs = cs' \<and> b = c" using snoc.IH [OF cs(2)] unsigned_word_eqI by blast
  thus ?case unfolding cs by blast
qed simp

definition prefix_rank :: "olsr_ip_prefix \<Rightarrow> nat" where
  "prefix_rank p = ((case prefix p of V4 _ \<Rightarrow> 0 | V6 _ \<Rightarrow> 2 ^ 128) + be_val (ip_bytes (prefix p))) * 256 + unat (prefix_len p)"

lemma be_val_ip: "be_val (ip_bytes a) < 2 ^ 128" "be_val (ip_bytes a) = be_val (ip_bytes b) \<Longrightarrow>
   length (ip_bytes a) = length (ip_bytes b) \<Longrightarrow> a = b"
proof -
  show "be_val (ip_bytes a) < 2 ^ 128"
    using be_val_less [of "ip_bytes a"] by (cases a) (simp_all add: length_ip_bytes del: ip_bytes.simps)
  assume "be_val (ip_bytes a) = be_val (ip_bytes b)" "length (ip_bytes a) = length (ip_bytes b)"
  hence eq: "ip_bytes a = ip_bytes b" "length (ip_bytes a) = length (ip_bytes b)" using be_val_inj by blast+
  show "a = b"
  proof (cases a)
    case (V4 x)
    then obtain y where "b = V4 y" using eq(2) by (cases b) (simp_all add: length_ip_bytes del: ip_bytes.simps)
    with V4 show ?thesis using arg_cong [OF eq(1), of v4_of_bytes] by (simp add: v4_bytes_id del: ip_bytes.simps)
  next
    case (V6 x)
    then obtain y where "b = V6 y" using eq(2) by (cases b) (simp_all add: length_ip_bytes del: ip_bytes.simps)
    with V6 show ?thesis using arg_cong [OF eq(1), of v6_of_bytes] by (simp add: v6_bytes_id del: ip_bytes.simps)
  qed
qed

lemma prefix_rank_inj: "prefix_rank p = prefix_rank q \<longleftrightarrow> p = q"
proof
  assume eq: "prefix_rank p = prefix_rank q"
  have l: "unat (prefix_len p) < 256" "unat (prefix_len q) < 256" using u8_less [of "prefix_len p"] u8_less [of "prefix_len q"] by simp_all
  from radix_split [OF eq [unfolded prefix_rank_def] l]
  have *: "(case prefix p of V4 _ \<Rightarrow> 0 | V6 _ \<Rightarrow> 2 ^ 128) + be_val (ip_bytes (prefix p)) =
      (case prefix q of V4 _ \<Rightarrow> 0 | V6 _ \<Rightarrow> 2 ^ 128) + be_val (ip_bytes (prefix q))" "prefix_len p = prefix_len q"
    by (auto dest: unsigned_word_eqI)
  have "prefix p = prefix q" using *(1) be_val_ip(1) [of "prefix p"] be_val_ip(1) [of "prefix q"]
      be_val_ip(2) [of "prefix p" "prefix q"]
    by (cases "prefix p"; cases "prefix q") (simp_all del: ip_bytes.simps add: length_ip_bytes)
  with *(2) show "p = q" by (cases p; cases q) simp
qed simp

instantiation olsr_ip_prefix_ext :: (linorder) linorder
begin

definition less_eq_olsr_ip_prefix_ext :: "'a olsr_ip_prefix_scheme \<Rightarrow> 'a olsr_ip_prefix_scheme \<Rightarrow> bool" where
  "a \<le> b \<longleftrightarrow> prefix_rank (olsr_ip_prefix.truncate a) < prefix_rank (olsr_ip_prefix.truncate b) \<or>
     prefix_rank (olsr_ip_prefix.truncate a) = prefix_rank (olsr_ip_prefix.truncate b) \<and> olsr_ip_prefix.more a \<le> olsr_ip_prefix.more b"

definition less_olsr_ip_prefix_ext :: "'a olsr_ip_prefix_scheme \<Rightarrow> 'a olsr_ip_prefix_scheme \<Rightarrow> bool" where
  "a < b \<longleftrightarrow> prefix_rank (olsr_ip_prefix.truncate a) < prefix_rank (olsr_ip_prefix.truncate b) \<or>
     prefix_rank (olsr_ip_prefix.truncate a) = prefix_rank (olsr_ip_prefix.truncate b) \<and> olsr_ip_prefix.more a < olsr_ip_prefix.more b"

instance
proof
  fix a b :: "'a olsr_ip_prefix_scheme"
  assume "a \<le> b" "b \<le> a"
  hence "olsr_ip_prefix.truncate a = olsr_ip_prefix.truncate b" "olsr_ip_prefix.more a = olsr_ip_prefix.more b"
    by (auto simp: less_eq_olsr_ip_prefix_ext_def prefix_rank_inj)
  thus "a = b" by (cases a; cases b) (simp add: olsr_ip_prefix.truncate_def)
qed (auto simp: less_eq_olsr_ip_prefix_ext_def less_olsr_ip_prefix_ext_def)

end

lemma prefix_less_iff: "(p :: olsr_ip_prefix) < q \<longleftrightarrow> prefix_rank p < prefix_rank q"
  by (cases p; cases q) (simp add: less_olsr_ip_prefix_ext_def olsr_ip_prefix.truncate_def)

end
