(* ===== verification/Olsr_Avl.thy ===== *)
theory Olsr_Avl
  imports Olsr_Prelude
begin

text \<open>
  The AVL tree of \<^verbatim>\<open>src/common/avl.c\<close>, the index under every database of the daemon.

  A C node has tree links (\<open>parent\<close>, \<open>left\<close>, \<open>right\<close>), list links (\<open>next\<close>, \<open>prev\<close>),
  a key, a balance factor and a leader flag; of the nodes with one key only the first (the
  leader) hangs in the tree, the others follow it in the list. The model keeps both
  structures of the code side by side: \<open>root\<close> is the tree of the leaders and \<open>chain\<close> the
  list from \<open>first\<close> to \<open>last\<close>. A node is known by its identity (the C pointer). A pointer
  to a tree node together with its chain of \<open>parent\<close> pointers is a position: the subtree
  at the node and the list of frames above it, innermost first, so that following
  \<open>parent\<close> is taking the head of that list. An operation whose C code would dereference
  a NULL or a stale pointer returns \<^term>\<open>None\<close>; that it never happens is part of what is proved.
\<close>

section \<open>Data\<close>

datatype ('k, 'n) avl_node =
    Nil_node
  | Node (left: "('k, 'n) avl_node") (nkey: 'k) (nid: 'n) (balance: int) (right: "('k, 'n) avl_node")

datatype ('k, 'n) frame =
    InLeft 'k 'n int "('k, 'n) avl_node"  \<comment> \<open>the position is the left child\<close>
  | InRight "('k, 'n) avl_node" 'k 'n int  \<comment> \<open>the position is the right child\<close>

type_synonym ('k, 'n) entry = "('k \<times> 'n) \<times> bool"  \<comment> \<open>key and identity, leader flag\<close>

record ('k, 'n) avl_tree =
  root :: "('k, 'n) avl_node"
  chain :: "('k, 'n) entry list"
  count :: u32

definition avl_cmp :: "'k::linorder \<Rightarrow> 'k \<Rightarrow> int" where
  "avl_cmp a b = (if a > b then 1 else if a < b then -1 else 0)"

definition avl_init :: "('k, 'n) avl_tree" where
  "avl_init = \<lparr>root = Nil_node, chain = [], count = 0\<rparr>"

text \<open>Closing a position: the whole tree that holds the subtree at it.\<close>

fun avl_zip :: "('k, 'n) avl_node \<Rightarrow> ('k, 'n) frame list \<Rightarrow> ('k, 'n) avl_node" where
  "avl_zip t [] = t"
| "avl_zip t (InLeft k n b r # c) = avl_zip (Node t k n b r) c"
| "avl_zip t (InRight l k n b # c) = avl_zip (Node l k n b t) c"

section \<open>Lookup\<close>

fun avl_find_rec :: "('k::linorder, 'n) avl_node \<Rightarrow> 'k \<Rightarrow> ('k, 'n) frame list \<Rightarrow>
    ('k, 'n) avl_node \<times> ('k, 'n) frame list" where
  "avl_find_rec Nil_node key c = (Nil_node, c)"
| "avl_find_rec (Node l k n b r) key c =
     (let diff = avl_cmp key k in
      if diff < 0 then
        (if l \<noteq> Nil_node then avl_find_rec l key (InLeft k n b r # c) else (Node l k n b r, c))
      else if diff > 0 then
        (if r \<noteq> Nil_node then avl_find_rec r key (InRight l k n b # c) else (Node l k n b r, c))
      else (Node l k n b r, c))"

definition avl_find :: "('k::linorder, 'n) avl_tree \<Rightarrow> 'k \<Rightarrow> 'n option" where
  "avl_find T key =
     (if root T = Nil_node then None
      else case fst (avl_find_rec (root T) key []) of
          Nil_node \<Rightarrow> None
        | Node l k n b r \<Rightarrow> if avl_cmp k key \<noteq> 0 then None else Some n)"

section \<open>Rotations\<close>

fun avl_rotate_right :: "('k, 'n) avl_node \<Rightarrow> ('k, 'n) avl_node option" where
  "avl_rotate_right (Node (Node ll lk ln lb lr) k n b r) =
     (let b' = b + (1 - min lb 0); lb' = lb + (1 + max b' 0)
      in Some (Node ll lk ln lb' (Node lr k n b' r)))"
| "avl_rotate_right _ = None"

fun avl_rotate_left :: "('k, 'n) avl_node \<Rightarrow> ('k, 'n) avl_node option" where
  "avl_rotate_left (Node l k n b (Node rl rk rn rb rr)) =
     (let b' = b - (1 + max rb 0); rb' = rb - (1 - min b' 0)
      in Some (Node (Node l k n b' rl) rk rn rb' rr))"
| "avl_rotate_left _ = None"

section \<open>Insertion\<close>

text \<open>\<open>post_insert t c\<close>: the subtree \<open>t\<close> at the position has grown by one level.\<close>

fun post_insert :: "('k, 'n) avl_node \<Rightarrow> ('k, 'n) frame list \<Rightarrow> ('k, 'n) avl_node option" where
  "post_insert t [] = Some t"
| "post_insert t (InLeft k n b r # c) =
     (let b' = b - 1 in
      if b' = 0 then Some (avl_zip (Node t k n b' r) c)
      else if b' = -1 then post_insert (Node t k n b' r) c
      else if t \<noteq> Nil_node \<and> balance t = -1 then
        Option.bind (avl_rotate_right (Node t k n b' r)) (\<lambda>t'. Some (avl_zip t' c))
      else Option.bind (avl_rotate_left t) (\<lambda>t'.
        Option.bind (avl_rotate_right (Node t' k n b' r)) (\<lambda>t''. Some (avl_zip t'' c))))"
| "post_insert t (InRight l k n b # c) =
     (let b' = b + 1 in
      if b' = 0 then Some (avl_zip (Node l k n b' t) c)
      else if b' = 1 then post_insert (Node l k n b' t) c
      else if t \<noteq> Nil_node \<and> balance t = 1 then
        Option.bind (avl_rotate_left (Node l k n b' t)) (\<lambda>t'. Some (avl_zip t' c))
      else Option.bind (avl_rotate_right t) (\<lambda>t'.
        Option.bind (avl_rotate_left (Node l k n b' t')) (\<lambda>t''. Some (avl_zip t'' c))))"

fun avl_insert_before :: "'n \<Rightarrow> ('k, 'n) entry \<Rightarrow> ('k, 'n) entry list \<Rightarrow> ('k, 'n) entry list" where
  "avl_insert_before pos e [] = []"
| "avl_insert_before pos e (x # xs) =
     (if snd (fst x) = pos then e # x # xs else x # avl_insert_before pos e xs)"

fun avl_insert_after :: "'n \<Rightarrow> ('k, 'n) entry \<Rightarrow> ('k, 'n) entry list \<Rightarrow> ('k, 'n) entry list" where
  "avl_insert_after pos e [] = []"
| "avl_insert_after pos e (x # xs) =
     (if snd (fst x) = pos then x # e # xs else x # avl_insert_after pos e xs)"

definition avl_remove :: "'n \<Rightarrow> ('k, 'n) entry list \<Rightarrow> ('k, 'n) entry list" where
  "avl_remove n xs = filter (\<lambda>e. snd (fst e) \<noteq> n) xs"

text \<open>
  Linking a node that is linked already, or unlinking one that is not, writes through stale
  pointers; the model has no result for it.
\<close>

definition avl_linked :: "'n \<Rightarrow> ('k, 'n) entry list \<Rightarrow> bool" where
  "avl_linked n xs = list_ex (\<lambda>e. snd (fst e) = n) xs"

text \<open>The loop that skips from a leader to the last node of its group of duplicates.\<close>

fun avl_skip_dups :: "'n \<Rightarrow> ('k, 'n) entry list \<Rightarrow> 'n" where
  "avl_skip_dups n ((p, False) # xs) = avl_skip_dups (snd p) xs"
| "avl_skip_dups n xs = n"

fun avl_last_dup :: "'n \<Rightarrow> ('k, 'n) entry list \<Rightarrow> 'n" where
  "avl_last_dup n [] = n"
| "avl_last_dup n (x # xs) = (if snd (fst x) = n then avl_skip_dups n xs else avl_last_dup n xs)"

definition avl_insert :: "('k::linorder, 'n) avl_tree \<Rightarrow> 'k \<Rightarrow> 'n \<Rightarrow> bool \<Rightarrow>
    (('k, 'n) avl_tree \<times> int) option" where
  "avl_insert T key new allow_duplicates =
     (if root T = Nil_node then
        Some (T\<lparr>root := Node Nil_node key new 0 Nil_node, chain := [((key, new), True)], count := 1\<rparr>, 0)
      else case avl_find_rec (root T) key [] of
          (Nil_node, c) \<Rightarrow> None
        | (Node l k n b r, c) \<Rightarrow>
            (let last = avl_last_dup n (chain T);
                 diff = avl_cmp key k;
                 leaf = Node Nil_node key new 0 Nil_node
             in
             if diff = 0 \<and> \<not> allow_duplicates then Some (T, -1)
             else if avl_linked new (chain T) then None
             else if diff = 0 then
               Some (T\<lparr>chain := avl_insert_after last ((key, new), False) (chain T),
                       count := count T + 1\<rparr>, 0)
             else if b = 1 then
               Some (T\<lparr>root := avl_zip (Node leaf k n 0 r) c,
                       chain := avl_insert_before n ((key, new), True) (chain T),
                       count := count T + 1\<rparr>, 0)
             else if b = -1 then
               Some (T\<lparr>root := avl_zip (Node l k n 0 leaf) c,
                       chain := avl_insert_after last ((key, new), True) (chain T),
                       count := count T + 1\<rparr>, 0)
             else if diff < 0 then
               Option.bind (post_insert (Node leaf k n (-1) r) c) (\<lambda>t.
               Some (T\<lparr>root := t,
                       chain := avl_insert_before n ((key, new), True) (chain T),
                       count := count T + 1\<rparr>, 0))
             else
               Option.bind (post_insert (Node l k n 1 leaf) c) (\<lambda>t.
               Some (T\<lparr>root := t,
                       chain := avl_insert_after last ((key, new), True) (chain T),
                       count := count T + 1\<rparr>, 0))))"

section \<open>Deletion\<close>

text \<open>\<open>avl_post_delete t c\<close>: the subtree \<open>t\<close> at the position has lost one level.\<close>

fun avl_post_delete :: "('k, 'n) avl_node \<Rightarrow> ('k, 'n) frame list \<Rightarrow> ('k, 'n) avl_node option" where
  "avl_post_delete t [] = Some t"
| "avl_post_delete t (InLeft k n b r # c) =
     (let b' = b + 1 in
      if b' = 0 then avl_post_delete (Node t k n b' r) c
      else if b' = 1 then Some (avl_zip (Node t k n b' r) c)
      else if r = Nil_node then None
      else if balance r = 0 then
        Option.bind (avl_rotate_left (Node t k n b' r)) (\<lambda>t'. Some (avl_zip t' c))
      else if balance r = 1 then
        Option.bind (avl_rotate_left (Node t k n b' r)) (\<lambda>t'. avl_post_delete t' c)
      else Option.bind (avl_rotate_right r) (\<lambda>r'.
        Option.bind (avl_rotate_left (Node t k n b' r')) (\<lambda>t'. avl_post_delete t' c)))"
| "avl_post_delete t (InRight l k n b # c) =
     (let b' = b - 1 in
      if b' = 0 then avl_post_delete (Node l k n b' t) c
      else if b' = -1 then Some (avl_zip (Node l k n b' t) c)
      else if l = Nil_node then None
      else if balance l = 0 then
        Option.bind (avl_rotate_right (Node l k n b' t)) (\<lambda>t'. Some (avl_zip t' c))
      else if balance l = -1 then
        Option.bind (avl_rotate_right (Node l k n b' t)) (\<lambda>t'. avl_post_delete t' c)
      else Option.bind (avl_rotate_left l) (\<lambda>l'.
        Option.bind (avl_rotate_right (Node l' k n b' t)) (\<lambda>t'. avl_post_delete t' c)))"

fun avl_local_min :: "('k, 'n) avl_node \<Rightarrow> ('k, 'n) frame list \<Rightarrow>
    ('k, 'n) avl_node \<times> ('k, 'n) frame list" where
  "avl_local_min (Node l k n b r) c =
     (if l \<noteq> Nil_node then avl_local_min l (InLeft k n b r # c) else (Node l k n b r, c))"
| "avl_local_min Nil_node c = (Nil_node, c)"

text \<open>\<open>min\<close> takes over the place, the balance and the children of the node \<open>n\<close>.\<close>

fun avl_replace :: "'n \<Rightarrow> 'k \<Rightarrow> 'n \<Rightarrow> ('k, 'n) avl_node \<Rightarrow> ('k, 'n) avl_node" where
  "avl_replace n mk mn Nil_node = Nil_node"
| "avl_replace n mk mn (Node l k n' b r) =
     (if n' = n then Node l mk mn b r
      else Node (avl_replace n mk mn l) k n' b (avl_replace n mk mn r))"

lemma size_avl_local_min: "size (fst (avl_local_min t c)) \<le> size t"
  by (induction t c rule: avl_local_min.induct) auto

function avl_delete_worker :: "('k, 'n) avl_node \<Rightarrow> ('k, 'n) frame list \<Rightarrow> ('k, 'n) avl_node option" where
  "avl_delete_worker Nil_node c = None"
| "avl_delete_worker (Node l k n b r) c =
     (if l = Nil_node \<and> r = Nil_node then
        (case c of
           [] \<Rightarrow> Some Nil_node
         | InLeft pk pn pb pr # c' \<Rightarrow>
             (let pb' = pb + 1 in
              if pb' = 1 then Some (avl_zip (Node Nil_node pk pn pb' pr) c')
              else if pb' = 0 then avl_post_delete (Node Nil_node pk pn pb' pr) c'
              else if pr = Nil_node then None
              else if balance pr = 0 then
                Option.bind (avl_rotate_left (Node Nil_node pk pn pb' pr)) (\<lambda>t. Some (avl_zip t c'))
              else if balance pr = 1 then
                Option.bind (avl_rotate_left (Node Nil_node pk pn pb' pr)) (\<lambda>t. avl_post_delete t c')
              else Option.bind (avl_rotate_right pr) (\<lambda>pr'.
                Option.bind (avl_rotate_left (Node Nil_node pk pn pb' pr')) (\<lambda>t. avl_post_delete t c')))
         | InRight pl pk pn pb # c' \<Rightarrow>
             (let pb' = pb - 1 in
              if pb' = -1 then Some (avl_zip (Node pl pk pn pb' Nil_node) c')
              else if pb' = 0 then avl_post_delete (Node pl pk pn pb' Nil_node) c'
              else if pl = Nil_node then None
              else if balance pl = 0 then
                Option.bind (avl_rotate_right (Node pl pk pn pb' Nil_node)) (\<lambda>t. Some (avl_zip t c'))
              else if balance pl = -1 then
                Option.bind (avl_rotate_right (Node pl pk pn pb' Nil_node)) (\<lambda>t. avl_post_delete t c')
              else Option.bind (avl_rotate_left pl) (\<lambda>pl'.
                Option.bind (avl_rotate_right (Node pl' pk pn pb' Nil_node)) (\<lambda>t. avl_post_delete t c'))))
      else if l = Nil_node then
        (if c = [] then Some r else avl_post_delete r c)
      else if r = Nil_node then
        (if c = [] then Some l else avl_post_delete l c)
      else
        (case avl_local_min r (InRight l k n b # c) of
           (Nil_node, mc) \<Rightarrow> None
         | (Node ml mk mn mb mr, mc) \<Rightarrow>
             Option.bind (avl_delete_worker (Node ml mk mn mb mr) mc) (\<lambda>t.
             Some (avl_replace n mk mn t))))"
  by pat_completeness auto
termination
proof (relation "measure (\<lambda>(t, c). size t)", goal_cases)
  case 1
  show ?case by simp
next
  case (2 l k n b r c x y l' k' n' b' r')
  hence "avl_local_min r (InRight l k n b # c) = (Node l' k' n' b' r', y)" by simp
  with size_avl_local_min [of r "InRight l k n b # c"] show ?case by simp
qed

declare avl_delete_worker.simps [simp del]

text \<open>A pointer to a tree node: the position of the node with the given identity.\<close>

fun avl_locate :: "'n \<Rightarrow> ('k, 'n) avl_node \<Rightarrow> ('k, 'n) frame list \<Rightarrow>
    (('k, 'n) avl_node \<times> ('k, 'n) frame list) option" where
  "avl_locate n Nil_node c = None"
| "avl_locate n (Node l k n' b r) c =
     (if n' = n then Some (Node l k n' b r, c)
      else case avl_locate n l (InLeft k n' b r # c) of
          Some p \<Rightarrow> Some p
        | None \<Rightarrow> avl_locate n r (InRight l k n' b # c))"

fun avl_next :: "'n \<Rightarrow> ('k, 'n) entry list \<Rightarrow> ('k, 'n) entry option" where
  "avl_next n [] = None"
| "avl_next n (x # xs) =
     (if snd (fst x) = n then (case xs of [] \<Rightarrow> None | y # _ \<Rightarrow> Some y) else avl_next n xs)"

definition avl_leader :: "'n \<Rightarrow> ('k, 'n) entry list \<Rightarrow> bool" where
  "avl_leader n xs \<longleftrightarrow> (\<exists>e\<in>set xs. snd (fst e) = n \<and> snd e)"

definition avl_set_leader :: "'n \<Rightarrow> ('k, 'n) entry list \<Rightarrow> ('k, 'n) entry list" where
  "avl_set_leader n xs = map (\<lambda>e. if snd (fst e) = n then (fst e, True) else e) xs"

definition avl_delete :: "('k, 'n) avl_tree \<Rightarrow> 'n \<Rightarrow> ('k, 'n) avl_tree option" where
  "avl_delete T n =
     (let finish = (\<lambda>t ch. Some (T\<lparr>root := t, chain := avl_remove n ch, count := count T - 1\<rparr>)) in
      if \<not> avl_linked n (chain T) then None
      else if avl_leader n (chain T) then
        (case avl_next n (chain T) of
           Some ((nk, nn), False) \<Rightarrow>
             finish (avl_replace n nk nn (root T)) (avl_set_leader nn (chain T))
         | _ \<Rightarrow>
             (case avl_locate n (root T) [] of
                None \<Rightarrow> None
              | Some (t, c) \<Rightarrow>
                  Option.bind (avl_delete_worker t c) (\<lambda>t'. finish t' (chain T))))
      else finish (root T) (chain T))"

section \<open>Walking\<close>

definition avl_walk :: "('k, 'n) avl_tree \<Rightarrow> ('k \<times> 'n) list" where
  "avl_walk T = map fst (chain T)"

definition avl_walk_first :: "('k, 'n) avl_tree \<Rightarrow> 'n option" where
  "avl_walk_first T = (case chain T of [] \<Rightarrow> None | e # _ \<Rightarrow> Some (snd (fst e)))"

definition avl_walk_last :: "('k, 'n) avl_tree \<Rightarrow> 'n option" where
  "avl_walk_last T = (if chain T = [] then None else Some (snd (fst (last (chain T)))))"

definition avl_walk_next :: "('k, 'n) avl_tree \<Rightarrow> 'n \<Rightarrow> 'n option" where
  "avl_walk_next T n = map_option (snd \<circ> fst) (avl_next n (chain T))"

end
