(* ===== verification/Olsr_Avl_Correct.thy ===== *)
theory Olsr_Avl_Correct
  imports Olsr_Avl
begin

text \<open>
  Correctness of the AVL tree: the invariant that ties the tree, its balance factors and
  the list together, that insertion and deletion keep it and never dereference NULL, and
  the contract of the index (a sequence of nodes sorted by key) that the databases of the
  daemon rely on, stated as the locale \<open>sorted_index\<close> and interpreted on the tree.
\<close>

section \<open>Shape and balance\<close>

lemma avl_cmp_simps [simp]:
  "avl_cmp a b < 0 \<longleftrightarrow> a < b" "0 < avl_cmp a b \<longleftrightarrow> b < a" "avl_cmp a b = 0 \<longleftrightarrow> a = b"
  by (auto simp: avl_cmp_def)

fun height :: "('k, 'n) avl_node \<Rightarrow> int" where
  "height Nil_node = 0"
| "height (Node l k n b r) = 1 + max (height l) (height r)"

fun inorder :: "('k, 'n) avl_node \<Rightarrow> ('k \<times> 'n) list" where
  "inorder Nil_node = []"
| "inorder (Node l k n b r) = inorder l @ (k, n) # inorder r"

fun bal_ok :: "('k, 'n) avl_node \<Rightarrow> bool" where
  "bal_ok Nil_node = True"
| "bal_ok (Node l k n b r) =
     (bal_ok l \<and> bal_ok r \<and> b = height r - height l \<and> -1 \<le> b \<and> b \<le> 1)"

text \<open>The frames above a position fit a subtree of height \<open>h\<close>.\<close>

fun ctx_ok :: "('k, 'n) frame list \<Rightarrow> int \<Rightarrow> bool" where
  "ctx_ok [] h = True"
| "ctx_ok (InLeft k n b r # c) h =
     (bal_ok r \<and> b = height r - h \<and> -1 \<le> b \<and> b \<le> 1 \<and> ctx_ok c (1 + max h (height r)))"
| "ctx_ok (InRight l k n b # c) h =
     (bal_ok l \<and> b = h - height l \<and> -1 \<le> b \<and> b \<le> 1 \<and> ctx_ok c (1 + max (height l) h))"

fun ctx_l :: "('k, 'n) frame list \<Rightarrow> ('k \<times> 'n) list" where
  "ctx_l [] = []"
| "ctx_l (InLeft k n b r # c) = ctx_l c"
| "ctx_l (InRight l k n b # c) = ctx_l c @ inorder l @ [(k, n)]"

fun ctx_r :: "('k, 'n) frame list \<Rightarrow> ('k \<times> 'n) list" where
  "ctx_r [] = []"
| "ctx_r (InLeft k n b r # c) = (k, n) # inorder r @ ctx_r c"
| "ctx_r (InRight l k n b # c) = ctx_r c"

lemma height_nonneg [simp]: "0 \<le> height t"
  by (induction t) auto

lemma height_pos [simp]: "0 < height t \<longleftrightarrow> t \<noteq> Nil_node"
proof (cases t)
  case (Node l k n b r)
  thus ?thesis using height_nonneg [of l] height_nonneg [of r] by (simp add: add_pos_nonneg max_def)
qed simp

lemma height_0 [simp]: "height t = 0 \<longleftrightarrow> t = Nil_node"
  using height_pos [of t] height_nonneg [of t] by linarith

lemma inorder_Nil [simp]: "inorder t = [] \<longleftrightarrow> t = Nil_node"
  by (cases t) auto

lemma inorder_zip [simp]: "inorder (avl_zip t c) = ctx_l c @ inorder t @ ctx_r c"
  by (induction t c rule: avl_zip.induct) auto

lemma bal_ok_zip [simp]: "bal_ok (avl_zip t c) \<longleftrightarrow> bal_ok t \<and> ctx_ok c (height t)"
  by (induction t c rule: avl_zip.induct) auto

lemma bal_ok_range: "bal_ok t \<Longrightarrow> t \<noteq> Nil_node \<Longrightarrow> -1 \<le> balance t \<and> balance t \<le> 1"
  by (cases t) auto

section \<open>Rotations\<close>

lemma rotate_right_single:
  assumes "bal_ok t" "bal_ok r" "height t = height r + 2" "balance t \<le> 0"
  shows "\<exists>t'. avl_rotate_right (Node t k n (-2) r) = Some t' \<and> bal_ok t' \<and>
           inorder t' = inorder t @ (k, n) # inorder r \<and>
           height t' = (if balance t = 0 then height t + 1 else height t)"
proof (cases t)
  case Nil_node
  with assms(3) height_nonneg [of r] show ?thesis by simp
next
  case (Node ll lk ln lb lr)
  with assms show ?thesis
    by (auto simp: Let_def max_def min_def split: if_splits)
qed

lemma rotate_left_single:
  assumes "bal_ok t" "bal_ok l" "height t = height l + 2" "0 \<le> balance t"
  shows "\<exists>t'. avl_rotate_left (Node l k n 2 t) = Some t' \<and> bal_ok t' \<and>
           inorder t' = inorder l @ (k, n) # inorder t \<and>
           height t' = (if balance t = 0 then height t + 1 else height t)"
proof (cases t)
  case Nil_node
  with assms(3) height_nonneg [of l] show ?thesis by simp
next
  case (Node rl rk rn rb rr)
  with assms show ?thesis
    by (auto simp: Let_def max_def min_def split: if_splits)
qed

lemma rotate_left_right:
  assumes "bal_ok t" "bal_ok r" "height t = height r + 2" "balance t = 1"
  shows "\<exists>s t'. avl_rotate_left t = Some s \<and> avl_rotate_right (Node s k n (-2) r) = Some t' \<and>
           bal_ok t' \<and> inorder t' = inorder t @ (k, n) # inorder r \<and> height t' = height t"
proof (cases t)
  case Nil_node
  with assms(3) height_nonneg [of r] show ?thesis by simp
next
  case [simp]: (Node ll lk ln lb lr)
  show ?thesis
  proof (cases lr)
    case Nil_node
    with assms height_nonneg [of ll] show ?thesis by simp
  next
    case (Node a x y z w)
    with assms show ?thesis
      by (auto simp: Let_def max_def min_def split: if_splits)
  qed
qed

lemma rotate_right_left:
  assumes "bal_ok t" "bal_ok l" "height t = height l + 2" "balance t = -1"
  shows "\<exists>s t'. avl_rotate_right t = Some s \<and> avl_rotate_left (Node l k n 2 s) = Some t' \<and>
           bal_ok t' \<and> inorder t' = inorder l @ (k, n) # inorder t \<and> height t' = height t"
proof (cases t)
  case Nil_node
  with assms(3) height_nonneg [of l] show ?thesis by simp
next
  case [simp]: (Node rl rk rn rb rr)
  show ?thesis
  proof (cases rl)
    case Nil_node
    with assms height_nonneg [of rr] show ?thesis by simp
  next
    case (Node a x y z w)
    with assms show ?thesis
      by (auto simp: Let_def max_def min_def split: if_splits)
  qed
qed

section \<open>Rebalancing after a change of height\<close>

lemma post_insert_ok:
  "bal_ok t \<Longrightarrow> t \<noteq> Nil_node \<Longrightarrow> balance t \<noteq> 0 \<Longrightarrow> ctx_ok c (height t - 1) \<Longrightarrow>
   \<exists>t'. post_insert t c = Some t' \<and> bal_ok t' \<and> inorder t' = ctx_l c @ inorder t @ ctx_r c"
proof (induction t c rule: post_insert.induct)
  case (2 t k n b r c)
  from "2.prems" consider (b0) "b = 1" "height r = height t" | (b1) "b = 0" "height r = height t - 1"
    | (b2) "b = -1" "height t = height r + 2" by fastforce
  thus ?case
  proof cases
    case b0
    with "2.prems" show ?thesis by simp
  next
    case b1
    with "2.prems" "2.IH" show ?thesis by simp
  next
    case b2
    with "2.prems" have c: "ctx_ok c (height t)" and r: "bal_ok r" by (simp_all add: max_def add.commute)
    from bal_ok_range [OF "2.prems"(1,2)] "2.prems"(3) have "balance t = -1 \<or> balance t = 1" by linarith
    thus ?thesis
    proof
      assume "balance t = -1"
      with rotate_right_single [of t r k n, OF "2.prems"(1) r b2(2)] b2 c "2.prems"(2)
      show ?thesis by auto
    next
      assume "balance t = 1"
      with rotate_left_right [of t r k n, OF "2.prems"(1) r b2(2)] b2 c "2.prems"(2)
      show ?thesis by auto
    qed
  qed
next
  case (3 t l k n b c)
  from "3.prems" consider (b0) "b = -1" "height l = height t" | (b1) "b = 0" "height l = height t - 1"
    | (b2) "b = 1" "height t = height l + 2" by fastforce
  thus ?case
  proof cases
    case b0
    with "3.prems" show ?thesis by simp
  next
    case b1
    with "3.prems" "3.IH" show ?thesis by simp
  next
    case b2
    with "3.prems" have c: "ctx_ok c (height t)" and l: "bal_ok l" by (simp_all add: max_def add.commute)
    from bal_ok_range [OF "3.prems"(1,2)] "3.prems"(3) have "balance t = -1 \<or> balance t = 1" by linarith
    thus ?thesis
    proof
      assume "balance t = 1"
      with rotate_left_single [of t l k n, OF "3.prems"(1) l b2(2)] b2 c "3.prems"(2)
      show ?thesis by auto
    next
      assume "balance t = -1"
      with rotate_right_left [of t l k n, OF "3.prems"(1) l b2(2)] b2 c "3.prems"(2)
      show ?thesis by auto
    qed
  qed
qed simp

text \<open>
  One level of \<open>avl_post_delete\<close> under a parent whose left, or right, subtree shrank; the
  induction hypothesis of the climb is the premise on the frames further up.
\<close>

lemma post_delete_InLeft:
  assumes IH: "\<And>t'. bal_ok t' \<Longrightarrow> ctx_ok c (height t' + 1) \<Longrightarrow>
      \<exists>t''. avl_post_delete t' c = Some t'' \<and> bal_ok t'' \<and> inorder t'' = ctx_l c @ inorder t' @ ctx_r c"
    and t: "bal_ok t" and f: "ctx_ok (InLeft k n b r # c) (height t + 1)"
  shows "\<exists>t'. avl_post_delete t (InLeft k n b r # c) = Some t' \<and> bal_ok t' \<and>
           inorder t' = ctx_l c @ inorder t @ (k, n) # inorder r @ ctx_r c"
proof -
  from f have r: "bal_ok r" by simp
  from f consider (b0) "b = -1" "height r = height t" | (b1) "b = 0" "height r = height t + 1"
    | (b2) "b = 1" "height r = height t + 2" by fastforce
  thus ?thesis
  proof cases
    case b0
    with t f IH [of "Node t k n 0 r"] show ?thesis by (simp add: add.commute)
  next
    case b1
    with t f show ?thesis by (simp add: add.commute)
  next
    case b2
    with f have c: "ctx_ok c (height r + 1)" by (simp add: max_def add.commute)
    from b2 have ne: "r \<noteq> Nil_node" using height_nonneg [of t] height_pos [of r] by linarith
    note single = rotate_left_single [of r t k n, OF r t b2(2)]
    from bal_ok_range [OF r ne] consider "balance r = 0" | "balance r = 1" | "balance r = -1" by linarith
    thus ?thesis
    proof cases
      case 1
      with single b2 c ne show ?thesis by auto
    next
      case 2
      with single obtain t' where "avl_rotate_left (Node t k n 2 r) = Some t'" "bal_ok t'"
        "height t' = height r" "inorder t' = inorder t @ (k, n) # inorder r" by auto
      with IH [of t'] c b2(1) ne 2 show ?thesis by auto
    next
      case 3
      with rotate_right_left [of r t k n, OF r t b2(2)] obtain s t' where
        "avl_rotate_right r = Some s" "avl_rotate_left (Node t k n 2 s) = Some t'" "bal_ok t'"
        "height t' = height r" "inorder t' = inorder t @ (k, n) # inorder r" by auto
      with IH [of t'] c b2(1) ne 3 show ?thesis by auto
    qed
  qed
qed

lemma post_delete_InRight:
  assumes IH: "\<And>t'. bal_ok t' \<Longrightarrow> ctx_ok c (height t' + 1) \<Longrightarrow>
      \<exists>t''. avl_post_delete t' c = Some t'' \<and> bal_ok t'' \<and> inorder t'' = ctx_l c @ inorder t' @ ctx_r c"
    and t: "bal_ok t" and f: "ctx_ok (InRight l k n b # c) (height t + 1)"
  shows "\<exists>t'. avl_post_delete t (InRight l k n b # c) = Some t' \<and> bal_ok t' \<and>
           inorder t' = ctx_l c @ inorder l @ (k, n) # inorder t @ ctx_r c"
proof -
  from f have l: "bal_ok l" by simp
  from f consider (b0) "b = 1" "height l = height t" | (b1) "b = 0" "height l = height t + 1"
    | (b2) "b = -1" "height l = height t + 2" by fastforce
  thus ?thesis
  proof cases
    case b0
    with t f IH [of "Node l k n 0 t"] show ?thesis by (simp add: add.commute)
  next
    case b1
    with t f show ?thesis by (simp add: add.commute)
  next
    case b2
    with f have c: "ctx_ok c (height l + 1)" by (simp add: max_def add.commute)
    from b2 have ne: "l \<noteq> Nil_node" using height_nonneg [of t] height_pos [of l] by linarith
    note single = rotate_right_single [of l t k n, OF l t b2(2)]
    from bal_ok_range [OF l ne] consider "balance l = 0" | "balance l = -1" | "balance l = 1" by linarith
    thus ?thesis
    proof cases
      case 1
      with single b2 c ne show ?thesis by auto
    next
      case 2
      with single obtain t' where "avl_rotate_right (Node l k n (-2) t) = Some t'" "bal_ok t'"
        "height t' = height l" "inorder t' = inorder l @ (k, n) # inorder t" by auto
      with IH [of t'] c b2(1) ne 2 show ?thesis by auto
    next
      case 3
      with rotate_left_right [of l t k n, OF l t b2(2)] obtain s t' where
        "avl_rotate_left l = Some s" "avl_rotate_right (Node s k n (-2) t) = Some t'" "bal_ok t'"
        "height t' = height l" "inorder t' = inorder l @ (k, n) # inorder t" by auto
      with IH [of t'] c b2(1) ne 3 show ?thesis by auto
    qed
  qed
qed

lemma post_delete_ok:
  "bal_ok t \<Longrightarrow> ctx_ok c (height t + 1) \<Longrightarrow>
   \<exists>t'. avl_post_delete t c = Some t' \<and> bal_ok t' \<and> inorder t' = ctx_l c @ inorder t @ ctx_r c"
proof (induction c arbitrary: t)
  case (Cons f c)
  show ?case
  proof (cases f)
    case (InLeft k n b r)
    with post_delete_InLeft [of c t k n b r] Cons show ?thesis by auto
  next
    case (InRight l k n b)
    with post_delete_InRight [of c t l k n b] Cons show ?thesis by auto
  qed
qed simp

section \<open>Positions\<close>

lemma find_rec_pos:
  assumes "sorted_wrt (<) (map fst (inorder t))" "t \<noteq> Nil_node"
  shows "case avl_find_rec t key c of (p, c') \<Rightarrow>
    p \<noteq> Nil_node \<and> avl_zip p c' = avl_zip t c \<and>
    (key < nkey p \<longrightarrow> left p = Nil_node) \<and> (nkey p < key \<longrightarrow> right p = Nil_node) \<and>
    (\<exists>ys zs. ctx_l c' = ctx_l c @ ys \<and> ctx_r c' = zs @ ctx_r c \<and>
      (\<forall>y\<in>set ys. fst y < key) \<and> (\<forall>z\<in>set zs. key < fst z))"
  using assms
proof (induction t key c rule: avl_find_rec.induct)
  case (2 l k n b r key c)
  from "2.prems" have s: "sorted_wrt (<) (map fst (inorder l))" "sorted_wrt (<) (map fst (inorder r))"
    and lt: "\<forall>y\<in>set (inorder l). fst y < k" and gt: "\<forall>z\<in>set (inorder r). k < fst z"
    by (auto simp: sorted_wrt_append)
  consider "key < k" "l \<noteq> Nil_node" | "k < key" "r \<noteq> Nil_node" | "key = k"
    | "key < k" "l = Nil_node" | "k < key" "r = Nil_node" by fastforce
  thus ?case
  proof cases
    case 1
    hence "avl_cmp key k < 0" by simp
    note IH = "2.IH"(1) [OF refl this 1(2) s(1) 1(2)]
    obtain p c' where p: "avl_find_rec l key (InLeft k n b r # c) = (p, c')" by fastforce
    with IH obtain ys zs where "ctx_l c' = ctx_l c @ ys" "ctx_r c' = (zs @ (k, n) # inorder r) @ ctx_r c"
      "\<forall>y\<in>set ys. fst y < key" "\<forall>z\<in>set zs. key < fst z" by auto
    moreover have "\<forall>z\<in>set ((k, n) # inorder r). key < fst z" using gt 1 by auto
    ultimately have "\<exists>ys zs. ctx_l c' = ctx_l c @ ys \<and> ctx_r c' = zs @ ctx_r c \<and>
      (\<forall>y\<in>set ys. fst y < key) \<and> (\<forall>z\<in>set zs. key < fst z)"
      by (intro exI [of _ ys] exI [of _ "zs @ (k, n) # inorder r"]) auto
    with IH p 1 show ?thesis by simp
  next
    case 2
    hence "\<not> avl_cmp key k < 0" "0 < avl_cmp key k" by simp_all
    note IH = "2.IH"(2) [OF refl this 2(2) s(2) 2(2)]
    obtain p c' where p: "avl_find_rec r key (InRight l k n b # c) = (p, c')" by fastforce
    with IH obtain ys zs where "ctx_l c' = ctx_l c @ (inorder l @ (k, n) # ys)" "ctx_r c' = zs @ ctx_r c"
      "\<forall>y\<in>set ys. fst y < key" "\<forall>z\<in>set zs. key < fst z" by auto
    moreover have "\<forall>y\<in>set (inorder l @ [(k, n)]). fst y < key" using lt 2 by auto
    ultimately have "\<exists>ys zs. ctx_l c' = ctx_l c @ ys \<and> ctx_r c' = zs @ ctx_r c \<and>
      (\<forall>y\<in>set ys. fst y < key) \<and> (\<forall>z\<in>set zs. key < fst z)"
      by (intro exI [of _ "inorder l @ (k, n) # ys"] exI [of _ zs]) auto
    with IH p 2 less_not_sym [OF 2(1)] show ?thesis by simp
  next
    case 4
    thus ?thesis using less_not_sym [OF 4(1)] by simp
  next
    case 5
    thus ?thesis using less_not_sym [OF 5(1)] by simp
  qed simp
qed simp

lemma local_min_pos:
  "t \<noteq> Nil_node \<Longrightarrow> \<exists>k n b r c'. avl_local_min t c = (Node Nil_node k n b r, c') \<and>
     avl_zip (Node Nil_node k n b r) c' = avl_zip t c \<and> ctx_l c' = ctx_l c \<and>
     inorder t @ ctx_r c = (k, n) # inorder r @ ctx_r c'"
proof (induction t c rule: avl_local_min.induct)
  case (1 l k n b r c)
  show ?case
  proof (cases "l = Nil_node")
    case False
    from "1.IH" [OF False False] obtain k' n' b' r' c' where
      "avl_local_min l (InLeft k n b r # c) = (Node Nil_node k' n' b' r', c')"
      "avl_zip (Node Nil_node k' n' b' r') c' = avl_zip l (InLeft k n b r # c)"
      "ctx_l c' = ctx_l (InLeft k n b r # c)"
      "inorder l @ ctx_r (InLeft k n b r # c) = (k', n') # inorder r' @ ctx_r c'" by blast
    with False show ?thesis by auto
  qed simp
qed simp

lemma locate_None: "n \<notin> snd ` set (inorder t) \<Longrightarrow> avl_locate n t c = None"
  by (induction n t c rule: avl_locate.induct) (auto simp: image_Un)

lemma locate_pos:
  "n \<in> snd ` set (inorder t) \<Longrightarrow> \<exists>l k b r c'. avl_locate n t c = Some (Node l k n b r, c') \<and>
     avl_zip (Node l k n b r) c' = avl_zip t c"
proof (induction n t c rule: avl_locate.induct)
  case (2 n l k n' b r c)
  from "2.prems" consider "n' = n" | "n' \<noteq> n" "n \<in> snd ` set (inorder l)"
    | "n' \<noteq> n" "n \<notin> snd ` set (inorder l)" "n \<in> snd ` set (inorder r)" by fastforce
  thus ?case
  proof cases
    case 2
    with "2.IH"(1) obtain l' k' b' r' c' where "avl_locate n l (InLeft k n' b r # c) = Some (Node l' k' n b' r', c')"
      "avl_zip (Node l' k' n b' r') c' = avl_zip l (InLeft k n' b r # c)" by blast
    with 2 show ?thesis by simp
  next
    case 3
    hence "avl_locate n l (InLeft k n' b r # c) = None" by (simp add: locate_None)
    with 3 "2.IH"(2) show ?thesis by simp
  qed simp
qed simp

section \<open>Removing a node from the tree\<close>

lemma delete_worker_left_Nil: "avl_delete_worker (Node Nil_node k n b r) c = avl_post_delete r c"
  by (cases c; cases "hd c") (auto simp: avl_delete_worker.simps Let_def)

lemma delete_worker_right_Nil: "avl_delete_worker (Node l k n b Nil_node) c = avl_post_delete l c"
proof (cases "l = Nil_node")
  case True
  thus ?thesis by (simp add: delete_worker_left_Nil)
next
  case False
  thus ?thesis by (cases c) (simp_all add: avl_delete_worker.simps)
qed

lemma bal_ok_replace [simp]:
  "height (avl_replace n mk mn t) = height t" "bal_ok (avl_replace n mk mn t) = bal_ok t"
  by (induction t) auto

lemma inorder_replace:
  "distinct (map snd (inorder t)) \<Longrightarrow>
   inorder (avl_replace n mk mn t) = map (\<lambda>p. if snd p = n then (mk, mn) else p) (inorder t)"
proof (induction t)
  case (Node l k n' b r)
  have "map (\<lambda>p. if snd p = n then (mk, mn) else p) xs = xs" if "n \<notin> snd ` set xs" for xs
    using that by (intro map_idI) auto
  with Node show ?case by auto
qed simp

lemma delete_worker_ok:
  assumes "bal_ok (avl_zip (Node l k n b r) c)" "distinct (map snd (inorder (avl_zip (Node l k n b r) c)))"
  shows "\<exists>t'. avl_delete_worker (Node l k n b r) c = Some t' \<and> bal_ok t' \<and>
           inorder t' = ctx_l c @ inorder l @ inorder r @ ctx_r c"
proof (cases "l = Nil_node \<or> r = Nil_node")
  case True
  from assms(1) have "ctx_ok c (max (height l) (height r) + 1)" "bal_ok l" "bal_ok r"
    by (simp_all add: add.commute)
  with True show ?thesis
    using post_delete_ok [of r c] post_delete_ok [of l c]
    by (auto simp: delete_worker_left_Nil delete_worker_right_Nil max_absorb1 max_absorb2)
next
  case False
  let ?c = "InRight l k n b # c"
  from False local_min_pos [of r ?c] obtain mk mn mb mr mc where
    m: "avl_local_min r ?c = (Node Nil_node mk mn mb mr, mc)" "ctx_l mc = ctx_l ?c"
    and z: "avl_zip (Node Nil_node mk mn mb mr) mc = avl_zip r ?c"
    and io: "inorder r @ ctx_r ?c = (mk, mn) # inorder mr @ ctx_r mc" by blast
  from assms(1) z have "bal_ok (avl_zip (Node Nil_node mk mn mb mr) mc)" by simp
  hence "bal_ok mr" "ctx_ok mc (height mr + 1)" by (simp_all add: add.commute max_def)
  with post_delete_ok [of mr mc] obtain t where
    t: "avl_post_delete mr mc = Some t" "bal_ok t" "inorder t = ctx_l mc @ inorder mr @ ctx_r mc" by blast
  from io obtain rest where rest: "inorder r = (mk, mn) # rest" "rest @ ctx_r c = inorder mr @ ctx_r mc"
    using False by (cases "inorder r") auto
  have t': "inorder t = ctx_l c @ inorder l @ (k, n) # rest @ ctx_r c" using t m rest by simp
  have d: "distinct (map snd (inorder t))" "n \<notin> snd ` set (ctx_l c @ inorder l @ rest @ ctx_r c)"
    using assms(2) t' rest by auto
  have "map (\<lambda>p. if snd p = n then (mk, mn) else p) xs = xs" if "n \<notin> snd ` set xs" for xs
    using that by (intro map_idI) auto
  hence "inorder (avl_replace n mk mn t) = ctx_l c @ inorder l @ (mk, mn) # rest @ ctx_r c"
    using d by (simp add: inorder_replace t' image_Un)
  with False m t rest show ?thesis
    by (simp add: avl_delete_worker.simps(2) [of l] delete_worker_left_Nil)
qed

section \<open>The list of nodes and its leader flags\<close>

text \<open>In a list sorted by key the leaders are the nodes that begin a run of equal keys.\<close>

fun mark :: "'k option \<Rightarrow> ('k \<times> 'n) list \<Rightarrow> ('k, 'n) entry list" where
  "mark p [] = []"
| "mark p (x # xs) = (x, p \<noteq> Some (fst x)) # mark (Some (fst x)) xs"

definition leaders :: "('k, 'n) entry list \<Rightarrow> ('k \<times> 'n) list" where
  "leaders ch = map fst (filter snd ch)"

lemma map_fst_mark [simp]: "map fst (mark p xs) = xs"
  by (induction xs arbitrary: p) auto

lemma leaders_simps [simp]:
  "leaders [] = []" "leaders (e # ch) = (if snd e then fst e # leaders ch else leaders ch)"
  "leaders (ch @ ch') = leaders ch @ leaders ch'"
  by (simp_all add: leaders_def)

lemma leaders_mark_subset: "set (leaders (mark p xs)) \<subseteq> set xs"
  by (induction xs arbitrary: p) auto

lemma mark_neq: "\<forall>x\<in>set xs. p \<noteq> Some (fst x) \<Longrightarrow> mark p xs = mark None xs"
  by (cases xs) auto

lemma mark_append:
  "\<forall>x\<in>set xs. \<forall>y\<in>set ys. fst x \<noteq> fst y \<Longrightarrow> \<forall>y\<in>set ys. p \<noteq> Some (fst y) \<Longrightarrow>
   mark p (xs @ ys) = mark p xs @ mark None ys"
proof (induction xs arbitrary: p)
  case Nil
  thus ?case using mark_neq [of ys p] by simp
qed simp

lemma mark_run: "\<forall>x\<in>set xs. fst x = k \<Longrightarrow> mark (Some k) xs = map (\<lambda>x. (x, False)) xs"
  by (induction xs) auto

lemma keys_leaders:
  "x \<in> set xs \<Longrightarrow> p = Some (fst x) \<or> fst x \<in> fst ` set (leaders (mark p xs))"
proof (induction xs arbitrary: p)
  case (Cons a xs)
  from Cons.prems Cons.IH [of "Some (fst a)"] show ?case by auto
qed simp

lemma leaders_greater:
  "sorted (k # map fst xs) \<Longrightarrow> x \<in> set (leaders (mark (Some k) xs)) \<Longrightarrow> k < fst x"
proof (induction xs arbitrary: k)
  case (Cons a xs)
  show ?case
  proof (cases "k = fst a")
    case True
    with Cons show ?thesis by simp
  next
    case False
    with Cons.prems have "k < fst a" by (simp add: order.not_eq_order_implies_strict)
    with False Cons.prems Cons.IH [of "fst a"] show ?thesis by auto
  qed
qed simp

lemma leaders_strict: "sorted (map fst xs) \<Longrightarrow> sorted_wrt (<) (map fst (leaders (mark p xs)))"
proof (induction xs arbitrary: p)
  case (Cons a xs)
  from Cons.prems have "\<forall>x\<in>set (leaders (mark (Some (fst a)) xs)). fst a < fst x"
    using leaders_greater [of "fst a" xs] by simp
  with Cons show ?case by simp
qed simp

text \<open>A sorted sequence falls into the nodes below, at and above a key.\<close>

definition below_key :: "'k::linorder \<Rightarrow> ('k \<times> 'n) list \<Rightarrow> ('k \<times> 'n) list" where
  "below_key k xs = filter (\<lambda>p. fst p < k) xs"

definition at_key :: "'k \<Rightarrow> ('k \<times> 'n) list \<Rightarrow> ('k \<times> 'n) list" where
  "at_key k xs = filter (\<lambda>p. fst p = k) xs"

definition above_key :: "'k::linorder \<Rightarrow> ('k \<times> 'n) list \<Rightarrow> ('k \<times> 'n) list" where
  "above_key k xs = filter (\<lambda>p. k < fst p) xs"

lemma split_at_key: "sorted (map fst xs) \<Longrightarrow> xs = below_key k xs @ at_key k xs @ above_key k xs"
proof (induction xs)
  case (Cons a xs)
  have none: "below_key k xs = []" "at_key k xs = []" if "k < fst a"
    using Cons.prems that by (auto simp: below_key_def at_key_def filter_empty_conv)
  have "below_key k xs = []" if "k = fst a"
    using Cons.prems that by (auto simp: below_key_def filter_empty_conv)
  with none Cons show ?case
    by (cases "fst a" k rule: linorder_cases) (auto simp: below_key_def at_key_def above_key_def)
qed (simp add: below_key_def at_key_def above_key_def)

lemma mark_split:
  assumes "sorted (map fst xs)"
  shows "mark None xs = mark None (below_key k xs) @ mark None (at_key k xs) @ mark None (above_key k xs)"
proof -
  have "mark None (at_key k xs @ above_key k xs) = mark None (at_key k xs) @ mark None (above_key k xs)"
    by (rule mark_append) (auto simp: at_key_def above_key_def)
  moreover have "mark None (below_key k xs @ at_key k xs @ above_key k xs) =
      mark None (below_key k xs) @ mark None (at_key k xs @ above_key k xs)"
    by (rule mark_append) (auto simp: below_key_def at_key_def above_key_def)
  ultimately have "mark None (below_key k xs @ at_key k xs @ above_key k xs) =
      mark None (below_key k xs) @ mark None (at_key k xs) @ mark None (above_key k xs)" by simp
  thus ?thesis using split_at_key [OF assms, of k] by simp
qed

lemma leaders_below:
  assumes "sorted (map fst xs)" "leaders (mark None xs) = ys @ (k, n) # zs"
  shows "leaders (mark None (below_key k xs)) = ys \<and> (\<exists>ds. at_key k xs = (k, n) # ds) \<and>
    leaders (mark None (above_key k xs)) = zs"
proof -
  let ?B = "leaders (mark None (below_key k xs))" and ?E = "leaders (mark None (at_key k xs))"
    and ?A = "leaders (mark None (above_key k xs))"
  have eq: "?B @ ?E @ ?A = ys @ (k, n) # zs"
    using mark_split [OF assms(1), of k] assms(2) by simp
  have B: "\<forall>x\<in>set ?B. fst x \<noteq> k" and A: "\<forall>x\<in>set ?A. fst x \<noteq> k"
    using leaders_mark_subset [of None "below_key k xs"] leaders_mark_subset [of None "above_key k xs"]
    by (auto simp: below_key_def above_key_def)
  have "sorted_wrt (<) (map fst (leaders (mark None xs)))" by (rule leaders_strict [OF assms(1)])
  hence yz: "\<forall>y\<in>set ys. fst y \<noteq> k" "\<forall>z\<in>set zs. fst z \<noteq> k"
    unfolding assms(2) by (auto simp: sorted_wrt_append)
  have "(k, n) \<in> set (leaders (mark None xs))" using assms(2) by simp
  hence "(k, n) \<in> set (at_key k xs)"
    using leaders_mark_subset [of None xs] by (auto simp: at_key_def)
  then obtain x ds where x: "at_key k xs = x # ds" by (cases "at_key k xs") auto
  hence k: "\<forall>d\<in>set (x # ds). fst d = k" unfolding x [symmetric] at_key_def by auto
  hence "?E = [x]" using x by (simp add: mark_run leaders_def)
  with eq have "?B @ x # ?A = ys @ (k, n) # zs" by simp
  moreover from k have "fst x = k" by simp
  ultimately have "?B = ys \<and> x = (k, n) \<and> ?A = zs"
    using B A yz by (auto simp: append_eq_append_conv2 append_eq_Cons_conv Cons_eq_append_conv)
  with x show ?thesis by simp
qed

section \<open>Surgery on the list\<close>

abbreviation ids :: "('k, 'n) entry list \<Rightarrow> 'n set" where
  "ids ch \<equiv> (snd \<circ> fst) ` set ch"

abbreviation dups :: "('k \<times> 'n) list \<Rightarrow> ('k, 'n) entry list" where
  "dups ds \<equiv> map (\<lambda>x. (x, False)) ds"

lemma ids_mark: "ids (mark p xs) = snd ` set xs"
proof -
  have "ids (mark p xs) = snd ` set (map fst (mark p xs))" by (force simp del: map_fst_mark)
  thus ?thesis by simp
qed

lemma insert_before_at: "n \<notin> ids A \<Longrightarrow> avl_insert_before n e (A @ ((k, n), f) # B) = A @ e # ((k, n), f) # B"
  by (induction A) auto

lemma insert_after_at: "n \<notin> ids A \<Longrightarrow> avl_insert_after n e (A @ ((k, n), f) # B) = A @ ((k, n), f) # e # B"
  by (induction A) auto

lemma skip_dups: "B = [] \<or> snd (hd B) \<Longrightarrow> avl_skip_dups n (dups ds @ B) = (if ds = [] then n else snd (last ds))"
proof (induction ds arbitrary: n)
  case Nil
  thus ?case by (cases B; cases "hd B") auto
qed simp

lemma last_dup_at:
  "n \<notin> ids A \<Longrightarrow> B = [] \<or> snd (hd B) \<Longrightarrow>
   avl_last_dup n (A @ ((k, n), True) # dups ds @ B) = (if ds = [] then n else snd (last ds))"
  by (induction A) (auto simp: skip_dups)

lemma insert_after_group:
  assumes "distinct (map (snd \<circ> fst) (A @ ((k, n), True) # dups ds @ B))" "B = [] \<or> snd (hd B)"
  shows "avl_insert_after (avl_last_dup n (A @ ((k, n), True) # dups ds @ B)) e (A @ ((k, n), True) # dups ds @ B) =
    A @ ((k, n), True) # dups ds @ e # B"
proof (cases ds rule: rev_cases)
  case Nil
  with assms show ?thesis using insert_after_at [of n A e k True B] last_dup_at [of n A B k ds] by simp
next
  case (snoc ds' d)
  let ?A = "A @ ((k, n), True) # dups ds'"
  from snoc assms have "snd d \<notin> ids ?A" by auto
  hence "avl_insert_after (snd d) e (?A @ ((fst d, snd d), False) # B) = ?A @ ((fst d, snd d), False) # e # B"
    by (rule insert_after_at)
  moreover have "avl_last_dup n (A @ ((k, n), True) # dups ds @ B) = snd d"
    using last_dup_at [of n A B k ds] assms snoc by simp
  ultimately show ?thesis using snoc by simp
qed

lemma hd_mark: "mark None xs = [] \<or> snd (hd (mark None xs))"
  by (cases xs) auto

text \<open>The list at the group of a leader.\<close>

lemma chain_at_leader:
  assumes "sorted (map fst xs)" "at_key k xs = (k, n) # ds"
  shows "mark None xs = mark None (below_key k xs) @ ((k, n), True) # dups ds @ mark None (above_key k xs)"
proof -
  have "\<forall>d\<in>set ((k, n) # ds). fst d = k" unfolding assms(2) [symmetric] at_key_def by auto
  hence "mark None (at_key k xs) = ((k, n), True) # dups ds" by (simp add: assms(2) mark_run)
  with mark_split [OF assms(1), of k] show ?thesis by simp
qed

section \<open>The invariant\<close>

definition avl_inv :: "('k::linorder, 'n) avl_tree \<Rightarrow> bool" where
  "avl_inv T \<longleftrightarrow>
     bal_ok (root T) \<and> sorted (map fst (avl_walk T)) \<and> distinct (map snd (avl_walk T)) \<and>
     chain T = mark None (avl_walk T) \<and> inorder (root T) = leaders (chain T) \<and>
     count T = of_nat (length (chain T))"

lemma avl_inv_init: "avl_inv avl_init"
  by (simp add: avl_inv_def avl_init_def avl_walk_def)

lemma avl_walk_init [simp]: "avl_walk avl_init = []"
  by (simp add: avl_init_def avl_walk_def)

text \<open>
  Where the search for a key ends in a tree that satisfies the invariant: the node found,
  the group of its key in the list, and what the search path says about the neighbours.
\<close>

definition found_at :: "('k::linorder, 'n) avl_tree \<Rightarrow> 'k \<Rightarrow> ('k, 'n) avl_node \<Rightarrow> 'k \<Rightarrow> 'n \<Rightarrow> int \<Rightarrow>
    ('k, 'n) avl_node \<Rightarrow> ('k, 'n) frame list \<Rightarrow> ('k \<times> 'n) list \<Rightarrow> bool" where
  "found_at T key l k n b r c ds \<longleftrightarrow>
     avl_find_rec (root T) key [] = (Node l k n b r, c) \<and> bal_ok (avl_zip (Node l k n b r) c) \<and>
     at_key k (avl_walk T) = (k, n) # ds \<and>
     leaders (mark None (below_key k (avl_walk T))) = ctx_l c @ inorder l \<and>
     leaders (mark None (above_key k (avl_walk T))) = inorder r @ ctx_r c \<and>
     (key < k \<longrightarrow> l = Nil_node \<and> (\<forall>x\<in>set (below_key k (avl_walk T)). fst x < key)) \<and>
     (k < key \<longrightarrow> r = Nil_node \<and> (\<forall>x\<in>set (above_key k (avl_walk T)). key < fst x))"

lemma find_rec_chain:
  assumes inv: "avl_inv T" and ne: "root T \<noteq> Nil_node"
  obtains l k n b r c ds where "found_at T key l k n b r c ds"
proof -
  let ?S = "avl_walk T"
  from inv have S: "sorted (map fst ?S)" and io: "inorder (root T) = leaders (mark None ?S)"
    and bal: "bal_ok (root T)" by (auto simp: avl_inv_def)
  hence strict: "sorted_wrt (<) (map fst (inorder (root T)))" by (simp add: leaders_strict)
  obtain p c where p: "avl_find_rec (root T) key [] = (p, c)" by fastforce
  with find_rec_pos [OF strict ne, where key = key and c = "[]"]
  have pos: "p \<noteq> Nil_node" "avl_zip p c = root T"
    "key < nkey p \<longrightarrow> left p = Nil_node" "nkey p < key \<longrightarrow> right p = Nil_node"
    "\<forall>y\<in>set (ctx_l c). fst y < key" "\<forall>z\<in>set (ctx_r c). key < fst z" by auto
  from pos(1) obtain l k n b r where P: "p = Node l k n b r" by (cases p) auto
  have "leaders (mark None ?S) = (ctx_l c @ inorder l) @ (k, n) # (inorder r @ ctx_r c)"
    using pos(2) P inorder_zip [of p c] io by simp
  from leaders_below [OF S this] obtain ds where
    g: "leaders (mark None (below_key k ?S)) = ctx_l c @ inorder l" "at_key k ?S = (k, n) # ds"
       "leaders (mark None (above_key k ?S)) = inorder r @ ctx_r c" by blast
  have "fst x < key" if "x \<in> set (below_key k ?S)" "key < k" for x
    using keys_leaders [OF that(1), of None] g(1) pos(3,5) P that(2) by auto
  moreover have "key < fst x" if "x \<in> set (above_key k ?S)" "k < key" for x
    using keys_leaders [OF that(1), of None] g(3) pos(4,6) P that(2) by auto
  ultimately show thesis
    using p P pos bal g by (intro that [of l k n b r c ds]) (simp add: found_at_def)
qed

section \<open>Insertion\<close>

lemma mark_insert:
  fixes key :: "'k::linorder"
  assumes "\<forall>x\<in>set xs. fst x < key" "\<forall>y\<in>set ys. key < fst y"
  shows "mark None (xs @ (key, new) # ys) = mark None xs @ ((key, new), True) # mark None ys"
proof -
  have "\<forall>x\<in>set xs. \<forall>y\<in>set ((key, new) # ys). fst x \<noteq> fst y"
  proof (intro ballI)
    fix x y assume "x \<in> set xs" "y \<in> set ((key, new) # ys)"
    with assms have "fst x < key" "key \<le> fst y" by (auto simp: less_imp_le)
    thus "fst x \<noteq> fst y" by simp
  qed
  hence "mark None (xs @ (key, new) # ys) = mark None xs @ mark None ((key, new) # ys)"
    by (rule mark_append) simp
  moreover have "mark (Some key) ys = mark None ys" using assms(2) by (intro mark_neq) auto
  ultimately show ?thesis by simp
qed

lemma dups_leaders [simp]: "leaders (dups ds) = []"
  by (simp add: leaders_def)

text \<open>The three places a new node can take, as facts on the sequence and on the list.\<close>

lemma chain_insert_before:
  assumes S: "sorted (map fst S)" "distinct (map snd S)" "at_key k S = (k, n) # ds"
    and key: "key < k" "\<forall>x\<in>set (below_key k S). fst x < key"
  shows "avl_insert_before n ((key, new), True) (mark None S) = mark None (ins_seq key new S)"
    and "leaders (mark None (ins_seq key new S)) =
      leaders (mark None (below_key k S)) @ (key, new) # (k, n) # leaders (mark None (above_key k S))"
proof -
  let ?ys = "at_key k S @ above_key k S"
  have spl: "S = below_key k S @ ?ys" using split_at_key [OF S(1)] by simp
  have ys: "\<forall>y\<in>set ?ys. key < fst y" using key(1) by (auto simp: at_key_def above_key_def)
  have "ins_seq key new S = below_key k S @ (key, new) # ?ys"
    using ins_seq_split [of "below_key k S" key ?ys new] key(2) ys spl by (simp add: less_imp_le)
  moreover have "mark None S = mark None (below_key k S) @ mark None ?ys"
  proof -
    have "\<forall>x\<in>set (below_key k S). \<forall>y\<in>set ?ys. fst x \<noteq> fst y"
      by (auto simp: below_key_def at_key_def above_key_def)
    from mark_append [OF this] spl show ?thesis by simp
  qed
  moreover have m: "mark None S = mark None (below_key k S) @ ((k, n), True) # dups ds @ mark None (above_key k S)"
    by (rule chain_at_leader [OF S(1,3)])
  ultimately have ins: "mark None (ins_seq key new S) =
      mark None (below_key k S) @ ((key, new), True) # ((k, n), True) # dups ds @ mark None (above_key k S)"
    using mark_insert [OF key(2) ys] by simp
  have "distinct (map snd (below_key k S @ (k, n) # ds @ above_key k S))" using S(2,3) spl by simp
  hence "n \<notin> ids (mark None (below_key k S))" unfolding ids_mark by auto
  from insert_before_at [OF this]
  show "avl_insert_before n ((key, new), True) (mark None S) = mark None (ins_seq key new S)"
    using m ins by simp
  show "leaders (mark None (ins_seq key new S)) =
      leaders (mark None (below_key k S)) @ (key, new) # (k, n) # leaders (mark None (above_key k S))"
    by (simp add: ins)
qed

lemma chain_insert_after:
  assumes S: "sorted (map fst S)" "distinct (map snd S)" "at_key k S = (k, n) # ds"
    and key: "k < key" "\<forall>x\<in>set (above_key k S). key < fst x"
  shows "avl_insert_after (avl_last_dup n (mark None S)) ((key, new), True) (mark None S) =
      mark None (ins_seq key new S)"
    and "leaders (mark None (ins_seq key new S)) =
      leaders (mark None (below_key k S)) @ (k, n) # (key, new) # leaders (mark None (above_key k S))"
proof -
  let ?xs = "below_key k S @ at_key k S"
  have spl: "S = ?xs @ above_key k S" using split_at_key [OF S(1)] by simp
  have xs: "\<forall>x\<in>set ?xs. fst x < key"
    using key(1) by (auto simp: at_key_def below_key_def intro: less_trans)
  have "ins_seq key new S = ?xs @ (key, new) # above_key k S"
    using ins_seq_split [of ?xs key "above_key k S" new] key(2) xs spl by (simp add: less_imp_le)
  moreover have "mark None S = mark None ?xs @ mark None (above_key k S)"
  proof -
    have "\<forall>x\<in>set ?xs. \<forall>y\<in>set (above_key k S). fst x \<noteq> fst y"
      by (auto simp: below_key_def at_key_def above_key_def)
    from mark_append [OF this] spl show ?thesis by simp
  qed
  moreover have m: "mark None S = mark None (below_key k S) @ ((k, n), True) # dups ds @ mark None (above_key k S)"
    by (rule chain_at_leader [OF S(1,3)])
  ultimately have ins: "mark None (ins_seq key new S) =
      mark None (below_key k S) @ ((k, n), True) # dups ds @ ((key, new), True) # mark None (above_key k S)"
    using mark_insert [OF xs key(2)] by simp
  have "distinct (map (snd \<circ> fst) (mark None S))"
    using S(2) map_fst_mark [of None S] by (metis map_map)
  with insert_after_group [OF _ hd_mark, of "mark None (below_key k S)" k n ds "above_key k S"]
  show "avl_insert_after (avl_last_dup n (mark None S)) ((key, new), True) (mark None S) =
      mark None (ins_seq key new S)" unfolding m ins by simp
  show "leaders (mark None (ins_seq key new S)) =
      leaders (mark None (below_key k S)) @ (k, n) # (key, new) # leaders (mark None (above_key k S))"
    by (simp add: ins)
qed

lemma chain_insert_dup:
  assumes S: "sorted (map fst S)" "distinct (map snd S)" "at_key k S = (k, n) # ds"
  shows "avl_insert_after (avl_last_dup n (mark None S)) ((k, new), False) (mark None S) =
      mark None (ins_seq k new S)"
    and "leaders (mark None (ins_seq k new S)) = leaders (mark None S)"
proof -
  let ?xs = "below_key k S @ at_key k S" and ?S = "ins_seq k new S"
  have spl: "S = ?xs @ above_key k S" using split_at_key [OF S(1)] by simp
  have le: "\<forall>x\<in>set ?xs. fst x \<le> k" "\<forall>y\<in>set (above_key k S). k < fst y"
    by (auto simp: below_key_def at_key_def above_key_def)
  have ins: "?S = ?xs @ (k, new) # above_key k S"
    using ins_seq_split [OF le, of new] spl by simp
  have ds: "\<forall>d\<in>set ((k, n) # ds). fst d = k" unfolding S(3) [symmetric] at_key_def by auto
  have none: "filter (\<lambda>x. fst x < k \<and> fst x = k) S = []" "filter (\<lambda>x. k < fst x \<and> fst x = k) S = []"
    by (auto simp: filter_empty_conv)
  have parts: "below_key k ?S = below_key k S" "above_key k ?S = above_key k S"
    "at_key k ?S = (k, n) # (ds @ [(k, new)])"
    unfolding ins using ds none S(3) by (auto simp: below_key_def above_key_def at_key_def filter_empty_conv)
  have m: "mark None S = mark None (below_key k S) @ ((k, n), True) # dups ds @ mark None (above_key k S)"
    by (rule chain_at_leader [OF S(1,3)])
  have m': "mark None ?S = mark None (below_key k S) @ ((k, n), True) # dups ds @ ((k, new), False) # mark None (above_key k S)"
    using chain_at_leader [OF sorted_ins_seq [OF S(1)] parts(3)] parts by simp
  have "distinct (map (snd \<circ> fst) (mark None S))"
    using S(2) map_fst_mark [of None S] by (metis map_map)
  with insert_after_group [OF _ hd_mark, of "mark None (below_key k S)" k n ds "above_key k S"]
  show "avl_insert_after (avl_last_dup n (mark None S)) ((k, new), False) (mark None S) = mark None ?S"
    unfolding m m' by simp
  show "leaders (mark None ?S) = leaders (mark None S)" unfolding m m' by simp
qed

lemma avl_inv_upd:
  assumes "bal_ok t" "sorted (map fst S)" "distinct (map snd S)" "ch = mark None S"
    "inorder t = leaders ch" "cnt = of_nat (length S)"
  shows "avl_inv (T\<lparr>root := t, chain := ch, count := cnt\<rparr>) \<and>
         avl_walk (T\<lparr>root := t, chain := ch, count := cnt\<rparr>) = S"
proof -
  have "length (mark None S) = length S" using map_fst_mark [of None S] by (metis length_map)
  with assms show ?thesis by (simp add: avl_inv_def avl_walk_def)
qed

lemma chain_upd_id: "T\<lparr>chain := ch, count := c\<rparr> = T\<lparr>root := root T, chain := ch, count := c\<rparr>"
  by simp

lemma avl_inv_facts:
  assumes "avl_inv T"
  shows "sorted (map fst (avl_walk T))" "distinct (map snd (avl_walk T))" "chain T = mark None (avl_walk T)"
    "bal_ok (root T)" "inorder (root T) = leaders (mark None (avl_walk T))"
    "count T = of_nat (length (avl_walk T))"
  using assms by (auto simp: avl_inv_def avl_walk_def)

lemma linked_walk: "avl_linked n (chain T) \<longleftrightarrow> n \<in> snd ` set (avl_walk T)"
  by (force simp: avl_linked_def avl_walk_def list_ex_iff)

lemma insert_upd:
  assumes "avl_inv T" "new \<notin> snd ` set (avl_walk T)"
    "bal_ok t" "ch = mark None (ins_seq key new (avl_walk T))" "inorder t = leaders ch"
  shows "avl_inv (T\<lparr>root := t, chain := ch, count := count T + 1\<rparr>) \<and>
         avl_walk (T\<lparr>root := t, chain := ch, count := count T + 1\<rparr>) = ins_seq key new (avl_walk T)"
  using assms avl_inv_facts [OF assms(1)] by (intro avl_inv_upd) auto

lemma avl_insert_less:
  assumes inv: "avl_inv T" and new: "new \<notin> snd ` set (avl_walk T)" and ne: "root T \<noteq> Nil_node"
    and f: "found_at T key l k n b r c ds" and lt: "key < k"
  shows "\<exists>T'. avl_insert T key new dup = Some (T', 0) \<and> avl_inv T' \<and>
           avl_walk T' = ins_seq key new (avl_walk T)"
proof -
  let ?leaf = "Node Nil_node key new 0 Nil_node" and ?ch = "avl_insert_before n ((key, new), True) (chain T)"
  note S = avl_inv_facts [OF inv]
  from f lt have l: "l = Nil_node" and find: "avl_find_rec (root T) key [] = (Node l k n b r, c)"
    and g: "at_key k (avl_walk T) = (k, n) # ds" and lo: "\<forall>x\<in>set (below_key k (avl_walk T)). fst x < key"
    and L: "leaders (mark None (below_key k (avl_walk T))) = ctx_l c"
      "leaders (mark None (above_key k (avl_walk T))) = inorder r @ ctx_r c"
    and bal: "bal_ok r" "b = height r" "b \<le> 1" "ctx_ok c (1 + b)"
    by (auto simp: found_at_def)
  have ch: "?ch = mark None (ins_seq key new (avl_walk T))"
    and io: "leaders ?ch = ctx_l c @ (key, new) # (k, n) # inorder r @ ctx_r c"
    using chain_insert_before [OF S(1,2) g lt lo, of new] L S(3) by simp_all
  show ?thesis
  proof (cases "b = 1")
    case True
    with bal have "bal_ok (avl_zip (Node ?leaf k n 0 r) c)" by simp
    from insert_upd [OF inv new this ch] io True show ?thesis
      using ne find lt new by (auto simp: avl_insert_def linked_walk Let_def)
  next
    case False
    with bal have "height r = 0" using height_nonneg [of r] by linarith
    with bal have r: "r = Nil_node" "b = 0" by simp_all
    from post_insert_ok [of "Node ?leaf k n (-1) r" c] bal r obtain t where
      t: "post_insert (Node ?leaf k n (-1) r) c = Some t" "bal_ok t"
        "inorder t = ctx_l c @ [(key, new), (k, n)] @ ctx_r c" by auto
    from insert_upd [OF inv new t(2) ch] io t r show ?thesis
      using ne find lt new by (auto simp: avl_insert_def linked_walk Let_def)
  qed
qed

lemma avl_insert_greater:
  assumes inv: "avl_inv T" and new: "new \<notin> snd ` set (avl_walk T)" and ne: "root T \<noteq> Nil_node"
    and f: "found_at T key l k n b r c ds" and gt: "k < key"
  shows "\<exists>T'. avl_insert T key new dup = Some (T', 0) \<and> avl_inv T' \<and>
           avl_walk T' = ins_seq key new (avl_walk T)"
proof -
  let ?leaf = "Node Nil_node key new 0 Nil_node"
  let ?ch = "avl_insert_after (avl_last_dup n (chain T)) ((key, new), True) (chain T)"
  note S = avl_inv_facts [OF inv]
  from f gt have r: "r = Nil_node" and find: "avl_find_rec (root T) key [] = (Node l k n b r, c)"
    and g: "at_key k (avl_walk T) = (k, n) # ds" and hi: "\<forall>x\<in>set (above_key k (avl_walk T)). key < fst x"
    and L: "leaders (mark None (below_key k (avl_walk T))) = ctx_l c @ inorder l"
      "leaders (mark None (above_key k (avl_walk T))) = ctx_r c"
    and bal: "bal_ok l" "b = - height l" "-1 \<le> b" "ctx_ok c (1 - b)"
    by (auto simp: found_at_def)
  have ch: "?ch = mark None (ins_seq key new (avl_walk T))"
    and io: "leaders ?ch = ctx_l c @ inorder l @ (k, n) # (key, new) # ctx_r c"
    using chain_insert_after [OF S(1,2) g gt hi, of new] L S(3) by simp_all
  have nd: "\<not> key < k" "key \<noteq> k" using gt by auto
  show ?thesis
  proof (cases "b = -1")
    case True
    with bal have "bal_ok (avl_zip (Node l k n 0 ?leaf) c)" by simp
    from insert_upd [OF inv new this ch] io True show ?thesis
      using ne find nd new by (auto simp: avl_insert_def linked_walk Let_def)
  next
    case False
    with bal have "height l = 0" using height_nonneg [of l] by linarith
    with bal have l: "l = Nil_node" "b = 0" by simp_all
    from post_insert_ok [of "Node l k n 1 ?leaf" c] bal l obtain t where
      t: "post_insert (Node l k n 1 ?leaf) c = Some t" "bal_ok t"
        "inorder t = ctx_l c @ [(k, n), (key, new)] @ ctx_r c" by auto
    from insert_upd [OF inv new t(2) ch] io t l show ?thesis
      using ne find nd new by (auto simp: avl_insert_def linked_walk Let_def)
  qed
qed

text \<open>
  Insertion: either the key is present and duplicates are refused, and nothing changes, or
  the node takes its place behind every node whose key is not larger.
\<close>

lemma avl_insert_correct:
  assumes inv: "avl_inv T" and new: "new \<notin> snd ` set (avl_walk T)"
    and go: "dup \<or> key \<notin> fst ` set (avl_walk T)"
  shows "\<exists>T'. avl_insert T key new dup = Some (T', 0) \<and> avl_inv T' \<and>
           avl_walk T' = ins_seq key new (avl_walk T)"
proof (cases "root T = Nil_node")
  case True
  with inv have "leaders (mark None (avl_walk T)) = []" by (auto simp: avl_inv_def)
  hence "avl_walk T = []" by (cases "avl_walk T") auto
  with True show ?thesis by (simp add: avl_insert_def avl_inv_def avl_walk_def)
next
  case ne: False
  from find_rec_chain [OF inv ne, of key] obtain l k n b r c ds where f: "found_at T key l k n b r c ds" .
  note S = avl_inv_facts [OF inv]
  consider "key = k" | "key < k" | "k < key" by fastforce
  thus ?thesis
  proof cases
    case eq: 1
    from f have g: "at_key k (avl_walk T) = (k, n) # ds"
      and find: "avl_find_rec (root T) key [] = (Node l k n b r, c)" by (simp_all add: found_at_def)
    have "set (at_key k (avl_walk T)) \<subseteq> set (avl_walk T)" by (auto simp: at_key_def)
    hence "k \<in> fst ` set (avl_walk T)" using g by force
    with go eq have dup by simp
    with insert_upd [OF inv new S(4), of _ k] chain_insert_dup [OF S(1,2) g, of new] S(3,5) eq ne find new linked_walk [of new T]
    show ?thesis by (auto simp: avl_insert_def linked_walk Let_def)
  qed (use avl_insert_less [OF inv new ne f] avl_insert_greater [OF inv new ne f] in blast)+
qed

text \<open>The search ends at the key exactly when some node has it.\<close>

lemma found_key:
  assumes "found_at T key l k n b r c ds"
  shows "key \<in> fst ` set (avl_walk T) \<longleftrightarrow> key = k"
proof
  assume "key \<in> fst ` set (avl_walk T)"
  then obtain x where x: "x \<in> set (avl_walk T)" "fst x = key" by auto
  have "\<not> key < k"
  proof
    assume "key < k"
    with x have "x \<in> set (below_key k (avl_walk T))" by (simp add: below_key_def)
    with assms \<open>key < k\<close> x(2) show False by (auto simp: found_at_def)
  qed
  moreover have "\<not> k < key"
  proof
    assume "k < key"
    with x have "x \<in> set (above_key k (avl_walk T))" by (simp add: above_key_def)
    with assms \<open>k < key\<close> x(2) show False by (auto simp: found_at_def)
  qed
  ultimately show "key = k" by simp
next
  assume "key = k"
  have "set (at_key k (avl_walk T)) \<subseteq> set (avl_walk T)" by (auto simp: at_key_def)
  with assms have "(k, n) \<in> set (avl_walk T)" by (auto simp: found_at_def)
  thus "key \<in> fst ` set (avl_walk T)" using \<open>key = k\<close> by force
qed

lemma root_Nil: "avl_inv T \<Longrightarrow> root T = Nil_node \<longleftrightarrow> avl_walk T = []"
proof -
  assume "avl_inv T"
  note S = avl_inv_facts [OF this]
  show ?thesis using S(5) by (cases "avl_walk T") (auto simp flip: inorder_Nil)
qed

lemma avl_insert_refused:
  assumes inv: "avl_inv T" and key: "key \<in> fst ` set (avl_walk T)"
  shows "avl_insert T key new False = Some (T, -1)"
proof -
  have ne: "root T \<noteq> Nil_node" using key root_Nil [OF inv] by auto
  from find_rec_chain [OF inv ne, of key] obtain l k n b r c ds where f: "found_at T key l k n b r c ds" .
  with key have "key = k" by (simp add: found_key)
  with f ne show ?thesis by (auto simp: avl_insert_def found_at_def Let_def)
qed

section \<open>Lookup\<close>

lemma avl_find_correct:
  assumes inv: "avl_inv T"
  shows "avl_find T key = map_option snd (List.find (\<lambda>p. fst p = key) (avl_walk T))"
proof (cases "root T = Nil_node")
  case True
  with root_Nil [OF inv] show ?thesis by (simp add: avl_find_def)
next
  case ne: False
  from find_rec_chain [OF inv ne, of key] obtain l k n b r c ds where f: "found_at T key l k n b r c ds" .
  note S = avl_inv_facts [OF inv]
  show ?thesis
  proof (cases "key = k")
    case True
    from f have g: "at_key k (avl_walk T) = (k, n) # ds" by (simp add: found_at_def)
    have "List.find (\<lambda>p. fst p = k) xs = (case at_key k xs of [] \<Rightarrow> None | y # _ \<Rightarrow> Some y)" for xs :: "('a \<times> 'b) list"
      by (induction xs) (auto simp: at_key_def)
    with f g True ne show ?thesis by (simp add: avl_find_def found_at_def)
  next
    case False
    with found_key [OF f] have "List.find (\<lambda>p. fst p = key) (avl_walk T) = None"
      by (force simp: find_None_iff)
    with f False ne show ?thesis by (auto simp: avl_find_def found_at_def)
  qed
qed

section \<open>Deletion\<close>

lemma next_at:
  "n \<notin> ids A \<Longrightarrow> avl_next n (A @ ((k, n), f) # B) = (case B of [] \<Rightarrow> None | y # _ \<Rightarrow> Some y)"
  by (induction A) auto

lemma remove_absent: "n \<notin> ids A \<Longrightarrow> avl_remove n A = A"
  by (induction A) (auto simp: avl_remove_def)

lemma set_leader_absent: "n \<notin> ids A \<Longrightarrow> avl_set_leader n A = A"
  by (induction A) (auto simp: avl_set_leader_def)

lemma list_surgery [simp]:
  "avl_remove n (A @ B) = avl_remove n A @ avl_remove n B"
  "avl_remove n (e # A) = (if snd (fst e) = n then avl_remove n A else e # avl_remove n A)"
  "avl_remove n [] = []"
  "avl_set_leader n (A @ B) = avl_set_leader n A @ avl_set_leader n B"
  "avl_set_leader n (e # A) = (if snd (fst e) = n then (fst e, True) else e) # avl_set_leader n A"
  "avl_set_leader n [] = []"
  by (simp_all add: avl_remove_def avl_set_leader_def)

lemma remove_dups [simp]: "avl_remove n (dups ds) = dups (del_seq n ds)"
  by (induction ds) (auto simp: avl_remove_def del_seq_def)

text \<open>The sequence at the key of a node that is to go, and the list before and after.\<close>

lemma group_of:
  assumes S: "sorted (map fst S)" "distinct (map snd S)" and n: "(k, n) \<in> set S"
  obtains m ds where "at_key k S = (k, m) # ds" "n \<in> snd ` set ((k, m) # ds)"
    "distinct (map snd (below_key k S @ (k, m) # ds @ above_key k S))"
    "mark None S = mark None (below_key k S) @ ((k, m), True) # dups ds @ mark None (above_key k S)"
proof -
  have "(k, n) \<in> set (at_key k S)" using n by (simp add: at_key_def)
  moreover have "\<forall>x\<in>set (at_key k S). fst x = k" by (simp add: at_key_def)
  ultimately obtain m ds where g: "at_key k S = (k, m) # ds" "(k, n) \<in> set ((k, m) # ds)"
    by (cases "at_key k S") auto
  moreover have "distinct (map snd (below_key k S @ (k, m) # ds @ above_key k S))"
    using S(2) split_at_key [OF S(1), of k] g(1) by simp
  moreover have "n \<in> snd ` set ((k, m) # ds)" using g(2) by force
  ultimately show thesis using chain_at_leader [OF S(1) g(1)] that by blast
qed

lemma del_parts:
  "below_key k (del_seq n S) = del_seq n (below_key k S)"
  "at_key k (del_seq n S) = del_seq n (at_key k S)"
  "above_key k (del_seq n S) = del_seq n (above_key k S)"
  by (simp_all add: below_key_def at_key_def above_key_def del_seq_def filter_filter conj_commute)

lemma mark_del:
  assumes S: "sorted (map fst S)" and g: "at_key k S = (k, m) # ds" "n \<in> snd ` set ((k, m) # ds)"
    and d: "distinct (map snd (below_key k S @ (k, m) # ds @ above_key k S))"
  shows "mark None (del_seq n S) =
    mark None (below_key k S) @ mark None (del_seq n ((k, m) # ds)) @ mark None (above_key k S)"
proof -
  from g(2) d have "n \<notin> snd ` set (below_key k S)" "n \<notin> snd ` set (above_key k S)" by auto
  with mark_split [OF sorted_del_seq [OF S, of n], where k = k] g(1) show ?thesis
    by (simp add: del_parts del_seq_absent)
qed

lemma delete_upd:
  assumes inv: "avl_inv T" and n: "n \<in> snd ` set (avl_walk T)"
    and t: "bal_ok t" "ch = mark None (del_seq n (avl_walk T))" "inorder t = leaders ch"
  shows "avl_inv (T\<lparr>root := t, chain := ch, count := count T - 1\<rparr>) \<and>
         avl_walk (T\<lparr>root := t, chain := ch, count := count T - 1\<rparr>) = del_seq n (avl_walk T)"
proof -
  note S = avl_inv_facts [OF inv]
  have "length (avl_walk T) = Suc (length (del_seq n (avl_walk T)))"
    using length_del_seq [OF S(2) n] by simp
  hence "count T - 1 = of_nat (length (del_seq n (avl_walk T)))" using S(6) by simp
  with S t show ?thesis by (intro avl_inv_upd) auto
qed

lemma leader_at:
  assumes "n \<notin> ids A" "n \<notin> ids B"
  shows "avl_leader n (A @ ((k, n), f) # B) = f"
  using assms by (force simp: avl_leader_def image_iff)

lemma split_unique_id:
  "xs @ (k, n) # ys = us @ (k', n) # vs \<Longrightarrow> n \<notin> snd ` set (us @ vs) \<Longrightarrow> xs = us \<and> ys = vs"
proof (induction xs arbitrary: us)
  case Nil
  thus ?case by (cases us) auto
next
  case (Cons x xs)
  show ?case
  proof (cases us)
    case Nil
    with Cons.prems have "(k, n) \<in> set vs" by (metis append_Cons append_Nil in_set_conv_decomp list.inject)
    with Cons.prems(2) show ?thesis by force
  next
    case (Cons u us')
    with Cons.prems Cons.IH [of us'] show ?thesis by simp
  qed
qed

lemma avl_delete_leader:
  assumes inv: "avl_inv T" and g: "at_key k (avl_walk T) = (k, n) # ds"
    and d: "distinct (map snd (below_key k (avl_walk T) @ (k, n) # ds @ above_key k (avl_walk T)))"
    and m: "chain T = mark None (below_key k (avl_walk T)) @ ((k, n), True) # dups ds @
              mark None (above_key k (avl_walk T))"
  shows "\<exists>T'. avl_delete T n = Some T' \<and> avl_inv T' \<and> avl_walk T' = del_seq n (avl_walk T)"
proof -
  let ?S = "avl_walk T" and ?B = "mark None (below_key k (avl_walk T))"
    and ?A = "mark None (above_key k (avl_walk T))"
  note S = avl_inv_facts [OF inv]
  have out: "n \<notin> ids ?B" "n \<notin> ids ?A" "n \<notin> snd ` set ds" unfolding ids_mark using d by auto
  hence nd: "n \<notin> ids (dups ds)" "del_seq n ds = ds" by (auto simp: del_seq_absent image_image)
  have mem: "n \<in> snd ` set ?S" using g by (force simp: at_key_def filter_eq_Cons_iff)
  have lead: "avl_leader n (chain T)" unfolding m using leader_at [of n ?B "dups ds @ ?A"] out nd
    by (simp add: image_Un)
  have dm: "mark None (del_seq n ?S) = ?B @ mark None ds @ ?A"
    using mark_del [OF S(1) g _ d, of n] nd by (simp add: del_seq_Cons)
  have io: "inorder (root T) = leaders ?B @ (k, n) # leaders ?A" using S(5) m S(3) by simp
  have allk: "\<forall>x\<in>set ((k, n) # ds). fst x = k" unfolding g [symmetric] at_key_def by auto
  have di: "distinct (map snd (inorder (root T)))"
  proof -
    have "distinct (map snd (leaders ch))" if "distinct (map snd (map fst ch))" for ch :: "('a, 'b) entry list"
      unfolding leaders_def using that by (simp add: distinct_map_filter map_map)
    from this [of "chain T"] S(2,3,5) show ?thesis by simp
  qed
  have rem: "avl_remove n ?B = ?B" "avl_remove n ?A = ?A" using out by (simp_all add: remove_absent)
  show ?thesis
  proof (cases ds)
    case Nil
    have nx: "avl_next n (chain T) = None \<or> (\<exists>y. avl_next n (chain T) = Some (y, True))"
      unfolding m Nil using next_at [OF out(1)] hd_mark [of "above_key k ?S"]
      by (cases ?A; cases "hd ?A") auto
    from locate_pos [of n "root T" "[]"] io obtain l k' b r c where
      loc: "avl_locate n (root T) [] = Some (Node l k' n b r, c)" "avl_zip (Node l k' n b r) c = root T"
      by auto
    from delete_worker_ok [of l k' n b r c] loc(2) S(4) di obtain t where
      t: "avl_delete_worker (Node l k' n b r) c = Some t" "bal_ok t"
        "inorder t = ctx_l c @ inorder l @ inorder r @ ctx_r c" by auto
    have "(ctx_l c @ inorder l) @ (k', n) # inorder r @ ctx_r c = leaders ?B @ (k, n) # leaders ?A"
      using io loc(2) inorder_zip [of "Node l k' n b r" c] by simp
    moreover have "n \<notin> snd ` set (leaders ?B @ leaders ?A)"
      using di io by auto
    ultimately have "ctx_l c @ inorder l = leaders ?B \<and> inorder r @ ctx_r c = leaders ?A"
      by (rule split_unique_id)
    hence "inorder t = leaders ?B @ leaders ?A" using t(3) by (metis append_assoc)
    hence "inorder t = leaders (avl_remove n (chain T))" "avl_remove n (chain T) = mark None (del_seq n ?S)"
      using m rem dm Nil by simp_all
    from delete_upd [OF inv mem t(2) this(2,1)] t lead nx loc(1) mem show ?thesis
      by (auto simp: avl_delete_def linked_walk Let_def)
  next
    case (Cons e ds')
    have e: "e = (k, snd e)" using allk Cons by (cases e) auto
    have nx: "avl_next n (chain T) = Some (e, False)" unfolding m Cons using next_at [OF out(1)] by simp
    have eo: "snd e \<notin> ids ?B" "snd e \<notin> ids ?A" "snd e \<notin> ids (dups ds')" "snd e \<noteq> n"
      unfolding ids_mark using d Cons by (auto simp: image_image)
    have sl: "avl_remove n (avl_set_leader (snd e) (chain T)) = mark None (del_seq n ?S)"
    proof -
      have "\<forall>x\<in>set ds'. fst x = k" using allk Cons by simp
      hence "mark None ds = (e, True) # dups ds'" using Cons e mark_run [of ds' k] by (cases e) simp
      moreover have "del_seq n ds' = ds'" using out(3) Cons by (simp add: del_seq_absent)
      ultimately show ?thesis
        unfolding dm using Cons m eo rem set_leader_absent [OF eo(1)] set_leader_absent [OF eo(2)]
          set_leader_absent [OF eo(3)] by simp
    qed
    have "inorder (avl_replace n k (snd e) (root T)) = leaders ?B @ e # leaders ?A"
    proof -
      have "map (\<lambda>p. if snd p = n then (k, snd e) else p) xs = xs" if "n \<notin> snd ` set xs" for xs
        using that by (intro map_idI) auto
      moreover have "n \<notin> snd ` set (leaders ?B)" "n \<notin> snd ` set (leaders ?A)" using di io by auto
      ultimately show ?thesis using e di by (simp add: inorder_replace io)
    qed
    moreover have "leaders (mark None (del_seq n ?S)) = leaders ?B @ e # leaders ?A"
      using sl [symmetric] m Cons rem eo set_leader_absent [OF eo(1)] set_leader_absent [OF eo(2)]
        set_leader_absent [OF eo(3)] by simp
    ultimately have "inorder (avl_replace n k (snd e) (root T)) = leaders (avl_remove n (avl_set_leader (snd e) (chain T)))"
      using sl by simp
    from delete_upd [OF inv mem _ sl this] S(4) lead nx e mem show ?thesis
      by (cases e) (auto simp: avl_delete_def linked_walk Let_def)
  qed
qed

lemma avl_delete_correct:
  assumes inv: "avl_inv T" and n: "n \<in> snd ` set (avl_walk T)"
  shows "\<exists>T'. avl_delete T n = Some T' \<and> avl_inv T' \<and> avl_walk T' = del_seq n (avl_walk T)"
proof -
  note S = avl_inv_facts [OF inv]
  from n obtain k where "(k, n) \<in> set (avl_walk T)" by force
  from group_of [OF S(1,2) this] obtain m ds where g: "at_key k (avl_walk T) = (k, m) # ds"
    "n \<in> snd ` set ((k, m) # ds)"
    "distinct (map snd (below_key k (avl_walk T) @ (k, m) # ds @ above_key k (avl_walk T)))"
    "mark None (avl_walk T) = mark None (below_key k (avl_walk T)) @ ((k, m), True) # dups ds @
       mark None (above_key k (avl_walk T))" .
  show ?thesis
  proof (cases "n = m")
    case True
    with avl_delete_leader [OF inv, of k n ds] g S(3) show ?thesis by simp
  next
    case False
    let ?B = "mark None (below_key k (avl_walk T))" and ?A = "mark None (above_key k (avl_walk T))"
    have out: "n \<notin> ids ?B" "n \<notin> ids ?A" unfolding ids_mark using g(2,3) False by auto
    have allk: "\<forall>x\<in>set ((k, m) # ds). fst x = k" unfolding g(1) [symmetric] at_key_def by auto
    have "\<not> avl_leader n (chain T)"
      unfolding S(3) g(4) using out False by (force simp: avl_leader_def image_iff)
    moreover have ch: "avl_remove n (chain T) = mark None (del_seq n (avl_walk T))"
      using mark_del [OF S(1) g(1-3)] S(3) g(4) False out allk mark_run [of "del_seq n ds" k]
      by (simp add: remove_absent del_seq_Cons)
    moreover have "inorder (root T) = leaders (avl_remove n (chain T))"
      using S(3,5) g(4) False out by (simp add: remove_absent)
    ultimately show ?thesis using delete_upd [OF inv n S(4) ch] n by (auto simp: avl_delete_def linked_walk Let_def)
  qed
qed

section \<open>The contract of the index\<close>

text \<open>
  What the databases of the daemon rely on: a set of nodes, walked in the order of their
  keys, nodes with equal keys in the order of their insertion.
\<close>

locale sorted_index =
  fixes empty :: 't
    and inv :: "'t \<Rightarrow> bool"
    and walk :: "'t \<Rightarrow> ('k::linorder \<times> 'n) list"
    and ins :: "'t \<Rightarrow> 'k \<Rightarrow> 'n \<Rightarrow> bool \<Rightarrow> ('t \<times> int) option"
    and del :: "'t \<Rightarrow> 'n \<Rightarrow> 't option"
    and find :: "'t \<Rightarrow> 'k \<Rightarrow> 'n option"
    and first :: "'t \<Rightarrow> 'n option"
  assumes empty: "inv empty" "walk empty = []"
    and sorted: "inv t \<Longrightarrow> sorted (map fst (walk t))"
    and distinct: "inv t \<Longrightarrow> distinct (map snd (walk t))"
    and insert: "inv t \<Longrightarrow> n \<notin> snd ` set (walk t) \<Longrightarrow> dup \<or> k \<notin> fst ` set (walk t) \<Longrightarrow>
      \<exists>t'. ins t k n dup = Some (t', 0) \<and> inv t' \<and> walk t' = ins_seq k n (walk t)"
    and refused: "inv t \<Longrightarrow> k \<in> fst ` set (walk t) \<Longrightarrow> ins t k n False = Some (t, -1)"
    and delete: "inv t \<Longrightarrow> n \<in> snd ` set (walk t) \<Longrightarrow>
      \<exists>t'. del t n = Some t' \<and> inv t' \<and> walk t' = del_seq n (walk t)"
    and find: "inv t \<Longrightarrow> find t k = map_option snd (List.find (\<lambda>p. fst p = k) (walk t))"
    and first: "inv t \<Longrightarrow> first t = (case walk t of [] \<Rightarrow> None | p # _ \<Rightarrow> Some (snd p))"
begin

lemma find_None: "inv t \<Longrightarrow> find t k = None \<longleftrightarrow> k \<notin> fst ` set (walk t)"
  by (force simp: find find_None_iff)

lemma find_Some: "inv t \<Longrightarrow> find t k = Some n \<Longrightarrow> (k, n) \<in> set (walk t)"
  by (auto simp: find find_Some_iff) (metis fst_conv nth_mem)

lemma find_insert:
  assumes "inv t" "n \<notin> snd ` set (walk t)" "find t k = None"
  shows "\<exists>t'. ins t k n dup = Some (t', 0) \<and> inv t' \<and> walk t' = ins_seq k n (walk t) \<and>
           (\<forall>k'. find t' k' = (if k' = k then Some n else find t k'))"
proof -
  have k: "k \<notin> fst ` set (walk t)" using assms find_None by simp
  with insert [OF assms(1,2)] obtain t' where t': "ins t k n dup = Some (t', 0)" "inv t'"
    "walk t' = ins_seq k n (walk t)" by blast
  have "List.find (\<lambda>p. fst p = k') (ins_seq k n xs) =
      (if k' = k then Some (k, n) else List.find (\<lambda>p. fst p = k') xs)" if "k \<notin> fst ` set xs" for k' xs
    using that by (induction k n xs rule: ins_seq.induct) auto
  with t' k assms(1) show ?thesis by (simp add: find)
qed

text \<open>A new node never displaces the one an equal key finds first.\<close>

lemma find_insert_dup:
  assumes "inv t" "n \<notin> snd ` set (walk t)" "find t k = Some m"
  shows "\<exists>t'. ins t k n True = Some (t', 0) \<and> inv t' \<and> walk t' = ins_seq k n (walk t) \<and>
           find t' k = Some m"
proof -
  from insert [OF assms(1,2)] obtain t' where t': "ins t k n True = Some (t', 0)" "inv t'"
    "walk t' = ins_seq k n (walk t)" by blast
  have "List.find (\<lambda>p. fst p = k) (ins_seq k n xs) = List.find (\<lambda>p. fst p = k) xs"
    if "sorted (map fst xs)" "k \<in> fst ` set xs" for xs
    using that
  proof (induction xs)
    case (Cons a xs)
    thus ?case by (cases a) fastforce
  qed simp
  moreover have "k \<in> fst ` set (walk t)" using find_Some [OF assms(1,3)] by force
  ultimately show ?thesis using t' sorted [OF assms(1)] assms by (simp add: find)
qed

lemma insert_delete:
  assumes "inv t" "n \<notin> snd ` set (walk t)" "dup \<or> k \<notin> fst ` set (walk t)"
  shows "\<exists>t' t''. ins t k n dup = Some (t', 0) \<and> del t' n = Some t'' \<and> inv t'' \<and> walk t'' = walk t"
proof -
  from insert [OF assms] obtain t' where t': "ins t k n dup = Some (t', 0)" "inv t'"
    "walk t' = ins_seq k n (walk t)" by blast
  moreover have "n \<in> snd ` set (walk t')" using t'(3) by force
  ultimately show ?thesis using delete [of t' n] assms(2) by (auto simp: del_ins_seq)
qed

lemma first_min:
  assumes "inv t" "first t = Some n"
  obtains k rest where "walk t = (k, n) # rest" "\<forall>p\<in>set (walk t). k \<le> fst p"
proof -
  from assms first obtain k rest where "walk t = (k, n) # rest" by (auto split: list.splits)
  with sorted [OF assms(1)] that show thesis by auto
qed

lemma first_None: "inv t \<Longrightarrow> first t = None \<longleftrightarrow> walk t = []"
  by (simp add: first split: list.splits)

lemma first_delete:
  assumes "inv t" "walk t = (k, n) # rest"
  shows "first t = Some n \<and> (\<exists>t'. del t n = Some t' \<and> inv t' \<and> walk t' = rest)"
proof -
  have "del_seq n (walk t) = rest"
    using distinct [OF assms(1)] assms(2) by (simp add: del_seq_Cons del_seq_absent)
  with delete [OF assms(1), of n] assms show ?thesis by (simp add: first)
qed

end

lemma walk_first_hd: "avl_walk_first T = (case avl_walk T of [] \<Rightarrow> None | p # _ \<Rightarrow> Some (snd p))"
  by (simp add: avl_walk_first_def avl_walk_def split: list.splits)

interpretation avl: sorted_index avl_init avl_inv avl_walk avl_insert avl_delete avl_find avl_walk_first
  by unfold_locales
    (simp_all add: avl_inv_init avl_insert_correct avl_insert_refused avl_delete_correct
      avl_find_correct walk_first_hd avl_inv_facts(1,2))

section \<open>Height\<close>

text \<open>The least number of leaders in a tree of a given height grows exponentially.\<close>

fun min_nodes :: "nat \<Rightarrow> nat" where
  "min_nodes 0 = 0"
| "min_nodes (Suc 0) = 1"
| "min_nodes (Suc (Suc h)) = min_nodes (Suc h) + min_nodes h + 1"

lemma min_nodes_mono: "h \<le> h' \<Longrightarrow> min_nodes h \<le> min_nodes h'"
proof -
  have "min_nodes i \<le> min_nodes (Suc i)" for i by (induction i rule: min_nodes.induct) auto
  thus "h \<le> h' \<Longrightarrow> min_nodes h \<le> min_nodes h'" by (rule lift_Suc_mono_le [of min_nodes])
qed

lemma min_nodes_height: "bal_ok t \<Longrightarrow> min_nodes (nat (height t)) \<le> length (inorder t)"
proof (induction t)
  case (Node l k n b r)
  let ?hl = "nat (height l)" and ?hr = "nat (height r)"
  have h: "nat (height (Node l k n b r)) = Suc (max ?hl ?hr)"
    using height_nonneg [of l] height_nonneg [of r] by (simp add: max_def nat_add_distrib)
  from Node.prems have "?hl \<le> Suc ?hr" "?hr \<le> Suc ?hl" by auto
  then consider "?hl = Suc ?hr" | "?hr = Suc ?hl" | "?hl = ?hr" by linarith
  hence "min_nodes (Suc (max ?hl ?hr)) \<le> min_nodes ?hl + min_nodes ?hr + 1"
  proof cases
    case 3
    have "min_nodes (Suc h) \<le> min_nodes h + min_nodes h + 1" for h
      using min_nodes_mono [of "h - 1" h] by (cases h) auto
    thus ?thesis using 3 by simp
  qed auto
  with Node h show ?case by simp
qed simp

lemma min_nodes_pow: "2 ^ (h div 2) \<le> Suc (min_nodes h)"
proof (induction h rule: min_nodes.induct)
  case (3 h)
  thus ?case using min_nodes_mono [of h "Suc h"] by auto
qed auto

lemma avl_height_log: "avl_inv T \<Longrightarrow> 2 ^ (nat (height (root T)) div 2) \<le> Suc (length (avl_walk T))"
proof -
  assume "avl_inv T"
  note S = avl_inv_facts [OF this]
  have "length (leaders (mark p xs)) \<le> length xs" for p and xs :: "('a \<times> 'b) list"
    by (induction xs arbitrary: p) (auto simp: le_SucI)
  from this [of None "avl_walk T"] S(5) min_nodes_height [OF S(4)] min_nodes_pow [of "nat (height (root T))"]
  show ?thesis by simp
qed

section \<open>Properties\<close>

definition demo_index :: "(nat, nat) avl_tree" where
  "demo_index = foldl (\<lambda>T (k, n). fst (the (avl_insert T k n True))) avl_init [(4, 40), (7, 70), (9, 90), (7, 71)]"

lemma demo_index_eq:
  "demo_index = \<lparr>root = Node (Node Nil_node 4 40 0 Nil_node) 7 70 0 (Node Nil_node 9 90 0 Nil_node),
     chain = [((4, 40), True), ((7, 70), True), ((7, 71), False), ((9, 90), True)], count = 4\<rparr>"
  by (simp add: demo_index_def avl_insert_def avl_init_def avl_cmp_def avl_linked_def Let_def)

lemma demo_index_inv: "avl_inv demo_index"
  by (simp add: demo_index_eq avl_inv_def avl_walk_def)

lemma demo_index_walk: "avl_walk demo_index = [(4, 40), (7, 70), (7, 71), (9, 90)]"
  by (simp add: demo_index_eq avl_walk_def)

text \<open>
  C26. Inserting a node that is not linked yet into a tree that satisfies the invariant
  always succeeds unless its key is present and duplicates are refused; the new tree
  satisfies the invariant, is walked in the order of the keys with the new node behind the
  older ones of its key, and a lookup of the key finds the oldest node that has it.
\<close>

theorem avl_insert_spec:
  assumes "avl_inv T" "new \<notin> snd ` set (avl_walk T)" "dup \<or> avl_find T key = None"
  shows "\<exists>T'. avl_insert T key new dup = Some (T', 0) \<and> avl_inv T' \<and> avl_walk T' = ins_seq key new (avl_walk T) \<and>
           avl_find T' key = Some (case avl_find T key of None \<Rightarrow> new | Some old \<Rightarrow> old)"
proof (cases "avl_find T key")
  case None
  from avl.find_insert [OF assms(1,2) None, of dup] show ?thesis by (auto simp: None)
next
  case (Some old)
  with assms(3) have dup by simp
  with avl.find_insert_dup [OF assms(1,2) Some] show ?thesis by (auto simp: Some)
qed

theorem avl_insert_spec_witness:
  "avl_inv demo_index \<and> (99::nat) \<notin> snd ` set (avl_walk demo_index) \<and>
   (\<exists>T'. avl_insert demo_index 7 99 True = Some (T', 0) \<and> avl_inv T' \<and>
      avl_walk T' = [(4, 40), (7, 70), (7, 71), (7, 99), (9, 90)] \<and> avl_find T' 7 = Some 70)"
proof -
  have f: "avl_find demo_index 7 = Some 70" by (simp add: demo_index_eq avl_find_def avl_cmp_def)
  show ?thesis using avl_insert_spec [OF demo_index_inv, of 99 True 7] demo_index_inv
    by (auto simp: demo_index_walk f)
qed

text \<open>
  C27. Deleting a linked node always succeeds, keeps the invariant (so the tree stays
  balanced and its leader flags right), removes this node from the walk and no other, and
  counts down.
\<close>

theorem avl_delete_spec:
  assumes "avl_inv T" "n \<in> snd ` set (avl_walk T)"
  shows "\<exists>T'. avl_delete T n = Some T' \<and> avl_inv T' \<and> avl_walk T' = del_seq n (avl_walk T) \<and>
           count T' = count T - 1"
proof -
  from avl.delete [OF assms] obtain T' where T': "avl_delete T n = Some T'" "avl_inv T'"
    "avl_walk T' = del_seq n (avl_walk T)" by blast
  moreover have "length (avl_walk T) = Suc (length (avl_walk T'))"
    using length_del_seq [OF avl_inv_facts(2) [OF assms(1)] assms(2)] T'(3) by simp
  ultimately show ?thesis using avl_inv_facts(6) [OF assms(1)] avl_inv_facts(6) [OF T'(2)] by simp
qed

theorem avl_delete_spec_witness:
  "avl_inv demo_index \<and> (\<exists>T'. avl_delete demo_index 70 = Some T' \<and> avl_inv T' \<and>
     avl_walk T' = [(4, 40), (7, 71), (9, 90)])"
  using avl_delete_spec [OF demo_index_inv, of 70] demo_index_inv
  by (auto simp: demo_index_walk del_seq_def)

text \<open>
  The trees stay flat: with \<open>n\<close> nodes the height is at most \<open>2 * log2 (n + 1) + 1\<close>, so
  that a search takes logarithmically many comparisons.
\<close>

theorem avl_height_bound:
  assumes "avl_inv T"
  shows "2 ^ (nat (height (root T)) div 2) \<le> Suc (length (avl_walk T))"
  by (rule avl_height_log [OF assms])

theorem avl_height_bound_witness:
  "avl_inv demo_index \<and> 2 ^ (nat (height (root demo_index)) div 2) \<le> (5::nat)"
  using avl_height_bound [OF demo_index_inv] demo_index_inv by (simp add: demo_index_walk)

end
