(* ===== verification/Olsr_Index.thy ===== *)
theory Olsr_Index
  imports Olsr_Avl_Correct
begin

text \<open>
  Trees that are filled without duplicates (\<open>AVL_DUP_NO\<close>), as the link state database and the
  routing table use them: seen through \<open>avl_find\<close> they are partial maps from keys to nodes. The
  locale \<open>unique_index\<close> derives the laws of a map from those of a sorted index, for the client
  that keeps the keys distinct; the interpretation on the AVL tree is \<open>uix\<close>.
\<close>

locale unique_index = sorted_index +
  fixes uniq :: "'a \<Rightarrow> bool"
  assumes uniq_def: "uniq t \<longleftrightarrow> inv t \<and> distinct (map fst (walk t))"
begin

lemma uniq_inv: "uniq t \<Longrightarrow> inv t"
  by (simp add: uniq_def)

lemma uniq_empty: "uniq empty" "find empty k = None"
  by (simp_all add: uniq_def empty find)

lemma find_map_of: "uniq t \<Longrightarrow> find t k = map_of (walk t) k"
proof -
  assume u: "uniq t"
  have "map_option snd (List.find (\<lambda>p. fst p = k) xs) = map_of xs k" for xs :: "('b \<times> 'c) list"
    by (induction xs) auto
  with find [OF uniq_inv [OF u]] show ?thesis by simp
qed

lemma find_iff: "uniq t \<Longrightarrow> find t k = Some n \<longleftrightarrow> (k, n) \<in> set (walk t)"
  by (simp add: find_map_of uniq_def)

lemma walk_nodes: "uniq t \<Longrightarrow> n \<in> snd ` set (walk t) \<longleftrightarrow> (\<exists>k. find t k = Some n)"
  by (force simp: find_iff)

text \<open>A node has one key.\<close>

lemma find_inj: "uniq t \<Longrightarrow> find t k = Some n \<Longrightarrow> find t k' = Some n \<Longrightarrow> k = k'"
proof -
  assume u: "uniq t" "find t k = Some n" "find t k' = Some n"
  hence "(k, n) \<in> set (walk t)" "(k', n) \<in> set (walk t)" by (simp_all add: find_iff)
  with distinct [OF uniq_inv [OF u(1)]] show ?thesis unfolding distinct_map by (metis inj_onD prod.inject snd_conv)
qed

lemma insert_new:
  assumes u: "uniq t" and k: "find t k = None" and n: "\<forall>k'. find t k' \<noteq> Some n"
  shows "\<exists>t'. ins t k n dup = Some (t', 0) \<and> uniq t' \<and> find t' = (find t)(k \<mapsto> n) \<and>
    length (walk t') = Suc (length (walk t))"
proof -
  from k have k': "k \<notin> fst ` set (walk t)" using find_None [OF uniq_inv [OF u]] by simp
  have "n \<notin> snd ` set (walk t)" using n walk_nodes [OF u] by simp
  from insert [OF uniq_inv [OF u] this] k' obtain t' where t': "ins t k n dup = Some (t', 0)" "inv t'"
    "walk t' = ins_seq k n (walk t)" by blast
  have "distinct (map fst (ins_seq k n xs))" if "distinct (map fst xs)" "k \<notin> fst ` set xs" for xs :: "('b \<times> 'c) list"
    using that by (induction k n xs rule: ins_seq.induct) (auto simp: image_iff)
  hence ut: "uniq t'" using t' u k' by (simp add: uniq_def)
  have "find t' q = ((find t)(k \<mapsto> n)) q" for q
  proof (cases "q = k")
    case True
    have "find t' k = Some n" by (simp add: find_iff [OF ut] t'(3))
    with True show ?thesis by simp
  next
    case False
    have "find t' q = Some m \<longleftrightarrow> find t q = Some m" for m
      using False by (simp add: find_iff [OF ut] find_iff [OF u] t'(3))
    hence "find t' q = find t q" by (metis not_Some_eq)
    with False show ?thesis by simp
  qed
  with t' ut show ?thesis by auto
qed

lemma insert_old: "uniq t \<Longrightarrow> find t k \<noteq> None \<Longrightarrow> ins t k n False = Some (t, -1)"
  using refused [of t k n] find_None [of t k] by (auto simp: uniq_inv)

lemma delete_old:
  assumes u: "uniq t" and k: "find t k = Some n"
  shows "\<exists>t'. del t n = Some t' \<and> uniq t' \<and> find t' = (find t)(k := None) \<and>
    length (walk t) = Suc (length (walk t'))"
proof -
  have m: "n \<in> snd ` set (walk t)" using k walk_nodes [OF u] by blast
  from delete [OF uniq_inv [OF u] m] obtain t' where t': "del t n = Some t'" "inv t'"
    "walk t' = del_seq n (walk t)" by blast
  have "distinct (map fst (walk t'))" using u unfolding t'(3) del_seq_def
    by (simp add: uniq_def distinct_map_filter)
  hence ut: "uniq t'" using t'(2) by (simp add: uniq_def)
  have "find t' q = ((find t)(k := None)) q" for q
  proof (cases "q = k")
    case True
    have "find t' k \<noteq> Some m" for m
      using k by (auto simp: find_iff [OF ut] find_iff [OF u, symmetric] t'(3))
    with True show ?thesis by (metis fun_upd_same not_Some_eq)
  next
    case False
    have "find t' q = Some m \<longleftrightarrow> find t q = Some m" for m
      using False find_inj [OF u k, of q] by (auto simp: find_iff [OF ut] find_iff [OF u] t'(3))
    hence "find t' q = find t q" by (metis not_Some_eq)
    with False show ?thesis by simp
  qed
  moreover have "length (walk t) = Suc (length (walk t'))"
    using length_del_seq [OF distinct [OF uniq_inv [OF u]] m] t'(3) by simp
  ultimately show ?thesis using t'(1) ut by blast
qed

end

definition avl_uniq :: "('k::linorder, 'n) avl_tree \<Rightarrow> bool" where
  "avl_uniq T \<longleftrightarrow> avl_inv T \<and> distinct (map fst (avl_walk T))"

interpretation uix: unique_index avl_init avl_inv avl_walk avl_insert avl_delete avl_find avl_walk_first avl_uniq
  by unfold_locales (rule avl_uniq_def)

text \<open>The counter of such a tree is zero exactly when it is empty.\<close>

lemma avl_uniq_count:
  assumes "avl_uniq T" "length (avl_walk T) < 2 ^ 32"
  shows "count T = 0 \<longleftrightarrow> avl_walk T = []"
proof -
  have "unat (count T) = length (avl_walk T)"
    using avl_inv_facts(6) [of T] assms by (simp add: avl_uniq_def unat_of_nat)
  thus ?thesis by (metis length_0_conv unat_0 unat_eq_zero)
qed

lemma avl_walk_None: "avl_uniq T \<Longrightarrow> avl_walk T = [] \<longleftrightarrow> (\<forall>k. avl_find T k = None)"
  by (force simp: uix.find_map_of map_of_eq_None_iff)

section \<open>A tree indexes the objects of a store\<close>

text \<open>
  \<open>indexes T S\<close>: the nodes of the tree are the objects for which \<open>S\<close> gives a key, each under
  that key. In the invariants of the database \<open>S\<close> is read off the store that holds the objects,
  so that tree and store cannot disagree.
\<close>

definition indexes :: "('k::linorder, 'n) avl_tree \<Rightarrow> ('n \<rightharpoonup> 'k) \<Rightarrow> bool" where
  "indexes T S \<longleftrightarrow> avl_uniq T \<and> (\<forall>k n. avl_find T k = Some n \<longleftrightarrow> S n = Some k)"

lemma indexes_uniq: "indexes T S \<Longrightarrow> avl_uniq T"
  by (simp add: indexes_def)

lemma indexes_find: "indexes T S \<Longrightarrow> avl_find T k = Some n \<longleftrightarrow> S n = Some k"
  by (simp add: indexes_def)

lemma indexes_find_None: "indexes T S \<Longrightarrow> avl_find T k = None \<longleftrightarrow> (\<forall>n. S n \<noteq> Some k)"
  using indexes_find [of T S k] by (metis not_Some_eq)

lemma indexes_inj: "indexes T S \<Longrightarrow> S n = Some k \<Longrightarrow> S m = Some k \<Longrightarrow> n = m"
  by (metis indexes_find option.inject)

lemma indexes_init: "indexes avl_init (\<lambda>n. None)"
  by (simp add: indexes_def uix.uniq_empty)

lemma indexes_walk: "indexes T S \<Longrightarrow> (k, n) \<in> set (avl_walk T) \<longleftrightarrow> S n = Some k"
  using uix.find_iff [of T k n] by (simp add: indexes_def)

lemma indexes_nodes: "indexes T S \<Longrightarrow> n \<in> set (map snd (avl_walk T)) \<longleftrightarrow> S n \<noteq> None"
  using indexes_walk [of T S _ n] by force

lemma indexes_distinct: "indexes T S \<Longrightarrow> distinct (map snd (avl_walk T))"
  using avl_inv_facts(2) uix.uniq_inv indexes_uniq by blast

lemma indexes_insert:
  assumes "indexes T S" "S n = None" "\<forall>m. S m \<noteq> Some k"
  shows "\<exists>T'. avl_insert T k n dup = Some (T', 0) \<and> indexes T' (S(n \<mapsto> k)) \<and>
    length (avl_walk T') = Suc (length (avl_walk T))"
proof -
  have "avl_find T k = None" using assms by (simp add: indexes_find_None)
  moreover have "\<forall>k'. avl_find T k' \<noteq> Some n" using assms by (simp add: indexes_find)
  ultimately obtain T' where T': "avl_insert T k n dup = Some (T', 0)" "avl_uniq T'"
    "avl_find T' = (avl_find T)(k \<mapsto> n)" "length (avl_walk T') = Suc (length (avl_walk T))"
    using uix.insert_new [OF indexes_uniq [OF assms(1)]] by blast
  have "indexes T' (S(n \<mapsto> k))"
    using T'(2,3) assms by (auto simp: indexes_def)
  with T' show ?thesis by blast
qed

lemma indexes_refused: "indexes T S \<Longrightarrow> S m = Some k \<Longrightarrow> avl_insert T k n False = Some (T, -1)"
  using uix.insert_old [of T k n] by (auto simp: indexes_def)

lemma indexes_delete:
  assumes "indexes T S" "S n = Some k"
  shows "\<exists>T'. avl_delete T n = Some T' \<and> indexes T' (S(n := None)) \<and>
    length (avl_walk T) = Suc (length (avl_walk T'))"
proof -
  have "avl_find T k = Some n" using assms by (simp add: indexes_find)
  from uix.delete_old [OF indexes_uniq [OF assms(1)] this] obtain T' where
    T': "avl_delete T n = Some T'" "avl_uniq T'" "avl_find T' = (avl_find T)(k := None)"
    "length (avl_walk T) = Suc (length (avl_walk T'))" by blast
  have "avl_find T' q = Some m \<longleftrightarrow> (S(n := None)) m = Some q" for q m
  proof (cases "q = k")
    case True
    have "S m \<noteq> Some k" if "m \<noteq> n" using indexes_inj [OF assms(1) _ assms(2)] that by blast
    with True T'(3) show ?thesis by auto
  next
    case False
    with T'(3) indexes_find [OF assms(1), of q m] assms(2) show ?thesis by auto
  qed
  hence "indexes T' (S(n := None))" using T'(2) by (simp add: indexes_def)
  with T' show ?thesis by blast
qed

lemma indexes_cong: "indexes T S \<Longrightarrow> (\<And>n. S' n = S n) \<Longrightarrow> indexes T S'"
  by (simp add: indexes_def)

end
