(* ===== verification/Olsr_Lsdb.thy ===== *)
theory Olsr_Lsdb
  imports Olsr_Types Olsr_Index
begin

text \<open>
  The data of the link state database (\<^verbatim>\<open>src/tc_set.h\<close>) and of the routing information base
  that hangs off it (\<^verbatim>\<open>src/routing_table.h\<close>): vertices (\<open>tc_entry\<close>), edges (\<open>tc_edge_entry\<close>),
  route paths and route entries, and the trees that index them. The objects live in stores from
  pointers (natural numbers) to records, so that the pointers between them (\<open>edge_inv\<close>, the
  backpointers \<open>tc\<close>, \<open>rtp_tc\<close> and \<open>rtp_rt\<close>) and the aliasing they cause are those of the code;
  a pointer whose store holds \<^term>\<open>None\<close> is freed. The data that the link quality plugin keeps
  behind an edge is the type parameter. A timer of a vertex is \<^term>\<open>Some t\<close> while it runs, with
  the time \<open>t\<close> it was set to.
\<close>

type_synonym ptr = nat

section \<open>Configuration\<close>

text \<open>The options of \<open>olsr_cnf\<close> (\<^verbatim>\<open>src/olsr_cfg.h\<close>) that this part of the daemon reads.\<close>

record olsrd_config =
  main_addr :: olsr_ip_addr
  ip_v6 :: bool
  maxplen :: u8
  lq_level :: u8
  min_tc_vtime_ms :: olsr_reltime  \<comment> \<open>\<open>(olsr_reltime) (min_tc_vtime * 1000)\<close>\<close>
  fib_metric_correct :: bool
  lq_nat_thresh :: "nat \<times> nat"  \<comment> \<open>the float \<open>m / 2 ^ k\<close> as \<open>(m, k)\<close>\<close>

definition ipsize :: "olsrd_config \<Rightarrow> nat" where
  "ipsize cnf = (if ip_v6 cnf then 16 else 4)"

definition all_zero :: "olsrd_config \<Rightarrow> olsr_ip_addr" where
  "all_zero cnf = (if ip_v6 cnf then V6 0 else V4 0)"

section \<open>Topology\<close>

record 'lq tc_edge_entry =
  T_dest_addr :: olsr_ip_addr
  edge_inv :: "ptr option"
  edge_tc :: ptr
  cost :: olsr_linkcost
  edge_ansn :: u16
  linkquality :: 'lq

record tc_entry =
  addr :: olsr_ip_addr
  path_cost :: olsr_linkcost
  edge_tree :: "(olsr_ip_addr, ptr) avl_tree"
  prefix_tree :: "(olsr_ip_prefix, ptr) avl_tree"
  next_hop :: "ptr option"
  edge_gc_timer :: "olsr_reltime option"
  validity_timer :: "olsr_reltime option"
  refcount :: u32
  msg_seq :: u16
  msg_hops :: u8
  hops :: u8
  ansn :: u16
  ignored :: u16
  err_seq :: u16
  err_seq_valid :: bool

section \<open>Routes\<close>

record rt_metric =
  rtm_cost :: olsr_linkcost
  rtm_hops :: u32

record rt_nexthop =
  gateway :: olsr_ip_addr
  iif_index :: int

record rt_path =
  rtp_rt :: "ptr option"
  rtp_tc :: "ptr option"
  rtp_nexthop :: rt_nexthop
  rtp_metric :: rt_metric
  rtp_originator :: olsr_ip_addr
  rtp_dst :: olsr_ip_prefix
  rtp_version :: u32
  rtp_origin :: u8

record rt_entry =
  rt_dst :: olsr_ip_prefix
  rt_best :: "ptr option"
  rt_nexthop :: rt_nexthop
  rt_metric :: rt_metric
  rt_path_tree :: "(olsr_ip_addr, ptr) avl_tree"

section \<open>The state\<close>

text \<open>
  Calls into components whose state is kept elsewhere, in the order in which they are made.
\<close>

datatype lsdb_call =
    Delete_gateway_entry olsr_ip_addr
  | Cleanup_mid olsr_ip_addr
  | Cleanup_hna olsr_ip_addr
  | Cleanup_duplicates olsr_ip_addr

record 'lq lsdb =
  tc_tree :: "(olsr_ip_addr, ptr) avl_tree"
  tcs :: "ptr \<Rightarrow> tc_entry option"
  tc_edges :: "ptr \<Rightarrow> 'lq tc_edge_entry option"
  tc_myself :: "ptr option"
  routingtree :: "(olsr_ip_prefix, ptr) avl_tree"
  routingtree_version :: u32
  rt_paths :: "ptr \<Rightarrow> rt_path option"
  rt_entries :: "ptr \<Rightarrow> rt_entry option"
  current_inetgw :: "ptr option"
  changes_topology :: bool
  changes_hna :: bool
  lsdb_calls :: "lsdb_call list"
  heap_next :: ptr

definition LINK_COST_BROKEN :: olsr_linkcost where
  "LINK_COST_BROKEN = 2 ^ 22"

definition ROUTE_COST_BROKEN :: olsr_linkcost where
  "ROUTE_COST_BROKEN = 0xffffffff"

definition ZERO_ROUTE_COST :: olsr_linkcost where
  "ZERO_ROUTE_COST = 0"

definition upd_tc :: "ptr \<Rightarrow> (tc_entry \<Rightarrow> tc_entry) \<Rightarrow> 'lq lsdb \<Rightarrow> 'lq lsdb" where
  "upd_tc p f db = db\<lparr>tcs := (tcs db)(p := map_option f (tcs db p))\<rparr>"

definition upd_edge :: "ptr \<Rightarrow> ('lq tc_edge_entry \<Rightarrow> 'lq tc_edge_entry) \<Rightarrow> 'lq lsdb \<Rightarrow> 'lq lsdb" where
  "upd_edge p f db = db\<lparr>tc_edges := (tc_edges db)(p := map_option f (tc_edges db p))\<rparr>"

lemma upd_tc_simps [simp]:
  "tcs (upd_tc p f db) q = (if q = p then map_option f (tcs db p) else tcs db q)"
  "tc_edges (upd_tc p f db) = tc_edges db" "tc_tree (upd_tc p f db) = tc_tree db"
  "tc_myself (upd_tc p f db) = tc_myself db" "heap_next (upd_tc p f db) = heap_next db"
  "rt_paths (upd_tc p f db) = rt_paths db" "rt_entries (upd_tc p f db) = rt_entries db"
  "routingtree (upd_tc p f db) = routingtree db" "current_inetgw (upd_tc p f db) = current_inetgw db"
  by (simp_all add: upd_tc_def)

lemma upd_tc_upd: "upd_tc p f (upd_tc p g db) = upd_tc p (f \<circ> g) db"
  by (simp add: upd_tc_def option.map_comp)

lemma upd_edge_simps [simp]:
  "tc_edges (upd_edge p g db) q = (if q = p then map_option g (tc_edges db p) else tc_edges db q)"
  "tcs (upd_edge p g db) = tcs db" "tc_tree (upd_edge p g db) = tc_tree db"
  "tc_myself (upd_edge p g db) = tc_myself db" "heap_next (upd_edge p g db) = heap_next db"
  "rt_paths (upd_edge p g db) = rt_paths db" "rt_entries (upd_edge p g db) = rt_entries db"
  "routingtree (upd_edge p g db) = routingtree db" "current_inetgw (upd_edge p g db) = current_inetgw db"
  by (simp_all add: upd_edge_def)

definition vertices :: "'lq lsdb \<Rightarrow> ptr list" where
  "vertices db = map snd (avl_walk (tc_tree db))"

definition edges_of :: "tc_entry \<Rightarrow> ptr list" where
  "edges_of tc = map snd (avl_walk (edge_tree tc))"

definition prefixes_of :: "tc_entry \<Rightarrow> ptr list" where
  "prefixes_of tc = map snd (avl_walk (prefix_tree tc))"

end
