(* ===== verification/Olsr_Float.thy ===== *)
theory Olsr_Float
  imports Olsr_Prelude
begin

text \<open>
  Single precision floating point arithmetic on naturals: the daemon computes link costs and the
  preference for the current internet gateway with \<open>float\<close> operands. A positive float is an
  integer mantissa of at most 24 bits scaled by a power of two; the rounding of IEEE 754 (to
  nearest, ties to even) is written out.
\<close>

section \<open>Rounding\<close>

text \<open>Rounding to nearest, ties to even, of a quotient of naturals.\<close>

definition rnd_even :: "nat \<Rightarrow> nat \<Rightarrow> nat" where
  "rnd_even n d =
     (let q = n div d; r = n mod d in if 2 * r > d \<or> 2 * r = d \<and> odd q then q + 1 else q)"

text \<open>
  A positive float is a 24-bit mantissa scaled by a power of two: \<open>float_up\<close> is the number of
  places a quotient is scaled up to fill the mantissa, \<open>float_down\<close> the number a product is
  scaled down to fit it.
\<close>

function float_up :: "nat \<Rightarrow> nat \<Rightarrow> nat \<Rightarrow> nat" where
  "float_up n d k = (if 0 < n \<and> n * 2 ^ k < 2 ^ 23 * d then float_up n d (k + 1) else k)"
  by pat_completeness auto
termination
proof (relation "measure (\<lambda>(n, d, k). 2 ^ 23 * d - n * 2 ^ k)", goal_cases)
  case (2 n d k)
  hence "n * 2 ^ k < n * 2 ^ (k + 1)" by simp
  with 2 have "2 ^ 23 * d - n * 2 ^ (k + 1) < 2 ^ 23 * d - n * 2 ^ k" by (intro diff_less_mono2) auto
  thus ?case by simp
qed simp

function float_down :: "nat \<Rightarrow> nat \<Rightarrow> nat" where
  "float_down p j = (if p \<ge> 2 ^ 24 * 2 ^ j then float_down p (j + 1) else j)"
  by pat_completeness auto
termination
proof (relation "measure (\<lambda>(p, j). Suc p - 2 ^ j)", goal_cases)
  case (2 p j)
  have "(2::nat) ^ j < 2 ^ (j + 1)" "(2::nat) ^ j \<le> 2 ^ 24 * 2 ^ j" by simp_all
  with 2 show ?case by (simp add: diff_less_mono2)
qed simp

declare float_up.simps [simp del] float_down.simps [simp del]

text \<open>An integer converted to a float.\<close>

definition float_round :: "nat \<Rightarrow> nat" where
  "float_round p = (let j = float_down p 0 in rnd_even p (2 ^ j) * 2 ^ j)"

lemma rnd_even_bounds:
  assumes "0 < d"
  shows "2 * n \<le> 2 * (rnd_even n d * d) + d" "2 * (rnd_even n d * d) \<le> 2 * n + d"
proof -
  define q r where "q = n div d" and "r = n mod d"
  have n: "n = q * d + r" and r: "r < d" using assms by (simp_all add: q_def r_def)
  have "rnd_even n d = (if 2 * r > d \<or> 2 * r = d \<and> odd q then q + 1 else q)"
    by (simp add: rnd_even_def q_def r_def Let_def)
  thus "2 * n \<le> 2 * (rnd_even n d * d) + d" "2 * (rnd_even n d * d) \<le> 2 * n + d"
    using n r by (auto simp: algebra_simps)
qed

lemma float_up_bounds:
  "0 < n \<Longrightarrow> n * 2 ^ k < 2 ^ 23 * d \<Longrightarrow>
   2 ^ 23 * d \<le> n * 2 ^ float_up n d k \<and> n * 2 ^ float_up n d k < 2 ^ 24 * d"
proof (induction n d k rule: float_up.induct)
  case (1 n d k)
  hence u: "float_up n d k = float_up n d (k + 1)" by (simp add: float_up.simps [of n d k])
  show ?case
  proof (cases "n * 2 ^ (k + 1) < 2 ^ 23 * d")
    case True
    with 1 u show ?thesis by simp
  next
    case False
    with 1 u show ?thesis by (simp add: float_up.simps [of n d "Suc k"])
  qed
qed

lemma float_down_bound: "p < 2 ^ 24 * 2 ^ J \<Longrightarrow> j \<le> J \<Longrightarrow> float_down p j \<le> J"
proof (induction p j rule: float_down.induct)
  case (1 p j)
  show ?case
  proof (cases "p \<ge> 2 ^ 24 * 2 ^ j")
    case True
    have "j \<noteq> J" using True "1.prems"(1) by auto
    with 1 True show ?thesis by (simp add: float_down.simps [of p j])
  next
    case False
    with 1 show ?thesis by (simp add: float_down.simps [of p j])
  qed
qed

lemma float_round_small: "p < 2 ^ 24 \<Longrightarrow> float_round p = p"
  by (simp add: float_round_def float_down.simps [of p 0] rnd_even_def)

end
