(* ===== verification/Olsr_Routing_Table.thy ===== *)
theory Olsr_Routing_Table
  imports Olsr_Lsdb Olsr_Float "HOL-Library.Monad_Syntax"
begin

text \<open>
  The routing information base (\<^verbatim>\<open>src/routing_table.c\<close>): route paths hang off the vertex that
  announced them and, once the vertex is reachable, off the route entry of their prefix, among
  whose paths the best one is elected. Reference counting of vertices (\<open>olsr_lock_tc_entry\<close>,
  \<open>olsr_unlock_tc_entry\<close> of \<^verbatim>\<open>src/tc_set.c\<close>) is here because paths hold references. Operations
  return \<^term>\<open>None\<close> where the code would dereference a freed object or corrupt a tree.
\<close>

section \<open>Vertices\<close>

definition olsr_lock_tc_entry :: "ptr \<Rightarrow> 'lq lsdb \<Rightarrow> 'lq lsdb option" where
  "olsr_lock_tc_entry p db = do {
     tc \<leftarrow> tcs db p;
     Some (upd_tc p (\<lambda>tc. tc\<lparr>refcount := refcount tc + 1\<rparr>) db)
   }"

definition olsr_unlock_tc_entry :: "ptr \<Rightarrow> 'lq lsdb \<Rightarrow> 'lq lsdb option" where
  "olsr_unlock_tc_entry p db = do {
     tc \<leftarrow> tcs db p;
     if refcount tc - 1 \<noteq> 0 then Some (upd_tc p (\<lambda>tc. tc\<lparr>refcount := refcount tc - 1\<rparr>) db)
     else Some (db\<lparr>tcs := (tcs db)(p := None)\<rparr>)
   }"

definition olsr_lookup_tc_entry :: "olsr_ip_addr \<Rightarrow> 'lq lsdb \<Rightarrow> ptr option" where
  "olsr_lookup_tc_entry adr db = avl_find (tc_tree db) adr"

section \<open>Route entries and paths\<close>

definition upd_rtp :: "ptr \<Rightarrow> (rt_path \<Rightarrow> rt_path) \<Rightarrow> 'lq lsdb \<Rightarrow> 'lq lsdb" where
  "upd_rtp r f db = db\<lparr>rt_paths := (rt_paths db)(r := map_option f (rt_paths db r))\<rparr>"

definition upd_rt :: "ptr \<Rightarrow> (rt_entry \<Rightarrow> rt_entry) \<Rightarrow> 'lq lsdb \<Rightarrow> 'lq lsdb" where
  "upd_rt x f db = db\<lparr>rt_entries := (rt_entries db)(x := map_option f (rt_entries db x))\<rparr>"

definition olsr_bump_routingtree_version :: "'lq lsdb \<Rightarrow> 'lq lsdb" where
  "olsr_bump_routingtree_version db = db\<lparr>routingtree_version := routingtree_version db + 1\<rparr>"

definition olsr_init_routing_table :: "'lq lsdb \<Rightarrow> 'lq lsdb" where
  "olsr_init_routing_table db = db\<lparr>routingtree := avl_init, routingtree_version := 0\<rparr>"

definition olsr_lookup_routing_table :: "olsrd_config \<Rightarrow> olsr_ip_addr \<Rightarrow> 'lq lsdb \<Rightarrow> ptr option" where
  "olsr_lookup_routing_table cnf dst db = avl_find (routingtree db) \<lparr>prefix = dst, prefix_len = maxplen cnf\<rparr>"

text \<open>The gateway and the interface index of a link stand for the link entry.\<close>

definition olsr_update_rt_path :: "ptr \<Rightarrow> ptr \<Rightarrow> rt_nexthop \<Rightarrow> 'lq lsdb \<Rightarrow> 'lq lsdb option" where
  "olsr_update_rt_path r tcp link db = do {
     tc \<leftarrow> tcs db tcp;
     rp \<leftarrow> rt_paths db r;
     Some (upd_rtp r (\<lambda>rp. rp\<lparr>rtp_version := routingtree_version db, rtp_nexthop := link,
             rtp_metric := \<lparr>rtm_cost = path_cost tc, rtm_hops = ucast (hops tc)\<rparr>\<rparr>) db)
   }"

definition olsr_alloc_rt_entry :: "olsrd_config \<Rightarrow> olsr_ip_prefix \<Rightarrow> 'lq lsdb \<Rightarrow> (ptr \<times> 'lq lsdb) option" where
  "olsr_alloc_rt_entry cnf pfx db = do {
     let x = heap_next db;
     (T, _) \<leftarrow> avl_insert (routingtree db) pfx x False;
     let rt = \<lparr>rt_dst = pfx, rt_best = None, rt_nexthop = \<lparr>gateway = all_zero cnf, iif_index = -1\<rparr>,
               rt_metric = \<lparr>rtm_cost = 0, rtm_hops = 0\<rparr>, rt_path_tree = avl_init\<rparr>;
     Some (x, db\<lparr>routingtree := T, rt_entries := (rt_entries db)(x \<mapsto> rt), heap_next := x + 1\<rparr>)
   }"

definition olsr_alloc_rt_path :: "olsrd_config \<Rightarrow> ptr \<Rightarrow> olsr_ip_prefix \<Rightarrow> u8 \<Rightarrow> 'lq lsdb \<Rightarrow> (ptr \<times> 'lq lsdb) option" where
  "olsr_alloc_rt_path cnf tcp pfx origin db = do {
     tc \<leftarrow> tcs db tcp;
     let r = heap_next db;
     (T, _) \<leftarrow> avl_insert (prefix_tree tc) pfx r False;
     let rp = \<lparr>rtp_rt = None, rtp_tc = None, rtp_nexthop = \<lparr>gateway = all_zero cnf, iif_index = 0\<rparr>,
               rtp_metric = \<lparr>rtm_cost = 0, rtm_hops = 0\<rparr>, rtp_originator = all_zero cnf, rtp_dst = pfx,
               rtp_version = 0, rtp_origin = 0\<rparr>;
     db1 \<leftarrow> olsr_lock_tc_entry tcp (upd_tc tcp (\<lambda>tc. tc\<lparr>prefix_tree := T\<rparr>)
              (db\<lparr>rt_paths := (rt_paths db)(r \<mapsto> rp), heap_next := r + 1\<rparr>));
     Some (r, upd_rtp r (\<lambda>rp. rp\<lparr>rtp_tc := Some tcp, rtp_origin := origin\<rparr>) db1)
   }"

definition olsr_insert_rt_path :: "olsrd_config \<Rightarrow> ptr \<Rightarrow> ptr \<Rightarrow> rt_nexthop \<Rightarrow> 'lq lsdb \<Rightarrow> 'lq lsdb option" where
  "olsr_insert_rt_path cnf r tcp link db = do {
     tc \<leftarrow> tcs db tcp;
     rp \<leftarrow> rt_paths db r;
     if path_cost tc = ROUTE_COST_BROKEN then Some db
     else if prefix_len (rtp_dst rp) > maxplen cnf then Some db
     else do {
       (x, db1) \<leftarrow> (case avl_find (routingtree db) (rtp_dst rp) of
                      None \<Rightarrow> olsr_alloc_rt_entry cnf (rtp_dst rp) db
                    | Some x \<Rightarrow> Some (x, db));
       rt \<leftarrow> rt_entries db1 x;
       (T, _) \<leftarrow> avl_insert (rt_path_tree rt) (addr tc) r False;
       olsr_update_rt_path r tcp link
         (upd_rtp r (\<lambda>rp. rp\<lparr>rtp_originator := addr tc, rtp_rt := Some x\<rparr>)
           (upd_rt x (\<lambda>rt. rt\<lparr>rt_path_tree := T\<rparr>) db1))
     }
   }"

definition unlink_rtp_rt :: "ptr \<Rightarrow> rt_path \<Rightarrow> 'lq lsdb \<Rightarrow> 'lq lsdb option" where
  "unlink_rtp_rt r rp db = (case rtp_rt rp of
       None \<Rightarrow> Some db
     | Some x \<Rightarrow> do {
         rt \<leftarrow> rt_entries db x;
         T \<leftarrow> avl_delete (rt_path_tree rt) r;
         Some (upd_rtp r (\<lambda>rp. rp\<lparr>rtp_rt := None\<rparr>) (upd_rt x (\<lambda>rt. rt\<lparr>rt_path_tree := T\<rparr>) db))
       })"

definition unlink_rtp_tc :: "ptr \<Rightarrow> rt_path \<Rightarrow> 'lq lsdb \<Rightarrow> 'lq lsdb option" where
  "unlink_rtp_tc r rp db = (case rtp_tc rp of
       None \<Rightarrow> Some db
     | Some tcp \<Rightarrow> do {
         tc \<leftarrow> tcs db tcp;
         T \<leftarrow> avl_delete (prefix_tree tc) r;
         db1 \<leftarrow> olsr_unlock_tc_entry tcp (upd_tc tcp (\<lambda>tc. tc\<lparr>prefix_tree := T\<rparr>) db);
         Some (upd_rtp r (\<lambda>rp. rp\<lparr>rtp_tc := None\<rparr>) db1)
       })"

definition olsr_delete_rt_path :: "ptr \<Rightarrow> 'lq lsdb \<Rightarrow> 'lq lsdb option" where
  "olsr_delete_rt_path r db = do {
     rp \<leftarrow> rt_paths db r;
     db1 \<leftarrow> unlink_rtp_rt r rp db;
     db2 \<leftarrow> unlink_rtp_tc r rp db1;
     let db3 = (if current_inetgw db2 = Some r then db2\<lparr>current_inetgw := None\<rparr> else db2);
     Some (db3\<lparr>rt_paths := (rt_paths db3)(r := None)\<rparr>)
   }"

section \<open>Comparison and election\<close>

definition olsr_nh_change :: "rt_nexthop \<Rightarrow> rt_nexthop \<Rightarrow> bool" where
  "olsr_nh_change nh1 nh2 \<longleftrightarrow> \<not> ipequal (gateway nh1) (gateway nh2) \<or> iif_index nh1 \<noteq> iif_index nh2"

definition olsr_hopcount_change :: "rt_metric \<Rightarrow> rt_metric \<Rightarrow> bool" where
  "olsr_hopcount_change met1 met2 \<longleftrightarrow> rtm_hops met1 \<noteq> rtm_hops met2"

definition RT_METRIC_DEFAULT :: u8 where
  "RT_METRIC_DEFAULT = 2"

definition olsr_fib_metric :: "olsrd_config \<Rightarrow> rt_metric \<Rightarrow> u8" where
  "olsr_fib_metric cnf met = (if fib_metric_correct cnf then ucast (rtm_hops met) else RT_METRIC_DEFAULT)"

definition olsr_get_nh :: "rt_entry \<Rightarrow> 'lq lsdb \<Rightarrow> rt_nexthop option" where
  "olsr_get_nh rt db = (case rt_best rt of
       Some r \<Rightarrow> map_option rtp_nexthop (rt_paths db r)
     | None \<Rightarrow> Some (rt_nexthop rt))"

text \<open>\<open>etx *= olsr_cnf->lq_nat_thresh\<close>: the product of two floats, truncated to an integer.\<close>

definition nat_scaled :: "olsrd_config \<Rightarrow> olsr_linkcost \<Rightarrow> olsr_linkcost" where
  "nat_scaled cnf etx = (case lq_nat_thresh cnf of (m, k) \<Rightarrow>
     of_nat (float_round (float_round (unat etx) * m) div 2 ^ k))"

definition ip_memcmp_less :: "olsr_ip_addr \<Rightarrow> olsr_ip_addr \<Rightarrow> bool" where
  "ip_memcmp_less a b \<longleftrightarrow> be_val (ip_bytes a) < be_val (ip_bytes b)"

definition olsr_cmp_rtp :: "olsrd_config \<Rightarrow> ptr \<times> rt_path \<Rightarrow> ptr \<times> rt_path \<Rightarrow> ptr option \<Rightarrow> bool" where
  "olsr_cmp_rtp cnf rtp1 rtp2 inetgw =
     (let etx1 = (if inetgw = Some (fst rtp1) then nat_scaled cnf (rtm_cost (rtp_metric (snd rtp1)))
                  else rtm_cost (rtp_metric (snd rtp1)));
          etx2 = (if inetgw = Some (fst rtp2) then nat_scaled cnf (rtm_cost (rtp_metric (snd rtp2)))
                  else rtm_cost (rtp_metric (snd rtp2)))
      in if etx1 < etx2 then True
         else if etx1 > etx2 then False
         else if rtm_hops (rtp_metric (snd rtp1)) < rtm_hops (rtp_metric (snd rtp2)) then True
         else if rtm_hops (rtp_metric (snd rtp1)) > rtm_hops (rtp_metric (snd rtp2)) then False
         else if ip_memcmp_less (rtp_originator (snd rtp1)) (rtp_originator (snd rtp2)) then True
         else False)"

definition olsr_cmp_rt :: "olsrd_config \<Rightarrow> rt_entry \<Rightarrow> rt_entry \<Rightarrow> 'lq lsdb \<Rightarrow> bool option" where
  "olsr_cmp_rt cnf rt1 rt2 db = do {
     r1 \<leftarrow> rt_best rt1; rp1 \<leftarrow> rt_paths db r1;
     r2 \<leftarrow> rt_best rt2; rp2 \<leftarrow> rt_paths db r2;
     Some (olsr_cmp_rtp cnf (r1, rp1) (r2, rp2) None)
   }"

text \<open>The walk over the remaining paths, with the best one so far.\<close>

fun rt_best_walk :: "olsrd_config \<Rightarrow> 'lq lsdb \<Rightarrow> ptr list \<Rightarrow> ptr \<times> rt_path \<Rightarrow> (ptr \<times> rt_path) option" where
  "rt_best_walk cnf db [] best = Some best"
| "rt_best_walk cnf db (r # rs) best = do {
     rp \<leftarrow> rt_paths db r;
     rt_best_walk cnf db rs (if olsr_cmp_rtp cnf (r, rp) best (current_inetgw db) then (r, rp) else best)
   }"

definition olsr_rt_best :: "olsrd_config \<Rightarrow> ptr \<Rightarrow> 'lq lsdb \<Rightarrow> 'lq lsdb option" where
  "olsr_rt_best cnf x db = do {
     rt \<leftarrow> rt_entries db x;
     r \<leftarrow> avl_walk_first (rt_path_tree rt);  \<comment> \<open>the assertion\<close>
     rp \<leftarrow> rt_paths db r;
     (best, _) \<leftarrow> rt_best_walk cnf db (tl (map snd (avl_walk (rt_path_tree rt)))) (r, rp);
     let db1 = upd_rt x (\<lambda>rt. rt\<lparr>rt_best := Some best\<rparr>) db;
     Some (if prefix_len (rt_dst rt) = 0 then db1\<lparr>current_inetgw := Some best\<rparr> else db1)
   }"

section \<open>Prefixes of vertices\<close>

text \<open>\<open>olsr_insert_routing_table\<close> from the vertex on.\<close>

definition insert_prefix :: "olsrd_config \<Rightarrow> olsr_ip_addr \<Rightarrow> u8 \<Rightarrow> ptr \<Rightarrow> u8 \<Rightarrow> 'lq lsdb \<Rightarrow> (ptr \<times> 'lq lsdb) option" where
  "insert_prefix cnf dst plen tcp origin db = do {
     tc \<leftarrow> tcs db tcp;
     let pfx = \<lparr>prefix = dst, prefix_len = plen\<rparr>;
     case avl_find (prefix_tree tc) pfx of
       None \<Rightarrow> do {
         (r, db1) \<leftarrow> olsr_alloc_rt_path cnf tcp pfx origin db;
         Some (r, db1\<lparr>changes_hna := True\<rparr>)
       }
     | Some r \<Rightarrow> Some (r, db)
   }"

definition olsr_delete_routing_table :: "olsrd_config \<Rightarrow> olsr_ip_addr \<Rightarrow> u8 \<Rightarrow> olsr_ip_addr \<Rightarrow> 'lq lsdb \<Rightarrow> 'lq lsdb option" where
  "olsr_delete_routing_table cnf dst plen originator db =
     (if plen > maxplen cnf then Some db
      else case olsr_lookup_tc_entry originator db of
          None \<Rightarrow> Some db
        | Some tcp \<Rightarrow> do {
            tc \<leftarrow> tcs db tcp;
            case avl_find (prefix_tree tc) \<lparr>prefix = dst, prefix_len = plen\<rparr> of
              None \<Rightarrow> Some db
            | Some r \<Rightarrow> do {
                db1 \<leftarrow> olsr_delete_rt_path r db;
                Some (db1\<lparr>changes_hna := True\<rparr>)
              }
          })"

end
