(* ===== verification/Olsr_Mantissa.thy ===== *)
theory Olsr_Mantissa
  imports Olsr_Types
begin

text \<open>
  The mantissa/exponent codec of validity times and intervals (\<^verbatim>\<open>src/mantissa.c\<close>). The
  computation is on the unsigned 32-bit values of the code; subtraction wraps.
\<close>

definition sub32 :: "nat \<Rightarrow> nat \<Rightarrow> nat" where
  "sub32 x y = (x + 2 ^ 32 - y mod 2 ^ 32) mod 2 ^ 32"

text \<open>The loop that finds the exponent: the least \<open>b\<close> from the given one on with \<open>u < 2 ^ b\<close>.\<close>

function me_exponent :: "nat \<Rightarrow> nat \<Rightarrow> nat" where
  "me_exponent u b = (if u \<ge> 2 ^ b then me_exponent u (b + 1) else b)"
  by pat_completeness auto
termination
proof (relation "measure (\<lambda>(u, b). Suc u - 2 ^ b)", goal_cases)
  case (2 u b)
  have "(0::nat) < 2 ^ b" by simp
  with 2 have "Suc u - 2 * 2 ^ b < Suc u - 2 ^ b" by linarith
  thus ?case by simp
qed simp

declare me_exponent.simps [simp del]

definition reltime_to_me :: "olsr_reltime \<Rightarrow> u8" where
  "reltime_to_me interval =
     (let t = unat interval;
          unscaled_interval = t div 125 * 2 mod 2 ^ 32;
          b = me_exponent unscaled_interval 0
      in if b = 0 then of_nat (1 * 16 OR 0)
         else if b - 1 > 15 then of_nat (15 * 16 OR 15)
         else
           let b = b - 1;
               a = (if b \<ge> 5 then sub32 t (125 * 2 ^ (b - 1)) div (125 * 2 ^ (b - 5))
                    else sub32 t (125 * 2 ^ (b - 1)) * 2 ^ (5 - b) mod 2 ^ 32 div 125) mod 256;
               b' = (b + a div 16) mod 256;
               a' = a AND 15
           in of_nat (a' * 16 OR (b' AND 15)))"

definition me_to_reltime :: "u8 \<Rightarrow> olsr_reltime" where
  "me_to_reltime me =
     (let a = unat me div 16; b = unat me AND 15
      in if b \<ge> 8 then of_nat ((16 + a) * 2 ^ (b - 8) * 1000)
         else of_nat ((16 + a) * 1000 div 2 ^ (8 - b)))"

section \<open>The exponent\<close>

lemma me_exponent_bounds:
  "2 ^ b \<le> u \<Longrightarrow> b < me_exponent u b \<and> 2 ^ (me_exponent u b - 1) \<le> u \<and> u < 2 ^ me_exponent u b"
proof (induction u b rule: me_exponent.induct)
  case (1 u b)
  show ?case
  proof (cases "2 ^ (b + 1) \<le> u")
    case True
    with 1 show ?thesis by (simp add: me_exponent.simps [of u b])
  next
    case False
    with 1 show ?thesis by (simp add: me_exponent.simps [of u b] me_exponent.simps [of u "Suc b"])
  qed
qed

lemma me_exponent_0: "me_exponent 0 0 = 0"
  by (simp add: me_exponent.simps)

section \<open>Encoding in closed form\<close>

text \<open>Exponent and mantissa of a time of at least 125 ms that is not too long.\<close>

lemma me_exponent_of:
  fixes t :: nat
  assumes "125 \<le> t" "t < 2 ^ 32"
  defines "b \<equiv> me_exponent (t div 125 * 2 mod 2 ^ 32) 0"
  shows "2 \<le> b" "125 * 2 ^ (b - 2) \<le> t" "t < 125 * 2 ^ (b - 1)"
proof -
  let ?q = "t div 125"
  have q: "1 \<le> ?q" "?q * 2 mod 2 ^ 32 = ?q * 2" using assms by auto
  have B: "2 ^ (b - 1) \<le> ?q * 2" "?q * 2 < 2 ^ b"
    using me_exponent_bounds [of 0 "?q * 2"] q unfolding b_def by simp_all
  show b2: "2 \<le> b"
  proof (rule ccontr)
    assume "\<not> 2 \<le> b"
    hence "(2::nat) ^ b \<le> 2 ^ 1" by (intro power_increasing) auto
    with B(2) q(1) show False by simp
  qed
  define c where "c = b - 2"
  have c: "b = c + 2" using b2 c_def by simp
  have "2 ^ c \<le> ?q" "?q < 2 ^ (c + 1)" using B by (simp_all add: c)
  moreover have "125 * ?q \<le> t" "t < 125 * (?q + 1)" by simp_all
  ultimately show "125 * 2 ^ (b - 2) \<le> t" "t < 125 * 2 ^ (b - 1)"
    unfolding c by simp_all
qed

lemma nat_and_15: "(x::nat) AND 15 = x mod 16"
  using take_bit_eq_mask [of 4 x] by (simp add: take_bit_eq_mod mask_eq_exp_minus_1)

lemma nat_or_16: "b < 16 \<Longrightarrow> a * 16 OR b = a * 16 + (b::nat)"
proof (rule disjunctive_add [symmetric])
  fix n assume b: "b < 16"
  have "\<not> bit b n" if "4 \<le> n"
  proof -
    have "b < 2 ^ n" using b power_increasing [OF that, of "2::nat"] by simp
    thus ?thesis by (simp add: bit_iff_odd)
  qed
  moreover have "\<not> bit (a * 16) n" if "n < 4"
    using that bit_push_bit_iff [of 4 a n] by (simp add: push_bit_eq_mult)
  ultimately show "\<not> bit (a * 16) n \<or> \<not> bit b n" by (cases "n < 4") auto
qed

lemma mantissa_floor:
  fixes t b :: nat
  assumes "1 \<le> b" "125 * 2 ^ (b - 1) \<le> t" "t < 125 * 2 ^ b" "b \<le> 15"
  defines "a \<equiv> (if b \<ge> 5 then sub32 t (125 * 2 ^ (b - 1)) div (125 * 2 ^ (b - 5))
                else sub32 t (125 * 2 ^ (b - 1)) * 2 ^ (5 - b) mod 2 ^ 32 div 125)"
  shows "a < 16" "(16 + a) * (125 * 2 ^ b) \<le> 32 * t" "32 * t < (17 + a) * (125 * 2 ^ b)"
proof -
  define P where "P = (2::nat) ^ (b - 1)"
  have P2: "2 ^ b = 2 * P" unfolding P_def using assms(1) by (cases b) auto
  have "(2::nat) ^ b \<le> 2 ^ 15" using assms(4) by (intro power_increasing) auto
  hence small: "t < 2 ^ 23" using assms(3) by simp
  let ?r = "t - 125 * P"
  have r: "sub32 t (125 * 2 ^ (b - 1)) = ?r" "?r < 125 * P" "t = ?r + 125 * P"
    using assms(2,3) small P2 unfolding P_def [symmetric] by (simp_all add: sub32_def mod_if)
  have a: "a = 32 * ?r div (125 * 2 ^ b)"
  proof (cases "5 \<le> b")
    case True
    then obtain c where "b = 5 + c" using le_Suc_ex by blast
    hence "(2::nat) ^ b = 32 * 2 ^ (b - 5)" by (simp add: power_add)
    thus ?thesis using True r(1) by (simp add: a_def div_mult_mult1)
  next
    case False
    hence e: "32 = (2::nat) ^ (5 - b) * 2 ^ b" by (simp flip: power_add)
    have "2 ^ (5 - b) \<le> (2::nat) ^ 5" by (intro power_increasing) auto
    hence "?r * 2 ^ (5 - b) \<le> ?r * 32" by (intro mult_le_mono2) simp
    also have "\<dots> < 2 ^ 32" using small by simp
    finally have "?r * 2 ^ (5 - b) < 2 ^ 32" .
    hence "?r * 2 ^ (5 - b) mod 2 ^ 32 = ?r * 2 ^ (5 - b)" by (rule mod_less)
    moreover have "32 * ?r div (125 * 2 ^ b) = ?r * 2 ^ (5 - b) div 125"
      unfolding e by (simp add: div_mult2_eq mult.commute mult.left_commute)
    ultimately show ?thesis using False r(1) by (simp add: a_def)
  qed
  let ?D = "125 * 2 ^ b :: nat"
  have D: "0 < ?D" by simp
  have lo: "a * ?D \<le> 32 * ?r" unfolding a by simp
  have hi: "32 * ?r < (a + 1) * ?D" unfolding a using dividend_less_times_div [OF D, of "32 * ?r"] by (simp add: algebra_simps)
  have "32 * ?r < 16 * ?D" using r(2) P2 by simp
  hence "a * ?D < 16 * ?D" using lo by linarith
  thus "a < 16" by simp
  have "32 * t = 32 * ?r + 16 * ?D" using r(3) P2 by simp
  with lo hi show "(16 + a) * ?D \<le> 32 * t" "32 * t < (17 + a) * ?D" by (simp_all add: algebra_simps)
qed

definition me_pack :: "nat \<Rightarrow> nat \<Rightarrow> u8" where
  "me_pack a b = of_nat (a * 16 + b)"

lemma encode_closed:
  fixes t :: nat
  assumes "125 \<le> t" "t < 125 * 2 ^ 15"
  obtains a b where "reltime_to_me (of_nat t) = me_pack a b" "a < 16" "1 \<le> b" "b \<le> 15"
    "(16 + a) * (125 * 2 ^ b) \<le> 32 * t" "32 * t < (17 + a) * (125 * 2 ^ b)"
proof -
  have t32: "t < 2 ^ 32" using assms(2) by simp
  hence ut: "unat (of_nat t :: olsr_reltime) = t" by (simp add: unat_of_nat)
  define e where "e = me_exponent (t div 125 * 2 mod 2 ^ 32) 0"
  define b where "b = e - 1"
  note E = me_exponent_of [OF assms(1) t32, folded e_def]
  have b: "1 \<le> b" "125 * 2 ^ (b - 1) \<le> t" "t < 125 * 2 ^ b"
    using E unfolding b_def by (simp_all add: numeral_2_eq_2)
  have b15: "b \<le> 15"
  proof (rule ccontr)
    assume "\<not> b \<le> 15"
    hence "(2::nat) ^ 15 \<le> 2 ^ (b - 1)" by (intro power_increasing) auto
    with b(2) assms(2) show False by simp
  qed
  define a where "a = (if b \<ge> 5 then sub32 t (125 * 2 ^ (b - 1)) div (125 * 2 ^ (b - 5))
                else sub32 t (125 * 2 ^ (b - 1)) * 2 ^ (5 - b) mod 2 ^ 32 div 125)"
  note A = mantissa_floor [OF b b15, folded a_def]
  have e0: "e \<noteq> 0" "\<not> b > 15" using b b15 b_def by auto
  have ab: "a mod 256 = a" "a div 16 = 0" "b mod 256 = b" "a AND 15 = a" "b AND 15 = b"
    using A(1) b15 by (simp_all add: nat_and_15)
  have "reltime_to_me (of_nat t) = of_nat (a * 16 OR b)"
    unfolding reltime_to_me_def Let_def ut e_def [symmetric] b_def [symmetric] a_def [symmetric]
    by (simp only: e0 ab if_False add_0_right)
  hence "reltime_to_me (of_nat t) = me_pack a b" using nat_or_16 [of b a] b15 by (simp add: me_pack_def)
  with A b b15 show thesis using that by blast
qed

lemma decode_closed:
  assumes "a < 16" "b < 16"
  shows "unat (me_to_reltime (me_pack a b)) = (16 + a) * (125 * 2 ^ b) div 32"
proof -
  have me: "unat (me_pack a b) = a * 16 + b" unfolding me_pack_def unat_of_nat using assms by simp
  have ab: "(a * 16 + b) div 16 = a" "(a * 16 + b) mod 16 = b" using assms by simp_all
  show ?thesis
  proof (cases "8 \<le> b")
    case True
    then obtain c where c: "b = 8 + c" using le_Suc_ex by blast
    have "(2::nat) ^ c \<le> 2 ^ 7" using assms(2) c by (intro power_increasing) auto
    hence "(16 + a) * 2 ^ c \<le> 31 * 2 ^ 7" using assms(1) by (intro mult_mono) auto
    hence "(16 + a) * 2 ^ c * 1000 \<le> 31 * 2 ^ 7 * 1000" by (rule mult_le_mono1)
    also have "\<dots> < 2 ^ LENGTH(32)" by simp
    finally have "(16 + a) * 2 ^ c * 1000 < 2 ^ LENGTH(32)" .
    hence "unat (of_nat ((16 + a) * 2 ^ c * 1000) :: olsr_reltime) = (16 + a) * 2 ^ c * 1000"
      unfolding unat_of_nat by (rule mod_less)
    moreover have "(16 + a) * (125 * 2 ^ b) div 32 = (16 + a) * 2 ^ c * 1000" by (simp add: c power_add)
    moreover have "b - 8 = c" using c by simp
    ultimately show ?thesis unfolding me_to_reltime_def Let_def me nat_and_15 ab by (simp only: True if_True)
  next
    case False
    have e: "2 ^ (8 - b) * 2 ^ b = (256::nat)" using False by (simp flip: power_add)
    have "(16 + a) * 1000 div 2 ^ (8 - b) = (16 + a) * 1000 * 2 ^ b div (2 ^ (8 - b) * 2 ^ b)" by simp
    also have "\<dots> = (16 + a) * (125 * 2 ^ b) * 8 div (32 * 8)" unfolding e by (simp add: algebra_simps)
    also have "\<dots> = (16 + a) * (125 * 2 ^ b) div 32" by (rule div_mult_mult2) simp
    finally have d: "(16 + a) * 1000 div 2 ^ (8 - b) = (16 + a) * (125 * 2 ^ b) div 32" .
    have "(16 + a) * 1000 div 2 ^ (8 - b) \<le> 31000" using assms(1) by (intro order.trans [OF div_le_dividend]) simp
    hence "unat (of_nat ((16 + a) * 1000 div 2 ^ (8 - b)) :: olsr_reltime) = (16 + a) * 1000 div 2 ^ (8 - b)"
      unfolding unat_of_nat by simp
    thus ?thesis unfolding me_to_reltime_def Let_def me nat_and_15 ab by (simp only: False if_False d)
  qed
qed

lemma mantissa_unique:
  fixes a b a' b' :: nat
  assumes "a < 16" "a' < 16" "(16 + a') * 2 ^ b' \<le> (16 + a) * 2 ^ b" "(16 + a) * 2 ^ b < (17 + a') * 2 ^ b'"
  shows "a' = a \<and> b' = b"
proof -
  have "16 * 2 ^ b' < 32 * (2::nat) ^ b"
  proof -
    have "16 * 2 ^ b' \<le> (16 + a') * 2 ^ b'" by simp
    also have "\<dots> \<le> (16 + a) * 2 ^ b" by (rule assms(3))
    also have "\<dots> < 32 * 2 ^ b" using assms(1) by simp
    finally show ?thesis .
  qed
  hence "(2::nat) ^ b' < 2 ^ Suc b" by simp
  hence 1: "b' \<le> b" by (simp only: power_strict_increasing_iff less_Suc_eq_le one_less_numeral_iff semiring_norm)
  have "16 * 2 ^ b < 32 * (2::nat) ^ b'"
  proof -
    have "16 * 2 ^ b \<le> (16 + a) * 2 ^ b" by simp
    also have "\<dots> < (17 + a') * 2 ^ b'" by (rule assms(4))
    also have "\<dots> \<le> 32 * 2 ^ b'" using assms(2) by simp
    finally show ?thesis .
  qed
  hence "(2::nat) ^ b < 2 ^ Suc b'" by simp
  hence "b \<le> b'" by (simp only: power_strict_increasing_iff less_Suc_eq_le one_less_numeral_iff semiring_norm)
  with 1 have b: "b' = b" by simp
  with assms(3,4) have "16 + a' \<le> 16 + a" "16 + a < 17 + a'" by simp_all
  with b show ?thesis by simp
qed

section \<open>Properties\<close>

text \<open>
  Encoding a time between 125 ms and 4096 s and decoding it again never lengthens it and
  loses less than one sixteenth of it (and one millisecond of rounding).
\<close>

theorem me_precision:
  assumes "125 \<le> unat t" "unat t < 4096000"
  shows "unat (me_to_reltime (reltime_to_me t)) \<le> unat t \<and>
         16 * (unat t - unat (me_to_reltime (reltime_to_me t))) < unat t + 16"
proof -
  have "125 \<le> unat t" "unat t < 125 * 2 ^ 15" using assms by simp_all
  moreover have tt: "of_nat (unat t) = t" by simp
  ultimately obtain a b where
    e: "reltime_to_me t = me_pack a b" "a < 16" "b \<le> 15"
       "(16 + a) * (125 * 2 ^ b) \<le> 32 * unat t" "32 * unat t < (17 + a) * (125 * 2 ^ b)"
    using encode_closed [of "unat t"] unfolding tt by blast
  define D where "D = (125 * 2 ^ b :: nat)"
  define d where "d = (16 + a) * D div 32"
  have dec: "unat (me_to_reltime (reltime_to_me t)) = d"
    using decode_closed [of a b] e(1-3) by (simp add: d_def D_def)
  have "32 * d \<le> (16 + a) * D" "(16 + a) * D < 32 * d + 32"
    using dividend_less_times_div [of 32 "(16 + a) * D"] by (simp_all add: d_def)
  moreover have "(17 + a) * D = (16 + a) * D + D" "16 * D \<le> (16 + a) * D" by (simp_all add: algebra_simps)
  ultimately show ?thesis using e(4,5) unfolding dec D_def [symmetric] by linarith
qed

theorem me_precision_witness: "unat (me_to_reltime (reltime_to_me 5000)) \<le> 5000"
  using me_precision [of 5000] by simp

text \<open>
  Every code whose exponent is at least 5 (two seconds and more) survives decoding and
  encoding unchanged, so that a validity time can be forwarded without drifting.
\<close>

theorem me_roundtrip:
  assumes "5 \<le> unat (me AND 15)"
  shows "reltime_to_me (me_to_reltime me) = me"
proof -
  define a where "a = unat me div 16"
  define b where "b = unat me mod 16"
  have me: "me = me_pack a b" unfolding me_pack_def a_def b_def by simp
  have "unat me < 2 ^ LENGTH(8)" by (rule unsigned_less)
  hence ab: "a < 16" "b < 16" unfolding a_def b_def by simp_all
  have b5: "5 \<le> b" using assms unfolding b_def by (simp add: unsigned_and_eq nat_and_15)
  then obtain c where c: "b = 5 + c" using le_Suc_ex by blast
  define d where "d = (16 + a) * (125 * 2 ^ c)"
  have P: "(2::nat) ^ c \<le> 2 ^ 10" using ab(2) c by (intro power_increasing) auto
  have "125 * 2 ^ c * 16 \<le> d" "d \<le> 31 * (125 * 2 ^ c)" using ab(1) by (simp_all add: d_def)
  moreover have "(1::nat) \<le> 2 ^ c" by simp
  moreover have "(2::nat) ^ 10 = 1024" "(2::nat) ^ 15 = 32768" by simp_all
  ultimately have dr: "125 \<le> d" "d < 125 * 2 ^ 15" using P by linarith+
  have "unat (me_to_reltime me) = d"
    using decode_closed [OF ab] by (simp add: me c d_def power_add)
  moreover have "of_nat (unat (me_to_reltime me)) = me_to_reltime me" by simp
  ultimately have md: "me_to_reltime me = of_nat d" by simp
  from encode_closed [OF dr] obtain a' b' where e: "reltime_to_me (of_nat d) = me_pack a' b'" "a' < 16"
    "(16 + a') * (125 * 2 ^ b') \<le> 32 * d" "32 * d < (17 + a') * (125 * 2 ^ b')" by blast
  have "32 * d = 125 * ((16 + a) * 2 ^ b)" by (simp add: d_def c power_add)
  with e(3,4) have "(16 + a') * 2 ^ b' \<le> (16 + a) * 2 ^ b" "(16 + a) * 2 ^ b < (17 + a') * 2 ^ b'" by simp_all
  from mantissa_unique [OF ab(1) e(2) this] e(1) md me show ?thesis by simp
qed

theorem me_roundtrip_witness: "reltime_to_me (me_to_reltime 0xA7) = 0xA7"
  using me_roundtrip [of "0xA7"] by simp

end
