(* ===== verification/Olsr_Packet.thy ===== *)
theory Olsr_Packet
  imports Olsr_Mantissa Olsr_Lsdb "HOL-Library.Monad_Syntax"
begin

text \<open>
  Reading and writing the fields of messages (the inline functions of \<^verbatim>\<open>src/lq_packet.h\<close>). A
  buffer is the list of its bytes and a cursor the offset of the next one; every function
  returns the moved cursor. Access outside the buffer, which the C code does not check, is
  \<^term>\<open>None\<close>.
\<close>

section \<open>Numbers in network byte order\<close>

fun be_bytes :: "nat \<Rightarrow> 'a::len word \<Rightarrow> u8 list" where
  "be_bytes 0 v = []"
| "be_bytes (Suc n) v = be_bytes n (drop_bit 8 v) @ [ucast v]"

lemma length_be_bytes [simp]: "length (be_bytes n v) = n"
  by (induction n v rule: be_bytes.induct) simp_all

lemma be_val_bytes: "be_val (be_bytes n v) = unat v mod 256 ^ n"
proof (induction n v rule: be_bytes.induct)
  case (2 n v)
  have u: "unat (ucast v :: u8) = unat v mod 256" by (simp add: unsigned_ucast_eq take_bit_eq_mod)
  have d: "unat (drop_bit 8 v) = unat v div 256" 
    using unat_drop_bit_eq [of 8 v] drop_bit_eq_div [of 8 "unat v"] by (simp only:) simp
  have "unat v mod 256 ^ Suc n = 256 * (unat v div 256 mod 256 ^ n) + unat v mod 256"
    by (simp add: mod_mult2_eq mult.commute)
  with 2 show ?case by (simp add: u d)
qed simp

section \<open>Buffers\<close>

definition get_bytes :: "nat \<Rightarrow> u8 list \<Rightarrow> nat \<Rightarrow> (u8 list \<times> nat) option" where
  "get_bytes n buf p = (if p + n \<le> length buf then Some (take n (drop p buf), p + n) else None)"

definition put_bytes :: "u8 list \<Rightarrow> u8 list \<Rightarrow> nat \<Rightarrow> (u8 list \<times> nat) option" where
  "put_bytes bs buf p =
     (if p + length bs \<le> length buf then Some (take p buf @ bs @ drop (p + length bs) buf, p + length bs) else None)"

lemma put_get_bytes: "put_bytes bs buf p = Some (buf', q) \<Longrightarrow>
   get_bytes (length bs) buf' p = Some (bs, q) \<and> length buf' = length buf \<and> q = p + length bs \<and>
   take p buf' = take p buf \<and> drop q buf' = drop q buf"
  by (auto simp: put_bytes_def get_bytes_def split: if_splits)

section \<open>Reading\<close>

definition pkt_get_u8 :: "u8 list \<Rightarrow> nat \<Rightarrow> (u8 \<times> nat) option" where
  "pkt_get_u8 buf p = map_option (map_prod hd id) (get_bytes 1 buf p)"

definition pkt_get_u16 :: "u8 list \<Rightarrow> nat \<Rightarrow> (u16 \<times> nat) option" where
  "pkt_get_u16 buf p = map_option (map_prod (of_nat \<circ> be_val) id) (get_bytes 2 buf p)"

definition pkt_get_u32 :: "u8 list \<Rightarrow> nat \<Rightarrow> (u32 \<times> nat) option" where
  "pkt_get_u32 buf p = map_option (map_prod (of_nat \<circ> be_val) id) (get_bytes 4 buf p)"

definition pkt_get_reltime :: "u8 list \<Rightarrow> nat \<Rightarrow> (olsr_reltime \<times> nat) option" where
  "pkt_get_reltime buf p = map_option (map_prod (me_to_reltime \<circ> hd) id) (get_bytes 1 buf p)"

definition ip_of_bytes :: "olsrd_config \<Rightarrow> u8 list \<Rightarrow> olsr_ip_addr" where
  "ip_of_bytes cnf bs = (if ip_v6 cnf then V6 (v6_of_bytes bs) else V4 (v4_of_bytes bs))"

definition pkt_get_ipaddress :: "olsrd_config \<Rightarrow> u8 list \<Rightarrow> nat \<Rightarrow> (olsr_ip_addr \<times> nat) option" where
  "pkt_get_ipaddress cnf buf p = map_option (map_prod (ip_of_bytes cnf) id) (get_bytes (ipsize cnf) buf p)"

definition pkt_ignore_u8 :: "nat \<Rightarrow> nat" where
  "pkt_ignore_u8 p = p + 1"

definition pkt_ignore_u16 :: "nat \<Rightarrow> nat" where
  "pkt_ignore_u16 p = p + 2"

definition pkt_ignore_u32 :: "nat \<Rightarrow> nat" where
  "pkt_ignore_u32 p = p + 4"

definition pkt_ignore_ipaddress :: "olsrd_config \<Rightarrow> nat \<Rightarrow> nat" where
  "pkt_ignore_ipaddress cnf p = p + ipsize cnf"

section \<open>Writing\<close>

definition pkt_put_u8 :: "u8 \<Rightarrow> u8 list \<Rightarrow> nat \<Rightarrow> (u8 list \<times> nat) option" where
  "pkt_put_u8 var buf p = put_bytes [var] buf p"

definition pkt_put_u16 :: "u16 \<Rightarrow> u8 list \<Rightarrow> nat \<Rightarrow> (u8 list \<times> nat) option" where
  "pkt_put_u16 var buf p = put_bytes (be_bytes 2 var) buf p"

definition pkt_put_u32 :: "u32 \<Rightarrow> u8 list \<Rightarrow> nat \<Rightarrow> (u8 list \<times> nat) option" where
  "pkt_put_u32 var buf p = put_bytes (be_bytes 4 var) buf p"

definition pkt_put_reltime :: "olsr_reltime \<Rightarrow> u8 list \<Rightarrow> nat \<Rightarrow> (u8 list \<times> nat) option" where
  "pkt_put_reltime var buf p = put_bytes [reltime_to_me var] buf p"

definition pkt_put_ipaddress :: "olsrd_config \<Rightarrow> olsr_ip_addr \<Rightarrow> u8 list \<Rightarrow> nat \<Rightarrow> (u8 list \<times> nat) option" where
  "pkt_put_ipaddress cnf var buf p = put_bytes (take (ipsize cnf) (ip_bytes var)) buf p"

lemmas pkt_get_defs = pkt_get_u8_def pkt_get_u16_def pkt_get_u32_def pkt_get_reltime_def pkt_get_ipaddress_def
lemmas pkt_put_defs = pkt_put_u8_def pkt_put_u16_def pkt_put_u32_def pkt_put_reltime_def pkt_put_ipaddress_def

section \<open>Round trips\<close>

text \<open>An address of the configured family.\<close>

definition family_ok :: "olsrd_config \<Rightarrow> olsr_ip_addr \<Rightarrow> bool" where
  "family_ok cnf a = (case a of V4 _ \<Rightarrow> \<not> ip_v6 cnf | V6 _ \<Rightarrow> ip_v6 cnf)"

lemma ip_of_bytes_id: "family_ok cnf a \<Longrightarrow> ip_of_bytes cnf (ip_bytes a) = a \<and> length (ip_bytes a) = ipsize cnf"
  by (cases a) (simp_all add: family_ok_def ip_of_bytes_def ipsize_def v4_bytes_id v6_bytes_id length_ip_bytes del: ip_bytes.simps)

lemma of_nat_be_val:
  fixes v :: "'a::len word"
  assumes "LENGTH('a) = 8 * n"
  shows "of_nat (be_val (be_bytes n v)) = v"
proof -
  have "unat v < 256 ^ n" using unat_bound [of v] assms by (simp add: power_mult)
  thus ?thesis by (simp add: be_val_bytes)
qed

lemma u8_roundtrip: "pkt_put_u8 a buf p = Some (buf', q) \<Longrightarrow> pkt_get_u8 buf' p = Some (a, q)"
  using put_get_bytes [of "[a]" buf p buf' q] by (simp add: pkt_put_u8_def pkt_get_u8_def)

lemma u16_roundtrip: "pkt_put_u16 b buf p = Some (buf', q) \<Longrightarrow> pkt_get_u16 buf' p = Some (b, q)"
  using put_get_bytes [of "be_bytes 2 b" buf p buf' q] of_nat_be_val [of 2 b]
  unfolding pkt_put_u16_def pkt_get_u16_def length_be_bytes by simp

lemma u32_roundtrip: "pkt_put_u32 c buf p = Some (buf', q) \<Longrightarrow> pkt_get_u32 buf' p = Some (c, q)"
  using put_get_bytes [of "be_bytes 4 c" buf p buf' q] of_nat_be_val [of 4 c]
  unfolding pkt_put_u32_def pkt_get_u32_def length_be_bytes by simp

lemma reltime_put_get: "pkt_put_reltime t buf p = Some (buf', q) \<Longrightarrow> pkt_get_reltime buf' p = Some (me_to_reltime (reltime_to_me t), q)"
  using put_get_bytes [of "[reltime_to_me t]" buf p buf' q] by (simp add: pkt_put_reltime_def pkt_get_reltime_def)

lemma ipaddress_roundtrip:
  "pkt_put_ipaddress cnf ip buf p = Some (buf', q) \<Longrightarrow> family_ok cnf ip \<Longrightarrow> pkt_get_ipaddress cnf buf' p = Some (ip, q)"
  using put_get_bytes [of "ip_bytes ip" buf p buf' q] ip_of_bytes_id [of cnf ip]
  by (simp add: pkt_put_ipaddress_def pkt_get_ipaddress_def)

lemma ipaddress_frame:
  assumes "pkt_put_ipaddress cnf ip buf p = Some (buf', q)"
  shows "length buf' = length buf" "take p buf' = take p buf" "drop q buf' = drop q buf"
  using put_get_bytes [OF assms [unfolded pkt_put_ipaddress_def]] by blast+

text \<open>
  What is written into a message is read back: a number in network byte order, an address of
  the configured family, and a time as the value its mantissa and exponent stand for. The
  cursors of the writer and of the reader agree and the rest of the buffer is untouched.
\<close>

theorem packet_roundtrip:
  "(pkt_put_u8 a buf p = Some (buf', q) \<longrightarrow> pkt_get_u8 buf' p = Some (a, q)) \<and>
   (pkt_put_u16 b buf p = Some (buf', q) \<longrightarrow> pkt_get_u16 buf' p = Some (b, q)) \<and>
   (pkt_put_u32 c buf p = Some (buf', q) \<longrightarrow> pkt_get_u32 buf' p = Some (c, q)) \<and>
   (pkt_put_reltime t buf p = Some (buf', q) \<longrightarrow> pkt_get_reltime buf' p = Some (me_to_reltime (reltime_to_me t), q)) \<and>
   (pkt_put_ipaddress cnf ip buf p = Some (buf', q) \<and> family_ok cnf ip \<longrightarrow> pkt_get_ipaddress cnf buf' p = Some (ip, q)) \<and>
   (pkt_put_ipaddress cnf ip buf p = Some (buf', q) \<longrightarrow>
      length buf' = length buf \<and> take p buf' = take p buf \<and> drop q buf' = drop q buf)"
  by (intro conjI impI; (elim conjE)?)
    (erule u8_roundtrip u16_roundtrip u32_roundtrip reltime_put_get ipaddress_roundtrip ipaddress_frame, assumption?)+

lemma be_bytes_2: "be_bytes 2 v = [ucast (drop_bit 8 v), ucast v]"
  by (simp add: numeral_2_eq_2)

theorem packet_roundtrip_witness:
  "pkt_put_u16 0x1234 [0, 0, 0, 0] 1 = Some ([0, 0x12, 0x34, 0], 3) \<and> pkt_get_u16 [0, 0x12, 0x34, 0] 1 = Some (0x1234, 3)"
proof -
  have p: "pkt_put_u16 0x1234 [0, 0, 0, 0] 1 = Some ([0, 0x12, 0x34, 0], 3)"
    unfolding pkt_put_u16_def be_bytes_2 by (simp add: put_bytes_def)
  from p packet_roundtrip [where b = "0x1234" and buf = "[0, 0, 0, 0]" and p = 1 and buf' = "[0, 0x12, 0x34, 0]" and q = 3]
  have "pkt_get_u16 [0, 0x12, 0x34, 0] 1 = Some (0x1234, 3)" by blast
  with p show ?thesis ..
qed

end
