(* ===== verification/Olsr_Tc_Set.thy ===== *)
theory Olsr_Tc_Set
  imports Olsr_Routing_Table Olsr_Packet
begin

text \<open>
  The link state database (\<^verbatim>\<open>src/tc_set.c\<close>): creating and deleting vertices and edges, the
  garbage collection of outdated edges, and the processing of TC messages. The functions that
  the active link quality plugin provides (\<^verbatim>\<open>src/lq_plugin.c\<close>) are the record \<open>tc_lq_handler\<close>;
  the filter of invalid addresses (\<^verbatim>\<open>src/net_olsr.c\<close>) is a list of addresses.
\<close>

section \<open>Sequence numbers\<close>

definition SEQNO_GREATER_THAN :: "u16 \<Rightarrow> u16 \<Rightarrow> bool" where
  "SEQNO_GREATER_THAN s1 s2 \<longleftrightarrow>
     s1 > s2 \<and> unat s1 - unat s2 \<le> 0xFFFF div 2 \<or> s2 > s1 \<and> unat s2 - unat s1 > 0xFFFF div 2"

definition olsr_seq_inrange_low :: "int \<Rightarrow> int \<Rightarrow> u16 \<Rightarrow> bool" where
  "olsr_seq_inrange_low beg end seq =
     (if beg < 0 then seq \<ge> word_of_int beg \<or> uint seq < end
      else if end \<ge> 0x10000 then uint seq \<ge> beg \<or> seq < word_of_int end
      else uint seq \<ge> beg \<and> uint seq < end)"

definition olsr_seq_inrange_high :: "int \<Rightarrow> int \<Rightarrow> u16 \<Rightarrow> bool" where
  "olsr_seq_inrange_high beg end seq =
     (if beg < 0 then seq > word_of_int beg \<or> uint seq \<le> end
      else if end \<ge> 0x10000 then uint seq > beg \<or> seq \<le> word_of_int end
      else uint seq > beg \<and> uint seq \<le> end)"

definition TC_ANSN_WINDOW :: int where
  "TC_ANSN_WINDOW = 256"

definition TC_SEQNO_WINDOW :: int where
  "TC_SEQNO_WINDOW = 1024"

definition TC_ANSN_WINDOW_MULT :: int where
  "TC_ANSN_WINDOW_MULT = 4"

definition TC_SEQNO_WINDOW_MULT :: int where
  "TC_SEQNO_WINDOW_MULT = 8"

section \<open>The environment\<close>

record 'lq tc_lq_handler =
  calc_tc_cost :: "'lq \<Rightarrow> olsr_linkcost"
  deserialize_tc_lq :: "u8 list \<Rightarrow> nat \<Rightarrow> 'lq \<Rightarrow> ('lq \<times> nat) option"
  zeroed_tc_lq :: 'lq  \<comment> \<open>the plugin data in freshly allocated memory\<close>

definition olsr_add_invalid_address :: "olsr_ip_addr \<Rightarrow> olsr_ip_addr list \<Rightarrow> olsr_ip_addr list" where
  "olsr_add_invalid_address adr deny_entries = adr # deny_entries"

definition init_net :: "olsrd_config \<Rightarrow> olsr_ip_addr list \<Rightarrow> olsr_ip_addr list" where
  "init_net cnf deny_entries =
     fold olsr_add_invalid_address (if ip_v6 cnf then [V6 0, V6 1] else [V4 0, V4 0x0100007f]) deny_entries"

definition olsr_validate_address :: "olsr_ip_addr list \<Rightarrow> olsr_ip_addr \<Rightarrow> bool" where
  "olsr_validate_address deny_entries adr \<longleftrightarrow> \<not> list_ex (ipequal adr) deny_entries"

section \<open>Vertices\<close>

definition OLSR_RT_ORIGIN_INT :: u8 where
  "OLSR_RT_ORIGIN_INT = 1"

definition new_tc_entry :: "olsr_ip_addr \<Rightarrow> tc_entry" where
  "new_tc_entry adr = \<lparr>addr = adr, path_cost = 0, edge_tree = avl_init, prefix_tree = avl_init, next_hop = None,
     edge_gc_timer = None, validity_timer = None, refcount = 0, msg_seq = 0, msg_hops = 0, hops = 0, ansn = 0,
     ignored = 0, err_seq = 0, err_seq_valid = False\<rparr>"

text \<open>
  The code adds the route to the new vertex through \<open>olsr_insert_routing_table\<close>, which looks the
  vertex up again and would create it if it were missing; the lookup succeeds here (lemma
  \<open>add_tc_entry_calls_insert\<close>), so that the recursion is unfolded once.
\<close>

definition olsr_add_tc_entry :: "olsrd_config \<Rightarrow> olsr_ip_addr \<Rightarrow> 'lq lsdb \<Rightarrow> (ptr option \<times> 'lq lsdb) option" where
  "olsr_add_tc_entry cnf adr db =
     (if ipequal (main_addr cnf) (all_zero cnf) then Some (None, db)
      else do {
        let p = heap_next db;
        (T, _) \<leftarrow> avl_insert (tc_tree db) adr p False;
        db1 \<leftarrow> olsr_lock_tc_entry p
                 (db\<lparr>tc_tree := T, tcs := (tcs db)(p \<mapsto> new_tc_entry adr), heap_next := p + 1\<rparr>);
        q \<leftarrow> olsr_lookup_tc_entry adr db1;
        (_, db2) \<leftarrow> insert_prefix cnf adr (maxplen cnf) q OLSR_RT_ORIGIN_INT db1;
        Some (Some p, db2)
      })"

definition olsr_init_tc :: "olsrd_config \<Rightarrow> 'lq lsdb \<Rightarrow> 'lq lsdb option" where
  "olsr_init_tc cnf db = do {
     (p, db1) \<leftarrow> olsr_add_tc_entry cnf (main_addr cnf) (db\<lparr>tc_tree := avl_init\<rparr>);
     Some (db1\<lparr>tc_myself := p\<rparr>)
   }"

definition olsr_locate_tc_entry :: "olsrd_config \<Rightarrow> olsr_ip_addr \<Rightarrow> 'lq lsdb \<Rightarrow> (ptr option \<times> 'lq lsdb) option" where
  "olsr_locate_tc_entry cnf adr db = (case olsr_lookup_tc_entry adr db of
       None \<Rightarrow> olsr_add_tc_entry cnf adr db
     | Some p \<Rightarrow> Some (Some p, db))"

definition olsr_insert_routing_table ::
    "olsrd_config \<Rightarrow> olsr_ip_addr \<Rightarrow> u8 \<Rightarrow> olsr_ip_addr \<Rightarrow> u8 \<Rightarrow> 'lq lsdb \<Rightarrow> (ptr option \<times> 'lq lsdb) option" where
  "olsr_insert_routing_table cnf dst plen originator origin db =
     (if plen > maxplen cnf then Some (None, db)
      else do {
        (tcp, db1) \<leftarrow> olsr_locate_tc_entry cnf originator db;
        p \<leftarrow> tcp;
        (r, db2) \<leftarrow> insert_prefix cnf dst plen p origin db1;
        Some (Some r, db2)
      })"

section \<open>Edges\<close>

definition olsr_lookup_tc_edge :: "ptr \<Rightarrow> olsr_ip_addr \<Rightarrow> 'lq lsdb \<Rightarrow> ptr option option" where
  "olsr_lookup_tc_edge tcp edge_addr db = map_option (\<lambda>tc. avl_find (edge_tree tc) edge_addr) (tcs db tcp)"

definition olsr_calc_tc_edge_entry_etx ::
    "olsrd_config \<Rightarrow> 'lq tc_lq_handler \<Rightarrow> ptr \<Rightarrow> 'lq lsdb \<Rightarrow> (bool \<times> 'lq lsdb) option" where
  "olsr_calc_tc_edge_entry_etx cnf h e db =
     (if lq_level cnf < 1 then Some (False, db)
      else do {
        ed \<leftarrow> tc_edges db e;
        Some (True, upd_edge e (\<lambda>ed. ed\<lparr>cost := calc_tc_cost h (linkquality ed)\<rparr>) db)
      })"

definition connect_inverse :: "ptr \<Rightarrow> ptr \<Rightarrow> olsr_ip_addr \<Rightarrow> 'lq lsdb \<Rightarrow> 'lq lsdb option" where
  "connect_inverse e tcp dest db = do {
     tc \<leftarrow> tcs db tcp;
     case olsr_lookup_tc_entry dest db of
       None \<Rightarrow> Some db
     | Some q \<Rightarrow> do {
         inv_edge \<leftarrow> olsr_lookup_tc_edge q (addr tc) db;
         case inv_edge of
           None \<Rightarrow> Some db
         | Some ei \<Rightarrow> do {
             ed' \<leftarrow> tc_edges db ei;
             Some (upd_edge e (\<lambda>ed. ed\<lparr>edge_inv := Some ei\<rparr>) (upd_edge ei (\<lambda>ed. ed\<lparr>edge_inv := Some e\<rparr>) db))
           }
       }
   }"

definition olsr_add_tc_edge_entry ::
    "olsrd_config \<Rightarrow> 'lq tc_lq_handler \<Rightarrow> ptr \<Rightarrow> olsr_ip_addr \<Rightarrow> u16 \<Rightarrow> 'lq lsdb \<Rightarrow> (ptr \<times> 'lq lsdb) option" where
  "olsr_add_tc_edge_entry cnf h tcp dest an db = do {
     let e = heap_next db;
     tc \<leftarrow> tcs db tcp;
     (T, _) \<leftarrow> avl_insert (edge_tree tc) dest e False;
     db1 \<leftarrow> olsr_lock_tc_entry tcp (upd_tc tcp (\<lambda>tc. tc\<lparr>edge_tree := T\<rparr>) db);
     let ed = \<lparr>T_dest_addr = dest, edge_inv = None, edge_tc = tcp, cost = 0, edge_ansn = an, linkquality = zeroed_tc_lq h\<rparr>;
     db2 \<leftarrow> connect_inverse e tcp dest (db1\<lparr>tc_edges := (tc_edges db1)(e \<mapsto> ed), heap_next := e + 1\<rparr>);
     (_, db3) \<leftarrow> olsr_calc_tc_edge_entry_etx cnf h e db2;
     Some (e, db3)
   }"

definition olsr_delete_tc_edge_entry :: "ptr \<Rightarrow> 'lq lsdb \<Rightarrow> 'lq lsdb option" where
  "olsr_delete_tc_edge_entry e db = do {
     ed \<leftarrow> tc_edges db e;
     tc \<leftarrow> tcs db (edge_tc ed);
     T \<leftarrow> avl_delete (edge_tree tc) e;
     db1 \<leftarrow> olsr_unlock_tc_entry (edge_tc ed) (upd_tc (edge_tc ed) (\<lambda>tc. tc\<lparr>edge_tree := T\<rparr>) db);
     db2 \<leftarrow> (case edge_inv ed of
               None \<Rightarrow> Some db1
             | Some ei \<Rightarrow> do {
                 ed' \<leftarrow> tc_edges db1 ei;
                 Some (upd_edge ei (\<lambda>ed. ed\<lparr>edge_inv := None\<rparr>) db1)
               });
     Some (db2\<lparr>tc_edges := (tc_edges db2)(e := None)\<rparr>)
   }"

definition olsr_delete_tc_entry :: "olsrd_config \<Rightarrow> ptr \<Rightarrow> 'lq lsdb \<Rightarrow> 'lq lsdb option" where
  "olsr_delete_tc_entry cnf p db = do {
     tc \<leftarrow> tcs db p;
     db1 \<leftarrow> olsr_delete_routing_table cnf (addr tc) (maxplen cnf) (addr tc)
              (db\<lparr>lsdb_calls := lsdb_calls db @ [Delete_gateway_entry (addr tc)]\<rparr>);
     tc1 \<leftarrow> tcs db1 p;
     db2 \<leftarrow> foldM olsr_delete_tc_edge_entry (edges_of tc1) db1;
     tc2 \<leftarrow> tcs db2 p;
     db3 \<leftarrow> foldM olsr_delete_rt_path (prefixes_of tc2) db2;
     tc3 \<leftarrow> tcs db3 p;
     let db4 = upd_tc p (\<lambda>tc. tc\<lparr>edge_gc_timer := None, validity_timer := None\<rparr>) db3;
     T \<leftarrow> avl_delete (tc_tree db4) p;
     olsr_unlock_tc_entry p (db4\<lparr>tc_tree := T\<rparr>)
   }"

definition olsr_delete_all_tc_entries :: "olsrd_config \<Rightarrow> 'lq lsdb \<Rightarrow> 'lq lsdb option" where
  "olsr_delete_all_tc_entries cnf db = foldM (olsr_delete_tc_entry cnf) (vertices db) db"

definition olsr_change_myself_tc :: "olsrd_config \<Rightarrow> 'lq lsdb \<Rightarrow> 'lq lsdb option" where
  "olsr_change_myself_tc cnf db = do {
     (changed, db1) \<leftarrow> (case tc_myself db of
         None \<Rightarrow> Some (True, db)
       | Some p \<Rightarrow> do {
           tc \<leftarrow> tcs db p;
           if ipequal (addr tc) (main_addr cnf) then Some (False, db)
           else do { db' \<leftarrow> olsr_delete_tc_entry cnf p db; Some (True, db') }
         });
     if changed then do {
       (q, db2) \<leftarrow> olsr_add_tc_entry cnf (main_addr cnf) db1;
       Some (db2\<lparr>tc_myself := q, changes_topology := True\<rparr>)
     } else Some db1
   }"

section \<open>Expiry\<close>

definition delete_if_outdated :: "u16 \<Rightarrow> ptr \<Rightarrow> bool \<times> 'lq lsdb \<Rightarrow> (bool \<times> 'lq lsdb) option" where
  "delete_if_outdated an e s = (case s of (ret, db) \<Rightarrow> do {
     ed \<leftarrow> tc_edges db e;
     if SEQNO_GREATER_THAN an (edge_ansn ed) then do {
       db' \<leftarrow> olsr_delete_tc_edge_entry e db;
       Some (True, db')
     } else Some (ret, db)
   })"

definition olsr_delete_outdated_tc_edges :: "ptr \<Rightarrow> 'lq lsdb \<Rightarrow> (bool \<times> 'lq lsdb) option" where
  "olsr_delete_outdated_tc_edges tcp db = do {
     tc \<leftarrow> tcs db tcp;
     foldM (delete_if_outdated (ansn tc)) (edges_of tc) (False, db)
   }"

definition olsr_expire_tc_entry :: "olsrd_config \<Rightarrow> ptr \<Rightarrow> 'lq lsdb \<Rightarrow> 'lq lsdb option" where
  "olsr_expire_tc_entry cnf p db = do {
     tc \<leftarrow> tcs db p;
     db1 \<leftarrow> olsr_delete_tc_entry cnf p (upd_tc p (\<lambda>tc. tc\<lparr>validity_timer := None\<rparr>) db);
     Some (db1\<lparr>changes_topology := True\<rparr>)
   }"

definition olsr_expire_tc_edge_gc :: "ptr \<Rightarrow> 'lq lsdb \<Rightarrow> 'lq lsdb option" where
  "olsr_expire_tc_edge_gc p db = do {
     tc \<leftarrow> tcs db p;
     (deleted, db1) \<leftarrow> olsr_delete_outdated_tc_edges p (upd_tc p (\<lambda>tc. tc\<lparr>edge_gc_timer := None\<rparr>) db);
     Some (if deleted then db1\<lparr>changes_topology := True\<rparr> else db1)
   }"

text \<open>The loop over the edges between the borders, with \<open>passedLowerBorder\<close> and \<open>retval\<close>.\<close>

fun revoke_edges :: "u16 \<Rightarrow> olsr_ip_addr \<Rightarrow> olsr_ip_addr \<Rightarrow> ptr list \<Rightarrow> bool \<Rightarrow> bool \<Rightarrow> 'lq lsdb \<Rightarrow> (bool \<times> 'lq lsdb) option" where
  "revoke_edges an lower upper [] passed ret db = Some (ret, db)"
| "revoke_edges an lower upper (e # es) passed ret db = do {
     ed \<leftarrow> tc_edges db e;
     let passed' = (passed \<or> lower \<le> T_dest_addr ed);
     if \<not> passed' then revoke_edges an lower upper es passed' ret db
     else if upper \<le> T_dest_addr ed then Some (ret, db)
     else if SEQNO_GREATER_THAN an (edge_ansn ed) then do {
       db' \<leftarrow> olsr_delete_tc_edge_entry e db;
       revoke_edges an lower upper es passed' True db'
     }
     else revoke_edges an lower upper es passed' ret db
   }"

definition olsr_delete_revoked_tc_edges ::
    "ptr \<Rightarrow> u16 \<Rightarrow> olsr_ip_addr \<Rightarrow> olsr_ip_addr \<Rightarrow> 'lq lsdb \<Rightarrow> (bool \<times> 'lq lsdb) option" where
  "olsr_delete_revoked_tc_edges tcp an lower_border upper_border db = do {
     tc \<leftarrow> tcs db tcp;
     (ret, db1) \<leftarrow> revoke_edges an lower_border upper_border (edges_of tc) False False db;
     Some (ret, if ret then db1\<lparr>changes_topology := True\<rparr> else db1)
   }"

section \<open>TC messages\<close>

text \<open>Result: whether the edge set changed, the address read, the cursor and the database.\<close>

definition olsr_tc_update_edge ::
    "olsrd_config \<Rightarrow> 'lq tc_lq_handler \<Rightarrow> olsr_ip_addr list \<Rightarrow> ptr \<Rightarrow> u16 \<Rightarrow> u8 list \<Rightarrow> nat \<Rightarrow> 'lq lsdb \<Rightarrow>
     (bool \<times> olsr_ip_addr \<times> nat \<times> 'lq lsdb) option" where
  "olsr_tc_update_edge cnf h deny tcp an buf cur db = do {
     (neighbor, cur1) \<leftarrow> pkt_get_ipaddress cnf buf cur;
     found \<leftarrow> olsr_lookup_tc_edge tcp neighbor db;
     case found of
       None \<Rightarrow>
         (if \<not> olsr_validate_address deny neighbor then Some (False, neighbor, cur1, db)
          else do {
            (e, db1) \<leftarrow> olsr_add_tc_edge_entry cnf h tcp neighbor an db;
            ed \<leftarrow> tc_edges db1 e;
            (l, cur2) \<leftarrow> deserialize_tc_lq h buf cur1 (linkquality ed);
            Some (True, neighbor, cur2, upd_edge e (\<lambda>ed. ed\<lparr>linkquality := l\<rparr>) db1)
          })
     | Some e \<Rightarrow> do {
         ed \<leftarrow> tc_edges db e;
         (l, cur2) \<leftarrow> (if lq_level cnf > 0 then deserialize_tc_lq h buf cur1 (linkquality ed)
                        else Some (linkquality ed, cur1));
         (changed, db1) \<leftarrow> olsr_calc_tc_edge_entry_etx cnf h e
                            (upd_edge e (\<lambda>ed. ed\<lparr>edge_ansn := an, linkquality := l\<rparr>) db);
         Some (changed, neighbor, cur2, db1)
       }
   }"

text \<open>Borders are masks on the octets of an address; an index below zero is outside the array.\<close>

definition border_mask :: "u8 \<Rightarrow> u8 list \<Rightarrow> u8 list option" where
  "border_mask border bs =
     (let b = border - 1; n = unat b div 8; i = length bs - n - 1; s = unat (b AND 7)
      in if n \<ge> length bs then None
         else Some ((take (length bs - n) bs @ replicate n 0)[i := (bs ! i AND push_bit s 0xff) OR push_bit s 1]))"

definition SIZEOF_POINTER :: nat where
  "SIZEOF_POINTER = 8"

definition memset_prefix :: "nat \<Rightarrow> u8 \<Rightarrow> u8 list \<Rightarrow> u8 list" where
  "memset_prefix n v bs = replicate (min n (length bs)) v @ drop n bs"

text \<open>\<open>sizeof (lower_border_ip)\<close> is the size of a pointer.\<close>

definition olsr_calculate_tc_border ::
    "olsrd_config \<Rightarrow> u8 \<Rightarrow> olsr_ip_addr \<Rightarrow> u8 \<Rightarrow> olsr_ip_addr \<Rightarrow> (bool \<times> olsr_ip_addr \<times> olsr_ip_addr) option" where
  "olsr_calculate_tc_border cnf lower_border lower_ip upper_border upper_ip =
     (if lower_border = 0 \<and> upper_border = 0 then Some (False, lower_ip, upper_ip)
      else do {
        lo \<leftarrow> (if lower_border = 0xff then Some (memset_prefix SIZEOF_POINTER 0 (ip_bytes lower_ip))
              else border_mask lower_border (ip_bytes lower_ip));
        up \<leftarrow> (if upper_border = 0xff then Some (memset_prefix SIZEOF_POINTER 0xff (ip_bytes upper_ip))
              else border_mask upper_border (ip_bytes upper_ip));
        Some (True, ip_of_bytes cnf lo, ip_of_bytes cnf up)
      })"

definition LQ_TC_MESSAGE :: u8 where
  "LQ_TC_MESSAGE = 202"

definition TC_MESSAGE :: u8 where
  "TC_MESSAGE = 2"

definition OLSR_TC_EDGE_GC_TIME :: olsr_reltime where
  "OLSR_TC_EDGE_GC_TIME = 2000"

record tc_header =
  tc_vtime :: olsr_reltime
  tc_size :: u16
  tc_orig :: olsr_ip_addr
  tc_ttl :: u8
  tc_hops :: u8
  tc_seq :: u16
  tc_ansn :: u16
  tc_lower :: u8
  tc_upper :: u8

text \<open>The fields behind the message type, and the cursor at the first edge.\<close>

definition read_tc_header :: "olsrd_config \<Rightarrow> u8 list \<Rightarrow> nat \<Rightarrow> (tc_header \<times> nat) option" where
  "read_tc_header cnf buf p = do {
     (vtime, p) \<leftarrow> pkt_get_reltime buf p;
     (size, p) \<leftarrow> pkt_get_u16 buf p;
     (orig, p) \<leftarrow> pkt_get_ipaddress cnf buf p;
     (ttl, p) \<leftarrow> pkt_get_u8 buf p;
     (hop, p) \<leftarrow> pkt_get_u8 buf p;
     (seq, p) \<leftarrow> pkt_get_u16 buf p;
     (an, p) \<leftarrow> pkt_get_u16 buf p;
     (lower, p) \<leftarrow> pkt_get_u8 buf p;
     (upper, p) \<leftarrow> pkt_get_u8 buf p;
     Some (\<lparr>tc_vtime = (if vtime < min_tc_vtime_ms cnf then min_tc_vtime_ms cnf else vtime), tc_size = size,
            tc_orig = orig, tc_ttl = ttl, tc_hops = hop, tc_seq = seq, tc_ansn = an, tc_lower = lower,
            tc_upper = upper\<rparr>, p)
   }"

text \<open>
  The checks of the sequence numbers against those remembered for the originator: the vertex
  with its updated counters, and whether the message is processed.
\<close>

definition tc_seq_check :: "u16 \<Rightarrow> u16 \<Rightarrow> tc_entry \<Rightarrow> tc_entry \<times> bool" where
  "tc_seq_check seq an tc =
     (if olsr_seq_inrange_high (uint (msg_seq tc) - TC_SEQNO_WINDOW) (uint (msg_seq tc)) seq \<and>
         olsr_seq_inrange_high (uint (ansn tc) - TC_ANSN_WINDOW) (uint (ansn tc)) an
      then if msg_seq tc = seq then (tc, False)
           else (tc\<lparr>ignored := ignored tc + 1\<rparr>, \<not> ignored tc < 32)
      else if \<not> olsr_seq_inrange_high (uint (msg_seq tc)) (uint (msg_seq tc) + TC_SEQNO_WINDOW * TC_SEQNO_WINDOW_MULT) seq \<or>
              \<not> olsr_seq_inrange_low (uint (ansn tc)) (uint (ansn tc) + TC_ANSN_WINDOW * TC_ANSN_WINDOW_MULT) an
      then let tc' = (if \<not> err_seq_valid tc then tc\<lparr>err_seq := seq, err_seq_valid := True\<rparr> else tc)
           in (tc', err_seq tc' \<noteq> seq)
      else (tc, True))"

text \<open>
  The walk over the advertised edges; the last argument is the lower border, set by the first
  one. Every pass consumes an address, so that as many passes as there are octets are enough.
\<close>

fun tc_edge_loop ::
    "nat \<Rightarrow> olsrd_config \<Rightarrow> 'lq tc_lq_handler \<Rightarrow> olsr_ip_addr list \<Rightarrow> ptr \<Rightarrow> u16 \<Rightarrow> u8 list \<Rightarrow> nat \<Rightarrow> nat \<Rightarrow> 'lq lsdb \<Rightarrow>
     (olsr_ip_addr \<times> olsr_ip_addr) option \<Rightarrow> ((olsr_ip_addr \<times> olsr_ip_addr) option \<times> 'lq lsdb) option" where
  "tc_edge_loop fuel cnf h deny tcp an buf limit cur db borders =
     (if \<not> cur < limit then Some (borders, db)
      else case fuel of
          0 \<Rightarrow> None
        | Suc n \<Rightarrow> do {
            (changed, neighbor, cur', db') \<leftarrow> olsr_tc_update_edge cnf h deny tcp an buf cur db;
            tc_edge_loop n cnf h deny tcp an buf limit cur'
              (if changed then db'\<lparr>changes_topology := True\<rparr> else db')
              (Some (case borders of None \<Rightarrow> neighbor | Some (lo, _) \<Rightarrow> lo, neighbor))
          })"

declare tc_edge_loop.simps [simp del]

definition full_borders :: "olsrd_config \<Rightarrow> olsr_ip_addr \<times> olsr_ip_addr" where
  "full_borders cnf = (if ip_v6 cnf then (V6 0, V6 (- 1)) else (V4 0, V4 (- 1)))"

text \<open>The borders of the part of the neighbours that the message covers, if it says so.\<close>

definition tc_borders ::
    "olsrd_config \<Rightarrow> tc_header \<Rightarrow> bool \<Rightarrow> (olsr_ip_addr \<times> olsr_ip_addr) option \<Rightarrow> (olsr_ip_addr \<times> olsr_ip_addr) option option" where
  "tc_borders cnf hdr emptyTC borders = do {
     bset \<leftarrow> (case borders of
         None \<Rightarrow> Some None
       | Some (lo, up) \<Rightarrow> do {
           (set, lo', up') \<leftarrow> olsr_calculate_tc_border cnf (tc_lower hdr) lo (tc_upper hdr) up;
           Some (if set then Some (lo', up') else None)
         });
     Some (if emptyTC \<and> tc_lower hdr = 0xff \<and> tc_upper hdr = 0xff then Some (full_borders cnf) else bset)
   }"

text \<open>Borders, timers and revoked edges, once the edges are read.\<close>

definition tc_finish ::
    "olsrd_config \<Rightarrow> tc_header \<Rightarrow> bool \<Rightarrow> ptr \<Rightarrow> (olsr_ip_addr \<times> olsr_ip_addr) option \<Rightarrow> 'lq lsdb \<Rightarrow> 'lq lsdb option" where
  "tc_finish cnf hdr emptyTC p borders db = do {
     bset \<leftarrow> tc_borders cnf hdr emptyTC borders;
     tc \<leftarrow> tcs db p;
     let db1 = upd_tc p (\<lambda>tc. tc\<lparr>validity_timer := Some (tc_vtime hdr)\<rparr>) db;
     db2 \<leftarrow> (case bset of
         Some (lo, up) \<Rightarrow> map_option snd (olsr_delete_revoked_tc_edges p (tc_ansn hdr) lo up db1)
       | None \<Rightarrow> Some (upd_tc p (\<lambda>tc. tc\<lparr>edge_gc_timer := Some OLSR_TC_EDGE_GC_TIME\<rparr>) db1));
     if emptyTC \<and> bset \<noteq> None then
       olsr_delete_tc_entry cnf p (db2\<lparr>lsdb_calls := lsdb_calls db2 @
         [Cleanup_mid (tc_orig hdr), Cleanup_hna (tc_orig hdr), Cleanup_duplicates (tc_orig hdr)]\<rparr>)
     else Some db2
   }"

text \<open>Whether a message is processed, given what is remembered of its originator.\<close>

definition tc_accept :: "tc_header \<Rightarrow> 'lq lsdb \<Rightarrow> (bool \<times> 'lq lsdb) option" where
  "tc_accept hdr db = (case olsr_lookup_tc_entry (tc_orig hdr) db of
       None \<Rightarrow> Some (True, db)
     | Some p \<Rightarrow> do {
         tc \<leftarrow> tcs db p;
         if count (edge_tree tc) \<noteq> 0
         then (case tc_seq_check (tc_seq hdr) (tc_ansn hdr) tc of (tc', ok) \<Rightarrow> Some (ok, upd_tc p (\<lambda>_. tc') db))
         else Some (True, db)
       })"

text \<open>The update of the originator and of its edges.\<close>

definition tc_process ::
    "olsrd_config \<Rightarrow> 'lq tc_lq_handler \<Rightarrow> olsr_ip_addr list \<Rightarrow> tc_header \<Rightarrow> u8 list \<Rightarrow> nat \<Rightarrow> 'lq lsdb \<Rightarrow> 'lq lsdb option" where
  "tc_process cnf h deny hdr buf cur db = do {
     (q, db1) \<leftarrow> olsr_locate_tc_entry cnf (tc_orig hdr) db;
     p \<leftarrow> q;
     tc \<leftarrow> tcs db1 p;
     let db2 = upd_tc p (\<lambda>tc. tc\<lparr>msg_hops := tc_hops hdr, msg_seq := tc_seq hdr, ansn := tc_ansn hdr, ignored := 0,
                           err_seq_valid := False\<rparr>) db1;
     let limit = unat (tc_size hdr);
     (borders, db3) \<leftarrow> tc_edge_loop limit cnf h deny p (tc_ansn hdr) buf limit cur db2 None;
     tc_finish cnf hdr (\<not> cur < limit) p borders db3
   }"

text \<open>
  The whole handler; \<open>symm_nbr\<close> tells whether the sender is a symmetric neighbour, the buffer starts
  at the message. The result says whether the message is forwarded.
\<close>

definition olsr_input_tc ::
    "olsrd_config \<Rightarrow> 'lq tc_lq_handler \<Rightarrow> olsr_ip_addr list \<Rightarrow> bool \<Rightarrow> u8 list \<Rightarrow> 'lq lsdb \<Rightarrow> (bool \<times> 'lq lsdb) option" where
  "olsr_input_tc cnf h deny symm_nbr buf db = do {
     (type, p0) \<leftarrow> pkt_get_u8 buf 0;
     if type \<noteq> LQ_TC_MESSAGE \<and> type \<noteq> TC_MESSAGE then Some (False, db)
     else if \<not> symm_nbr then Some (False, db)
     else do {
       (hdr, cur) \<leftarrow> read_tc_header cnf buf p0;
       (accepted, db1) \<leftarrow> tc_accept hdr db;
       if \<not> accepted then Some (False, db1)
       else do {
         db2 \<leftarrow> tc_process cnf h deny hdr buf cur db1;
         Some (True, db2)
       }
     }
   }"

end
