(* ===== verification/Olsr_Lsdb_Inv.thy ===== *)
theory Olsr_Lsdb_Inv
  imports Olsr_Tc_Set
begin

text \<open>
  The invariant of the link state database and the routing information base: every tree indexes
  exactly the live objects that belong to it, edges know their reverse edge if and only if there
  is one, backpointers are live, reference counts are exact. Every operation of
  \<^verbatim>\<open>src/tc_set.c\<close> and \<^verbatim>\<open>src/routing_table.c\<close> that changes objects succeeds on such a database
  (no freed object is dereferenced, no tree is corrupted) and keeps the invariant.
\<close>

section \<open>The invariant\<close>

definition vertex_key :: "'lq lsdb \<Rightarrow> ptr \<rightharpoonup> olsr_ip_addr" where
  "vertex_key db p = map_option addr (tcs db p)"

definition edge_key :: "'lq lsdb \<Rightarrow> ptr \<Rightarrow> ptr \<rightharpoonup> olsr_ip_addr" where
  "edge_key db p e = (case tc_edges db e of None \<Rightarrow> None | Some ed \<Rightarrow> if edge_tc ed = p then Some (T_dest_addr ed) else None)"

definition prefix_key :: "'lq lsdb \<Rightarrow> ptr \<Rightarrow> ptr \<rightharpoonup> olsr_ip_prefix" where
  "prefix_key db p r = (case rt_paths db r of None \<Rightarrow> None | Some rp \<Rightarrow> if rtp_tc rp = Some p then Some (rtp_dst rp) else None)"

definition entry_key :: "'lq lsdb \<Rightarrow> ptr \<rightharpoonup> olsr_ip_prefix" where
  "entry_key db x = map_option rt_dst (rt_entries db x)"

definition path_key :: "'lq lsdb \<Rightarrow> ptr \<Rightarrow> ptr \<rightharpoonup> olsr_ip_addr" where
  "path_key db x r = (case rt_paths db r of None \<Rightarrow> None | Some rp \<Rightarrow> if rtp_rt rp = Some x then Some (rtp_originator rp) else None)"

text \<open>The two ends of an edge: the abstract topology.\<close>

definition edge_ends :: "'lq lsdb \<Rightarrow> ptr \<rightharpoonup> olsr_ip_addr \<times> olsr_ip_addr" where
  "edge_ends db e = (case tc_edges db e of
       None \<Rightarrow> None
     | Some ed \<Rightarrow> (case tcs db (edge_tc ed) of None \<Rightarrow> None | Some tc \<Rightarrow> Some (addr tc, T_dest_addr ed)))"

definition ref_of :: "tc_entry \<Rightarrow> u32" where
  "ref_of tc = 1 + of_nat (length (avl_walk (edge_tree tc)) + length (avl_walk (prefix_tree tc)))"

definition vertex_ok :: "'lq lsdb \<Rightarrow> ptr \<Rightarrow> tc_entry \<Rightarrow> bool" where
  "vertex_ok db p tc \<longleftrightarrow> indexes (edge_tree tc) (edge_key db p) \<and> indexes (prefix_tree tc) (prefix_key db p) \<and>
     refcount tc = ref_of tc"

definition edge_wf :: "'lq lsdb \<Rightarrow> ptr \<Rightarrow> 'lq tc_edge_entry \<Rightarrow> bool" where
  "edge_wf db e ed \<longleftrightarrow> tcs db (edge_tc ed) \<noteq> None \<and>
     (\<forall>u v ei. edge_ends db e = Some (u, v) \<longrightarrow> (edge_inv ed = Some ei \<longleftrightarrow> edge_ends db ei = Some (v, u)))"

definition path_wf :: "'lq lsdb \<Rightarrow> rt_path \<Rightarrow> bool" where
  "path_wf db rp \<longleftrightarrow> (case rtp_tc rp of None \<Rightarrow> False | Some p \<Rightarrow> tcs db p \<noteq> None) \<and>
     (case rtp_rt rp of None \<Rightarrow> True | Some x \<Rightarrow> entry_key db x = Some (rtp_dst rp))"

definition allocated :: "'lq lsdb \<Rightarrow> ptr \<Rightarrow> bool" where
  "allocated db p \<longleftrightarrow> tcs db p \<noteq> None \<or> tc_edges db p \<noteq> None \<or> rt_paths db p \<noteq> None \<or> rt_entries db p \<noteq> None"

definition lsdb_ok :: "'lq lsdb \<Rightarrow> bool" where
  "lsdb_ok db \<longleftrightarrow>
     indexes (tc_tree db) (vertex_key db) \<and>
     (\<forall>p tc. tcs db p = Some tc \<longrightarrow> vertex_ok db p tc) \<and>
     (\<forall>e ed. tc_edges db e = Some ed \<longrightarrow> edge_wf db e ed) \<and>
     indexes (routingtree db) (entry_key db) \<and>
     (\<forall>x rt. rt_entries db x = Some rt \<longrightarrow> indexes (rt_path_tree rt) (path_key db x)) \<and>
     (\<forall>r rp. rt_paths db r = Some rp \<longrightarrow> path_wf db rp) \<and>
     (\<forall>p. allocated db p \<longrightarrow> p < heap_next db) \<and>
     (case current_inetgw db of None \<Rightarrow> True | Some r \<Rightarrow> rt_paths db r \<noteq> None)"

lemma lsdb_okD:
  assumes "lsdb_ok db"
  shows "indexes (tc_tree db) (vertex_key db)" "tcs db p = Some tc \<Longrightarrow> vertex_ok db p tc"
    "tc_edges db e = Some ed \<Longrightarrow> edge_wf db e ed" "indexes (routingtree db) (entry_key db)"
    "rt_entries db x = Some rt \<Longrightarrow> indexes (rt_path_tree rt) (path_key db x)"
    "rt_paths db r = Some rp \<Longrightarrow> path_wf db rp" "allocated db q \<Longrightarrow> q < heap_next db"
    "current_inetgw db = Some r \<Longrightarrow> rt_paths db r \<noteq> None"
  using assms unfolding lsdb_ok_def by (auto split: option.splits)

lemma lsdb_okI:
  assumes "indexes (tc_tree db) (vertex_key db)" "\<And>p tc. tcs db p = Some tc \<Longrightarrow> vertex_ok db p tc"
    "\<And>e ed. tc_edges db e = Some ed \<Longrightarrow> edge_wf db e ed" "indexes (routingtree db) (entry_key db)"
    "\<And>x rt. rt_entries db x = Some rt \<Longrightarrow> indexes (rt_path_tree rt) (path_key db x)"
    "\<And>r rp. rt_paths db r = Some rp \<Longrightarrow> path_wf db rp" "\<And>q. allocated db q \<Longrightarrow> q < heap_next db"
    "\<And>r. current_inetgw db = Some r \<Longrightarrow> rt_paths db r \<noteq> None"
  shows "lsdb_ok db"
  unfolding lsdb_ok_def
proof (intro conjI allI impI)
  show "case current_inetgw db of None \<Rightarrow> True | Some r \<Rightarrow> rt_paths db r \<noteq> None"
    using assms(8) by (cases "current_inetgw db") simp_all
qed (erule assms | rule assms)+

lemma path_wf_mono:
  assumes "path_wf db rp" "\<And>p. tcs db p \<noteq> None \<Longrightarrow> tcs db' p \<noteq> None" "entry_key db' = entry_key db"
  shows "path_wf db' rp"
  using assms by (auto simp: path_wf_def split: option.splits)

lemma heap_next_free:
  assumes "lsdb_ok db"
  shows "tcs db (heap_next db) = None" "tc_edges db (heap_next db) = None" "rt_paths db (heap_next db) = None"
    "rt_entries db (heap_next db) = None"
proof -
  have "\<not> allocated db (heap_next db)" using lsdb_okD(7) [OF assms, of "heap_next db"] by blast
  thus "tcs db (heap_next db) = None" "tc_edges db (heap_next db) = None" "rt_paths db (heap_next db) = None"
    "rt_entries db (heap_next db) = None" by (simp_all add: allocated_def)
qed

section \<open>Reference counts do not wrap\<close>

text \<open>
  Objects have distinct addresses below \<open>heap_next\<close>: with less than 2 to the 31 of them a count
  of references fits its 32 bits.
\<close>

lemma length_index_le:
  assumes "indexes T S" "\<And>n. S n \<noteq> None \<Longrightarrow> n < (N::nat)"
  shows "length (avl_walk T) \<le> N"
proof -
  have "set (map snd (avl_walk T)) \<subseteq> {..<N}" using indexes_nodes [OF assms(1)] assms(2) by blast
  hence "card (set (map snd (avl_walk T))) \<le> N" using card_mono [of "{..<N}"] by fastforce
  thus ?thesis using distinct_card [OF indexes_distinct [OF assms(1)]] by simp
qed

lemma edge_key_alloc: "edge_key db p e \<noteq> None \<Longrightarrow> allocated db e"
  by (auto simp: edge_key_def allocated_def split: option.splits)

lemma prefix_key_alloc: "prefix_key db p r \<noteq> None \<Longrightarrow> allocated db r"
  by (auto simp: prefix_key_def allocated_def split: option.splits)

lemma degree_bound:
  assumes "lsdb_ok db" "tcs db p = Some tc" "heap_next db < 2 ^ 31"
  shows "length (avl_walk (edge_tree tc)) + length (avl_walk (prefix_tree tc)) < 2 ^ 32 - 1"
proof -
  from lsdb_okD(2) [OF assms(1,2)] have ix: "indexes (edge_tree tc) (edge_key db p)" "indexes (prefix_tree tc) (prefix_key db p)"
    by (simp_all add: vertex_ok_def)
  have "length (avl_walk (edge_tree tc)) \<le> heap_next db"
    using length_index_le [OF ix(1)] edge_key_alloc lsdb_okD(7) [OF assms(1)] by blast
  moreover have "length (avl_walk (prefix_tree tc)) \<le> heap_next db"
    using length_index_le [OF ix(2)] prefix_key_alloc lsdb_okD(7) [OF assms(1)] by blast
  ultimately show ?thesis using assms(3) by simp
qed

lemma of_nat_u32_nz: "0 < n \<Longrightarrow> n < 2 ^ 32 \<Longrightarrow> (of_nat n :: u32) \<noteq> 0"
proof
  assume n: "0 < n" "n < 2 ^ 32" and "(of_nat n :: u32) = 0"
  hence "unat (of_nat n :: u32) = 0" by simp
  with n show False by (simp add: unat_of_nat)
qed

text \<open>Giving up one of several references keeps a vertex alive.\<close>

lemma ref_after_delete:
  assumes "refcount tc = ref_of tc" "length (avl_walk (edge_tree tc)) + length (avl_walk (prefix_tree tc)) < 2 ^ 32 - 1"
    "length (avl_walk (edge_tree tc)) + length (avl_walk (prefix_tree tc)) = Suc n"
  shows "refcount tc - 1 \<noteq> 0" "refcount tc - 1 = 1 + of_nat n"
proof -
  from assms have r: "refcount tc - 1 = of_nat (Suc n)" by (simp add: ref_of_def)
  thus "refcount tc - 1 = 1 + of_nat n" by simp
  show "refcount tc - 1 \<noteq> 0" unfolding r using assms(2,3) by (intro of_nat_u32_nz) simp_all
qed

section \<open>Updates that do not concern the invariant\<close>

lemmas key_defs = vertex_key_def [abs_def] edge_key_def [abs_def] prefix_key_def [abs_def] entry_key_def [abs_def]
  path_key_def [abs_def] edge_ends_def [abs_def]

lemma lsdb_ok_cong:
  assumes "tc_tree db' = tc_tree db" "tcs db' = tcs db" "tc_edges db' = tc_edges db" "routingtree db' = routingtree db"
    "rt_paths db' = rt_paths db" "rt_entries db' = rt_entries db" "current_inetgw db' = current_inetgw db"
    "heap_next db' = heap_next db"
  shows "lsdb_ok db' = lsdb_ok db"
proof -
  have k: "vertex_key db' = vertex_key db" "edge_key db' = edge_key db" "prefix_key db' = prefix_key db"
    "entry_key db' = entry_key db" "path_key db' = path_key db" "edge_ends db' = edge_ends db"
    by (simp_all only: key_defs assms)
  show ?thesis by (simp only: lsdb_ok_def vertex_ok_def edge_wf_def path_wf_def allocated_def k assms)
qed

lemma lsdb_ok_flags [simp]:
  "lsdb_ok (db\<lparr>changes_topology := b\<rparr>) = lsdb_ok db" "lsdb_ok (db\<lparr>changes_hna := b\<rparr>) = lsdb_ok db"
  "lsdb_ok (db\<lparr>lsdb_calls := cs\<rparr>) = lsdb_ok db" "lsdb_ok (db\<lparr>tc_myself := q\<rparr>) = lsdb_ok db"
  "lsdb_ok (db\<lparr>routingtree_version := n\<rparr>) = lsdb_ok db"
  by (rule lsdb_ok_cong; simp)+

text \<open>A vertex keeps its address, its trees and its references.\<close>

definition same_vertex :: "tc_entry \<Rightarrow> tc_entry \<Rightarrow> bool" where
  "same_vertex tc tc' \<longleftrightarrow> addr tc' = addr tc \<and> edge_tree tc' = edge_tree tc \<and> prefix_tree tc' = prefix_tree tc \<and>
     refcount tc' = refcount tc"

lemma upd_tc_keys:
  assumes "\<And>tc. addr (f tc) = addr tc"
  shows "vertex_key (upd_tc p f db) = vertex_key db" "edge_ends (upd_tc p f db) = edge_ends db"
    "edge_key (upd_tc p f db) = edge_key db" "prefix_key (upd_tc p f db) = prefix_key db"
    "entry_key (upd_tc p f db) = entry_key db" "path_key (upd_tc p f db) = path_key db"
  using assms by (auto simp: key_defs fun_eq_iff option.map_comp comp_def split: option.splits)

lemma upd_tc_ok:
  assumes "lsdb_ok db" "\<And>tc. same_vertex tc (f tc)"
  shows "lsdb_ok (upd_tc p f db)"
proof -
  have a: "\<And>tc. addr (f tc) = addr tc" using assms(2) by (simp add: same_vertex_def)
  note k = upd_tc_keys [where f = f, OF a]
  have v: "vertex_ok (upd_tc p f db) q tc" if "tcs (upd_tc p f db) q = Some tc" for q tc
  proof -
    have "\<exists>tc0. tcs db q = Some tc0 \<and> same_vertex tc0 tc"
      using that assms(2) by (cases "q = p") (auto simp: same_vertex_def)
    then obtain tc0 where "tcs db q = Some tc0" "same_vertex tc0 tc" by blast
    with lsdb_okD(2) [OF assms(1)] show ?thesis
      unfolding vertex_ok_def k by (simp add: same_vertex_def ref_of_def)
  qed
  have d: "tcs (upd_tc p f db) q \<noteq> None \<longleftrightarrow> tcs db q \<noteq> None" for q by simp
  note D = lsdb_okD [OF assms(1)]
  show ?thesis
  proof (rule lsdb_okI, goal_cases)
    case (3 e ed) thus ?case using D(3) unfolding edge_wf_def k d by simp
  next
    case (6 r rp)
    hence "path_wf db rp" by (intro D(6) [of r]) simp
    thus ?case by (rule path_wf_mono) (simp_all only: k d not_False_eq_True)
  next
    case (7 q) thus ?case using D(7) unfolding allocated_def d by simp
  qed (use D(1,4,5,8) v in \<open>simp_all add: k\<close>)
qed

text \<open>An edge keeps its ends and its reverse edge.\<close>

definition same_edge :: "'lq tc_edge_entry \<Rightarrow> 'lq tc_edge_entry \<Rightarrow> bool" where
  "same_edge ed ed' \<longleftrightarrow> T_dest_addr ed' = T_dest_addr ed \<and> edge_tc ed' = edge_tc ed \<and> edge_inv ed' = edge_inv ed"

lemma upd_edge_keys:
  assumes "\<And>ed. T_dest_addr (f ed) = T_dest_addr ed \<and> edge_tc (f ed) = edge_tc ed"
  shows "vertex_key (upd_edge e f db) = vertex_key db" "edge_ends (upd_edge e f db) = edge_ends db"
    "edge_key (upd_edge e f db) = edge_key db" "prefix_key (upd_edge e f db) = prefix_key db"
    "entry_key (upd_edge e f db) = entry_key db" "path_key (upd_edge e f db) = path_key db"
  using assms by (auto simp: key_defs fun_eq_iff split: option.splits)

lemma upd_edge_ok:
  assumes "lsdb_ok db" "\<And>ed. same_edge ed (f ed)"
  shows "lsdb_ok (upd_edge e f db)"
proof -
  have a: "\<And>ed. T_dest_addr (f ed) = T_dest_addr ed \<and> edge_tc (f ed) = edge_tc ed" using assms(2) by (simp add: same_edge_def)
  note k = upd_edge_keys [where f = f, OF a]
  have w: "edge_wf (upd_edge e f db) i ed" if "tc_edges (upd_edge e f db) i = Some ed" for i ed
  proof -
    have "\<exists>ed0. tc_edges db i = Some ed0 \<and> same_edge ed0 ed"
      using that assms(2) by (cases "i = e") (auto simp: same_edge_def)
    then obtain ed0 where "tc_edges db i = Some ed0" "same_edge ed0 ed" by blast
    with lsdb_okD(3) [OF assms(1)] show ?thesis
      unfolding edge_wf_def k by (simp add: same_edge_def)
  qed
  have d: "tc_edges (upd_edge e f db) i \<noteq> None \<longleftrightarrow> tc_edges db i \<noteq> None" for i by simp
  note D = lsdb_okD [OF assms(1)]
  show ?thesis
  proof (rule lsdb_okI, goal_cases)
    case (2 p tc) thus ?case using D(2) unfolding vertex_ok_def k by simp
  next
    case (6 r rp)
    hence "path_wf db rp" by (intro D(6) [of r]) simp
    thus ?case by (rule path_wf_mono) (simp_all only: k upd_edge_simps not_False_eq_True)
  next
    case (7 q) thus ?case using D(7) unfolding allocated_def d by simp
  qed (use D(1,4,5,8) w in \<open>simp_all add: k\<close>)
qed

section \<open>Deleting an edge\<close>

text \<open>The data of the edges without the shortcuts between them.\<close>

definition edge_data :: "'lq lsdb \<Rightarrow> ptr \<rightharpoonup> 'lq tc_edge_entry" where
  "edge_data db e = map_option (\<lambda>ed. ed\<lparr>edge_inv := None\<rparr>) (tc_edges db e)"

lemma key_flags [simp]:
  "edge_ends (db\<lparr>changes_topology := b\<rparr>) = edge_ends db" "edge_ends (db\<lparr>changes_hna := b\<rparr>) = edge_ends db"
  "edge_ends (db\<lparr>lsdb_calls := cs\<rparr>) = edge_ends db" "edge_ends (db\<lparr>tc_myself := q\<rparr>) = edge_ends db"
  "edge_data (db\<lparr>changes_topology := b\<rparr>) = edge_data db" "edge_data (db\<lparr>changes_hna := b\<rparr>) = edge_data db"
  "edge_data (db\<lparr>lsdb_calls := cs\<rparr>) = edge_data db" "edge_data (db\<lparr>tc_myself := q\<rparr>) = edge_data db"
  "vertex_key (db\<lparr>changes_topology := b\<rparr>) = vertex_key db" "vertex_key (db\<lparr>changes_hna := b\<rparr>) = vertex_key db"
  "vertex_key (db\<lparr>lsdb_calls := cs\<rparr>) = vertex_key db" "vertex_key (db\<lparr>tc_myself := q\<rparr>) = vertex_key db"
  by (auto simp: key_defs edge_data_def fun_eq_iff split: option.splits)

text \<open>A change of edges leaves the rest of the database alone.\<close>

definition only_edges :: "'lq lsdb \<Rightarrow> 'lq lsdb \<Rightarrow> bool" where
  "only_edges db db' \<longleftrightarrow> db'\<lparr>tcs := tcs db, tc_edges := tc_edges db\<rparr> = db \<and>
     (\<forall>q. map_option (\<lambda>tc. tc\<lparr>edge_tree := avl_init, refcount := 0\<rparr>) (tcs db' q) =
          map_option (\<lambda>tc. tc\<lparr>edge_tree := avl_init, refcount := 0\<rparr>) (tcs db q))"

lemma edge_key_ends:
  "tcs db p = Some tc \<Longrightarrow> edge_key db p e = Some d \<Longrightarrow> edge_ends db e = Some (addr tc, d)"
  by (auto simp: edge_key_def edge_ends_def split: option.splits if_splits)

text \<open>An edge is determined by its ends.\<close>

lemma edge_ends_inj:
  assumes "lsdb_ok db" "edge_ends db e = Some x" "edge_ends db e' = Some x"
  shows "e = e'"
proof -
  from assms(2,3) obtain ed tc ed' tc' where
    E: "tc_edges db e = Some ed" "tcs db (edge_tc ed) = Some tc" "tc_edges db e' = Some ed'" "tcs db (edge_tc ed') = Some tc'"
    and eq: "addr tc = addr tc'" "T_dest_addr ed = T_dest_addr ed'"
    by (auto simp: edge_ends_def split: option.splits)
  have "vertex_key db (edge_tc ed) = Some (addr tc)" "vertex_key db (edge_tc ed') = Some (addr tc)"
    using E eq by (simp_all add: vertex_key_def)
  hence p: "edge_tc ed = edge_tc ed'" by (rule indexes_inj [OF lsdb_okD(1) [OF assms(1)]])
  have "indexes (edge_tree tc) (edge_key db (edge_tc ed))" using lsdb_okD(2) [OF assms(1) E(2)] by (simp add: vertex_ok_def)
  moreover have "edge_key db (edge_tc ed) e = Some (T_dest_addr ed)" "edge_key db (edge_tc ed) e' = Some (T_dest_addr ed)"
    using E eq p by (simp_all add: edge_key_def)
  ultimately show ?thesis by (rule indexes_inj)
qed

lemma edge_inv_live:
  assumes "lsdb_ok db" "tc_edges db e = Some ed" "edge_inv ed = Some ei"
  shows "tc_edges db ei \<noteq> None"
proof -
  from lsdb_okD(3) [OF assms(1,2)] obtain tc where "tcs db (edge_tc ed) = Some tc"
    and w: "\<forall>u v ei. edge_ends db e = Some (u, v) \<longrightarrow> (edge_inv ed = Some ei \<longleftrightarrow> edge_ends db ei = Some (v, u))"
    by (auto simp: edge_wf_def)
  hence "edge_ends db e = Some (addr tc, T_dest_addr ed)" using assms(2) by (simp add: edge_ends_def)
  with w assms(3) have "edge_ends db ei \<noteq> None" by fastforce
  thus ?thesis by (auto simp: edge_ends_def split: option.splits)
qed

definition dropped_edge :: "ptr \<Rightarrow> 'lq tc_edge_entry \<Rightarrow> tc_entry \<Rightarrow> 'lq lsdb \<Rightarrow> 'lq lsdb" where
  "dropped_edge e ed tc' db = db\<lparr>tcs := (tcs db)(edge_tc ed \<mapsto> tc'),
     tc_edges := (case edge_inv ed of
         None \<Rightarrow> tc_edges db
       | Some ei \<Rightarrow> (tc_edges db)(ei := map_option (\<lambda>ed. ed\<lparr>edge_inv := None\<rparr>) (tc_edges db ei)))(e := None)\<rparr>"

lemma dropped_edge_keys:
  assumes "tcs db (edge_tc ed) = Some tc" "addr tc' = addr tc" "tc_edges db e = Some ed"
  shows "vertex_key (dropped_edge e ed tc' db) = vertex_key db"
    "edge_data (dropped_edge e ed tc' db) = (edge_data db)(e := None)"
    "edge_key (dropped_edge e ed tc' db) p = (edge_key db p)(e := None)"
    "edge_ends (dropped_edge e ed tc' db) = (edge_ends db)(e := None)"
    "prefix_key (dropped_edge e ed tc' db) = prefix_key db"
    "entry_key (dropped_edge e ed tc' db) = entry_key db" "path_key (dropped_edge e ed tc' db) = path_key db"
  using assms by (auto simp: key_defs edge_data_def dropped_edge_def fun_eq_iff option.map_comp comp_def split: option.splits)

lemma dropped_edge_inv:
  assumes ok: "lsdb_ok db" and e: "tc_edges db e = Some ed" and tc: "tcs db (edge_tc ed) = Some tc" "addr tc' = addr tc"
    and i: "tc_edges (dropped_edge e ed tc' db) i = Some edi"
  shows "edge_wf (dropped_edge e ed tc' db) i edi"
proof -
  let ?db = "dropped_edge e ed tc' db"
  note k = dropped_edge_keys [OF tc e]
  from i have ie: "i \<noteq> e" by (auto simp: dropped_edge_def)
  obtain ed0 where ed0: "tc_edges db i = Some ed0" "edge_tc edi = edge_tc ed0"
    and inv: "edge_inv edi = (if edge_inv ed = Some i then None else edge_inv ed0)"
    using i ie by (auto simp: dropped_edge_def split: option.splits if_splits)
  from lsdb_okD(3) [OF ok ed0(1)] have w0: "edge_wf db i ed0" .
  from lsdb_okD(3) [OF ok e] have we: "edge_wf db e ed" .
  have ends: "edge_ends db e = Some (addr tc, T_dest_addr ed)" using e tc by (simp add: edge_ends_def)
  have "edge_inv edi = Some ei \<longleftrightarrow> ((edge_ends db)(e := None)) ei = Some (v, u)"
    if uv: "edge_ends db i = Some (u, v)" for u v ei
  proof -
    have rev: "edge_inv ed = Some i \<longleftrightarrow> edge_ends db e = Some (v, u)"
      using we ends uv by (auto simp: edge_wf_def)
    have "edge_inv ed0 = Some ei \<longleftrightarrow> edge_ends db ei = Some (v, u)" using w0 uv by (simp add: edge_wf_def)
    moreover have "edge_ends db ei = Some (v, u) \<Longrightarrow> edge_ends db e = Some (v, u) \<Longrightarrow> ei = e"
      by (rule edge_ends_inj [OF ok])
    ultimately show ?thesis unfolding inv rev by auto
  qed
  moreover have "tcs ?db (edge_tc edi) \<noteq> None"
    using w0 ed0(2) by (auto simp: edge_wf_def dropped_edge_def)
  ultimately show ?thesis unfolding edge_wf_def k using ie by simp
qed

lemma dropped_edge_ok:
  assumes ok: "lsdb_ok db" and e: "tc_edges db e = Some ed" and tc: "tcs db (edge_tc ed) = Some tc"
    and tc': "tc' = tc\<lparr>edge_tree := T, refcount := refcount tc - 1\<rparr>"
    and T: "indexes T ((edge_key db (edge_tc ed))(e := None))" "length (avl_walk (edge_tree tc)) = Suc (length (avl_walk T))"
  shows "lsdb_ok (dropped_edge e ed tc' db)"
proof -
  let ?db = "dropped_edge e ed tc' db"
  have a: "addr tc' = addr tc" by (simp add: tc')
  note k = dropped_edge_keys [OF tc a e] and D = lsdb_okD [OF ok]
  have ref: "refcount tc = ref_of tc" using D(2) [OF tc] by (simp add: vertex_ok_def)
  have v: "vertex_ok ?db q tcq" if q: "tcs ?db q = Some tcq" for q tcq
  proof (cases "q = edge_tc ed")
    case True
    hence "tcq = tc'" using q by (simp add: dropped_edge_def)
    thus ?thesis using D(2) [OF tc] True T ref unfolding vertex_ok_def k
      by (simp add: tc' ref_of_def)
  next
    case False
    hence "tcs db q = Some tcq" using q by (simp add: dropped_edge_def)
    from D(2) [OF this] have "indexes (edge_tree tcq) (edge_key db q)" "indexes (prefix_tree tcq) (prefix_key db q)"
      "refcount tcq = ref_of tcq" by (simp_all add: vertex_ok_def)
    moreover have "(edge_key db q)(e := None) = edge_key db q" using e False by (auto simp: edge_key_def fun_eq_iff)
    ultimately show ?thesis unfolding vertex_ok_def k by simp
  qed
  have d: "tcs ?db q \<noteq> None \<longleftrightarrow> tcs db q \<noteq> None" for q using tc by (simp add: dropped_edge_def)
  have al: "allocated ?db q \<Longrightarrow> allocated db q" for q
    using tc e by (auto simp: allocated_def dropped_edge_def split: option.splits if_splits)
  show ?thesis
  proof (rule lsdb_okI, goal_cases)
    case 1 show ?case using D(1) unfolding k by (simp add: dropped_edge_def)
  next
    case (3 i edi) thus ?case by (rule dropped_edge_inv [OF ok e tc a])
  next
    case 4 show ?case using D(4) unfolding k by (simp add: dropped_edge_def)
  next
    case (5 x rt) thus ?case using D(5) unfolding k by (simp add: dropped_edge_def)
  next
    case (6 r rp)
    hence "path_wf db rp" by (intro D(6) [of r]) (simp add: dropped_edge_def)
    thus ?case by (rule path_wf_mono) (simp_all only: k d not_False_eq_True)
  next
    case (7 q) thus ?case using D(7) al by (simp add: dropped_edge_def)
  next
    case (8 r) thus ?case using D(8) by (simp add: dropped_edge_def)
  qed (rule v)
qed

lemma only_edges_dropped:
  assumes "tcs db (edge_tc ed) = Some tc"
  shows "only_edges db (dropped_edge e ed (tc\<lparr>edge_tree := T, refcount := n\<rparr>) db)"
  using assms by (simp add: only_edges_def dropped_edge_def)

theorem delete_edge_ok:
  assumes ok: "lsdb_ok db" and hp: "heap_next db < 2 ^ 31" and e: "tc_edges db e = Some ed"
  shows "\<exists>db'. olsr_delete_tc_edge_entry e db = Some db' \<and> lsdb_ok db' \<and> edge_data db' = (edge_data db)(e := None) \<and>
    edge_ends db' = (edge_ends db)(e := None) \<and> only_edges db db'"
proof -
  from lsdb_okD(3) [OF ok e] obtain tc where tc: "tcs db (edge_tc ed) = Some tc" by (auto simp: edge_wf_def)
  from lsdb_okD(2) [OF ok tc] have ix: "indexes (edge_tree tc) (edge_key db (edge_tc ed))" and ref: "refcount tc = ref_of tc"
    by (simp_all add: vertex_ok_def)
  have "edge_key db (edge_tc ed) e = Some (T_dest_addr ed)" using e by (simp add: edge_key_def)
  from indexes_delete [OF ix this] obtain T where T: "avl_delete (edge_tree tc) e = Some T"
    "indexes T ((edge_key db (edge_tc ed))(e := None))" "length (avl_walk (edge_tree tc)) = Suc (length (avl_walk T))" by blast
  have "refcount tc - 1 \<noteq> 0"
    using ref_after_delete(1) [OF ref degree_bound [OF ok tc hp]] T(3) by simp
  let ?tc' = "tc\<lparr>edge_tree := T, refcount := refcount tc - 1\<rparr>"
  have "olsr_delete_tc_edge_entry e db = Some (dropped_edge e ed ?tc' db)"
    using edge_inv_live [OF ok e] e tc T(1) \<open>refcount tc - 1 \<noteq> 0\<close>
    by (auto simp: olsr_delete_tc_edge_entry_def olsr_unlock_tc_entry_def dropped_edge_def upd_tc_def upd_edge_def
        split: option.splits)
  moreover have "lsdb_ok (dropped_edge e ed ?tc' db)" by (rule dropped_edge_ok [OF ok e tc refl T(2,3)])
  moreover have "addr ?tc' = addr tc" by simp
  ultimately show ?thesis
    using dropped_edge_keys(2,4) [OF tc _ e] only_edges_dropped [OF tc] by blast
qed

section \<open>Deleting many edges\<close>

definition edges_deleted :: "'lq lsdb \<Rightarrow> ptr set \<Rightarrow> 'lq lsdb \<Rightarrow> bool" where
  "edges_deleted db D db' \<longleftrightarrow> lsdb_ok db' \<and> only_edges db db' \<and>
     (\<forall>i. edge_data db' i = (if i \<in> D then None else edge_data db i)) \<and>
     (\<forall>i. edge_ends db' i = (if i \<in> D then None else edge_ends db i))"

lemma only_edges_refl: "only_edges db db"
  by (simp add: only_edges_def)

lemma only_edges_trans:
  assumes "only_edges a b" "only_edges b c"
  shows "only_edges a c"
proof -
  from assms have "b\<lparr>tcs := tcs a, tc_edges := tc_edges a\<rparr> = a" "c\<lparr>tcs := tcs b, tc_edges := tc_edges b\<rparr> = b"
    by (simp_all add: only_edges_def)
  hence "(c\<lparr>tcs := tcs b, tc_edges := tc_edges b\<rparr>)\<lparr>tcs := tcs a, tc_edges := tc_edges a\<rparr> = a" by (simp only:)
  hence "c\<lparr>tcs := tcs a, tc_edges := tc_edges a\<rparr> = a" by simp
  moreover have "\<forall>q. map_option (\<lambda>tc. tc\<lparr>edge_tree := avl_init, refcount := 0\<rparr>) (tcs c q) =
      map_option (\<lambda>tc. tc\<lparr>edge_tree := avl_init, refcount := 0\<rparr>) (tcs a q)"
    using assms by (simp add: only_edges_def)
  ultimately show ?thesis unfolding only_edges_def by blast
qed

lemma only_edgesD:
  assumes "only_edges db db'"
  shows "heap_next db' = heap_next db" "tc_tree db' = tc_tree db" "rt_paths db' = rt_paths db" "rt_entries db' = rt_entries db"
    "lsdb_calls db' = lsdb_calls db" "changes_hna db' = changes_hna db" "changes_topology db' = changes_topology db"
    "tc_myself db' = tc_myself db" "tcs db q = Some tc \<Longrightarrow> \<exists>tc'. tcs db' q = Some tc' \<and> addr tc' = addr tc \<and>
      prefix_tree tc' = prefix_tree tc \<and> ansn tc' = ansn tc" "tcs db' q = None \<longleftrightarrow> tcs db q = None"
proof -
  from assms have r: "db'\<lparr>tcs := tcs db, tc_edges := tc_edges db\<rparr> = db"
    and t: "map_option (\<lambda>tc. tc\<lparr>edge_tree := avl_init, refcount := 0\<rparr>) (tcs db' q) =
          map_option (\<lambda>tc. tc\<lparr>edge_tree := avl_init, refcount := 0\<rparr>) (tcs db q)" by (simp_all add: only_edges_def)
  show "heap_next db' = heap_next db" "tc_tree db' = tc_tree db" "rt_paths db' = rt_paths db" "rt_entries db' = rt_entries db"
    "lsdb_calls db' = lsdb_calls db" "changes_hna db' = changes_hna db" "changes_topology db' = changes_topology db"
    "tc_myself db' = tc_myself db"
    using arg_cong [OF r, of heap_next] arg_cong [OF r, of tc_tree] arg_cong [OF r, of rt_paths] arg_cong [OF r, of rt_entries]
      arg_cong [OF r, of lsdb_calls] arg_cong [OF r, of changes_hna] arg_cong [OF r, of changes_topology]
      arg_cong [OF r, of tc_myself] by simp_all
  show "tcs db' q = None \<longleftrightarrow> tcs db q = None" using t by (metis option.map_disc_iff)
  assume "tcs db q = Some tc"
  with t obtain tc' where q: "tcs db' q = Some tc'"
    and e: "tc'\<lparr>edge_tree := avl_init, refcount := 0\<rparr> = tc\<lparr>edge_tree := avl_init, refcount := 0\<rparr>"
    by (cases "tcs db' q") auto
  have "addr tc' = addr tc" "prefix_tree tc' = prefix_tree tc" "ansn tc' = ansn tc"
    using arg_cong [OF e, of addr] arg_cong [OF e, of prefix_tree] arg_cong [OF e, of ansn] by simp_all
  with q show "\<exists>tc'. tcs db' q = Some tc' \<and> addr tc' = addr tc \<and> prefix_tree tc' = prefix_tree tc \<and> ansn tc' = ansn tc" by simp
qed

lemma edges_deletedD:
  assumes "edges_deleted db D db'"
  shows "lsdb_ok db'" "only_edges db db'" "edge_data db' i = (if i \<in> D then None else edge_data db i)"
    "edge_ends db' i = (if i \<in> D then None else edge_ends db i)"
  using assms by (simp_all add: edges_deleted_def)

lemma edges_deleted_none: "lsdb_ok db \<Longrightarrow> edges_deleted db {} db"
  by (simp add: edges_deleted_def only_edges_refl)

lemma edges_deleted_trans: "edges_deleted db D db1 \<Longrightarrow> edges_deleted db1 D' db2 \<Longrightarrow> edges_deleted db (D \<union> D') db2"
  using only_edges_trans by (fastforce simp: edges_deleted_def)

lemma delete_edge_step:
  assumes "lsdb_ok db" "heap_next db < 2 ^ 31" "edge_data db e \<noteq> None"
  obtains db' where "olsr_delete_tc_edge_entry e db = Some db'" "edges_deleted db {e} db'"
proof -
  from assms(3) obtain ed where "tc_edges db e = Some ed" by (auto simp: edge_data_def)
  from delete_edge_ok [OF assms(1,2) this] show thesis using that by (auto simp: edges_deleted_def)
qed

lemma delete_edges_ok:
  assumes "lsdb_ok db" "heap_next db < 2 ^ 31" "distinct es" "\<forall>e\<in>set es. edge_data db e \<noteq> None"
  shows "\<exists>db'. foldM olsr_delete_tc_edge_entry es db = Some db' \<and> edges_deleted db (set es) db'"
  using assms
proof (induction es arbitrary: db)
  case (Cons e es)
  from Cons.prems obtain db1 where d1: "olsr_delete_tc_edge_entry e db = Some db1" "edges_deleted db {e} db1"
    by (auto intro: delete_edge_step [of db e])
  note D = edges_deletedD [OF d1(2)]
  have "\<forall>i\<in>set es. edge_data db1 i \<noteq> None" using Cons.prems D(3) by auto
  with Cons.IH [OF D(1)] Cons.prems D(2) obtain db2 where
    "foldM olsr_delete_tc_edge_entry es db1 = Some db2" "edges_deleted db1 (set es) db2"
    by (auto simp: only_edgesD)
  with d1 edges_deleted_trans [of db "{e}" db1] show ?case by auto
qed (auto simp: edges_deleted_none)

text \<open>The edges that a loop over \<open>es\<close> deletes because their announcement is older than \<open>an\<close>.\<close>

definition outdated :: "u16 \<Rightarrow> 'lq lsdb \<Rightarrow> ptr \<Rightarrow> bool" where
  "outdated an db e = (case edge_data db e of None \<Rightarrow> False | Some ed \<Rightarrow> SEQNO_GREATER_THAN an (edge_ansn ed))"

definition dest_of :: "'lq lsdb \<Rightarrow> ptr \<Rightarrow> olsr_ip_addr" where
  "dest_of db e = T_dest_addr (the (edge_data db e))"

lemma edge_data_attrs:
  assumes "tc_edges db e = Some ed"
  shows "outdated an db e \<longleftrightarrow> SEQNO_GREATER_THAN an (edge_ansn ed)" "dest_of db e = T_dest_addr ed"
  using assms by (simp_all add: outdated_def dest_of_def edge_data_def)

lemma delete_if_outdated_step:
  assumes "tc_edges db e = Some ed"
  shows "outdated an db e \<Longrightarrow> olsr_delete_tc_edge_entry e db = Some db' \<Longrightarrow> delete_if_outdated an e (ret, db) = Some (True, db')"
    "\<not> outdated an db e \<Longrightarrow> delete_if_outdated an e (ret, db) = Some (ret, db)"
  using assms by (simp_all add: delete_if_outdated_def edge_data_attrs)

lemma delete_outdated_loop:
  assumes "lsdb_ok db" "heap_next db < 2 ^ 31" "distinct es" "\<forall>e\<in>set es. edge_data db e \<noteq> None"
  shows "\<exists>db'. foldM (delete_if_outdated an) es (ret, db) = Some (ret \<or> (\<exists>e\<in>set es. outdated an db e), db') \<and>
    edges_deleted db {e \<in> set es. outdated an db e} db'"
  using assms
proof (induction es arbitrary: db ret)
  case (Cons e es)
  from Cons.prems obtain ed where ed: "tc_edges db e = Some ed" by (auto simp: edge_data_def)
  show ?case
  proof (cases "outdated an db e")
    case True
    from Cons.prems obtain db1 where d1: "olsr_delete_tc_edge_entry e db = Some db1" "edges_deleted db {e} db1"
      by (auto intro: delete_edge_step [of db e])
    note D = edges_deletedD [OF d1(2)]
    have s: "outdated an db1 i = outdated an db i" if "i \<in> set es" for i
      using Cons.prems that D(3) [of i] by (auto simp: outdated_def)
    have "\<forall>i\<in>set es. edge_data db1 i \<noteq> None" using Cons.prems D(3) by auto
    with Cons.IH [OF D(1), of True] Cons.prems D(2) obtain db2 where
      l: "foldM (delete_if_outdated an) es (True, db1) = Some (True, db2)"
      and d2: "edges_deleted db1 {e \<in> set es. outdated an db1 e} db2" by (auto simp: only_edgesD)
    have "{i \<in> set (e # es). outdated an db i} = {e} \<union> {i \<in> set es. outdated an db1 i}" using True s by auto
    with l True edges_deleted_trans [OF d1(2) d2] delete_if_outdated_step(1) [OF ed True d1(1), of ret] show ?thesis by auto
  next
    case False
    hence "{i \<in> set (e # es). outdated an db i} = {i \<in> set es. outdated an db i}" by auto
    with Cons.IH [of db ret] Cons.prems False delete_if_outdated_step(2) [OF ed False, of ret] show ?thesis by auto
  qed
qed (auto simp: edges_deleted_none)

definition revoked :: "u16 \<Rightarrow> olsr_ip_addr \<Rightarrow> olsr_ip_addr \<Rightarrow> 'lq lsdb \<Rightarrow> ptr \<Rightarrow> bool" where
  "revoked an lower upper db e \<longleftrightarrow> lower \<le> dest_of db e \<and> dest_of db e < upper \<and> outdated an db e"

text \<open>
  The loop stops at the upper border: the edges are visited in the order of their destinations.
\<close>

lemma revoke_edges_ok:
  assumes "lsdb_ok db" "heap_next db < 2 ^ 31" "distinct es" "\<forall>e\<in>set es. edge_data db e \<noteq> None"
    "sorted (map (dest_of db) es)" "passed \<longrightarrow> (\<forall>e\<in>set es. lower \<le> dest_of db e)"
  shows "\<exists>db'. revoke_edges an lower upper es passed ret db = Some (ret \<or> (\<exists>e\<in>set es. revoked an lower upper db e), db') \<and>
    edges_deleted db {e \<in> set es. revoked an lower upper db e} db'"
  using assms
proof (induction es arbitrary: db passed ret)
  case (Cons e es)
  let ?R = "revoked an lower upper"
  from Cons.prems obtain ed where ed: "tc_edges db e = Some ed" by (auto simp: edge_data_def)
  note at = edge_data_attrs [OF ed]
  have ge: "\<forall>i\<in>set es. dest_of db e \<le> dest_of db i" and so: "sorted (map (dest_of db) es)" using Cons.prems(5) by simp_all
  consider (low) "\<not> (passed \<or> lower \<le> dest_of db e)" | (up) "passed \<or> lower \<le> dest_of db e" "upper \<le> dest_of db e"
    | (keep) "passed \<or> lower \<le> dest_of db e" "\<not> upper \<le> dest_of db e" "\<not> outdated an db e"
    | (del) "passed \<or> lower \<le> dest_of db e" "\<not> upper \<le> dest_of db e" "outdated an db e" by blast
  thus ?case
  proof cases
    case low
    hence n: "\<not> ?R db e" by (simp add: revoked_def)
    hence "{i \<in> set (e # es). ?R db i} = {i \<in> set es. ?R db i}" by auto
    with Cons.IH [of db False ret] Cons.prems so low n ed at show ?thesis by auto
  next
    case up
    have "\<not> ?R db i" if "i \<in> set (e # es)" for i
      using that up(2) ge by (fastforce simp: revoked_def)
    hence none: "{i \<in> set (e # es). ?R db i} = {}" "(\<exists>i\<in>set (e # es). ?R db i) = False" by blast+
    have "revoke_edges an lower upper (e # es) passed ret db = Some (ret, db)" using up ed at by auto
    thus ?thesis unfolding none simp_thms using edges_deleted_none [OF Cons.prems(1)] by blast
  next
    case keep
    hence n: "\<not> ?R db e" by (simp add: revoked_def)
    hence "{i \<in> set (e # es). ?R db i} = {i \<in> set es. ?R db i}" by auto
    moreover have "\<forall>i\<in>set es. lower \<le> dest_of db i" using keep(1) Cons.prems(6) ge by fastforce
    ultimately show ?thesis using Cons.IH [of db True ret] Cons.prems so keep n ed at by auto
  next
    case del
    from Cons.prems obtain db1 where d1: "olsr_delete_tc_edge_entry e db = Some db1" "edges_deleted db {e} db1"
      by (auto intro: delete_edge_step [of db e])
    note D = edges_deletedD [OF d1(2)]
    have lo: "\<forall>i\<in>set (e # es). lower \<le> dest_of db i" using del(1) Cons.prems(6) ge by fastforce
    have s: "outdated an db1 i = outdated an db i" "dest_of db1 i = dest_of db i" if "i \<in> set es" for i
      using Cons.prems that D(3) [of i] by (auto simp: outdated_def dest_of_def)
    hence R: "?R db1 i = ?R db i" if "i \<in> set es" for i using that by (simp add: revoked_def)
    have "sorted (map (dest_of db1) es)" using so s by (simp cong: map_cong)
    moreover have "\<forall>i\<in>set es. lower \<le> dest_of db1 i" using lo s by simp
    moreover have "\<forall>i\<in>set es. edge_data db1 i \<noteq> None" using Cons.prems D(3) by auto
    moreover have "heap_next db1 < 2 ^ 31" using Cons.prems(2) only_edgesD(1) [OF D(2)] by simp
    ultimately obtain db2 where l: "revoke_edges an lower upper es True True db1 = Some (True, db2)"
      and d2: "edges_deleted db1 {e \<in> set es. ?R db1 e} db2"
      using Cons.IH [OF D(1), of True True] Cons.prems(3) by auto
    have e: "?R db e" using lo del by (simp add: revoked_def)
    hence "{i \<in> set (e # es). ?R db i} = {e} \<union> {i \<in> set es. ?R db1 i}" using R by auto
    moreover have "revoke_edges an lower upper (e # es) passed ret db = Some (True, db2)" using del ed at d1(1) l by auto
    ultimately show ?thesis using edges_deleted_trans [OF d1(2) d2] e by auto
  qed
qed (auto simp: edges_deleted_none)

text \<open>The edges of a vertex, as its tree lists them.\<close>

lemma edges_of_facts:
  assumes "lsdb_ok db" "tcs db p = Some tc"
  shows "distinct (edges_of tc)" "\<forall>e\<in>set (edges_of tc). edge_data db e \<noteq> None" "sorted (map (dest_of db) (edges_of tc))"
    "e \<in> set (edges_of tc) \<longleftrightarrow> (\<exists>v. edge_key db p e = Some v)"
proof -
  from lsdb_okD(2) [OF assms] have ix: "indexes (edge_tree tc) (edge_key db p)" by (simp add: vertex_ok_def)
  show "distinct (edges_of tc)" unfolding edges_of_def by (rule indexes_distinct [OF ix])
  show mem: "e \<in> set (edges_of tc) \<longleftrightarrow> (\<exists>v. edge_key db p e = Some v)" for e
    unfolding edges_of_def indexes_nodes [OF ix] by auto
  show "\<forall>e\<in>set (edges_of tc). edge_data db e \<noteq> None"
    using mem by (auto simp: edge_key_def edge_data_def split: option.splits)
  have "map (dest_of db) (edges_of tc) = map fst (avl_walk (edge_tree tc))"
    unfolding edges_of_def list.map_comp
  proof (rule map_cong [OF refl])
    fix x assume "x \<in> set (avl_walk (edge_tree tc))"
    hence "edge_key db p (snd x) = Some (fst x)" using indexes_walk [OF ix, of "fst x" "snd x"] by simp
    thus "(dest_of db \<circ> snd) x = fst x" by (auto simp: edge_key_def dest_of_def edge_data_def split: option.splits if_splits)
  qed
  thus "sorted (map (dest_of db) (edges_of tc))"
    using avl_inv_facts(1) [OF uix.uniq_inv [OF indexes_uniq [OF ix]]] by simp
qed

end
