(* ===== verification/Olsr_Rib_Inv.thy ===== *)
theory Olsr_Rib_Inv
  imports Olsr_Lsdb_Inv
begin

text \<open>
  The invariant of \<open>Olsr_Lsdb_Inv\<close> under the operations of the routing information base:
  allocating and freeing route paths, inserting them into the tree of their prefix, and the
  election of the best path.
\<close>

section \<open>Deleting a path\<close>

text \<open>A change of paths leaves the topology and the rest of the database alone.\<close>

definition only_paths :: "'lq lsdb \<Rightarrow> 'lq lsdb \<Rightarrow> bool" where
  "only_paths db db' \<longleftrightarrow>
     db'\<lparr>tcs := tcs db, rt_paths := rt_paths db, rt_entries := rt_entries db, current_inetgw := current_inetgw db\<rparr> = db \<and>
     (\<forall>q. map_option (\<lambda>tc. tc\<lparr>prefix_tree := avl_init, refcount := 0\<rparr>) (tcs db' q) =
          map_option (\<lambda>tc. tc\<lparr>prefix_tree := avl_init, refcount := 0\<rparr>) (tcs db q)) \<and>
     entry_key db' = entry_key db"

definition dropped_path :: "ptr \<Rightarrow> ptr \<Rightarrow> tc_entry \<Rightarrow> (ptr \<rightharpoonup> rt_entry) \<Rightarrow> ptr option \<Rightarrow> 'lq lsdb \<Rightarrow> 'lq lsdb" where
  "dropped_path r p tc' E g db = db\<lparr>tcs := (tcs db)(p \<mapsto> tc'), rt_entries := E, rt_paths := (rt_paths db)(r := None),
     current_inetgw := g\<rparr>"

lemma dropped_path_keys:
  assumes "tcs db p = Some tc" "addr tc' = addr tc" "\<And>x. map_option rt_dst (E x) = entry_key db x"
  shows "vertex_key (dropped_path r p tc' E g db) = vertex_key db" "edge_key (dropped_path r p tc' E g db) = edge_key db"
    "edge_ends (dropped_path r p tc' E g db) = edge_ends db" "edge_data (dropped_path r p tc' E g db) = edge_data db"
    "prefix_key (dropped_path r p tc' E g db) q = (prefix_key db q)(r := None)"
    "entry_key (dropped_path r p tc' E g db) = entry_key db"
    "path_key (dropped_path r p tc' E g db) x = (path_key db x)(r := None)"
proof -
  show "entry_key (dropped_path r p tc' E g db) = entry_key db"
    using assms(3) by (simp add: dropped_path_def entry_key_def fun_eq_iff)
qed (use assms(1,2) in \<open>auto simp: vertex_key_def edge_key_def edge_ends_def edge_data_def prefix_key_def path_key_def
    dropped_path_def fun_eq_iff split: option.splits\<close>)

lemma dropped_path_ok:
  assumes ok: "lsdb_ok db" and r: "rt_paths db r = Some rp" "rtp_tc rp = Some p" and tc: "tcs db p = Some tc"
    and tc': "tc' = tc\<lparr>prefix_tree := T, refcount := refcount tc - 1\<rparr>"
    and T: "indexes T ((prefix_key db p)(r := None))" "length (avl_walk (prefix_tree tc)) = Suc (length (avl_walk T))"
    and E: "\<And>x. map_option rt_dst (E x) = entry_key db x"
      "\<And>x rt. E x = Some rt \<Longrightarrow> indexes (rt_path_tree rt) ((path_key db x)(r := None))"
    and g: "\<And>q. g = Some q \<Longrightarrow> q \<noteq> r \<and> rt_paths db q \<noteq> None"
  shows "lsdb_ok (dropped_path r p tc' E g db)"
proof -
  let ?db = "dropped_path r p tc' E g db"
  have a: "addr tc' = addr tc" by (simp add: tc')
  note k = dropped_path_keys [OF tc a E(1)] and D = lsdb_okD [OF ok]
  have v: "vertex_ok ?db q tcq" if q: "tcs ?db q = Some tcq" for q tcq
  proof (cases "q = p")
    case True
    hence "tcq = tc'" using q by (simp add: dropped_path_def)
    thus ?thesis using D(2) [OF tc] True T unfolding vertex_ok_def k by (simp add: tc' ref_of_def)
  next
    case False
    hence "tcs db q = Some tcq" using q by (simp add: dropped_path_def)
    from D(2) [OF this] have "indexes (edge_tree tcq) (edge_key db q)" "indexes (prefix_tree tcq) (prefix_key db q)"
      "refcount tcq = ref_of tcq" by (simp_all add: vertex_ok_def)
    moreover have "(prefix_key db q)(r := None) = prefix_key db q" using r False by (auto simp: prefix_key_def fun_eq_iff)
    ultimately show ?thesis unfolding vertex_ok_def k by simp
  qed
  have d: "tcs ?db q \<noteq> None \<longleftrightarrow> tcs db q \<noteq> None" for q using tc by (simp add: dropped_path_def)
  have Ed: "E x \<noteq> None \<longleftrightarrow> rt_entries db x \<noteq> None" for x using E(1) [of x] by (cases "E x"; cases "rt_entries db x") (auto simp: entry_key_def)
  show ?thesis
  proof (rule lsdb_okI, goal_cases)
    case (3 i edi)
    hence "edge_wf db i edi" by (intro D(3)) (simp add: dropped_path_def)
    thus ?case unfolding edge_wf_def k d .
  next
    case (5 x rt) thus ?case using E(2) unfolding k by (simp add: dropped_path_def)
  next
    case (6 i rpi)
    hence "path_wf db rpi" by (intro D(6) [of i]) (auto simp: dropped_path_def split: if_splits)
    thus ?case by (rule path_wf_mono) (simp_all only: k d not_False_eq_True)
  next
    case (7 q)
    hence "allocated db q" using tc Ed by (auto simp: allocated_def dropped_path_def split: if_splits)
    thus ?case using D(7) by (simp add: dropped_path_def)
  next
    case (8 q) thus ?case using g [of q] by (simp add: dropped_path_def)
  qed (use D(1,4) v in \<open>simp_all only: k, simp_all add: dropped_path_def\<close>)
qed

theorem delete_rt_path_ok:
  assumes ok: "lsdb_ok db" and hp: "heap_next db < 2 ^ 31" and r: "rt_paths db r = Some rp"
  shows "\<exists>db'. olsr_delete_rt_path r db = Some db' \<and> lsdb_ok db' \<and> rt_paths db' = (rt_paths db)(r := None) \<and>
    only_paths db db' \<and> edge_data db' = edge_data db \<and> edge_ends db' = edge_ends db"
proof -
  note D = lsdb_okD [OF ok]
  from D(6) [OF r] obtain p tc where p: "rtp_tc rp = Some p" and tc: "tcs db p = Some tc"
    by (auto simp: path_wf_def split: option.splits)
  from D(2) [OF tc] have ix: "indexes (prefix_tree tc) (prefix_key db p)" and ref: "refcount tc = ref_of tc"
    by (simp_all add: vertex_ok_def)
  have "prefix_key db p r = Some (rtp_dst rp)" using r p by (simp add: prefix_key_def)
  from indexes_delete [OF ix this] obtain T where T: "avl_delete (prefix_tree tc) r = Some T"
    "indexes T ((prefix_key db p)(r := None))" "length (avl_walk (prefix_tree tc)) = Suc (length (avl_walk T))" by blast
  have ne: "refcount tc - 1 \<noteq> 0" using ref_after_delete(1) [OF ref degree_bound [OF ok tc hp]] T(3) by simp
  let ?tc' = "tc\<lparr>prefix_tree := T, refcount := refcount tc - 1\<rparr>" and ?g = "if current_inetgw db = Some r then None else current_inetgw db"
  obtain E where E: "unlink_rtp_rt r rp db = Some (db\<lparr>rt_entries := E, rt_paths := (rt_paths db)(r \<mapsto> rp\<lparr>rtp_rt := None\<rparr>)\<rparr>)"
    "\<forall>x. map_option rt_dst (E x) = entry_key db x"
    "\<forall>x rt. E x = Some rt \<longrightarrow> indexes (rt_path_tree rt) ((path_key db x)(r := None))"
  proof (cases "rtp_rt rp")
    case None
    have n: "(path_key db x)(r := None) = path_key db x" for x using r None by (auto simp: path_key_def fun_eq_iff)
    have "(rt_paths db)(r \<mapsto> rp\<lparr>rtp_rt := None\<rparr>) = rt_paths db" using r None by (auto simp: fun_eq_iff)
    hence u: "unlink_rtp_rt r rp db = Some (db\<lparr>rt_entries := rt_entries db, rt_paths := (rt_paths db)(r \<mapsto> rp\<lparr>rtp_rt := None\<rparr>)\<rparr>)"
      using None by (simp add: unlink_rtp_rt_def)
    show thesis by (rule that [OF u]) (use D(5) in \<open>simp_all add: entry_key_def n\<close>)
  next
    case (Some x)
    with D(6) [OF r] obtain rt where rt: "rt_entries db x = Some rt" "rt_dst rt = rtp_dst rp"
      by (auto simp: path_wf_def entry_key_def split: option.splits)
    have "path_key db x r = Some (rtp_originator rp)" using r Some by (simp add: path_key_def)
    from indexes_delete [OF D(5) [OF rt(1)] this] obtain U where U: "avl_delete (rt_path_tree rt) r = Some U"
      "indexes U ((path_key db x)(r := None))" by blast
    let ?E = "(rt_entries db)(x \<mapsto> rt\<lparr>rt_path_tree := U\<rparr>)"
    have n: "(path_key db y)(r := None) = path_key db y" if "y \<noteq> x" for y
      using r Some that by (auto simp: path_key_def fun_eq_iff)
    show thesis
    proof (rule that [of ?E])
      show "unlink_rtp_rt r rp db = Some (db\<lparr>rt_entries := ?E, rt_paths := (rt_paths db)(r \<mapsto> rp\<lparr>rtp_rt := None\<rparr>)\<rparr>)"
        using Some rt U(1) r by (simp add: unlink_rtp_rt_def upd_rt_def upd_rtp_def)
      show "\<forall>y. map_option rt_dst (?E y) = entry_key db y" using rt by (simp add: entry_key_def)
      show "\<forall>y rty. ?E y = Some rty \<longrightarrow> indexes (rt_path_tree rty) ((path_key db y)(r := None))"
        using U(2) D(5) n by auto
    qed
  qed
  have res: "olsr_delete_rt_path r db = Some (dropped_path r p ?tc' E ?g db)"
    using r p tc T(1) ne E(1)
    by (simp add: olsr_delete_rt_path_def unlink_rtp_tc_def olsr_unlock_tc_entry_def dropped_path_def upd_tc_def upd_rtp_def Let_def)
  have a: "addr ?tc' = addr tc" by simp
  have E1: "\<And>x. map_option rt_dst (E x) = entry_key db x" using E(2) by blast
  note k = dropped_path_keys [OF tc a E1]
  have g: "q \<noteq> r \<and> rt_paths db q \<noteq> None" if "?g = Some q" for q
    using D(8) [of q] that by (cases "current_inetgw db = Some r") auto
  have ok': "lsdb_ok (dropped_path r p ?tc' E ?g db)"
    using E(2,3) g by (intro dropped_path_ok [OF ok r p tc refl T(2,3)]) blast+
  have "only_paths db (dropped_path r p ?tc' E ?g db)"
    unfolding only_paths_def k using tc by (simp add: dropped_path_def)
  with res ok' k show ?thesis by (auto simp: dropped_path_def)
qed

section \<open>Deleting many paths\<close>

definition paths_deleted :: "'lq lsdb \<Rightarrow> ptr set \<Rightarrow> 'lq lsdb \<Rightarrow> bool" where
  "paths_deleted db D db' \<longleftrightarrow> lsdb_ok db' \<and> only_paths db db' \<and>
     (\<forall>r. rt_paths db' r = (if r \<in> D then None else rt_paths db r)) \<and>
     edge_data db' = edge_data db \<and> edge_ends db' = edge_ends db"

lemma only_paths_refl: "only_paths db db"
  by (simp add: only_paths_def)

lemma only_pathsD:
  assumes "only_paths db db'"
  shows "heap_next db' = heap_next db" "tc_tree db' = tc_tree db" "tc_edges db' = tc_edges db"
    "tcs db q = Some tc \<Longrightarrow> \<exists>tc'. tcs db' q = Some tc' \<and> addr tc' = addr tc \<and> edge_tree tc' = edge_tree tc"
    "tcs db' q = None \<longleftrightarrow> tcs db q = None"
proof -
  let ?s = "\<lambda>tc. tc\<lparr>prefix_tree := avl_init, refcount := 0\<rparr>"
  from assms have r: "db'\<lparr>tcs := tcs db, rt_paths := rt_paths db, rt_entries := rt_entries db,
      current_inetgw := current_inetgw db\<rparr> = db"
    and t: "map_option ?s (tcs db' q) = map_option ?s (tcs db q)" by (simp_all add: only_paths_def)
  show "heap_next db' = heap_next db" "tc_tree db' = tc_tree db" "tc_edges db' = tc_edges db"
    using arg_cong [OF r, of heap_next] arg_cong [OF r, of tc_tree] arg_cong [OF r, of tc_edges] by simp_all
  show "tcs db' q = None \<longleftrightarrow> tcs db q = None" using t by (metis option.map_disc_iff)
  assume "tcs db q = Some tc"
  with t obtain tc' where q: "tcs db' q = Some tc'" and e: "?s tc' = ?s tc" by (cases "tcs db' q") auto
  have "addr tc' = addr tc" "edge_tree tc' = edge_tree tc"
    using arg_cong [OF e, of addr] arg_cong [OF e, of edge_tree] by simp_all
  with q show "\<exists>tc'. tcs db' q = Some tc' \<and> addr tc' = addr tc \<and> edge_tree tc' = edge_tree tc" by simp
qed

lemma only_paths_trans:
  assumes "only_paths a b" "only_paths b c"
  shows "only_paths a c"
proof -
  let ?s = "\<lambda>tc. tc\<lparr>prefix_tree := avl_init, refcount := 0\<rparr>"
  from assms have "b\<lparr>tcs := tcs a, rt_paths := rt_paths a, rt_entries := rt_entries a, current_inetgw := current_inetgw a\<rparr> = a"
    "c\<lparr>tcs := tcs b, rt_paths := rt_paths b, rt_entries := rt_entries b, current_inetgw := current_inetgw b\<rparr> = b"
    by (simp_all add: only_paths_def)
  hence "(c\<lparr>tcs := tcs b, rt_paths := rt_paths b, rt_entries := rt_entries b, current_inetgw := current_inetgw b\<rparr>)
    \<lparr>tcs := tcs a, rt_paths := rt_paths a, rt_entries := rt_entries a, current_inetgw := current_inetgw a\<rparr> = a" by (simp only:)
  hence "c\<lparr>tcs := tcs a, rt_paths := rt_paths a, rt_entries := rt_entries a, current_inetgw := current_inetgw a\<rparr> = a" by simp
  moreover have "\<forall>q. map_option ?s (tcs c q) = map_option ?s (tcs a q)" "entry_key c = entry_key a"
    using assms by (simp_all add: only_paths_def)
  ultimately show ?thesis unfolding only_paths_def by blast
qed

lemma delete_paths_ok:
  assumes "lsdb_ok db" "heap_next db < 2 ^ 31" "distinct rs" "\<forall>r\<in>set rs. rt_paths db r \<noteq> None"
  shows "\<exists>db'. foldM olsr_delete_rt_path rs db = Some db' \<and> paths_deleted db (set rs) db'"
  using assms
proof (induction rs arbitrary: db)
  case (Cons r rs)
  from Cons.prems obtain rp where "rt_paths db r = Some rp" by auto
  from delete_rt_path_ok [OF Cons.prems(1,2) this] obtain db1 where d1: "olsr_delete_rt_path r db = Some db1" "lsdb_ok db1"
    "rt_paths db1 = (rt_paths db)(r := None)" "only_paths db db1" "edge_data db1 = edge_data db" "edge_ends db1 = edge_ends db"
    by blast
  have "\<forall>i\<in>set rs. rt_paths db1 i \<noteq> None" using Cons.prems d1(3) by auto
  with Cons.IH [OF d1(2)] Cons.prems only_pathsD(1) [OF d1(4)] obtain db2 where
    d2: "foldM olsr_delete_rt_path rs db1 = Some db2" "paths_deleted db1 (set rs) db2" by auto
  have "paths_deleted db (set (r # rs)) db2"
    using d1 d2(2) only_paths_trans [OF d1(4)] by (auto simp: paths_deleted_def)
  with d1 d2 show ?case by auto
qed (auto simp: paths_deleted_def only_paths_refl)

lemma prefixes_of_facts:
  assumes "lsdb_ok db" "tcs db p = Some tc"
  shows "distinct (prefixes_of tc)" "\<forall>r\<in>set (prefixes_of tc). rt_paths db r \<noteq> None"
    "r \<in> set (prefixes_of tc) \<longleftrightarrow> prefix_key db p r \<noteq> None"
proof -
  from lsdb_okD(2) [OF assms] have ix: "indexes (prefix_tree tc) (prefix_key db p)" by (simp add: vertex_ok_def)
  show "distinct (prefixes_of tc)" unfolding prefixes_of_def by (rule indexes_distinct [OF ix])
  show mem: "r \<in> set (prefixes_of tc) \<longleftrightarrow> prefix_key db p r \<noteq> None" for r
    unfolding prefixes_of_def indexes_nodes [OF ix] ..
  show "\<forall>r\<in>set (prefixes_of tc). rt_paths db r \<noteq> None"
    using mem by (auto simp: prefix_key_def split: option.splits)
qed

lemma only_paths_vertex: "only_paths db db' \<Longrightarrow> vertex_key db' = vertex_key db"
proof
  fix q assume o: "only_paths db db'"
  show "vertex_key db' q = vertex_key db q"
    using only_pathsD(4,5) [OF o, of q] by (cases "tcs db q") (auto simp: vertex_key_def)
qed

text \<open>What a deletion of prefixes leaves alone.\<close>

definition same_graph :: "'lq lsdb \<Rightarrow> 'lq lsdb \<Rightarrow> bool" where
  "same_graph db db' \<longleftrightarrow> heap_next db' = heap_next db \<and> tc_tree db' = tc_tree db \<and> vertex_key db' = vertex_key db \<and>
     edge_data db' = edge_data db \<and> edge_ends db' = edge_ends db"

lemma delete_routing_table_ok:
  assumes ok: "lsdb_ok db" and hp: "heap_next db < 2 ^ 31"
  shows "\<exists>db'. olsr_delete_routing_table cnf dst plen orig db = Some db' \<and> lsdb_ok db' \<and> same_graph db db'"
proof (cases "plen > maxplen cnf \<or> olsr_lookup_tc_entry orig db = None")
  case True
  thus ?thesis using ok by (auto simp: olsr_delete_routing_table_def same_graph_def)
next
  case False
  then obtain p where p: "olsr_lookup_tc_entry orig db = Some p" by auto
  then obtain tc where tc: "tcs db p = Some tc"
    using indexes_find [OF lsdb_okD(1) [OF ok]] by (auto simp: olsr_lookup_tc_entry_def vertex_key_def)
  let ?pfx = "\<lparr>prefix = dst, prefix_len = plen\<rparr>"
  show ?thesis
  proof (cases "avl_find (prefix_tree tc) ?pfx")
    case None
    thus ?thesis using ok p tc False by (auto simp: olsr_delete_routing_table_def same_graph_def)
  next
    case (Some r)
    have "indexes (prefix_tree tc) (prefix_key db p)" using lsdb_okD(2) [OF ok tc] by (simp add: vertex_ok_def)
    with Some obtain rp where "rt_paths db r = Some rp"
      by (auto simp: indexes_find prefix_key_def split: option.splits)
    from delete_rt_path_ok [OF ok hp this] obtain db1 where d1: "olsr_delete_rt_path r db = Some db1" "lsdb_ok db1"
      "only_paths db db1" "edge_data db1 = edge_data db" "edge_ends db1 = edge_ends db" by blast
    have "same_graph db (db1\<lparr>changes_hna := True\<rparr>)"
      using d1(4,5) only_pathsD(1,2) [OF d1(3)] only_paths_vertex [OF d1(3)]
      by (simp add: same_graph_def)
    with d1 p tc Some False show ?thesis
      by (auto simp: olsr_delete_routing_table_def)
  qed
qed

section \<open>New paths\<close>

definition with_path :: "ptr \<Rightarrow> tc_entry \<Rightarrow> rt_path \<Rightarrow> 'lq lsdb \<Rightarrow> 'lq lsdb" where
  "with_path p tc' rp db = db\<lparr>tcs := (tcs db)(p \<mapsto> tc'), rt_paths := (rt_paths db)(heap_next db \<mapsto> rp),
     heap_next := heap_next db + 1\<rparr>"

lemma with_path_keys:
  assumes "lsdb_ok db" "tcs db p = Some tc" "addr tc' = addr tc" "rtp_tc rp = Some p" "rtp_rt rp = None"
  shows "vertex_key (with_path p tc' rp db) = vertex_key db" "edge_key (with_path p tc' rp db) = edge_key db"
    "edge_ends (with_path p tc' rp db) = edge_ends db" "edge_data (with_path p tc' rp db) = edge_data db"
    "prefix_key (with_path p tc' rp db) q = (if q = p then (prefix_key db p)(heap_next db \<mapsto> rtp_dst rp) else prefix_key db q)"
    "entry_key (with_path p tc' rp db) = entry_key db" "path_key (with_path p tc' rp db) = path_key db"
  using assms(2-5) heap_next_free(3) [OF assms(1)]
  by (auto simp: key_defs edge_data_def with_path_def fun_eq_iff split: option.splits)

lemma with_path_ok:
  assumes ok: "lsdb_ok db" and tc: "tcs db p = Some tc" and rp: "rtp_tc rp = Some p" "rtp_rt rp = None"
    and tc': "tc' = tc\<lparr>prefix_tree := T, refcount := refcount tc + 1\<rparr>"
    and T: "indexes T ((prefix_key db p)(heap_next db \<mapsto> rtp_dst rp))" "length (avl_walk T) = Suc (length (avl_walk (prefix_tree tc)))"
  shows "lsdb_ok (with_path p tc' rp db)"
proof -
  let ?db = "with_path p tc' rp db"
  have a: "addr tc' = addr tc" by (simp add: tc')
  note k = with_path_keys [OF ok tc a rp] and D = lsdb_okD [OF ok]
  have v: "vertex_ok ?db q tcq" if q: "tcs ?db q = Some tcq" for q tcq
  proof (cases "q = p")
    case True
    hence "tcq = tc'" using q by (simp add: with_path_def)
    thus ?thesis using D(2) [OF tc] True T unfolding vertex_ok_def k by (simp add: tc' ref_of_def algebra_simps)
  next
    case False
    hence "tcs db q = Some tcq" using q by (simp add: with_path_def)
    from D(2) [OF this] False show ?thesis unfolding vertex_ok_def k by simp
  qed
  have d: "tcs ?db q \<noteq> None \<longleftrightarrow> tcs db q \<noteq> None" for q using tc by (simp add: with_path_def)
  show ?thesis
  proof (rule lsdb_okI, goal_cases)
    case (3 i edi)
    hence "edge_wf db i edi" by (intro D(3)) (simp add: with_path_def)
    thus ?case unfolding edge_wf_def k d .
  next
    case (5 x rt) thus ?case using D(5) unfolding k by (simp add: with_path_def)
  next
    case (6 i rpi)
    show ?case
    proof (cases "i = heap_next db")
      case True
      hence "rpi = rp" using 6 by (simp add: with_path_def)
      thus ?thesis using rp tc by (simp add: path_wf_def with_path_def)
    next
      case False
      hence "path_wf db rpi" using 6 by (intro D(6) [of i]) (simp add: with_path_def)
      thus ?thesis by (rule path_wf_mono) (simp_all only: k d not_False_eq_True)
    qed
  next
    case (7 q)
    hence "allocated db q \<or> q = heap_next db" using tc by (auto simp: allocated_def with_path_def split: if_splits)
    thus ?case using D(7) by (auto simp: with_path_def less_Suc_eq)
  next
    case (8 q) thus ?case using D(8) [of q] by (auto simp: with_path_def)
  qed (use D(1,4) v in \<open>simp_all only: k, simp_all add: with_path_def\<close>)
qed

text \<open>What creating a prefix leaves alone.\<close>

definition grows :: "'lq lsdb \<Rightarrow> 'lq lsdb \<Rightarrow> bool" where
  "grows db db' \<longleftrightarrow> tc_tree db' = tc_tree db \<and> vertex_key db' = vertex_key db \<and>
     edge_data db' = edge_data db \<and> edge_ends db' = edge_ends db \<and> heap_next db' \<le> Suc (heap_next db)"

lemma insert_prefix_ok:
  assumes ok: "lsdb_ok db" and tc: "tcs db p = Some tc"
  shows "\<exists>r db'. insert_prefix cnf dst plen p origin db = Some (r, db') \<and> lsdb_ok db' \<and> grows db db' \<and>
    prefix_key db' p r = Some \<lparr>prefix = dst, prefix_len = plen\<rparr>"
proof -
  let ?pfx = "\<lparr>prefix = dst, prefix_len = plen\<rparr>" and ?r = "heap_next db"
  have ix: "indexes (prefix_tree tc) (prefix_key db p)" using lsdb_okD(2) [OF ok tc] by (simp add: vertex_ok_def)
  show ?thesis
  proof (cases "avl_find (prefix_tree tc) ?pfx")
    case (Some r)
    hence "prefix_key db p r = Some ?pfx" using indexes_find [OF ix] by blast
    moreover have "insert_prefix cnf dst plen p origin db = Some (r, db)" using Some tc by (simp add: insert_prefix_def Let_def)
    ultimately show ?thesis using ok by (auto simp: grows_def)
  next
    case None
    hence "\<forall>m. prefix_key db p m \<noteq> Some ?pfx" using indexes_find_None [OF ix] by blast
    moreover have "prefix_key db p ?r = None" using heap_next_free(3) [OF ok] by (simp add: prefix_key_def)
    ultimately obtain T where T: "avl_insert (prefix_tree tc) ?pfx ?r False = Some (T, 0)"
      "indexes T ((prefix_key db p)(?r \<mapsto> ?pfx))" "length (avl_walk T) = Suc (length (avl_walk (prefix_tree tc)))"
      using indexes_insert [OF ix] by blast
    let ?tc' = "tc\<lparr>prefix_tree := T, refcount := refcount tc + 1\<rparr>"
    let ?rp = "\<lparr>rtp_rt = None, rtp_tc = Some p, rtp_nexthop = \<lparr>gateway = all_zero cnf, iif_index = 0\<rparr>,
               rtp_metric = \<lparr>rtm_cost = 0, rtm_hops = 0\<rparr>, rtp_originator = all_zero cnf, rtp_dst = ?pfx,
               rtp_version = 0, rtp_origin = origin\<rparr>"
    have res: "insert_prefix cnf dst plen p origin db = Some (?r, (with_path p ?tc' ?rp db)\<lparr>changes_hna := True\<rparr>)"
      using None tc T(1)
      by (simp add: insert_prefix_def olsr_alloc_rt_path_def olsr_lock_tc_entry_def with_path_def upd_tc_def upd_rtp_def Let_def)
    have "lsdb_ok (with_path p ?tc' ?rp db)" using T by (intro with_path_ok [OF ok tc _ _ refl]) simp_all
    moreover have "grows db (with_path p ?tc' ?rp db)"
      using with_path_keys [OF ok tc, of ?tc' ?rp] by (simp add: grows_def with_path_def)
    moreover have "prefix_key (with_path p ?tc' ?rp db) p ?r = Some ?pfx"
      using with_path_keys(5) [OF ok tc, of ?tc' ?rp p] by simp
    ultimately show ?thesis unfolding res by (auto simp: grows_def prefix_key_def)
  qed
qed

section \<open>Route entries\<close>

lemma upd_rtp_simps [simp]:
  "rt_paths (upd_rtp r f db) q = (if q = r then map_option f (rt_paths db r) else rt_paths db q)"
  "tcs (upd_rtp r f db) = tcs db" "tc_edges (upd_rtp r f db) = tc_edges db" "tc_tree (upd_rtp r f db) = tc_tree db"
  "rt_entries (upd_rtp r f db) = rt_entries db" "routingtree (upd_rtp r f db) = routingtree db"
  "heap_next (upd_rtp r f db) = heap_next db" "current_inetgw (upd_rtp r f db) = current_inetgw db"
  by (simp_all add: upd_rtp_def)

text \<open>A path keeps its prefix, its owners and its originator.\<close>

definition same_path :: "rt_path \<Rightarrow> rt_path \<Rightarrow> bool" where
  "same_path rp rp' \<longleftrightarrow> rtp_dst rp' = rtp_dst rp \<and> rtp_tc rp' = rtp_tc rp \<and> rtp_rt rp' = rtp_rt rp \<and>
     rtp_originator rp' = rtp_originator rp"

lemma upd_rtp_ok:
  assumes ok: "lsdb_ok db" and f: "\<And>rp. same_path rp (f rp)"
  shows "lsdb_ok (upd_rtp r f db)"
proof -
  have f': "\<And>rp. rtp_dst (f rp) = rtp_dst rp \<and> rtp_tc (f rp) = rtp_tc rp \<and> rtp_rt (f rp) = rtp_rt rp \<and>
     rtp_originator (f rp) = rtp_originator rp" using f by (simp add: same_path_def)
  have k: "vertex_key (upd_rtp r f db) = vertex_key db" "edge_key (upd_rtp r f db) = edge_key db"
    "edge_ends (upd_rtp r f db) = edge_ends db" "entry_key (upd_rtp r f db) = entry_key db"
    "prefix_key (upd_rtp r f db) = prefix_key db" "path_key (upd_rtp r f db) = path_key db"
    using f' by (auto simp: key_defs fun_eq_iff split: option.splits)
  note D = lsdb_okD [OF ok]
  show ?thesis
  proof (rule lsdb_okI, goal_cases)
    case (2 p tc) thus ?case using D(2) unfolding vertex_ok_def k by simp
  next
    case (3 e ed) thus ?case using D(3) unfolding edge_wf_def k by simp
  next
    case (5 x rt) thus ?case using D(5) unfolding k by simp
  next
    case (6 i rpi)
    then obtain rp0 where rp0: "rt_paths db i = Some rp0" "rtp_dst rpi = rtp_dst rp0 \<and> rtp_tc rpi = rtp_tc rp0 \<and> rtp_rt rpi = rtp_rt rp0"
      using f' by (cases "i = r") auto
    from D(6) [OF rp0(1)] rp0(2) show ?case unfolding path_wf_def k by (auto split: option.splits)
  next
    case (7 q) thus ?case using D(7) by (auto simp: allocated_def split: if_splits)
  next
    case (8 q) thus ?case using D(8) [of q] by auto
  qed (use D(1,4) in \<open>simp_all add: k\<close>)
qed

text \<open>A new route entry without paths.\<close>

lemma alloc_rt_entry_ok:
  assumes ok: "lsdb_ok db" and new: "\<forall>y. entry_key db y \<noteq> Some pfx"
  shows "\<exists>db'. olsr_alloc_rt_entry cnf pfx db = Some (heap_next db, db') \<and> lsdb_ok db' \<and>
    tcs db' = tcs db \<and> tc_edges db' = tc_edges db \<and> tc_tree db' = tc_tree db \<and> rt_paths db' = rt_paths db \<and>
    entry_key db' = (entry_key db)(heap_next db \<mapsto> pfx) \<and> heap_next db' = Suc (heap_next db) \<and>
    routingtree_version db' = routingtree_version db"
proof -
  let ?x = "heap_next db"
  note D = lsdb_okD [OF ok] and free = heap_next_free [OF ok]
  have "entry_key db ?x = None" using free by (simp add: entry_key_def)
  from indexes_insert [OF D(4) this new] obtain T where T: "avl_insert (routingtree db) pfx ?x False = Some (T, 0)"
    "indexes T ((entry_key db)(?x \<mapsto> pfx))" by blast
  define rt where "rt = \<lparr>rt_dst = pfx, rt_best = None, rt_nexthop = \<lparr>gateway = all_zero cnf, iif_index = -1\<rparr>,
               rt_metric = \<lparr>rtm_cost = 0, rtm_hops = 0\<rparr>, rt_path_tree = avl_init\<rparr>"
  define db' where "db' = db\<lparr>routingtree := T, rt_entries := (rt_entries db)(?x \<mapsto> rt), heap_next := ?x + 1\<rparr>"
  have k: "vertex_key db' = vertex_key db" "edge_key db' = edge_key db" "edge_ends db' = edge_ends db"
    "prefix_key db' = prefix_key db" "path_key db' = path_key db" "entry_key db' = (entry_key db)(?x \<mapsto> pfx)"
    by (auto simp: db'_def rt_def key_defs fun_eq_iff split: option.splits)
  have nop: "path_key db ?x r = None" for r
    using D(6) [of r] free(4) by (auto simp: path_key_def path_wf_def entry_key_def split: option.splits)
  have "lsdb_ok db'"
  proof (rule lsdb_okI, goal_cases)
    case 1 show ?case using D(1) unfolding k by (simp add: db'_def)
  next
    case (2 p tc) thus ?case using D(2) unfolding vertex_ok_def k by (simp add: db'_def)
  next
    case (3 e ed) thus ?case using D(3) unfolding edge_wf_def k by (simp add: db'_def)
  next
    case 4 show ?case using T(2) unfolding k by (simp add: db'_def)
  next
    case (5 y rty)
    show ?case
    proof (cases "y = ?x")
      case True
      hence "rty = rt" using 5 by (simp add: db'_def)
      moreover have "path_key db ?x = (\<lambda>r. None)" using nop by blast
      ultimately show ?thesis unfolding k using True indexes_init by (simp add: rt_def)
    next
      case False
      thus ?thesis using 5 D(5) [of y rty] unfolding k by (simp add: db'_def)
    qed
  next
    case (6 r rp)
    hence "path_wf db rp" using D(6) [of r] by (simp add: db'_def)
    thus ?case using free(4) unfolding path_wf_def k
      by (auto simp: db'_def entry_key_def split: option.splits)
  next
    case (7 q)
    hence "allocated db q \<or> q = ?x" by (auto simp: allocated_def db'_def split: if_splits)
    thus ?case using D(7) by (auto simp: db'_def less_Suc_eq)
  next
    case (8 r) thus ?case using D(8) by (simp add: db'_def)
  qed
  moreover have "olsr_alloc_rt_entry cnf pfx db = Some (?x, db')"
    using T(1) by (simp add: olsr_alloc_rt_entry_def db'_def rt_def Let_def)
  ultimately show ?thesis using k by (auto simp: db'_def)
qed

text \<open>A path that is not yet in the tree of its prefix is linked into it.\<close>

definition linked_path :: "ptr \<Rightarrow> ptr \<Rightarrow> rt_path \<Rightarrow> rt_entry \<Rightarrow> 'lq lsdb \<Rightarrow> 'lq lsdb" where
  "linked_path r x rp' rt' db = db\<lparr>rt_paths := (rt_paths db)(r \<mapsto> rp'), rt_entries := (rt_entries db)(x \<mapsto> rt')\<rparr>"

lemma linked_path_ok:
  assumes ok: "lsdb_ok db" and r: "rt_paths db r = Some rp" "rtp_rt rp = None"
    and x: "rt_entries db x = Some rt" "rt_dst rt = rtp_dst rp"
    and rp': "rtp_rt rp' = Some x" "rtp_tc rp' = rtp_tc rp" "rtp_dst rp' = rtp_dst rp"
    and rt': "rt_dst rt' = rt_dst rt" "indexes (rt_path_tree rt') ((path_key db x)(r \<mapsto> rtp_originator rp'))"
  shows "lsdb_ok (linked_path r x rp' rt' db)"
proof -
  let ?db = "linked_path r x rp' rt' db"
  note D = lsdb_okD [OF ok]
  have k: "vertex_key ?db = vertex_key db" "edge_key ?db = edge_key db" "edge_ends ?db = edge_ends db"
    "prefix_key ?db = prefix_key db" "entry_key ?db = entry_key db"
    using r x rp' rt' by (auto simp: key_defs linked_path_def fun_eq_iff split: option.splits)
  have pk: "path_key ?db y = (if y = x then (path_key db x)(r \<mapsto> rtp_originator rp') else path_key db y)" for y
    using r rp' by (auto simp: path_key_def linked_path_def fun_eq_iff split: option.splits)
  show ?thesis
  proof (rule lsdb_okI, goal_cases)
    case 1 show ?case using D(1) unfolding k by (simp add: linked_path_def)
  next
    case (2 p tc) thus ?case using D(2) unfolding vertex_ok_def k by (simp add: linked_path_def)
  next
    case (3 e ed) thus ?case using D(3) unfolding edge_wf_def k by (simp add: linked_path_def)
  next
    case 4 show ?case using D(4) unfolding k by (simp add: linked_path_def)
  next
    case (5 y rty) thus ?case using D(5) rt' unfolding pk by (auto simp: linked_path_def split: if_splits)
  next
    case (6 i rpi)
    have w: "path_wf ?db rpj \<longleftrightarrow> path_wf db rpj" for rpj unfolding path_wf_def k
      by (auto simp: linked_path_def split: option.splits)
    show ?case
    proof (cases "i = r")
      case True
      hence "rpi = rp'" using 6 by (simp add: linked_path_def)
      thus ?thesis unfolding w using D(6) [OF r(1)] rp' x by (auto simp: path_wf_def entry_key_def split: option.splits)
    next
      case False
      thus ?thesis unfolding w using 6 D(6) [of i] by (simp add: linked_path_def)
    qed
  next
    case (7 q) thus ?case using D(7) r x by (auto simp: allocated_def linked_path_def split: if_splits)
  next
    case (8 q) thus ?case using D(8) [of q] by (auto simp: linked_path_def)
  qed
qed

text \<open>
  Inserting a path of a reachable vertex into the routing table; the path must not be linked yet
  and the vertex must not have another path for the prefix.
\<close>

lemma insert_rt_path_ok:
  assumes ok: "lsdb_ok db" and tc: "tcs db p = Some tc" and r: "rt_paths db r = Some rp" "rtp_rt rp = None"
    and u: "\<forall>i rpi x. rt_paths db i = Some rpi \<longrightarrow> rtp_dst rpi = rtp_dst rp \<longrightarrow> rtp_rt rpi = Some x \<longrightarrow> rtp_originator rpi \<noteq> addr tc"
  shows "\<exists>db'. olsr_insert_rt_path cnf r p link db = Some db' \<and> lsdb_ok db'"
proof (cases "path_cost tc = ROUTE_COST_BROKEN \<or> prefix_len (rtp_dst rp) > maxplen cnf")
  case True
  thus ?thesis using ok tc r by (auto simp: olsr_insert_rt_path_def)
next
  case False
  obtain x db1 where e: "(case avl_find (routingtree db) (rtp_dst rp) of
        None \<Rightarrow> olsr_alloc_rt_entry cnf (rtp_dst rp) db | Some x \<Rightarrow> Some (x, db)) = Some (x, db1)"
    and ok1: "lsdb_ok db1" and s: "tcs db1 = tcs db" "rt_paths db1 = rt_paths db" and x: "entry_key db1 x = Some (rtp_dst rp)"
  proof (cases "avl_find (routingtree db) (rtp_dst rp)")
    case None
    hence "\<forall>y. entry_key db y \<noteq> Some (rtp_dst rp)" using indexes_find_None [OF lsdb_okD(4) [OF ok]] by blast
    from alloc_rt_entry_ok [OF ok this, of cnf] obtain db1 where "olsr_alloc_rt_entry cnf (rtp_dst rp) db = Some (heap_next db, db1)"
      "lsdb_ok db1" "tcs db1 = tcs db" "rt_paths db1 = rt_paths db" "entry_key db1 = (entry_key db)(heap_next db \<mapsto> rtp_dst rp)" by blast
    with None that [of "heap_next db" db1] show thesis by simp
  next
    case (Some y)
    with indexes_find [OF lsdb_okD(4) [OF ok]] ok that [of y db] show thesis by auto
  qed
  from x obtain rt where rt: "rt_entries db1 x = Some rt" "rt_dst rt = rtp_dst rp" by (auto simp: entry_key_def)
  note D = lsdb_okD [OF ok1]
  have "path_key db1 x r = None" using r s by (simp add: path_key_def)
  moreover have "path_key db1 x m \<noteq> Some (addr tc)" for m
  proof
    assume "path_key db1 x m = Some (addr tc)"
    then obtain rpm where m: "rt_paths db m = Some rpm" "rtp_rt rpm = Some x" "rtp_originator rpm = addr tc"
      using s by (auto simp: path_key_def split: option.splits if_splits)
    moreover have "rtp_dst rpm = rtp_dst rp" using D(6) [of m rpm] m s x by (simp add: path_wf_def split: option.splits)
    ultimately show False using u by blast
  qed
  ultimately obtain T where T: "avl_insert (rt_path_tree rt) (addr tc) r False = Some (T, 0)"
    "indexes T ((path_key db1 x)(r \<mapsto> addr tc))" using indexes_insert [OF D(5) [OF rt(1)]] by blast
  let ?rp' = "rp\<lparr>rtp_originator := addr tc, rtp_rt := Some x\<rparr>" and ?rt' = "rt\<lparr>rt_path_tree := T\<rparr>"
  have okl: "lsdb_ok (linked_path r x ?rp' ?rt' db1)"
    using T(2) by (intro linked_path_ok [OF ok1 _ r(2) rt]) (simp_all add: s r)
  have l: "upd_rtp r (\<lambda>rp. rp\<lparr>rtp_originator := addr tc, rtp_rt := Some x\<rparr>) (upd_rt x (\<lambda>rt. rt\<lparr>rt_path_tree := T\<rparr>) db1) =
      linked_path r x ?rp' ?rt' db1"
    using r rt s by (simp add: upd_rtp_def upd_rt_def linked_path_def)
  have "\<exists>db'. olsr_update_rt_path r p link (linked_path r x ?rp' ?rt' db1) = Some db' \<and> lsdb_ok db'"
    using upd_rtp_ok [OF okl] tc s by (auto simp: olsr_update_rt_path_def linked_path_def same_path_def)
  with e T(1) tc r rt l False s show ?thesis by (simp add: olsr_insert_rt_path_def)
qed

section \<open>The best path\<close>

text \<open>The rank of a path: its cost (scaled for the current gateway), its hops, its originator.\<close>

definition rtp_rank :: "olsrd_config \<Rightarrow> ptr option \<Rightarrow> ptr \<times> rt_path \<Rightarrow> nat \<times> nat \<times> nat" where
  "rtp_rank cnf gw a =
     (unat (if gw = Some (fst a) then nat_scaled cnf (rtm_cost (rtp_metric (snd a))) else rtm_cost (rtp_metric (snd a))),
      unat (rtm_hops (rtp_metric (snd a))), be_val (ip_bytes (rtp_originator (snd a))))"

fun rank_less :: "nat \<times> nat \<times> nat \<Rightarrow> nat \<times> nat \<times> nat \<Rightarrow> bool" where
  "rank_less (c1, h1, o1) (c2, h2, o2) \<longleftrightarrow> c1 < c2 \<or> c1 = c2 \<and> (h1 < h2 \<or> h1 = h2 \<and> o1 < o2)"

lemma rank_less_neg_trans: "\<not> rank_less a b \<Longrightarrow> rank_less c b \<Longrightarrow> \<not> rank_less a c"
  by (cases a; cases b; cases c) auto

lemma rank_less_irrefl: "\<not> rank_less a a"
  by (cases a) auto

lemma cmp_rtp_rank: "olsr_cmp_rtp cnf a b gw \<longleftrightarrow> rank_less (rtp_rank cnf gw a) (rtp_rank cnf gw b)"
  by (auto simp: olsr_cmp_rtp_def rtp_rank_def Let_def ip_memcmp_less_def word_less_nat_alt)

lemma rt_best_walk_least:
  assumes "\<forall>r\<in>set rs. rt_paths db r \<noteq> None"
  shows "\<exists>b. rt_best_walk cnf db rs best = Some b \<and> (b = best \<or> fst b \<in> set rs \<and> rt_paths db (fst b) = Some (snd b)) \<and>
    \<not> rank_less (rtp_rank cnf (current_inetgw db) best) (rtp_rank cnf (current_inetgw db) b) \<and>
    (\<forall>r\<in>set rs. \<not> rank_less (rtp_rank cnf (current_inetgw db) (r, the (rt_paths db r))) (rtp_rank cnf (current_inetgw db) b))"
  using assms
proof (induction rs arbitrary: best)
  case (Cons r rs)
  let ?k = "rtp_rank cnf (current_inetgw db)"
  from Cons.prems obtain rp where rp: "rt_paths db r = Some rp" by auto
  define best' where "best' = (if olsr_cmp_rtp cnf (r, rp) best (current_inetgw db) then (r, rp) else best)"
  from Cons.IH [of best'] Cons.prems obtain b where b: "rt_best_walk cnf db rs best' = Some b"
    "b = best' \<or> fst b \<in> set rs \<and> rt_paths db (fst b) = Some (snd b)" "\<not> rank_less (?k best') (?k b)"
    "\<forall>r\<in>set rs. \<not> rank_less (?k (r, the (rt_paths db r))) (?k b)" by auto
  have n: "\<not> rank_less (?k best) (?k best')" "\<not> rank_less (?k (r, rp)) (?k best')"
    using rank_less_neg_trans [of "?k best" "?k best" "?k (r, rp)"] rank_less_irrefl
    by (auto simp: best'_def cmp_rtp_rank)
  have "\<not> rank_less a (?k b)" if "\<not> rank_less a (?k best')" for a
    using that b(3) by (cases "?k best'"; cases "?k b"; cases a) auto
  with n b rp show ?case by (auto simp: best'_def)
qed (simp add: rank_less_irrefl)

text \<open>An entry keeps its prefix and its paths.\<close>

lemma upd_rt_ok:
  assumes ok: "lsdb_ok db" and f: "\<And>rt. rt_dst (f rt) = rt_dst rt \<and> rt_path_tree (f rt) = rt_path_tree rt"
  shows "lsdb_ok (upd_rt x f db)"
proof -
  let ?db = "upd_rt x f db"
  have k: "vertex_key ?db = vertex_key db" "edge_key ?db = edge_key db" "edge_ends ?db = edge_ends db"
    "entry_key ?db = entry_key db" "prefix_key ?db = prefix_key db" "path_key ?db = path_key db"
    using f by (auto simp: key_defs upd_rt_def fun_eq_iff option.map_comp comp_def split: option.splits)
  note D = lsdb_okD [OF ok]
  show ?thesis
  proof (rule lsdb_okI, goal_cases)
    case 1 show ?case using D(1) unfolding k by (simp add: upd_rt_def)
  next
    case (2 p tc) thus ?case using D(2) unfolding vertex_ok_def k by (simp add: upd_rt_def)
  next
    case (3 e ed) thus ?case using D(3) unfolding edge_wf_def k by (simp add: upd_rt_def)
  next
    case 4 show ?case using D(4) unfolding k by (simp add: upd_rt_def)
  next
    case (5 y rt) thus ?case using D(5) f unfolding k by (auto simp: upd_rt_def split: if_splits)
  next
    case (6 i rpi)
    hence "path_wf db rpi" by (intro D(6) [of i]) (simp add: upd_rt_def)
    thus ?case by (rule path_wf_mono) (simp_all add: k, simp add: upd_rt_def)
  next
    case (7 q) thus ?case using D(7) by (auto simp: allocated_def upd_rt_def split: if_splits)
  next
    case (8 q) thus ?case using D(8) by (simp add: upd_rt_def)
  qed
qed

lemma upd_rt_best_ok: "lsdb_ok db \<Longrightarrow> lsdb_ok (upd_rt x (\<lambda>rt. rt\<lparr>rt_best := b\<rparr>) db)"
  by (rule upd_rt_ok) simp_all

lemma gateway_ok:
  assumes ok: "lsdb_ok db" and g: "rt_paths db g \<noteq> None"
  shows "lsdb_ok (db\<lparr>current_inetgw := Some g\<rparr>)"
proof -
  let ?db = "db\<lparr>current_inetgw := Some g\<rparr>"
  have k: "vertex_key ?db = vertex_key db" "edge_key ?db = edge_key db" "edge_ends ?db = edge_ends db"
    "entry_key ?db = entry_key db" "prefix_key ?db = prefix_key db" "path_key ?db = path_key db"
    by (auto simp: key_defs fun_eq_iff split: option.splits)
  note D = lsdb_okD [OF ok]
  show ?thesis
  proof (rule lsdb_okI, goal_cases)
    case (2 p tc) thus ?case using D(2) unfolding vertex_ok_def k by simp
  next
    case (3 e ed) thus ?case using D(3) unfolding edge_wf_def k by simp
  next
    case (6 r rp)
    hence "path_wf db rp" by (intro D(6) [of r]) simp
    thus ?case by (rule path_wf_mono) (simp_all add: k)
  next
    case (7 q) thus ?case using D(7) by (simp add: allocated_def)
  next
    case (8 q) thus ?case using g by simp
  qed (use D(1,4,5) in \<open>simp_all add: k\<close>)
qed

end
