(* ===== verification/Olsr_Tc_Inv.thy ===== *)
theory Olsr_Tc_Inv
  imports Olsr_Rib_Inv
begin

text \<open>
  The operations of \<^verbatim>\<open>src/tc_set.c\<close> keep the invariant of the database and change the topology
  the way their comments promise: new edges and vertices, the deletion of a vertex with
  everything that hangs off it, expiry, and the processing of a whole TC message.
\<close>

section \<open>Adding an edge\<close>

text \<open>The lookups that find the reverse edge only need the trees of the topology.\<close>

definition topo_trees :: "'lq lsdb \<Rightarrow> bool" where
  "topo_trees db \<longleftrightarrow> indexes (tc_tree db) (vertex_key db) \<and>
     (\<forall>p tc. tcs db p = Some tc \<longrightarrow> indexes (edge_tree tc) (edge_key db p))"

lemma edge_ends_key:
  assumes ix: "indexes (tc_tree db) (vertex_key db)" and q: "tcs db q = Some tq"
  shows "edge_ends db i = Some (addr tq, d) \<longleftrightarrow> edge_key db q i = Some d"
proof
  assume "edge_ends db i = Some (addr tq, d)"
  then obtain ed t' where ed: "tc_edges db i = Some ed" "tcs db (edge_tc ed) = Some t'" "addr t' = addr tq" "T_dest_addr ed = d"
    by (auto simp: edge_ends_def split: option.splits)
  hence "edge_tc ed = q" using q by (intro indexes_inj [OF ix, of _ "addr tq"]) (simp_all add: vertex_key_def)
  with ed show "edge_key db q i = Some d" by (simp add: edge_key_def)
qed (use q edge_key_ends in blast)

lemma connect_inverse_lookup:
  assumes t: "topo_trees db" and p: "tcs db p = Some tc"
  shows "\<exists>rv. (\<forall>ei. rv = Some ei \<longleftrightarrow> edge_ends db ei = Some (dest, addr tc)) \<and>
    connect_inverse e p dest db = Some (case rv of
        None \<Rightarrow> db
      | Some ei \<Rightarrow> upd_edge e (\<lambda>ed. ed\<lparr>edge_inv := Some ei\<rparr>) (upd_edge ei (\<lambda>ed. ed\<lparr>edge_inv := Some e\<rparr>) db))"
proof -
  have v: "avl_find (tc_tree db) dest = Some q \<longleftrightarrow> vertex_key db q = Some dest" for q
    using t by (simp add: topo_trees_def indexes_find)
  show ?thesis
  proof (cases "avl_find (tc_tree db) dest")
    case None
    hence "vertex_key db q \<noteq> Some dest" for q using v by simp
    hence "edge_ends db ei \<noteq> Some (dest, addr tc)" for ei
      by (auto simp: edge_ends_def vertex_key_def split: option.splits)
    with None p show ?thesis
      by (intro exI [of _ None]) (simp add: connect_inverse_def olsr_lookup_tc_entry_def)
  next
    case (Some q)
    then obtain tq where tq: "tcs db q = Some tq" "addr tq = dest" using v by (auto simp: vertex_key_def)
    have ix: "indexes (edge_tree tq) (edge_key db q)" using t tq by (simp add: topo_trees_def)
    have ends: "edge_ends db ei = Some (dest, addr tc) \<longleftrightarrow> edge_key db q ei = Some (addr tc)" for ei
      using edge_ends_key [OF _ tq(1)] t tq(2) by (simp add: topo_trees_def)
    have live: "edge_key db q ei = Some d \<Longrightarrow> tc_edges db ei \<noteq> None" for ei d
      by (auto simp: edge_key_def split: option.splits)
    let ?rv = "avl_find (edge_tree tq) (addr tc)"
    have mem: "?rv = Some ei \<longleftrightarrow> edge_ends db ei = Some (dest, addr tc)" for ei unfolding ends by (rule indexes_find [OF ix])
    have "connect_inverse e p dest db = Some (case ?rv of
        None \<Rightarrow> db
      | Some ei \<Rightarrow> upd_edge e (\<lambda>ed. ed\<lparr>edge_inv := Some ei\<rparr>) (upd_edge ei (\<lambda>ed. ed\<lparr>edge_inv := Some e\<rparr>) db))"
    proof (cases ?rv)
      case None
      with Some p tq show ?thesis by (simp add: connect_inverse_def olsr_lookup_tc_entry_def olsr_lookup_tc_edge_def)
    next
      case (Some ei)
      hence "edge_key db q ei = Some (addr tc)" using mem ends by blast
      then obtain edi where "tc_edges db ei = Some edi" using live by blast
      with Some \<open>avl_find (tc_tree db) dest = Some q\<close> p tq show ?thesis
        by (simp add: connect_inverse_def olsr_lookup_tc_entry_def olsr_lookup_tc_edge_def)
    qed
    with mem show ?thesis by blast
  qed
qed

definition with_edge :: "ptr \<Rightarrow> tc_entry \<Rightarrow> (ptr \<rightharpoonup> 'lq tc_edge_entry) \<Rightarrow> 'lq lsdb \<Rightarrow> 'lq lsdb" where
  "with_edge p tc' E db = db\<lparr>tcs := (tcs db)(p \<mapsto> tc'), tc_edges := E, heap_next := Suc (heap_next db)\<rparr>"

lemma with_edge_keys:
  assumes ok: "lsdb_ok db" and p: "tcs db p = Some tc" "addr tc' = addr tc"
    and E: "\<And>i. map_option (\<lambda>ed. ed\<lparr>edge_inv := None\<rparr>) (E i) = ((edge_data db)(heap_next db \<mapsto> ed)) i" and ed: "edge_tc ed = p"
  shows "vertex_key (with_edge p tc' E db) = vertex_key db"
    "edge_data (with_edge p tc' E db) = (edge_data db)(heap_next db \<mapsto> ed)"
    "edge_key (with_edge p tc' E db) q = (if q = p then (edge_key db p)(heap_next db \<mapsto> T_dest_addr ed) else edge_key db q)"
    "edge_ends (with_edge p tc' E db) = (edge_ends db)(heap_next db \<mapsto> (addr tc, T_dest_addr ed))"
    "prefix_key (with_edge p tc' E db) = prefix_key db"
    "entry_key (with_edge p tc' E db) = entry_key db" "path_key (with_edge p tc' E db) = path_key db"
proof -
  show d: "edge_data (with_edge p tc' E db) = (edge_data db)(heap_next db \<mapsto> ed)"
    unfolding fun_eq_iff edge_data_def [of "with_edge p tc' E db"] using E by (simp add: with_edge_def)
  have ek: "edge_key d q i = (case edge_data d i of None \<Rightarrow> None | Some ed \<Rightarrow> if edge_tc ed = q then Some (T_dest_addr ed) else None)"
    for d :: "'a lsdb" and q i by (auto simp: edge_key_def edge_data_def split: option.splits)
  have ee: "edge_ends d i = (case edge_data d i of None \<Rightarrow> None | Some ed \<Rightarrow>
      (case vertex_key d (edge_tc ed) of None \<Rightarrow> None | Some a \<Rightarrow> Some (a, T_dest_addr ed)))"
    for d :: "'a lsdb" and i by (auto simp: edge_ends_def edge_data_def vertex_key_def split: option.splits)
  show v: "vertex_key (with_edge p tc' E db) = vertex_key db"
    using p by (auto simp: vertex_key_def with_edge_def fun_eq_iff)
  have n: "edge_data db (heap_next db) = None" using heap_next_free(2) [OF ok] by (simp add: edge_data_def)
  show "edge_key (with_edge p tc' E db) q = (if q = p then (edge_key db p)(heap_next db \<mapsto> T_dest_addr ed) else edge_key db q)"
    using ed n by (auto simp: ek d fun_eq_iff)
  show "edge_ends (with_edge p tc' E db) = (edge_ends db)(heap_next db \<mapsto> (addr tc, T_dest_addr ed))"
    unfolding fun_eq_iff ee d v using ed p by (simp add: vertex_key_def)
qed (auto simp: key_defs with_edge_def fun_eq_iff split: option.splits)

lemma with_edge_ok:
  assumes ok: "lsdb_ok db" and p: "tcs db p = Some tc" and ed: "edge_tc ed = p"
    and tc': "tc' = tc\<lparr>edge_tree := T, refcount := refcount tc + 1\<rparr>"
    and T: "indexes T ((edge_key db p)(heap_next db \<mapsto> T_dest_addr ed))" "length (avl_walk T) = Suc (length (avl_walk (edge_tree tc)))"
    and E: "\<And>i. map_option (\<lambda>ed. ed\<lparr>edge_inv := None\<rparr>) (E i) = ((edge_data db)(heap_next db \<mapsto> ed)) i"
    and inv: "\<And>i edi u v ei. E i = Some edi \<Longrightarrow> edge_ends (with_edge p tc' E db) i = Some (u, v) \<Longrightarrow>
      edge_inv edi = Some ei \<longleftrightarrow> edge_ends (with_edge p tc' E db) ei = Some (v, u)"
  shows "lsdb_ok (with_edge p tc' E db)"
proof -
  let ?db = "with_edge p tc' E db"
  have a: "addr tc' = addr tc" by (simp add: tc')
  note k = with_edge_keys [OF ok p a E ed] and D = lsdb_okD [OF ok]
  have live: "tcs db q \<noteq> None \<Longrightarrow> tcs ?db q \<noteq> None" for q by (simp add: with_edge_def)
  show ?thesis
  proof (rule lsdb_okI, goal_cases)
    case 1 show ?case using D(1) unfolding k by (simp add: with_edge_def)
  next
    case (2 q tq)
    show ?case
    proof (cases "q = p")
      case True
      with 2 have "tq = tc'" by (simp add: with_edge_def)
      with True T D(2) [OF p] show ?thesis unfolding vertex_ok_def k by (simp add: tc' ref_of_def)
    next
      case False
      with 2 D(2) [of q tq] show ?thesis unfolding vertex_ok_def k by (simp add: with_edge_def)
    qed
  next
    case (3 i edi)
    hence Ei: "E i = Some edi" by (simp add: with_edge_def)
    have "tcs ?db (edge_tc edi) \<noteq> None"
    proof (cases "i = heap_next db")
      case True
      with E [of i] Ei ed have "edge_tc edi = p" by auto
      thus ?thesis by (simp add: with_edge_def)
    next
      case False
      with E [of i] Ei obtain ed0 where "tc_edges db i = Some ed0" "edge_tc ed0 = edge_tc edi"
        by (cases "tc_edges db i") (auto simp: edge_data_def dest: arg_cong [where f = edge_tc])
      with D(3) [of i ed0] live show ?thesis by (simp add: edge_wf_def)
    qed
    with inv [OF Ei] show ?case unfolding edge_wf_def by blast
  next
    case 4 show ?case using D(4) unfolding k by (simp add: with_edge_def)
  next
    case (5 x rt) thus ?case using D(5) unfolding k by (simp add: with_edge_def)
  next
    case (6 r rp)
    hence "path_wf db rp" by (intro D(6) [of r]) (simp add: with_edge_def)
    thus ?case by (rule path_wf_mono) (use live k in simp_all)
  next
    case (7 q)
    have "E q \<noteq> None \<Longrightarrow> q = heap_next db \<or> tc_edges db q \<noteq> None"
      using E [of q] by (cases "tc_edges db q") (auto simp: edge_data_def split: if_splits)
    with 7 D(7) [of q] D(7) [of p] p show ?case by (auto simp: allocated_def with_edge_def split: if_splits)
  next
    case (8 r) thus ?case using D(8) by (simp add: with_edge_def)
  qed
qed

text \<open>A new edge: its ends, its data, and the cost computed from the memory it was allocated with.\<close>

definition new_edge :: "olsrd_config \<Rightarrow> 'lq tc_lq_handler \<Rightarrow> ptr \<Rightarrow> olsr_ip_addr \<Rightarrow> u16 \<Rightarrow> 'lq tc_edge_entry" where
  "new_edge cnf h p dest an = \<lparr>T_dest_addr = dest, edge_inv = None, edge_tc = p,
     cost = (if lq_level cnf < 1 then 0 else calc_tc_cost h (zeroed_tc_lq h)), edge_ansn = an, linkquality = zeroed_tc_lq h\<rparr>"

lemma add_edge_inverse:
  assumes ok: "lsdb_ok db" and n: "edge_ends db n = None"
    and new: "\<forall>i. edge_ends db i \<noteq> Some (u0, v0)" and ends: "ends = (edge_ends db)(n \<mapsto> (u0, v0))"
    and rv: "\<And>ei. rv = Some ei \<longleftrightarrow> ends ei = Some (v0, u0)"
    and i: "ends i = Some (u, v)" "i \<noteq> n \<Longrightarrow> tc_edges db i = Some ed0"
    and inv: "edge_inv edi = (if i = n then rv else if rv = Some i then Some n else edge_inv ed0)"
  shows "edge_inv edi = Some ei \<longleftrightarrow> ends ei = Some (v, u)"
proof (cases "i = n")
  case True
  with i ends inv rv show ?thesis by auto
next
  case False
  hence e: "edge_ends db i = Some (u, v)" using i ends by simp
  have "edge_wf db i ed0" using lsdb_okD(3) [OF ok] i(2) [OF False] by blast
  hence w: "edge_inv ed0 = Some ei \<longleftrightarrow> edge_ends db ei = Some (v, u)" for ei using e by (simp add: edge_wf_def)
  show ?thesis
  proof (cases "rv = Some i")
    case True
    hence "(u, v) = (v0, u0)" using rv [of i] i(1) by simp
    with True inv False new show ?thesis by (auto simp: ends)
  next
    case r: False
    hence "\<not> (u = v0 \<and> v = u0)" using rv [of i] i(1) by auto
    with r inv False w n show ?thesis by (auto simp: ends)
  qed
qed

lemma add_edge_ok:
  assumes ok: "lsdb_ok db" and p: "tcs db p = Some tc" and new: "\<forall>i. edge_key db p i \<noteq> Some dest"
  shows "\<exists>db'. olsr_add_tc_edge_entry cnf h p dest an db = Some (heap_next db, db') \<and> lsdb_ok db' \<and>
    edge_data db' = (edge_data db)(heap_next db \<mapsto> new_edge cnf h p dest an) \<and>
    edge_ends db' = (edge_ends db)(heap_next db \<mapsto> (addr tc, dest)) \<and> vertex_key db' = vertex_key db \<and>
    heap_next db' = Suc (heap_next db)"
proof -
  let ?e = "heap_next db"
  note D = lsdb_okD [OF ok] and free = heap_next_free [OF ok]
  have ix: "indexes (edge_tree tc) (edge_key db p)" using D(2) [OF p] by (simp add: vertex_ok_def)
  have "edge_key db p ?e = None" using free by (simp add: edge_key_def)
  from indexes_insert [OF ix this new, of False] obtain T where T: "avl_insert (edge_tree tc) dest ?e False = Some (T, 0)"
    "indexes T ((edge_key db p)(?e \<mapsto> dest))" "length (avl_walk T) = Suc (length (avl_walk (edge_tree tc)))" by blast
  define tc' where "tc' = tc\<lparr>edge_tree := T, refcount := refcount tc + 1\<rparr>"
  let ?new = "new_edge cnf h p dest an" and ?raw = "(new_edge cnf h p dest an)\<lparr>cost := 0\<rparr>"
  define db1 where "db1 = with_edge p tc' ((tc_edges db)(?e \<mapsto> ?raw)) db"
  have a: "addr tc' = addr tc" and edp: "edge_tc ?raw = p" "edge_tc ?new = p" "T_dest_addr ?raw = dest" "T_dest_addr ?new = dest"
    by (simp_all add: tc'_def new_edge_def)
  have E1: "map_option (\<lambda>ed. ed\<lparr>edge_inv := None\<rparr>) (((tc_edges db)(?e \<mapsto> ?raw)) i) = ((edge_data db)(?e \<mapsto> ?raw)) i" for i
    by (simp add: edge_data_def new_edge_def)
  note k1 = with_edge_keys [OF ok p a E1 edp(1), folded db1_def, unfolded edp]
  have tr: "topo_trees db1"
    unfolding topo_trees_def k1 using D(1) T(2) D(2) by (auto simp: db1_def with_edge_def vertex_ok_def tc'_def split: if_splits)
  have p1: "tcs db1 p = Some tc'" by (simp add: db1_def with_edge_def)
  from connect_inverse_lookup [OF tr p1, of dest ?e] obtain rv where rv: "\<And>ei. rv = Some ei \<longleftrightarrow> edge_ends db1 ei = Some (dest, addr tc)"
    and ci: "connect_inverse ?e p dest db1 = Some (case rv of
        None \<Rightarrow> db1
      | Some ei \<Rightarrow> upd_edge ?e (\<lambda>ed. ed\<lparr>edge_inv := Some ei\<rparr>) (upd_edge ei (\<lambda>ed. ed\<lparr>edge_inv := Some ?e\<rparr>) db1))" unfolding a by blast
  define E where "E i = (if i = ?e then Some (?new\<lparr>edge_inv := rv\<rparr>)
    else map_option (\<lambda>ed. if rv = Some i then ed\<lparr>edge_inv := Some ?e\<rparr> else ed) (tc_edges db i))" for i
  have E: "map_option (\<lambda>ed. ed\<lparr>edge_inv := None\<rparr>) (E i) = ((edge_data db)(?e \<mapsto> ?new)) i" for i
    by (cases "tc_edges db i") (auto simp: E_def edge_data_def new_edge_def)
  have Eu: "E(?e := x) = (case rv of None \<Rightarrow> tc_edges db
    | Some ei \<Rightarrow> (tc_edges db)(ei := map_option (\<lambda>ed. ed\<lparr>edge_inv := Some ?e\<rparr>) (tc_edges db ei)))(?e := x)" for x
    by (auto simp: E_def fun_eq_iff option.map_id [unfolded id_def] split: option.splits)
  note k = with_edge_keys [OF ok p a E edp(2), unfolded edp]
  have res: "olsr_add_tc_edge_entry cnf h p dest an db = Some (?e, with_edge p tc' E db)"
  proof -
    define db2 where "db2 = with_edge p tc' ((E(?e \<mapsto> ?raw\<lparr>edge_inv := rv\<rparr>))) db"
    have "connect_inverse ?e p dest db1 = Some db2"
    proof -
      have "(case rv of None \<Rightarrow> db1
        | Some ei \<Rightarrow> upd_edge ?e (\<lambda>ed. ed\<lparr>edge_inv := Some ei\<rparr>) (upd_edge ei (\<lambda>ed. ed\<lparr>edge_inv := Some ?e\<rparr>) db1)) = db2"
        by (cases rv) (auto simp: db1_def db2_def with_edge_def upd_edge_def Eu new_edge_def)
      thus ?thesis using ci by simp
    qed
    moreover have "db1 = (upd_tc p (\<lambda>tc. tc\<lparr>refcount := refcount tc + 1\<rparr>) (upd_tc p (\<lambda>tc. tc\<lparr>edge_tree := T\<rparr>) db))
        \<lparr>tc_edges := (tc_edges db)(?e \<mapsto> ?raw), heap_next := Suc ?e\<rparr>"
      using p by (simp add: db1_def with_edge_def tc'_def upd_tc_def)
    moreover have "olsr_calc_tc_edge_entry_etx cnf h ?e db2 = Some (\<not> lq_level cnf < 1, with_edge p tc' E db)"
    proof -
      have Ee: "E(?e \<mapsto> ?new\<lparr>edge_inv := rv\<rparr>) = E" by (simp add: E_def fun_eq_iff)
      have "olsr_calc_tc_edge_entry_etx cnf h ?e db2 =
          Some (\<not> lq_level cnf < 1, with_edge p tc' (E(?e \<mapsto> ?new\<lparr>edge_inv := rv\<rparr>)) db)"
        by (cases "lq_level cnf < 1") (simp_all only: olsr_calc_tc_edge_entry_etx_def db2_def with_edge_def upd_edge_def
            new_edge_def if_True if_False, simp_all)
      thus ?thesis unfolding Ee .
    qed
    ultimately show ?thesis
      using p T(1) by (simp add: olsr_add_tc_edge_entry_def olsr_lock_tc_entry_def new_edge_def)
  qed
  have "lsdb_ok (with_edge p tc' E db)"
  proof (rule with_edge_ok [OF ok p edp(2) tc'_def _ T(3) E])
    show "indexes T ((edge_key db p)(?e \<mapsto> T_dest_addr ?new))" using T(2) by (simp add: edp)
    fix i edi u v ei assume i: "E i = Some edi" "edge_ends (with_edge p tc' E db) i = Some (u, v)"
    obtain ed0 where ed0: "i \<noteq> ?e \<Longrightarrow> tc_edges db i = Some ed0" and
      inv: "edge_inv edi = (if i = ?e then rv else if rv = Some i then Some ?e else edge_inv ed0)"
      using i(1) by (cases "tc_edges db i") (auto simp: E_def split: if_splits)
    have n: "edge_ends db ?e = None" using free by (simp add: edge_ends_def)
    have nw: "\<forall>i. edge_ends db i \<noteq> Some (addr tc, dest)"
      using new edge_ends_key [OF D(1) p] by simp
    show "edge_inv edi = Some ei \<longleftrightarrow> edge_ends (with_edge p tc' E db) ei = Some (v, u)"
      using add_edge_inverse [OF ok n nw k(4) rv [unfolded k1 k(4) [symmetric]] i(2) ed0 inv] by blast
  qed
  with res k show ?thesis by (intro exI [of _ "with_edge p tc' E db"]) (simp add: with_edge_def [of p tc' E db])
qed

section \<open>Adding a vertex\<close>

definition with_vertex :: "(olsr_ip_addr, ptr) avl_tree \<Rightarrow> olsr_ip_addr \<Rightarrow> 'lq lsdb \<Rightarrow> 'lq lsdb" where
  "with_vertex T adr db = db\<lparr>tc_tree := T, tcs := (tcs db)(heap_next db \<mapsto> (new_tc_entry adr)\<lparr>refcount := 1\<rparr>),
     heap_next := Suc (heap_next db)\<rparr>"

lemma with_vertex_keys:
  assumes ok: "lsdb_ok db"
  shows "vertex_key (with_vertex T adr db) = (vertex_key db)(heap_next db \<mapsto> adr)"
    "edge_data (with_vertex T adr db) = edge_data db" "edge_key (with_vertex T adr db) = edge_key db"
    "edge_ends (with_vertex T adr db) = edge_ends db" "prefix_key (with_vertex T adr db) = prefix_key db"
    "entry_key (with_vertex T adr db) = entry_key db" "path_key (with_vertex T adr db) = path_key db"
proof -
  have "edge_tc ed \<noteq> heap_next db" if "tc_edges db e = Some ed" for e ed
    using lsdb_okD(3) [OF ok that] heap_next_free(1) [OF ok] by (auto simp: edge_wf_def)
  thus "edge_ends (with_vertex T adr db) = edge_ends db"
    by (auto simp: edge_ends_def with_vertex_def fun_eq_iff split: option.splits)
qed (auto simp: key_defs edge_data_def with_vertex_def new_tc_entry_def fun_eq_iff split: option.splits)

lemma with_vertex_ok:
  assumes ok: "lsdb_ok db" and T: "indexes T ((vertex_key db)(heap_next db \<mapsto> adr))"
  shows "lsdb_ok (with_vertex T adr db)"
proof -
  let ?db = "with_vertex T adr db" and ?p = "heap_next db"
  note k = with_vertex_keys [OF ok] and D = lsdb_okD [OF ok] and free = heap_next_free [OF ok]
  have live: "tcs db q \<noteq> None \<Longrightarrow> tcs ?db q \<noteq> None" for q by (simp add: with_vertex_def)
  have e0: "edge_key db ?p = (\<lambda>n. None)"
    using D(3) free(1) by (fastforce simp: edge_key_def edge_wf_def fun_eq_iff split: option.splits)
  have p0: "prefix_key db ?p = (\<lambda>n. None)"
    using D(6) free(1) by (fastforce simp: prefix_key_def path_wf_def fun_eq_iff split: option.splits)
  show ?thesis
  proof (rule lsdb_okI, goal_cases)
    case 1 show ?case using T unfolding k by (simp add: with_vertex_def)
  next
    case (2 q tq)
    show ?case
    proof (cases "q = ?p")
      case True
      with 2 have "tq = (new_tc_entry adr)\<lparr>refcount := 1\<rparr>" by (simp add: with_vertex_def)
      with True show ?thesis unfolding vertex_ok_def k by (simp add: e0 p0 new_tc_entry_def indexes_init ref_of_def avl_walk_init)
    next
      case False
      with 2 D(2) [of q tq] show ?thesis unfolding vertex_ok_def k by (simp add: with_vertex_def)
    qed
  next
    case (3 i edi)
    hence "edge_wf db i edi" by (intro D(3)) (simp add: with_vertex_def)
    thus ?case unfolding edge_wf_def k using live by blast
  next
    case 4 show ?case using D(4) unfolding k by (simp add: with_vertex_def)
  next
    case (5 x rt) thus ?case using D(5) unfolding k by (simp add: with_vertex_def)
  next
    case (6 r rp)
    hence "path_wf db rp" by (intro D(6) [of r]) (simp add: with_vertex_def)
    thus ?case by (rule path_wf_mono) (use live k in simp_all)
  next
    case (7 q)
    with D(7) [of q] show ?case by (auto simp: allocated_def with_vertex_def split: if_splits)
  next
    case (8 r) thus ?case using D(8) by (simp add: with_vertex_def)
  qed
qed

lemma lookup_vertex: "lsdb_ok db \<Longrightarrow> olsr_lookup_tc_entry adr db = Some p \<longleftrightarrow> vertex_key db p = Some adr"
  unfolding olsr_lookup_tc_entry_def by (rule indexes_find [OF lsdb_okD(1)])

lemma lookup_vertex_None: "lsdb_ok db \<Longrightarrow> olsr_lookup_tc_entry adr db = None \<longleftrightarrow> (\<forall>q. vertex_key db q \<noteq> Some adr)"
  unfolding olsr_lookup_tc_entry_def by (rule indexes_find_None [OF lsdb_okD(1)])

text \<open>\<open>olsr_insert_routing_table\<close> of a known vertex only adds the prefix.\<close>

lemma add_tc_entry_calls_insert:
  assumes "olsr_lookup_tc_entry adr db = Some q" "\<not> plen > maxplen cnf"
  shows "olsr_insert_routing_table cnf dst plen adr origin db =
    map_option (\<lambda>(r, db'). (Some r, db')) (insert_prefix cnf dst plen q origin db)"
  using assms by (cases "insert_prefix cnf dst plen q origin db")
    (auto simp: olsr_insert_routing_table_def olsr_locate_tc_entry_def)

definition vertex_added :: "olsr_ip_addr \<Rightarrow> ptr \<Rightarrow> 'lq lsdb \<Rightarrow> 'lq lsdb \<Rightarrow> bool" where
  "vertex_added adr p db db' \<longleftrightarrow> lsdb_ok db' \<and> vertex_key db' = (vertex_key db)(p \<mapsto> adr) \<and> edge_data db' = edge_data db \<and>
     edge_ends db' = edge_ends db \<and> heap_next db' \<le> heap_next db + 2"

lemma add_vertex_ok:
  assumes ok: "lsdb_ok db" and new: "\<forall>q. vertex_key db q \<noteq> Some adr" and m: "main_addr cnf \<noteq> all_zero cnf"
  shows "\<exists>db' r. olsr_add_tc_entry cnf adr db = Some (Some (heap_next db), db') \<and> vertex_added adr (heap_next db) db db' \<and>
    prefix_key db' (heap_next db) r = Some \<lparr>prefix = adr, prefix_len = maxplen cnf\<rparr>"
proof -
  let ?p = "heap_next db"
  have "vertex_key db ?p = None" using heap_next_free [OF ok] by (simp add: vertex_key_def)
  from indexes_insert [OF lsdb_okD(1) [OF ok] this new, of False] obtain T where
    T: "avl_insert (tc_tree db) adr ?p False = Some (T, 0)" "indexes T ((vertex_key db)(?p \<mapsto> adr))" by blast
  let ?db = "with_vertex T adr db"
  have ok1: "lsdb_ok ?db" by (rule with_vertex_ok [OF ok T(2)])
  have l: "olsr_lock_tc_entry ?p (db\<lparr>tc_tree := T, tcs := (tcs db)(?p \<mapsto> new_tc_entry adr), heap_next := ?p + 1\<rparr>) = Some ?db"
    by (simp add: olsr_lock_tc_entry_def upd_tc_def with_vertex_def new_tc_entry_def)
  have q: "olsr_lookup_tc_entry adr ?db = Some ?p" unfolding lookup_vertex [OF ok1] with_vertex_keys [OF ok] by simp
  have "tcs ?db ?p = Some ((new_tc_entry adr)\<lparr>refcount := 1\<rparr>)" by (simp add: with_vertex_def)
  from insert_prefix_ok [OF ok1 this, of cnf adr "maxplen cnf" OLSR_RT_ORIGIN_INT] obtain r db' where
    i: "insert_prefix cnf adr (maxplen cnf) ?p OLSR_RT_ORIGIN_INT ?db = Some (r, db')" "lsdb_ok db'" "grows ?db db'"
    "prefix_key db' ?p r = Some \<lparr>prefix = adr, prefix_len = maxplen cnf\<rparr>" by blast
  have "olsr_add_tc_entry cnf adr db = Some (Some ?p, db')"
    using m T(1) l q i(1) by (simp add: olsr_add_tc_entry_def ipequal_def)
  moreover have "vertex_added adr ?p db db'"
    using i(2,3) unfolding vertex_added_def grows_def with_vertex_keys [OF ok] by (simp add: with_vertex_def)
  ultimately show ?thesis using i(4) by blast
qed

lemma locate_vertex_ok:
  assumes ok: "lsdb_ok db" and m: "main_addr cnf \<noteq> all_zero cnf"
  shows "\<exists>p db'. olsr_locate_tc_entry cnf adr db = Some (Some p, db') \<and> vertex_added adr p db db' \<and>
    (olsr_lookup_tc_entry adr db \<noteq> None \<longrightarrow> db' = db)"
proof (cases "olsr_lookup_tc_entry adr db")
  case None
  hence "\<forall>q. vertex_key db q \<noteq> Some adr" using lookup_vertex_None [OF ok] by blast
  from add_vertex_ok [OF ok this m] None show ?thesis by (auto simp: olsr_locate_tc_entry_def)
next
  case (Some p)
  hence "vertex_added adr p db db" using ok by (auto simp: vertex_added_def lookup_vertex fun_upd_idem)
  with Some show ?thesis by (simp add: olsr_locate_tc_entry_def)
qed

section \<open>Deleting a vertex\<close>

definition dropped_vertex :: "ptr \<Rightarrow> (olsr_ip_addr, ptr) avl_tree \<Rightarrow> 'lq lsdb \<Rightarrow> 'lq lsdb" where
  "dropped_vertex p T db = db\<lparr>tc_tree := T, tcs := (tcs db)(p := None)\<rparr>"

lemma dropped_vertex_keys:
  assumes "edge_key db p = (\<lambda>n. None)"
  shows "vertex_key (dropped_vertex p T db) = (vertex_key db)(p := None)"
    "edge_data (dropped_vertex p T db) = edge_data db" "edge_key (dropped_vertex p T db) = edge_key db"
    "edge_ends (dropped_vertex p T db) = edge_ends db" "prefix_key (dropped_vertex p T db) = prefix_key db"
    "entry_key (dropped_vertex p T db) = entry_key db" "path_key (dropped_vertex p T db) = path_key db"
proof -
  have "edge_tc ed \<noteq> p" if "tc_edges db e = Some ed" for e ed
    using fun_cong [OF assms, of e] that by (auto simp: edge_key_def)
  thus "edge_ends (dropped_vertex p T db) = edge_ends db"
    by (auto simp: edge_ends_def dropped_vertex_def fun_eq_iff split: option.splits)
qed (auto simp: key_defs edge_data_def dropped_vertex_def fun_eq_iff split: option.splits)

lemma dropped_vertex_ok:
  assumes ok: "lsdb_ok db" and none: "edge_key db p = (\<lambda>n. None)" "prefix_key db p = (\<lambda>n. None)"
    and T: "indexes T ((vertex_key db)(p := None))"
  shows "lsdb_ok (dropped_vertex p T db)"
proof -
  let ?db = "dropped_vertex p T db"
  note k = dropped_vertex_keys [OF none(1)] and D = lsdb_okD [OF ok]
  have live: "tcs db q \<noteq> None \<Longrightarrow> q \<noteq> p \<Longrightarrow> tcs ?db q \<noteq> None" for q by (simp add: dropped_vertex_def)
  show ?thesis
  proof (rule lsdb_okI, goal_cases)
    case 1 show ?case using T unfolding k by (simp add: dropped_vertex_def)
  next
    case (2 q tq)
    thus ?case using D(2) [of q tq] unfolding vertex_ok_def k by (simp add: dropped_vertex_def split: if_splits)
  next
    case (3 i edi)
    hence e: "tc_edges db i = Some edi" by (simp add: dropped_vertex_def)
    hence "edge_tc edi \<noteq> p" using fun_cong [OF none(1), of i] by (auto simp: edge_key_def)
    with D(3) [OF e] live show ?case unfolding edge_wf_def k by blast
  next
    case 4 show ?case using D(4) unfolding k by (simp add: dropped_vertex_def)
  next
    case (5 x rt) thus ?case using D(5) unfolding k by (simp add: dropped_vertex_def)
  next
    case (6 r rp)
    hence r: "rt_paths db r = Some rp" by (simp add: dropped_vertex_def)
    hence "rtp_tc rp \<noteq> Some p" using fun_cong [OF none(2), of r] by (auto simp: prefix_key_def)
    with D(6) [OF r] live show ?case by (auto simp: path_wf_def k split: option.splits)
  next
    case (7 q)
    with D(7) [of q] show ?case by (auto simp: allocated_def dropped_vertex_def split: if_splits)
  next
    case (8 r) thus ?case using D(8) by (simp add: dropped_vertex_def)
  qed
qed

definition vertex_deleted :: "ptr \<Rightarrow> 'lq lsdb \<Rightarrow> 'lq lsdb \<Rightarrow> bool" where
  "vertex_deleted p db db' \<longleftrightarrow> lsdb_ok db' \<and> vertex_key db' = (vertex_key db)(p := None) \<and>
     (\<forall>i. edge_data db' i = (if edge_key db p i = None then edge_data db i else None)) \<and>
     (\<forall>i. edge_ends db' i = (if edge_key db p i = None then edge_ends db i else None)) \<and> heap_next db' = heap_next db"

lemma edge_key_data:
  "edge_key db p i = (case edge_data db i of None \<Rightarrow> None | Some ed \<Rightarrow> if edge_tc ed = p then Some (T_dest_addr ed) else None)"
  by (auto simp: edge_key_def edge_data_def split: option.splits)

lemma only_edges_vertex: "only_edges db db' \<Longrightarrow> vertex_key db' = vertex_key db"
proof
  fix q assume o: "only_edges db db'"
  show "vertex_key db' q = vertex_key db q"
    using only_edgesD(9,10) [OF o, of q] by (cases "tcs db q") (auto simp: vertex_key_def)
qed

lemma vertex_live: "vertex_key db p \<noteq> None \<longleftrightarrow> (\<exists>tc. tcs db p = Some tc)"
  by (simp add: vertex_key_def)

text \<open>The last reference is that of the tree itself.\<close>

lemma indexes_empty: "indexes T (\<lambda>n. None) \<Longrightarrow> avl_walk T = []"
  using indexes_walk [of T "\<lambda>n. None" "fst (hd (avl_walk T))" "snd (hd (avl_walk T))"] by (cases "avl_walk T") auto

lemma last_reference:
  assumes ok: "lsdb_ok db" and p: "tcs db p = Some tc" and none: "edge_key db p = (\<lambda>n. None)" "prefix_key db p = (\<lambda>n. None)"
  shows "refcount tc = 1"
proof -
  from lsdb_okD(2) [OF ok p] none have ix: "indexes (edge_tree tc) (\<lambda>n. None)" "indexes (prefix_tree tc) (\<lambda>n. None)"
    and r: "refcount tc = ref_of tc" by (simp_all add: vertex_ok_def)
  have "avl_walk (edge_tree tc) = []" "avl_walk (prefix_tree tc) = []"
    by (rule indexes_empty [OF ix(1)], rule indexes_empty [OF ix(2)])
  thus ?thesis using r by (simp add: ref_of_def)
qed

lemma delete_bare_vertex:
  assumes ok: "lsdb_ok db" and p: "tcs db p = Some tc" and none: "edge_key db p = (\<lambda>n. None)" "prefix_key db p = (\<lambda>n. None)"
  defines "db4 \<equiv> upd_tc p (\<lambda>tc. tc\<lparr>edge_gc_timer := None, validity_timer := None\<rparr>) db"
  shows "\<exists>T. avl_delete (tc_tree db4) p = Some T \<and> olsr_unlock_tc_entry p (db4\<lparr>tc_tree := T\<rparr>) = Some (dropped_vertex p T db) \<and>
    lsdb_ok (dropped_vertex p T db)"
proof -
  have "vertex_key db p = Some (addr tc)" using p by (simp add: vertex_key_def)
  from indexes_delete [OF lsdb_okD(1) [OF ok] this] obtain T where
    T: "avl_delete (tc_tree db) p = Some T" "indexes T ((vertex_key db)(p := None))" by blast
  have "olsr_unlock_tc_entry p (db4\<lparr>tc_tree := T\<rparr>) = Some (dropped_vertex p T db)"
    using p last_reference [OF ok p none] by (simp add: olsr_unlock_tc_entry_def db4_def dropped_vertex_def upd_tc_def)
  with T dropped_vertex_ok [OF ok none T(2)] show ?thesis by (simp add: db4_def)
qed

lemma delete_vertex_ok:
  assumes ok: "lsdb_ok db" and hp: "heap_next db < 2 ^ 31" and p: "tcs db p = Some tc"
  shows "\<exists>db'. olsr_delete_tc_entry cnf p db = Some db' \<and> vertex_deleted p db db'"
proof -
  let ?db = "db\<lparr>lsdb_calls := lsdb_calls db @ [Delete_gateway_entry (addr tc)]\<rparr>"
  have "lsdb_ok ?db" "heap_next ?db < 2 ^ 31" using ok hp by simp_all
  from delete_routing_table_ok [OF this, of cnf "addr tc" "maxplen cnf" "addr tc"] obtain db1 where
    d1: "olsr_delete_routing_table cnf (addr tc) (maxplen cnf) (addr tc) ?db = Some db1" "lsdb_ok db1" "same_graph ?db db1" by blast
  have s1: "vertex_key db1 = vertex_key db" "edge_data db1 = edge_data db" "edge_ends db1 = edge_ends db" "heap_next db1 < 2 ^ 31"
    "heap_next db1 = heap_next db"
    using d1(3) hp by (simp_all add: same_graph_def)
  obtain tc1 where tc1: "tcs db1 p = Some tc1" using s1(1) p vertex_live [of db1 p] vertex_live [of db p] by auto
  note f1 = edges_of_facts [OF d1(2) tc1]
  from delete_edges_ok [OF d1(2) s1(4) f1(1,2)] obtain db2 where
    d2: "foldM olsr_delete_tc_edge_entry (edges_of tc1) db1 = Some db2" "edges_deleted db1 (set (edges_of tc1)) db2" by blast
  note e2 = edges_deletedD [OF d2(2)]
  note o2 = only_edgesD [OF e2(2)]
  obtain tc2 where tc2: "tcs db2 p = Some tc2" using o2(9) [OF tc1] by blast
  note f2 = prefixes_of_facts [OF e2(1) tc2]
  have "heap_next db2 < 2 ^ 31" using o2(1) s1 by simp
  from delete_paths_ok [OF e2(1) this f2(1,2)] obtain db3 where
    d3: "foldM olsr_delete_rt_path (prefixes_of tc2) db2 = Some db3" "paths_deleted db2 (set (prefixes_of tc2)) db3" by blast
  hence e3: "lsdb_ok db3" "only_paths db2 db3" "\<And>r. rt_paths db3 r = (if r \<in> set (prefixes_of tc2) then None else rt_paths db2 r)"
    "edge_data db3 = edge_data db2" "edge_ends db3 = edge_ends db2" by (simp_all add: paths_deleted_def)
  obtain tc3 where tc3: "tcs db3 p = Some tc3" using only_pathsD(4) [OF e3(2) tc2] by blast
  have mem1: "e \<in> set (edges_of tc1) \<longleftrightarrow> edge_key db p e \<noteq> None" for e
    using f1(4) [of e] by (simp add: edge_key_data s1)
  have noe: "edge_key db3 p = (\<lambda>n. None)"
    using mem1 e2(3) by (auto simp: fun_eq_iff edge_key_data e3(4) s1(2) split: option.splits)
  have nop: "prefix_key db3 p = (\<lambda>n. None)"
    using f2(3) e3(3) by (auto simp: prefix_key_def fun_eq_iff split: option.splits)
  from delete_bare_vertex [OF e3(1) tc3 noe nop] obtain T where
    d4: "avl_delete (tc_tree (upd_tc p (\<lambda>tc. tc\<lparr>edge_gc_timer := None, validity_timer := None\<rparr>) db3)) p = Some T"
    "olsr_unlock_tc_entry p ((upd_tc p (\<lambda>tc. tc\<lparr>edge_gc_timer := None, validity_timer := None\<rparr>) db3)\<lparr>tc_tree := T\<rparr>) =
      Some (dropped_vertex p T db3)" "lsdb_ok (dropped_vertex p T db3)" by blast
  have "olsr_delete_tc_entry cnf p db = Some (dropped_vertex p T db3)"
    using p d1(1) tc1 d2(1) tc2 d3(1) tc3 d4(1,2) by (simp add: olsr_delete_tc_entry_def)
  moreover have "vertex_deleted p db (dropped_vertex p T db3)"
    using d4(3) e2(3,4) mem1 only_edges_vertex [OF e2(2)] only_paths_vertex [OF e3(2)] only_pathsD(1) [OF e3(2)] o2(1)
    unfolding vertex_deleted_def dropped_vertex_keys [OF noe] by (simp add: s1 e3 dropped_vertex_def)
  ultimately show ?thesis by blast
qed

end
