(* ===== verification/Olsr_Tc_Input.thy ===== *)
theory Olsr_Tc_Input
  imports Olsr_Tc_Inv
begin

text \<open>
  Processing a TC message (\<open>olsr_input_tc\<close> of \<^verbatim>\<open>src/tc_set.c\<close>): what the handler needs from the link
  quality plugin is the locale \<open>tc_lq_plugin\<close>; under it a message never makes the handler touch a
  freed object, and the advertised edges of its originator are exactly updated.
\<close>

section \<open>The advertised topology\<close>

text \<open>The abstract topology: \<open>u\<close> advertises \<open>v\<close>, last with the sequence number \<open>an\<close>.\<close>

definition advertises :: "'lq lsdb \<Rightarrow> olsr_ip_addr \<Rightarrow> olsr_ip_addr \<Rightarrow> u16 \<Rightarrow> bool" where
  "advertises db u v an \<longleftrightarrow>
     (\<exists>e ed. edge_ends db e = Some (u, v) \<and> edge_data db e = Some ed \<and> edge_ansn ed = an)"

text \<open>No edge costs more than a broken link.\<close>

definition costs_ok :: "'lq lsdb \<Rightarrow> bool" where
  "costs_ok db \<longleftrightarrow> (\<forall>e ed. edge_data db e = Some ed \<longrightarrow> cost ed \<le> LINK_COST_BROKEN)"

lemma costs_ok_upd: "costs_ok db \<Longrightarrow> edge_data db' = (edge_data db)(e \<mapsto> ed) \<Longrightarrow> cost ed \<le> LINK_COST_BROKEN \<Longrightarrow> costs_ok db'"
  by (simp add: costs_ok_def)

lemma costs_okD: "costs_ok db \<Longrightarrow> tc_edges db e = Some ed \<Longrightarrow> cost ed \<le> LINK_COST_BROKEN"
  unfolding costs_ok_def by (drule spec [of _ e], drule spec [of _ "ed\<lparr>edge_inv := None\<rparr>"]) (simp add: edge_data_def)

lemma costs_ok_sub: "costs_ok db \<Longrightarrow> (\<And>i. edge_data db' i = edge_data db i \<or> edge_data db' i = None) \<Longrightarrow> costs_ok db'"
  unfolding costs_ok_def by (metis option.discI)

lemma advertises_cong:
  "edge_ends db' = edge_ends db \<Longrightarrow> edge_data db' = edge_data db \<Longrightarrow> advertises db' = advertises db"
  by (simp add: advertises_def fun_eq_iff)

lemma advertises_upd_tc:
  assumes "\<And>tc. addr (f tc) = addr tc"
  shows "advertises (upd_tc p f db) = advertises db"
proof (rule advertises_cong)
  show "edge_ends (upd_tc p f db) = edge_ends db" by (rule upd_tc_keys(2) [OF assms])
qed (simp add: edge_data_def fun_eq_iff)

lemma edge_ends_data: "edge_ends db e = Some uv \<Longrightarrow> \<exists>ed. edge_data db e = Some ed"
  by (auto simp: edge_ends_def edge_data_def split: option.splits)

text \<open>One edge set to a sequence number.\<close>

lemma advertises_set:
  assumes ok: "lsdb_ok db'" and ends: "edge_ends db' = (edge_ends db)(e \<mapsto> (u, v))"
    and old: "edge_ends db e = None \<or> edge_ends db e = Some (u, v)"
    and data: "edge_data db' = (edge_data db)(e \<mapsto> ed)" "edge_ansn ed = an"
  shows "advertises db' x y an' \<longleftrightarrow> (if (x, y) = (u, v) then an' = an else advertises db x y an')"
proof (cases "(x, y) = (u, v)")
  case True
  have e: "edge_ends db' e = Some (u, v)" by (simp add: ends)
  have "edge_ends db' i = Some (u, v) \<longleftrightarrow> i = e" for i
    using edge_ends_inj [OF ok _ e] e by blast
  hence "advertises db' u v an' \<longleftrightarrow> (\<exists>ed. edge_data db' e = Some ed \<and> edge_ansn ed = an')" by (simp add: advertises_def)
  with True data show ?thesis by auto
next
  case False
  have "edge_ends db' i = Some (x, y) \<and> edge_data db' i = Some edi \<longleftrightarrow>
      edge_ends db i = Some (x, y) \<and> edge_data db i = Some edi" for i edi
    using False old by (cases "i = e") (auto simp: ends data(1))
  hence "advertises db' x y an' \<longleftrightarrow> advertises db x y an'" unfolding advertises_def by (simp only: conj_assoc [symmetric])
  with False show ?thesis by (simp only: if_False)
qed

lemma advertises_deleted:
  assumes "edges_deleted db D db'"
    "\<And>e ed. edge_ends db e = Some (u, v) \<Longrightarrow> edge_data db e = Some ed \<Longrightarrow> e \<in> D \<longleftrightarrow> Q (edge_ansn ed)"
  shows "advertises db' u v an \<longleftrightarrow> advertises db u v an \<and> \<not> Q an"
proof -
  have "edge_ends db' e = Some (u, v) \<and> edge_data db' e = Some ed \<longleftrightarrow>
      edge_ends db e = Some (u, v) \<and> edge_data db e = Some ed \<and> \<not> Q (edge_ansn ed)" for e ed
    using assms(2) [of e ed] unfolding edges_deletedD(3,4) [OF assms(1)] by auto
  thus ?thesis unfolding advertises_def conj_assoc [symmetric] by blast
qed

section \<open>Reading an address\<close>

lemma ip_of_bytes_family: "family_ok cnf (ip_of_bytes cnf bs)"
  by (simp add: family_ok_def ip_of_bytes_def)

lemma get_ipaddress_ok:
  "cur + ipsize cnf \<le> length buf \<Longrightarrow>
   pkt_get_ipaddress cnf buf cur = Some (ip_of_bytes cnf (take (ipsize cnf) (drop cur buf)), cur + ipsize cnf)"
  by (simp add: pkt_get_ipaddress_def get_bytes_def)

section \<open>The link quality plugin\<close>

lemma upd_edge_upd: "upd_edge e g (upd_edge e f db) = upd_edge e (g \<circ> f) db"
  by (simp add: upd_edge_def option.map_comp)

lemma calc_edge_etx:
  assumes "tc_edges db e \<noteq> None"
  shows "\<exists>c. olsr_calc_tc_edge_entry_etx cnf h e db = Some (\<not> lq_level cnf < 1, upd_edge e (\<lambda>ed. ed\<lparr>cost := c ed\<rparr>) db) \<and>
    (\<forall>ed. c ed = cost ed \<or> c ed = calc_tc_cost h (linkquality ed))"
proof -
  have "upd_edge e (\<lambda>ed. ed\<lparr>cost := cost ed\<rparr>) db = db" by (simp add: upd_edge_def option.map_id [unfolded id_def])
  hence "lq_level cnf < 1 \<Longrightarrow> ?thesis" by (intro exI [of _ cost]) (simp add: olsr_calc_tc_edge_entry_etx_def)
  moreover have "\<not> lq_level cnf < 1 \<Longrightarrow> ?thesis"
    using assms by (intro exI [of _ "\<lambda>ed. calc_tc_cost h (linkquality ed)"]) (auto simp: olsr_calc_tc_edge_entry_etx_def)
  ultimately show ?thesis by blast
qed

text \<open>An edge refreshed by a message.\<close>

definition edge_refreshed :: "olsr_ip_addr \<Rightarrow> olsr_ip_addr \<Rightarrow> u16 \<Rightarrow> 'lq lsdb \<Rightarrow> 'lq lsdb \<Rightarrow> bool" where
  "edge_refreshed u v an db db' \<longleftrightarrow> lsdb_ok db' \<and> vertex_key db' = vertex_key db \<and> heap_next db' \<le> Suc (heap_next db) \<and>
     (costs_ok db \<longrightarrow> costs_ok db') \<and>
     (\<forall>x y an'. advertises db' x y an' \<longleftrightarrow> (if (x, y) = (u, v) then an' = an else advertises db x y an'))"

lemma refresh_edge:
  assumes ok: "lsdb_ok db" and e: "edge_ends db e = Some (u, v)"
    and f: "\<And>ed. same_edge ed (f ed) \<and> edge_ansn (f ed) = an \<and> (cost (f ed) = cost ed \<or> cost (f ed) \<le> LINK_COST_BROKEN)"
  shows "edge_refreshed u v an db (upd_edge e f db)"
proof -
  have s: "\<And>ed. same_edge ed (f ed)" using f by blast
  have a: "\<And>ed. T_dest_addr (f ed) = T_dest_addr ed \<and> edge_tc (f ed) = edge_tc ed" using s by (simp add: same_edge_def)
  note k = upd_edge_keys [where f = f, OF a] and ok' = upd_edge_ok [where f = f, OF ok s]
  obtain ed where ed: "tc_edges db e = Some ed" using e by (auto simp: edge_ends_def split: option.splits)
  have d: "edge_data (upd_edge e f db) = (edge_data db)(e \<mapsto> (f ed)\<lparr>edge_inv := None\<rparr>)"
    using ed by (auto simp: edge_data_def fun_eq_iff)
  have ends: "edge_ends (upd_edge e f db) = (edge_ends db)(e \<mapsto> (u, v))" using e by (simp add: k fun_upd_idem)
  have "edge_ansn ((f ed)\<lparr>edge_inv := None\<rparr>) = an" using f [of ed] by simp
  moreover have "costs_ok db \<Longrightarrow> costs_ok (upd_edge e f db)"
    using f [of ed] costs_okD [OF _ ed] by (intro costs_ok_upd [OF _ d]) auto
  ultimately show ?thesis using advertises_set [OF ok' ends disjI2 [OF e] d] ok' k(1) by (simp add: edge_refreshed_def)
qed

text \<open>The neighbours a message lists, each followed by \<open>lqsize\<close> octets of link quality.\<close>

fun tc_neighbors :: "nat \<Rightarrow> olsrd_config \<Rightarrow> nat \<Rightarrow> u8 list \<Rightarrow> nat \<Rightarrow> nat \<Rightarrow> olsr_ip_addr list" where
  "tc_neighbors 0 cnf lqsize buf limit cur = []"
| "tc_neighbors (Suc n) cnf lqsize buf limit cur =
     (if cur < limit then ip_of_bytes cnf (take (ipsize cnf) (drop cur buf)) #
        tc_neighbors n cnf lqsize buf limit (cur + ipsize cnf + lqsize) else [])"

lemma same_vertex_live:
  assumes "vertex_key db' = vertex_key db" "tcs db p = Some tc"
  shows "\<exists>tc'. tcs db' p = Some tc' \<and> addr tc' = addr tc"
proof -
  have "vertex_key db' p = Some (addr tc)" using assms by (simp add: vertex_key_def [of db])
  thus ?thesis by (auto simp: vertex_key_def)
qed

text \<open>Several edges of one vertex refreshed.\<close>

definition edges_refreshed :: "olsr_ip_addr \<Rightarrow> olsr_ip_addr list \<Rightarrow> u16 \<Rightarrow> nat \<Rightarrow> 'lq lsdb \<Rightarrow> 'lq lsdb \<Rightarrow> bool" where
  "edges_refreshed u vs an n db db' \<longleftrightarrow> lsdb_ok db' \<and> vertex_key db' = vertex_key db \<and> heap_next db' \<le> heap_next db + n \<and>
     (costs_ok db \<longrightarrow> costs_ok db') \<and>
     (\<forall>x y an'. advertises db' x y an' \<longleftrightarrow> (if x = u \<and> y \<in> set vs then an' = an else advertises db x y an'))"

lemma edges_refreshed_none: "lsdb_ok db \<Longrightarrow> edges_refreshed u [] an n db db"
  by (simp add: edges_refreshed_def)

lemma edges_refreshed_Cons:
  "edge_refreshed u v an db db1 \<Longrightarrow> edges_refreshed u vs an n db1 db' \<Longrightarrow> edges_refreshed u (v # vs) an (Suc n) db db'"
  by (auto simp: edges_refreshed_def edge_refreshed_def)

lemma edges_refreshed_more: "edges_refreshed u vs an n db db' \<Longrightarrow> n \<le> m \<Longrightarrow> edges_refreshed u vs an m db db'"
  by (simp add: edges_refreshed_def)

lemma refreshed_flag:
  "edge_refreshed u v an db db' \<Longrightarrow> edge_refreshed u v an db (db'\<lparr>changes_topology := b\<rparr>)"
  by (simp add: edge_refreshed_def advertises_def costs_ok_def)

lemma ipsize_pos: "0 < ipsize cnf"
  by (simp add: ipsize_def)

text \<open>The first and the last neighbour of a message.\<close>

definition span_of :: "(olsr_ip_addr \<times> olsr_ip_addr) option \<Rightarrow> olsr_ip_addr list \<Rightarrow> (olsr_ip_addr \<times> olsr_ip_addr) option" where
  "span_of bo vs = (if vs = [] then bo else Some (case bo of None \<Rightarrow> hd vs | Some (lo, _) \<Rightarrow> lo, last vs))"

definition borders_ok :: "olsrd_config \<Rightarrow> (olsr_ip_addr \<times> olsr_ip_addr) option \<Rightarrow> bool" where
  "borders_ok cnf bo = (case bo of None \<Rightarrow> True | Some (lo, up) \<Rightarrow> family_ok cnf lo \<and> family_ok cnf up)"

locale tc_lq_plugin =
  fixes h :: "'lq tc_lq_handler" and lqsize :: nat
  assumes reads: "cur + lqsize \<le> length buf \<Longrightarrow> \<exists>l. deserialize_tc_lq h buf cur l0 = Some (l, cur + lqsize)"
    and cost_le: "calc_tc_cost h l \<le> LINK_COST_BROKEN"
begin

lemma update_edge_known:
  assumes ok: "lsdb_ok db" and p: "tcs db p = Some tc" and len: "cur + ipsize cnf + lqsize \<le> length buf"
    and nb: "nb = ip_of_bytes cnf (take (ipsize cnf) (drop cur buf))" and e: "avl_find (edge_tree tc) nb = Some e"
  shows "\<exists>db'. olsr_tc_update_edge cnf h deny p an buf cur db =
      Some (\<not> lq_level cnf < 1, nb, cur + ipsize cnf + (if lq_level cnf > 0 then lqsize else 0), db') \<and>
    edge_refreshed (addr tc) nb an db db'"
proof -
  have "indexes (edge_tree tc) (edge_key db p)" using lsdb_okD(2) [OF ok p] by (simp add: vertex_ok_def)
  hence "edge_key db p e = Some nb" using e by (simp add: indexes_find)
  hence ends: "edge_ends db e = Some (addr tc, nb)" by (rule edge_key_ends [OF p])
  then obtain ed where ed: "tc_edges db e = Some ed" by (auto simp: edge_ends_def split: option.splits)
  obtain l where l: "deserialize_tc_lq h buf (cur + ipsize cnf) (linkquality ed) = Some (l, cur + ipsize cnf + lqsize)"
    using reads [OF len] by blast
  let ?l = "if lq_level cnf > 0 then l else linkquality ed"
  let ?db = "upd_edge e (\<lambda>ed. ed\<lparr>edge_ansn := an, linkquality := ?l\<rparr>) db"
  have "tc_edges ?db e \<noteq> None" using ed by simp
  from calc_edge_etx [OF this] obtain c where
    c: "olsr_calc_tc_edge_entry_etx cnf h e ?db = Some (\<not> lq_level cnf < 1, upd_edge e (\<lambda>ed. ed\<lparr>cost := c ed\<rparr>) ?db)"
    "\<And>ed. c ed = cost ed \<or> c ed = calc_tc_cost h (linkquality ed)" by blast
  have "edge_refreshed (addr tc) nb an db (upd_edge e (\<lambda>ed. ed\<lparr>cost := c ed\<rparr>) ?db)"
    unfolding upd_edge_upd
  proof (rule refresh_edge [OF ok ends], goal_cases)
    case (1 ed)
    thus ?case using c(2) [of "ed\<lparr>edge_ansn := an, linkquality := ?l\<rparr>"] cost_le by (auto simp: same_edge_def)
  qed
  moreover have "olsr_tc_update_edge cnf h deny p an buf cur db =
      Some (\<not> lq_level cnf < 1, nb, cur + ipsize cnf + (if lq_level cnf > 0 then lqsize else 0),
        upd_edge e (\<lambda>ed. ed\<lparr>cost := c ed\<rparr>) ?db)"
    using p e ed l c(1) len nb
    by (cases "lq_level cnf > 0") (simp_all add: olsr_tc_update_edge_def get_ipaddress_ok olsr_lookup_tc_edge_def)
  ultimately show ?thesis by blast
qed

lemma update_edge_new:
  assumes ok: "lsdb_ok db" and p: "tcs db p = Some tc" and len: "cur + ipsize cnf + lqsize \<le> length buf"
    and nb: "nb = ip_of_bytes cnf (take (ipsize cnf) (drop cur buf))" and e: "avl_find (edge_tree tc) nb = None"
    and v: "olsr_validate_address deny nb"
  shows "\<exists>db'. olsr_tc_update_edge cnf h deny p an buf cur db = Some (True, nb, cur + ipsize cnf + lqsize, db') \<and>
    edge_refreshed (addr tc) nb an db db'"
proof -
  have "indexes (edge_tree tc) (edge_key db p)" using lsdb_okD(2) [OF ok p] by (simp add: vertex_ok_def)
  hence "\<forall>i. edge_key db p i \<noteq> Some nb" using e by (simp add: indexes_find_None)
  from add_edge_ok [OF ok p this, of cnf h an] obtain db1 where
    a: "olsr_add_tc_edge_entry cnf h p nb an db = Some (heap_next db, db1)" "lsdb_ok db1"
    "edge_data db1 = (edge_data db)(heap_next db \<mapsto> new_edge cnf h p nb an)"
    "edge_ends db1 = (edge_ends db)(heap_next db \<mapsto> (addr tc, nb))" "vertex_key db1 = vertex_key db"
    "heap_next db1 = Suc (heap_next db)" by blast
  let ?e = "heap_next db"
  have n: "edge_ends db ?e = None" using heap_next_free [OF ok] by (simp add: edge_ends_def)
  have r1: "edge_refreshed (addr tc) nb an db db1"
    using advertises_set [OF a(2,4) disjI1 [OF n] a(3), of an] costs_ok_upd [OF _ a(3)] cost_le a(2,5,6)
    by (simp add: edge_refreshed_def new_edge_def)
  obtain ed where ed: "tc_edges db1 ?e = Some ed" "edge_ansn ed = an"
    using fun_cong [OF a(3), of ?e] by (auto simp: edge_data_def new_edge_def dest: arg_cong [where f = edge_ansn])
  obtain l where l: "deserialize_tc_lq h buf (cur + ipsize cnf) (linkquality ed) = Some (l, cur + ipsize cnf + lqsize)"
    using reads [OF len] by blast
  let ?db = "upd_edge ?e (\<lambda>ed. ed\<lparr>linkquality := l\<rparr>) db1"
  have "?db = upd_edge ?e (\<lambda>ed. ed\<lparr>edge_ansn := an, linkquality := l\<rparr>) db1"
    using ed by (cases ed) (simp add: upd_edge_def)
  moreover have "edge_refreshed (addr tc) nb an db1 \<dots>"
    by (rule refresh_edge [OF a(2)]) (simp_all add: a(4) same_edge_def)
  ultimately have "edge_refreshed (addr tc) nb an db ?db"
    using r1 a(6) by (simp add: edge_refreshed_def)
  moreover have "olsr_tc_update_edge cnf h deny p an buf cur db = Some (True, nb, cur + ipsize cnf + lqsize, ?db)"
    using p e ed(1) l a(1) len nb v by (simp add: olsr_tc_update_edge_def get_ipaddress_ok olsr_lookup_tc_edge_def)
  ultimately show ?thesis by blast
qed

text \<open>One pass: the edge is refreshed, or the address is refused and nothing changes.\<close>

lemma update_edge_ok:
  assumes ok: "lsdb_ok db" and p: "tcs db p = Some tc" and len: "cur + ipsize cnf + lqsize \<le> length buf"
    and nb: "nb = ip_of_bytes cnf (take (ipsize cnf) (drop cur buf))"
  obtains changed cur' db' vs where "olsr_tc_update_edge cnf h deny p an buf cur db = Some (changed, nb, cur', db')"
    "cur < cur'" "vs = [nb] \<and> edge_refreshed (addr tc) nb an db db' \<or> vs = [] \<and> db' = db"
    "olsr_validate_address deny nb \<Longrightarrow> lq_level cnf > 0 \<Longrightarrow> vs = [nb] \<and> cur' = cur + ipsize cnf + lqsize"
proof (cases "avl_find (edge_tree tc) nb")
  case (Some e)
  from update_edge_known [OF ok p len nb this] that [where vs = "[nb]"] show ?thesis using ipsize_pos [of cnf] by force
next
  case None
  show ?thesis
  proof (cases "olsr_validate_address deny nb")
    case True
    from update_edge_new [OF ok p len nb None this] that [where vs = "[nb]"] show ?thesis using ipsize_pos [of cnf] by force
  next
    case False
    have "olsr_tc_update_edge cnf h deny p an buf cur db = Some (False, nb, cur + ipsize cnf, db)"
      using False None p len nb by (simp add: olsr_tc_update_edge_def get_ipaddress_ok olsr_lookup_tc_edge_def)
    from that [where vs = "[]", OF this] False show ?thesis using ipsize_pos [of cnf] by force
  qed
qed

lemma edge_loop_ok:
  assumes "lsdb_ok db" "tcs db p = Some tc" "limit - cur \<le> n" "limit + ipsize cnf + lqsize \<le> length buf" "borders_ok cnf bo"
  shows "\<exists>bo' db' vs. tc_edge_loop n cnf h deny p an buf limit cur db bo = Some (bo', db') \<and>
    edges_refreshed (addr tc) vs an (limit - cur) db db' \<and> borders_ok cnf bo' \<and>
    (bo' = None \<longleftrightarrow> bo = None \<and> \<not> cur < limit) \<and>
    (list_all (olsr_validate_address deny) (tc_neighbors n cnf lqsize buf limit cur) \<and> lq_level cnf > 0 \<longrightarrow>
      vs = tc_neighbors n cnf lqsize buf limit cur \<and> bo' = span_of bo vs)"
  using assms
proof (induction n arbitrary: cur db bo tc)
  case 0
  thus ?case by (simp add: tc_edge_loop.simps [of 0] edges_refreshed_none span_of_def exI [of _ "[]"])
next
  case (Suc n)
  show ?case
  proof (cases "cur < limit")
    case False
    with Suc.prems show ?thesis by (simp add: tc_edge_loop.simps [of "Suc n"] edges_refreshed_none span_of_def exI [of _ "[]"])
  next
    case True
    let ?nb = "ip_of_bytes cnf (take (ipsize cnf) (drop cur buf))"
    have len: "cur + ipsize cnf + lqsize \<le> length buf" using True Suc.prems(4) by simp
    obtain changed cur' db1 ws where u: "olsr_tc_update_edge cnf h deny p an buf cur db = Some (changed, ?nb, cur', db1)"
      "cur < cur'" and w: "ws = [?nb] \<and> edge_refreshed (addr tc) ?nb an db db1 \<or> ws = [] \<and> db1 = db"
      and v: "olsr_validate_address deny ?nb \<Longrightarrow> lq_level cnf > 0 \<Longrightarrow> ws = [?nb] \<and> cur' = cur + ipsize cnf + lqsize"
      using update_edge_ok [OF Suc.prems(1,2) len refl, of deny an] by metis
    define db2 where "db2 = (if changed then db1\<lparr>changes_topology := True\<rparr> else db1)"
    let ?bo = "Some (case bo of None \<Rightarrow> ?nb | Some (lo, _) \<Rightarrow> lo, ?nb)"
    have ok2: "lsdb_ok db2" "vertex_key db2 = vertex_key db"
      using w Suc.prems(1) by (auto simp: db2_def edge_refreshed_def)
    obtain tc2 where tc2: "tcs db2 p = Some tc2" "addr tc2 = addr tc" using same_vertex_live [OF ok2(2) Suc.prems(2)] by blast
    have lim: "limit - cur' \<le> n" using u(2) Suc.prems(3) by simp
    have "borders_ok cnf ?bo" using Suc.prems(5) by (auto simp: borders_ok_def ip_of_bytes_family split: option.splits)
    from Suc.IH [OF ok2(1) tc2(1) lim Suc.prems(4) this] obtain bo' db' vs where
      l: "tc_edge_loop n cnf h deny p an buf limit cur' db2 ?bo = Some (bo', db')"
      "edges_refreshed (addr tc) vs an (limit - cur') db2 db'" "borders_ok cnf bo'" "bo' = None \<longleftrightarrow> ?bo = None \<and> \<not> cur' < limit"
      "list_all (olsr_validate_address deny) (tc_neighbors n cnf lqsize buf limit cur') \<and> lq_level cnf > 0 \<longrightarrow>
        vs = tc_neighbors n cnf lqsize buf limit cur' \<and> bo' = span_of ?bo vs" unfolding tc2(2) by blast
    have "edges_refreshed (addr tc) (ws @ vs) an (limit - cur) db db'"
    proof (cases "ws = []")
      case True
      with w have "db2 = db \<or> db2 = db\<lparr>changes_topology := True\<rparr>" by (auto simp: db2_def)
      with True l(2) u(2) show ?thesis by (auto simp: edges_refreshed_def advertises_def costs_ok_def)
    next
      case False
      with w have r: "ws = [?nb]" "edge_refreshed (addr tc) ?nb an db db2" by (auto simp: db2_def refreshed_flag)
      have "Suc (limit - cur') \<le> limit - cur" using u(2) \<open>cur < limit\<close> by simp
      with edges_refreshed_Cons [OF r(2) l(2)] r(1) edges_refreshed_more show ?thesis by fastforce
    qed
    moreover have "tc_edge_loop (Suc n) cnf h deny p an buf limit cur db bo = Some (bo', db')"
      using True u(1) l(1) by (simp add: tc_edge_loop.simps [of "Suc n"] db2_def)
    moreover have "list_all (olsr_validate_address deny) (tc_neighbors (Suc n) cnf lqsize buf limit cur) \<and> lq_level cnf > 0 \<longrightarrow>
      ws @ vs = tc_neighbors (Suc n) cnf lqsize buf limit cur \<and> bo' = span_of bo (ws @ vs)"
      using l(5) v True by (auto simp: span_of_def split: option.splits)
    moreover have "bo' \<noteq> None" using l(4) by simp
    ultimately show ?thesis using l(3) True by (intro exI [of _ bo'] exI [of _ db'] exI [of _ "ws @ vs"]) blast
  qed
qed

end

section \<open>Borders\<close>

definition border_flag_ok :: "olsrd_config \<Rightarrow> u8 \<Rightarrow> bool" where
  "border_flag_ok cnf f \<longleftrightarrow> f = 0xff \<or> 1 \<le> unat f \<and> unat f \<le> 8 * ipsize cnf"

definition border_flags_ok :: "olsrd_config \<Rightarrow> u8 \<Rightarrow> u8 \<Rightarrow> bool" where
  "border_flags_ok cnf lower upper \<longleftrightarrow> lower = 0 \<and> upper = 0 \<or> border_flag_ok cnf lower \<and> border_flag_ok cnf upper"

lemma u8_pred: "f \<noteq> 0 \<Longrightarrow> unat (f - 1 :: u8) = unat f - 1"
  by (simp add: unat_minus_one)

lemma border_mask_cases:
  assumes "length bs = ipsize cnf" "f \<noteq> 0xff"
  shows "border_mask f bs = None \<longleftrightarrow> \<not> border_flag_ok cnf f"
proof (cases "f = 0")
  case True
  have "unat (- 1 :: u8) = 255" by (simp add: unsigned_minus_1_eq_mask mask_eq_exp_minus_1)
  with True show ?thesis using assms by (simp add: border_mask_def border_flag_ok_def ipsize_def Let_def)
next
  case False
  hence "1 \<le> unat f" by (simp add: unat_gt_0 Suc_leI)
  with False assms show ?thesis by (auto simp: border_mask_def border_flag_ok_def u8_pred Let_def)
qed

lemma family_length: "family_ok cnf a \<Longrightarrow> length (ip_bytes a) = ipsize cnf"
  using ip_of_bytes_id by blast

lemma calculate_tc_border_None:
  assumes "family_ok cnf lo" "family_ok cnf up"
  shows "olsr_calculate_tc_border cnf l lo u up = None \<longleftrightarrow> \<not> border_flags_ok cnf l u"
proof -
  have "border_flag_ok cnf 0xff" by (simp add: border_flag_ok_def)
  moreover have "\<not> border_flag_ok cnf 0" by (simp add: border_flag_ok_def)
  moreover have "l \<noteq> 0xff \<Longrightarrow> border_mask l (ip_bytes lo) = None \<longleftrightarrow> \<not> border_flag_ok cnf l"
    "u \<noteq> 0xff \<Longrightarrow> border_mask u (ip_bytes up) = None \<longleftrightarrow> \<not> border_flag_ok cnf u"
    using border_mask_cases family_length assms by blast+
  ultimately show ?thesis
    by (cases "border_mask l (ip_bytes lo)"; cases "border_mask u (ip_bytes up)")
      (auto simp: olsr_calculate_tc_border_def border_flags_ok_def)
qed

lemma tc_borders_ok:
  assumes "borders_ok cnf bo" "bo \<noteq> None \<longrightarrow> border_flags_ok cnf (tc_lower hdr) (tc_upper hdr)"
  shows "\<exists>bs. tc_borders cnf hdr emptyTC bo = Some bs"
proof (cases bo)
  case (Some b)
  with assms have "olsr_calculate_tc_border cnf (tc_lower hdr) (fst b) (tc_upper hdr) (snd b) \<noteq> None"
    by (simp add: calculate_tc_border_None borders_ok_def split_beta)
  with Some show ?thesis by (cases b) (auto simp: tc_borders_def)
qed (simp add: tc_borders_def)

section \<open>Revoked edges\<close>

lemma delete_revoked_ok:
  assumes ok: "lsdb_ok db" and hp: "heap_next db < 2 ^ 31" and p: "tcs db p = Some tc"
  shows "\<exists>ret db'. olsr_delete_revoked_tc_edges p an lower upper db = Some (ret, db') \<and> lsdb_ok db' \<and>
    vertex_key db' = vertex_key db \<and> heap_next db' = heap_next db \<and> (costs_ok db \<longrightarrow> costs_ok db') \<and>
    (\<forall>x y an'. advertises db' x y an' \<longleftrightarrow>
      advertises db x y an' \<and> \<not> (x = addr tc \<and> lower \<le> y \<and> y < upper \<and> SEQNO_GREATER_THAN an an'))"
proof -
  note f = edges_of_facts [OF ok p]
  let ?D = "{e \<in> set (edges_of tc). revoked an lower upper db e}"
  from revoke_edges_ok [OF ok hp f(1-3), of False lower an upper False] obtain db1 where
    r: "revoke_edges an lower upper (edges_of tc) False False db = Some (\<exists>e\<in>set (edges_of tc). revoked an lower upper db e, db1)"
    "edges_deleted db ?D db1" by auto
  let ?db = "if \<exists>e\<in>set (edges_of tc). revoked an lower upper db e then db1\<lparr>changes_topology := True\<rparr> else db1"
  have res: "olsr_delete_revoked_tc_edges p an lower upper db = Some (\<exists>e\<in>set (edges_of tc). revoked an lower upper db e, ?db)"
    using p r(1) by (simp add: olsr_delete_revoked_tc_edges_def)
  note d = edges_deletedD [OF r(2)]
  have "advertises db1 x y an' \<longleftrightarrow> advertises db x y an' \<and>
      \<not> (x = addr tc \<and> lower \<le> y \<and> y < upper \<and> SEQNO_GREATER_THAN an an')" for x y an'
  proof (rule advertises_deleted [OF r(2)])
    fix e ed assume e: "edge_ends db e = Some (x, y)" "edge_data db e = Some ed"
    have "e \<in> set (edges_of tc) \<longleftrightarrow> x = addr tc"
      using f(4) [of e] edge_ends_key [OF lsdb_okD(1) [OF ok] p, of e] e(1) by auto
    moreover have "dest_of db e = y" using e by (auto simp: dest_of_def edge_ends_def edge_data_def split: option.splits)
    ultimately show "e \<in> ?D \<longleftrightarrow> x = addr tc \<and> lower \<le> y \<and> y < upper \<and> SEQNO_GREATER_THAN an (edge_ansn ed)"
      using e(2) by (auto simp: revoked_def outdated_def)
  qed
  moreover have "lsdb_ok ?db" "vertex_key ?db = vertex_key db" "heap_next ?db = heap_next db" "advertises ?db = advertises db1"
    using d(1) only_edges_vertex [OF d(2)] only_edgesD(1) [OF d(2)] by (simp_all add: advertises_def fun_eq_iff)
  moreover have "costs_ok db \<Longrightarrow> costs_ok ?db"
    by (rule costs_ok_sub) (auto simp: d(3))
  ultimately show ?thesis using res by auto
qed

lemma advertises_vertex_deleted:
  assumes ok: "lsdb_ok db" and p: "tcs db p = Some tc" and d: "vertex_deleted p db db'"
  shows "advertises db' x y an \<longleftrightarrow> advertises db x y an \<and> x \<noteq> addr tc"
proof -
  from d have k: "\<And>i. edge_data db' i = (if edge_key db p i = None then edge_data db i else None)"
    "\<And>i. edge_ends db' i = (if edge_key db p i = None then edge_ends db i else None)" by (auto simp: vertex_deleted_def)
  have e: "edge_ends db i = Some (x, y) \<Longrightarrow> edge_key db p i = None \<longleftrightarrow> x \<noteq> addr tc" for i
    using edge_key_ends [OF p, of i] edge_ends_key [OF lsdb_okD(1) [OF ok] p, of i y]
    by (cases "edge_key db p i") auto
  have "edge_ends db' i = Some (x, y) \<and> edge_data db' i = Some ed \<longleftrightarrow>
      edge_ends db i = Some (x, y) \<and> edge_data db i = Some ed \<and> x \<noteq> addr tc" for i ed
    unfolding k using e [of i] by auto
  thus ?thesis unfolding advertises_def conj_assoc [symmetric] by blast
qed

text \<open>The edges that a message takes back.\<close>

definition withdrawn :: "olsr_ip_addr \<Rightarrow> u16 \<Rightarrow> bool \<Rightarrow> (olsr_ip_addr \<times> olsr_ip_addr) option \<Rightarrow> olsr_ip_addr \<Rightarrow> olsr_ip_addr \<Rightarrow> u16 \<Rightarrow> bool" where
  "withdrawn u an emptyTC bs x y an' \<longleftrightarrow> x = u \<and> (case bs of
       None \<Rightarrow> False
     | Some (lo, up) \<Rightarrow> emptyTC \<or> lo \<le> y \<and> y < up \<and> SEQNO_GREATER_THAN an an')"

lemma tc_finish_ok:
  assumes ok: "lsdb_ok db" and hp: "heap_next db < 2 ^ 31" and p: "tcs db p = Some tc" and bo: "borders_ok cnf bo"
    and fl: "bo \<noteq> None \<longrightarrow> border_flags_ok cnf (tc_lower hdr) (tc_upper hdr)"
  shows "\<exists>bs db'. tc_borders cnf hdr emptyTC bo = Some bs \<and> tc_finish cnf hdr emptyTC p bo db = Some db' \<and> lsdb_ok db' \<and>
    (costs_ok db \<longrightarrow> costs_ok db') \<and>
    (\<forall>x y an'. advertises db' x y an' \<longleftrightarrow>
      advertises db x y an' \<and> \<not> withdrawn (addr tc) (tc_ansn hdr) emptyTC bs x y an')"
proof -
  obtain bs where bs: "tc_borders cnf hdr emptyTC bo = Some bs" using tc_borders_ok [OF bo fl] by blast
  define db1 where "db1 = upd_tc p (\<lambda>tc. tc\<lparr>validity_timer := Some (tc_vtime hdr)\<rparr>) db"
  have ok1: "lsdb_ok db1" unfolding db1_def by (rule upd_tc_ok [OF ok]) (simp add: same_vertex_def)
  have a1: "advertises db1 = advertises db" unfolding db1_def by (rule advertises_upd_tc) simp
  have c1: "costs_ok db1 = costs_ok db" by (simp add: costs_ok_def edge_data_def db1_def)
  obtain tc1 where p1: "tcs db1 p = Some tc1" "addr tc1 = addr tc" "heap_next db1 < 2 ^ 31"
    using p hp by (simp add: db1_def)
  show ?thesis
  proof (cases bs)
    case None
    let ?db = "upd_tc p (\<lambda>tc. tc\<lparr>edge_gc_timer := Some OLSR_TC_EDGE_GC_TIME\<rparr>) db1"
    have "lsdb_ok ?db" by (rule upd_tc_ok [OF ok1]) (simp add: same_vertex_def)
    moreover have "advertises ?db = advertises db1" by (rule advertises_upd_tc) simp
    moreover have "costs_ok ?db = costs_ok db" using c1 by (simp add: costs_ok_def edge_data_def)
    ultimately show ?thesis using bs None p a1 by (simp add: tc_finish_def db1_def withdrawn_def)
  next
    case (Some b)
    obtain lo up where b: "bs = Some (lo, up)" using Some by (cases b) simp
    from delete_revoked_ok [OF ok1 p1(3,1), of "tc_ansn hdr" lo up] obtain ret db2 where
      d: "olsr_delete_revoked_tc_edges p (tc_ansn hdr) lo up db1 = Some (ret, db2)" "lsdb_ok db2" "vertex_key db2 = vertex_key db1"
      "heap_next db2 = heap_next db1" "costs_ok db \<Longrightarrow> costs_ok db2" and
      a2: "\<And>x y an'. advertises db2 x y an' \<longleftrightarrow>
        advertises db1 x y an' \<and> \<not> (x = addr tc \<and> lo \<le> y \<and> y < up \<and> SEQNO_GREATER_THAN (tc_ansn hdr) an')"
      unfolding p1(2) c1 by blast
    show ?thesis
    proof (cases emptyTC)
      case False
      with d(1,2,5) a2 bs b p a1 show ?thesis by (auto simp: tc_finish_def db1_def withdrawn_def)
    next
      case True
      let ?db = "db2\<lparr>lsdb_calls := lsdb_calls db2 @ [Cleanup_mid (tc_orig hdr), Cleanup_hna (tc_orig hdr), Cleanup_duplicates (tc_orig hdr)]\<rparr>"
      obtain tc2 where p2: "tcs ?db p = Some tc2" "addr tc2 = addr tc" using same_vertex_live [OF d(3) p1(1)] p1(2) by auto
      have ok2: "lsdb_ok ?db" "heap_next ?db < 2 ^ 31" using d p1 by simp_all
      from delete_vertex_ok [OF ok2 p2(1)] obtain db' where
        v: "olsr_delete_tc_entry cnf p ?db = Some db'" "vertex_deleted p ?db db'" by blast
      have "advertises db' x y an \<longleftrightarrow> advertises db2 x y an \<and> x \<noteq> addr tc" for x y an
        using advertises_vertex_deleted [OF ok2(1) p2(1) v(2)] p2(2) by (simp add: advertises_def)
      moreover have "costs_ok db'" if "costs_ok db"
        using v(2) by (intro costs_ok_sub [OF d(5) [OF that]]) (simp add: vertex_deleted_def)
      moreover have "tc_finish cnf hdr emptyTC p bo db = Some db'" using True d(1) bs b p v(1) by (simp add: tc_finish_def db1_def)
      moreover have "lsdb_ok db'" using v(2) by (simp add: vertex_deleted_def)
      ultimately show ?thesis using True a2 a1 bs b
        by (intro exI [of _ bs] exI [of _ db']) (auto simp: withdrawn_def)
    qed
  qed
qed

section \<open>The whole message\<close>

lemma tc_accept_ok:
  assumes ok: "lsdb_ok db"
  shows "\<exists>acc db'. tc_accept hdr db = Some (acc, db') \<and> lsdb_ok db' \<and> heap_next db' = heap_next db \<and>
    vertex_key db' = vertex_key db \<and> advertises db' = advertises db \<and> edge_data db' = edge_data db"
proof (cases "olsr_lookup_tc_entry (tc_orig hdr) db")
  case None
  thus ?thesis using ok by (auto simp: tc_accept_def)
next
  case (Some p)
  then obtain tc where tc: "tcs db p = Some tc" using lookup_vertex [OF ok] by (auto simp: vertex_key_def)
  obtain tc' acc where c: "tc_seq_check (tc_seq hdr) (tc_ansn hdr) tc = (tc', acc)" by (cases "tc_seq_check (tc_seq hdr) (tc_ansn hdr) tc")
  have s: "same_vertex tc tc'"
    using c by (auto simp: tc_seq_check_def same_vertex_def Let_def split: if_splits)
  have u: "upd_tc p (\<lambda>_. tc') db = upd_tc p (\<lambda>t. if t = tc then tc' else t) db" using tc by (simp add: upd_tc_def)
  have f: "same_vertex t (if t = tc then tc' else t)" for t using s by (simp add: same_vertex_def)
  have a: "addr (if t = tc then tc' else t) = addr t" for t using s by (simp add: same_vertex_def)
  have u': "lsdb_ok (upd_tc p (\<lambda>_. tc') db)" "vertex_key (upd_tc p (\<lambda>_. tc') db) = vertex_key db"
    "advertises (upd_tc p (\<lambda>_. tc') db) = advertises db"
    unfolding u by (rule upd_tc_ok [OF ok f], rule upd_tc_keys(1) [OF a], rule advertises_upd_tc [OF a])
  show ?thesis
  proof (cases "count (edge_tree tc) = 0")
    case True
    with Some tc ok show ?thesis by (auto simp: tc_accept_def)
  next
    case False
    with Some tc c have "tc_accept hdr db = Some (acc, upd_tc p (\<lambda>_. tc') db)" by (simp add: tc_accept_def)
    with u' show ?thesis by (simp add: edge_data_def fun_eq_iff)
  qed
qed

text \<open>What a processed message does to the topology.\<close>

definition tc_applied ::
    "tc_header \<Rightarrow> olsr_ip_addr list \<Rightarrow> bool \<Rightarrow> (olsr_ip_addr \<times> olsr_ip_addr) option \<Rightarrow> 'lq lsdb \<Rightarrow> 'lq lsdb \<Rightarrow> bool" where
  "tc_applied hdr vs emptyTC bs db db' \<longleftrightarrow> (\<forall>x y an'. advertises db' x y an' \<longleftrightarrow>
     (if x = tc_orig hdr \<and> y \<in> set vs then an' = tc_ansn hdr else advertises db x y an') \<and>
     \<not> withdrawn (tc_orig hdr) (tc_ansn hdr) emptyTC bs x y an')"

context tc_lq_plugin
begin

lemma process_ok:
  assumes ok: "lsdb_ok db" and m: "main_addr cnf \<noteq> all_zero cnf" and hp: "heap_next db + 2 + unat (tc_size hdr) < 2 ^ 31"
    and len: "unat (tc_size hdr) + ipsize cnf + lqsize \<le> length buf"
    and fl: "cur < unat (tc_size hdr) \<longrightarrow> border_flags_ok cnf (tc_lower hdr) (tc_upper hdr)"
  shows "\<exists>vs bo bs db'. tc_process cnf h deny hdr buf cur db = Some db' \<and> lsdb_ok db' \<and> (costs_ok db \<longrightarrow> costs_ok db') \<and>
    tc_borders cnf hdr (\<not> cur < unat (tc_size hdr)) bo = Some bs \<and>
    tc_applied hdr vs (\<not> cur < unat (tc_size hdr)) bs db db' \<and>
    (list_all (olsr_validate_address deny) (tc_neighbors (unat (tc_size hdr)) cnf lqsize buf (unat (tc_size hdr)) cur) \<and>
      lq_level cnf > 0 \<longrightarrow>
      vs = tc_neighbors (unat (tc_size hdr)) cnf lqsize buf (unat (tc_size hdr)) cur \<and> bo = span_of None vs)"
proof -
  let ?n = "unat (tc_size hdr)" and ?u = "tc_orig hdr" and ?an = "tc_ansn hdr"
  from locate_vertex_ok [OF ok m] obtain p db1 where
    l: "olsr_locate_tc_entry cnf ?u db = Some (Some p, db1)" "vertex_added ?u p db db1" by blast
  define db2 where "db2 = upd_tc p (\<lambda>tc. tc\<lparr>msg_hops := tc_hops hdr, msg_seq := tc_seq hdr, ansn := tc_ansn hdr, ignored := 0,
                           err_seq_valid := False\<rparr>) db1"
  from l(2) have v: "lsdb_ok db1" "vertex_key db1 p = Some ?u" "edge_data db1 = edge_data db" "edge_ends db1 = edge_ends db"
    "heap_next db1 \<le> heap_next db + 2" by (simp_all add: vertex_added_def)
  then obtain tc1 where tc1: "tcs db1 p = Some tc1" "addr tc1 = ?u" by (auto simp: vertex_key_def)
  have ok2: "lsdb_ok db2" unfolding db2_def by (rule upd_tc_ok [OF v(1)]) (simp add: same_vertex_def)
  obtain tc2 where tc2: "tcs db2 p = Some tc2" "addr tc2 = ?u" using tc1 by (simp add: db2_def)
  have a2: "advertises db2 = advertises db"
    unfolding db2_def by (rule trans [OF advertises_upd_tc advertises_cong]) (simp_all add: v)
  have bo: "borders_ok cnf None" and lim: "?n - cur \<le> ?n" by (simp_all add: borders_ok_def)
  from edge_loop_ok [OF ok2 tc2(1) lim len bo, of deny ?an] obtain bo db3 vs where
    e: "tc_edge_loop ?n cnf h deny p ?an buf ?n cur db2 None = Some (bo, db3)"
    "edges_refreshed ?u vs ?an (?n - cur) db2 db3" "borders_ok cnf bo"
    "bo = None \<longleftrightarrow> (None :: (olsr_ip_addr \<times> olsr_ip_addr) option) = None \<and> \<not> cur < ?n"
    "list_all (olsr_validate_address deny) (tc_neighbors ?n cnf lqsize buf ?n cur) \<and> lq_level cnf > 0 \<longrightarrow>
      vs = tc_neighbors ?n cnf lqsize buf ?n cur \<and> bo = span_of None vs" unfolding tc2(2) by blast
  have c2: "costs_ok db2 = costs_ok db"
  proof -
    have "edge_data db2 = edge_data db1" by (simp add: db2_def edge_data_def fun_eq_iff)
    thus ?thesis by (simp add: costs_ok_def v(3))
  qed
  from e(2) have r: "lsdb_ok db3" "vertex_key db3 = vertex_key db2" "heap_next db3 \<le> heap_next db2 + (?n - cur)"
    "\<And>x y an'. advertises db3 x y an' \<longleftrightarrow> (if x = ?u \<and> y \<in> set vs then an' = ?an else advertises db x y an')"
    and c3: "costs_ok db \<Longrightarrow> costs_ok db3"
    by (simp_all add: edges_refreshed_def a2 c2)
  obtain tc3 where tc3: "tcs db3 p = Some tc3" "addr tc3 = ?u" using same_vertex_live [OF r(2) tc2(1)] tc2(2) by auto
  have "heap_next db3 < 2 ^ 31" using r(3) v(5) hp by (simp add: db2_def)
  from tc_finish_ok [OF r(1) this tc3(1) e(3), of hdr "\<not> cur < ?n"] e(4) fl obtain bs db' where
    f: "tc_borders cnf hdr (\<not> cur < ?n) bo = Some bs" "tc_finish cnf hdr (\<not> cur < ?n) p bo db3 = Some db'" "lsdb_ok db'"
    "costs_ok db3 \<longrightarrow> costs_ok db'"
    "\<forall>x y an'. advertises db' x y an' \<longleftrightarrow> advertises db3 x y an' \<and> \<not> withdrawn ?u ?an (\<not> cur < ?n) bs x y an'"
    unfolding tc3(2) by blast
  have "tc_process cnf h deny hdr buf cur db = Some db'"
    using l(1) tc1(1) e(1) f(2) by (simp add: tc_process_def db2_def)
  moreover have "tc_applied hdr vs (\<not> cur < ?n) bs db db'" using f(5) r(4) by (simp add: tc_applied_def)
  ultimately show ?thesis using f(1,3,4) c3 e(5) by blast
qed

end

end
