(* ===== verification/Olsr_Hashing.thy ===== *)
theory Olsr_Hashing
  imports Olsr_Types
begin

text \<open>
  The hash function of the address tables (\<^verbatim>\<open>src/hashing.c\<close>): Jenkins' lookup2 on the
  bytes of an address, masked to one of \<open>HASHSIZE\<close> buckets.
\<close>

definition HASHSIZE :: nat where
  "HASHSIZE = 128"

definition HASHMASK :: u32 where
  "HASHMASK = of_nat (HASHSIZE - 1)"

definition jhash_mix :: "u32 \<times> u32 \<times> u32 \<Rightarrow> u32 \<times> u32 \<times> u32" where
  "jhash_mix = (\<lambda>(a, b, c).
     let a = a - b; a = a - c; a = a XOR drop_bit 13 c;
         b = b - c; b = b - a; b = b XOR push_bit 8 a;
         c = c - a; c = c - b; c = c XOR drop_bit 13 b;
         a = a - b; a = a - c; a = a XOR drop_bit 12 c;
         b = b - c; b = b - a; b = b XOR push_bit 16 a;
         c = c - a; c = c - b; c = c XOR drop_bit 5 b;
         a = a - b; a = a - c; a = a XOR drop_bit 3 c;
         b = b - c; b = b - a; b = b XOR push_bit 10 a;
         c = c - a; c = c - b; c = c XOR drop_bit 15 b
     in (a, b, c))"

definition byte_at :: "u8 list \<Rightarrow> nat \<Rightarrow> nat \<Rightarrow> u32" where
  "byte_at k i s = push_bit s (ucast (k ! i))"

text \<open>The loop over the blocks of twelve bytes, and the switch on what is left.\<close>

function jhash_blocks :: "u8 list \<Rightarrow> u32 \<times> u32 \<times> u32 \<Rightarrow> u8 list \<times> u32 \<times> u32 \<times> u32" where
  "jhash_blocks k (a, b, c) =
     (if length k \<ge> 12 then
        jhash_blocks (drop 12 k) (jhash_mix
          (a + (byte_at k 0 0 + byte_at k 1 8 + byte_at k 2 16 + byte_at k 3 24),
           b + (byte_at k 4 0 + byte_at k 5 8 + byte_at k 6 16 + byte_at k 7 24),
           c + (byte_at k 8 0 + byte_at k 9 8 + byte_at k 10 16 + byte_at k 11 24)))
      else (k, a, b, c))"
  by pat_completeness auto
termination by (relation "measure (\<lambda>(k, s). length k)") auto

definition tail_byte :: "u8 list \<Rightarrow> nat \<Rightarrow> nat \<Rightarrow> u32" where
  "tail_byte k i s = (if i < length k then byte_at k i s else 0)"

definition jenkins_hash :: "u8 list \<Rightarrow> u32" where
  "jenkins_hash key =
     (let (k, a, b, c) = jhash_blocks key (0x9e3779b9, 0x9e3779b9, 0);
          c = c + of_nat (length key);
          c = c + tail_byte k 10 24 + tail_byte k 9 16 + tail_byte k 8 8;
          b = b + tail_byte k 7 24 + tail_byte k 6 16 + tail_byte k 5 8 + tail_byte k 4 0;
          a = a + tail_byte k 3 24 + tail_byte k 2 16 + tail_byte k 1 8 + tail_byte k 0 0
      in snd (snd (jhash_mix (a, b, c))))"

definition olsr_ip_hashing :: "olsr_ip_addr \<Rightarrow> u32" where
  "olsr_ip_hashing address = jenkins_hash (ip_bytes address) AND HASHMASK"

lemma unat_hash_less: "unat (olsr_ip_hashing a) < HASHSIZE"
proof -
  have "olsr_ip_hashing a = take_bit 7 (jenkins_hash (ip_bytes a))"
    by (simp add: olsr_ip_hashing_def HASHMASK_def HASHSIZE_def take_bit_eq_mask mask_eq_exp_minus_1)
  hence "unat (olsr_ip_hashing a) = unat (jenkins_hash (ip_bytes a)) mod 2 ^ 7"
    by (simp add: take_bit_eq_mod unat_mod)
  thus ?thesis by (simp add: HASHSIZE_def)
qed

end
