(* ===== verification/Olsr_Plc_Data.thy ===== *)
theory Olsr_Plc_Data
  imports Olsr_Hashing
begin

text \<open>
  The table of power line peers (\<^verbatim>\<open>src/linklayer_plc_data.c\<close>): circular lists of entries
  hanging off an array of hash buckets, found by address or, by brute force, by MAC. A bucket
  is the list of its entries from the head's \<open>next\<close> on; the sentinel is left out. The table
  implements a partial map from addresses to link data, the contract stated as the locale
  \<open>peer_table\<close>.
\<close>

type_synonym mac = "u8 list"

record plc_data =
  mac :: mac
  tx_rate :: u8
  rx_rate :: u8
  raw_modulation_rate :: u32  \<comment> \<open>the bits of the float\<close>

record plc_peer_entry =
  plc_peer_main_addr :: olsr_ip_addr
  plc_data :: plc_data

record plc_table =
  own_plc_mac :: mac
  ready :: bool
  plc_peer_neighbors :: "nat \<Rightarrow> plc_peer_entry list"
  table_size :: int

section \<open>Operations\<close>

definition init_plc_peer_neighbors :: plc_table where
  "init_plc_peer_neighbors = \<lparr>own_plc_mac = replicate 6 0, ready = False,
     plc_peer_neighbors = (\<lambda>_. []), table_size = 0\<rparr>"

definition plc_hash :: "olsr_ip_addr \<Rightarrow> nat" where
  "plc_hash a = unat (olsr_ip_hashing a)"

fun dequeue_peer :: "olsr_ip_addr \<Rightarrow> plc_peer_entry list \<Rightarrow> plc_peer_entry list option" where
  "dequeue_peer peer_addr [] = None"
| "dequeue_peer peer_addr (e # es) =
     (if ipequal (plc_peer_main_addr e) peer_addr then Some es
      else map_option (Cons e) (dequeue_peer peer_addr es))"

definition delete_plc_peer_neighbor :: "olsr_ip_addr \<Rightarrow> plc_table \<Rightarrow> plc_table \<times> int" where
  "delete_plc_peer_neighbor peer_addr T =
     (let h = plc_hash peer_addr in
      case dequeue_peer peer_addr (plc_peer_neighbors T h) of
        None \<Rightarrow> (T, 0)
      | Some es \<Rightarrow> (T\<lparr>plc_peer_neighbors := (plc_peer_neighbors T)(h := es), table_size := table_size T - 1\<rparr>, 1))"

definition insert_plc_peer_neighbor :: "olsr_ip_addr \<Rightarrow> mac \<Rightarrow> plc_table \<Rightarrow> plc_table \<times> int" where
  "insert_plc_peer_neighbor main_addr m T =
     (let h = plc_hash main_addr in
      if list_ex (\<lambda>e. ipequal (plc_peer_main_addr e) main_addr) (plc_peer_neighbors T h) then (T, 0)
      else
        let new_peer = \<lparr>plc_peer_main_addr = main_addr,
              plc_data = \<lparr>mac = take 6 m, tx_rate = 0, rx_rate = 0, raw_modulation_rate = 0\<rparr>\<rparr>
        in (T\<lparr>plc_peer_neighbors := (plc_peer_neighbors T)(h := new_peer # plc_peer_neighbors T h),
              table_size := table_size T + 1\<rparr>, 1))"

definition lookup_plc_peer_by_ip :: "olsr_ip_addr \<Rightarrow> plc_table \<Rightarrow> plc_peer_entry option" where
  "lookup_plc_peer_by_ip dst T =
     List.find (\<lambda>e. ipequal (plc_peer_main_addr e) dst) (plc_peer_neighbors T (plc_hash dst))"

text \<open>All entries, bucket after bucket: the order of the loops over the whole table.\<close>

definition plc_peers :: "plc_table \<Rightarrow> plc_peer_entry list" where
  "plc_peers T = concat (map (plc_peer_neighbors T) [0..<HASHSIZE])"

definition lookup_plc_peer_by_mac :: "mac \<Rightarrow> plc_table \<Rightarrow> plc_peer_entry option" where
  "lookup_plc_peer_by_mac m T = List.find (\<lambda>e. take 6 m = mac (plc_data e)) (plc_peers T)"

definition iter_next :: "plc_table \<Rightarrow> nat \<Rightarrow> nat \<times> plc_peer_entry option" where
  "iter_next T num_iterated =
     (if table_size T = 0 then (num_iterated, None)
      else case drop num_iterated (plc_peers T) of
          [] \<Rightarrow> (num_iterated, None)
        | e # _ \<Rightarrow> (num_iterated + 1, Some e))"

definition set_own_plc_mac :: "mac \<Rightarrow> plc_table \<Rightarrow> plc_table" where
  "set_own_plc_mac m T = T\<lparr>own_plc_mac := take 6 m, ready := True\<rparr>"

fun update_first :: "('a \<Rightarrow> bool) \<Rightarrow> ('a \<Rightarrow> 'a) \<Rightarrow> 'a list \<Rightarrow> 'a list" where
  "update_first P f [] = []"
| "update_first P f (x # xs) = (if P x then f x # xs else x # update_first P f xs)"

text \<open>The bucket that holds the entry found by MAC, if any.\<close>

definition plc_bucket_of_mac :: "mac \<Rightarrow> plc_table \<Rightarrow> nat option" where
  "plc_bucket_of_mac m T =
     List.find (\<lambda>i. list_ex (\<lambda>e. take 6 m = mac (plc_data e)) (plc_peer_neighbors T i)) [0..<HASHSIZE]"

definition update_plc_peer_data :: "plc_data \<Rightarrow> plc_table \<Rightarrow> plc_table \<times> int" where
  "update_plc_peer_data p_data T =
     (case plc_bucket_of_mac (mac p_data) T of
        None \<Rightarrow> (T, 0)
      | Some i \<Rightarrow>
          (T\<lparr>plc_peer_neighbors := (plc_peer_neighbors T)(i :=
               update_first (\<lambda>e. take 6 (mac p_data) = mac (plc_data e))
                 (\<lambda>e. e\<lparr>plc_data := (plc_data e)\<lparr>rx_rate := rx_rate p_data, tx_rate := tx_rate p_data,
                         raw_modulation_rate := raw_modulation_rate p_data\<rparr>\<rparr>)
                 (plc_peer_neighbors T i))\<rparr>, 1))"

definition is_ready :: "plc_table \<Rightarrow> bool" where
  "is_ready T = ready T"

section \<open>The invariant\<close>

definition plc_inv :: "plc_table \<Rightarrow> bool" where
  "plc_inv T \<longleftrightarrow>
     (\<forall>i e. e \<in> set (plc_peer_neighbors T i) \<longrightarrow> plc_hash (plc_peer_main_addr e) = i) \<and>
     (\<forall>i. distinct (map plc_peer_main_addr (plc_peer_neighbors T i))) \<and>
     table_size T = int (length (plc_peers T))"

lemma plc_hash_less [simp]: "plc_hash a < HASHSIZE"
  by (simp add: plc_hash_def unat_hash_less)

lemma length_plc_peers: "length (plc_peers T) = (\<Sum>i<HASHSIZE. length (plc_peer_neighbors T i))"
  by (simp add: plc_peers_def length_concat interv_sum_list_conv_sum_set_nat lessThan_atLeast0 comp_def)

lemma length_plc_peers_upd:
  assumes "h < HASHSIZE"
  shows "int (length (plc_peers (T\<lparr>plc_peer_neighbors := (plc_peer_neighbors T)(h := es)\<rparr>))) =
    int (length (plc_peers T)) - int (length (plc_peer_neighbors T h)) + int (length es)"
proof -
  let ?f = "\<lambda>i. length (plc_peer_neighbors T i)"
  have "(\<Sum>i<HASHSIZE. length (((plc_peer_neighbors T)(h := es)) i)) = length es + (\<Sum>i\<in>{..<HASHSIZE} - {h}. ?f i)"
    using assms by (subst sum.remove [of _ h]) (auto intro: sum.cong)
  moreover have "(\<Sum>i<HASHSIZE. ?f i) = ?f h + (\<Sum>i\<in>{..<HASHSIZE} - {h}. ?f i)"
    using assms by (subst sum.remove [of _ h]) auto
  ultimately show ?thesis by (simp add: length_plc_peers)
qed

lemma dequeue_peer_None: "dequeue_peer a es = None \<longleftrightarrow> a \<notin> plc_peer_main_addr ` set es"
  by (induction es) auto

lemma dequeue_peer_Some:
  "dequeue_peer a es = Some es' \<Longrightarrow> distinct (map plc_peer_main_addr es) \<Longrightarrow>
   es' = filter (\<lambda>e. plc_peer_main_addr e \<noteq> a) es \<and> Suc (length es') = length es"
proof (induction es arbitrary: es')
  case (Cons e es)
  show ?case
  proof (cases "plc_peer_main_addr e = a")
    case True
    from Cons.prems(2) have "plc_peer_main_addr e \<notin> plc_peer_main_addr ` set es" by simp
    with True have "\<forall>x\<in>set es. plc_peer_main_addr x \<noteq> a" by (metis imageI)
    hence "filter (\<lambda>e. plc_peer_main_addr e \<noteq> a) es = es" by (simp add: filter_id_conv)
    with True Cons.prems show ?thesis by simp
  next
    case False
    with Cons show ?thesis by auto
  qed
qed simp

lemma plc_peers_simps [simp]:
  "plc_peers (T\<lparr>table_size := n\<rparr>) = plc_peers T" "plc_peers (T\<lparr>own_plc_mac := m, ready := r\<rparr>) = plc_peers T"
  by (simp_all add: plc_peers_def)

lemma plc_invD:
  assumes "plc_inv T"
  shows "\<forall>e\<in>set (plc_peer_neighbors T i). plc_hash (plc_peer_main_addr e) = i"
    "distinct (map plc_peer_main_addr (plc_peer_neighbors T i))" "table_size T = int (length (plc_peers T))"
  using assms unfolding plc_inv_def by blast+

lemma plc_inv_upd:
  assumes inv: "plc_inv T" and h: "h < HASHSIZE"
    and es: "distinct (map plc_peer_main_addr es)" "\<forall>e\<in>set es. plc_hash (plc_peer_main_addr e) = h"
    and n: "n = table_size T - int (length (plc_peer_neighbors T h)) + int (length es)"
  shows "plc_inv (T\<lparr>plc_peer_neighbors := (plc_peer_neighbors T)(h := es), table_size := n\<rparr>)"
proof -
  let ?T = "T\<lparr>plc_peer_neighbors := (plc_peer_neighbors T)(h := es), table_size := n\<rparr>"
  have "plc_peers ?T = plc_peers (T\<lparr>plc_peer_neighbors := (plc_peer_neighbors T)(h := es)\<rparr>)"
    by (simp add: plc_peers_def)
  with length_plc_peers_upd [OF h, of T es] n inv have "table_size ?T = int (length (plc_peers ?T))"
    by (simp add: plc_inv_def)
  moreover have "\<forall>i e. e \<in> set (plc_peer_neighbors ?T i) \<longrightarrow> plc_hash (plc_peer_main_addr e) = i"
    "\<forall>i. distinct (map plc_peer_main_addr (plc_peer_neighbors ?T i))"
    using inv es by (auto simp: plc_inv_def)
  ultimately show ?thesis unfolding plc_inv_def by blast
qed

lemma lookup_bucket:
  "lookup_plc_peer_by_ip a T = List.find (\<lambda>e. plc_peer_main_addr e = a) (plc_peer_neighbors T (plc_hash a))"
  by (simp add: lookup_plc_peer_by_ip_def)

lemma lookup_None: "lookup_plc_peer_by_ip a T = None \<longleftrightarrow> a \<notin> plc_peer_main_addr ` set (plc_peer_neighbors T (plc_hash a))"
  by (auto simp: lookup_bucket find_None_iff)

lemma plc_inv_init: "plc_inv init_plc_peer_neighbors"
  by (simp add: plc_inv_def init_plc_peer_neighbors_def plc_peers_def)

definition fresh_peer :: "olsr_ip_addr \<Rightarrow> mac \<Rightarrow> plc_peer_entry" where
  "fresh_peer a m = \<lparr>plc_peer_main_addr = a,
     plc_data = \<lparr>mac = take 6 m, tx_rate = 0, rx_rate = 0, raw_modulation_rate = 0\<rparr>\<rparr>"

lemma plc_insert_new:
  assumes inv: "plc_inv T" and new: "lookup_plc_peer_by_ip a T = None"
  shows "\<exists>T'. insert_plc_peer_neighbor a m T = (T', 1) \<and> plc_inv T' \<and> table_size T' = table_size T + 1 \<and>
    (\<forall>b. lookup_plc_peer_by_ip b T' = (if b = a then Some (fresh_peer a m) else lookup_plc_peer_by_ip b T))"
proof -
  let ?h = "plc_hash a"
  let ?N = "(plc_peer_neighbors T)(?h := fresh_peer a m # plc_peer_neighbors T ?h)"
  let ?T = "T\<lparr>plc_peer_neighbors := ?N, table_size := table_size T + 1\<rparr>"
  have na: "a \<notin> plc_peer_main_addr ` set (plc_peer_neighbors T ?h)" using new by (simp add: lookup_None)
  hence "insert_plc_peer_neighbor a m T = (?T, 1)"
    by (auto simp: insert_plc_peer_neighbor_def Let_def list_ex_iff fresh_peer_def)
  moreover have "plc_inv ?T"
    using inv na by (intro plc_inv_upd) (auto simp: plc_inv_def fresh_peer_def)
  moreover have "lookup_plc_peer_by_ip b ?T = (if b = a then Some (fresh_peer a m) else lookup_plc_peer_by_ip b T)" for b
    by (simp add: lookup_bucket fresh_peer_def)
  ultimately show ?thesis by auto
qed

lemma find_filter_other:
  "List.find (\<lambda>e. f e = b) (filter (\<lambda>e. f e \<noteq> a) xs) = (if b = a then None else List.find (\<lambda>e. f e = b) xs)"
  by (induction xs) auto

lemma delete_present:
  assumes inv: "plc_inv T" and old: "lookup_plc_peer_by_ip a T \<noteq> None"
  shows "\<exists>T'. delete_plc_peer_neighbor a T = (T', 1) \<and> plc_inv T' \<and> table_size T' = table_size T - 1 \<and>
    (\<forall>b. lookup_plc_peer_by_ip b T' = (if b = a then None else lookup_plc_peer_by_ip b T))"
proof -
  let ?h = "plc_hash a"
  from old obtain es where es: "dequeue_peer a (plc_peer_neighbors T ?h) = Some es"
    using dequeue_peer_None [of a "plc_peer_neighbors T ?h"] lookup_None [of a T] by auto
  have f: "es = filter (\<lambda>e. plc_peer_main_addr e \<noteq> a) (plc_peer_neighbors T ?h)"
    "Suc (length es) = length (plc_peer_neighbors T ?h)"
    using dequeue_peer_Some [OF es] inv by (auto simp: plc_inv_def)
  let ?N = "(plc_peer_neighbors T)(?h := es)"
  let ?T = "T\<lparr>plc_peer_neighbors := ?N, table_size := table_size T - 1\<rparr>"
  have "delete_plc_peer_neighbor a T = (?T, 1)" by (simp add: delete_plc_peer_neighbor_def Let_def es)
  moreover have "distinct (map plc_peer_main_addr es)" "set es \<subseteq> set (plc_peer_neighbors T ?h)"
    using inv by (auto simp: f(1) plc_inv_def distinct_map_filter)
  moreover from this have "plc_inv ?T"
    using inv f(2) by (intro plc_inv_upd) (auto simp: plc_inv_def)
  moreover have "lookup_plc_peer_by_ip b ?T = (if b = a then None else lookup_plc_peer_by_ip b T)" for b
    by (simp add: lookup_bucket f(1) find_filter_other)
  ultimately show ?thesis by auto
qed

section \<open>The contract\<close>

locale peer_table =
  fixes inv :: "'t \<Rightarrow> bool"
    and look :: "'k \<Rightarrow> 't \<Rightarrow> 'e option"
    and ins :: "'k \<Rightarrow> 'd \<Rightarrow> 't \<Rightarrow> 't \<times> int"
    and del :: "'k \<Rightarrow> 't \<Rightarrow> 't \<times> int"
    and fresh :: "'k \<Rightarrow> 'd \<Rightarrow> 'e"
    and count :: "'t \<Rightarrow> int"
  assumes ins_new: "inv t \<Longrightarrow> look k t = None \<Longrightarrow> \<exists>t'. ins k d t = (t', 1) \<and> inv t' \<and> count t' = count t + 1 \<and>
      (\<forall>k'. look k' t' = (if k' = k then Some (fresh k d) else look k' t))"
    and ins_old: "inv t \<Longrightarrow> look k t \<noteq> None \<Longrightarrow> ins k d t = (t, 0)"
    and del_old: "inv t \<Longrightarrow> look k t \<noteq> None \<Longrightarrow> \<exists>t'. del k t = (t', 1) \<and> inv t' \<and> count t' = count t - 1 \<and>
      (\<forall>k'. look k' t' = (if k' = k then None else look k' t))"
    and del_new: "inv t \<Longrightarrow> look k t = None \<Longrightarrow> del k t = (t, 0)"
begin

lemma ins_keeps: "inv t \<Longrightarrow> inv (fst (ins k d t))"
  using ins_new [of t k d] ins_old [of t k d] by (cases "look k t") auto

lemma del_keeps: "inv t \<Longrightarrow> inv (fst (del k t))"
  using del_old [of t k] del_new [of t k] by (cases "look k t") auto

lemma ins_present: "inv t \<Longrightarrow> look k (fst (ins k d t)) \<noteq> None"
  using ins_new [of t k d] ins_old [of t k d] by (cases "look k t") auto

lemma ins_del:
  assumes "inv t" "look k t = None"
  shows "look k' (fst (del k (fst (ins k d t)))) = look k' t \<and> count (fst (del k (fst (ins k d t)))) = count t"
proof -
  from ins_new [OF assms, of d] obtain t' where t': "ins k d t = (t', 1)" "inv t'" "count t' = count t + 1"
    "\<forall>k'. look k' t' = (if k' = k then Some (fresh k d) else look k' t)" by blast
  moreover from t' have "look k t' \<noteq> None" by simp
  from del_old [OF t'(2) this] obtain t'' where "del k t' = (t'', 1)" "count t'' = count t' - 1"
    "\<forall>k'. look k' t'' = (if k' = k then None else look k' t')" by blast
  ultimately show ?thesis using assms(2) by simp
qed

end

interpretation plc: peer_table plc_inv lookup_plc_peer_by_ip insert_plc_peer_neighbor delete_plc_peer_neighbor fresh_peer table_size
proof
  fix t a and m :: mac
  assume "plc_inv t" "lookup_plc_peer_by_ip a t \<noteq> None"
  thus "insert_plc_peer_neighbor a m t = (t, 0)"
    by (auto simp: insert_plc_peer_neighbor_def Let_def lookup_None list_ex_iff)
next
  fix t a
  assume "plc_inv t" "lookup_plc_peer_by_ip a t = None"
  thus "delete_plc_peer_neighbor a t = (t, 0)"
    by (simp add: delete_plc_peer_neighbor_def Let_def lookup_None dequeue_peer_None [THEN iffD2])
qed (simp_all add: plc_insert_new delete_present)

section \<open>Updates and iteration\<close>

lemma length_update_first [simp]: "length (update_first P f es) = length es"
  by (induction es) auto

lemma map_addr_update_first:
  "\<forall>e. plc_peer_main_addr (f e) = plc_peer_main_addr e \<Longrightarrow>
   map plc_peer_main_addr (update_first P f es) = map plc_peer_main_addr es"
  by (induction es) auto

lemma update_keeps_inv: "plc_inv T \<Longrightarrow> plc_inv (fst (update_plc_peer_data d T))"
proof (cases "plc_bucket_of_mac (mac d) T")
  case (Some i)
  let ?f = "\<lambda>e. e\<lparr>plc_data := (plc_data e)\<lparr>rx_rate := rx_rate d, tx_rate := tx_rate d,
                         raw_modulation_rate := raw_modulation_rate d\<rparr>\<rparr>"
  let ?es = "update_first (\<lambda>e. take 6 (mac d) = mac (plc_data e)) ?f (plc_peer_neighbors T i)"
  assume inv: "plc_inv T"
  have i: "i < HASHSIZE" using Some by (auto simp: plc_bucket_of_mac_def find_Some_iff)
  have m: "map plc_peer_main_addr ?es = map plc_peer_main_addr (plc_peer_neighbors T i)"
    by (rule map_addr_update_first) simp
  have len: "length ?es = length (plc_peer_neighbors T i)" by simp
  have "plc_peer_main_addr ` set ?es = plc_peer_main_addr ` set (plc_peer_neighbors T i)"
    using arg_cong [OF m, of set] by simp
  moreover have "\<forall>x\<in>plc_peer_main_addr ` set (plc_peer_neighbors T i). plc_hash x = i"
    using plc_invD(1) [OF inv, of i] by blast
  ultimately have "\<forall>x\<in>plc_peer_main_addr ` set ?es. plc_hash x = i" by simp
  hence "\<forall>e\<in>set ?es. plc_hash (plc_peer_main_addr e) = i" by blast
  hence "plc_inv (T\<lparr>plc_peer_neighbors := (plc_peer_neighbors T)(i := ?es), table_size := table_size T\<rparr>)"
    using inv i m len plc_invD(2) [OF inv, of i] by (intro plc_inv_upd) simp_all
  with Some show ?thesis by (simp add: update_plc_peer_data_def)
qed (simp add: update_plc_peer_data_def)

fun iterate_peers :: "nat \<Rightarrow> plc_table \<Rightarrow> nat \<Rightarrow> plc_peer_entry list" where
  "iterate_peers 0 T n = []"
| "iterate_peers (Suc k) T n =
     (case iter_next T n of (n', None) \<Rightarrow> [] | (n', Some e) \<Rightarrow> e # iterate_peers k T n')"

lemma iterate_drop:
  assumes "plc_inv T"
  shows "length (plc_peers T) \<le> n + k \<Longrightarrow> iterate_peers k T n = drop n (plc_peers T)"
proof (induction k arbitrary: n)
  case (Suc k)
  have z: "table_size T = 0 \<longleftrightarrow> plc_peers T = []" using assms by (simp add: plc_inv_def)
  show ?case
  proof (cases "n < length (plc_peers T)")
    case True
    hence "drop n (plc_peers T) = plc_peers T ! n # drop (Suc n) (plc_peers T)" by (rule Cons_nth_drop_Suc [symmetric])
    with Suc True z show ?thesis by (auto simp: iter_next_def)
  next
    case False
    thus ?thesis by (simp add: iter_next_def)
  qed
qed simp

section \<open>Properties\<close>

lemma peers_distinct:
  assumes "plc_inv T"
  shows "distinct (map plc_peer_main_addr (concat (map (plc_peer_neighbors T) [0..<n]))) \<and>
    (\<forall>e\<in>set (concat (map (plc_peer_neighbors T) [0..<n])). plc_hash (plc_peer_main_addr e) < n)"
proof (induction n)
  case (Suc n)
  have "distinct (map plc_peer_main_addr (plc_peer_neighbors T n))"
    "\<forall>e\<in>set (plc_peer_neighbors T n). plc_hash (plc_peer_main_addr e) = n"
    by (rule plc_invD [OF assms])+
  with Suc show ?case by fastforce
qed simp

lemma lookup_in_peers:
  assumes "plc_inv T"
  shows "lookup_plc_peer_by_ip (plc_peer_main_addr e) T = Some e \<longleftrightarrow> e \<in> set (plc_peers T)"
proof -
  let ?h = "plc_hash (plc_peer_main_addr e)"
  have f: "List.find (\<lambda>x. plc_peer_main_addr x = plc_peer_main_addr e) xs = Some e \<longleftrightarrow> e \<in> set xs"
    if "distinct (map plc_peer_main_addr xs)" for xs using that by (induction xs) force+
  have "lookup_plc_peer_by_ip (plc_peer_main_addr e) T = Some e \<longleftrightarrow> e \<in> set (plc_peer_neighbors T ?h)"
    using assms f by (simp add: lookup_bucket plc_inv_def)
  moreover have "e \<in> set (plc_peers T) \<longleftrightarrow> e \<in> set (plc_peer_neighbors T ?h)"
  proof
    assume "e \<in> set (plc_peers T)"
    then obtain i where "e \<in> set (plc_peer_neighbors T i)" by (auto simp: plc_peers_def)
    with plc_invD(1) [OF assms, of i] show "e \<in> set (plc_peer_neighbors T ?h)" by auto
  qed (use plc_hash_less [of "plc_peer_main_addr e"] in \<open>auto simp: plc_peers_def\<close>)
  ultimately show ?thesis by simp
qed

definition demo_peers :: plc_table where
  "demo_peers = fst (insert_plc_peer_neighbor (V4 2) [1, 2, 3, 4, 5, 7]
     (fst (insert_plc_peer_neighbor (V4 1) [1, 2, 3, 4, 5, 6] init_plc_peer_neighbors)))"

lemma demo_peers_inv: "plc_inv demo_peers"
  by (simp add: demo_peers_def plc.ins_keeps plc_inv_init)

text \<open>
  C34. The bucket table is a partial map from addresses to peers: insertion adds an unknown
  address with the given MAC and leaves a known one alone, deletion removes exactly the
  address, the result codes say which happened, the counter follows, and the invariant (every
  entry in the bucket of its hash, no address twice, the counter right) is kept.
\<close>

theorem plc_table_map:
  assumes "plc_inv T"
  shows "(case insert_plc_peer_neighbor a m T of (T', r) \<Rightarrow> plc_inv T' \<and>
      (if lookup_plc_peer_by_ip a T = None
       then r = 1 \<and> table_size T' = table_size T + 1 \<and>
         (\<forall>b. lookup_plc_peer_by_ip b T' = (if b = a then Some (fresh_peer a m) else lookup_plc_peer_by_ip b T))
       else r = 0 \<and> T' = T)) \<and>
    (case delete_plc_peer_neighbor a T of (T', r) \<Rightarrow> plc_inv T' \<and>
      (if lookup_plc_peer_by_ip a T = None then r = 0 \<and> T' = T
       else r = 1 \<and> table_size T' = table_size T - 1 \<and>
         (\<forall>b. lookup_plc_peer_by_ip b T' = (if b = a then None else lookup_plc_peer_by_ip b T))))"
proof (cases "lookup_plc_peer_by_ip a T")
  case None
  with plc.ins_new [OF assms None, of m] plc.del_new [OF assms None] assms show ?thesis by auto
next
  case (Some e)
  hence s: "lookup_plc_peer_by_ip a T \<noteq> None" by simp
  with plc.ins_old [OF assms s, of m] plc.del_old [OF assms s] assms show ?thesis by auto
qed

theorem plc_table_map_witness:
  "plc_inv demo_peers \<and> plc_inv (fst (delete_plc_peer_neighbor (V4 1) demo_peers))"
  using plc_table_map [OF demo_peers_inv, of "V4 1" "[]"] demo_peers_inv by (auto split: prod.splits)

text \<open>
  An iterator that starts at zero visits every peer of the table, each exactly once, and
  then ends.
\<close>

theorem plc_iteration_complete:
  assumes "plc_inv T"
  shows "iterate_peers (Suc (length (plc_peers T))) T 0 = plc_peers T \<and>
    set (plc_peers T) = {e. lookup_plc_peer_by_ip (plc_peer_main_addr e) T = Some e} \<and>
    distinct (map plc_peer_main_addr (plc_peers T))"
  using iterate_drop [OF assms, of 0 "Suc (length (plc_peers T))"] lookup_in_peers [OF assms]
    peers_distinct [OF assms, of HASHSIZE]
  by (auto simp del: iterate_peers.simps simp flip: plc_peers_def)

theorem plc_iteration_complete_witness:
  "plc_inv demo_peers \<and> iterate_peers (Suc (length (plc_peers demo_peers))) demo_peers 0 = plc_peers demo_peers"
  using plc_iteration_complete [OF demo_peers_inv] demo_peers_inv by blast

end
