(* ===== verification/Olsr_Lq_Hybrid_Plc.thy ===== *)
theory Olsr_Lq_Hybrid_Plc
  imports Olsr_Plc_Data Olsr_Packet Olsr_Float
begin

text \<open>
  The link quality plugin for hybrid power line networks
  (\<^verbatim>\<open>src/lq_plugin_default_hybrid_plc.c\<close>): a sliding window of received and sent packets per
  link, the link quality computed from it in fixed point, the rate of the power line peer, the
  link cost computed from both in single precision floating point, and the encoding of the
  values in HELLO and TC messages. Fixed point numbers (\<^verbatim>\<open>src/fpm.h\<close>) are integers; the floating
  point expression of the cost is evaluated on naturals with the rounding of IEEE 754 written
  out.
\<close>

section \<open>Data\<close>

record default_lq_hybrid_plc =
  valueLq :: u8
  valueNlq :: u8
  bandwidth :: u8
  quality :: u8

record default_lq_hybrid_plc_hello =
  smoothed_lq :: default_lq_hybrid_plc
  lq :: default_lq_hybrid_plc
  windowSize :: u8
  activePtr :: u8
  last_seq_nr :: u16
  missed_hellos :: u16
  perfect_eth :: bool
  received :: "u16 list"
  total :: "u16 list"

datatype if_mode = IF_MODE_MESH | IF_MODE_ETHER | IF_MODE_CNT | IF_MODE_PLC

text \<open>The fields of a link and of its interface that the plugin uses.\<close>

record plc_link =
  neighbor_iface_addr :: olsr_ip_addr
  inter_mode :: if_mode
  hello_etime :: olsr_reltime
  loss_link_multiplier :: u32
  linkcost :: olsr_linkcost
  linkquality_hello :: default_lq_hybrid_plc_hello

definition LQ_HYBRID_PLC_WINDOW :: nat where
  "LQ_HYBRID_PLC_WINDOW = 32"

definition LQ_HYBRID_PLC_QUICKSTART_INIT :: nat where
  "LQ_HYBRID_PLC_QUICKSTART_INIT = 4"

definition LQ_PLUGIN_LC_MULTIPLIER :: nat where
  "LQ_PLUGIN_LC_MULTIPLIER = 1024"

section \<open>Fixed point numbers\<close>

definition FPM_BIT :: nat where
  "FPM_BIT = 10"

definition c_div :: "int \<Rightarrow> int \<Rightarrow> int" where
  "c_div a b = sgn a * sgn b * (\<bar>a\<bar> div \<bar>b\<bar>)"

definition itofpm :: "int \<Rightarrow> int" where
  "itofpm a = a * 2 ^ FPM_BIT"

definition fpmtoi :: "int \<Rightarrow> int" where
  "fpmtoi a = a div 2 ^ FPM_BIT"

definition fpmmuli :: "int \<Rightarrow> int \<Rightarrow> int" where
  "fpmmuli a b = a * b"

definition fpmidiv :: "int \<Rightarrow> int \<Rightarrow> int" where
  "fpmidiv a b = c_div a b"

section \<open>The cost of a link\<close>

text \<open>\<open>(olsr_linkcost) (etxf / bwf * 100 * LQ_PLUGIN_LC_MULTIPLIER)\<close>\<close>

definition float_cost :: "nat \<Rightarrow> nat \<Rightarrow> nat" where
  "float_cost etx bw =
     (let k = float_up etx bw 0;
          m = rnd_even (etx * 2 ^ k) bw;
          j = float_down (m * 100) 0;
          m' = rnd_even (m * 100) (2 ^ j)
      in m' * 2 ^ j * LQ_PLUGIN_LC_MULTIPLIER div 2 ^ k)"

definition lq_rounded_up :: "u8 \<Rightarrow> nat" where
  "lq_rounded_up v = (if 0 < v \<and> v < 255 then unat v + 1 else unat v)"

definition default_lq_calc_cost_hybrid_plc :: "default_lq_hybrid_plc \<Rightarrow> olsr_linkcost" where
  "default_lq_calc_cost_hybrid_plc l =
     (if valueLq l < 25 \<or> valueNlq l < 25 then LINK_COST_BROKEN
      else
        let lq_int = lq_rounded_up (valueLq l);
            nlq_int = lq_rounded_up (valueNlq l);
            etxf = 255 * 255 div (lq_int * nlq_int);
            bwf = unat (bandwidth l) * unat (quality l) div 255;
            bwf = (if bwf < 5 then 5 else bwf);
            cost = of_nat (float_cost etxf bwf)
        in if cost > LINK_COST_BROKEN then LINK_COST_BROKEN else if cost = 0 then 1 else cost)"

section \<open>Message encoding\<close>

definition default_lq_serialize_hello_lq_pair_hybrid_plc :: "default_lq_hybrid_plc \<Rightarrow> u8 list" where
  "default_lq_serialize_hello_lq_pair_hybrid_plc l = [bandwidth l, quality l, valueLq l, valueNlq l]"

definition default_lq_serialize_tc_lq_pair_hybrid_plc :: "default_lq_hybrid_plc \<Rightarrow> u8 list" where
  "default_lq_serialize_tc_lq_pair_hybrid_plc l = [bandwidth l, quality l, valueLq l, valueNlq l]"

text \<open>The functions read through the cursor \<open>p\<close> and return the one behind the four bytes.\<close>

definition default_lq_deserialize_hello_lq_pair_hybrid_plc ::
    "u8 list \<Rightarrow> nat \<Rightarrow> default_lq_hybrid_plc \<Rightarrow> (default_lq_hybrid_plc \<times> nat) option" where
  "default_lq_deserialize_hello_lq_pair_hybrid_plc buf p lq0 = do {
     (b, p1) \<leftarrow> pkt_get_u8 buf p;
     (q, p2) \<leftarrow> pkt_get_u8 buf p1;
     (l, p3) \<leftarrow> pkt_get_u8 buf p2;
     (n, p4) \<leftarrow> pkt_get_u8 buf p3;
     Some (lq0\<lparr>bandwidth := b, quality := q, valueLq := l, valueNlq := n\<rparr>, p4)
   }"

definition default_lq_deserialize_tc_lq_pair_hybrid_plc ::
    "u8 list \<Rightarrow> nat \<Rightarrow> default_lq_hybrid_plc \<Rightarrow> (default_lq_hybrid_plc \<times> nat) option" where
  "default_lq_deserialize_tc_lq_pair_hybrid_plc buf p lq0 = do {
     (b, p1) \<leftarrow> pkt_get_u8 buf p;
     (q, p2) \<leftarrow> pkt_get_u8 buf p1;
     (l, p3) \<leftarrow> pkt_get_u8 buf p2;
     (n, p4) \<leftarrow> pkt_get_u8 buf p3;
     Some (lq0\<lparr>bandwidth := b, quality := q, valueLq := l, valueNlq := n\<rparr>, p4)
   }"

section \<open>Link state\<close>

definition default_lq_clear_hybrid_plc :: default_lq_hybrid_plc where
  "default_lq_clear_hybrid_plc = \<lparr>valueLq = 0, valueNlq = 0, bandwidth = 0, quality = 0\<rparr>"

definition default_lq_clear_hybrid_plc_hello :: "default_lq_hybrid_plc_hello \<Rightarrow> default_lq_hybrid_plc_hello" where
  "default_lq_clear_hybrid_plc_hello l = l\<lparr>lq := default_lq_clear_hybrid_plc,
     smoothed_lq := default_lq_clear_hybrid_plc, windowSize := of_nat LQ_HYBRID_PLC_QUICKSTART_INIT,
     total := replicate LQ_HYBRID_PLC_WINDOW 3\<rparr>"

text \<open>The packet parser: \<open>seqno\<close> is the sequence number of the packet in host byte order.\<close>

definition default_lq_parser_hybrid_plc :: "u16 \<Rightarrow> default_lq_hybrid_plc_hello \<Rightarrow> default_lq_hybrid_plc_hello" where
  "default_lq_parser_hybrid_plc seqno l =
     (if last_seq_nr l = seqno then l
      else
        let diff = (if last_seq_nr l > seqno then unat seqno + 65536 - unat (last_seq_nr l)
                    else unat seqno - unat (last_seq_nr l));
            seq_diff = (if diff > 256 then 1 else diff);
            p = unat (activePtr l)
        in l\<lparr>received := (received l)[p := received l ! p + 1],
             total := (total l)[p := total l ! p + of_nat seq_diff],
             last_seq_nr := seqno, missed_hellos := 0\<rparr>)"

definition default_lq_packet_loss_worker_hybrid_plc :: "bool \<Rightarrow> default_lq_hybrid_plc_hello \<Rightarrow> default_lq_hybrid_plc_hello" where
  "default_lq_packet_loss_worker_hybrid_plc lost l =
     (if lost then l\<lparr>missed_hellos := missed_hellos l + 1\<rparr> else l)"

definition default_lq_memorize_foreign_hello_hybrid_plc ::
    "default_lq_hybrid_plc_hello \<Rightarrow> default_lq_hybrid_plc option \<Rightarrow> default_lq_hybrid_plc_hello" where
  "default_lq_memorize_foreign_hello_hybrid_plc local foreign =
     local\<lparr>lq := (lq local)\<lparr>valueNlq := (case foreign of Some f \<Rightarrow> valueLq f | None \<Rightarrow> 0)\<rparr>\<rparr>"

definition default_lq_copy_link2neigh_hybrid_plc :: "default_lq_hybrid_plc_hello \<Rightarrow> default_lq_hybrid_plc" where
  "default_lq_copy_link2neigh_hybrid_plc source = smoothed_lq source"

definition default_lq_copy_link2tc_hybrid_plc :: "default_lq_hybrid_plc_hello \<Rightarrow> default_lq_hybrid_plc" where
  "default_lq_copy_link2tc_hybrid_plc source = smoothed_lq source"

section \<open>The timer\<close>

text \<open>
  Correction for missed HELLOs: the interval is unsigned, so the expression is evaluated in
  unsigned 32-bit arithmetic and converted back to a signed number.
\<close>

definition missed_correction :: "int \<Rightarrow> u16 \<Rightarrow> olsr_reltime \<Rightarrow> int" where
  "missed_correction recv missed etime =
     (let r = word_of_int recv :: u32
      in sint (r - r * ucast missed * etime div 1000 div of_nat LQ_HYBRID_PLC_WINDOW))"

definition window_quality :: "u32 \<Rightarrow> u16 \<Rightarrow> olsr_reltime \<Rightarrow> int \<Rightarrow> int \<Rightarrow> u8" where
  "window_quality mult missed etime recv tot =
     (if tot = 0 then 0
      else
        let ratio = fpmidiv (itofpm (uint mult)) (2 ^ 16);
            recv = (if missed > 1 then missed_correction recv missed etime else recv);
            ratio = fpmmuli ratio recv;
            ratio = fpmidiv ratio tot;
            ratio = fpmmuli ratio 255
        in word_of_int (fpmtoi ratio))"

definition ethernet_booster :: "if_mode \<Rightarrow> default_lq_hybrid_plc_hello \<Rightarrow> default_lq_hybrid_plc_hello" where
  "ethernet_booster mode l =
     (if mode = IF_MODE_ETHER then
        let v = valueLq (lq l);
            perfect = (if v > 242 then True else if v > 229 then False else perfect_eth l)
        in l\<lparr>perfect_eth := perfect, lq := (lq l)\<lparr>valueLq := (if perfect then 255 else v)\<rparr>\<rparr>
      else if valueLq (lq l) > 0 then l\<lparr>lq := (lq l)\<lparr>valueLq := valueLq (lq l) - 1\<rparr>\<rparr>
      else l)"

definition plc_quality :: "plc_table \<Rightarrow> olsr_ip_addr \<Rightarrow> if_mode \<Rightarrow> default_lq_hybrid_plc \<Rightarrow> default_lq_hybrid_plc" where
  "plc_quality peers nbr mode l =
     (if mode = IF_MODE_PLC then
        let l1 = (case lookup_plc_peer_by_ip nbr peers of
                    None \<Rightarrow> l
                  | Some peer \<Rightarrow> l\<lparr>quality := tx_rate (plc_data peer)\<rparr>);
            l2 = l1\<lparr>bandwidth := 151\<rparr>
        in if quality l2 < 1 then l2\<lparr>quality := 1\<rparr> else l2
      else l)"

definition lq_timer_link :: "plc_table \<Rightarrow> plc_link \<Rightarrow> plc_link" where
  "lq_timer_link peers link =
     (let t = linkquality_hello link;
          t = (if unat (windowSize t) < LQ_HYBRID_PLC_WINDOW then t\<lparr>windowSize := windowSize t + 1\<rparr> else t);
          recv = sum_list (map uint (take (unat (windowSize t)) (received t)));
          tot = sum_list (map uint (take (unat (windowSize t)) (total t)));
          t = t\<lparr>lq := (lq t)\<lparr>valueLq :=
                window_quality (loss_link_multiplier link) (missed_hellos t) (hello_etime link) recv tot\<rparr>\<rparr>;
          t = ethernet_booster (inter_mode link) t;
          p = (unat (activePtr t) + 1) mod LQ_HYBRID_PLC_WINDOW;
          t = t\<lparr>activePtr := of_nat p, total := (total t)[p := 0], received := (received t)[p := 0]\<rparr>;
          t = t\<lparr>lq := plc_quality peers (neighbor_iface_addr link) (inter_mode link) (lq t)\<rparr>
      in link\<lparr>linkquality_hello := t\<rparr>)"

section \<open>Reaction to changes\<close>

definition lq_change_up :: "u8 \<Rightarrow> u8 \<Rightarrow> bool" where
  "lq_change_up old new \<longleftrightarrow> new \<ge> 254 \<or> new - old > old div 10"

definition relevant_change :: "u8 \<Rightarrow> u8 \<Rightarrow> bool" where
  "relevant_change old new \<longleftrightarrow>
     (if old < new then lq_change_up old new else if old > new then old - new > old div 10 else False)"

definition relevant_quality :: "u8 \<Rightarrow> u8 \<Rightarrow> bool" where
  "relevant_quality old new \<longleftrightarrow> old < new \<and> new - old > old div 10"

definition lq_relevant :: "default_lq_hybrid_plc_hello \<Rightarrow> bool" where
  "lq_relevant l \<longleftrightarrow>
     relevant_change (valueLq (smoothed_lq l)) (valueLq (lq l)) \<or>
     relevant_change (valueNlq (smoothed_lq l)) (valueNlq (lq l)) \<or>
     relevant_quality (quality (smoothed_lq l)) (quality (lq l))"

definition adopt_lq :: "plc_link \<Rightarrow> plc_link" where
  "adopt_lq link =
     (let l = linkquality_hello link; l' = l\<lparr>smoothed_lq := lq l\<rparr>
      in link\<lparr>linkquality_hello := l', linkcost := default_lq_calc_cost_hybrid_plc (smoothed_lq l')\<rparr>)"

definition lq_second_pass :: "plc_link \<Rightarrow> plc_link" where
  "lq_second_pass link =
     (let l = linkquality_hello link in
      if valueLq (smoothed_lq l) \<ge> 254 \<and> valueNlq (smoothed_lq l) \<ge> 254 then link
      else if valueLq (smoothed_lq l) = valueLq (lq l) \<and> valueNlq (smoothed_lq l) = valueNlq (lq l) then link
      else adopt_lq link)"

text \<open>The new links and whether \<open>olsr_relevant_linkcost_change\<close> is called.\<close>

definition default_lq_hybrid_plc_handle_lqchange :: "plc_link list \<Rightarrow> plc_link list \<times> bool" where
  "default_lq_hybrid_plc_handle_lqchange links =
     (let triggered = list_ex (\<lambda>l. lq_relevant (linkquality_hello l)) links;
          links' = map (\<lambda>l. if lq_relevant (linkquality_hello l) then adopt_lq l else l) links
      in if triggered then (map lq_second_pass links', True) else (links', False))"

definition default_lq_hybrid_plc_timer :: "plc_table \<Rightarrow> plc_link list \<Rightarrow> plc_link list \<times> bool" where
  "default_lq_hybrid_plc_timer peers links =
     default_lq_hybrid_plc_handle_lqchange (map (lq_timer_link peers) links)"

text \<open>The computed cost is the exact quotient up to an error of less than two.\<close>

lemma float_cost_bounds:
  assumes n: "1 \<le> n" "n \<le> 96" and d: "5 \<le> d" "d \<le> 255"
  shows "float_cost n d * d \<le> 102400 * n + d" "102400 * n < (float_cost n d + 2) * d"
proof -
  define k m j V where "k = float_up n d 0" and "m = rnd_even (n * 2 ^ k) d"
    and "j = float_down (m * 100) 0" and "V = rnd_even (m * 100) (2 ^ j) * 2 ^ j"
  have K: "2 ^ 23 * d \<le> n * 2 ^ k" "n * 2 ^ k < 2 ^ 24 * d"
    using float_up_bounds [of n 0 d] n d unfolding k_def by auto
  have "2 ^ 23 * 5 \<le> 96 * (2::nat) ^ k"
  proof -
    have "2 ^ 23 * 5 \<le> 2 ^ 23 * d" using d by simp
    also have "\<dots> \<le> n * 2 ^ k" by (rule K)
    also have "\<dots> \<le> 96 * 2 ^ k" using n by simp
    finally show ?thesis .
  qed
  hence k: "131072 \<le> (2::nat) ^ k" by simp
  have M: "2 * (n * 2 ^ k) \<le> 2 * (m * d) + d" "2 * (m * d) \<le> 2 * (n * 2 ^ k) + d"
    using rnd_even_bounds [of d "n * 2 ^ k"] d unfolding m_def by auto
  have "m * d \<le> 2 ^ 24 * d + d" using M(2) K(2) by linarith
  also have "\<dots> = (2 ^ 24 + 1) * d" by simp
  finally have "m * d \<le> (2 ^ 24 + 1) * d" .
  hence "m \<le> 2 ^ 24 + 1" using d by (simp only: mult_le_cancel2)
  hence "m * 100 < 2 ^ 24 * 2 ^ 7" by simp
  hence "j \<le> 7" unfolding j_def by (rule float_down_bound) simp
  hence j: "(2::nat) ^ j \<le> 2 ^ 7" by (intro power_increasing) auto
  have V: "100 * m \<le> V + 64" "V \<le> 100 * m + 64"
    using rnd_even_bounds [of "2 ^ j" "m * 100"] j unfolding V_def by auto
  have c: "float_cost n d = V * 1024 div 2 ^ k"
    by (simp add: float_cost_def Let_def k_def m_def j_def V_def LQ_PLUGIN_LC_MULTIPLIER_def)
  let ?c = "float_cost n d"
  have C: "?c * 2 ^ k \<le> V * 1024" "V * 1024 < (?c + 1) * 2 ^ k"
    unfolding c using dividend_less_times_div [of "2 ^ k" "V * 1024"] by (simp_all add: algebra_simps)
  have Vd: "V * d \<le> 100 * (m * d) + 64 * d" "100 * (m * d) \<le> V * d + 64 * d"
    using mult_le_mono1 [OF V(2), of d] mult_le_mono1 [OF V(1), of d] by (simp_all add: algebra_simps)
  have kd: "131072 * d \<le> 2 ^ k * d" using k by simp
  have "?c * d * 2 ^ k \<le> V * d * 1024" using mult_le_mono1 [OF C(1), of d] by (simp add: algebra_simps)
  also have "\<dots> \<le> 102400 * (n * 2 ^ k) + 131072 * d" using Vd(1) M(2) by linarith
  also have "\<dots> \<le> (102400 * n + d) * 2 ^ k" using kd by (simp add: algebra_simps)
  finally show "?c * d \<le> 102400 * n + d" by simp
  have "102400 * (n * 2 ^ k) \<le> V * d * 1024 + 131072 * d" using Vd(2) M(1) by linarith
  also have "\<dots> < (?c + 1) * 2 ^ k * d + 2 ^ k * d"
  proof -
    have "V * 1024 * d < (?c + 1) * 2 ^ k * d" using C(2) d by (intro mult_less_mono1) simp_all
    hence "V * d * 1024 < (?c + 1) * 2 ^ k * d" by (simp only: mult.commute mult.left_commute)
    with kd show ?thesis by linarith
  qed
  also have "\<dots> = (?c + 2) * d * 2 ^ k" by (simp add: algebra_simps)
  finally have "102400 * n * 2 ^ k < (?c + 2) * d * 2 ^ k" by (simp add: algebra_simps)
  thus "102400 * n < (?c + 2) * d" by simp
qed

section \<open>Properties of the cost\<close>

lemma u8_bounds: "25 \<le> v \<Longrightarrow> 26 \<le> lq_rounded_up v \<and> lq_rounded_up v \<le> 255" for v :: u8
  using u8_less [of v] by (auto simp: lq_rounded_up_def word_le_nat_alt word_less_nat_alt)

text \<open>The operands of the floating point expression.\<close>

definition cost_etx :: "default_lq_hybrid_plc \<Rightarrow> nat" where
  "cost_etx l = 255 * 255 div (lq_rounded_up (valueLq l) * lq_rounded_up (valueNlq l))"

definition cost_bw :: "default_lq_hybrid_plc \<Rightarrow> nat" where
  "cost_bw l = max 5 (unat (bandwidth l) * unat (quality l) div 255)"

lemma cost_operands:
  assumes "25 \<le> valueLq l" "25 \<le> valueNlq l"
  shows "1 \<le> cost_etx l" "cost_etx l \<le> 96" "5 \<le> cost_bw l" "cost_bw l \<le> 255"
proof -
  let ?a = "lq_rounded_up (valueLq l)" and ?b = "lq_rounded_up (valueNlq l)"
  have ab: "26 \<le> ?a" "?a \<le> 255" "26 \<le> ?b" "?b \<le> 255" using u8_bounds assms by auto
  have lo: "26 * 26 \<le> ?a * ?b" by (rule mult_le_mono) (fact ab)+
  have hi: "?a * ?b \<le> 255 * 255" by (rule mult_le_mono) (fact ab)+
  show "1 \<le> cost_etx l" unfolding cost_etx_def using hi ab by (simp add: div_greater_zero_iff Suc_le_eq)
  have "255 * 255 div (?a * ?b) \<le> 255 * 255 div (26 * 26)" using lo by (intro div_le_mono2) auto
  thus "cost_etx l \<le> 96" unfolding cost_etx_def by simp
  have "unat (bandwidth l) * unat (quality l) \<le> 255 * 255"
    using u8_less [of "bandwidth l"] u8_less [of "quality l"] by (intro mult_le_mono) auto
  thus "5 \<le> cost_bw l" "cost_bw l \<le> 255" unfolding cost_bw_def by auto
qed

lemma calc_cost_value:
  assumes "25 \<le> valueLq l" "25 \<le> valueNlq l"
  shows "unat (default_lq_calc_cost_hybrid_plc l) = float_cost (cost_etx l) (cost_bw l)"
    "1 \<le> float_cost (cost_etx l) (cost_bw l)" "float_cost (cost_etx l) (cost_bw l) < 2 ^ 22"
proof -
  let ?c = "float_cost (cost_etx l) (cost_bw l)"
  note op = cost_operands [OF assms] and B = float_cost_bounds [OF cost_operands [OF assms]]
  have "102400 < (?c + 2) * 255"
  proof -
    have "102400 * 1 \<le> 102400 * cost_etx l" using op(1) by simp
    also have "\<dots> < (?c + 2) * cost_bw l" by (rule B(2))
    also have "\<dots> \<le> (?c + 2) * 255" using op(4) by (intro mult_le_mono2)
    finally show ?thesis by simp
  qed
  thus pos: "1 \<le> ?c" by simp
  have "(?c - 1) * 5 \<le> (?c - 1) * cost_bw l" using op(3) by (intro mult_le_mono2)
  also have "\<dots> \<le> 102400 * cost_etx l" using B(1) pos by (simp add: diff_mult_distrib)
  also have "\<dots> \<le> 102400 * 96" using op(2) by simp
  finally show small: "?c < 2 ^ 22" by simp
  have u: "unat (of_nat ?c :: olsr_linkcost) = ?c" unfolding unat_of_nat using small by simp
  have bw: "(if unat (bandwidth l) * unat (quality l) div 255 < 5 then 5 else unat (bandwidth l) * unat (quality l) div 255) = cost_bw l"
    by (simp add: cost_bw_def max_def)
  have "default_lq_calc_cost_hybrid_plc l = of_nat ?c"
  proof -
    have "\<not> LINK_COST_BROKEN < (of_nat ?c :: olsr_linkcost)" "(of_nat ?c :: olsr_linkcost) \<noteq> 0"
      using u small pos by (auto simp: word_less_nat_alt LINK_COST_BROKEN_def unat_eq_zero)
    moreover have "\<not> (valueLq l < 25 \<or> valueNlq l < 25)" using assms by (simp add: not_less)
    ultimately show ?thesis
      unfolding default_lq_calc_cost_hybrid_plc_def Let_def bw cost_etx_def [symmetric] by simp
  qed
  with u show "unat (default_lq_calc_cost_hybrid_plc l) = ?c" by simp
qed

text \<open>
  The cost of a link is always between 1 and \<open>LINK_COST_BROKEN\<close>, and it is
  \<open>LINK_COST_BROKEN\<close> exactly when the quality in one direction is below a tenth: what the
  shortest path computation requires of the plugin.
\<close>

theorem calc_cost_range:
  "1 \<le> default_lq_calc_cost_hybrid_plc l \<and> default_lq_calc_cost_hybrid_plc l \<le> LINK_COST_BROKEN \<and>
   (default_lq_calc_cost_hybrid_plc l = LINK_COST_BROKEN \<longleftrightarrow> valueLq l < 25 \<or> valueNlq l < 25)"
proof (cases "valueLq l < 25 \<or> valueNlq l < 25")
  case True
  thus ?thesis by (simp add: default_lq_calc_cost_hybrid_plc_def LINK_COST_BROKEN_def)
next
  case False
  hence "25 \<le> valueLq l" "25 \<le> valueNlq l" by (simp_all add: not_less)
  from calc_cost_value [OF this] False show ?thesis
    by (auto simp: word_le_nat_alt LINK_COST_BROKEN_def)
qed

text \<open>
  C28. For a usable link the cost computed in single precision is the exact value
  \<open>102400 * etx / bw\<close> up to less than two units, so that rounding never reorders links whose
  exact costs differ by more.
\<close>

theorem calc_cost_accuracy:
  assumes "25 \<le> valueLq l" "25 \<le> valueNlq l"
  shows "unat (default_lq_calc_cost_hybrid_plc l) * cost_bw l \<le> 102400 * cost_etx l + cost_bw l \<and>
         102400 * cost_etx l < (unat (default_lq_calc_cost_hybrid_plc l) + 2) * cost_bw l"
  using float_cost_bounds [OF cost_operands [OF assms]] calc_cost_value(1) [OF assms] by simp

theorem calc_cost_accuracy_witness:
  "102400 * cost_etx \<lparr>valueLq = 200, valueNlq = 200, bandwidth = 151, quality = 100\<rparr> <
     (unat (default_lq_calc_cost_hybrid_plc \<lparr>valueLq = 200, valueNlq = 200, bandwidth = 151, quality = 100\<rparr>) + 2) *
     cost_bw \<lparr>valueLq = 200, valueNlq = 200, bandwidth = 151, quality = 100\<rparr>"
  using calc_cost_accuracy [of "\<lparr>valueLq = 200, valueNlq = 200, bandwidth = 151, quality = 100\<rparr>"] by simp

section \<open>Properties of the encoding\<close>

text \<open>
  What one node encodes into a HELLO or TC message another node decodes to the same link
  quality, consuming exactly the four bytes.
\<close>

theorem lq_pair_roundtrip:
  "default_lq_deserialize_hello_lq_pair_hybrid_plc (front @ default_lq_serialize_hello_lq_pair_hybrid_plc l @ rest) (length front) l0 =
     Some (l, length front + 4) \<and>
   default_lq_deserialize_tc_lq_pair_hybrid_plc (front @ default_lq_serialize_tc_lq_pair_hybrid_plc l @ rest) (length front) l0 =
     Some (l, length front + 4)"
  by (simp add: default_lq_serialize_hello_lq_pair_hybrid_plc_def default_lq_serialize_tc_lq_pair_hybrid_plc_def
      default_lq_deserialize_hello_lq_pair_hybrid_plc_def default_lq_deserialize_tc_lq_pair_hybrid_plc_def
      pkt_get_u8_def get_bytes_def)

section \<open>The window\<close>

definition window_ok :: "default_lq_hybrid_plc_hello \<Rightarrow> bool" where
  "window_ok l \<longleftrightarrow> length (received l) = 32 \<and> length (total l) = 32 \<and> activePtr l < 32 \<and>
     4 \<le> windowSize l \<and> windowSize l \<le> 32 \<and> (\<forall>i<32. received l ! i \<le> total l ! i)"

lemma window_ok_clear:
  "length (received l) = 32 \<Longrightarrow> activePtr l < 32 \<Longrightarrow> \<forall>i<32. received l ! i \<le> 3 \<Longrightarrow>
   window_ok (default_lq_clear_hybrid_plc_hello l)"
  by (simp add: window_ok_def default_lq_clear_hybrid_plc_hello_def LQ_HYBRID_PLC_WINDOW_def
      LQ_HYBRID_PLC_QUICKSTART_INIT_def)

text \<open>
  Counting a packet keeps the window consistent, whatever sequence number it carries: never
  more packets received than sent, as long as the counter of the slot is not about to wrap.
\<close>

theorem parser_keeps_window:
  assumes "window_ok l" "unat (total l ! unat (activePtr l)) < 2 ^ 16 - 256"
  shows "window_ok (default_lq_parser_hybrid_plc seqno l)"
proof (cases "last_seq_nr l = seqno")
  case False
  let ?p = "unat (activePtr l)"
  define diff where "diff = (if last_seq_nr l > seqno then unat seqno + 65536 - unat (last_seq_nr l)
                    else unat seqno - unat (last_seq_nr l))"
  define sd where "sd = (if diff > 256 then 1 else diff)"
  have "1 \<le> diff" unfolding diff_def using False u16_less [of seqno] u16_less [of "last_seq_nr l"]
    by (auto simp: word_less_nat_alt Suc_le_eq) (metis le_neq_implies_less not_less unsigned_word_eqI)
  hence sd: "1 \<le> sd" "sd \<le> 256" by (auto simp: sd_def)
  have p: "?p < 32" using assms(1) by (simp add: window_ok_def word_less_nat_alt)
  have rt: "unat (received l ! ?p) \<le> unat (total l ! ?p)"
    using assms(1) p by (simp add: window_ok_def word_le_nat_alt)
  have "unat (total l ! ?p + of_nat sd) = unat (total l ! ?p) + sd"
    using assms(2) sd by (simp add: unat_word_ariths unat_of_nat)
  moreover have "unat (received l ! ?p + 1) = unat (received l ! ?p) + 1"
    using assms(2) rt by (simp add: unat_word_ariths)
  ultimately have "received l ! ?p + 1 \<le> total l ! ?p + of_nat sd" using rt sd by (simp add: word_le_nat_alt)
  with False assms(1) p show ?thesis
    by (simp add: default_lq_parser_hybrid_plc_def Let_def window_ok_def nth_list_update
        flip: diff_def sd_def)
qed (use assms(1) in \<open>simp add: default_lq_parser_hybrid_plc_def\<close>)

definition demo_lq :: default_lq_hybrid_plc where
  "demo_lq = \<lparr>valueLq = 200, valueNlq = 190, bandwidth = 151, quality = 90\<rparr>"

definition demo_window :: default_lq_hybrid_plc_hello where
  "demo_window = \<lparr>smoothed_lq = demo_lq, lq = demo_lq, windowSize = 4, activePtr = 3, last_seq_nr = 65530,
     missed_hellos = 0, perfect_eth = False, received = replicate 32 2, total = replicate 32 3\<rparr>"

lemma demo_window_ok: "window_ok demo_window"
  by (simp add: window_ok_def demo_window_def)

theorem parser_keeps_window_witness: "window_ok (default_lq_parser_hybrid_plc 4 demo_window)"
  using parser_keeps_window [OF demo_window_ok, of 4] by (simp add: demo_window_def)

lemma booster_window:
  "received (ethernet_booster m l) = received l" "total (ethernet_booster m l) = total l"
  "activePtr (ethernet_booster m l) = activePtr l" "windowSize (ethernet_booster m l) = windowSize l"
  by (simp_all add: ethernet_booster_def Let_def)

text \<open>
  The periodic timer keeps the window of every link consistent and moves on to an empty
  slot.
\<close>

theorem timer_keeps_window:
  assumes "window_ok (linkquality_hello link)"
  shows "window_ok (linkquality_hello (lq_timer_link peers link)) \<and>
    (let l = linkquality_hello (lq_timer_link peers link)
     in received l ! unat (activePtr l) = 0 \<and> total l ! unat (activePtr l) = 0)"
proof -
  define t where "t = linkquality_hello link"
  define p where "p = (unat (activePtr t) + 1) mod 32"
  have p: "p < 32" by (simp add: p_def)
  hence up: "unat (of_nat p :: u8) = p" unfolding unat_of_nat by simp
  have w: "4 \<le> (if unat (windowSize t) < 32 then windowSize t + 1 else windowSize t)"
    "(if unat (windowSize t) < 32 then windowSize t + 1 else windowSize t) \<le> 32"
    using assms u8_less [of "windowSize t"]
    by (auto simp: window_ok_def t_def word_le_nat_alt unat_word_ariths)
  have l: "received (linkquality_hello (lq_timer_link peers link)) = (received t)[p := 0]"
    "total (linkquality_hello (lq_timer_link peers link)) = (total t)[p := 0]"
    "activePtr (linkquality_hello (lq_timer_link peers link)) = of_nat p"
    "windowSize (linkquality_hello (lq_timer_link peers link)) =
       (if unat (windowSize t) < 32 then windowSize t + 1 else windowSize t)"
    by (simp_all add: lq_timer_link_def Let_def booster_window p_def t_def LQ_HYBRID_PLC_WINDOW_def)
  have "(of_nat p :: u8) < 32" using up p by (simp add: word_less_nat_alt)
  with assms w p up show ?thesis
    unfolding window_ok_def l Let_def t_def [symmetric] by (simp add: nth_list_update)
qed

definition demo_link :: plc_link where
  "demo_link = \<lparr>neighbor_iface_addr = V4 1, inter_mode = IF_MODE_PLC, hello_etime = 2000,
     loss_link_multiplier = 65536, linkcost = default_lq_calc_cost_hybrid_plc demo_lq,
     linkquality_hello = demo_window\<rparr>"

theorem timer_keeps_window_witness:
  "window_ok (linkquality_hello demo_link) \<and> window_ok (linkquality_hello (lq_timer_link demo_peers demo_link))"
  using timer_keeps_window [of demo_link demo_peers] demo_window_ok by (simp add: demo_link_def)

lemma c_div_nonneg: "0 \<le> x \<Longrightarrow> 0 < y \<Longrightarrow> c_div x y = x div y"
  by (cases "x = 0") (simp_all add: c_div_def)

lemma div_between: "0 < (d::int) \<Longrightarrow> n div d * d \<le> n \<and> n < (n div d + 1) * d"
  using div_mult_mod_eq [of n d] pos_mod_bound [of d n] pos_mod_sign [of d n]
  unfolding distrib_right by linarith

text \<open>The three roundings of the fixed point computation.\<close>

lemma window_quality_steps:
  assumes "0 \<le> recv" "recv \<le> tot" "0 < tot" "mult \<le> 65536" "missed \<le> 1"
  obtains a b c where "uint (window_quality mult missed etime recv tot) = c" "0 \<le> a" "0 \<le> b" "0 \<le> c"
    "a * 65536 \<le> uint mult * 1024" "uint mult * 1024 < (a + 1) * 65536"
    "b * tot \<le> a * recv" "a * recv < (b + 1) * tot" "c * 1024 \<le> b * 255" "b * 255 < (c + 1) * 1024"
proof -
  define a where "a = uint mult * 1024 div 65536"
  define b where "b = a * recv div tot"
  define c where "c = b * 255 div 1024"
  note ab = div_between [of 65536 "uint mult * 1024", folded a_def] div_between [OF assms(3), of "a * recv", folded b_def]
    div_between [of 1024 "b * 255", folded c_def]
  have m: "0 \<le> uint mult" "uint mult \<le> 65536" using assms(4) by (simp_all add: word_le_def)
  have a: "0 \<le> a" "a \<le> 1024" unfolding a_def using m by (simp_all add: pos_imp_zdiv_nonneg_iff)
  have b0: "0 \<le> b" unfolding b_def using a assms by (simp add: pos_imp_zdiv_nonneg_iff)
  have "a * recv \<le> 1024 * tot" using a assms by (intro mult_mono) auto
  hence "b * tot \<le> 1024 * tot" using ab by linarith
  hence "b \<le> 1024" using assms(3) by simp
  hence c: "0 \<le> c" "c \<le> 255" unfolding c_def using b0 by (simp_all add: pos_imp_zdiv_nonneg_iff)
  have "\<not> missed > 1" using assms(5) by (simp add: not_less)
  hence "window_quality mult missed etime recv tot = word_of_int c"
    using assms(1,3) m a b0
    by (simp add: window_quality_def Let_def fpmidiv_def fpmmuli_def itofpm_def fpmtoi_def FPM_BIT_def c_div_nonneg
        c_def b_def a_def)
  hence "uint (window_quality mult missed etime recv tot) = c" using c by (simp add: uint_word_of_int)
  with a(1) b0 c(1) ab show thesis by (intro that [of c a b]) simp_all
qed

text \<open>
  Without missed HELLOs the link quality is the share of received packets, scaled to 255
  and to the loss multiplier: it never exceeds that share, is less than two below it and does
  not wrap.
\<close>

theorem window_quality_share:
  assumes "0 \<le> recv" "recv \<le> tot" "0 < tot" "mult \<le> 65536" "missed \<le> 1"
  shows "uint (window_quality mult missed etime recv tot) * tot * 65536 \<le> 255 * uint mult * recv \<and>
    255 * uint mult * recv < (uint (window_quality mult missed etime recv tot) + 2) * tot * 65536"
proof -
  from assms obtain a b c where q: "uint (window_quality mult missed etime recv tot) = c"
    and nn: "0 \<le> a" "0 \<le> b" "0 \<le> c"
    and a: "a * 65536 \<le> uint mult * 1024" "uint mult * 1024 < (a + 1) * 65536"
    and b: "b * tot \<le> a * recv" "a * recv < (b + 1) * tot" and c: "c * 1024 \<le> b * 255" "b * 255 < (c + 1) * 1024"
    by (rule window_quality_steps)
  have "c * 1024 * tot \<le> b * 255 * tot" using c(1) assms(3) by (intro mult_right_mono) auto
  moreover have "a * 65536 * recv \<le> uint mult * 1024 * recv" using a(1) assms(1) by (intro mult_right_mono) auto
  ultimately have "c * tot * 65536 \<le> 255 * uint mult * recv" using b(1) by (simp add: algebra_simps)
  moreover have "uint mult * 1024 * recv \<le> (a + 1) * 65536 * recv" using a(2) assms(1) by (intro mult_right_mono) auto
  moreover have "b * 255 * tot < (c + 1) * 1024 * tot" using c(2) assms(3) by (intro mult_strict_right_mono) auto
  ultimately have "255 * uint mult * recv < (c + 2) * tot * 65536"
    using b(2) assms(1,2,3) by (simp add: algebra_simps)
  with \<open>c * tot * 65536 \<le> 255 * uint mult * recv\<close> show ?thesis unfolding q by simp
qed

theorem window_quality_share_witness: "uint (window_quality 65536 0 2000 10 30) * 30 * 65536 \<le> 255 * 65536 * 10"
  using window_quality_share [of 10 30 65536 0 2000] by simp

text \<open>
  The correction for missed HELLOs is not limited: with enough of them the corrected number of
  packets is negative and the quality, stored in an unsigned byte, becomes good again.
\<close>

lemma missed_hellos_wrap: "window_quality 65536 20 2000 10 30 = 239 \<and> window_quality 65536 0 2000 10 30 = 84"
  by (simp add: window_quality_def missed_correction_def fpmidiv_def fpmmuli_def itofpm_def fpmtoi_def FPM_BIT_def
      c_div_def Let_def LQ_HYBRID_PLC_WINDOW_def)

section \<open>Properties of the reaction to changes\<close>

lemma adopt_not_relevant: "\<not> lq_relevant (linkquality_hello (adopt_lq l))"
  by (simp add: adopt_lq_def lq_relevant_def relevant_change_def relevant_quality_def Let_def)

lemma adopt_cost: "linkcost (adopt_lq l) = default_lq_calc_cost_hybrid_plc (smoothed_lq (linkquality_hello (adopt_lq l)))"
  by (simp add: adopt_lq_def Let_def)



text \<open>
  A lower rate of a power line peer is never adopted by itself, however large the drop is: the
  comparison of \<open>quality\<close> has no branch for a decrease.
\<close>

lemma plc_rate_drop_ignored:
  assumes "valueLq (smoothed_lq (linkquality_hello l)) = valueLq (lq (linkquality_hello l))"
    "valueNlq (smoothed_lq (linkquality_hello l)) = valueNlq (lq (linkquality_hello l))"
    "quality (lq (linkquality_hello l)) \<le> quality (smoothed_lq (linkquality_hello l))"
  shows "default_lq_hybrid_plc_handle_lqchange [l] = ([l], False)"
proof -
  have "\<not> lq_relevant (linkquality_hello l)"
    using assms by (auto simp: lq_relevant_def relevant_change_def relevant_quality_def)
  thus ?thesis by (simp add: default_lq_hybrid_plc_handle_lqchange_def Let_def)
qed

end
