(* ===== verification/Olsr_Spf.thy ===== *)
theory Olsr_Spf
  imports Olsr_Lsdb
begin

text \<open>
  Dijkstra's algorithm of \<^verbatim>\<open>src/olsr_spf.c\<close>: the candidate tree is an AVL tree keyed by
  path cost, relaxation re-keys a vertex by unlinking it, changing its cost and linking it
  again, and the finished vertices are appended to the path list. A result \<^term>\<open>None\<close> is a
  dereference of a pointer that is not valid, a corrupted candidate tree or a loop that does
  not end; \<open>spf_run_correct\<close> shows that none of them happens and that the costs, hop counts
  and next hops left in the vertices are those of shortest paths.
\<close>

section \<open>The code\<close>

type_synonym cand = "(olsr_linkcost, ptr) avl_tree"

definition olsr_spf_add_cand_tree :: "cand \<Rightarrow> 'lq lsdb \<Rightarrow> ptr \<Rightarrow> cand option" where
  "olsr_spf_add_cand_tree cand_tree db p =
     Option.bind (tcs db p) (\<lambda>tc. map_option fst (avl_insert cand_tree (path_cost tc) p True))"

definition olsr_spf_del_cand_tree :: "cand \<Rightarrow> ptr \<Rightarrow> cand option" where
  "olsr_spf_del_cand_tree cand_tree p = avl_delete cand_tree p"

definition olsr_spf_add_path_list :: "ptr list \<Rightarrow> int \<Rightarrow> ptr \<Rightarrow> ptr list \<times> int" where
  "olsr_spf_add_path_list path_list path_count p = (path_list @ [p], path_count + 1)"

definition olsr_spf_extract_best :: "cand \<Rightarrow> ptr option" where
  "olsr_spf_extract_best cand_tree = avl_walk_first cand_tree"

text \<open>One pass of the loop over the edges of the vertex at \<open>p\<close>.\<close>

definition spf_relax_edge :: "ptr \<Rightarrow> ptr \<Rightarrow> cand \<times> 'lq lsdb \<Rightarrow> (cand \<times> 'lq lsdb) option" where
  "spf_relax_edge p ep = (\<lambda>(cand_tree, db).
     Option.bind (tcs db p) (\<lambda>tc.
     Option.bind (tc_edges db ep) (\<lambda>tc_edge.
       case edge_inv tc_edge of
         None \<Rightarrow> Some (cand_tree, db)
       | Some ei \<Rightarrow>
           if cost tc_edge = LINK_COST_BROKEN then Some (cand_tree, db)
           else
             Option.bind (tc_edges db ei) (\<lambda>tc_edge_inv.
             Option.bind (tcs db (edge_tc tc_edge_inv)) (\<lambda>new_tc.
               let new_cost = path_cost tc + cost tc_edge; q = edge_tc tc_edge_inv in
               if new_cost < path_cost new_tc then
                 Option.bind
                   (if path_cost new_tc < ROUTE_COST_BROKEN then olsr_spf_del_cand_tree cand_tree q
                    else Some cand_tree) (\<lambda>cand1.
                 let db1 = upd_tc q (path_cost_update (\<lambda>_. new_cost)) db in
                 Option.bind (olsr_spf_add_cand_tree cand1 db1 q) (\<lambda>cand2.
                 let db2 = (if next_hop tc \<noteq> None then upd_tc q (next_hop_update (\<lambda>_. next_hop tc)) db1
                            else db1);
                     db3 = upd_tc q (hops_update (\<lambda>_. hops tc + 1)) db2
                 in Some (cand2, db3)))
               else Some (cand_tree, db))))))"

fun spf_relax_edges :: "ptr \<Rightarrow> ptr list \<Rightarrow> cand \<times> 'lq lsdb \<Rightarrow> (cand \<times> 'lq lsdb) option" where
  "spf_relax_edges p [] st = Some st"
| "spf_relax_edges p (ep # eps) st = Option.bind (spf_relax_edge p ep st) (spf_relax_edges p eps)"

definition olsr_spf_relax :: "cand \<times> 'lq lsdb \<Rightarrow> ptr \<Rightarrow> (cand \<times> 'lq lsdb) option" where
  "olsr_spf_relax st p =
     Option.bind (tcs (snd st) p) (\<lambda>tc. spf_relax_edges p (edges_of tc) st)"

text \<open>The main loop, with the number of passes it may still make.\<close>

fun spf_loop :: "nat \<Rightarrow> cand \<times> 'lq lsdb \<Rightarrow> ptr list \<Rightarrow> int \<Rightarrow> ((cand \<times> 'lq lsdb) \<times> ptr list \<times> int) option" where
  "spf_loop 0 st path_list path_count =
     (if olsr_spf_extract_best (fst st) = None then Some (st, path_list, path_count) else None)"
| "spf_loop (Suc fuel) st path_list path_count =
     (case olsr_spf_extract_best (fst st) of
        None \<Rightarrow> Some (st, path_list, path_count)
      | Some p \<Rightarrow>
          Option.bind (olsr_spf_relax st p) (\<lambda>(cand_tree, db).
          Option.bind (olsr_spf_del_cand_tree cand_tree p) (\<lambda>cand1.
          case olsr_spf_add_path_list path_list path_count p of
            (path_list', path_count') \<Rightarrow> spf_loop fuel (cand1, db) path_list' path_count')))"

definition olsr_spf_run_full :: "nat \<Rightarrow> cand \<Rightarrow> 'lq lsdb \<Rightarrow> ((cand \<times> 'lq lsdb) \<times> ptr list \<times> int) option" where
  "olsr_spf_run_full fuel cand_tree db = spf_loop fuel (cand_tree, db) [] 0"

text \<open>Initialisation of the vertices, as at the start of \<open>olsr_calculate_routing_table\<close>.\<close>

definition spf_init_vertices :: "'lq lsdb \<Rightarrow> 'lq lsdb" where
  "spf_init_vertices db =
     fold (\<lambda>p. upd_tc p (\<lambda>tc. tc\<lparr>next_hop := None, path_cost := ROUTE_COST_BROKEN, hops := 0\<rparr>))
       (vertices db) db"

section \<open>Routes\<close>

text \<open>
  \<open>route E s v w n h\<close>: a walk over the edges \<open>E\<close> from \<open>s\<close> to \<open>v\<close> of total cost \<open>w\<close> with \<open>n\<close>
  hops, whose first vertex after \<open>s\<close> is \<open>h\<close>.
\<close>

inductive route :: "('v \<times> nat \<times> 'v) set \<Rightarrow> 'v \<Rightarrow> 'v \<Rightarrow> nat \<Rightarrow> nat \<Rightarrow> 'v option \<Rightarrow> bool"
  for E :: "('v \<times> nat \<times> 'v) set" and s :: 'v where
  route_start: "route E s s 0 0 None"
| route_step: "route E s u w n h \<Longrightarrow> (u, c, v) \<in> E \<Longrightarrow>
    route E s v (w + c) (Suc n) (Some (case h of None \<Rightarrow> v | Some x \<Rightarrow> x))"

text \<open>The edges the algorithm uses: with an inverse edge and not broken.\<close>

definition spf_target :: "'lq lsdb \<Rightarrow> ptr \<Rightarrow> (nat \<times> ptr) option" where
  "spf_target db ep =
     Option.bind (tc_edges db ep) (\<lambda>e.
       if cost e = LINK_COST_BROKEN then None
       else Option.bind (edge_inv e) (\<lambda>ei.
         map_option (\<lambda>e'. (unat (cost e), edge_tc e')) (tc_edges db ei)))"

definition spf_edges :: "'lq lsdb \<Rightarrow> (ptr \<times> nat \<times> ptr) set" where
  "spf_edges db = {(u, c, v). u \<in> set (vertices db) \<and>
     (\<exists>tc ep. tcs db u = Some tc \<and> ep \<in> set (edges_of tc) \<and> spf_target db ep = Some (c, v))}"

definition edge_ok :: "'lq lsdb \<Rightarrow> ptr \<Rightarrow> bool" where
  "edge_ok db ep = (case tc_edges db ep of
       None \<Rightarrow> False
     | Some e \<Rightarrow> cost e \<le> LINK_COST_BROKEN \<and>
         (case edge_inv e of
            None \<Rightarrow> True
          | Some ei \<Rightarrow> (case tc_edges db ei of None \<Rightarrow> False | Some e' \<Rightarrow> edge_tc e' \<in> set (vertices db))))"

definition spf_wf :: "'lq lsdb \<Rightarrow> bool" where
  "spf_wf db \<longleftrightarrow> distinct (vertices db) \<and> length (vertices db) \<le> 1024 \<and>
     (\<forall>u\<in>set (vertices db). case tcs db u of None \<Rightarrow> False | Some tc \<Rightarrow> \<forall>ep\<in>set (edges_of tc). edge_ok db ep)"

abbreviation (input) pcost :: "'lq lsdb \<Rightarrow> ptr \<Rightarrow> olsr_linkcost" where
  "pcost db v \<equiv> path_cost (the (tcs db v))"

abbreviation (input) nhop :: "'lq lsdb \<Rightarrow> ptr \<Rightarrow> ptr option" where
  "nhop db v \<equiv> next_hop (the (tcs db v))"

abbreviation (input) nhops :: "'lq lsdb \<Rightarrow> ptr \<Rightarrow> u8" where
  "nhops db v \<equiv> hops (the (tcs db v))"

abbreviation (input) reached :: "'lq lsdb \<Rightarrow> ptr \<Rightarrow> bool" where
  "reached db v \<equiv> pcost db v < ROUTE_COST_BROKEN"

text \<open>The algorithm changes the cost, the next hop and the hop count of vertices, nothing else.\<close>

definition spf_strip :: "tc_entry \<Rightarrow> tc_entry" where
  "spf_strip tc = tc\<lparr>path_cost := 0, next_hop := None, hops := 0\<rparr>"

definition same_topo :: "'lq lsdb \<Rightarrow> 'lq lsdb \<Rightarrow> bool" where
  "same_topo db db' \<longleftrightarrow> db'\<lparr>tcs := tcs db\<rparr> = db \<and>
     (\<forall>p. map_option spf_strip (tcs db' p) = map_option spf_strip (tcs db p))"

lemma same_topoD:
  assumes "same_topo db db'"
  shows "tc_tree db' = tc_tree db" "tc_edges db' = tc_edges db" "tc_myself db' = tc_myself db"
proof -
  from assms have "db'\<lparr>tcs := tcs db\<rparr> = db" by (simp add: same_topo_def)
  from arg_cong [OF this, of tc_tree] arg_cong [OF this, of tc_edges] arg_cong [OF this, of tc_myself]
  show "tc_tree db' = tc_tree db" "tc_edges db' = tc_edges db" "tc_myself db' = tc_myself db" by simp_all
qed

lemma edges_of_strip: "edges_of (spf_strip tc) = edges_of tc"
  by (simp add: edges_of_def spf_strip_def)

lemma same_topo_edges:
  assumes "same_topo db db'"
  shows "map_option edges_of (tcs db' p) = map_option edges_of (tcs db p)"
proof -
  have "map_option edges_of (map_option spf_strip (tcs db' p)) = map_option edges_of (map_option spf_strip (tcs db p))"
    using assms by (simp add: same_topo_def)
  thus ?thesis by (simp add: option.map_comp comp_def edges_of_strip)
qed

lemma same_topo_facts:
  assumes "same_topo db db'"
  shows "vertices db' = vertices db" "spf_target db' = spf_target db" "edge_ok db' = edge_ok db"
    "spf_edges db' = spf_edges db" "spf_wf db' = spf_wf db"
proof -
  from assms have t: "tc_tree db' = tc_tree db" "tc_edges db' = tc_edges db" by (simp_all add: same_topoD)
  from t show v: "vertices db' = vertices db" by (simp add: vertices_def)
  from t show tg: "spf_target db' = spf_target db" by (intro ext) (simp add: spf_target_def cong: if_cong)
  from t v show eo: "edge_ok db' = edge_ok db" by (intro ext) (simp only: edge_ok_def t v)
  have e: "(\<exists>tc. tcs db' u = Some tc \<and> P (edges_of tc)) \<longleftrightarrow> (\<exists>tc. tcs db u = Some tc \<and> P (edges_of tc))" for u P
    using same_topo_edges [OF assms, of u] by (cases "tcs db' u"; cases "tcs db u") auto
  from e [of _ "\<lambda>es. \<exists>ep. ep \<in> set es \<and> spf_target db ep = Some (_, _)"]
  show "spf_edges db' = spf_edges db" unfolding spf_edges_def v tg by auto
  have c: "(case tcs d u of None \<Rightarrow> False | Some tc \<Rightarrow> Q (edges_of tc)) \<longleftrightarrow>
      (\<exists>tc. tcs d u = Some tc \<and> Q (edges_of tc))" for d :: "'a lsdb" and u Q by (cases "tcs d u") auto
  show "spf_wf db' = spf_wf db" unfolding spf_wf_def v eo c [where Q = "\<lambda>es. \<forall>ep\<in>set es. edge_ok db ep"]
    using e [where P = "\<lambda>es. \<forall>ep\<in>set es. edge_ok db ep"] by simp
qed

lemma same_topo_refl [simp]: "same_topo db db"
  by (simp add: same_topo_def)

lemma same_topo_trans:
  assumes "same_topo a b" "same_topo b c"
  shows "same_topo a c"
proof -
  from assms have "b\<lparr>tcs := tcs a\<rparr> = a" "c\<lparr>tcs := tcs b\<rparr> = b" by (simp_all add: same_topo_def)
  hence "(c\<lparr>tcs := tcs b\<rparr>)\<lparr>tcs := tcs a\<rparr> = a" by (simp only:)
  hence "c\<lparr>tcs := tcs a\<rparr> = a" by simp
  moreover have "\<forall>p. map_option spf_strip (tcs c p) = map_option spf_strip (tcs a p)"
    using assms by (simp add: same_topo_def)
  ultimately show ?thesis unfolding same_topo_def by blast
qed

lemma same_topo_dom: "same_topo db db' \<Longrightarrow> tcs db' p = None \<longleftrightarrow> tcs db p = None"
  unfolding same_topo_def by (metis option.map_disc_iff)

section \<open>The candidate tree\<close>

definition cand_ok :: "ptr set \<Rightarrow> cand \<times> 'lq lsdb \<Rightarrow> bool" where
  "cand_ok F = (\<lambda>(cand, db). avl_inv cand \<and>
     set (avl_walk cand) = {(pcost db v, v) |v. v \<in> set (vertices db) \<and> reached db v \<and> v \<notin> F})"

text \<open>Re-keying a vertex: unlinked if it was a candidate, given its new cost, linked again.\<close>

lemma cand_rekey:
  assumes ok: "cand_ok F (cand, db)" and v: "v \<in> set (vertices db)" "v \<notin> F" "tcs db v = Some tc"
    and c: "c < ROUTE_COST_BROKEN"
    and db': "same_topo db db'" "pcost db' v = c" "\<forall>x. x \<noteq> v \<longrightarrow> tcs db' x = tcs db x"
  shows "\<exists>cand1 cand2 i. (if path_cost tc < ROUTE_COST_BROKEN then olsr_spf_del_cand_tree cand v else Some cand) = Some cand1 \<and>
           avl_insert cand1 c v True = Some (cand2, i) \<and> cand_ok F (cand2, db')"
proof -
  let ?W = "{(pcost db x, x) |x. x \<in> set (vertices db) \<and> reached db x \<and> x \<notin> F}"
  from ok have inv: "avl_inv cand" and W: "set (avl_walk cand) = ?W" by (simp_all add: cand_ok_def)
  have "\<exists>cand1. (if path_cost tc < ROUTE_COST_BROKEN then olsr_spf_del_cand_tree cand v else Some cand) = Some cand1 \<and>
      avl_inv cand1 \<and> set (avl_walk cand1) = {p \<in> ?W. snd p \<noteq> v}"
  proof (cases "path_cost tc < ROUTE_COST_BROKEN")
    case True
    with v have "(path_cost tc, v) \<in> set (avl_walk cand)" unfolding W by simp
    hence "v \<in> snd ` set (avl_walk cand)" by force
    from avl.delete [OF inv this] obtain cand1 where "avl_delete cand v = Some cand1" "avl_inv cand1"
      "avl_walk cand1 = del_seq v (avl_walk cand)" by blast
    with True W show ?thesis by (simp add: olsr_spf_del_cand_tree_def)
  next
    case False
    with v(3) have "{p \<in> ?W. snd p \<noteq> v} = ?W" by auto
    with False inv W show ?thesis by simp
  qed
  then obtain cand1 where c1: "(if path_cost tc < ROUTE_COST_BROKEN then olsr_spf_del_cand_tree cand v else Some cand) = Some cand1"
      "avl_inv cand1" "set (avl_walk cand1) = {p \<in> ?W. snd p \<noteq> v}" by blast
  have "v \<notin> snd ` set (avl_walk cand1)" unfolding c1(3) by auto
  from avl.insert [OF c1(2) this, of True c] obtain cand2 where
    c2: "avl_insert cand1 c v True = Some (cand2, 0)" "avl_inv cand2" "avl_walk cand2 = ins_seq c v (avl_walk cand1)"
    by blast
  have "set (avl_walk cand2) = {(pcost db' x, x) |x. x \<in> set (vertices db') \<and> reached db' x \<and> x \<notin> F}"
  proof -
    have "(pcost db' x, x) \<in> insert (c, v) {p \<in> ?W. snd p \<noteq> v} \<longleftrightarrow>
        x \<in> set (vertices db) \<and> reached db' x \<and> x \<notin> F" for x
      using db' v c by (cases "x = v") auto
    moreover have "\<forall>p\<in>insert (c, v) {p \<in> ?W. snd p \<noteq> v}. fst p = pcost db' (snd p)"
      using db' by auto
    ultimately show ?thesis
      unfolding c2(3) set_ins_seq c1(3) same_topo_facts(1) [OF db'(1)]
      by (auto simp del: insert_iff)
  qed
  with c1 c2 show ?thesis by (auto simp: cand_ok_def)
qed

section \<open>The invariant\<close>

definition cost_bound :: "nat \<Rightarrow> nat" where
  "cost_bound n = n * (2 ^ 22 - 1)"

text \<open>A label: cost, hop count and next hop of a vertex are those of a route to it.\<close>

definition label_ok :: "'lq lsdb \<Rightarrow> ptr \<Rightarrow> 'lq lsdb \<Rightarrow> ptr \<Rightarrow> bool" where
  "label_ok db0 s db v \<longleftrightarrow> (\<exists>n h. route (spf_edges db0) s v (unat (pcost db v)) n h \<and> nhops db v = of_nat n \<and>
     (case h of None \<Rightarrow> v = s \<and> nhop db v = None | Some x \<Rightarrow> nhop db v = nhop db0 x \<and> nhop db0 x \<noteq> None))"

lemma label_cong: "tcs db' v = tcs db v \<Longrightarrow> label_ok db0 s db' v = label_ok db0 s db v"
  by (simp only: label_ok_def)

lemma label_route: "label_ok db0 s db v \<Longrightarrow> \<exists>n h. route (spf_edges db0) s v (unat (pcost db v)) n h"
  by (auto simp: label_ok_def)

lemma label_hop:
  "label_ok db0 s db v \<Longrightarrow> v \<noteq> s \<Longrightarrow> \<exists>n x. route (spf_edges db0) s v (unat (pcost db v)) n (Some x) \<and>
     nhops db v = of_nat n \<and> nhop db v = nhop db0 x \<and> nhop db0 x \<noteq> None"
proof -
  assume "label_ok db0 s db v" "v \<noteq> s"
  then obtain n h where r: "route (spf_edges db0) s v (unat (pcost db v)) n h" "nhops db v = of_nat n"
    and h: "case h of None \<Rightarrow> v = s \<and> nhop db v = None | Some x \<Rightarrow> nhop db v = nhop db0 x \<and> nhop db0 x \<noteq> None"
    by (auto simp: label_ok_def)
  from h \<open>v \<noteq> s\<close> obtain x where "h = Some x" by (cases h) auto
  with r h show ?thesis by (intro exI [of _ n] exI [of _ x]) simp
qed

definition spf_inv :: "'lq lsdb \<Rightarrow> ptr \<Rightarrow> ptr list \<Rightarrow> nat \<Rightarrow> (ptr \<times> nat \<times> ptr) set \<Rightarrow> cand \<times> 'lq lsdb \<Rightarrow> bool" where
  "spf_inv db0 s F b D = (\<lambda>(cand, db). same_topo db0 db \<and> cand_ok (set F) (cand, db) \<and>
     (\<forall>v\<in>set (vertices db0). reached db v \<longrightarrow> unat (pcost db v) \<le> cost_bound b \<and> label_ok db0 s db v) \<and>
     (\<forall>(x, c, v)\<in>D. reached db v \<and> unat (pcost db v) \<le> unat (pcost db x) + c) \<and>
     distinct F \<and> set F \<subseteq> set (vertices db0) \<and> sorted (map (pcost db) F) \<and>
     (\<forall>x\<in>set F. reached db x \<and> (\<forall>v\<in>set (vertices db0) - set F. pcost db x \<le> pcost db v)) \<and>
     pcost db s = 0 \<and> nhop db s = None \<and> (F \<noteq> [] \<longrightarrow> s \<in> set F) \<and>
     (F = [] \<longrightarrow> (\<forall>v\<in>set (vertices db0). nhop db v = nhop db0 v)))"

text \<open>What the start of the algorithm provides.\<close>

definition spf_start :: "'lq lsdb \<Rightarrow> ptr \<Rightarrow> bool" where
  "spf_start db s \<longleftrightarrow> spf_wf db \<and> s \<in> set (vertices db) \<and> nhop db s = None \<and> nhops db s = 0 \<and>
     (\<forall>v\<in>set (vertices db). pcost db v = (if v = s then 0 else ROUTE_COST_BROKEN)) \<and>
     (\<forall>(u, c, v)\<in>spf_edges db. u = s \<longrightarrow> v \<noteq> s \<longrightarrow> nhop db v \<noteq> None)"

text \<open>An edge of a well-formed database: where it leads and what following it costs.\<close>

lemma spf_target_bound:
  assumes "edge_ok db ep" "spf_target db ep = Some (c, v)"
  shows "c \<le> 2 ^ 22 - 1" "v \<in> set (vertices db)"
proof -
  from assms obtain e ei e' where e: "tc_edges db ep = Some e" "cost e \<noteq> LINK_COST_BROKEN" "cost e \<le> LINK_COST_BROKEN"
    "edge_inv e = Some ei" "tc_edges db ei = Some e'" "c = unat (cost e)" "v = edge_tc e'" "v \<in> set (vertices db)"
    by (auto simp: spf_target_def edge_ok_def split: option.splits if_splits bind_splits)
  have "cost e < LINK_COST_BROKEN" using e(2,3) by simp
  hence "unat (cost e) < 2 ^ 22" by (simp add: word_less_nat_alt LINK_COST_BROKEN_def)
  thus "c \<le> 2 ^ 22 - 1" "v \<in> set (vertices db)" using e by simp_all
qed

lemma no_overflow:
  fixes a c :: olsr_linkcost
  assumes "unat a \<le> cost_bound n" "n < 1024" "unat c \<le> 2 ^ 22 - 1"
  shows "unat (a + c) = unat a + unat c" "unat (a + c) \<le> cost_bound (Suc n)" "a + c < ROUTE_COST_BROKEN"
proof -
  have b: "unat a + unat c \<le> cost_bound (Suc n)" using assms by (simp add: cost_bound_def)
  have "cost_bound (Suc n) \<le> 1024 * (2 ^ 22 - 1)"
    unfolding cost_bound_def using assms(2) by (intro mult_right_mono) auto
  hence lt: "unat a + unat c < 2 ^ 32 - 1" using b by simp
  thus u: "unat (a + c) = unat a + unat c" by (simp add: unat_word_ariths)
  thus "unat (a + c) \<le> cost_bound (Suc n)" using b by simp
  show "a + c < ROUTE_COST_BROKEN" using lt u by (simp add: word_less_nat_alt ROUTE_COST_BROKEN_def)
qed

text \<open>The code of one pass, with the pointers of a well-formed database resolved.\<close>

lemma relax_edge_skip:
  assumes "tcs db u \<noteq> None" "edge_ok db ep" "spf_target db ep = None"
  shows "spf_relax_edge u ep (cand, db) = Some (cand, db)"
  using assms by (auto simp: spf_relax_edge_def edge_ok_def spf_target_def Let_def split: option.splits if_splits bind_splits)

lemma relax_edge_target:
  assumes "tcs db u = Some tc" "spf_target db ep = Some (c, v)" "tcs db v = Some vtc"
    and "c = unat w"
  shows "spf_relax_edge u ep (cand, db) =
    (if path_cost tc + w < path_cost vtc then
       Option.bind (if path_cost vtc < ROUTE_COST_BROKEN then olsr_spf_del_cand_tree cand v else Some cand) (\<lambda>cand1.
       Option.bind (map_option fst (avl_insert cand1 (path_cost tc + w) v True)) (\<lambda>cand2.
       Some (cand2, upd_tc v (\<lambda>t. t\<lparr>path_cost := path_cost tc + w,
         next_hop := (if next_hop tc \<noteq> None then next_hop tc else next_hop t), hops := hops tc + 1\<rparr>) db)))
     else Some (cand, db))"
proof -
  from assms obtain e ei e' where e: "tc_edges db ep = Some e" "cost e \<noteq> LINK_COST_BROKEN"
    "edge_inv e = Some ei" "tc_edges db ei = Some e'" "unat w = unat (cost e)" "v = edge_tc e'"
    by (auto simp: spf_target_def split: option.splits if_splits bind_splits)
  hence w: "w = cost e" by (simp add: unsigned_word_eqI)
  show ?thesis using e assms w
    by (auto simp: spf_relax_edge_def olsr_spf_add_cand_tree_def upd_tc_upd comp_def Let_def intro!: Option.bind_cong)
qed

section \<open>One pass of the relaxation loop\<close>

lemma same_topo_upd:
  assumes "\<forall>t. spf_strip (f t) = spf_strip t"
  shows "same_topo db (upd_tc v f db)"
  using assms by (auto simp: same_topo_def upd_tc_def option.map_comp comp_def)

text \<open>The label of the target after a better route through \<open>u\<close> was found.\<close>

lemma label_step:
  assumes u: "label_ok db0 s db u" and e: "(u, c, v) \<in> spf_edges db0" "v \<noteq> s"
    and start: "spf_start db0 s" and first: "u = s \<longrightarrow> nhop db v = nhop db0 v"
    and new: "unat (pcost db' v) = unat (pcost db u) + c" "nhops db' v = nhops db u + 1"
      "nhop db' v = (if nhop db u \<noteq> None then nhop db u else nhop db v)"
    and sNone: "nhop db s = None"
  shows "label_ok db0 s db' v"
proof -
  from u obtain n h where r: "route (spf_edges db0) s u (unat (pcost db u)) n h" "nhops db u = of_nat n"
    and h: "case h of None \<Rightarrow> u = s \<and> nhop db u = None | Some x \<Rightarrow> nhop db u = nhop db0 x \<and> nhop db0 x \<noteq> None"
    by (auto simp: label_ok_def)
  let ?h = "Some (case h of None \<Rightarrow> v | Some x \<Rightarrow> x)"
  from route_step [OF r(1) e(1)] have "route (spf_edges db0) s v (unat (pcost db' v)) (Suc n) ?h"
    using new(1) by simp
  moreover have "nhops db' v = of_nat (Suc n)" using new(2) r(2) by simp
  moreover have "nhop db' v = nhop db0 (case h of None \<Rightarrow> v | Some x \<Rightarrow> x) \<and> nhop db0 (case h of None \<Rightarrow> v | Some x \<Rightarrow> x) \<noteq> None"
  proof (cases h)
    case None
    with h have us: "u = s" "nhop db s = None" by auto
    with start e have "nhop db0 v \<noteq> None" by (force simp: spf_start_def)
    with None us first new(3) show ?thesis by simp
  qed (use h new(3) in auto)
  ultimately show ?thesis unfolding label_ok_def by (intro exI [of _ "Suc n"] exI [of _ ?h]) simp
qed

lemma spf_inv_edge:
  assumes "spf_inv db0 s F b D (cand, db)" "unat (pcost db v) \<le> unat (pcost db u) + c" "reached db v"
  shows "spf_inv db0 s F b (insert (u, c, v) D) (cand, db)"
  using assms by (simp add: spf_inv_def)

text \<open>The invariant survives a better label of one vertex that is not finished.\<close>

lemma spf_inv_improve:
  assumes inv: "spf_inv db0 s F b D (cand, db)" and topo: "same_topo db db'"
    and cand: "cand_ok (set F) (cand', db')" and same: "\<forall>x. x \<noteq> v \<longrightarrow> tcs db' x = tcs db x"
    and v: "v \<notin> set F" "v \<noteq> s" "pcost db' v \<le> pcost db v" "\<forall>x\<in>set F. pcost db x \<le> pcost db' v"
    and lab: "unat (pcost db' v) \<le> cost_bound b" "label_ok db0 s db' v"
    and src: "\<forall>(x, c, y)\<in>D. x \<noteq> v" and nh: "F = [] \<longrightarrow> nhop db' v = nhop db v"
  shows "spf_inv db0 s F b D (cand', db')"
  unfolding spf_inv_def prod.case
proof (intro conjI)
  show "same_topo db0 db'" using inv topo same_topo_trans by (auto simp: spf_inv_def)
  show "cand_ok (set F) (cand', db')" by (rule cand)
  have pF: "pcost db' x = pcost db x" if "x \<in> set F" for x using that same v(1) by metis
  show "\<forall>x\<in>set (vertices db0). reached db' x \<longrightarrow> unat (pcost db' x) \<le> cost_bound b \<and> label_ok db0 s db' x"
  proof (intro ballI impI)
    fix x assume x: "x \<in> set (vertices db0)" "reached db' x"
    show "unat (pcost db' x) \<le> cost_bound b \<and> label_ok db0 s db' x"
    proof (cases "x = v")
      case False
      with same have "tcs db' x = tcs db x" by simp
      with x inv label_cong [OF this] show ?thesis by (simp add: spf_inv_def)
    qed (use lab in simp)
  qed
  have le: "unat (pcost db' y) \<le> unat (pcost db y)" for y
    using same v(3) by (cases "y = v") (auto simp: word_le_nat_alt)
  show "\<forall>(x, c, y)\<in>D. reached db' y \<and> unat (pcost db' y) \<le> unat (pcost db' x) + c"
  proof (intro ballI, clarify)
    fix x c y assume d: "(x, c, y) \<in> D"
    with src same have "tcs db' x = tcs db x" by auto
    moreover have "reached db y" "unat (pcost db y) \<le> unat (pcost db x) + c" using inv d by (auto simp: spf_inv_def)
    ultimately show "reached db' y \<and> unat (pcost db' y) \<le> unat (pcost db' x) + c"
      using le [of y] by (simp add: word_less_nat_alt)
  qed
  show "distinct F" "set F \<subseteq> set (vertices db0)" "F \<noteq> [] \<longrightarrow> s \<in> set F" using inv by (simp_all add: spf_inv_def)
  have "map (pcost db') F = map (pcost db) F" using pF by simp
  moreover have "sorted (map (pcost db) F)" using inv by (simp add: spf_inv_def)
  ultimately show "sorted (map (pcost db') F)" by (simp only:)
  show "\<forall>x\<in>set F. reached db' x \<and> (\<forall>y\<in>set (vertices db0) - set F. pcost db' x \<le> pcost db' y)"
  proof (intro ballI conjI)
    fix x assume x: "x \<in> set F"
    show "reached db' x" using inv x pF [OF x] by (simp add: spf_inv_def)
    fix y assume y: "y \<in> set (vertices db0) - set F"
    have "pcost db x \<le> pcost db y" using inv x y by (simp add: spf_inv_def)
    thus "pcost db' x \<le> pcost db' y" using v(4) x pF [OF x] same by (cases "y = v") auto
  qed
  show "pcost db' s = 0" "nhop db' s = None" using inv same v(2) by (simp_all add: spf_inv_def)
  have "nhop db' x = nhop db x" if "F = []" for x using same nh that by (cases "x = v") auto
  thus "F = [] \<longrightarrow> (\<forall>x\<in>set (vertices db0). nhop db' x = nhop db0 x)" using inv by (simp add: spf_inv_def)
qed

text \<open>The vertex being explored: a candidate of least cost.\<close>

definition spf_pivot :: "'lq lsdb \<Rightarrow> ptr \<Rightarrow> ptr list \<Rightarrow> 'lq lsdb \<Rightarrow> ptr \<Rightarrow> bool" where
  "spf_pivot db0 s F db u \<longleftrightarrow> u \<in> set (vertices db0) \<and> u \<notin> set F \<and> reached db u \<and>
     unat (pcost db u) \<le> cost_bound (length F) \<and> length F < 1024 \<and> (u = s \<longleftrightarrow> F = []) \<and>
     (\<forall>v\<in>set (vertices db0) - set F. pcost db u \<le> pcost db v) \<and> (\<forall>x\<in>set F. pcost db x \<le> pcost db u)"

lemma relax_edge_step:
  assumes start: "spf_start db0 s" and inv: "spf_inv db0 s F (Suc (length F)) D (cand, db)"
    and piv: "spf_pivot db0 s F db u" and src: "\<forall>(x, c, y)\<in>D. x \<in> insert u (set F)"
    and ep: "tcs db0 u = Some tc0" "ep \<in> set (edges_of tc0)"
  shows "\<exists>cand' db'. spf_relax_edge u ep (cand, db) = Some (cand', db') \<and> spf_pivot db0 s F db' u \<and>
           spf_inv db0 s F (Suc (length F)) (D \<union> {(u, c, v) |c v. spf_target db0 ep = Some (c, v)}) (cand', db')"
proof -
  from inv have topo: "same_topo db0 db" by (simp add: spf_inv_def)
  note T = same_topo_facts [OF topo] and u = piv [unfolded spf_pivot_def]
  from start have wf: "spf_wf db0" by (simp add: spf_start_def)
  from wf u ep have eok: "edge_ok db0 ep" by (auto simp: spf_wf_def split: option.splits)
  have dom: "tcs db x \<noteq> None" if "x \<in> set (vertices db0)" for x
    using wf that same_topo_dom [OF topo, of x] by (auto simp: spf_wf_def split: option.splits)
  then obtain utc where utc: "tcs db u = Some utc" using u by blast
  show ?thesis
  proof (cases "spf_target db0 ep")
    case None
    with relax_edge_skip [of db u ep cand] utc eok T inv piv show ?thesis by simp
  next
    case (Some cv)
    then obtain c v where t: "spf_target db0 ep = Some (c, v)" by (cases cv) auto
    note bd = spf_target_bound [OF eok t]
    from dom [OF bd(2)] obtain vtc where vtc: "tcs db v = Some vtc" by blast
    define w :: olsr_linkcost where "w = of_nat c"
    have cw: "c = unat w" unfolding w_def using bd(1) by (simp add: unat_of_nat)
    have edge: "(u, c, v) \<in> spf_edges db0" using u ep t by (auto simp: spf_edges_def)
    have sum: "unat (pcost db u + w) = unat (pcost db u) + c" "unat (pcost db u + w) \<le> cost_bound (Suc (length F))"
      "pcost db u + w < ROUTE_COST_BROKEN"
      using no_overflow [of "pcost db u" "length F" w] u bd(1) cw by simp_all
    hence ge: "pcost db u \<le> pcost db u + w" by (simp add: word_le_nat_alt)
    have D: "D \<union> {(u, c, v) |c v. spf_target db0 ep = Some (c, v)} = insert (u, c, v) D" using t by auto
    note code = relax_edge_target [OF utc _ vtc cw, of ep cand]
    show ?thesis
    proof (cases "pcost db u + w < pcost db v")
      case False
      hence "unat (pcost db v) \<le> unat (pcost db u) + c" using sum(1) by (simp add: word_less_nat_alt not_less)
      moreover have "reached db v" using False sum(3) by (simp add: not_less)
      moreover from False code t T vtc utc have "spf_relax_edge u ep (cand, db) = Some (cand, db)" by simp
      ultimately show ?thesis using spf_inv_edge [OF inv] piv unfolding D by blast
    next
      case True
      let ?db = "upd_tc v (\<lambda>t. t\<lparr>path_cost := path_cost utc + w,
          next_hop := (if next_hop utc \<noteq> None then next_hop utc else next_hop t), hops := hops utc + 1\<rparr>) db"
      have vF: "v \<notin> set F" using True u ge by (meson leD order.trans)
      have vu: "v \<noteq> u" "v \<noteq> s" using True ge inv by (auto simp: spf_inv_def)
      have st: "same_topo db ?db" by (rule same_topo_upd) (simp add: spf_strip_def)
      have vc: "pcost ?db v = pcost db u + w" using vtc utc by simp
      have same: "\<forall>x. x \<noteq> v \<longrightarrow> tcs ?db x = tcs db x" by simp
      from inv have "cand_ok (set F) (cand, db)" by (simp add: spf_inv_def)
      from cand_rekey [OF this _ vF vtc sum(3) st vc same] bd(2) T(1) obtain cand1 cand2 i where
        c: "(if path_cost vtc < ROUTE_COST_BROKEN then olsr_spf_del_cand_tree cand v else Some cand) = Some cand1"
           "avl_insert cand1 (pcost db u + w) v True = Some (cand2, i)" "cand_ok (set F) (cand2, ?db)" by auto
      have run: "spf_relax_edge u ep (cand, db) = Some (cand2, ?db)"
        using code t T True c vtc utc by simp
      have "label_ok db0 s db u" "nhop db s = None" "u = s \<longrightarrow> nhop db v = nhop db0 v"
        using inv u bd(2) by (auto simp: spf_inv_def)
      with label_step [OF _ edge vu(2) start, of db ?db] sum vtc utc have lab: "label_ok db0 s ?db v" by simp
      have "spf_inv db0 s F (Suc (length F)) D (cand2, ?db)"
      proof (rule spf_inv_improve [OF inv st c(3) same vF vu(2)])
        show "pcost ?db v \<le> pcost db v" unfolding vc using True by simp
        show "\<forall>x\<in>set F. pcost db x \<le> pcost ?db v" unfolding vc using u ge by (meson order.trans)
        show "F = [] \<longrightarrow> nhop ?db v = nhop db v" using u inv utc vtc by (auto simp: spf_inv_def)
      qed (use vc sum lab src vF vu in auto)
      moreover have "unat (pcost ?db v) \<le> unat (pcost ?db u) + c" unfolding vc using sum vu by simp
      moreover have "reached ?db v" unfolding vc by (rule sum(3))
      moreover have "spf_pivot db0 s F ?db u"
        using piv vu vF ge utc vtc by (auto simp: spf_pivot_def)
      ultimately show ?thesis using run spf_inv_edge unfolding D by blast
    qed
  qed
qed

section \<open>The main loop\<close>

lemma spf_inv_cand:
  assumes "spf_inv db0 s F b D (cand, db)"
  shows "avl_inv cand"
    "set (avl_walk cand) = {(pcost db v, v) |v. v \<in> set (vertices db0) \<and> reached db v \<and> v \<notin> set F}"
proof -
  from assms have "same_topo db0 db" by (simp add: spf_inv_def)
  from same_topo_facts(1) [OF this] assms show "avl_inv cand"
    "set (avl_walk cand) = {(pcost db v, v) |v. v \<in> set (vertices db0) \<and> reached db v \<and> v \<notin> set F}"
    by (simp_all add: spf_inv_def cand_ok_def)
qed

lemma relax_edges_ok:
  assumes start: "spf_start db0 s" and ep: "tcs db0 u = Some tc0" "set eps \<subseteq> set (edges_of tc0)"
    and inv: "spf_inv db0 s F (Suc (length F)) D (cand, db)" and piv: "spf_pivot db0 s F db u"
    and src: "\<forall>(x, c, y)\<in>D. x \<in> insert u (set F)"
  shows "\<exists>cand' db'. spf_relax_edges u eps (cand, db) = Some (cand', db') \<and> spf_pivot db0 s F db' u \<and>
    spf_inv db0 s F (Suc (length F)) (D \<union> {(u, c, v) |c v. \<exists>ep\<in>set eps. spf_target db0 ep = Some (c, v)}) (cand', db')"
  using ep(2) inv piv src
proof (induction eps arbitrary: D cand db)
  case (Cons e eps)
  let ?D = "D \<union> {(u, c, v) |c v. spf_target db0 e = Some (c, v)}"
  from relax_edge_step [OF start Cons.prems(2-4) ep(1), of e] Cons.prems(1) obtain cand1 db1 where
    one: "spf_relax_edge u e (cand, db) = Some (cand1, db1)" "spf_pivot db0 s F db1 u"
      "spf_inv db0 s F (Suc (length F)) ?D (cand1, db1)" by auto
  have src: "\<forall>(x, c, y)\<in>?D. x \<in> insert u (set F)" using Cons.prems(4) by auto
  have "?D \<union> {(u, c, v) |c v. \<exists>ep\<in>set eps. spf_target db0 ep = Some (c, v)} =
      D \<union> {(u, c, v) |c v. \<exists>ep\<in>set (e # eps). spf_target db0 ep = Some (c, v)}" by auto
  with Cons.IH [OF _ one(3,2) src] Cons.prems(1) one(1) show ?case by auto
qed simp

definition main_inv :: "'lq lsdb \<Rightarrow> ptr \<Rightarrow> ptr list \<Rightarrow> cand \<times> 'lq lsdb \<Rightarrow> bool" where
  "main_inv db0 s F st \<longleftrightarrow> spf_inv db0 s F (length F) {(x, c, v) \<in> spf_edges db0. x \<in> set F} st \<and>
     (F = [] \<longrightarrow> (\<forall>v\<in>set (vertices db0). reached (snd st) v \<longrightarrow> v = s))"

lemma cost_bound_mono: "m \<le> n \<Longrightarrow> cost_bound m \<le> cost_bound n"
  by (simp add: cost_bound_def)

text \<open>The first node of the candidate tree is a pivot.\<close>

lemma first_pivot:
  assumes start: "spf_start db0 s" and main: "main_inv db0 s F (cand, db)"
    and best: "olsr_spf_extract_best cand = Some u"
  shows "spf_pivot db0 s F db u"
proof -
  from main have inv: "spf_inv db0 s F (length F) {(x, c, v) \<in> spf_edges db0. x \<in> set F} (cand, db)"
    by (simp add: main_inv_def)
  note ok = spf_inv_cand(1) [OF inv] and W = spf_inv_cand(2) [OF inv]
  from avl.first_min [OF ok] best obtain k rest where
    f: "avl_walk cand = (k, u) # rest" "\<forall>p\<in>set (avl_walk cand). k \<le> fst p"
    by (auto simp: olsr_spf_extract_best_def)
  have "(k, u) \<in> set (avl_walk cand)" using f(1) by simp
  hence u: "k = pcost db u" "u \<in> set (vertices db0)" "reached db u" "u \<notin> set F" unfolding W by auto
  have F: "distinct F" "set F \<subseteq> set (vertices db0)" using inv by (simp_all add: spf_inv_def)
  have "card (set F) < card (set (vertices db0))" using F u by (intro psubset_card_mono) auto
  hence "length F < 1024" using start F(1) by (auto simp: distinct_card spf_start_def spf_wf_def)
  moreover have "pcost db u \<le> pcost db v" if "v \<in> set (vertices db0) - set F" for v
  proof (cases "reached db v")
    case True
    hence "(pcost db v, v) \<in> set (avl_walk cand)" unfolding W using that by auto
    with f(2) u(1) show ?thesis by fastforce
  qed (use u(3) in auto)
  moreover have "u = s \<longleftrightarrow> F = []" using main inv u by (auto simp: main_inv_def spf_inv_def)
  ultimately show ?thesis using inv u by (auto simp: spf_pivot_def spf_inv_def)
qed

text \<open>A finished pivot joins the path list.\<close>

lemma finish_pivot:
  assumes inv: "spf_inv db0 s F (Suc (length F)) D (cand, db)" and piv: "spf_pivot db0 s F db u"
    and D: "D = {(x, c, v) \<in> spf_edges db0. x \<in> insert u (set F)}"
  shows "\<exists>cand'. olsr_spf_del_cand_tree cand u = Some cand' \<and> main_inv db0 s (F @ [u]) (cand', db)"
proof -
  note u = piv [unfolded spf_pivot_def]
  from inv have topo: "same_topo db0 db" and ok: "avl_inv cand" and
    W: "set (avl_walk cand) = {(pcost db v, v) |v. v \<in> set (vertices db) \<and> reached db v \<and> v \<notin> set F}"
    by (simp_all add: spf_inv_def cand_ok_def)
  have "(pcost db u, u) \<in> set (avl_walk cand)" unfolding W using u same_topo_facts(1) [OF topo] by simp
  hence "u \<in> snd ` set (avl_walk cand)" by force
  from avl.delete [OF ok this] obtain cand' where c: "avl_delete cand u = Some cand'" "avl_inv cand'"
    "avl_walk cand' = del_seq u (avl_walk cand)" by blast
  have "set (avl_walk cand') = {(pcost db v, v) |v. v \<in> set (vertices db) \<and> reached db v \<and> v \<notin> set (F @ [u])}"
    unfolding c(3) set_del_seq W by auto
  hence "cand_ok (set (F @ [u])) (cand', db)" using c(2) by (simp add: cand_ok_def)
  moreover have "s = u \<or> s \<in> set F" using inv u by (cases "F = []") (simp_all add: spf_inv_def)
  moreover have "sorted (map (pcost db) (F @ [u]))" using inv u by (simp add: spf_inv_def sorted_append)
  ultimately have "spf_inv db0 s (F @ [u]) (Suc (length F)) D (cand', db)"
    using inv u by (simp add: spf_inv_def)
  thus ?thesis using c(1) D by (simp add: main_inv_def olsr_spf_del_cand_tree_def)
qed

lemma main_step:
  assumes start: "spf_start db0 s" and main: "main_inv db0 s F (cand, db)"
    and best: "olsr_spf_extract_best cand = Some u"
  shows "\<exists>cand1 cand2 db'. olsr_spf_relax (cand, db) u = Some (cand1, db') \<and>
    olsr_spf_del_cand_tree cand1 u = Some cand2 \<and> main_inv db0 s (F @ [u]) (cand2, db')"
proof -
  let ?D = "{(x, c, v) \<in> spf_edges db0. x \<in> set F}"
  note piv = first_pivot [OF assms]
  from main have inv: "spf_inv db0 s F (length F) ?D (cand, db)" by (simp add: main_inv_def)
  hence inv': "spf_inv db0 s F (Suc (length F)) ?D (cand, db)"
    using cost_bound_mono [of "length F" "Suc (length F)"] by (auto simp: spf_inv_def intro: order.trans)
  from inv have topo: "same_topo db0 db" by (simp add: spf_inv_def)
  from start piv obtain tc0 where tc0: "tcs db0 u = Some tc0"
    by (auto simp: spf_start_def spf_wf_def spf_pivot_def split: option.splits)
  with same_topo_edges [OF topo, of u] obtain tc where tc: "tcs db u = Some tc" "edges_of tc = edges_of tc0"
    by (cases "tcs db u") auto
  from relax_edges_ok [OF start tc0 subset_refl inv' piv] obtain cand1 db' where
    r: "spf_relax_edges u (edges_of tc0) (cand, db) = Some (cand1, db')" "spf_pivot db0 s F db' u"
      "spf_inv db0 s F (Suc (length F)) (?D \<union> {(u, c, v) |c v. \<exists>ep\<in>set (edges_of tc0). spf_target db0 ep = Some (c, v)}) (cand1, db')"
    by auto
  have "?D \<union> {(u, c, v) |c v. \<exists>ep\<in>set (edges_of tc0). spf_target db0 ep = Some (c, v)} =
      {(x, c, v) \<in> spf_edges db0. x \<in> insert u (set F)}"
    using tc0 piv by (auto simp: spf_edges_def spf_pivot_def)
  from finish_pivot [OF r(3,2) this] r(1) tc show ?thesis by (auto simp: olsr_spf_relax_def)
qed

lemma cand_empty:
  assumes "main_inv db0 s F (cand, db)"
  shows "olsr_spf_extract_best cand = None \<longleftrightarrow> (\<forall>v\<in>set (vertices db0). reached db v \<longrightarrow> v \<in> set F)"
proof -
  from assms have inv: "spf_inv db0 s F (length F) {(x, c, v) \<in> spf_edges db0. x \<in> set F} (cand, db)"
    by (simp add: main_inv_def)
  note ok = spf_inv_cand(1) [OF inv] and W = spf_inv_cand(2) [OF inv]
  have "olsr_spf_extract_best cand = None \<longleftrightarrow> set (avl_walk cand) = {}"
    using avl.first_None [OF ok] by (simp add: olsr_spf_extract_best_def)
  thus ?thesis unfolding W by blast
qed

lemma spf_loop_ok:
  assumes "spf_start db0 s" "main_inv db0 s F st" "length (vertices db0) \<le> fuel + length F"
  shows "\<exists>st' F'. spf_loop fuel st F (int (length F)) = Some (st', F', int (length F')) \<and>
    main_inv db0 s F' st' \<and> olsr_spf_extract_best (fst st') = None"
  using assms
proof (induction fuel arbitrary: F st)
  case 0
  have "set F \<subseteq> set (vertices db0)" "distinct F"
    using "0.prems"(2) by (cases st; simp add: main_inv_def spf_inv_def)+
  moreover have "distinct (vertices db0)" using "0.prems"(1) by (simp add: spf_start_def spf_wf_def)
  ultimately have "set F = set (vertices db0)"
    using "0.prems"(3) by (intro card_seteq) (simp_all add: distinct_card)
  hence "olsr_spf_extract_best (fst st) = None"
    using cand_empty [of db0 s F "fst st" "snd st"] "0.prems"(2) by simp
  with "0.prems"(2) show ?case by simp
next
  case (Suc fuel)
  show ?case
  proof (cases "olsr_spf_extract_best (fst st)")
    case None
    with Suc.prems(2) show ?thesis by simp
  next
    case (Some u)
    obtain cand db where st: "st = (cand, db)" by fastforce
    from main_step [OF Suc.prems(1), of F cand db u] Suc.prems(2) Some st obtain cand1 cand2 db' where
      m: "olsr_spf_relax (cand, db) u = Some (cand1, db')" "olsr_spf_del_cand_tree cand1 u = Some cand2"
        "main_inv db0 s (F @ [u]) (cand2, db')" by auto
    from Suc.IH [OF Suc.prems(1) m(3)] Suc.prems(3) m(1,2) Some st show ?thesis
      by (simp add: olsr_spf_add_path_list_def add.commute)
  qed
qed

section \<open>Correctness\<close>

lemma spf_init_ok:
  assumes "spf_start db s"
  shows "\<exists>cand. olsr_spf_add_cand_tree avl_init db s = Some cand \<and> main_inv db s [] (cand, db)"
proof -
  from assms obtain tc where tc: "tcs db s = Some tc" "path_cost tc = 0"
    by (fastforce simp: spf_start_def spf_wf_def split: option.splits)
  from avl.insert [of avl_init s True 0] obtain cand where
    c: "avl_insert avl_init (0::olsr_linkcost) s True = Some (cand, 0)" "avl_inv cand" "avl_walk cand = [(0, s)]"
    by (auto simp: avl_inv_init)
  have lim: "(0::olsr_linkcost) < ROUTE_COST_BROKEN" by (simp add: ROUTE_COST_BROKEN_def)
  have P: "v \<in> set (vertices db) \<Longrightarrow> pcost db v = (if v = s then 0 else ROUTE_COST_BROKEN)" for v
    using assms by (simp add: spf_start_def)
  have "cand_ok (set []) (cand, db)" using assms c P lim by (auto simp: cand_ok_def spf_start_def split: if_splits)
  moreover have "label_ok db s db s"
    unfolding label_ok_def using assms tc route_start [of "spf_edges db" s]
    by (intro exI [of _ 0] exI [of _ None]) (simp add: spf_start_def)
  moreover have R: "v = s" if "v \<in> set (vertices db)" "reached db v" for v
    using P [OF that(1)] that(2) by (cases "v = s") simp_all
  ultimately have "\<forall>v\<in>set (vertices db). reached db v \<longrightarrow> unat (pcost db v) \<le> cost_bound 0 \<and> label_ok db s db v"
    using tc by fastforce
  moreover have "\<forall>v\<in>set (vertices db). reached db v \<longrightarrow> v = s" using R by blast
  moreover have "pcost db s = 0" "nhop db s = None" using assms tc by (simp_all add: spf_start_def)
  ultimately have "main_inv db s [] (cand, db)"
    using \<open>cand_ok (set []) (cand, db)\<close> by (simp add: main_inv_def spf_inv_def)
  with c tc show ?thesis by (simp add: olsr_spf_add_cand_tree_def)
qed

text \<open>Every route over usable edges ends in a finished vertex that is no dearer.\<close>

lemma route_finished:
  assumes "route (spf_edges db0) s v w n h" and inv: "main_inv db0 s F (cand, db)"
    and fin: "\<forall>v\<in>set (vertices db0). reached db v \<longrightarrow> v \<in> set F" and start: "spf_start db0 s"
  shows "v \<in> set F \<and> unat (pcost db v) \<le> w"
  using assms(1)
proof (induction rule: route.induct)
  case route_start
  have "pcost db s = 0" using inv by (simp add: main_inv_def spf_inv_def)
  thus ?case using fin start by (auto simp: spf_start_def ROUTE_COST_BROKEN_def)
next
  case (route_step u w n h c v)
  hence "reached db v" "unat (pcost db v) \<le> unat (pcost db u) + c"
    using inv by (auto simp: main_inv_def spf_inv_def)
  moreover have "v \<in> set (vertices db0)"
  proof -
    from route_step(2) obtain tc ep where e: "u \<in> set (vertices db0)" "tcs db0 u = Some tc" "ep \<in> set (edges_of tc)"
      "spf_target db0 ep = Some (c, v)" by (auto simp: spf_edges_def)
    with start have "edge_ok db0 ep" by (auto simp: spf_start_def spf_wf_def split: option.splits)
    from spf_target_bound(2) [OF this e(4)] show ?thesis .
  qed
  ultimately show ?case using fin route_step.IH by auto
qed

lemma unreached_broken: "\<not> c < ROUTE_COST_BROKEN \<Longrightarrow> c = ROUTE_COST_BROKEN"
proof -
  assume "\<not> c < ROUTE_COST_BROKEN"
  moreover have "c \<le> ROUTE_COST_BROKEN"
  proof -
    have "ROUTE_COST_BROKEN = -1" by (simp add: ROUTE_COST_BROKEN_def)
    thus ?thesis by (metis word_n1_ge)
  qed
  ultimately show ?thesis by simp
qed

lemma spf_run_ok:
  assumes start: "spf_start db s" and fuel: "length (vertices db) \<le> fuel"
  obtains cand0 cand db' path where "olsr_spf_add_cand_tree avl_init db s = Some cand0"
    "olsr_spf_run_full fuel cand0 db = Some ((cand, db'), path, int (length path))"
    "main_inv db s path (cand, db')" "avl_walk cand = []"
    "\<forall>v\<in>set (vertices db). reached db' v \<longleftrightarrow> v \<in> set path"
proof -
  from spf_init_ok [OF start] obtain cand0 where
    i: "olsr_spf_add_cand_tree avl_init db s = Some cand0" "main_inv db s [] (cand0, db)" by blast
  from spf_loop_ok [OF start i(2), of fuel] fuel obtain cand db' path where
    r: "olsr_spf_run_full fuel cand0 db = Some ((cand, db'), path, int (length path))"
      "main_inv db s path (cand, db')" "olsr_spf_extract_best cand = None"
    by (auto simp: olsr_spf_run_full_def)
  from r(2) have inv: "spf_inv db s path (length path) {(x, c, v) \<in> spf_edges db. x \<in> set path} (cand, db')"
    by (simp add: main_inv_def)
  have "avl_walk cand = []"
    using avl.first_None [OF spf_inv_cand(1) [OF inv]] r(3) by (simp add: olsr_spf_extract_best_def)
  moreover have "\<forall>v\<in>set (vertices db). reached db' v \<longleftrightarrow> v \<in> set path"
  proof -
    have "\<forall>v\<in>set path. reached db' v" using inv by (simp add: spf_inv_def)
    thus ?thesis using cand_empty [OF r(2)] r(3) by blast
  qed
  ultimately show thesis using that i(1) r(1,2) by blast
qed

section \<open>A topology of three nodes\<close>

text \<open>
  Node 3 (this router) has a dear link to node 5 and a cheap one to node 4, which has a
  cheap link to node 5; every link is advertised from both ends.
\<close>

definition demo_tree :: "('k::linorder \<times> ptr) list \<Rightarrow> ('k, ptr) avl_tree" where
  "demo_tree xs = foldl (\<lambda>T (k, n). fst (the (avl_insert T k n False))) avl_init xs"

definition demo_edge :: "u32 \<Rightarrow> ptr \<Rightarrow> ptr \<Rightarrow> olsr_linkcost \<Rightarrow> unit tc_edge_entry" where
  "demo_edge dest inv_ptr owner c = \<lparr>T_dest_addr = V4 dest, edge_inv = Some inv_ptr, edge_tc = owner, cost = c,
     edge_ansn = 0, linkquality = ()\<rparr>"

definition demo_tc :: "u32 \<Rightarrow> olsr_linkcost \<Rightarrow> ptr option \<Rightarrow> (olsr_ip_addr \<times> ptr) list \<Rightarrow> tc_entry" where
  "demo_tc a c nh es = \<lparr>addr = V4 a, path_cost = c, edge_tree = demo_tree es, prefix_tree = avl_init, next_hop = nh,
     edge_gc_timer = None, validity_timer = None, refcount = 1, msg_seq = 0, msg_hops = 0, hops = 0,
     ansn = 0, ignored = 0, err_seq = 0, err_seq_valid = False\<rparr>"

definition spf_demo :: "unit lsdb" where
  "spf_demo = \<lparr>tc_tree = demo_tree [(V4 10, 3), (V4 11, 4), (V4 12, 5)],
     tcs = [3 \<mapsto> demo_tc 10 0 None [(V4 11, 10), (V4 12, 11)],
            4 \<mapsto> demo_tc 11 ROUTE_COST_BROKEN (Some 7) [(V4 10, 12), (V4 12, 13)],
            5 \<mapsto> demo_tc 12 ROUTE_COST_BROKEN (Some 8) [(V4 10, 14), (V4 11, 15)]],
     tc_edges = [10 \<mapsto> demo_edge 11 12 3 1024, 11 \<mapsto> demo_edge 12 14 3 4096,
                 12 \<mapsto> demo_edge 10 10 4 1024, 13 \<mapsto> demo_edge 12 15 4 2048,
                 14 \<mapsto> demo_edge 10 11 5 4096, 15 \<mapsto> demo_edge 11 13 5 2048],
     tc_myself = Some 3, routingtree = avl_init, routingtree_version = 0, rt_paths = Map.empty,
     rt_entries = Map.empty, current_inetgw = None, changes_topology = True, changes_hna = False,
     lsdb_calls = [], heap_next = 16\<rparr>"

lemma demo_trees:
  "avl_walk (demo_tree [(V4 10, 3), (V4 11, 4), (V4 12, 5)]) = [(V4 10, 3), (V4 11, 4), (V4 12, 5)]"
  "avl_walk (demo_tree [(V4 11, 10), (V4 12, 11)]) = [(V4 11, 10), (V4 12, 11)]"
  "avl_walk (demo_tree [(V4 10, 12), (V4 12, 13)]) = [(V4 10, 12), (V4 12, 13)]"
  "avl_walk (demo_tree [(V4 10, 14), (V4 11, 15)]) = [(V4 10, 14), (V4 11, 15)]"
  by (simp_all add: demo_tree_def avl_insert_def avl_init_def avl_cmp_def avl_linked_def avl_walk_def Let_def)

lemmas demo_defs = spf_demo_def demo_edge_def demo_tc_def edges_of_def vertices_def demo_trees

lemma spf_demo_start: "spf_start spf_demo 3"
proof -
  have "spf_wf spf_demo" by (simp add: spf_wf_def edge_ok_def demo_defs LINK_COST_BROKEN_def)
  moreover have "\<forall>(u, c, v)\<in>spf_edges spf_demo. u = 3 \<longrightarrow> v \<noteq> 3 \<longrightarrow> next_hop (the (tcs spf_demo v)) \<noteq> None"
    by (auto simp: spf_edges_def spf_target_def demo_defs)
  moreover have "\<forall>v\<in>set (vertices spf_demo). path_cost (the (tcs spf_demo v)) = (if v = 3 then 0 else ROUTE_COST_BROKEN)"
    by (simp add: demo_defs)
  ultimately show ?thesis by (simp add: spf_start_def) (simp add: demo_defs)
qed

lemma demo_vertices: "length (vertices spf_demo) = 3"
  by (simp add: demo_defs)

text \<open>
  C3. The shortest path computation ends, dereferences no invalid pointer and corrupts no
  tree, whatever the topology of up to 1024 vertices; it leaves the candidate tree empty,
  the vertices on the path list are exactly those a route of usable edges leads to, each
  once and in the order of their costs, and the cost of each is the least cost of a route.
  All other vertices keep the infinite cost.
\<close>

theorem spf_run_correct:
  assumes "spf_start db s" "length (vertices db) \<le> fuel"
  shows "\<exists>cand0 cand db' path. olsr_spf_add_cand_tree avl_init db s = Some cand0 \<and>
    olsr_spf_run_full fuel cand0 db = Some ((cand, db'), path, int (length path)) \<and> avl_walk cand = [] \<and>
    distinct path \<and> sorted (map (\<lambda>v. path_cost (the (tcs db' v))) path) \<and>
    (\<forall>v\<in>set (vertices db).
       if v \<in> set path
       then (\<exists>n h. route (spf_edges db) s v (unat (path_cost (the (tcs db' v)))) n h) \<and>
            (\<forall>w n h. route (spf_edges db) s v w n h \<longrightarrow> unat (path_cost (the (tcs db' v))) \<le> w)
       else path_cost (the (tcs db' v)) = ROUTE_COST_BROKEN \<and> (\<forall>w n h. \<not> route (spf_edges db) s v w n h))"
proof -
  from spf_run_ok [OF assms] obtain cand0 cand db' path where
    r: "olsr_spf_add_cand_tree avl_init db s = Some cand0"
       "olsr_spf_run_full fuel cand0 db = Some ((cand, db'), path, int (length path))"
    and m: "main_inv db s path (cand, db')" and e: "avl_walk cand = []"
    and fin: "\<forall>v\<in>set (vertices db). reached db' v \<longleftrightarrow> v \<in> set path" .
  from m have inv: "distinct path" "sorted (map (\<lambda>v. path_cost (the (tcs db' v))) path)"
    "\<forall>v\<in>set (vertices db). reached db' v \<longrightarrow> label_ok db s db' v"
    by (simp_all add: main_inv_def spf_inv_def)
  note opt = route_finished [OF _ m _ assms(1)]
  have "\<forall>v\<in>set (vertices db).
       if v \<in> set path
       then (\<exists>n h. route (spf_edges db) s v (unat (path_cost (the (tcs db' v)))) n h) \<and>
            (\<forall>w n h. route (spf_edges db) s v w n h \<longrightarrow> unat (path_cost (the (tcs db' v))) \<le> w)
       else path_cost (the (tcs db' v)) = ROUTE_COST_BROKEN \<and> (\<forall>w n h. \<not> route (spf_edges db) s v w n h)"
    using opt fin inv(3) unreached_broken label_route [of db s db'] by auto
  with r e inv show ?thesis by blast
qed

theorem spf_run_correct_witness:
  "spf_start spf_demo 3 \<and> (\<exists>cand0 cand db' path. olsr_spf_add_cand_tree avl_init spf_demo 3 = Some cand0 \<and>
    olsr_spf_run_full 3 cand0 spf_demo = Some ((cand, db'), path, int (length path)) \<and> avl_walk cand = [])"
  using spf_run_correct [OF spf_demo_start, of 3] spf_demo_start demo_vertices by (metis order_refl)

text \<open>
  C4. The next hop left in a vertex is the link that was recorded for the first vertex of a
  shortest route to it, the hop count is the number of hops of that route, modulo 256, and
  nothing but costs, hop counts and next hops has changed in the database.
\<close>

theorem spf_next_hops:
  assumes "spf_start db s" "length (vertices db) \<le> fuel"
  shows "\<exists>cand0 cand db' path. olsr_spf_add_cand_tree avl_init db s = Some cand0 \<and>
    olsr_spf_run_full fuel cand0 db = Some ((cand, db'), path, int (length path)) \<and> same_topo db db' \<and>
    next_hop (the (tcs db' s)) = None \<and>
    (\<forall>v\<in>set path. v \<noteq> s \<longrightarrow> (\<exists>n x. route (spf_edges db) s v (unat (path_cost (the (tcs db' v)))) n (Some x) \<and>
       hops (the (tcs db' v)) = of_nat n \<and> next_hop (the (tcs db' v)) = next_hop (the (tcs db x)) \<and>
       next_hop (the (tcs db x)) \<noteq> None))"
proof -
  from spf_run_ok [OF assms] obtain cand0 cand db' path where
    r: "olsr_spf_add_cand_tree avl_init db s = Some cand0"
       "olsr_spf_run_full fuel cand0 db = Some ((cand, db'), path, int (length path))"
    and m: "main_inv db s path (cand, db')"
    and fin: "\<forall>v\<in>set (vertices db). reached db' v \<longleftrightarrow> v \<in> set path" .
  have path: "set path \<subseteq> set (vertices db)" using m by (simp add: main_inv_def spf_inv_def)
  have "\<exists>n x. route (spf_edges db) s v (unat (path_cost (the (tcs db' v)))) n (Some x) \<and>
       hops (the (tcs db' v)) = of_nat n \<and> next_hop (the (tcs db' v)) = next_hop (the (tcs db x)) \<and>
       next_hop (the (tcs db x)) \<noteq> None" if v: "v \<in> set path" "v \<noteq> s" for v
  proof -
    have "label_ok db s db' v" using m v path fin by (auto simp: main_inv_def spf_inv_def)
    from label_hop [OF this v(2)] show ?thesis .
  qed
  moreover have "same_topo db db'" "next_hop (the (tcs db' s)) = None"
    using m by (simp_all add: main_inv_def spf_inv_def)
  ultimately show ?thesis using r by blast
qed

theorem spf_next_hops_witness:
  "spf_start spf_demo 3 \<and> (\<exists>cand0 cand db' path. olsr_spf_add_cand_tree avl_init spf_demo 3 = Some cand0 \<and>
    olsr_spf_run_full 3 cand0 spf_demo = Some ((cand, db'), path, int (length path)) \<and> same_topo spf_demo db')"
  using spf_next_hops [OF spf_demo_start, of 3] spf_demo_start demo_vertices by (metis order_refl)

end
