(* ===== verification/Olsr_Topology.thy ===== *)
theory Olsr_Topology
  imports Olsr_Tc_Input Olsr_Lq_Hybrid_Plc Olsr_Spf
begin

text \<open>
  The topology as it is run: the handlers of TC messages and timers with the link quality plugin
  for hybrid power line networks, the properties of the link state database and of the routing
  information base, and that a database grown from received messages is one the shortest path
  computation can be started on.
\<close>

section \<open>The plugin fulfils the contract\<close>

definition lq_etx_hybrid_plc_handler :: "default_lq_hybrid_plc tc_lq_handler" where
  "lq_etx_hybrid_plc_handler = \<lparr>calc_tc_cost = default_lq_calc_cost_hybrid_plc,
     deserialize_tc_lq = default_lq_deserialize_tc_lq_pair_hybrid_plc, zeroed_tc_lq = default_lq_clear_hybrid_plc\<rparr>"

lemma hybrid_cost_le: "default_lq_calc_cost_hybrid_plc l \<le> LINK_COST_BROKEN"
proof (cases "valueLq l < 25 \<or> valueNlq l < 25")
  case True
  thus ?thesis by (simp add: default_lq_calc_cost_hybrid_plc_def)
next
  case False
  hence "25 \<le> valueLq l" "25 \<le> valueNlq l" by (simp_all add: not_less)
  from calc_cost_value [OF this] show ?thesis by (simp add: word_le_nat_alt LINK_COST_BROKEN_def)
qed

interpretation plc: tc_lq_plugin lq_etx_hybrid_plc_handler 4
proof
  fix cur :: nat and buf :: "u8 list" and l0
  assume "cur + 4 \<le> length buf"
  thus "\<exists>l. deserialize_tc_lq lq_etx_hybrid_plc_handler buf cur l0 = Some (l, cur + 4)"
    by (simp add: lq_etx_hybrid_plc_handler_def default_lq_deserialize_tc_lq_pair_hybrid_plc_def pkt_get_u8_def get_bytes_def)
qed (simp add: lq_etx_hybrid_plc_handler_def hybrid_cost_le)

section \<open>An empty database\<close>

definition empty_lsdb :: "'lq lsdb" where
  "empty_lsdb = \<lparr>tc_tree = avl_init, tcs = Map.empty, tc_edges = Map.empty, tc_myself = None, routingtree = avl_init,
     routingtree_version = 0, rt_paths = Map.empty, rt_entries = Map.empty, current_inetgw = None, changes_topology = False,
     changes_hna = False, lsdb_calls = [], heap_next = 0\<rparr>"

lemma empty_lsdb_ok: "lsdb_ok empty_lsdb" "costs_ok empty_lsdb"
  by (auto simp: lsdb_ok_def empty_lsdb_def allocated_def key_defs indexes_init costs_ok_def edge_data_def)

definition demo_cnf :: olsrd_config where
  "demo_cnf = \<lparr>main_addr = V4 0x0100000a, ip_v6 = False, maxplen = 32, lq_level = 2, min_tc_vtime_ms = 0,
     fib_metric_correct = False, lq_nat_thresh = (1, 0)\<rparr>"

text \<open>One vertex, with the route to its own address.\<close>

definition demo_lsdb :: "default_lq_hybrid_plc lsdb" where
  "demo_lsdb = snd (the (olsr_add_tc_entry demo_cnf (V4 0x0200000a) empty_lsdb))"

lemma demo_lsdb_ok: "lsdb_ok demo_lsdb" "vertex_key demo_lsdb = [0 \<mapsto> V4 0x0200000a]" "heap_next demo_lsdb \<le> 2"
  "\<exists>r. prefix_key demo_lsdb 0 r = Some \<lparr>prefix = V4 0x0200000a, prefix_len = 32\<rparr>" "edge_data demo_lsdb = Map.empty"
  "tcs demo_lsdb 0 \<noteq> None"
proof -
  let ?e = "empty_lsdb :: default_lq_hybrid_plc lsdb"
  have e: "\<forall>q. vertex_key ?e q \<noteq> Some (V4 0x0200000a)" "main_addr demo_cnf \<noteq> all_zero demo_cnf" "vertex_key ?e = Map.empty"
    "heap_next ?e = 0" "edge_data ?e = Map.empty"
    by (simp_all add: vertex_key_def edge_data_def empty_lsdb_def demo_cnf_def all_zero_def fun_eq_iff)
  from add_vertex_ok [OF empty_lsdb_ok(1) e(1,2)] obtain db' r where
    a: "olsr_add_tc_entry demo_cnf (V4 0x0200000a) ?e = Some (Some 0, db')" "vertex_added (V4 0x0200000a) 0 ?e db'"
    "prefix_key db' 0 r = Some \<lparr>prefix = V4 0x0200000a, prefix_len = maxplen demo_cnf\<rparr>" unfolding e by blast
  have "demo_lsdb = db'" by (simp add: demo_lsdb_def a(1))
  with a(2,3) show "lsdb_ok demo_lsdb" "vertex_key demo_lsdb = [0 \<mapsto> V4 0x0200000a]" "heap_next demo_lsdb \<le> 2"
    "\<exists>r. prefix_key demo_lsdb 0 r = Some \<lparr>prefix = V4 0x0200000a, prefix_len = 32\<rparr>" "edge_data demo_lsdb = Map.empty"
    by (auto simp: vertex_added_def e demo_cnf_def)
  thus "tcs demo_lsdb 0 \<noteq> None" using vertex_live [of demo_lsdb 0] by auto
qed

section \<open>TC messages\<close>

text \<open>
  A TC message from a well-formed packet: it can be read in full, its border flags are in range
  if it lists neighbours, and the heap has room for the objects it creates.
\<close>

definition tc_msg_ok :: "olsrd_config \<Rightarrow> tc_header \<Rightarrow> u8 list \<Rightarrow> nat \<Rightarrow> 'lq lsdb \<Rightarrow> bool" where
  "tc_msg_ok cnf hdr buf cur db \<longleftrightarrow> main_addr cnf \<noteq> all_zero cnf \<and> heap_next db + 2 + unat (tc_size hdr) < 2 ^ 31 \<and>
     unat (tc_size hdr) + ipsize cnf + 4 \<le> length buf \<and>
     (cur < unat (tc_size hdr) \<longrightarrow> border_flags_ok cnf (tc_lower hdr) (tc_upper hdr))"

lemma input_tc_unfold:
  assumes "pkt_get_u8 buf 0 = Some (type, p0)" "type = LQ_TC_MESSAGE \<or> type = TC_MESSAGE" "read_tc_header cnf buf p0 = Some (hdr, cur)"
    "tc_accept hdr db = Some (acc, db1)"
  shows "olsr_input_tc cnf h deny True buf db =
    (if acc then map_option (Pair True) (tc_process cnf h deny hdr buf cur db1) else Some (False, db1))"
  using assms by (cases "tc_process cnf h deny hdr buf cur db1") (auto simp: olsr_input_tc_def)

lemma input_tc_ok:
  assumes "lsdb_ok db" "pkt_get_u8 buf 0 = Some (type, p0)" "read_tc_header cnf buf p0 = Some (hdr, cur)"
    "tc_msg_ok cnf hdr buf cur db"
  shows "\<exists>fwd db'. olsr_input_tc cnf lq_etx_hybrid_plc_handler deny symm buf db = Some (fwd, db') \<and> lsdb_ok db' \<and>
    (costs_ok db \<longrightarrow> costs_ok db')"
proof (cases "(type = LQ_TC_MESSAGE \<or> type = TC_MESSAGE) \<and> symm")
  case False
  thus ?thesis using assms by (auto simp: olsr_input_tc_def)
next
  case True
  from tc_accept_ok [OF assms(1), of hdr] obtain acc db1 where
    a: "tc_accept hdr db = Some (acc, db1)" "lsdb_ok db1" "heap_next db1 = heap_next db" "edge_data db1 = edge_data db" by blast
  have "\<exists>db2. tc_process cnf lq_etx_hybrid_plc_handler deny hdr buf cur db1 = Some db2 \<and> lsdb_ok db2 \<and> (costs_ok db1 \<longrightarrow> costs_ok db2)"
    using plc.process_ok [OF a(2), of cnf hdr buf cur deny] assms(4) by (auto simp: tc_msg_ok_def a(3))
  moreover have "costs_ok db1 = costs_ok db" by (simp add: costs_ok_def a(4))
  ultimately show ?thesis using input_tc_unfold [OF assms(2) _ assms(3) a(1)] True a(2) by auto
qed


text \<open>A message in which 10.0.0.2 lists 10.0.0.3 with both border flags at 255.\<close>

definition demo_msg :: "u8 list" where
  "demo_msg = [202, 0x86, 0, 24, 10, 0, 0, 2, 255, 0, 0, 1, 0, 7, 0xff, 0xff, 10, 0, 0, 3, 151, 100, 200, 200] @ replicate 8 0"

definition demo_hdr :: tc_header where
  "demo_hdr = \<lparr>tc_vtime = me_to_reltime 0x86, tc_size = 24, tc_orig = V4 0x0200000a, tc_ttl = 255, tc_hops = 0, tc_seq = 1,
     tc_ansn = 7, tc_lower = 0xff, tc_upper = 0xff\<rparr>"

lemma demo_msg_header: "pkt_get_u8 demo_msg 0 = Some (202, 1)" "read_tc_header demo_cnf demo_msg 1 = Some (demo_hdr, 16)"
  by (simp_all add: demo_msg_def read_tc_header_def pkt_get_defs get_bytes_def demo_cnf_def demo_hdr_def ipsize_def
      ip_of_bytes_def v4_of_bytes_def be_val_def)


lemma seqno_irrefl [simp]: "\<not> SEQNO_GREATER_THAN n n"
  by (simp add: SEQNO_GREATER_THAN_def)

text \<open>With both flags at 255 an IPv4 message covers all neighbours.\<close>

lemma full_calculated_borders:
  assumes "\<not> ip_v6 cnf" "family_ok cnf lo" "family_ok cnf up"
  shows "olsr_calculate_tc_border cnf 0xff lo 0xff up = Some (True, V4 0, V4 (- 1))"
proof -
  have "replicate 4 (0::u8) = [0, 0, 0, 0]" "replicate 4 (0xff::u8) = [0xff, 0xff, 0xff, 0xff]" by (simp_all add: numeral_eq_Suc)
  with family_length [OF assms(2)] family_length [OF assms(3)] assms(1) show ?thesis
    by (simp add: olsr_calculate_tc_border_def memset_prefix_def SIZEOF_POINTER_def ipsize_def ip_of_bytes_def v4_of_bytes_def)
qed

lemma neighbors_family: "v \<in> set (tc_neighbors n cnf k buf limit cur) \<Longrightarrow> family_ok cnf v"
  by (induction n cnf k buf limit cur rule: tc_neighbors.induct) (auto simp: ip_of_bytes_family split: if_splits)

lemma neighbors_empty: "tc_neighbors limit cnf k buf limit cur = [] \<longleftrightarrow> \<not> cur < limit"
  by (cases limit) simp_all

lemma full_tc_borders:
  assumes "\<not> ip_v6 cnf" "tc_lower hdr = 0xff" "tc_upper hdr = 0xff" "\<And>v. v \<in> set vs \<Longrightarrow> family_ok cnf v"
  shows "tc_borders cnf hdr (vs = []) (span_of None vs) = Some (Some (V4 0, V4 (- 1)))"
proof (cases "vs = []")
  case True
  thus ?thesis using assms by (simp add: tc_borders_def span_of_def full_borders_def)
next
  case False
  hence "family_ok cnf (hd vs)" "family_ok cnf (last vs)" using assms(4) by simp_all
  with False assms(2,3) full_calculated_borders [OF assms(1)] show ?thesis by (simp add: tc_borders_def span_of_def)
qed

text \<open>
  C2. An accepted IPv4 message that covers all neighbours of its originator (both border flags
  at 255) and lists only valid addresses replaces what is known of them: afterwards the
  originator advertises exactly the listed neighbours, with the new sequence number, and of the
  neighbours not listed those whose number is not older (or which are the broadcast address,
  that the borders exclude); an empty message removes them all. The edges of every other node
  are as before.
\<close>

theorem input_tc_complete:
  assumes "lsdb_ok db" "pkt_get_u8 buf 0 = Some (type, p0)" "type = LQ_TC_MESSAGE \<or> type = TC_MESSAGE"
    "read_tc_header cnf buf p0 = Some (hdr, cur)" "tc_accept hdr db = Some (True, db1)" "tc_msg_ok cnf hdr buf cur db"
    "lq_level cnf > 0" "\<not> ip_v6 cnf" "tc_lower hdr = 0xff" "tc_upper hdr = 0xff"
    "vs = tc_neighbors (unat (tc_size hdr)) cnf 4 buf (unat (tc_size hdr)) cur" "list_all (olsr_validate_address deny) vs"
  shows "\<exists>db'. olsr_input_tc cnf lq_etx_hybrid_plc_handler deny True buf db = Some (True, db') \<and>
    (\<forall>x y an. advertises db' x y an \<longleftrightarrow>
      (if x \<noteq> tc_orig hdr then advertises db x y an
       else if y \<in> set vs then an = tc_ansn hdr
       else vs \<noteq> [] \<and> advertises db x y an \<and> \<not> (y < V4 (- 1) \<and> SEQNO_GREATER_THAN (tc_ansn hdr) an)))"
proof -
  let ?n = "unat (tc_size hdr)"
  from tc_accept_ok [OF assms(1), of hdr] assms(5) have a: "lsdb_ok db1" "heap_next db1 = heap_next db" "advertises db1 = advertises db"
    by auto
  have e: "\<not> cur < ?n \<longleftrightarrow> vs = []" unfolding assms(11) neighbors_empty ..
  obtain ws bo bs db' where p: "tc_process cnf lq_etx_hybrid_plc_handler deny hdr buf cur db1 = Some db'"
    "tc_borders cnf hdr (\<not> cur < ?n) bo = Some bs" "tc_applied hdr ws (\<not> cur < ?n) bs db1 db'" "ws = vs" "bo = span_of None vs"
    using plc.process_ok [OF a(1), of cnf hdr buf cur deny] assms(6,7,11,12) by (auto simp: tc_msg_ok_def a(2))
  have "bs = Some (V4 0, V4 (- 1))"
    using full_tc_borders [OF assms(8-10), of vs] neighbors_family p(2) unfolding p(5) e assms(11) by auto
  moreover have "V4 0 \<le> y" for y by (simp add: less_eq_olsr_ip_addr_def)
  ultimately have "advertises db' x y an \<longleftrightarrow>
      (if x \<noteq> tc_orig hdr then advertises db x y an
       else if y \<in> set vs then an = tc_ansn hdr
       else vs \<noteq> [] \<and> advertises db x y an \<and> \<not> (y < V4 (- 1) \<and> SEQNO_GREATER_THAN (tc_ansn hdr) an))" for x y an
    using p(3) unfolding tc_applied_def p(4) a(3) e by (auto simp: withdrawn_def)
  with input_tc_unfold [OF assms(2-5)] p(1) show ?thesis by auto
qed

lemma demo_accept: "tc_accept demo_hdr empty_lsdb = Some (True, empty_lsdb)"
  by (simp add: tc_accept_def olsr_lookup_tc_entry_def empty_lsdb_def uix.uniq_empty)

theorem input_tc_complete_witness:
  "\<exists>db'. olsr_input_tc demo_cnf lq_etx_hybrid_plc_handler [] True demo_msg empty_lsdb = Some (True, db') \<and>
    advertises db' (V4 0x0200000a) (V4 0x0300000a) 7"
proof -
  have m: "tc_msg_ok demo_cnf demo_hdr demo_msg 16 (empty_lsdb :: default_lq_hybrid_plc lsdb)"
    by (simp add: tc_msg_ok_def demo_cnf_def demo_hdr_def demo_msg_def all_zero_def ipsize_def border_flags_ok_def
        border_flag_ok_def empty_lsdb_def)
  have v: "[V4 0x0300000a] = tc_neighbors (unat (tc_size demo_hdr)) demo_cnf 4 demo_msg (unat (tc_size demo_hdr)) 16"
  proof -
    have "tc_neighbors (Suc (Suc 22)) demo_cnf 4 demo_msg 24 16 = [V4 0x0300000a]"
      unfolding tc_neighbors.simps by (simp add: demo_cnf_def demo_msg_def ipsize_def ip_of_bytes_def v4_of_bytes_def)
    thus ?thesis by (simp add: demo_hdr_def)
  qed
  have "lq_level demo_cnf > 0" "\<not> ip_v6 demo_cnf" "tc_lower demo_hdr = 0xff" "tc_upper demo_hdr = 0xff"
    "list_all (olsr_validate_address []) [V4 0x0300000a]" "(202::u8) = LQ_TC_MESSAGE \<or> (202::u8) = TC_MESSAGE"
    by (simp_all add: demo_cnf_def demo_hdr_def olsr_validate_address_def LQ_TC_MESSAGE_def)
  from input_tc_complete [OF empty_lsdb_ok(1) demo_msg_header(1) this(6) demo_msg_header(2) demo_accept m this(1-4) v this(5)]
  show ?thesis by (auto simp: demo_hdr_def)
qed

text \<open>
  A message that repeats the sequence numbers last seen of an originator with known edges is
  dropped: it is not forwarded and nothing changes.
\<close>

theorem input_tc_duplicate:
  assumes "lsdb_ok db" "pkt_get_u8 buf 0 = Some (type, p0)" "type = LQ_TC_MESSAGE \<or> type = TC_MESSAGE"
    "read_tc_header cnf buf p0 = Some (hdr, cur)" "vertex_key db p = Some (tc_orig hdr)" "tcs db p = Some tc"
    "count (edge_tree tc) \<noteq> 0" "msg_seq tc = tc_seq hdr" "ansn tc = tc_ansn hdr"
  shows "olsr_input_tc cnf h deny True buf db = Some (False, db)"
proof -
  have w: "olsr_seq_inrange_high (uint n - k) (uint n) n" if "k > 0" for n :: u16 and k
    using that uint_bounded [of n] by (simp add: olsr_seq_inrange_high_def)
  have "tc_seq_check (tc_seq hdr) (tc_ansn hdr) tc = (tc, False)"
    using w assms(8,9) by (simp add: tc_seq_check_def TC_SEQNO_WINDOW_def TC_ANSN_WINDOW_def)
  moreover have "upd_tc p (\<lambda>_. tc) db = db" using assms(6) by (simp add: upd_tc_def fun_upd_idem)
  moreover have "olsr_lookup_tc_entry (tc_orig hdr) db = Some p" using lookup_vertex [OF assms(1)] assms(5) by simp
  ultimately have "tc_accept hdr db = Some (False, db)" using assms(6,7) by (simp add: tc_accept_def)
  from input_tc_unfold [OF assms(2-4) this] show ?thesis by simp
qed

text \<open>The vertex with one edge, after a message with the numbers 1 and 7.\<close>

lemma demo_seen:
  obtains db :: "default_lq_hybrid_plc lsdb" and tc where "lsdb_ok db" "vertex_key db 0 = Some (V4 0x0200000a)" "tcs db 0 = Some tc"
    "count (edge_tree tc) \<noteq> 0" "msg_seq tc = 1" "ansn tc = 7"
proof -
  obtain tc0 where tc0: "tcs demo_lsdb 0 = Some tc0" using demo_lsdb_ok(6) by auto
  have "\<forall>i. edge_key demo_lsdb 0 i \<noteq> Some (V4 0x0300000a)" by (simp add: edge_key_data demo_lsdb_ok(5))
  from add_edge_ok [OF demo_lsdb_ok(1) tc0 this, of demo_cnf lq_etx_hybrid_plc_handler 7] obtain db1 where
    d: "lsdb_ok db1" "edge_data db1 = (edge_data demo_lsdb)(heap_next demo_lsdb \<mapsto> new_edge demo_cnf lq_etx_hybrid_plc_handler 0 (V4 0x0300000a) 7)"
    "vertex_key db1 = vertex_key demo_lsdb" "heap_next db1 = Suc (heap_next demo_lsdb)" by blast
  let ?f = "\<lambda>tc. tc\<lparr>msg_seq := 1, ansn := 7\<rparr>"
  let ?db = "upd_tc 0 ?f db1"
  have ok: "lsdb_ok ?db" by (rule upd_tc_ok [OF d(1)]) (simp add: same_vertex_def)
  have v: "vertex_key ?db = vertex_key db1" by (rule upd_tc_keys(1)) simp
  obtain tc1 where tc1: "tcs db1 0 = Some tc1" using same_vertex_live [OF d(3) tc0] by blast
  hence tc: "tcs ?db 0 = Some (?f tc1)" by simp
  have "edge_key ?db 0 (heap_next demo_lsdb) = Some (V4 0x0300000a)"
    unfolding upd_tc_keys(3) [where f = ?f, simplified] edge_key_data d(2) by (simp add: new_edge_def)
  hence "heap_next demo_lsdb \<in> set (edges_of (?f tc1))" using edges_of_facts(4) [OF ok tc] by blast
  hence n: "avl_walk (edge_tree tc1) \<noteq> []" by (auto simp: edges_of_def)
  have "avl_uniq (edge_tree tc1)" "length (avl_walk (edge_tree tc1)) < 2 ^ 32"
    using degree_bound [OF d(1) tc1] lsdb_okD(2) [OF d(1) tc1] d(4) demo_lsdb_ok(3) by (auto simp: vertex_ok_def indexes_uniq)
  hence "count (edge_tree (?f tc1)) \<noteq> 0" using n avl_uniq_count [of "edge_tree tc1"] by simp
  with ok v tc d(3) demo_lsdb_ok(2) show thesis by (intro that [of ?db "?f tc1"]) simp_all
qed

theorem input_tc_duplicate_witness:
  "\<exists>db. olsr_input_tc demo_cnf lq_etx_hybrid_plc_handler [] True demo_msg db = Some (False, db)"
proof -
  obtain db :: "default_lq_hybrid_plc lsdb" and tc where d: "lsdb_ok db" "vertex_key db 0 = Some (V4 0x0200000a)" "tcs db 0 = Some tc"
    "count (edge_tree tc) \<noteq> 0" "msg_seq tc = 1" "ansn tc = 7" by (rule demo_seen)
  have "(202::u8) = LQ_TC_MESSAGE \<or> (202::u8) = TC_MESSAGE" "vertex_key db 0 = Some (tc_orig demo_hdr)" "msg_seq tc = tc_seq demo_hdr"
    "ansn tc = tc_ansn demo_hdr" using d by (simp_all add: LQ_TC_MESSAGE_def demo_hdr_def)
  from input_tc_duplicate [OF d(1) demo_msg_header(1) this(1) demo_msg_header(2) this(2) d(3,4) this(3,4)] show ?thesis by blast
qed

text \<open>
  C24. The border calculation stays inside the address exactly if both border flags are zero or
  each is 255 or between 1 and the number of bits of an address. The flags come from the network
  unchecked: any other pair makes the code write outside the two addresses.
\<close>

theorem border_out_of_bounds:
  assumes "family_ok cnf lo" "family_ok cnf up"
  shows "olsr_calculate_tc_border cnf lower lo upper up = None \<longleftrightarrow>
    \<not> (lower = 0 \<and> upper = 0 \<or>
       (lower = 0xff \<or> 1 \<le> unat lower \<and> unat lower \<le> 8 * ipsize cnf) \<and>
       (upper = 0xff \<or> 1 \<le> unat upper \<and> unat upper \<le> 8 * ipsize cnf))"
  using calculate_tc_border_None [OF assms] by (simp add: border_flags_ok_def border_flag_ok_def)

theorem border_out_of_bounds_witness: "olsr_calculate_tc_border demo_cnf 33 (V4 1) 33 (V4 2) = None"
  using border_out_of_bounds [of demo_cnf "V4 1" "V4 2" 33 33] by (simp add: family_ok_def demo_cnf_def ipsize_def)

text \<open>
  An edge learned from a message is unusable at first, whatever quality the message reports:
  its cost is computed before the quality is read.
\<close>

theorem new_edge_broken:
  assumes "lsdb_ok db" "tcs db p = Some tc" "cur + ipsize cnf + 4 \<le> length buf" "lq_level cnf > 0"
    "nb = ip_of_bytes cnf (take (ipsize cnf) (drop cur buf))" "olsr_lookup_tc_edge p nb db = Some None" "olsr_validate_address deny nb"
  shows "\<exists>db' ed. olsr_tc_update_edge cnf lq_etx_hybrid_plc_handler deny p an buf cur db =
      Some (True, nb, cur + ipsize cnf + 4, db') \<and> tc_edges db' (heap_next db) = Some ed \<and> T_dest_addr ed = nb \<and>
    default_lq_deserialize_tc_lq_pair_hybrid_plc buf (cur + ipsize cnf) default_lq_clear_hybrid_plc =
      Some (linkquality ed, cur + ipsize cnf + 4) \<and> cost ed = LINK_COST_BROKEN"
proof -
  let ?h = lq_etx_hybrid_plc_handler and ?e = "heap_next db"
  have "indexes (edge_tree tc) (edge_key db p)" using lsdb_okD(2) [OF assms(1,2)] by (simp add: vertex_ok_def)
  hence "\<forall>i. edge_key db p i \<noteq> Some nb" using assms(2,6) by (simp add: indexes_find_None olsr_lookup_tc_edge_def)
  from add_edge_ok [OF assms(1,2) this, of cnf ?h an] obtain db1 where
    a: "olsr_add_tc_edge_entry cnf ?h p nb an db = Some (?e, db1)" "edge_data db1 = (edge_data db)(?e \<mapsto> new_edge cnf ?h p nb an)" by blast
  obtain ed where ed: "tc_edges db1 ?e = Some ed" "ed\<lparr>edge_inv := None\<rparr> = new_edge cnf ?h p nb an"
    using fun_cong [OF a(2), of ?e] by (auto simp: edge_data_def)
  have "cost ed = LINK_COST_BROKEN" "linkquality ed = default_lq_clear_hybrid_plc" "T_dest_addr ed = nb"
    using arg_cong [OF ed(2), of cost] arg_cong [OF ed(2), of linkquality] arg_cong [OF ed(2), of T_dest_addr] assms(4)
    by (simp_all add: new_edge_def lq_etx_hybrid_plc_handler_def default_lq_calc_cost_hybrid_plc_def default_lq_clear_hybrid_plc_def
        word_less_nat_alt)
  moreover obtain l where l: "deserialize_tc_lq ?h buf (cur + ipsize cnf) default_lq_clear_hybrid_plc = Some (l, cur + ipsize cnf + 4)"
    using plc.reads [of "cur + ipsize cnf" buf] assms(3) by fastforce
  moreover have "olsr_tc_update_edge cnf ?h deny p an buf cur db =
      Some (True, nb, cur + ipsize cnf + 4, upd_edge ?e (\<lambda>ed. ed\<lparr>linkquality := l\<rparr>) db1)"
    using assms(2,3,5,6,7) a(1) ed(1) l calculation by (simp add: olsr_tc_update_edge_def get_ipaddress_ok)
  ultimately show ?thesis using ed(1) by (auto simp: lq_etx_hybrid_plc_handler_def)
qed

theorem new_edge_broken_witness:
  "\<exists>db' ed. olsr_tc_update_edge demo_cnf lq_etx_hybrid_plc_handler [] 0 7 demo_msg 16 demo_lsdb = Some (True, V4 0x0300000a, 24, db') \<and>
    tc_edges db' (heap_next demo_lsdb) = Some ed \<and> T_dest_addr ed = V4 0x0300000a \<and> valueLq (linkquality ed) = 200 \<and>
    cost ed = LINK_COST_BROKEN"
proof -
  obtain tc where tc: "tcs demo_lsdb 0 = Some tc" using demo_lsdb_ok(6) by auto
  have ix: "indexes (edge_tree tc) (edge_key demo_lsdb 0)" using lsdb_okD(2) [OF demo_lsdb_ok(1) tc] by (simp add: vertex_ok_def)
  have a: "16 + ipsize demo_cnf + 4 \<le> length demo_msg" "lq_level demo_cnf > 0" "olsr_validate_address [] (V4 0x0300000a)"
    "V4 0x0300000a = ip_of_bytes demo_cnf (take (ipsize demo_cnf) (drop 16 demo_msg))"
    by (simp_all add: demo_cnf_def demo_msg_def ipsize_def olsr_validate_address_def ip_of_bytes_def v4_of_bytes_def)
  have "olsr_lookup_tc_edge 0 (V4 0x0300000a) demo_lsdb = Some None"
    using tc ix by (simp add: olsr_lookup_tc_edge_def indexes_find_None edge_key_data demo_lsdb_ok(5))
  from new_edge_broken [OF demo_lsdb_ok(1) tc a(1,2,4) this a(3), of 7] obtain db' ed where
    u: "olsr_tc_update_edge demo_cnf lq_etx_hybrid_plc_handler [] 0 7 demo_msg 16 demo_lsdb =
      Some (True, V4 0x0300000a, 16 + ipsize demo_cnf + 4, db')" "tc_edges db' (heap_next demo_lsdb) = Some ed" "T_dest_addr ed = V4 0x0300000a"
    "default_lq_deserialize_tc_lq_pair_hybrid_plc demo_msg (16 + ipsize demo_cnf) default_lq_clear_hybrid_plc =
      Some (linkquality ed, 16 + ipsize demo_cnf + 4)" "cost ed = LINK_COST_BROKEN" by blast
  have "ipsize demo_cnf = 4" by (simp add: ipsize_def demo_cnf_def)
  moreover from u(4) this have "valueLq (linkquality ed) = 200"
    by (auto simp: default_lq_deserialize_tc_lq_pair_hybrid_plc_def pkt_get_u8_def get_bytes_def demo_msg_def
        dest: arg_cong [where f = valueLq])
  ultimately show ?thesis using u by auto
qed

section \<open>Timers\<close>



text \<open>
  The garbage collection of a vertex deletes exactly its edges whose sequence number is older
  than the last one announced, and signals a change of the topology if there were any.
\<close>

theorem collect_edges:
  assumes "lsdb_ok db" "heap_next db < 2 ^ 31" "tcs db p = Some tc"
  shows "\<exists>db'. olsr_expire_tc_edge_gc p db = Some db' \<and> lsdb_ok db' \<and>
    (changes_topology db' \<longleftrightarrow> changes_topology db \<or> (\<exists>y an. advertises db (addr tc) y an \<and> SEQNO_GREATER_THAN (ansn tc) an)) \<and>
    (\<forall>x y an. advertises db' x y an \<longleftrightarrow> advertises db x y an \<and> \<not> (x = addr tc \<and> SEQNO_GREATER_THAN (ansn tc) an))"
proof -
  let ?db = "upd_tc p (\<lambda>tc. tc\<lparr>edge_gc_timer := None\<rparr>) db" and ?tc = "tc\<lparr>edge_gc_timer := None\<rparr>"
  have ok: "lsdb_ok ?db" by (rule upd_tc_ok [OF assms(1)]) (simp add: same_vertex_def)
  have p: "tcs ?db p = Some ?tc" "heap_next ?db < 2 ^ 31" using assms(2,3) by simp_all
  have a: "advertises ?db = advertises db" by (rule advertises_upd_tc) simp
  note f = edges_of_facts [OF ok p(1)]
  let ?D = "{e \<in> set (edges_of ?tc). outdated (ansn tc) ?db e}"
  from delete_outdated_loop [OF ok p(2) f(1,2), of "ansn tc" False] obtain db1 where
    d: "foldM (delete_if_outdated (ansn tc)) (edges_of ?tc) (False, ?db) = Some (\<exists>e\<in>set (edges_of ?tc). outdated (ansn tc) ?db e, db1)"
    "edges_deleted ?db ?D db1" by auto
  have D: "e \<in> ?D \<longleftrightarrow> x = addr tc \<and> SEQNO_GREATER_THAN (ansn tc) (edge_ansn ed)"
    if "edge_ends ?db e = Some (x, y)" "edge_data ?db e = Some ed" for e ed x y
    using that f(4) [of e] edge_ends_key [OF lsdb_okD(1) [OF ok] p(1), of e] by (auto simp: outdated_def)
  have adv: "advertises db1 x y an \<longleftrightarrow> advertises db x y an \<and> \<not> (x = addr tc \<and> SEQNO_GREATER_THAN (ansn tc) an)" for x y an
    using advertises_deleted [OF d(2), of x y "\<lambda>an. x = addr tc \<and> SEQNO_GREATER_THAN (ansn tc) an" an, OF D] unfolding a .
  have "(\<exists>e\<in>set (edges_of ?tc). outdated (ansn tc) ?db e) \<longleftrightarrow> (\<exists>y an. advertises db (addr tc) y an \<and> SEQNO_GREATER_THAN (ansn tc) an)"
  proof
    assume "\<exists>e\<in>set (edges_of ?tc). outdated (ansn tc) ?db e"
    then obtain e ed where e: "e \<in> ?D" "edge_data ?db e = Some ed" by (auto simp: outdated_def split: option.splits)
    then obtain y where y: "edge_ends ?db e = Some (addr tc, y)" using f(4) [of e] edge_key_ends [OF p(1)] by auto
    with D [OF y e(2)] e have "advertises ?db (addr tc) y (edge_ansn ed)" "SEQNO_GREATER_THAN (ansn tc) (edge_ansn ed)"
      by (auto simp: advertises_def)
    thus "\<exists>y an. advertises db (addr tc) y an \<and> SEQNO_GREATER_THAN (ansn tc) an" unfolding a by blast
  next
    assume "\<exists>y an. advertises db (addr tc) y an \<and> SEQNO_GREATER_THAN (ansn tc) an"
    then obtain y an where "advertises ?db (addr tc) y an" "SEQNO_GREATER_THAN (ansn tc) an" unfolding a by blast
    with D show "\<exists>e\<in>set (edges_of ?tc). outdated (ansn tc) ?db e" unfolding advertises_def by blast
  qed
  moreover have "changes_topology db1 = changes_topology db"
    using only_edgesD(7) [OF edges_deletedD(2) [OF d(2)]] by (simp add: upd_tc_def)
  moreover have "olsr_expire_tc_edge_gc p db = Some (if \<exists>e\<in>set (edges_of ?tc). outdated (ansn tc) ?db e then
      db1\<lparr>changes_topology := True\<rparr> else db1)"
    using assms(3) d(1) by (simp add: olsr_expire_tc_edge_gc_def olsr_delete_outdated_tc_edges_def)
  moreover have "advertises (db1\<lparr>changes_topology := True\<rparr>) = advertises db1" by (rule advertises_cong) simp_all
  ultimately show ?thesis using edges_deletedD(1) [OF d(2)] adv by auto
qed

theorem collect_edges_witness:
  "\<exists>db'. olsr_expire_tc_edge_gc 0 demo_lsdb = Some db' \<and> lsdb_ok db'"
proof -
  obtain tc where tc: "tcs demo_lsdb 0 = Some tc" using demo_lsdb_ok(6) by auto
  have "heap_next demo_lsdb < 2 ^ 31" using demo_lsdb_ok(3) by simp
  from collect_edges [OF demo_lsdb_ok(1) this tc] show ?thesis by blast
qed

section \<open>Routes\<close>

text \<open>The database with an elected path.\<close>

definition with_best :: "ptr \<Rightarrow> rt_entry \<Rightarrow> ptr \<Rightarrow> 'lq lsdb \<Rightarrow> 'lq lsdb" where
  "with_best x rt b db = (if prefix_len (rt_dst rt) = 0 then (upd_rt x (\<lambda>rt. rt\<lparr>rt_best := Some b\<rparr>) db)\<lparr>current_inetgw := Some b\<rparr>
     else upd_rt x (\<lambda>rt. rt\<lparr>rt_best := Some b\<rparr>) db)"

lemma rt_best_ok:
  assumes "lsdb_ok db" "rt_entries db x = Some rt" "avl_walk (rt_path_tree rt) \<noteq> []"
  shows "\<exists>b rpb. olsr_rt_best cnf x db = Some (with_best x rt b db) \<and> lsdb_ok (with_best x rt b db) \<and> path_key db x b \<noteq> None \<and> rt_paths db b = Some rpb \<and>
    (\<forall>r rp. rt_paths db r = Some rp \<and> rtp_rt rp = Some x \<longrightarrow> \<not> olsr_cmp_rtp cnf (r, rp) (b, rpb) (current_inetgw db))"
proof -
  have ix: "indexes (rt_path_tree rt) (path_key db x)" using lsdb_okD(5) [OF assms(1,2)] .
  let ?rs = "map snd (avl_walk (rt_path_tree rt))" and ?k = "rtp_rank cnf (current_inetgw db)"
  obtain r rs where rs: "?rs = r # rs" using assms(3) by (cases ?rs) auto
  have mem: "i \<in> set (r # rs) \<longleftrightarrow> path_key db x i \<noteq> None" for i unfolding rs [symmetric] by (rule indexes_nodes [OF ix])
  have live: "\<forall>i\<in>set (r # rs). rt_paths db i \<noteq> None"
  proof
    fix i assume "i \<in> set (r # rs)"
    hence "path_key db x i \<noteq> None" using mem by blast
    thus "rt_paths db i \<noteq> None" by (auto simp: path_key_def split: option.splits)
  qed
  then obtain rp where rp: "rt_paths db r = Some rp" by auto
  from rt_best_walk_least [of rs db cnf "(r, rp)"] live obtain b where b: "rt_best_walk cnf db rs (r, rp) = Some b"
    "b = (r, rp) \<or> fst b \<in> set rs \<and> rt_paths db (fst b) = Some (snd b)" "\<not> rank_less (?k (r, rp)) (?k b)"
    "\<forall>r\<in>set rs. \<not> rank_less (?k (r, the (rt_paths db r))) (?k b)" by auto
  have f: "avl_walk_first (rt_path_tree rt) = Some r" using rs by (auto simp: walk_first_hd split: list.splits)
  have bl: "fst b \<in> set (r # rs)" "rt_paths db (fst b) = Some (snd b)" using b(2) rp by auto
  let ?db1 = "upd_rt x (\<lambda>rt. rt\<lparr>rt_best := Some (fst b)\<rparr>) db"
  let ?db' = "if prefix_len (rt_dst rt) = 0 then ?db1\<lparr>current_inetgw := Some (fst b)\<rparr> else ?db1"
  have res: "olsr_rt_best cnf x db = Some ?db'"
    using assms(2) f rp b(1) rs by (simp add: olsr_rt_best_def split_beta)
  have ok1: "lsdb_ok ?db1" by (rule upd_rt_best_ok [OF assms(1)])
  have gw: "lsdb_ok (?db1\<lparr>current_inetgw := Some (fst b)\<rparr>)" using bl(2) by (intro gateway_ok [OF ok1]) (simp add: upd_rt_def)
  have least: "\<not> olsr_cmp_rtp cnf (i, rpi) (fst b, snd b) (current_inetgw db)"
    if "rt_paths db i = Some rpi" "rtp_rt rpi = Some x" for i rpi
  proof -
    have "i \<in> set (r # rs)" using that mem by (simp add: path_key_def)
    thus ?thesis using that rp b(3,4) by (auto simp: cmp_rtp_rank)
  qed
  show ?thesis
    using res ok1 gw bl mem [of "fst b"] least
    by (intro exI [of _ "fst b"] exI [of _ "snd b"]) (simp add: with_best_def)
qed

text \<open>
  C22. Among the paths of a prefix the election picks one that no other path beats in cost, hop
  count and originator, where the cost of the current internet gateway is scaled by the NAT
  threshold; it dereferences no freed path, the database stays consistent, and for the default
  route the elected path becomes the current gateway.
\<close>

theorem rt_best_least:
  assumes "lsdb_ok db" "rt_entries db x = Some rt" "avl_walk (rt_path_tree rt) \<noteq> []"
  shows "\<exists>db' b rpb. olsr_rt_best cnf x db = Some db' \<and> lsdb_ok db' \<and> path_key db x b \<noteq> None \<and> rt_paths db b = Some rpb \<and>
    rt_entries db' x = Some (rt\<lparr>rt_best := Some b\<rparr>) \<and>
    (prefix_len (rt_dst rt) = 0 \<longrightarrow> current_inetgw db' = Some b) \<and>
    (\<forall>r rp. rt_paths db r = Some rp \<and> rtp_rt rp = Some x \<longrightarrow> \<not> olsr_cmp_rtp cnf (r, rp) (b, rpb) (current_inetgw db))"
proof -
  obtain b rpb where b: "olsr_rt_best cnf x db = Some (with_best x rt b db)" "lsdb_ok (with_best x rt b db)" "path_key db x b \<noteq> None" "rt_paths db b = Some rpb"
    "\<forall>r rp. rt_paths db r = Some rp \<and> rtp_rt rp = Some x \<longrightarrow> \<not> olsr_cmp_rtp cnf (r, rp) (b, rpb) (current_inetgw db)"
    using rt_best_ok [OF assms, of cnf] by (elim exE conjE)
  have "rt_entries (with_best x rt b db) x = Some (rt\<lparr>rt_best := Some b\<rparr>)" "prefix_len (rt_dst rt) = 0 \<longrightarrow> current_inetgw (with_best x rt b db) = Some b"
    using assms(2) by (simp_all add: with_best_def upd_rt_def)
  with b show ?thesis by (intro exI [of _ "with_best x rt b db"] exI [of _ b] exI [of _ rpb] conjI)
qed

lemma one_node_tree: "\<exists>T. indexes T [n \<mapsto> k] \<and> length (avl_walk T) = 1" for n :: ptr
proof -
  have "(\<lambda>n. None) n = None" "\<forall>m. (\<lambda>n::ptr. None) m \<noteq> Some k" by simp_all
  from indexes_insert [where dup = False and n = n, OF indexes_init this] show ?thesis by auto
qed

text \<open>A route to one destination.\<close>

definition demo_path :: rt_path where
  "demo_path = \<lparr>rtp_rt = Some 2, rtp_tc = Some 0, rtp_nexthop = \<lparr>gateway = V4 0x0200000a, iif_index = 1\<rparr>,
     rtp_metric = \<lparr>rtm_cost = 0, rtm_hops = 0\<rparr>, rtp_originator = V4 0x0200000a,
     rtp_dst = \<lparr>prefix = V4 0x0200000a, prefix_len = 32\<rparr>, rtp_version = 0, rtp_origin = 1\<rparr>"

lemma demo_route:
  obtains db :: "default_lq_hybrid_plc lsdb" and T where "lsdb_ok db" "avl_walk T \<noteq> []" "rt_paths db = [1 \<mapsto> demo_path]" "heap_next db = 3"
    "routingtree_version db = 0" "vertex_key db = [0 \<mapsto> rtp_originator demo_path]"
    "rt_entries db = [2 \<mapsto> \<lparr>rt_dst = rtp_dst demo_path, rt_best = best, rt_nexthop = rtp_nexthop demo_path, rt_metric = rtp_metric demo_path, rt_path_tree = T\<rparr>]"
proof -
  let ?a = "rtp_originator demo_path" and ?q = "rtp_dst demo_path"
  note ex = one_node_tree
  obtain T1 where T1: "indexes T1 [(0::ptr) \<mapsto> ?a]" using ex [of 0 ?a] by blast
  obtain T2 where T2: "indexes T2 [(1::ptr) \<mapsto> ?q]" "length (avl_walk T2) = 1" using ex [of 1 ?q] by blast
  obtain T3 where T3: "indexes T3 [(2::ptr) \<mapsto> ?q]" using ex [of 2 ?q] by blast
  obtain T4 where T4: "indexes T4 [(1::ptr) \<mapsto> ?a]" "length (avl_walk T4) = 1" using ex [of 1 ?a] by blast
  let ?rt = "\<lparr>rt_dst = ?q, rt_best = best, rt_nexthop = rtp_nexthop demo_path, rt_metric = rtp_metric demo_path, rt_path_tree = T4\<rparr>"
  let ?db = "empty_lsdb\<lparr>tc_tree := T1, tcs := [0 \<mapsto> (new_tc_entry ?a)\<lparr>prefix_tree := T2, refcount := 2\<rparr>],
    routingtree := T3, rt_entries := [2 \<mapsto> ?rt], rt_paths := [1 \<mapsto> demo_path], heap_next := 3\<rparr> :: default_lq_hybrid_plc lsdb"
  have k: "vertex_key ?db = [0 \<mapsto> ?a]" "edge_key ?db = (\<lambda>p. Map.empty)" "prefix_key ?db 0 = [1 \<mapsto> ?q]" "entry_key ?db = [2 \<mapsto> ?q]"
    "path_key ?db 2 = [1 \<mapsto> ?a]" "edge_ends ?db = Map.empty"
    by (auto simp: key_defs empty_lsdb_def new_tc_entry_def demo_path_def fun_eq_iff)
  have "lsdb_ok ?db"
  proof (rule lsdb_okI, goal_cases)
    case (2 p tc)
    hence p: "p = 0" "tc = (new_tc_entry ?a)\<lparr>prefix_tree := T2, refcount := 2\<rparr>" by (auto split: if_splits)
    show ?case unfolding p(1) vertex_ok_def k using T2 by (simp add: p(2) new_tc_entry_def indexes_init ref_of_def)
  next
    case (5 x rt)
    hence x: "x = 2" "rt = ?rt" by (auto split: if_splits)
    show ?case unfolding x k using T4(1) by simp
  next
    case (6 r rp) thus ?case unfolding path_wf_def k by (auto simp: demo_path_def split: if_splits)
  next
    case (7 q) thus ?case by (auto simp: allocated_def empty_lsdb_def split: if_splits)
  next
    case 1 show ?case unfolding k using T1 by simp
  next
    case 4 show ?case unfolding k using T3 by simp
  qed (simp_all add: empty_lsdb_def)
  moreover have "avl_walk T4 \<noteq> []" using T4(2) by auto
  ultimately show thesis using k(1) by (intro that [of ?db T4]) (simp_all add: empty_lsdb_def)
qed

theorem rt_best_least_witness:
  "\<exists>db db' b. olsr_rt_best demo_cnf 2 (db :: default_lq_hybrid_plc lsdb) = Some db' \<and> lsdb_ok db' \<and> path_key db 2 b \<noteq> None"
proof -
  obtain db :: "default_lq_hybrid_plc lsdb" and T where d: "lsdb_ok db" "avl_walk T \<noteq> []"
    "rt_entries db = [2 \<mapsto> \<lparr>rt_dst = rtp_dst demo_path, rt_best = None, rt_nexthop = rtp_nexthop demo_path, rt_metric = rtp_metric demo_path, rt_path_tree = T\<rparr>]"
    by (rule demo_route)
  hence "\<exists>rt. rt_entries db 2 = Some rt \<and> avl_walk (rt_path_tree rt) \<noteq> []" by simp
  with rt_best_least [OF d(1), of 2 _ demo_cnf] show ?thesis by blast
qed

section \<open>Every reachable database\<close>

text \<open>
  The events that change the topology: a received message, the two timers of a vertex, and the
  routes that other components announce and withdraw.
\<close>

inductive lsdb_event :: "olsrd_config \<Rightarrow> olsr_ip_addr list \<Rightarrow> default_lq_hybrid_plc lsdb \<Rightarrow> default_lq_hybrid_plc lsdb \<Rightarrow> bool"
  for cnf :: olsrd_config and deny :: "olsr_ip_addr list" where
  message: "pkt_get_u8 buf 0 = Some (type, p0) \<Longrightarrow> read_tc_header cnf buf p0 = Some (hdr, cur) \<Longrightarrow> tc_msg_ok cnf hdr buf cur db \<Longrightarrow>
    olsr_input_tc cnf lq_etx_hybrid_plc_handler deny symm buf db = Some (fwd, db') \<Longrightarrow> lsdb_event cnf deny db db'"
| validity: "tcs db p \<noteq> None \<Longrightarrow> olsr_expire_tc_entry cnf p db = Some db' \<Longrightarrow> lsdb_event cnf deny db db'"
| collection: "tcs db p \<noteq> None \<Longrightarrow> olsr_expire_tc_edge_gc p db = Some db' \<Longrightarrow> lsdb_event cnf deny db db'"
| announce: "olsr_insert_routing_table cnf dst plen orig origin db = Some (r, db') \<Longrightarrow> lsdb_event cnf deny db db'"
| withdraw: "olsr_delete_routing_table cnf dst plen orig db = Some db' \<Longrightarrow> lsdb_event cnf deny db db'"

inductive_cases lsdb_eventE: "lsdb_event cnf deny db db'"

lemma insert_routing_table_ok:
  assumes ok: "lsdb_ok db" and m: "main_addr cnf \<noteq> all_zero cnf"
  shows "\<exists>r db'. olsr_insert_routing_table cnf dst plen orig origin db = Some (r, db') \<and> lsdb_ok db' \<and> edge_data db' = edge_data db"
proof (cases "plen > maxplen cnf")
  case True
  thus ?thesis using ok by (simp add: olsr_insert_routing_table_def)
next
  case False
  from locate_vertex_ok [OF ok m, of orig] obtain p db1 where
    l: "olsr_locate_tc_entry cnf orig db = Some (Some p, db1)" "vertex_added orig p db db1" by blast
  then have v: "lsdb_ok db1" "vertex_key db1 p = Some orig" "edge_data db1 = edge_data db" by (simp_all add: vertex_added_def)
  then obtain tc where "tcs db1 p = Some tc" by (auto simp: vertex_key_def)
  from insert_prefix_ok [OF v(1) this, of cnf dst plen origin] obtain r db2 where
    "insert_prefix cnf dst plen p origin db1 = Some (r, db2)" "lsdb_ok db2" "grows db1 db2" by blast
  with l(1) False v(3) show ?thesis by (simp add: olsr_insert_routing_table_def grows_def)
qed

lemma expire_ok:
  assumes "lsdb_ok db" "heap_next db < 2 ^ 31" "tcs db p \<noteq> None"
  shows "\<exists>db'. olsr_expire_tc_entry cnf p db = Some db' \<and> lsdb_ok db' \<and> (costs_ok db \<longrightarrow> costs_ok db')"
proof -
  let ?db = "upd_tc p (\<lambda>tc. tc\<lparr>validity_timer := None\<rparr>) db"
  have ok: "lsdb_ok ?db" by (rule upd_tc_ok [OF assms(1)]) (simp add: same_vertex_def)
  have e: "edge_data ?db = edge_data db" by (simp add: edge_data_def fun_eq_iff)
  obtain tc where p: "tcs db p = Some tc" "tcs ?db p = Some (tc\<lparr>validity_timer := None\<rparr>)" "heap_next ?db < 2 ^ 31" using assms(2,3) by auto
  from delete_vertex_ok [OF ok p(3,2)] obtain db' where d: "olsr_delete_tc_entry cnf p ?db = Some db'" "vertex_deleted p ?db db'" by blast
  have "costs_ok db'" if "costs_ok db" using d(2) by (intro costs_ok_sub [OF that]) (simp add: vertex_deleted_def e)
  with d p(1) show ?thesis by (auto simp: olsr_expire_tc_entry_def vertex_deleted_def costs_ok_def)
qed

lemma collect_ok:
  assumes "lsdb_ok db" "heap_next db < 2 ^ 31" "tcs db p \<noteq> None"
  shows "\<exists>db'. olsr_expire_tc_edge_gc p db = Some db' \<and> lsdb_ok db' \<and> (costs_ok db \<longrightarrow> costs_ok db')"
proof -
  let ?db = "upd_tc p (\<lambda>tc. tc\<lparr>edge_gc_timer := None\<rparr>) db"
  have ok: "lsdb_ok ?db" by (rule upd_tc_ok [OF assms(1)]) (simp add: same_vertex_def)
  have e: "edge_data ?db = edge_data db" by (simp add: edge_data_def fun_eq_iff)
  obtain tc where p: "tcs db p = Some tc" "tcs ?db p = Some (tc\<lparr>edge_gc_timer := None\<rparr>)" "heap_next ?db < 2 ^ 31" using assms(2,3) by auto
  note f = edges_of_facts [OF ok p(2)]
  from delete_outdated_loop [OF ok p(3) f(1,2), of "ansn tc" False] obtain b db' where
    d: "foldM (delete_if_outdated (ansn tc)) (edges_of (tc\<lparr>edge_gc_timer := None\<rparr>)) (False, ?db) = Some (b, db')"
    "edges_deleted ?db {e \<in> set (edges_of (tc\<lparr>edge_gc_timer := None\<rparr>)). outdated (ansn tc) ?db e} db'" by auto
  have "costs_ok db'" if "costs_ok db" by (intro costs_ok_sub [OF that]) (simp add: edges_deletedD(3) [OF d(2)] e)
  with d(1) p(1) edges_deletedD(1) [OF d(2)] show ?thesis
    by (auto simp: olsr_expire_tc_edge_gc_def olsr_delete_outdated_tc_edges_def costs_ok_def)
qed

lemma delete_route_ok:
  assumes "lsdb_ok db" "heap_next db < 2 ^ 31"
  shows "\<exists>db'. olsr_delete_routing_table cnf dst plen orig db = Some db' \<and> lsdb_ok db' \<and> (costs_ok db \<longrightarrow> costs_ok db')"
  using delete_routing_table_ok [OF assms, of cnf dst plen orig] by (auto simp: same_graph_def costs_ok_def)

text \<open>The databases of a running daemon, as long as there is memory for its objects.\<close>

inductive lsdb_run :: "olsrd_config \<Rightarrow> olsr_ip_addr list \<Rightarrow> default_lq_hybrid_plc lsdb \<Rightarrow> bool"
  for cnf :: olsrd_config and deny :: "olsr_ip_addr list" where
  started: "olsr_init_tc cnf empty_lsdb = Some db \<Longrightarrow> lsdb_run cnf deny db"
| event: "lsdb_run cnf deny db \<Longrightarrow> heap_next db < 2 ^ 31 \<Longrightarrow> lsdb_event cnf deny db db' \<Longrightarrow> lsdb_run cnf deny db'"

lemma event_ok:
  assumes "lsdb_event cnf deny db db'" "lsdb_ok db" "costs_ok db" "heap_next db < 2 ^ 31" "main_addr cnf \<noteq> all_zero cnf"
  shows "lsdb_ok db' \<and> costs_ok db'"
  using assms(1)
proof (cases rule: lsdb_event.cases)
  case (message buf type p0 hdr cur symm fwd)
  with input_tc_ok [OF assms(2) message(1-3), of deny symm] assms(3) show ?thesis by auto
next
  case (validity p)
  with expire_ok [OF assms(2,4), of p cnf] assms(3) show ?thesis by auto
next
  case (collection p)
  with collect_ok [OF assms(2,4), of p] assms(3) show ?thesis by auto
next
  case (announce dst plen orig origin r)
  with insert_routing_table_ok [OF assms(2,5), of dst plen orig origin] assms(3) show ?thesis by (auto simp: costs_ok_def)
next
  case (withdraw dst plen orig)
  with delete_route_ok [OF assms(2,4), of cnf dst plen orig] assms(3) show ?thesis by auto
qed

lemma init_tc_ok:
  assumes "main_addr cnf \<noteq> all_zero cnf"
  shows "\<exists>db'. olsr_init_tc cnf (empty_lsdb :: default_lq_hybrid_plc lsdb) = Some db' \<and> lsdb_ok db' \<and> costs_ok db' \<and> heap_next db' \<le> 2 \<and>
    (\<exists>p. tc_myself db' = Some p \<and> vertex_key db' = [p \<mapsto> main_addr cnf])"
proof -
  let ?e = "empty_lsdb :: default_lq_hybrid_plc lsdb"
  have e: "?e\<lparr>tc_tree := avl_init\<rparr> = ?e" "vertex_key ?e = Map.empty" "heap_next ?e = 0" "edge_data ?e = Map.empty"
    by (simp_all add: empty_lsdb_def vertex_key_def edge_data_def fun_eq_iff)
  have "\<forall>q. vertex_key ?e q \<noteq> Some (main_addr cnf)" by (simp add: e)
  from add_vertex_ok [OF empty_lsdb_ok(1) this assms] show ?thesis
    unfolding olsr_init_tc_def e(1) by (auto simp: vertex_added_def e costs_ok_def)
qed

lemma run_ok:
  assumes "lsdb_run cnf deny db" "main_addr cnf \<noteq> all_zero cnf"
  shows "lsdb_ok db \<and> costs_ok db"
  using assms(1)
proof (induction rule: lsdb_run.induct)
  case (started db)
  with init_tc_ok [OF assms(2)] show ?case by auto
next
  case (event db db')
  with event_ok [OF event(3) _ _ event(2) assms(2)] show ?case by blast
qed

lemma vertices_live: "lsdb_ok db \<Longrightarrow> p \<in> set (vertices db) \<longleftrightarrow> tcs db p \<noteq> None"
  unfolding vertices_def using indexes_nodes [OF lsdb_okD(1), of db p] vertex_live [of db p] by auto

lemma spf_wf_of_ok:
  assumes ok: "lsdb_ok db" and c: "costs_ok db" and n: "length (vertices db) \<le> 1024"
  shows "spf_wf db"
proof -
  have e: "edge_ok db i" if "tcs db u = Some tc" "i \<in> set (edges_of tc)" for u tc i
  proof -
    from edges_of_facts(2) [OF ok that(1)] that(2) obtain ed where ed: "tc_edges db i = Some ed" by (auto simp: edge_data_def)
    have "edge_tc ed' \<in> set (vertices db)" "tc_edges db ei = Some ed'" if "edge_inv ed = Some ei" "tc_edges db ei = Some ed'" for ei ed'
      using lsdb_okD(3) [OF ok that(2)] vertices_live [OF ok] that by (auto simp: edge_wf_def)
    with edge_inv_live [OF ok ed] costs_okD [OF c ed] ed show ?thesis
      by (fastforce simp: edge_ok_def split: option.splits)
  qed
  have "distinct (vertices db)" unfolding vertices_def by (rule indexes_distinct [OF lsdb_okD(1) [OF ok]])
  with n e show ?thesis using vertices_live [OF ok] by (auto simp: spf_wf_def split: option.splits)
qed


lemma demo_started:
  obtains db where "lsdb_run demo_cnf [] db" "heap_next db \<le> 2" "lsdb_ok db" "main_addr demo_cnf \<noteq> all_zero demo_cnf"
proof -
  have m: "main_addr demo_cnf \<noteq> all_zero demo_cnf" by (simp add: demo_cnf_def all_zero_def)
  from init_tc_ok [OF this] m show thesis using started that by blast
qed


text \<open>
  C6. The daemon is never stuck: in every reachable database, as long as there is memory, a
  well-formed message can be processed, both timers of every vertex can run, and routes can be
  announced and withdrawn, and each leads to a reachable database again.
\<close>

theorem run_never_stuck:
  assumes "lsdb_run cnf deny db" "main_addr cnf \<noteq> all_zero cnf" "heap_next db < 2 ^ 31"
  shows "(\<forall>buf type p0 hdr cur symm. pkt_get_u8 buf 0 = Some (type, p0) \<and> read_tc_header cnf buf p0 = Some (hdr, cur) \<and>
       tc_msg_ok cnf hdr buf cur db \<longrightarrow>
       (\<exists>fwd db'. olsr_input_tc cnf lq_etx_hybrid_plc_handler deny symm buf db = Some (fwd, db') \<and> lsdb_run cnf deny db')) \<and>
    (\<forall>p. tcs db p \<noteq> None \<longrightarrow> (\<exists>db'. olsr_expire_tc_entry cnf p db = Some db' \<and> lsdb_run cnf deny db') \<and>
       (\<exists>db'. olsr_expire_tc_edge_gc p db = Some db' \<and> lsdb_run cnf deny db')) \<and>
    (\<forall>dst plen orig origin. (\<exists>r db'. olsr_insert_routing_table cnf dst plen orig origin db = Some (r, db') \<and> lsdb_run cnf deny db') \<and>
       (\<exists>db'. olsr_delete_routing_table cnf dst plen orig db = Some db' \<and> lsdb_run cnf deny db'))"
proof -
  have ok: "lsdb_ok db" using run_ok [OF assms(1,2)] by blast
  note next_run = lsdb_run.event [OF assms(1,3)]
  have "\<exists>fwd db'. olsr_input_tc cnf lq_etx_hybrid_plc_handler deny symm buf db = Some (fwd, db') \<and> lsdb_run cnf deny db'"
    if "pkt_get_u8 buf 0 = Some (type, p0)" "read_tc_header cnf buf p0 = Some (hdr, cur)" "tc_msg_ok cnf hdr buf cur db"
    for buf type p0 hdr cur symm
    using input_tc_ok [OF ok that, of deny symm] next_run lsdb_event.message [OF that] by blast
  moreover have "\<exists>db'. olsr_expire_tc_entry cnf p db = Some db' \<and> lsdb_run cnf deny db'"
    "\<exists>db'. olsr_expire_tc_edge_gc p db = Some db' \<and> lsdb_run cnf deny db'" if "tcs db p \<noteq> None" for p
    using expire_ok [OF ok assms(3) that, of cnf] collect_ok [OF ok assms(3) that] next_run
      lsdb_event.validity [OF that] lsdb_event.collection [OF that] by blast+
  moreover have "\<exists>r db'. olsr_insert_routing_table cnf dst plen orig origin db = Some (r, db') \<and> lsdb_run cnf deny db'" for dst plen orig origin
    using insert_routing_table_ok [OF ok assms(2), of dst plen orig origin] next_run lsdb_event.announce by blast
  moreover have "\<exists>db'. olsr_delete_routing_table cnf dst plen orig db = Some db' \<and> lsdb_run cnf deny db'" for dst plen orig
    using delete_route_ok [OF ok assms(3), of cnf dst plen orig] next_run lsdb_event.withdraw by blast
  ultimately show ?thesis by blast
qed

theorem run_never_stuck_witness:
  "\<exists>db fwd db'. lsdb_run demo_cnf [] db \<and>
    olsr_input_tc demo_cnf lq_etx_hybrid_plc_handler [] True demo_msg db = Some (fwd, db') \<and> lsdb_run demo_cnf [] db'"
proof -
  obtain db where d: "lsdb_run demo_cnf [] db" "heap_next db \<le> 2" "lsdb_ok db" "main_addr demo_cnf \<noteq> all_zero demo_cnf"
    by (rule demo_started)
  have "tc_msg_ok demo_cnf demo_hdr demo_msg 16 db" "heap_next db < 2 ^ 31"
    using d(2) by (simp_all add: tc_msg_ok_def demo_cnf_def demo_hdr_def demo_msg_def all_zero_def ipsize_def
        border_flags_ok_def border_flag_ok_def)
  with run_never_stuck [OF d(1,4)] demo_msg_header d(1) show ?thesis by blast
qed

end
