(* ===== verification/Olsr_Time.thy ===== *)
theory Olsr_Time
  imports Olsr_Types
begin

text \<open>
  The clock of the daemon (\<^verbatim>\<open>src/scheduler.c\<close>): milliseconds since start as a 32-bit number
  that wraps after 49 days, derived from a system clock that may jump, and the comparisons of
  timestamps that have to survive the wrap.
\<close>

section \<open>Timestamps\<close>

definition olsr_getTimestamp :: "u32 \<Rightarrow> u32 \<Rightarrow> u32" where
  "olsr_getTimestamp now_times s = now_times + s"

definition olsr_getTimeDue :: "u32 \<Rightarrow> u32 \<Rightarrow> int" where
  "olsr_getTimeDue now_times s =
     (if s > now_times then
        (let diff = s - now_times in
         if diff > 2 ^ 31 then sint (- (0xffffffff - diff)) else sint diff)
      else
        (let diff = now_times - s in
         if diff > 2 ^ 31 then sint (0xffffffff - diff) else sint (- diff)))"

definition olsr_isTimedOut :: "u32 \<Rightarrow> u32 \<Rightarrow> bool" where
  "olsr_isTimedOut now_times s =
     (if s > now_times then s - now_times > 2 ^ 31 else now_times - s \<le> 2 ^ 31)"

text \<open>
  C35. A timestamp \<open>ms\<close> milliseconds ahead is timed out exactly from the moment on at which
  the clock has advanced by \<open>ms\<close>, wherever the 32-bit clock wraps in between, as long as
  both spans stay below 2 to the 31 milliseconds.
\<close>

theorem timestamp_expiry:
  assumes "unat ms < 2 ^ 31" "unat k < 2 ^ 31"
  shows "olsr_isTimedOut (now + k) (olsr_getTimestamp now ms) \<longleftrightarrow> ms \<le> k"
  using assms u32_less [of now]
  by (auto simp: olsr_isTimedOut_def olsr_getTimestamp_def word_less_nat_alt word_le_nat_alt unat_sub32 unat_add32
      split: if_splits)

theorem timestamp_expiry_witness:
  "olsr_isTimedOut (0xfffffff0 + 32) (olsr_getTimestamp 0xfffffff0 20) \<longleftrightarrow> (20::u32) \<le> 32"
  by (rule timestamp_expiry) simp_all

lemma uint_u32: "0 \<le> uint (a :: u32)" "uint a < 2 ^ 32"
  using unsigned_less [of a, where 'a = int] by simp_all

lemma sint_u32: "sint (a :: u32) = (if uint a < 2 ^ 31 then uint a else uint a - 2 ^ 32)"
proof (cases "uint a < 2 ^ 31")
  case True
  moreover have "- (2 ^ 31) \<le> uint a" by (rule order.trans [OF _ uint_u32(1)]) simp
  ultimately have "signed_take_bit 31 (uint a) = uint a" by (intro signed_take_bit_int_eq_self) simp_all
  with True show ?thesis by (simp add: sint_uint)
next
  case False
  have "signed_take_bit 31 (uint a) = signed_take_bit 31 (uint a - 2 ^ 32)"
    by (simp add: signed_take_bit_eq_iff_take_bit_eq take_bit_eq_mod)
  also have "\<dots> = uint a - 2 ^ 32"
    using False uint_u32 [of a] by (subst signed_take_bit_int_eq_self) simp_all
  finally show ?thesis using False by (simp add: sint_uint)
qed

lemma uint_sub32: "uint (a - b :: u32) = (if uint b \<le> uint a then uint a - uint b else uint a - uint b + 2 ^ 32)"
  using uint_sub_if' [of a b] by simp

lemma uint_add32: "uint (a + b :: u32) = (if uint a + uint b < 2 ^ 32 then uint a + uint b else uint a + uint b - 2 ^ 32)"
  using uint_plus_if' [of a b] by simp

text \<open>The four places of a timestamp relative to the clock.\<close>

lemma getTimeDue_cases:
  fixes now s :: u32
  defines "d \<equiv> uint s - uint now"
  shows "olsr_getTimeDue now s =
    (if d > 2 ^ 31 then d - 2 ^ 32 + 1 else if d = 2 ^ 31 then - (2 ^ 31)
     else if d \<ge> - (2 ^ 31) then d else d + 2 ^ 32 - 1)"
proof -
  have M: "uint (0xffffffff - x :: u32) = 2 ^ 32 - 1 - uint x" for x using uint_u32 [of x] by (simp add: uint_sub32)
  have N: "uint (- x :: u32) = (if uint x = 0 then 0 else 2 ^ 32 - uint x)" for x
    using uint_sub32 [of 0 x] uint_u32 [of x] by simp
  show ?thesis
  proof (cases "now < s")
    case True
    hence lt: "uint now < uint s" by (simp add: word_less_def)
    hence diff: "uint (s - now) = d" by (simp add: uint_sub32 d_def)
    have d: "0 < d" "d < 2 ^ 32" using lt uint_u32 [of s] uint_u32 [of now] unfolding d_def by linarith+
    have "2 ^ 31 < s - now \<longleftrightarrow> 2 ^ 31 < d" by (simp add: word_less_def diff)
    with True d show ?thesis unfolding olsr_getTimeDue_def Let_def sint_u32 N M diff by auto
  next
    case False
    hence le: "uint s \<le> uint now" by (simp add: word_less_def)
    hence diff: "uint (now - s) = - d" by (simp add: uint_sub32 d_def)
    have d: "d \<le> 0" "- (2 ^ 32) < d" using le uint_u32 [of s] uint_u32 [of now] unfolding d_def by linarith+
    have "2 ^ 31 < now - s \<longleftrightarrow> d < - (2 ^ 31)" by (auto simp: word_less_def diff)
    with False d show ?thesis unfolding olsr_getTimeDue_def Let_def sint_u32 N M diff by auto
  qed
qed

text \<open>
  The time until a timestamp is exact while the clock does not wrap between the two;
  across the wrap it is wrong by one millisecond and never by more.
\<close>

theorem time_due_error:
  assumes "uint ms < 2 ^ 31" "uint k < 2 ^ 31"
  shows "\<bar>olsr_getTimeDue (now + k) (olsr_getTimestamp now ms) - (uint ms - uint k)\<bar> \<le> 1 \<and>
    (uint now + max (uint ms) (uint k) < 2 ^ 32 \<longrightarrow>
       olsr_getTimeDue (now + k) (olsr_getTimestamp now ms) = uint ms - uint k)"
proof -
  define e where "e = uint ms - uint k"
  define D where "D = uint (now + ms) - uint (now + k)"
  have e: "- 2147483648 < e" "e < 2147483648"
    using assms uint_u32(1) [of ms] uint_u32(1) [of k] unfolding e_def
    by (simp_all del: uint_ge_0 unsigned_greater_eq)
  have D: "D = e \<or> D = e - 4294967296 \<or> D = e + 4294967296" by (simp add: D_def e_def uint_add32)
  have same: "D = e" if "uint now + max (uint ms) (uint k) < 2 ^ 32"
    using that by (simp add: D_def e_def uint_add32 max_def split: if_splits)
  have due: "olsr_getTimeDue (now + k) (olsr_getTimestamp now ms) =
    (if D > 2147483648 then D - 4294967295 else if D = 2147483648 then - 2147483648
     else if D \<ge> - 2147483648 then D else D + 4294967295)"
    unfolding olsr_getTimestamp_def getTimeDue_cases D_def [symmetric] by simp
  have "olsr_getTimeDue (now + k) (olsr_getTimestamp now ms) \<in> {e - 1, e, e + 1}"
    using D e unfolding due by (elim disjE) simp_all
  moreover have "D = e \<Longrightarrow> olsr_getTimeDue (now + k) (olsr_getTimestamp now ms) = e" using e unfolding due by simp
  ultimately show ?thesis using same unfolding e_def [symmetric] by auto
qed

theorem time_due_error_witness:
  "\<bar>olsr_getTimeDue (0xfffffff0 + 32) (olsr_getTimestamp 0xfffffff0 10) - (10 - 32)\<bar> \<le> 1"
  using time_due_error [of 10 32 "0xfffffff0"] by simp

section \<open>The system clock\<close>

record timeval =
  tv_sec :: int
  tv_usec :: int

record clock =
  first_tv :: timeval
  last_tv :: timeval

text \<open>Division of the code, which rounds towards zero.\<close>

definition tdiv :: "int \<Rightarrow> int \<Rightarrow> int" where
  "tdiv a b = (if a < 0 then - (- a div b) else a div b)"

definition elapsed_ms :: "timeval \<Rightarrow> timeval \<Rightarrow> int" where
  "elapsed_ms tv from = (tv_sec tv - tv_sec from) * 1000 + tdiv (tv_usec tv - tv_usec from) 1000"

definition time_jumped :: "timeval \<Rightarrow> timeval \<Rightarrow> bool" where
  "time_jumped tv l \<longleftrightarrow>
     tv_sec tv < tv_sec l \<or> (tv_sec tv = tv_sec l \<and> tv_usec tv < tv_usec l) \<or> tv_sec tv - tv_sec l > 60"

text \<open>\<open>tv\<close> is what \<open>gettimeofday\<close> delivers.\<close>

definition olsr_times :: "timeval \<Rightarrow> clock \<Rightarrow> clock \<times> u32" where
  "olsr_times tv c =
     (if time_jumped tv (last_tv c) then
        let t = word_of_int (elapsed_ms (last_tv c) (first_tv c)) + 1 :: u32;
            sec = tv_sec tv - uint t div 1000;
            usec = tv_usec tv - (uint t mod 1000) * 1000;
            first = (if usec < 0 then \<lparr>tv_sec = sec - 1, tv_usec = usec + 1000000\<rparr>
                     else \<lparr>tv_sec = sec, tv_usec = usec\<rparr>)
        in (\<lparr>first_tv = first, last_tv = tv\<rparr>, t)
      else (c\<lparr>last_tv := tv\<rparr>, word_of_int (elapsed_ms tv (first_tv c))))"

definition tv_ok :: "timeval \<Rightarrow> bool" where
  "tv_ok tv \<longleftrightarrow> 0 \<le> tv_usec tv \<and> tv_usec tv < 1000000"

definition clock_ok :: "clock \<Rightarrow> bool" where
  "clock_ok c \<longleftrightarrow> tv_ok (first_tv c) \<and> tv_ok (last_tv c) \<and> 0 \<le> elapsed_ms (last_tv c) (first_tv c)"

lemma tdiv_cases:
  "x < 0 \<and> tdiv x 1000 \<le> 0 \<and> 1000 * (tdiv x 1000 - 1) < x \<and> x \<le> 1000 * tdiv x 1000 \<or>
   0 \<le> x \<and> 0 \<le> tdiv x 1000 \<and> 1000 * tdiv x 1000 \<le> x \<and> x < 1000 * (tdiv x 1000 + 1)"
proof (cases "x < 0")
  have q: "1000 * (y div 1000) \<le> y" "y < 1000 * (y div 1000 + 1)" for y :: int
    using div_mult_mod_eq [of y 1000] pos_mod_bound [of 1000 y] pos_mod_sign [of 1000 y] by (simp_all add: algebra_simps)
  {
    case True
    hence "0 \<le> - x div 1000" by (simp add: pos_imp_zdiv_nonneg_iff)
    with True q [of "- x"] show ?thesis unfolding tdiv_def by (simp add: algebra_simps)
  next
    case False
    with q [of x] show ?thesis by (simp add: tdiv_def pos_imp_zdiv_nonneg_iff)
  }
qed

lemma tdiv_mono: "x \<le> y \<Longrightarrow> tdiv x 1000 \<le> tdiv y 1000"
  using tdiv_cases [of x] tdiv_cases [of y] by auto

lemma tdiv_near: "x < y + 1000000 \<Longrightarrow> tdiv x 1000 \<le> tdiv y 1000 + 1000"
  using tdiv_cases [of x] tdiv_cases [of y] by auto

lemma elapsed_mono:
  assumes "tv_ok a" "tv_ok b" "tv_ok f" "tv_sec a < tv_sec b \<or> tv_sec a = tv_sec b \<and> tv_usec a \<le> tv_usec b"
  shows "elapsed_ms a f \<le> elapsed_ms b f"
proof -
  let ?x = "tv_usec a - tv_usec f" and ?y = "tv_usec b - tv_usec f"
  have xy: "?x - ?y < 1000000" using assms by (simp add: tv_ok_def)
  have "tdiv ?x 1000 \<le> tdiv ?y 1000 + 1000" using xy by (intro tdiv_near) simp
  thus ?thesis using assms(4) tdiv_mono [of ?x ?y] unfolding elapsed_ms_def by auto
qed

lemma elapsed_step:
  assumes "tv_ok a" "tv_ok b" "tv_ok f" "tv_sec b - tv_sec a \<le> 60"
  shows "elapsed_ms b f \<le> elapsed_ms a f + 61000"
proof -
  let ?x = "tv_usec a - tv_usec f" and ?y = "tv_usec b - tv_usec f"
  have xy: "?y - ?x < 1000000" using assms by (simp add: tv_ok_def)
  have "tdiv ?y 1000 \<le> tdiv ?x 1000 + 1000" using xy by (intro tdiv_near) simp
  thus ?thesis using assms(4) unfolding elapsed_ms_def by simp
qed

text \<open>A start time moved back by \<open>t\<close> milliseconds from now: exactly \<open>t\<close> have elapsed.\<close>

lemma elapsed_rebase:
  assumes "tv_ok tv" "0 \<le> t"
  defines "usec \<equiv> tv_usec tv - (t mod 1000) * 1000"
  defines "f \<equiv> (if usec < 0 then \<lparr>tv_sec = tv_sec tv - t div 1000 - 1, tv_usec = usec + 1000000\<rparr>
                else \<lparr>tv_sec = tv_sec tv - t div 1000, tv_usec = usec\<rparr>)"
  shows "tv_ok f \<and> elapsed_ms tv f = t"
proof -
  have m: "0 \<le> t mod 1000" "t mod 1000 < 1000" "t = t div 1000 * 1000 + t mod 1000" by simp_all
  have "tdiv ((t mod 1000) * 1000 - 1000000) 1000 = t mod 1000 - 1000" "tdiv ((t mod 1000) * 1000) 1000 = t mod 1000"
    using m by (simp_all add: tdiv_def)
  moreover have "tv_usec tv - (tv_usec tv - t mod 1000 * 1000 + 1000000) = (t mod 1000) * 1000 - 1000000"
    "tv_usec tv - (tv_usec tv - t mod 1000 * 1000) = (t mod 1000) * 1000" by simp_all
  ultimately show ?thesis using m assms(1) unfolding f_def usec_def elapsed_ms_def tv_ok_def
    by (cases "tv_usec tv - t mod 1000 * 1000 < 0") (simp_all, linarith+)
qed

text \<open>
  The clock of the daemon does not run backwards: whatever the system clock does between
  two readings, jumps into the past and the future included, the second one is not less, and
  after a jump it is one millisecond more; the state stays consistent, so that time goes on
  from there.
\<close>

theorem olsr_times_monotone:
  assumes ok: "clock_ok c" "tv_ok tv" and small: "elapsed_ms (last_tv c) (first_tv c) + 61000 < 2 ^ 32"
  shows "clock_ok (fst (olsr_times tv c)) \<and>
    uint (snd (olsr_times tv c)) = elapsed_ms (last_tv (fst (olsr_times tv c))) (first_tv (fst (olsr_times tv c))) \<and>
    elapsed_ms (last_tv c) (first_tv c) \<le> uint (snd (olsr_times tv c)) \<and>
    (time_jumped tv (last_tv c) \<longrightarrow> uint (snd (olsr_times tv c)) = elapsed_ms (last_tv c) (first_tv c) + 1)"
proof (cases "time_jumped tv (last_tv c)")
  case True
  let ?e = "elapsed_ms (last_tv c) (first_tv c)"
  define t :: u32 where "t = word_of_int ?e + 1"
  have e: "0 \<le> ?e" "?e + 1 < 2 ^ 32" using ok(1) small by (simp_all add: clock_ok_def)
  hence t: "uint t = ?e + 1" unfolding t_def
    by (simp add: uint_word_ariths uint_word_of_int)
  have "0 \<le> uint t" by simp
  from elapsed_rebase [OF ok(2) this] t e True ok show ?thesis
    unfolding olsr_times_def by (auto simp: Let_def clock_ok_def t_def [symmetric])
next
  case False
  hence le: "elapsed_ms (last_tv c) (first_tv c) \<le> elapsed_ms tv (first_tv c)"
    using ok by (intro elapsed_mono) (auto simp: time_jumped_def clock_ok_def)
  have "tv_sec tv - tv_sec (last_tv c) \<le> 60" using False by (auto simp: time_jumped_def)
  hence "elapsed_ms tv (first_tv c) < 2 ^ 32"
    using small elapsed_step [of "last_tv c" tv "first_tv c"] ok by (simp add: clock_ok_def)
  thus ?thesis using False le ok by (auto simp: olsr_times_def clock_ok_def uint_word_of_int)
qed

theorem olsr_times_monotone_witness:
  "uint (snd (olsr_times \<lparr>tv_sec = 40, tv_usec = 0\<rparr>
     \<lparr>first_tv = \<lparr>tv_sec = 100, tv_usec = 0\<rparr>, last_tv = \<lparr>tv_sec = 105, tv_usec = 0\<rparr>\<rparr>)) = 5001"
  using olsr_times_monotone [of "\<lparr>first_tv = \<lparr>tv_sec = 100, tv_usec = 0\<rparr>, last_tv = \<lparr>tv_sec = 105, tv_usec = 0\<rparr>\<rparr>"
      "\<lparr>tv_sec = 40, tv_usec = 0\<rparr>"]
  by (simp add: clock_ok_def tv_ok_def elapsed_ms_def tdiv_def time_jumped_def)

end
