(* ===== verification/Olsr_Duplicate_Set.thy ===== *)
theory Olsr_Duplicate_Set
  imports Olsr_Index Olsr_Types Olsr_Time "HOL-Library.Monad_Syntax"
begin

text \<open>
  The duplicate set (\<^verbatim>\<open>src/duplicate_set.c\<close>): for every originator the highest sequence number
  seen and a bit for each of the 32 numbers up to it, so that a message that arrives over
  several links is processed once. The specification is a map from originators to the set of
  numbers seen; the operations on the tree and the bit fields implement it.
\<close>

section \<open>Data\<close>

definition DUPLICATE_VTIME :: u32 where
  "DUPLICATE_VTIME = 120000"

definition DUP_MAX_TOO_LOW :: u16 where
  "DUP_MAX_TOO_LOW = 16"

record dup_entry =
  dup_ip :: olsr_ip_addr
  dup_seqnr :: u16
  too_low_counter :: u16
  dup_array :: u32
  dup_valid_until :: u32

record dup_state =
  duplicate_set :: "(olsr_ip_addr, nat) avl_tree"
  dup_entries :: "nat \<Rightarrow> dup_entry option"
  dup_next :: nat

definition upd_dup :: "nat \<Rightarrow> dup_entry \<Rightarrow> dup_state \<Rightarrow> dup_state" where
  "upd_dup p e st = st\<lparr>dup_entries := (dup_entries st)(p \<mapsto> e)\<rparr>"

section \<open>Operations\<close>

definition olsr_init_duplicate_set :: "dup_state \<Rightarrow> dup_state" where
  "olsr_init_duplicate_set st = st\<lparr>duplicate_set := avl_init\<rparr>"

definition olsr_cleanup_duplicates :: "olsr_ip_addr \<Rightarrow> dup_state \<Rightarrow> dup_state option" where
  "olsr_cleanup_duplicates orig st = (case avl_find (duplicate_set st) orig of
       None \<Rightarrow> Some st
     | Some p \<Rightarrow> do {
         e \<leftarrow> dup_entries st p;
         Some (upd_dup p (e\<lparr>too_low_counter := DUP_MAX_TOO_LOW - 2\<rparr>) st)
       })"

definition olsr_create_duplicate_entry :: "olsr_ip_addr \<Rightarrow> u16 \<Rightarrow> dup_entry" where
  "olsr_create_duplicate_entry ip seqnr =
     \<lparr>dup_ip = ip, dup_seqnr = seqnr, too_low_counter = 0, dup_array = 0, dup_valid_until = 0\<rparr>"

definition drop_if_timed_out :: "u32 \<Rightarrow> nat \<Rightarrow> dup_state \<Rightarrow> dup_state option" where
  "drop_if_timed_out now p st = do {
     e \<leftarrow> dup_entries st p;
     if olsr_isTimedOut now (dup_valid_until e) then do {
       T \<leftarrow> avl_delete (duplicate_set st) p;
       Some (st\<lparr>duplicate_set := T, dup_entries := (dup_entries st)(p := None)\<rparr>)
     } else Some st
   }"

definition olsr_cleanup_duplicate_entry :: "u32 \<Rightarrow> dup_state \<Rightarrow> dup_state option" where
  "olsr_cleanup_duplicate_entry now st = foldM (drop_if_timed_out now) (map snd (avl_walk (duplicate_set st))) st"

definition olsr_seqno_diff :: "u16 \<Rightarrow> u16 \<Rightarrow> int" where
  "olsr_seqno_diff seqno1 seqno2 =
     (let diff = uint seqno1 - uint seqno2
      in if diff > 2 ^ 15 then diff - 2 ^ 16 else if diff < - (2 ^ 15) then diff + 2 ^ 16 else diff)"

text \<open>The part of \<open>olsr_message_is_duplicate\<close> that works on a known entry.\<close>

definition dup_check :: "u16 \<Rightarrow> dup_entry \<Rightarrow> bool \<times> dup_entry" where
  "dup_check seqnr e =
     (let diff = olsr_seqno_diff seqnr (dup_seqnr e)
      in if diff < -31 then
           let e = e\<lparr>too_low_counter := too_low_counter e + 1\<rparr>
           in if too_low_counter e > DUP_MAX_TOO_LOW
              then (False, e\<lparr>too_low_counter := 0, dup_seqnr := seqnr, dup_array := 1\<rparr>)
              else (True, e)
         else
           let e = e\<lparr>too_low_counter := 0\<rparr>
           in if diff \<le> 0 then
                let bitmask = push_bit (nat (- diff)) 1
                in if dup_array e AND bitmask \<noteq> 0 then (True, e)
                   else (False, e\<lparr>dup_array := dup_array e OR bitmask\<rparr>)
              else
                let a = (if diff < 32 then push_bit (nat diff) (dup_array e) else 0)
                in (False, e\<lparr>dup_array := a OR 1, dup_seqnr := seqnr\<rparr>))"

text \<open>The originator and the sequence number of the message are arguments, and the time.\<close>

definition olsr_message_is_duplicate :: "u32 \<Rightarrow> olsr_ip_addr \<Rightarrow> u16 \<Rightarrow> dup_state \<Rightarrow> (bool \<times> dup_state) option" where
  "olsr_message_is_duplicate now ip seqnr st =
     (let valid_until = olsr_getTimestamp now DUPLICATE_VTIME
      in case avl_find (duplicate_set st) ip of
           None \<Rightarrow> do {
             let p = dup_next st;
             (T, _) \<leftarrow> avl_insert (duplicate_set st) ip p False;
             Some (False, upd_dup p ((olsr_create_duplicate_entry ip seqnr)\<lparr>dup_valid_until := valid_until\<rparr>)
                     (st\<lparr>duplicate_set := T, dup_next := p + 1\<rparr>))
           }
         | Some p \<Rightarrow> do {
             e \<leftarrow> dup_entries st p;
             let e1 = (if valid_until > dup_valid_until e then e\<lparr>dup_valid_until := valid_until\<rparr> else e);
             case dup_check seqnr e1 of (dup, e2) \<Rightarrow> Some (dup, upd_dup p e2 st)
           })"

section \<open>The specification\<close>

text \<open>
  What is known of an originator: the highest number, the numbers seen, and how many messages in
  a row were too old.
\<close>

type_synonym dup_view = "u16 \<times> u16 set \<times> nat"

definition spec_check :: "u16 \<Rightarrow> dup_view option \<Rightarrow> bool \<times> dup_view" where
  "spec_check s v = (case v of
       None \<Rightarrow> (False, s, {}, 0)
     | Some (hi, S, low) \<Rightarrow>
         if olsr_seqno_diff s hi < -31 then if low < 16 then (True, hi, S, low + 1) else (False, s, {s}, 0)
         else if olsr_seqno_diff s hi \<le> 0 then (s \<in> S, hi, insert s S, 0)
         else (False, s, insert s {t \<in> S. unat (s - t) < 32}, 0))"

definition seen :: "dup_entry \<Rightarrow> u16 set" where
  "seen e = {s. bit (dup_array e) (unat (dup_seqnr e - s))}"

definition entry_view :: "dup_entry \<Rightarrow> dup_view" where
  "entry_view e = (dup_seqnr e, seen e, unat (too_low_counter e))"

definition dup_key :: "dup_state \<Rightarrow> nat \<Rightarrow> olsr_ip_addr option" where
  "dup_key st p = map_option dup_ip (dup_entries st p)"

definition dup_ok :: "dup_state \<Rightarrow> bool" where
  "dup_ok st \<longleftrightarrow> indexes (duplicate_set st) (dup_key st) \<and> (\<forall>p e. dup_entries st p = Some e \<longrightarrow> p < dup_next st \<and> too_low_counter e \<le> 16)"

definition dup_abs :: "dup_state \<Rightarrow> olsr_ip_addr \<Rightarrow> dup_view option" where
  "dup_abs st ip = map_option entry_view (Option.bind (avl_find (duplicate_set st) ip) (dup_entries st))"

section \<open>Sequence numbers\<close>

lemma unat_sub16: "unat (a - b :: u16) = (if unat b \<le> unat a then unat a - unat b else unat a + 2 ^ 16 - unat b)"
  using u16_less [of a] by (simp add: unat_sub_if' not_le)

text \<open>The signed difference in terms of the distances on the circle.\<close>

lemma seqno_diff_cases:
  "olsr_seqno_diff s t = int (unat (s - t)) \<and> unat (s - t) \<le> 2 ^ 15 \<or>
   olsr_seqno_diff s t = - int (unat (t - s)) \<and> 0 < unat (t - s) \<and> unat (t - s) \<le> 2 ^ 15"
  using u16_less [of s] u16_less [of t]
  by (auto simp: olsr_seqno_diff_def Let_def unat_sub16 uint_nat simp del: of_nat_unat)

lemma diff_le0: "olsr_seqno_diff s t \<le> 0 \<Longrightarrow> olsr_seqno_diff s t = - int (unat (t - s))"
proof -
  assume d: "olsr_seqno_diff s t \<le> 0"
  show ?thesis using seqno_diff_cases [of s t]
  proof
    assume "olsr_seqno_diff s t = int (unat (s - t)) \<and> unat (s - t) \<le> 2 ^ 15"
    with d have "olsr_seqno_diff s t = int (unat (s - t))" "int (unat (s - t)) \<le> 0" by (simp_all del: of_nat_unat)
    hence "unat (s - t) = 0" "olsr_seqno_diff s t = 0" by (simp_all only: of_nat_le_0_iff)
    thus ?thesis by (simp add: unat_eq_0)
  qed simp
qed

lemma diff_pos: "0 < olsr_seqno_diff s t \<Longrightarrow> olsr_seqno_diff s t = int (unat (s - t)) \<and> unat (s - t) \<le> 2 ^ 15"
  using seqno_diff_cases [of s t] by auto

lemma seen_distance: "t \<in> seen e \<Longrightarrow> unat (dup_seqnr e - t) < 32"
proof -
  assume "t \<in> seen e"
  hence "bit (dup_array e) (unat (dup_seqnr e - t))" by (simp add: seen_def)
  thus ?thesis using bit_imp_le_length [of "dup_array e" "unat (dup_seqnr e - t)"] by simp
qed

section \<open>One entry\<close>

lemma bit_and_push: "n < 32 \<Longrightarrow> (a AND push_bit n 1 = (0::u32)) \<longleftrightarrow> \<not> bit a n"
  by (simp add: and_exp_eq_0_iff_not_bit push_bit_eq_mult)

lemma seen_old:
  assumes "unat (dup_seqnr e - s) < 32"
  shows "seen (e\<lparr>dup_array := dup_array e OR push_bit (unat (dup_seqnr e - s)) 1\<rparr>) = insert s (seen e)"
proof -
  let ?n = "unat (dup_seqnr e - s)"
  have "unat (dup_seqnr e - t) = ?n \<longleftrightarrow> t = s" for t using unsigned_word_eqI [of "dup_seqnr e - t" "dup_seqnr e - s"] by auto
  moreover have "bit (push_bit ?n (1::u32)) m \<longleftrightarrow> m = ?n" for m using assms by (auto simp: bit_exp_iff)
  ultimately show ?thesis by (auto simp: seen_def bit_or_iff)
qed

text \<open>A newer number shifts the bits: numbers at most 31 below it stay.\<close>

lemma seen_new:
  assumes d: "0 < unat (s - dup_seqnr e)" "unat (s - dup_seqnr e) \<le> 2 ^ 15"
  shows "seen (e\<lparr>dup_array := (if unat (s - dup_seqnr e) < 32 then push_bit (unat (s - dup_seqnr e)) (dup_array e) else 0) OR 1,
      dup_seqnr := s\<rparr>) = insert s {t \<in> seen e. unat (s - t) < 32}"
proof -
  let ?d = "unat (s - dup_seqnr e)" and ?a = "dup_array e"
  let ?b = "if ?d < 32 then push_bit ?d ?a else 0"
  have k: "unat (dup_seqnr e - t) = (if ?d \<le> unat (s - t) then unat (s - t) - ?d else unat (s - t) + 2 ^ 16 - ?d)" for t
    using unat_sub16 [of "s - t" "s - dup_seqnr e"] by simp
  have hi: "\<not> bit ?a n" if "32 \<le> n" for n using that bit_imp_le_length [of ?a n] by auto
  have "bit ?b (unat (s - t)) \<longleftrightarrow> t \<in> seen e \<and> unat (s - t) < 32" for t
  proof (cases "?d \<le> unat (s - t)")
    case True
    show ?thesis
    proof (cases "?d < 32")
      case True
      with \<open>?d \<le> unat (s - t)\<close> show ?thesis by (auto simp: seen_def k bit_push_bit_iff)
    next
      case False
      with \<open>?d \<le> unat (s - t)\<close> show ?thesis by simp
    qed
  next
    case False
    hence "32 \<le> unat (dup_seqnr e - t)" unfolding k using d by simp
    with False show ?thesis by (simp add: seen_def hi bit_push_bit_iff)
  qed
  moreover have "unat (s - t) = 0 \<longleftrightarrow> t = s" for t by (auto simp: unat_eq_0)
  ultimately show ?thesis by (auto simp: seen_def [of "_\<lparr>dup_array := _, dup_seqnr := _\<rparr>"] bit_or_iff bit_1_iff)
qed

lemma dup_check_refines:
  assumes low: "too_low_counter e \<le> 16" and c: "dup_check s e = (r, e')"
  shows "spec_check s (Some (entry_view e)) = (r, entry_view e')" "too_low_counter e' \<le> 16" "dup_ip e' = dup_ip e"
    "dup_valid_until e' = dup_valid_until e"
proof -
  let ?d = "olsr_seqno_diff s (dup_seqnr e)"
  have one: "seen (e\<lparr>too_low_counter := 0, dup_seqnr := s, dup_array := 1\<rparr>) = {s}"
    by (auto simp: seen_def bit_1_iff unat_eq_0)
  have keep: "seen (e\<lparr>too_low_counter := n\<rparr>) = seen e" for n by (simp add: seen_def)
  have n: "unat (too_low_counter e + 1) = unat (too_low_counter e) + 1" using low by (subst unat_plus_if') (simp add: word_le_nat_alt)
  consider (low) "?d < -31" | (old) "-31 \<le> ?d" "?d \<le> 0" | (new) "0 < ?d" by linarith
  hence "spec_check s (Some (entry_view e)) = (r, entry_view e') \<and> too_low_counter e' \<le> 16 \<and> dup_ip e' = dup_ip e \<and>
    dup_valid_until e' = dup_valid_until e"
  proof cases
    case low
    with c n one keep show ?thesis
      by (auto simp: dup_check_def spec_check_def entry_view_def DUP_MAX_TOO_LOW_def word_less_nat_alt word_le_nat_alt not_less Let_def
          split: if_splits)
  next
    case old
    let ?n = "unat (dup_seqnr e - s)"
    from diff_le0 [OF old(2)] have d: "?d = - int ?n" .
    with old(1) have n: "?n < 32" by (simp del: of_nat_unat)
    have m: "nat (- ?d) = ?n" unfolding d by (simp del: of_nat_unat)
    have "s \<in> seen e \<longleftrightarrow> dup_array e AND push_bit ?n 1 \<noteq> 0" unfolding seen_def bit_and_push [OF n] by simp
    moreover have "seen (e\<lparr>too_low_counter := 0, dup_array := dup_array e OR push_bit ?n 1\<rparr>) = insert s (seen e)"
      using seen_old [OF n] by (simp add: seen_def)
    ultimately show ?thesis using c old keep
      by (auto simp: dup_check_def spec_check_def entry_view_def m insert_absorb Let_def split: if_splits)
  next
    case new
    from diff_pos [OF new] new have d: "?d = int (unat (s - dup_seqnr e))" "unat (s - dup_seqnr e) \<le> 2 ^ 15" "0 < unat (s - dup_seqnr e)"
      by (simp_all del: of_nat_unat)
    have m: "nat ?d = unat (s - dup_seqnr e)" "?d < 32 \<longleftrightarrow> unat (s - dup_seqnr e) < 32" unfolding d by (simp_all del: of_nat_unat)
    have "seen (e\<lparr>too_low_counter := 0, dup_array := (if unat (s - dup_seqnr e) < 32 then push_bit (unat (s - dup_seqnr e)) (dup_array e) else 0) OR 1,
        dup_seqnr := s\<rparr>) = insert s {t \<in> seen e. unat (s - t) < 32}"
      using seen_new [OF d(3,2)] by (simp add: seen_def)
    moreover have "dup_check s e = (False, e\<lparr>too_low_counter := 0, dup_array := (if unat (s - dup_seqnr e) < 32 then
        push_bit (unat (s - dup_seqnr e)) (dup_array e) else 0) OR 1, dup_seqnr := s\<rparr>)"
      using new unfolding dup_check_def Let_def m by simp
    moreover have "spec_check s (Some (entry_view e)) = (False, s, insert s {t \<in> seen e. unat (s - t) < 32}, 0)"
      using new by (simp add: spec_check_def entry_view_def)
    ultimately show ?thesis using c by (auto simp: entry_view_def)
  qed
  thus "spec_check s (Some (entry_view e)) = (r, entry_view e')" "too_low_counter e' \<le> 16" "dup_ip e' = dup_ip e"
    "dup_valid_until e' = dup_valid_until e" by blast+
qed

section \<open>The set\<close>

lemma option_eqI: "(\<And>q. x = Some q \<longleftrightarrow> y = Some q) \<Longrightarrow> x = y"
  by (cases x; cases y) auto

lemma dup_okD:
  assumes "dup_ok st" "dup_entries st p = Some e"
  shows "avl_find (duplicate_set st) (dup_ip e) = Some p" "p < dup_next st" "too_low_counter e \<le> 16"
  using assms by (auto simp: dup_ok_def indexes_find dup_key_def)

lemma dup_abs_entry: "dup_ok st \<Longrightarrow> dup_entries st p = Some e \<Longrightarrow> dup_abs st (dup_ip e) = Some (entry_view e)"
  using dup_okD(1) by (simp add: dup_abs_def)

lemma dup_found:
  assumes "dup_ok st" "avl_find (duplicate_set st) ip = Some p"
  obtains e where "dup_entries st p = Some e" "dup_ip e = ip"
  using assms by (auto simp: dup_ok_def indexes_find dup_key_def)

lemma dup_absent: "dup_ok st \<Longrightarrow> avl_find (duplicate_set st) ip = None \<Longrightarrow> dup_abs st ip = None"
  by (simp add: dup_abs_def)

lemma upd_dup_ok:
  assumes ok: "dup_ok st" and e: "dup_entries st p = Some e" "dup_ip e' = dup_ip e" "too_low_counter e' \<le> 16"
  shows "dup_ok (upd_dup p e' st)" "dup_abs (upd_dup p e' st) = (dup_abs st)(dup_ip e \<mapsto> entry_view e')"
proof -
  have "dup_key (upd_dup p e' st) = dup_key st" using e by (auto simp: dup_key_def upd_dup_def fun_eq_iff)
  with ok e show "dup_ok (upd_dup p e' st)" by (auto simp: dup_ok_def upd_dup_def)
  show "dup_abs (upd_dup p e' st) = (dup_abs st)(dup_ip e \<mapsto> entry_view e')"
  proof
    fix ip
    have f: "avl_find (duplicate_set st) (dup_ip e) = Some p" by (rule dup_okD [OF ok e(1)])
    show "dup_abs (upd_dup p e' st) ip = ((dup_abs st)(dup_ip e \<mapsto> entry_view e')) ip"
    proof (cases "avl_find (duplicate_set st) ip")
      case None
      with f show ?thesis by (auto simp: dup_abs_def upd_dup_def)
    next
      case (Some q)
      with dup_found [OF ok Some] obtain eq where "dup_entries st q = Some eq" "dup_ip eq = ip" by blast
      with Some f e show ?thesis by (auto simp: dup_abs_def upd_dup_def)
    qed
  qed
qed

lemma new_dup_ok:
  assumes ok: "dup_ok st" and n: "avl_find (duplicate_set st) (dup_ip e) = None" and low: "too_low_counter e \<le> 16"
  shows "\<exists>T. avl_insert (duplicate_set st) (dup_ip e) (dup_next st) False = Some (T, 0) \<and>
    dup_ok (upd_dup (dup_next st) e (st\<lparr>duplicate_set := T, dup_next := dup_next st + 1\<rparr>)) \<and>
    dup_abs (upd_dup (dup_next st) e (st\<lparr>duplicate_set := T, dup_next := dup_next st + 1\<rparr>)) = (dup_abs st)(dup_ip e \<mapsto> entry_view e)"
proof -
  have ix: "indexes (duplicate_set st) (dup_key st)" using ok by (simp add: dup_ok_def)
  have f: "dup_entries st (dup_next st) = None" using dup_okD(2) [OF ok] by (cases "dup_entries st (dup_next st)") auto
  hence "dup_key st (dup_next st) = None" by (simp add: dup_key_def)
  moreover have "\<forall>m. dup_key st m \<noteq> Some (dup_ip e)" using n by (simp add: indexes_find_None [OF ix])
  ultimately obtain T where T: "avl_insert (duplicate_set st) (dup_ip e) (dup_next st) False = Some (T, 0)"
    "indexes T ((dup_key st)(dup_next st \<mapsto> dup_ip e))" using indexes_insert [OF ix] by blast
  let ?st = "upd_dup (dup_next st) e (st\<lparr>duplicate_set := T, dup_next := dup_next st + 1\<rparr>)"
  have k: "dup_key ?st = (dup_key st)(dup_next st \<mapsto> dup_ip e)" by (auto simp: dup_key_def upd_dup_def fun_eq_iff)
  have "dup_ok ?st" unfolding dup_ok_def k using T(2) ok low by (auto simp: upd_dup_def dup_ok_def less_Suc_eq split: if_splits)
  moreover have "dup_abs ?st ip = ((dup_abs st)(dup_ip e \<mapsto> entry_view e)) ip" for ip
  proof -
    have T': "avl_find T ip = Some q \<longleftrightarrow> ((dup_key st)(dup_next st \<mapsto> dup_ip e)) q = Some ip" for q by (rule indexes_find [OF T(2)])
    have k0: "dup_key st (dup_next st) = None" using f by (simp add: dup_key_def)
    have "avl_find T ip = (if ip = dup_ip e then Some (dup_next st) else avl_find (duplicate_set st) ip)"
    proof (cases "ip = dup_ip e")
      case True
      with T' [of "dup_next st"] show ?thesis by simp
    next
      case False
      have "avl_find T ip = Some q \<longleftrightarrow> avl_find (duplicate_set st) ip = Some q" for q
        using T' [of q] indexes_find [OF ix, of ip q] False k0 by (cases "q = dup_next st") simp_all
      hence "avl_find T ip = avl_find (duplicate_set st) ip" by (rule option_eqI)
      with False show ?thesis by simp
    qed
    moreover have "avl_find (duplicate_set st) ip \<noteq> Some (dup_next st)" using indexes_find [OF ix, of ip "dup_next st"] k0 by simp
    ultimately show ?thesis by (cases "ip = dup_ip e"; cases "avl_find (duplicate_set st) ip") (auto simp: dup_abs_def upd_dup_def)
  qed
  ultimately show ?thesis using T(1) by auto
qed

lemma is_duplicate_ok:
  assumes "dup_ok st"
  shows "\<exists>r st' v. olsr_message_is_duplicate now ip s st = Some (r, st') \<and> dup_ok st' \<and>
    spec_check s (dup_abs st ip) = (r, v) \<and> dup_abs st' = (dup_abs st)(ip \<mapsto> v)"
proof (cases "avl_find (duplicate_set st) ip")
  case None
  let ?e = "(olsr_create_duplicate_entry ip s)\<lparr>dup_valid_until := olsr_getTimestamp now DUPLICATE_VTIME\<rparr>"
  have e: "dup_ip ?e = ip" "too_low_counter ?e \<le> 16" "entry_view ?e = (s, {}, 0)"
    by (simp_all add: olsr_create_duplicate_entry_def entry_view_def seen_def)
  from new_dup_ok [OF assms _ e(2)] None e(1) obtain T where
    "avl_insert (duplicate_set st) ip (dup_next st) False = Some (T, 0)"
    "dup_ok (upd_dup (dup_next st) ?e (st\<lparr>duplicate_set := T, dup_next := dup_next st + 1\<rparr>))"
    "dup_abs (upd_dup (dup_next st) ?e (st\<lparr>duplicate_set := T, dup_next := dup_next st + 1\<rparr>)) = (dup_abs st)(ip \<mapsto> entry_view ?e)"
    by auto
  with None dup_absent [OF assms None] e(3) show ?thesis by (auto simp: olsr_message_is_duplicate_def spec_check_def Let_def)
next
  case (Some p)
  then obtain e where e: "dup_entries st p = Some e" "dup_ip e = ip" by (rule dup_found [OF assms])
  define e1 where "e1 = (if olsr_getTimestamp now DUPLICATE_VTIME > dup_valid_until e then
    e\<lparr>dup_valid_until := olsr_getTimestamp now DUPLICATE_VTIME\<rparr> else e)"
  have e1: "too_low_counter e1 \<le> 16" "dup_ip e1 = ip" "entry_view e1 = entry_view e"
    using dup_okD(3) [OF assms e(1)] e(2) by (simp_all add: e1_def entry_view_def seen_def)
  obtain r e2 where c: "dup_check s e1 = (r, e2)" by (cases "dup_check s e1")
  note d = dup_check_refines [OF e1(1) c]
  have "dup_ip e2 = dup_ip e" using d(3) e1(2) e(2) by simp
  from upd_dup_ok [OF assms e(1) this d(2)] have u: "dup_ok (upd_dup p e2 st)" "dup_abs (upd_dup p e2 st) = (dup_abs st)(ip \<mapsto> entry_view e2)"
    by (simp_all add: e(2))
  have "olsr_message_is_duplicate now ip s st = Some (r, upd_dup p e2 st)"
    using Some e(1) c by (simp add: olsr_message_is_duplicate_def e1_def)
  moreover have "dup_abs st ip = Some (entry_view e)" using dup_abs_entry [OF assms e(1)] e(2) by simp
  ultimately show ?thesis using u d(1) e1(3) by simp
qed


text \<open>A sequence of messages, each with its time of arrival, originator and number.\<close>

fun dup_run :: "(u32 \<times> olsr_ip_addr \<times> u16) list \<Rightarrow> dup_state \<Rightarrow> (bool list \<times> dup_state) option" where
  "dup_run [] st = Some ([], st)"
| "dup_run ((now, ip, s) # ms) st = do {
     (r, st') \<leftarrow> olsr_message_is_duplicate now ip s st;
     (rs, st'') \<leftarrow> dup_run ms st';
     Some (r # rs, st'')
   }"

fun spec_run :: "(u32 \<times> olsr_ip_addr \<times> u16) list \<Rightarrow> (olsr_ip_addr \<Rightarrow> dup_view option) \<Rightarrow> bool list \<times> (olsr_ip_addr \<Rightarrow> dup_view option)" where
  "spec_run [] V = ([], V)"
| "spec_run ((now, ip, s) # ms) V =
     (let (r, v) = spec_check s (V ip); (rs, V') = spec_run ms (V(ip \<mapsto> v)) in (r # rs, V'))"

text \<open>
  C5. The tree of entries with their bit fields implements the specification, which keeps for
  every originator the highest number and the set of the numbers seen among the 32 up to it: for
  every sequence of messages from any originators the verdicts agree, and so does what is known
  afterwards.
\<close>

theorem duplicate_refines:
  assumes "dup_ok st"
  shows "\<exists>st'. dup_run ms st = Some (fst (spec_run ms (dup_abs st)), st') \<and> dup_ok st' \<and>
    dup_abs st' = snd (spec_run ms (dup_abs st))"
  using assms
proof (induction ms st rule: dup_run.induct)
  case (2 now ip s ms st)
  from is_duplicate_ok [OF 2(2), of now ip s] obtain r st1 v where
    d: "olsr_message_is_duplicate now ip s st = Some (r, st1)" "dup_ok st1" "spec_check s (dup_abs st ip) = (r, v)"
    "dup_abs st1 = (dup_abs st)(ip \<mapsto> v)" by blast
  obtain st' where "dup_run ms st1 = Some (fst (spec_run ms ((dup_abs st)(ip \<mapsto> v))), st')" "dup_ok st'"
    "dup_abs st' = snd (spec_run ms ((dup_abs st)(ip \<mapsto> v)))" using 2(1) [OF d(1) refl d(2)] unfolding d(4) by blast
  with d(1,3) show ?case by (simp add: split_beta)
qed simp

definition empty_dups :: dup_state where
  "empty_dups = olsr_init_duplicate_set \<lparr>duplicate_set = avl_init, dup_entries = Map.empty, dup_next = 0\<rparr>"

lemma empty_dups_ok: "dup_ok empty_dups" "dup_abs empty_dups ip = None"
proof -
  have "dup_key empty_dups = (\<lambda>n. None)" by (simp add: dup_key_def empty_dups_def olsr_init_duplicate_set_def fun_eq_iff)
  thus "dup_ok empty_dups" by (simp add: dup_ok_def empty_dups_def olsr_init_duplicate_set_def indexes_init)
  show "dup_abs empty_dups ip = None" by (simp add: dup_abs_def empty_dups_def olsr_init_duplicate_set_def)
qed

theorem duplicate_refines_witness:
  "\<exists>st'. dup_run [(0, V4 1, 7), (5, V4 1, 8), (9, V4 1, 8), (9, V4 2, 8)] empty_dups = Some ([False, False, True, False], st') \<and>
    dup_abs st' (V4 1) = Some (8, {8}, 0)"
proof -
  have v: "dup_abs empty_dups = Map.empty" by (simp add: empty_dups_ok fun_eq_iff)
  have d: "olsr_seqno_diff 8 7 = 1" "olsr_seqno_diff 8 8 = 0" by (simp_all add: olsr_seqno_diff_def)
  show ?thesis
    using duplicate_refines [OF empty_dups_ok(1), of "[(0, V4 1, 7), (5, V4 1, 8), (9, V4 1, 8), (9, V4 2, 8)]"]
    by (auto simp: v spec_check_def d)
qed

text \<open>
  Once a message has been processed, its copies that follow are blocked, if something was
  known of the originator before.
\<close>

theorem duplicate_blocked:
  assumes "dup_ok st" "dup_abs st ip \<noteq> None" "olsr_message_is_duplicate now ip s st = Some (False, st1)"
  shows "\<exists>st2. olsr_message_is_duplicate now' ip s st1 = Some (True, st2)"
proof -
  from is_duplicate_ok [OF assms(1), of now ip s] assms(3) obtain v where
    d: "dup_ok st1" "spec_check s (dup_abs st ip) = (False, v)" "dup_abs st1 = (dup_abs st)(ip \<mapsto> v)" by auto
  have z: "olsr_seqno_diff s s = 0" by (simp add: olsr_seqno_diff_def)
  from assms(2) obtain hi S low where "dup_abs st ip = Some (hi, S, low)" by (cases "dup_abs st ip") auto
  with d(2) z have "fst (spec_check s (Some v))"
    by (auto simp: spec_check_def split: if_splits)
  with is_duplicate_ok [OF d(1), of now' ip s] show ?thesis by (auto simp: d(3))
qed

text \<open>
  C25. The first message of an unknown originator is processed twice: the new entry does not
  record it.
\<close>

theorem first_message_twice:
  assumes "dup_ok st" "dup_abs st ip = None"
  shows "\<exists>st1 st2. olsr_message_is_duplicate now ip s st = Some (False, st1) \<and>
    olsr_message_is_duplicate now' ip s st1 = Some (False, st2)"
proof -
  from is_duplicate_ok [OF assms(1), of now ip s] assms(2) obtain st1 where
    d: "olsr_message_is_duplicate now ip s st = Some (False, st1)" "dup_ok st1" "dup_abs st1 ip = Some (s, {}, 0)"
    by (auto simp: spec_check_def)
  have "fst (spec_check s (dup_abs st1 ip)) = False" by (simp add: d(3) spec_check_def olsr_seqno_diff_def)
  with is_duplicate_ok [OF d(2), of now' ip s] d(1) show ?thesis by auto
qed

theorem first_message_twice_witness:
  "\<exists>st1 st2. olsr_message_is_duplicate 0 (V4 1) 7 empty_dups = Some (False, st1) \<and> olsr_message_is_duplicate 1 (V4 1) 7 st1 = Some (False, st2)"
  using first_message_twice [OF empty_dups_ok(1,2)] by blast

theorem duplicate_blocked_witness:
  "\<exists>st1 st2 st3. olsr_message_is_duplicate 0 (V4 1) 7 empty_dups = Some (False, st1) \<and>
    olsr_message_is_duplicate 1 (V4 1) 8 st1 = Some (False, st2) \<and> olsr_message_is_duplicate 2 (V4 1) 8 st2 = Some (True, st3)"
proof -
  from is_duplicate_ok [OF empty_dups_ok(1), of 0 "V4 1" 7] obtain st1 where
    a: "olsr_message_is_duplicate 0 (V4 1) 7 empty_dups = Some (False, st1)" "dup_ok st1" "dup_abs st1 (V4 1) = Some (7, {}, 0)"
    by (auto simp: spec_check_def empty_dups_ok)
  from is_duplicate_ok [OF a(2), of 1 "V4 1" 8] a(3) obtain st2 where
    b: "olsr_message_is_duplicate 1 (V4 1) 8 st1 = Some (False, st2)" by (auto simp: spec_check_def olsr_seqno_diff_def)
  from duplicate_blocked [OF a(2) _ b, of 2] a b show ?thesis by auto
qed

section \<open>Clean-up\<close>

lemma drop_if_timed_out_ok:
  assumes ok: "dup_ok st" and e: "dup_entries st p = Some e"
  shows "\<exists>st'. drop_if_timed_out now p st = Some st' \<and> dup_ok st' \<and> dup_next st' = dup_next st \<and>
    dup_entries st' = (if olsr_isTimedOut now (dup_valid_until e) then (dup_entries st)(p := None) else dup_entries st)"
proof (cases "olsr_isTimedOut now (dup_valid_until e)")
  case True
  have ix: "indexes (duplicate_set st) (dup_key st)" using ok by (simp add: dup_ok_def)
  have "dup_key st p = Some (dup_ip e)" using e by (simp add: dup_key_def)
  from indexes_delete [OF ix this] obtain T where T: "avl_delete (duplicate_set st) p = Some T" "indexes T ((dup_key st)(p := None))" by blast
  let ?st = "st\<lparr>duplicate_set := T, dup_entries := (dup_entries st)(p := None)\<rparr>"
  have k: "dup_key ?st = (dup_key st)(p := None)" by (auto simp: dup_key_def fun_eq_iff)
  have "dup_ok ?st" unfolding dup_ok_def k using T(2) ok by (auto simp: dup_ok_def split: if_splits)
  with True T(1) e show ?thesis by (simp add: drop_if_timed_out_def)
next
  case False
  with ok e show ?thesis by (simp add: drop_if_timed_out_def)
qed

definition still_valid :: "u32 \<Rightarrow> dup_entry option \<Rightarrow> dup_entry option" where
  "still_valid now x = (case x of None \<Rightarrow> None | Some e \<Rightarrow> if olsr_isTimedOut now (dup_valid_until e) then None else Some e)"

lemma cleanup_loop:
  assumes "dup_ok st" "distinct ps" "\<forall>p\<in>set ps. dup_entries st p \<noteq> None"
  shows "\<exists>st'. foldM (drop_if_timed_out now) ps st = Some st' \<and> dup_ok st' \<and>
    (\<forall>p. dup_entries st' p = (if p \<in> set ps then still_valid now (dup_entries st p) else dup_entries st p))"
  using assms
proof (induction ps arbitrary: st)
  case (Cons p ps)
  from Cons.prems(3) obtain e where e: "dup_entries st p = Some e" by auto
  from drop_if_timed_out_ok [OF Cons.prems(1) e, of now] obtain st1 where
    d: "drop_if_timed_out now p st = Some st1" "dup_ok st1"
    "dup_entries st1 = (if olsr_isTimedOut now (dup_valid_until e) then (dup_entries st)(p := None) else dup_entries st)" by blast
  have "\<forall>q\<in>set ps. dup_entries st1 q \<noteq> None" using Cons.prems(2,3) d(3) by auto
  from Cons.IH [OF d(2) _ this] Cons.prems(2) obtain st' where
    f: "foldM (drop_if_timed_out now) ps st1 = Some st'" "dup_ok st'"
    "\<And>q. dup_entries st' q = (if q \<in> set ps then still_valid now (dup_entries st1 q) else dup_entries st1 q)" by auto
  have "dup_entries st' q = (if q \<in> set (p # ps) then still_valid now (dup_entries st q) else dup_entries st q)" for q
    using f(3) [of q] d(3) e Cons.prems(2) by (cases "q = p") (auto simp: still_valid_def)
  with f(1,2) d(1) show ?case by auto
qed simp

text \<open>
  The periodic clean-up deletes exactly the entries whose time has passed, without touching
  freed memory while it walks over the tree it deletes from.
\<close>

theorem cleanup_exact:
  assumes "dup_ok st"
  shows "\<exists>st'. olsr_cleanup_duplicate_entry now st = Some st' \<and> dup_ok st' \<and>
    (\<forall>p. dup_entries st' p = (case dup_entries st p of
       None \<Rightarrow> None | Some e \<Rightarrow> if olsr_isTimedOut now (dup_valid_until e) then None else Some e))"
proof -
  have ix: "indexes (duplicate_set st) (dup_key st)" using assms by (simp add: dup_ok_def)
  let ?ps = "map snd (avl_walk (duplicate_set st))"
  have mem: "p \<in> set ?ps \<longleftrightarrow> dup_entries st p \<noteq> None" for p
    unfolding indexes_nodes [OF ix] by (simp add: dup_key_def)
  from cleanup_loop [OF assms indexes_distinct [OF ix], of now] obtain st' where
    c: "foldM (drop_if_timed_out now) ?ps st = Some st'" "dup_ok st'"
    "\<And>p. dup_entries st' p = (if p \<in> set ?ps then still_valid now (dup_entries st p) else dup_entries st p)" using mem by blast
  have "dup_entries st' p = still_valid now (dup_entries st p)" for p
    using c(3) [of p] mem [of p] by (cases "dup_entries st p") (simp_all add: still_valid_def)
  with c(1,2) show ?thesis by (simp add: olsr_cleanup_duplicate_entry_def still_valid_def)
qed

theorem cleanup_exact_witness: "\<exists>st'. olsr_cleanup_duplicate_entry 500 empty_dups = Some st' \<and> dup_ok st'"
  using cleanup_exact [OF empty_dups_ok(1), of 500] by blast

lemma cleanup_duplicates_ok:
  assumes "dup_ok st"
  shows "\<exists>st'. olsr_cleanup_duplicates orig st = Some st' \<and> dup_ok st'"
proof (cases "avl_find (duplicate_set st) orig")
  case (Some p)
  then obtain e where e: "dup_entries st p = Some e" by (rule dup_found [OF assms])
  from upd_dup_ok(1) [OF assms e, of "e\<lparr>too_low_counter := DUP_MAX_TOO_LOW - 2\<rparr>"] Some e show ?thesis
    by (simp add: olsr_cleanup_duplicates_def DUP_MAX_TOO_LOW_def)
qed (simp add: olsr_cleanup_duplicates_def assms)

end
