(* ===== verification/Olsr_Buckets.thy ===== *)
theory Olsr_Buckets
  imports Olsr_Hashing Olsr_Lsdb "HOL-Library.Monad_Syntax"
begin

text \<open>
  Tables of circular lists, as the daemon uses them everywhere: the hash tables of neighbours,
  aliases and routes, and the slots of the timer wheel. A list is the sequence of its elements from
  the head's \<open>next\<close> on; the macros \<open>QUEUE_ELEM\<close> and \<open>DEQUEUE_ELEM\<close> (\<^verbatim>\<open>src/defs.h\<close>) put an element in
  front and take it out of the list that holds it.
\<close>

section \<open>Hash buckets\<close>

definition ip_hash :: "olsr_ip_addr \<Rightarrow> nat" where
  "ip_hash a = unat (olsr_ip_hashing a)"

lemma ip_hash_less [simp]: "ip_hash a < HASHSIZE"
  by (simp add: ip_hash_def unat_hash_less)

definition queue_elem :: "nat \<Rightarrow> ptr \<Rightarrow> (nat \<Rightarrow> ptr list) \<Rightarrow> nat \<Rightarrow> ptr list" where
  "queue_elem h p T = T(h := p # T h)"

text \<open>An element is taken out of the list that holds it.\<close>

definition dequeue_elem :: "ptr \<Rightarrow> (nat \<Rightarrow> ptr list) \<Rightarrow> nat \<Rightarrow> ptr list" where
  "dequeue_elem p T = (\<lambda>h. filter (\<lambda>q. q \<noteq> p) (T h))"

text \<open>\<open>key p\<close> is the bucket where the object \<open>p\<close> belongs, if there is such an object.\<close>

definition bucket_ok :: "(nat \<Rightarrow> ptr list) \<Rightarrow> (ptr \<Rightarrow> nat option) \<Rightarrow> bool" where
  "bucket_ok T key \<longleftrightarrow> (\<forall>h p. p \<in> set (T h) \<longleftrightarrow> key p = Some h) \<and> (\<forall>h. distinct (T h))"

lemma bucket_okD: "bucket_ok T key \<Longrightarrow> p \<in> set (T h) \<longleftrightarrow> key p = Some h" "bucket_ok T key \<Longrightarrow> distinct (T h)"
  by (auto simp: bucket_ok_def)

lemma bucket_queue: "bucket_ok T key \<Longrightarrow> key p = None \<Longrightarrow> bucket_ok (queue_elem h p T) (key(p \<mapsto> h))"
  unfolding bucket_ok_def queue_elem_def by auto

lemma bucket_dequeue: "bucket_ok T key \<Longrightarrow> bucket_ok (dequeue_elem p T) (key(p := None))"
  by (auto simp: bucket_ok_def dequeue_elem_def)

lemma bucket_cong: "bucket_ok T key \<Longrightarrow> (\<And>p. key p = key' p) \<Longrightarrow> bucket_ok T key'"
  by (simp add: bucket_ok_def)

section \<open>Searching\<close>

text \<open>The first element of a list that satisfies a test which may dereference pointers.\<close>

fun findM :: "('a \<Rightarrow> bool option) \<Rightarrow> 'a list \<Rightarrow> 'a option option" where
  "findM t [] = Some None"
| "findM t (x # xs) = Option.bind (t x) (\<lambda>b. if b then Some (Some x) else findM t xs)"

lemma findM_total:
  "\<forall>x\<in>set xs. t x \<noteq> None \<Longrightarrow> findM t xs = Some (List.find (\<lambda>x. t x = Some True) xs)"
  by (induction xs) auto

lemma findM_Some: "findM t xs = Some (Some x) \<Longrightarrow> x \<in> set xs \<and> t x = Some True"
  by (induction xs) (auto split: bind_splits if_splits)

lemma findM_None: "findM t xs = Some None \<longleftrightarrow> (\<forall>x\<in>set xs. t x = Some False)"
  by (induction xs) (auto split: bind_splits if_splits)

end
