(* ===== verification/Olsr_Neighbor.thy ===== *)
theory Olsr_Neighbor
  imports Olsr_Buckets Olsr_Time
begin

text \<open>
  The neighbourhood of the daemon: the neighbour table (\<^verbatim>\<open>src/neighbor_table.c\<close>), the table of
  two hop neighbours (\<^verbatim>\<open>src/two_hop_neighbor_table.c\<close>), the links between the two that HELLO
  messages create (\<open>linking_this_2_entries\<close> and \<open>process_message_neighbors\<close> of
  \<^verbatim>\<open>src/process_package.c\<close>), and the look-ups in the set of interface aliases
  (\<^verbatim>\<open>src/mid_set.c\<close>) they rely on.

  The tables are arrays of \<open>HASHSIZE\<close> buckets; a bucket is the list of its elements from the
  head's \<open>next\<close> on. Objects live in stores from pointers to records, and \<^term>\<open>None\<close> as the result
  of an operation means that it dereferences a pointer that is not valid. An element of
  \<open>neighbor_2_list\<close> is an object of its own, since its timer refers to it; an element of
  \<open>neighbor_2_nblist\<close> is only reached through its list and is a value.
\<close>

section \<open>Data\<close>

definition NOT_SYM :: u8 where "NOT_SYM = 0"
definition SYM :: u8 where "SYM = 1"
definition SYM_NEIGH :: u8 where "SYM_NEIGH = 1"
definition MPR_NEIGH :: u8 where "MPR_NEIGH = 2"
definition UNSPEC_LINK :: u8 where "UNSPEC_LINK = 0"
definition SYM_LINK :: u8 where "SYM_LINK = 2"
definition WILL_NEVER :: u8 where "WILL_NEVER = 0"
definition WILL_ALWAYS :: u8 where "WILL_ALWAYS = 7"

record neighbor_entry =
  neighbor_main_addr :: olsr_ip_addr
  status :: u8
  willingness :: u8
  is_mpr :: bool
  was_mpr :: bool
  skip :: bool
  neighbor_2_nocov :: int
  linkcount :: int
  neighbor_2_list :: "ptr list"

record neighbor_2_list_entry =
  nbr2_nbr :: ptr
  neighbor_2 :: ptr
  nbr2_list_timer :: "olsr_reltime option"

record neighbor_list_entry =
  neighbor :: ptr
  second_hop_linkcost :: olsr_linkcost
  path_linkcost :: olsr_linkcost
  saved_path_linkcost :: olsr_linkcost

record neighbor_2_entry =
  neighbor_2_addr :: olsr_ip_addr
  mpr_covered_count :: u8
  processed :: u8
  neighbor_2_pointer :: "16 word"  \<comment> \<open>signed\<close>
  neighbor_2_nblist :: "neighbor_list_entry list"

record mid_address =
  alias_addr :: olsr_ip_addr
  main_entry :: ptr
  alias_vtime :: u32

record mid_entry =
  mid_main_addr :: olsr_ip_addr
  aliases :: "ptr list"
  mid_timer :: "olsr_reltime option"

text \<open>
  The link set (\<^verbatim>\<open>src/link_set.h\<close>). A timer is the clock at which it fires; the float of the
  hysteresis and the data of the link quality plugin are kept by components of their own.
\<close>

record link_entry =
  local_iface_addr :: olsr_ip_addr
  neighbor_iface_addr :: olsr_ip_addr
  if_name :: "string option"
  link_timer :: "u32 option"
  link_sym_timer :: "u32 option"
  ASYM_time :: u32
  link_vtime :: olsr_reltime
  link_neighbor :: ptr
  prev_status :: u8
  L_link_pending :: int
  L_LOST_LINK_time :: u32
  loss_helloint :: olsr_reltime
  linkcost :: olsr_linkcost

text \<open>Interfaces, and the options of \<open>olsr_cnf\<close> that concern the neighbourhood.\<close>

record interface =
  ip_addr :: olsr_ip_addr
  int_name :: "string option"
  int_metric :: int

record nb_config = olsrd_config +
  use_hysteresis :: bool
  tc_redundancy :: u8
  mpr_coverage :: u8
  ifnet :: "interface list"

text \<open>The state: the tables, the stores, the next free pointer and the flags raised on changes.\<close>

record neighborhood =
  neighbortable :: "nat \<Rightarrow> ptr list"
  neighbors :: "ptr \<Rightarrow> neighbor_entry option"
  nbr2_lists :: "ptr \<Rightarrow> neighbor_2_list_entry option"
  two_hop_neighbortable :: "nat \<Rightarrow> ptr list"
  two_hops :: "ptr \<Rightarrow> neighbor_2_entry option"
  mid_set :: "nat \<Rightarrow> ptr list"
  mid_entries :: "ptr \<Rightarrow> mid_entry option"
  reverse_mid_set :: "nat \<Rightarrow> ptr list"
  mid_addresses :: "ptr \<Rightarrow> mid_address option"
  link_entry_head :: "ptr list"
  links :: "ptr \<Rightarrow> link_entry option"
  nb_next :: ptr
  changes_neighborhood :: bool
  nb_changes_topology :: bool
  link_changes :: bool

definition upd_nbr :: "ptr \<Rightarrow> (neighbor_entry \<Rightarrow> neighbor_entry) \<Rightarrow> neighborhood \<Rightarrow> neighborhood" where
  "upd_nbr p f db = db\<lparr>neighbors := (neighbors db)(p := map_option f (neighbors db p))\<rparr>"

definition upd_nbr2 :: "ptr \<Rightarrow> (neighbor_2_entry \<Rightarrow> neighbor_2_entry) \<Rightarrow> neighborhood \<Rightarrow> neighborhood" where
  "upd_nbr2 p f db = db\<lparr>two_hops := (two_hops db)(p := map_option f (two_hops db p))\<rparr>"

definition set_timer :: "olsr_reltime \<Rightarrow> olsr_reltime option" where
  "set_timer t = (if t = 0 then None else Some t)"

section \<open>Interface aliases\<close>

definition alias_is :: "neighborhood \<Rightarrow> olsr_ip_addr \<Rightarrow> ptr \<Rightarrow> bool option" where
  "alias_is db adr p = map_option (\<lambda>a. ipequal (alias_addr a) adr) (mid_addresses db p)"

definition mid_lookup_main_addr :: "olsr_ip_addr \<Rightarrow> neighborhood \<Rightarrow> olsr_ip_addr option option" where
  "mid_lookup_main_addr adr db = do {
     found \<leftarrow> findM (alias_is db adr) (reverse_mid_set db (ip_hash adr));
     case found of
       None \<Rightarrow> Some None
     | Some p \<Rightarrow> do {
         a \<leftarrow> mid_addresses db p;
         m \<leftarrow> mid_entries db (main_entry a);
         Some (Some (mid_main_addr m))
       }
   }"

definition mid_lookup_entry_bymain :: "olsr_ip_addr \<Rightarrow> neighborhood \<Rightarrow> ptr option option" where
  "mid_lookup_entry_bymain adr db =
     findM (\<lambda>p. map_option (\<lambda>m. ipequal (mid_main_addr m) adr) (mid_entries db p)) (mid_set db (ip_hash adr))"

definition mid_lookup_aliases :: "olsr_ip_addr \<Rightarrow> neighborhood \<Rightarrow> ptr list option" where
  "mid_lookup_aliases adr db = do {
     found \<leftarrow> mid_lookup_entry_bymain adr db;
     case found of
       None \<Rightarrow> Some []
     | Some p \<Rightarrow> map_option aliases (mid_entries db p)
   }"

section \<open>Look-ups\<close>

definition olsr_init_neighbor_table :: "neighborhood \<Rightarrow> neighborhood" where
  "olsr_init_neighbor_table db = db\<lparr>neighbortable := (\<lambda>_. [])\<rparr>"

definition olsr_init_two_hop_table :: "neighborhood \<Rightarrow> neighborhood" where
  "olsr_init_two_hop_table db = db\<lparr>two_hop_neighbortable := (\<lambda>_. [])\<rparr>"

definition olsr_lookup_my_neighbors :: "ptr \<Rightarrow> olsr_ip_addr \<Rightarrow> neighborhood \<Rightarrow> ptr option option" where
  "olsr_lookup_my_neighbors p neighbor_main_address db = do {
     e \<leftarrow> neighbors db p;
     findM (\<lambda>q. do {
         nl \<leftarrow> nbr2_lists db q;
         e2 \<leftarrow> two_hops db (neighbor_2 nl);
         Some (ipequal (neighbor_2_addr e2) neighbor_main_address)
       }) (neighbor_2_list e)
   }"

definition olsr_lookup_neighbor_table_alias :: "olsr_ip_addr \<Rightarrow> neighborhood \<Rightarrow> ptr option option" where
  "olsr_lookup_neighbor_table_alias dst db =
     findM (\<lambda>p. map_option (\<lambda>e. ipequal (neighbor_main_addr e) dst) (neighbors db p)) (neighbortable db (ip_hash dst))"

definition olsr_lookup_neighbor_table :: "olsr_ip_addr \<Rightarrow> neighborhood \<Rightarrow> ptr option option" where
  "olsr_lookup_neighbor_table dst db = do {
     tmp_ip \<leftarrow> mid_lookup_main_addr dst db;
     olsr_lookup_neighbor_table_alias (case tmp_ip of None \<Rightarrow> dst | Some a \<Rightarrow> a) db
   }"

definition olsr_lookup_two_hop_neighbor_table :: "olsr_ip_addr \<Rightarrow> neighborhood \<Rightarrow> ptr option option" where
  "olsr_lookup_two_hop_neighbor_table dest db =
     findM (\<lambda>p. do {
         e2 \<leftarrow> two_hops db p;
         if ipequal (neighbor_2_addr e2) dest then Some True
         else do {
           as \<leftarrow> mid_lookup_aliases (neighbor_2_addr e2) db;
           found \<leftarrow> findM (alias_is db dest) as;
           Some (found \<noteq> None)
         }
       }) (two_hop_neighbortable db (ip_hash dest))"

definition olsr_lookup_two_hop_neighbor_table_mid :: "olsr_ip_addr \<Rightarrow> neighborhood \<Rightarrow> ptr option option" where
  "olsr_lookup_two_hop_neighbor_table_mid dest db =
     findM (\<lambda>p. map_option (\<lambda>e2. ipequal (neighbor_2_addr e2) dest) (two_hops db p)) (two_hop_neighbortable db (ip_hash dest))"

section \<open>Unlinking\<close>

definition free_two_hop :: "ptr \<Rightarrow> neighborhood \<Rightarrow> neighborhood" where
  "free_two_hop p db = db\<lparr>two_hop_neighbortable := dequeue_elem p (two_hop_neighbortable db),
     two_hops := (two_hops db)(p := None)\<rparr>"

definition olsr_del_nbr2_list :: "ptr \<Rightarrow> neighborhood \<Rightarrow> neighborhood option" where
  "olsr_del_nbr2_list q db = do {
     nl \<leftarrow> nbr2_lists db q;
     nbr2 \<leftarrow> two_hops db (neighbor_2 nl);
     let db1 = (if sint (neighbor_2_pointer nbr2) < 1 then free_two_hop (neighbor_2 nl) db else db);
     e \<leftarrow> neighbors db1 (nbr2_nbr nl);
     let db2 = upd_nbr (nbr2_nbr nl) (\<lambda>e. e\<lparr>neighbor_2_list := filter (\<lambda>x. x \<noteq> q) (neighbor_2_list e)\<rparr>) db1;
     Some (db2\<lparr>nbr2_lists := (nbr2_lists db2)(q := None), changes_neighborhood := True, nb_changes_topology := True\<rparr>)
   }"

definition olsr_delete_neighbor_2_pointer :: "ptr \<Rightarrow> ptr \<Rightarrow> neighborhood \<Rightarrow> (int \<times> neighborhood) option" where
  "olsr_delete_neighbor_2_pointer p neigh2 db = do {
     e \<leftarrow> neighbors db p;
     found \<leftarrow> findM (\<lambda>q. map_option (\<lambda>nl. neighbor_2 nl = neigh2) (nbr2_lists db q)) (neighbor_2_list e);
     case found of
       None \<Rightarrow> Some (0, db)
     | Some q \<Rightarrow> map_option (Pair 1) (olsr_del_nbr2_list q db)
   }"

definition olsr_delete_neighbor_pointer :: "ptr \<Rightarrow> ptr \<Rightarrow> neighborhood \<Rightarrow> neighborhood option" where
  "olsr_delete_neighbor_pointer p2 neigh db = do {
     e2 \<leftarrow> two_hops db p2;
     Some (upd_nbr2 p2 (\<lambda>e2. e2\<lparr>neighbor_2_nblist := filter (\<lambda>x. neighbor x \<noteq> neigh) (neighbor_2_nblist e2)\<rparr>) db)
   }"

definition olsr_delete_two_hop_neighbor_table :: "ptr \<Rightarrow> neighborhood \<Rightarrow> neighborhood option" where
  "olsr_delete_two_hop_neighbor_table p2 db = do {
     e2 \<leftarrow> two_hops db p2;
     db1 \<leftarrow> foldM (\<lambda>x db. map_option snd (olsr_delete_neighbor_2_pointer (neighbor x) p2 db)) (neighbor_2_nblist e2) db;
     e2' \<leftarrow> two_hops db1 p2;
     Some (free_two_hop p2 db1)
   }"

text \<open>The steps by which a link is removed when its timer fires or its neighbour goes.\<close>

definition drop_link :: "ptr \<Rightarrow> neighborhood \<Rightarrow> neighborhood option" where
  "drop_link q db = do {
     nl \<leftarrow> nbr2_lists db q;
     nbr2 \<leftarrow> two_hops db (neighbor_2 nl);
     db1 \<leftarrow> olsr_delete_neighbor_pointer (neighbor_2 nl) (nbr2_nbr nl)
             (upd_nbr2 (neighbor_2 nl) (\<lambda>e2. e2\<lparr>neighbor_2_pointer := neighbor_2_pointer e2 - 1\<rparr>) db);
     olsr_del_nbr2_list q db1
   }"

definition olsr_expire_nbr2_list :: "ptr \<Rightarrow> neighborhood \<Rightarrow> neighborhood option" where
  "olsr_expire_nbr2_list q db = do {
     nl \<leftarrow> nbr2_lists db q;
     drop_link q (db\<lparr>nbr2_lists := (nbr2_lists db)(q \<mapsto> nl\<lparr>nbr2_list_timer := None\<rparr>)\<rparr>)
   }"

section \<open>Neighbours\<close>

definition olsr_update_neighbor_main_addr :: "ptr \<Rightarrow> olsr_ip_addr \<Rightarrow> neighborhood \<Rightarrow> neighborhood option" where
  "olsr_update_neighbor_main_addr p new_main_addr db = do {
     e \<leftarrow> neighbors db p;
     let db1 = upd_nbr p (\<lambda>e. e\<lparr>neighbor_main_addr := new_main_addr\<rparr>) db;
     Some (db1\<lparr>neighbortable := queue_elem (ip_hash new_main_addr) p (dequeue_elem p (neighbortable db1))\<rparr>)
   }"

definition free_neighbor :: "ptr \<Rightarrow> neighborhood \<Rightarrow> neighborhood" where
  "free_neighbor p db = db\<lparr>neighbortable := dequeue_elem p (neighbortable db), neighbors := (neighbors db)(p := None)\<rparr>"

text \<open>In \<open>olsr_delete_neighbor_table\<close> the link removed in a pass belongs to the deleted neighbour.\<close>

definition olsr_delete_neighbor_table :: "olsr_ip_addr \<Rightarrow> neighborhood \<Rightarrow> (int \<times> neighborhood) option" where
  "olsr_delete_neighbor_table neighbor_addr db = do {
     found \<leftarrow> olsr_lookup_neighbor_table_alias neighbor_addr db;
     case found of
       None \<Rightarrow> Some (0, db)
     | Some p \<Rightarrow> do {
         e \<leftarrow> neighbors db p;
         db1 \<leftarrow> foldM drop_link (neighbor_2_list e) db;
         e' \<leftarrow> neighbors db1 p;
         Some (1, (free_neighbor p db1)\<lparr>changes_neighborhood := True\<rparr>)
       }
   }"

definition new_neighbor :: "olsr_ip_addr \<Rightarrow> neighbor_entry" where
  "new_neighbor a = \<lparr>neighbor_main_addr = a, status = NOT_SYM, willingness = WILL_NEVER, is_mpr = False,
     was_mpr = False, skip = False, neighbor_2_nocov = 0, linkcount = 0, neighbor_2_list = []\<rparr>"

definition olsr_insert_neighbor_table :: "olsr_ip_addr \<Rightarrow> neighborhood \<Rightarrow> (ptr \<times> neighborhood) option" where
  "olsr_insert_neighbor_table a db = do {
     found \<leftarrow> olsr_lookup_neighbor_table_alias a db;
     case found of
       Some p \<Rightarrow> Some (p, db)
     | None \<Rightarrow>
         let p = nb_next db in
         Some (p, db\<lparr>neighbors := (neighbors db)(p \<mapsto> new_neighbor a),
                neighbortable := queue_elem (ip_hash a) p (neighbortable db), nb_next := p + 1\<rparr>)
   }"

definition update_neighbor_status :: "nb_config \<Rightarrow> ptr \<Rightarrow> u8 \<Rightarrow> neighborhood \<Rightarrow> (u8 \<times> neighborhood) option" where
  "update_neighbor_status cnf p lnk db = do {
     e \<leftarrow> neighbors db p;
     let signal = (\<lambda>db. db\<lparr>changes_neighborhood := True, nb_changes_topology := True,
                     link_changes := (link_changes db \<or> tc_redundancy cnf > 1)\<rparr>);
     if lnk = SYM_LINK then do {
       db2 \<leftarrow> (if status e = NOT_SYM then do {
                 two_hop_neighbor \<leftarrow> olsr_lookup_two_hop_neighbor_table (neighbor_main_addr e) db;
                 db1 \<leftarrow> (case two_hop_neighbor of
                           None \<Rightarrow> Some db
                         | Some p2 \<Rightarrow> olsr_delete_two_hop_neighbor_table p2 db);
                 Some (signal db1)
               } else Some db);
       Some (SYM, upd_nbr p (\<lambda>e. e\<lparr>status := SYM\<rparr>) db2)
     } else
       Some (NOT_SYM, upd_nbr p (\<lambda>e. e\<lparr>status := NOT_SYM\<rparr>) (if status e = SYM then signal db else db))
   }"

section \<open>Linking\<close>

text \<open>
  \<open>olsr_change_timer\<close> on the fresh list entry does nothing, its timer being \<open>NULL\<close>.
\<close>

definition linking_this_2_entries :: "ptr \<Rightarrow> ptr \<Rightarrow> olsr_reltime \<Rightarrow> neighborhood \<Rightarrow> neighborhood option" where
  "linking_this_2_entries p p2 vtime db = do {
     e \<leftarrow> neighbors db p;
     e2 \<leftarrow> two_hops db p2;
     let list_of_1_neighbors = \<lparr>neighbor = p, second_hop_linkcost = LINK_COST_BROKEN, path_linkcost = LINK_COST_BROKEN,
           saved_path_linkcost = LINK_COST_BROKEN\<rparr>;
     let q = nb_next db;
     let db1 = upd_nbr2 p2 (\<lambda>e2. e2\<lparr>neighbor_2_nblist := list_of_1_neighbors # neighbor_2_nblist e2,
                 neighbor_2_pointer := neighbor_2_pointer e2 + 1\<rparr>) db;
     let db2 = upd_nbr p (\<lambda>e. e\<lparr>neighbor_2_list := q # neighbor_2_list e\<rparr>) db1;
     Some (db2\<lparr>nbr2_lists := (nbr2_lists db2)(q \<mapsto> \<lparr>nbr2_nbr = p, neighbor_2 = p2, nbr2_list_timer = None\<rparr>), nb_next := q + 1\<rparr>)
   }"

end
