(* ===== verification/Olsr_Neighbor_Inv.thy ===== *)
theory Olsr_Neighbor_Inv
  imports Olsr_Neighbor
begin

text \<open>
  The invariant of the neighbourhood tables. A neighbour and a two hop neighbour are linked by
  exactly one list entry on the neighbour's side and one on the other side; the counter of a two
  hop neighbour is the number of its links, every two hop neighbour has one, and every object
  sits in the bucket of its address. Each operation of the tables keeps the invariant and never
  touches a freed object.
\<close>

section \<open>Record updates\<close>

lemma upd_nbr_simps [simp]:
  "neighbors (upd_nbr p f db) q = (if q = p then map_option f (neighbors db p) else neighbors db q)"
  "nbr2_lists (upd_nbr p f db) = nbr2_lists db" "two_hops (upd_nbr p f db) = two_hops db"
  "neighbortable (upd_nbr p f db) = neighbortable db" "two_hop_neighbortable (upd_nbr p f db) = two_hop_neighbortable db"
  "mid_set (upd_nbr p f db) = mid_set db" "mid_entries (upd_nbr p f db) = mid_entries db"
  "reverse_mid_set (upd_nbr p f db) = reverse_mid_set db" "mid_addresses (upd_nbr p f db) = mid_addresses db"
  "nb_next (upd_nbr p f db) = nb_next db" "links (upd_nbr p f db) = links db" "link_entry_head (upd_nbr p f db) = link_entry_head db"
  "link_changes (upd_nbr p f db) = link_changes db"
  by (simp_all add: upd_nbr_def)

lemma upd_nbr2_simps [simp]:
  "two_hops (upd_nbr2 p f db) q = (if q = p then map_option f (two_hops db p) else two_hops db q)"
  "nbr2_lists (upd_nbr2 p f db) = nbr2_lists db" "neighbors (upd_nbr2 p f db) = neighbors db"
  "neighbortable (upd_nbr2 p f db) = neighbortable db" "two_hop_neighbortable (upd_nbr2 p f db) = two_hop_neighbortable db"
  "mid_set (upd_nbr2 p f db) = mid_set db" "mid_entries (upd_nbr2 p f db) = mid_entries db"
  "reverse_mid_set (upd_nbr2 p f db) = reverse_mid_set db" "mid_addresses (upd_nbr2 p f db) = mid_addresses db"
  "nb_next (upd_nbr2 p f db) = nb_next db" "links (upd_nbr2 p f db) = links db" "link_entry_head (upd_nbr2 p f db) = link_entry_head db"
  "link_changes (upd_nbr2 p f db) = link_changes db"
  by (simp_all add: upd_nbr2_def)

lemma free_two_hop_simps [simp]:
  "two_hops (free_two_hop p db) q = (if q = p then None else two_hops db q)"
  "two_hop_neighbortable (free_two_hop p db) = dequeue_elem p (two_hop_neighbortable db)"
  "nbr2_lists (free_two_hop p db) = nbr2_lists db" "neighbors (free_two_hop p db) = neighbors db"
  "neighbortable (free_two_hop p db) = neighbortable db"
  "mid_set (free_two_hop p db) = mid_set db" "mid_entries (free_two_hop p db) = mid_entries db"
  "reverse_mid_set (free_two_hop p db) = reverse_mid_set db" "mid_addresses (free_two_hop p db) = mid_addresses db"
  "nb_next (free_two_hop p db) = nb_next db" "links (free_two_hop p db) = links db" "link_entry_head (free_two_hop p db) = link_entry_head db"
  by (simp_all add: free_two_hop_def)

lemma free_neighbor_simps [simp]:
  "neighbors (free_neighbor p db) q = (if q = p then None else neighbors db q)"
  "neighbortable (free_neighbor p db) = dequeue_elem p (neighbortable db)"
  "nbr2_lists (free_neighbor p db) = nbr2_lists db" "two_hops (free_neighbor p db) = two_hops db"
  "two_hop_neighbortable (free_neighbor p db) = two_hop_neighbortable db"
  "mid_set (free_neighbor p db) = mid_set db" "mid_entries (free_neighbor p db) = mid_entries db"
  "reverse_mid_set (free_neighbor p db) = reverse_mid_set db" "mid_addresses (free_neighbor p db) = mid_addresses db"
  "nb_next (free_neighbor p db) = nb_next db" "links (free_neighbor p db) = links db" "link_entry_head (free_neighbor p db) = link_entry_head db"
  by (simp_all add: free_neighbor_def)

section \<open>The invariant\<close>

definition nbr_side :: "neighborhood \<Rightarrow> bool" where
  "nbr_side db \<longleftrightarrow> (\<forall>p e. neighbors db p = Some e \<longrightarrow> distinct (neighbor_2_list e) \<and>
     (\<forall>q\<in>set (neighbor_2_list e). \<exists>nl. nbr2_lists db q = Some nl \<and> nbr2_nbr nl = p))"

definition link_side :: "neighborhood \<Rightarrow> bool" where
  "link_side db \<longleftrightarrow> (\<forall>q nl. nbr2_lists db q = Some nl \<longrightarrow>
     (\<exists>e. neighbors db (nbr2_nbr nl) = Some e \<and> q \<in> set (neighbor_2_list e)) \<and>
     (\<exists>e2. two_hops db (neighbor_2 nl) = Some e2 \<and> nbr2_nbr nl \<in> neighbor ` set (neighbor_2_nblist e2)))"

definition link_unique :: "neighborhood \<Rightarrow> bool" where
  "link_unique db \<longleftrightarrow> (\<forall>q nl q' nl'. nbr2_lists db q = Some nl \<longrightarrow> nbr2_lists db q' = Some nl' \<longrightarrow>
     nbr2_nbr nl = nbr2_nbr nl' \<longrightarrow> neighbor_2 nl = neighbor_2 nl' \<longrightarrow> q = q')"

definition nbr2_side :: "neighborhood \<Rightarrow> bool" where
  "nbr2_side db \<longleftrightarrow> (\<forall>p2 e2. two_hops db p2 = Some e2 \<longrightarrow> distinct (map neighbor (neighbor_2_nblist e2)) \<and>
     (\<forall>x\<in>set (neighbor_2_nblist e2). \<exists>q nl. nbr2_lists db q = Some nl \<and> nbr2_nbr nl = neighbor x \<and> neighbor_2 nl = p2) \<and>
     neighbor_2_pointer e2 = of_nat (length (neighbor_2_nblist e2)))"

definition nbr_few :: "neighborhood \<Rightarrow> bool" where
  "nbr_few db \<longleftrightarrow> finite (dom (neighbors db)) \<and> card (dom (neighbors db)) < 2 ^ 15"

definition tables_ok :: "neighborhood \<Rightarrow> bool" where
  "tables_ok db \<longleftrightarrow>
     bucket_ok (neighbortable db) (\<lambda>p. map_option (\<lambda>e. ip_hash (neighbor_main_addr e)) (neighbors db p)) \<and>
     bucket_ok (two_hop_neighbortable db) (\<lambda>p. map_option (\<lambda>e. ip_hash (neighbor_2_addr e)) (two_hops db p)) \<and>
     (\<forall>p e q f. two_hops db p = Some e \<longrightarrow> two_hops db q = Some f \<longrightarrow> neighbor_2_addr e = neighbor_2_addr f \<longrightarrow> p = q) \<and>
     (\<forall>p\<ge>nb_next db. neighbors db p = None \<and> nbr2_lists db p = None \<and> two_hops db p = None)"

definition mid_ok :: "neighborhood \<Rightarrow> bool" where
  "mid_ok db \<longleftrightarrow>
     (\<forall>h. \<forall>p\<in>set (reverse_mid_set db h). \<exists>a. mid_addresses db p = Some a \<and> mid_entries db (main_entry a) \<noteq> None) \<and>
     (\<forall>h. \<forall>p\<in>set (mid_set db h). \<exists>m. mid_entries db p = Some m \<and>
        (\<forall>a\<in>set (aliases m). \<exists>ma. mid_addresses db a = Some ma \<and> a \<in> set (reverse_mid_set db (ip_hash (alias_addr ma)))))"

definition nb_core :: "neighborhood \<Rightarrow> bool" where
  "nb_core db \<longleftrightarrow> nbr_side db \<and> link_side db \<and> link_unique db \<and> nbr2_side db \<and> nbr_few db \<and> tables_ok db \<and> mid_ok db"

definition nb_inv :: "neighborhood \<Rightarrow> bool" where
  "nb_inv db \<longleftrightarrow> nb_core db \<and> (\<forall>p2 e2. two_hops db p2 = Some e2 \<longrightarrow> neighbor_2_nblist e2 \<noteq> [])"

lemma nb_coreD:
  assumes "nb_core db"
  shows "nbr_side db" "link_side db" "link_unique db" "nbr2_side db" "nbr_few db" "tables_ok db" "mid_ok db"
  using assms by (simp_all add: nb_core_def)

lemma nb_core_linkD:
  assumes "nb_core db" "nbr2_lists db q = Some nl"
  obtains e e2 where "neighbors db (nbr2_nbr nl) = Some e" "q \<in> set (neighbor_2_list e)"
    "two_hops db (neighbor_2 nl) = Some e2" "nbr2_nbr nl \<in> neighbor ` set (neighbor_2_nblist e2)"
  using assms nb_coreD(2) unfolding link_side_def by blast

lemma nb_core_nbrD:
  assumes "nb_core db" "neighbors db p = Some e"
  shows "distinct (neighbor_2_list e)" "q \<in> set (neighbor_2_list e) \<Longrightarrow> \<exists>nl. nbr2_lists db q = Some nl \<and> nbr2_nbr nl = p"
  using nb_coreD(1) [OF assms(1)] assms(2) unfolding nbr_side_def by blast+

lemma nb_core_nbr2D:
  assumes "nb_core db" "two_hops db p2 = Some e2"
  shows "distinct (map neighbor (neighbor_2_nblist e2))"
    "x \<in> set (neighbor_2_nblist e2) \<Longrightarrow> \<exists>q nl. nbr2_lists db q = Some nl \<and> nbr2_nbr nl = neighbor x \<and> neighbor_2 nl = p2"
    "neighbor_2_pointer e2 = of_nat (length (neighbor_2_nblist e2))"
  using nb_coreD(4) [OF assms(1)] assms(2) unfolding nbr2_side_def by blast+

lemma nb_core_nblist:
  assumes "nb_core db" "two_hops db p2 = Some e2" "x \<in> set (neighbor_2_nblist e2)"
  obtains e where "neighbors db (neighbor x) = Some e"
  using nb_core_nbr2D(2) [OF assms] nb_coreD(2) [OF assms(1)] unfolding link_side_def by metis

lemma nblist_short:
  assumes "nb_core db" "two_hops db p2 = Some e2"
  shows "length (neighbor_2_nblist e2) < 2 ^ 15"
proof -
  have sub: "neighbor ` set (neighbor_2_nblist e2) \<subseteq> dom (neighbors db)"
    using nb_core_nblist [OF assms] by blast
  have few: "finite (dom (neighbors db))" "card (dom (neighbors db)) < 2 ^ 15"
    using nb_coreD(5) [OF assms(1)] by (simp_all add: nbr_few_def)
  have "length (neighbor_2_nblist e2) = card (neighbor ` set (neighbor_2_nblist e2))"
    using distinct_card [OF nb_core_nbr2D(1) [OF assms]] by simp
  also have "\<dots> \<le> card (dom (neighbors db))" by (rule card_mono [OF few(1) sub])
  finally show ?thesis using few(2) by linarith
qed

lemma sint_count: "n < 2 ^ 15 \<Longrightarrow> sint (of_nat n :: 16 word) < 1 \<longleftrightarrow> n = 0"
  using int_word_sint [of "int n", where 'a = 16] by simp

section \<open>Removing a link\<close>

definition unlink :: "ptr \<Rightarrow> neighbor_2_list_entry \<Rightarrow> neighborhood \<Rightarrow> neighborhood" where
  "unlink q nl db =
     (upd_nbr (nbr2_nbr nl) (\<lambda>e. e\<lparr>neighbor_2_list := filter (\<lambda>x. x \<noteq> q) (neighbor_2_list e)\<rparr>)
       (upd_nbr2 (neighbor_2 nl) (\<lambda>e2. e2\<lparr>neighbor_2_nblist := filter (\<lambda>x. neighbor x \<noteq> nbr2_nbr nl) (neighbor_2_nblist e2),
           neighbor_2_pointer := of_nat (length (filter (\<lambda>x. neighbor x \<noteq> nbr2_nbr nl) (neighbor_2_nblist e2)))\<rparr>) db))
     \<lparr>nbr2_lists := (nbr2_lists db)(q := None), changes_neighborhood := True, nb_changes_topology := True\<rparr>"

lemma unlink_simps [simp]:
  "neighbors (unlink q nl db) p = (if p = nbr2_nbr nl
     then map_option (\<lambda>e. e\<lparr>neighbor_2_list := filter (\<lambda>x. x \<noteq> q) (neighbor_2_list e)\<rparr>) (neighbors db p) else neighbors db p)"
  "two_hops (unlink q nl db) p2 = (if p2 = neighbor_2 nl
     then map_option (\<lambda>e2. e2\<lparr>neighbor_2_nblist := filter (\<lambda>x. neighbor x \<noteq> nbr2_nbr nl) (neighbor_2_nblist e2),
           neighbor_2_pointer := of_nat (length (filter (\<lambda>x. neighbor x \<noteq> nbr2_nbr nl) (neighbor_2_nblist e2)))\<rparr>) (two_hops db p2)
     else two_hops db p2)"
  "nbr2_lists (unlink q nl db) = (nbr2_lists db)(q := None)"
  "neighbortable (unlink q nl db) = neighbortable db" "two_hop_neighbortable (unlink q nl db) = two_hop_neighbortable db"
  "mid_set (unlink q nl db) = mid_set db" "mid_entries (unlink q nl db) = mid_entries db"
  "reverse_mid_set (unlink q nl db) = reverse_mid_set db" "mid_addresses (unlink q nl db) = mid_addresses db"
  "nb_next (unlink q nl db) = nb_next db" "links (unlink q nl db) = links db" "link_entry_head (unlink q nl db) = link_entry_head db"
  by (simp_all add: unlink_def)

lemma tables_ok_upd:
  assumes "tables_ok db" "neighbortable db' = neighbortable db" "two_hop_neighbortable db' = two_hop_neighbortable db"
    and "nb_next db' = nb_next db" "\<And>p. p \<ge> nb_next db \<Longrightarrow> nbr2_lists db p = None \<Longrightarrow> nbr2_lists db' p = None"
    and "\<And>p. map_option neighbor_main_addr (neighbors db' p) = map_option neighbor_main_addr (neighbors db p)"
    and "\<And>p. map_option neighbor_2_addr (two_hops db' p) = map_option neighbor_2_addr (two_hops db p)"
  shows "tables_ok db'"
proof -
  have k: "map_option (\<lambda>e. ip_hash (neighbor_main_addr e)) (neighbors db' p) = map_option (\<lambda>e. ip_hash (neighbor_main_addr e)) (neighbors db p)"
    "map_option (\<lambda>e. ip_hash (neighbor_2_addr e)) (two_hops db' p) = map_option (\<lambda>e. ip_hash (neighbor_2_addr e)) (two_hops db p)" for p
    using arg_cong [OF assms(6) [of p], of "map_option ip_hash"] arg_cong [OF assms(7) [of p], of "map_option ip_hash"]
    by (simp_all add: option.map_comp comp_def)
  have n: "neighbors db' p = None \<longleftrightarrow> neighbors db p = None" "two_hops db' p = None \<longleftrightarrow> two_hops db p = None" for p
    using assms(6) [of p] assms(7) [of p] by (metis option.map_disc_iff)+
  have a: "p = q" if "two_hops db' p = Some e" "two_hops db' q = Some f" "neighbor_2_addr e = neighbor_2_addr f" for p q e f
  proof -
    from that(1,2) obtain e' f' where e': "two_hops db p = Some e'" "two_hops db q = Some f'"
      using n(2) by (metis option.exhaust_sel option.distinct(1))
    hence "neighbor_2_addr e' = neighbor_2_addr f'" using that assms(7) [of p] assms(7) [of q] by simp
    with e' assms(1) show ?thesis unfolding tables_ok_def by blast
  qed
  show ?thesis using assms(1,5) unfolding tables_ok_def assms(2-4) k n using a by blast
qed

lemma mid_ok_upd: "mid_ok db \<Longrightarrow> mid_set db' = mid_set db \<Longrightarrow> mid_entries db' = mid_entries db \<Longrightarrow>
   reverse_mid_set db' = reverse_mid_set db \<Longrightarrow> mid_addresses db' = mid_addresses db \<Longrightarrow> mid_ok db'"
  by (simp add: mid_ok_def)

lemma nbr_few_upd: "nbr_few db \<Longrightarrow> (\<And>p. neighbors db' p = None \<longleftrightarrow> neighbors db p = None) \<Longrightarrow> nbr_few db'"
proof -
  assume "nbr_few db" "\<And>p. neighbors db' p = None \<longleftrightarrow> neighbors db p = None"
  moreover from this(2) have "dom (neighbors db') = dom (neighbors db)" by (simp add: dom_def)
  ultimately show ?thesis by (simp add: nbr_few_def)
qed

lemma core_unlink:
  assumes core: "nb_core db" and q: "nbr2_lists db q = Some nl"
  shows "nb_core (unlink q nl db)"
proof -
  note inv = nb_coreD [OF core]
  have "nbr_side (unlink q nl db)" using inv(1) q unfolding nbr_side_def
    by (auto split: if_splits) (metis option.inject)+
  moreover have "link_side (unlink q nl db)"
    unfolding link_side_def
  proof (intro allI impI)
    fix q' nl' assume "nbr2_lists (unlink q nl db) q' = Some nl'"
    hence q': "q' \<noteq> q" "nbr2_lists db q' = Some nl'" by (auto split: if_splits)
    obtain e e2 where e: "neighbors db (nbr2_nbr nl') = Some e" "q' \<in> set (neighbor_2_list e)"
      "two_hops db (neighbor_2 nl') = Some e2" "nbr2_nbr nl' \<in> neighbor ` set (neighbor_2_nblist e2)"
      by (rule nb_core_linkD [OF core q'(2)])
    have "neighbor_2 nl' = neighbor_2 nl \<Longrightarrow> nbr2_nbr nl' \<noteq> nbr2_nbr nl"
      using inv(3) q q' unfolding link_unique_def by metis
    with e q' show "(\<exists>e. neighbors (unlink q nl db) (nbr2_nbr nl') = Some e \<and> q' \<in> set (neighbor_2_list e)) \<and>
       (\<exists>e2. two_hops (unlink q nl db) (neighbor_2 nl') = Some e2 \<and> nbr2_nbr nl' \<in> neighbor ` set (neighbor_2_nblist e2))"
      by (auto simp: image_iff)
  qed
  moreover have "link_unique (unlink q nl db)" using inv(3) unfolding link_unique_def by (auto split: if_splits)
  moreover have "nbr2_side (unlink q nl db)"
    unfolding nbr2_side_def
  proof (intro allI impI)
    fix p2 e2' assume "two_hops (unlink q nl db) p2 = Some e2'"
    then obtain e2 where e2: "two_hops db p2 = Some e2" "e2' = (if p2 = neighbor_2 nl then
        e2\<lparr>neighbor_2_nblist := filter (\<lambda>x. neighbor x \<noteq> nbr2_nbr nl) (neighbor_2_nblist e2),
           neighbor_2_pointer := of_nat (length (filter (\<lambda>x. neighbor x \<noteq> nbr2_nbr nl) (neighbor_2_nblist e2)))\<rparr> else e2)"
      by (auto split: if_splits)
    note side = nb_core_nbr2D [OF core e2(1)]
    have "\<exists>q' nl'. nbr2_lists (unlink q nl db) q' = Some nl' \<and> nbr2_nbr nl' = neighbor x \<and> neighbor_2 nl' = p2"
      if x: "x \<in> set (neighbor_2_nblist e2')" for x
    proof -
      from x e2(2) have x': "x \<in> set (neighbor_2_nblist e2)" "p2 = neighbor_2 nl \<longrightarrow> neighbor x \<noteq> nbr2_nbr nl" by (auto split: if_splits)
      from side(2) [OF x'(1)] obtain q' nl' where q': "nbr2_lists db q' = Some nl'" "nbr2_nbr nl' = neighbor x" "neighbor_2 nl' = p2" by blast
      hence "q' \<noteq> q" using q x'(2) by auto
      with q' show ?thesis by auto
    qed
    moreover have "distinct (map neighbor (neighbor_2_nblist e2'))" using side(1) e2(2) by (simp add: distinct_map_filter)
    moreover have "neighbor_2_pointer e2' = of_nat (length (neighbor_2_nblist e2'))" using side(3) e2(2) by simp
    ultimately show "distinct (map neighbor (neighbor_2_nblist e2')) \<and>
      (\<forall>x\<in>set (neighbor_2_nblist e2'). \<exists>q' nl'. nbr2_lists (unlink q nl db) q' = Some nl' \<and> nbr2_nbr nl' = neighbor x \<and> neighbor_2 nl' = p2) \<and>
      neighbor_2_pointer e2' = of_nat (length (neighbor_2_nblist e2'))" by blast
  qed
  moreover have "nbr_few (unlink q nl db)" by (rule nbr_few_upd [OF inv(5)]) simp
  moreover have "tables_ok (unlink q nl db)" by (rule tables_ok_upd [OF inv(6)]) (simp_all add: option.map_comp comp_def)
  moreover have "mid_ok (unlink q nl db)" by (rule mid_ok_upd [OF inv(7)]) simp_all
  ultimately show ?thesis by (simp add: nb_core_def)
qed

lemma core_free_two_hop:
  assumes core: "nb_core db" and e2: "two_hops db p2 = Some e2" "neighbor_2_nblist e2 = []"
  shows "nb_core (free_two_hop p2 db)"
proof -
  note inv = nb_coreD [OF core]
  have "nbr_side (free_two_hop p2 db)" using inv(1) by (simp add: nbr_side_def)
  moreover have "link_side (free_two_hop p2 db)" using inv(2) e2 unfolding link_side_def
    by (auto simp: image_iff) (metis empty_iff list.set(1) option.inject image_iff)
  moreover have "link_unique (free_two_hop p2 db)" using inv(3) by (simp add: link_unique_def)
  moreover have "nbr2_side (free_two_hop p2 db)" using inv(4) by (simp add: nbr2_side_def)
  moreover have "nbr_few (free_two_hop p2 db)" using inv(5) by (simp add: nbr_few_def)
  moreover have "tables_ok (free_two_hop p2 db)"
  proof -
    have "bucket_ok (two_hop_neighbortable (free_two_hop p2 db))
       (\<lambda>p. map_option (\<lambda>e. ip_hash (neighbor_2_addr e)) (two_hops (free_two_hop p2 db) p))"
      using inv(6) unfolding tables_ok_def by (auto intro: bucket_cong [OF bucket_dequeue [of _ _ p2]])
    with inv(6) show ?thesis unfolding tables_ok_def by simp
  qed
  moreover have "mid_ok (free_two_hop p2 db)" by (rule mid_ok_upd [OF inv(7)]) simp_all
  ultimately show ?thesis by (simp add: nb_core_def)
qed

lemma length_filter_one:
  assumes "distinct (map f xs)" "y \<in> f ` set xs"
  shows "Suc (length (filter (\<lambda>x. f x \<noteq> y) xs)) = length xs"
  using assms
proof (induction xs)
  case (Cons x xs)
  show ?case
  proof (cases "f x = y")
    case True
    with Cons.prems have "y \<notin> f ` set xs" by simp
    hence "\<forall>z\<in>set xs. f z \<noteq> y" by blast
    hence "filter (\<lambda>x. f x \<noteq> y) xs = xs" by (simp add: filter_id_conv)
    with True show ?thesis by simp
  next
    case False
    with Cons show ?thesis by auto
  qed
qed simp

text \<open>What remains when a link is removed: a two hop neighbour without links is freed.\<close>

definition unlinked :: "ptr \<Rightarrow> neighbor_2_list_entry \<Rightarrow> neighborhood \<Rightarrow> neighborhood" where
  "unlinked q nl db =
     (case two_hops (unlink q nl db) (neighbor_2 nl) of
        Some e2 \<Rightarrow> if neighbor_2_nblist e2 = [] then free_two_hop (neighbor_2 nl) (unlink q nl db) else unlink q nl db
      | None \<Rightarrow> unlink q nl db)"

lemma inv_unlinked:
  assumes inv: "nb_inv db" and q: "nbr2_lists db q = Some nl"
  shows "nb_inv (unlinked q nl db)"
proof -
  have core: "nb_core db" and ne: "\<And>p2 e2. two_hops db p2 = Some e2 \<Longrightarrow> neighbor_2_nblist e2 \<noteq> []" using inv by (auto simp: nb_inv_def)
  obtain e e2 where e2: "two_hops db (neighbor_2 nl) = Some e2" by (rule nb_core_linkD [OF core q])
  have c1: "nb_core (unlink q nl db)" by (rule core_unlink [OF core q])
  show ?thesis
  proof (cases "filter (\<lambda>x. neighbor x \<noteq> nbr2_nbr nl) (neighbor_2_nblist e2) = []")
    case True
    have "nb_core (free_two_hop (neighbor_2 nl) (unlink q nl db))"
      by (rule core_free_two_hop [OF c1, of _ "e2\<lparr>neighbor_2_nblist := [], neighbor_2_pointer := 0\<rparr>"]) (use e2 True in simp_all)
    with True e2 ne show ?thesis by (auto simp: unlinked_def nb_inv_def split: if_splits)
  next
    case False
    with c1 e2 ne show ?thesis by (auto simp: unlinked_def nb_inv_def split: if_splits)
  qed
qed

lemma neighborhood_eqI:
  fixes a b :: neighborhood
  assumes "neighbortable a = neighbortable b" "\<And>p. neighbors a p = neighbors b p" "\<And>p. nbr2_lists a p = nbr2_lists b p"
    "two_hop_neighbortable a = two_hop_neighbortable b" "\<And>p. two_hops a p = two_hops b p" "mid_set a = mid_set b"
    "mid_entries a = mid_entries b" "reverse_mid_set a = reverse_mid_set b" "mid_addresses a = mid_addresses b"
    "link_entry_head a = link_entry_head b" "links a = links b" "nb_next a = nb_next b"
    "changes_neighborhood a = changes_neighborhood b" "nb_changes_topology a = nb_changes_topology b" "link_changes a = link_changes b"
  shows "a = b"
  using assms by (intro neighborhood.equality) auto

lemma drop_link_eq:
  assumes core: "nb_core db" and q: "nbr2_lists db q = Some nl"
  shows "drop_link q db = Some (unlinked q nl db)"
proof -
  obtain e e2 where e: "neighbors db (nbr2_nbr nl) = Some e" "two_hops db (neighbor_2 nl) = Some e2"
    "nbr2_nbr nl \<in> neighbor ` set (neighbor_2_nblist e2)"
    by (rule nb_core_linkD [OF core q])
  let ?xs = "filter (\<lambda>x. neighbor x \<noteq> nbr2_nbr nl) (neighbor_2_nblist e2)"
  have len: "Suc (length ?xs) = length (neighbor_2_nblist e2)"
    by (rule length_filter_one [OF nb_core_nbr2D(1) [OF core e(2)] e(3)])
  have ptr: "neighbor_2_pointer e2 - 1 = of_nat (length ?xs)"
    using nb_core_nbr2D(3) [OF core e(2)] len [symmetric] by simp
  have short: "length ?xs < 2 ^ 15" using nblist_short [OF core e(2)] len by linarith
  show ?thesis
    unfolding drop_link_def olsr_delete_neighbor_pointer_def olsr_del_nbr2_list_def unlinked_def
    using e q
    by (auto simp: ptr sint_count [OF short] Let_def intro!: neighborhood_eqI simp: unlink_def upd_nbr_def upd_nbr2_def free_two_hop_def)
qed

section \<open>Changes that keep the links\<close>

text \<open>
  Costs, flags, counters and timers may change freely: the invariant depends only on the
  addresses and on which objects are linked.
\<close>

definition same_shape :: "neighborhood \<Rightarrow> neighborhood \<Rightarrow> bool" where
  "same_shape db db' \<longleftrightarrow>
     neighbortable db' = neighbortable db \<and> two_hop_neighbortable db' = two_hop_neighbortable db \<and>
     mid_set db' = mid_set db \<and> mid_entries db' = mid_entries db \<and>
     reverse_mid_set db' = reverse_mid_set db \<and> mid_addresses db' = mid_addresses db \<and> nb_next db' = nb_next db \<and>
     (\<forall>p. map_option (\<lambda>e. (neighbor_main_addr e, neighbor_2_list e)) (neighbors db' p) =
          map_option (\<lambda>e. (neighbor_main_addr e, neighbor_2_list e)) (neighbors db p)) \<and>
     (\<forall>q. map_option (\<lambda>nl. (nbr2_nbr nl, neighbor_2 nl)) (nbr2_lists db' q) =
          map_option (\<lambda>nl. (nbr2_nbr nl, neighbor_2 nl)) (nbr2_lists db q)) \<and>
     (\<forall>p2. map_option (\<lambda>e2. (neighbor_2_addr e2, neighbor_2_pointer e2, map neighbor (neighbor_2_nblist e2))) (two_hops db' p2) =
          map_option (\<lambda>e2. (neighbor_2_addr e2, neighbor_2_pointer e2, map neighbor (neighbor_2_nblist e2))) (two_hops db p2))"

lemma same_shape_refl [simp]: "same_shape db db"
  by (simp add: same_shape_def)

lemma same_shape_trans [trans]: "same_shape a b \<Longrightarrow> same_shape b c \<Longrightarrow> same_shape a c"
  by (simp add: same_shape_def)

lemma map_option_Some: "map_option f x = map_option f y \<Longrightarrow> x = Some a \<Longrightarrow> \<exists>b. y = Some b \<and> f a = f b"
  by (metis map_option_eq_Some option.map_disc_iff option.exhaust option.simps(9) option.inject)

lemma same_shapeD:
  assumes "same_shape db db'"
  shows "neighbors db' p = Some e' \<Longrightarrow> \<exists>e. neighbors db p = Some e \<and> neighbor_main_addr e' = neighbor_main_addr e \<and> neighbor_2_list e' = neighbor_2_list e"
    and "neighbors db p = Some e \<Longrightarrow> \<exists>e'. neighbors db' p = Some e' \<and> neighbor_main_addr e' = neighbor_main_addr e \<and> neighbor_2_list e' = neighbor_2_list e"
    and "nbr2_lists db' q = Some nl' \<Longrightarrow> \<exists>nl. nbr2_lists db q = Some nl \<and> nbr2_nbr nl' = nbr2_nbr nl \<and> neighbor_2 nl' = neighbor_2 nl"
    and "nbr2_lists db q = Some nl \<Longrightarrow> \<exists>nl'. nbr2_lists db' q = Some nl' \<and> nbr2_nbr nl' = nbr2_nbr nl \<and> neighbor_2 nl' = neighbor_2 nl"
    and "two_hops db' p2 = Some e2' \<Longrightarrow> \<exists>e2. two_hops db p2 = Some e2 \<and> neighbor_2_addr e2' = neighbor_2_addr e2 \<and>
       neighbor_2_pointer e2' = neighbor_2_pointer e2 \<and> map neighbor (neighbor_2_nblist e2') = map neighbor (neighbor_2_nblist e2)"
    and "two_hops db p2 = Some e2 \<Longrightarrow> \<exists>e2'. two_hops db' p2 = Some e2' \<and> neighbor_2_addr e2' = neighbor_2_addr e2 \<and>
       neighbor_2_pointer e2' = neighbor_2_pointer e2 \<and> map neighbor (neighbor_2_nblist e2') = map neighbor (neighbor_2_nblist e2)"
proof -
  note m = assms [unfolded same_shape_def]
  have n: "map_option (\<lambda>e. (neighbor_main_addr e, neighbor_2_list e)) (neighbors db' p) =
          map_option (\<lambda>e. (neighbor_main_addr e, neighbor_2_list e)) (neighbors db p)"
    and l: "map_option (\<lambda>nl. (nbr2_nbr nl, neighbor_2 nl)) (nbr2_lists db' q) =
          map_option (\<lambda>nl. (nbr2_nbr nl, neighbor_2 nl)) (nbr2_lists db q)"
    and t: "map_option (\<lambda>e2. (neighbor_2_addr e2, neighbor_2_pointer e2, map neighbor (neighbor_2_nblist e2))) (two_hops db' p2) =
          map_option (\<lambda>e2. (neighbor_2_addr e2, neighbor_2_pointer e2, map neighbor (neighbor_2_nblist e2))) (two_hops db p2)"
    using m by blast+
  show "neighbors db' p = Some e' \<Longrightarrow> \<exists>e. neighbors db p = Some e \<and> neighbor_main_addr e' = neighbor_main_addr e \<and> neighbor_2_list e' = neighbor_2_list e"
    using map_option_Some [OF n] by simp
  show "neighbors db p = Some e \<Longrightarrow> \<exists>e'. neighbors db' p = Some e' \<and> neighbor_main_addr e' = neighbor_main_addr e \<and> neighbor_2_list e' = neighbor_2_list e"
    using map_option_Some [OF n [symmetric], of e] by auto
  show "nbr2_lists db' q = Some nl' \<Longrightarrow> \<exists>nl. nbr2_lists db q = Some nl \<and> nbr2_nbr nl' = nbr2_nbr nl \<and> neighbor_2 nl' = neighbor_2 nl"
    using map_option_Some [OF l] by simp
  show "nbr2_lists db q = Some nl \<Longrightarrow> \<exists>nl'. nbr2_lists db' q = Some nl' \<and> nbr2_nbr nl' = nbr2_nbr nl \<and> neighbor_2 nl' = neighbor_2 nl"
    using map_option_Some [OF l [symmetric], of nl] by auto
  show "two_hops db' p2 = Some e2' \<Longrightarrow> \<exists>e2. two_hops db p2 = Some e2 \<and> neighbor_2_addr e2' = neighbor_2_addr e2 \<and>
       neighbor_2_pointer e2' = neighbor_2_pointer e2 \<and> map neighbor (neighbor_2_nblist e2') = map neighbor (neighbor_2_nblist e2)"
    using map_option_Some [OF t] by simp
  show "two_hops db p2 = Some e2 \<Longrightarrow> \<exists>e2'. two_hops db' p2 = Some e2' \<and> neighbor_2_addr e2' = neighbor_2_addr e2 \<and>
       neighbor_2_pointer e2' = neighbor_2_pointer e2 \<and> map neighbor (neighbor_2_nblist e2') = map neighbor (neighbor_2_nblist e2)"
    using map_option_Some [OF t [symmetric], of e2] by auto
qed

lemma map_eq_image: "map f xs = map f ys \<Longrightarrow> f ` set xs = f ` set ys"
  by (metis set_map)

lemma core_same_shape:
  assumes core: "nb_core db" and sh: "same_shape db db'"
  shows "nb_core db'"
proof -
  note inv = nb_coreD [OF core] and D = same_shapeD [OF sh]
  have none: "neighbors db' p = None \<longleftrightarrow> neighbors db p = None" "nbr2_lists db' p = None \<longleftrightarrow> nbr2_lists db p = None" for p
    using D(1,2) [of p] by (cases "neighbors db p"; cases "neighbors db' p"; simp)
      (use D(3,4) [of p] in \<open>cases "nbr2_lists db p"; cases "nbr2_lists db' p"; simp\<close>)
  have "nbr_side db'" unfolding nbr_side_def
  proof (intro allI impI)
    fix p e' assume "neighbors db' p = Some e'"
    then obtain e where e: "neighbors db p = Some e" "neighbor_2_list e' = neighbor_2_list e" using D(1) by blast
    show "distinct (neighbor_2_list e') \<and> (\<forall>q\<in>set (neighbor_2_list e'). \<exists>nl. nbr2_lists db' q = Some nl \<and> nbr2_nbr nl = p)"
      using nb_core_nbrD [OF core e(1)] D(4) unfolding e(2) by metis
  qed
  moreover have "link_side db'" unfolding link_side_def
  proof (intro allI impI)
    fix q nl' assume "nbr2_lists db' q = Some nl'"
    then obtain nl where nl: "nbr2_lists db q = Some nl" "nbr2_nbr nl' = nbr2_nbr nl" "neighbor_2 nl' = neighbor_2 nl" using D(3) by blast
    obtain e e2 where e: "neighbors db (nbr2_nbr nl) = Some e" "q \<in> set (neighbor_2_list e)"
      "two_hops db (neighbor_2 nl) = Some e2" "nbr2_nbr nl \<in> neighbor ` set (neighbor_2_nblist e2)"
      by (rule nb_core_linkD [OF core nl(1)])
    show "(\<exists>e. neighbors db' (nbr2_nbr nl') = Some e \<and> q \<in> set (neighbor_2_list e)) \<and>
        (\<exists>e2. two_hops db' (neighbor_2 nl') = Some e2 \<and> nbr2_nbr nl' \<in> neighbor ` set (neighbor_2_nblist e2))"
      unfolding nl(2,3) using D(2) [OF e(1)] D(6) [OF e(3)] e(2,4) map_eq_image by metis
  qed
  moreover have "link_unique db'" unfolding link_unique_def using inv(3) D(3) unfolding link_unique_def by metis
  moreover have "nbr2_side db'" unfolding nbr2_side_def
  proof (intro allI impI)
    fix p2 e2' assume "two_hops db' p2 = Some e2'"
    then obtain e2 where e2: "two_hops db p2 = Some e2" "neighbor_2_pointer e2' = neighbor_2_pointer e2"
      "map neighbor (neighbor_2_nblist e2') = map neighbor (neighbor_2_nblist e2)" using D(5) by blast
    have len: "length (neighbor_2_nblist e2') = length (neighbor_2_nblist e2)" using arg_cong [OF e2(3), of length] by simp
    have "\<exists>q nl. nbr2_lists db' q = Some nl \<and> nbr2_nbr nl = neighbor x \<and> neighbor_2 nl = p2" if "x \<in> set (neighbor_2_nblist e2')" for x
    proof -
      have "neighbor x \<in> neighbor ` set (neighbor_2_nblist e2)" using that map_eq_image [OF e2(3)] by blast
      then obtain y where "y \<in> set (neighbor_2_nblist e2)" "neighbor x = neighbor y" by blast
      with nb_core_nbr2D(2) [OF core e2(1)] D(4) show ?thesis by metis
    qed
    thus "distinct (map neighbor (neighbor_2_nblist e2')) \<and>
        (\<forall>x\<in>set (neighbor_2_nblist e2'). \<exists>q nl. nbr2_lists db' q = Some nl \<and> nbr2_nbr nl = neighbor x \<and> neighbor_2 nl = p2) \<and>
        neighbor_2_pointer e2' = of_nat (length (neighbor_2_nblist e2'))"
      unfolding e2(2,3) len using nb_core_nbr2D [OF core e2(1)] by blast
  qed
  moreover have "nbr_few db'" by (rule nbr_few_upd [OF inv(5) none(1)])
  moreover have "tables_ok db'"
  proof (rule tables_ok_upd [OF inv(6)])
    fix p
    have "map_option fst (map_option (\<lambda>e. (neighbor_main_addr e, neighbor_2_list e)) (neighbors db' p)) =
          map_option fst (map_option (\<lambda>e. (neighbor_main_addr e, neighbor_2_list e)) (neighbors db p))"
      using sh unfolding same_shape_def by presburger
    thus "map_option neighbor_main_addr (neighbors db' p) = map_option neighbor_main_addr (neighbors db p)"
      by (simp add: option.map_comp comp_def)
    have "map_option fst (map_option (\<lambda>e2. (neighbor_2_addr e2, neighbor_2_pointer e2, map neighbor (neighbor_2_nblist e2))) (two_hops db' p)) =
          map_option fst (map_option (\<lambda>e2. (neighbor_2_addr e2, neighbor_2_pointer e2, map neighbor (neighbor_2_nblist e2))) (two_hops db p))"
      using sh unfolding same_shape_def by presburger
    thus "map_option neighbor_2_addr (two_hops db' p) = map_option neighbor_2_addr (two_hops db p)"
      by (simp add: option.map_comp comp_def)
  qed (use sh none in \<open>simp_all add: same_shape_def\<close>)
  moreover have "mid_ok db'" by (rule mid_ok_upd [OF inv(7)]) (use sh in \<open>simp_all add: same_shape_def\<close>)
  ultimately show ?thesis by (simp add: nb_core_def)
qed

lemma inv_same_shape:
  assumes "nb_inv db" "same_shape db db'"
  shows "nb_inv db'"
  using assms core_same_shape [of db db'] same_shapeD(5) [OF assms(2)] unfolding nb_inv_def
  by (metis map_is_Nil_conv)

end
