(* ===== verification/Olsr_Neighbor_Ops.thy ===== *)
theory Olsr_Neighbor_Ops
  imports Olsr_Neighbor_Inv
begin

text \<open>
  What the operations of the neighbourhood tables do in a consistent state: look-ups end and find
  what is there, deleting a neighbour or a two hop neighbour takes its links with it, and linking
  adds exactly one link.
\<close>

section \<open>What stays\<close>

text \<open>The alias sets and the link set are not touched by the operations on neighbours.\<close>

definition same_mid :: "neighborhood \<Rightarrow> neighborhood \<Rightarrow> bool" where
  "same_mid db db' \<longleftrightarrow> mid_set db' = mid_set db \<and> mid_entries db' = mid_entries db \<and>
     reverse_mid_set db' = reverse_mid_set db \<and> mid_addresses db' = mid_addresses db \<and>
     links db' = links db \<and> link_entry_head db' = link_entry_head db"

lemma same_mid_refl [simp]: "same_mid db db"
  by (simp add: same_mid_def)

lemma same_mid_trans [trans]: "same_mid a b \<Longrightarrow> same_mid b c \<Longrightarrow> same_mid a c"
  by (simp add: same_mid_def)

lemma neighbors_kept:
  "map_option (neighbor_2_list_update (\<lambda>_. [])) (neighbors d p) = map_option (neighbor_2_list_update (\<lambda>_. [])) (neighbors db p) \<Longrightarrow>
   neighbors d p = None \<longleftrightarrow> neighbors db p = None"
  by (metis option.map_disc_iff)

section \<open>Look-ups\<close>

lemma lookup_alias_ok:
  assumes "nb_core db"
  shows "\<exists>r. olsr_lookup_neighbor_table_alias a db = Some r \<and>
    (case r of None \<Rightarrow> \<forall>p e. neighbors db p = Some e \<longrightarrow> neighbor_main_addr e \<noteq> a
     | Some p \<Rightarrow> \<exists>e. neighbors db p = Some e \<and> neighbor_main_addr e = a)"
proof -
  have b: "bucket_ok (neighbortable db) (\<lambda>p. map_option (\<lambda>e. ip_hash (neighbor_main_addr e)) (neighbors db p))"
    using nb_coreD(6) [OF assms] by (simp add: tables_ok_def)
  let ?t = "\<lambda>p. map_option (\<lambda>e. ipequal (neighbor_main_addr e) a) (neighbors db p)"
  have "\<forall>p\<in>set (neighbortable db (ip_hash a)). ?t p \<noteq> None" using bucket_okD(1) [OF b] by auto
  from findM_total [OF this] obtain r where r: "findM ?t (neighbortable db (ip_hash a)) = Some r" by blast
  show ?thesis
  proof (cases r)
    case None
    have "neighbor_main_addr e \<noteq> a" if "neighbors db p = Some e" for p e
    proof
      assume a: "neighbor_main_addr e = a"
      have "p \<in> set (neighbortable db (ip_hash a))" using bucket_okD(1) [OF b] that a by simp
      with r None that a findM_None [of ?t] show False by auto
    qed
    with r None show ?thesis by (simp add: olsr_lookup_neighbor_table_alias_def)
  next
    case (Some p)
    with r findM_Some [of ?t] have "?t p = Some True" by blast
    with r Some show ?thesis by (auto simp: olsr_lookup_neighbor_table_alias_def)
  qed
qed

lemma mid_lookup_ok:
  assumes "mid_ok db"
  shows "\<exists>r. mid_lookup_main_addr a db = Some r"
proof -
  let ?l = "reverse_mid_set db (ip_hash a)"
  have v: "\<forall>p\<in>set ?l. \<exists>ma. mid_addresses db p = Some ma \<and> mid_entries db (main_entry ma) \<noteq> None"
    using assms unfolding mid_ok_def by blast
  hence "\<forall>p\<in>set ?l. alias_is db a p \<noteq> None" by (force simp: alias_is_def)
  from findM_total [OF this] obtain r where r: "findM (alias_is db a) ?l = Some r" by blast
  show ?thesis
  proof (cases r)
    case (Some p)
    with r findM_Some [of "alias_is db a"] have "p \<in> set ?l" by blast
    with v obtain ma where "mid_addresses db p = Some ma" "mid_entries db (main_entry ma) \<noteq> None" by blast
    with r Some show ?thesis by (auto simp: mid_lookup_main_addr_def)
  qed (use r in \<open>simp add: mid_lookup_main_addr_def\<close>)
qed

lemma lookup_neighbor_ok:
  assumes "nb_core db"
  shows "\<exists>r. olsr_lookup_neighbor_table a db = Some r \<and> (case r of None \<Rightarrow> True | Some p \<Rightarrow> \<exists>e. neighbors db p = Some e)"
proof -
  obtain m where "mid_lookup_main_addr a db = Some m" using mid_lookup_ok [OF nb_coreD(7) [OF assms]] by blast
  moreover obtain r where "olsr_lookup_neighbor_table_alias (case m of None \<Rightarrow> a | Some b \<Rightarrow> b) db = Some r"
      "case r of None \<Rightarrow> True | Some p \<Rightarrow> \<exists>e. neighbors db p = Some e"
    using lookup_alias_ok [OF assms, of "case m of None \<Rightarrow> a | Some b \<Rightarrow> b"] by (fastforce split: option.splits)
  ultimately show ?thesis by (simp add: olsr_lookup_neighbor_table_def)
qed

lemma lookup_aliases_ok:
  assumes "mid_ok db"
  shows "\<exists>as. mid_lookup_aliases a db = Some as \<and>
    (\<forall>p\<in>set as. \<exists>ma. mid_addresses db p = Some ma \<and> p \<in> set (reverse_mid_set db (ip_hash (alias_addr ma))))"
proof -
  let ?l = "mid_set db (ip_hash a)" and ?t = "\<lambda>p. map_option (\<lambda>m. ipequal (mid_main_addr m) a) (mid_entries db p)"
  have v: "\<forall>p\<in>set ?l. \<exists>m. mid_entries db p = Some m \<and>
      (\<forall>x\<in>set (aliases m). \<exists>ma. mid_addresses db x = Some ma \<and> x \<in> set (reverse_mid_set db (ip_hash (alias_addr ma))))"
    using assms unfolding mid_ok_def by blast
  hence "\<forall>p\<in>set ?l. ?t p \<noteq> None" by force
  from findM_total [OF this] obtain r where r: "findM ?t ?l = Some r" by blast
  show ?thesis
  proof (cases r)
    case (Some p)
    with r findM_Some [of ?t] have "p \<in> set ?l" by blast
    with v obtain m where "mid_entries db p = Some m"
      "\<forall>x\<in>set (aliases m). \<exists>ma. mid_addresses db x = Some ma \<and> x \<in> set (reverse_mid_set db (ip_hash (alias_addr ma)))" by blast
    with r Some show ?thesis by (auto simp: mid_lookup_aliases_def mid_lookup_entry_bymain_def)
  qed (use r in \<open>simp add: mid_lookup_aliases_def mid_lookup_entry_bymain_def\<close>)
qed

lemma lookup_two_hop_ok:
  assumes core: "nb_core db"
  shows "\<exists>r. olsr_lookup_two_hop_neighbor_table a db = Some r \<and>
    (case r of None \<Rightarrow> \<forall>p e2. two_hops db p = Some e2 \<longrightarrow> neighbor_2_addr e2 \<noteq> a
     | Some p \<Rightarrow> \<exists>e2. two_hops db p = Some e2 \<and> (mid_lookup_main_addr a db = Some None \<longrightarrow> neighbor_2_addr e2 = a))"
proof -
  have b: "bucket_ok (two_hop_neighbortable db) (\<lambda>p. map_option (\<lambda>e. ip_hash (neighbor_2_addr e)) (two_hops db p))"
    using nb_coreD(6) [OF core] by (simp add: tables_ok_def)
  let ?l = "two_hop_neighbortable db (ip_hash a)"
  let ?t = "\<lambda>p. do {
         e2 \<leftarrow> two_hops db p;
         if ipequal (neighbor_2_addr e2) a then Some True
         else do { as \<leftarrow> mid_lookup_aliases (neighbor_2_addr e2) db; found \<leftarrow> findM (alias_is db a) as; Some (found \<noteq> None) }}"
  have al: "\<exists>r. (do { as \<leftarrow> mid_lookup_aliases b db; found \<leftarrow> findM (alias_is db a) as; Some (found \<noteq> None) }) = Some r \<and>
      (mid_lookup_main_addr a db = Some None \<longrightarrow> \<not> r)" for b
  proof -
    obtain as where as: "mid_lookup_aliases b db = Some as"
      "\<forall>p\<in>set as. \<exists>ma. mid_addresses db p = Some ma \<and> p \<in> set (reverse_mid_set db (ip_hash (alias_addr ma)))"
      using lookup_aliases_ok [OF nb_coreD(7) [OF core]] by blast
    have tot: "\<forall>p\<in>set as. alias_is db a p \<noteq> None" using as(2) by (force simp: alias_is_def)
    from findM_total [OF this] obtain f where f: "findM (alias_is db a) as = Some f" by blast
    have "f = None" if none: "mid_lookup_main_addr a db = Some None"
    proof (rule ccontr)
      assume "f \<noteq> None"
      then obtain p where "findM (alias_is db a) as = Some (Some p)" using f by blast
      from findM_Some [OF this] have p: "p \<in> set as" "alias_is db a p = Some True" by blast+
      with as(2) obtain ma where ma: "mid_addresses db p = Some ma" "p \<in> set (reverse_mid_set db (ip_hash (alias_addr ma)))" by blast
      with p(2) have "alias_addr ma = a" by (auto simp: alias_is_def)
      with ma(2) have "p \<in> set (reverse_mid_set db (ip_hash a))" by simp
      moreover have "findM (alias_is db a) (reverse_mid_set db (ip_hash a)) = Some None"
        using none unfolding mid_lookup_main_addr_def by (auto split: bind_splits option.splits)
      ultimately show False using p(2) findM_None [of "alias_is db a"] by auto
    qed
    with as(1) f show ?thesis by auto
  qed
  have "?t p \<noteq> None" if p: "p \<in> set ?l" for p
  proof -
    from p bucket_okD(1) [OF b] obtain e2 where "two_hops db p = Some e2" by auto
    with al [of "neighbor_2_addr e2"] show ?thesis by auto
  qed
  hence "\<forall>p\<in>set ?l. ?t p \<noteq> None" by blast
  from findM_total [OF this] obtain r where r: "findM ?t ?l = Some r" by blast
  show ?thesis
  proof (cases r)
    case None
    have "neighbor_2_addr e \<noteq> a" if "two_hops db p = Some e" for p e
    proof
      assume a: "neighbor_2_addr e = a"
      have "p \<in> set ?l" using bucket_okD(1) [OF b] that a by simp
      with r None findM_None [of ?t] have "?t p = Some False" by blast
      with that a show False by simp
    qed
    with r None show ?thesis by (simp add: olsr_lookup_two_hop_neighbor_table_def)
  next
    case (Some p)
    with r findM_Some [of ?t ?l p] have tp: "?t p = Some True" by blast
    then obtain e2 where e2: "two_hops db p = Some e2" by (auto split: bind_splits)
    with tp al [of "neighbor_2_addr e2"] have "mid_lookup_main_addr a db = Some None \<longrightarrow> neighbor_2_addr e2 = a"
      by (auto split: if_splits)
    with r Some e2 show ?thesis by (simp add: olsr_lookup_two_hop_neighbor_table_def)
  qed
qed

section \<open>Deleting neighbours\<close>

lemma nb_inv_core: "nb_inv db \<Longrightarrow> nb_core db" and nb_inv_linked: "nb_inv db \<Longrightarrow> two_hops db p2 = Some e2 \<Longrightarrow> neighbor_2_nblist e2 \<noteq> []"
  by (auto simp: nb_inv_def)

text \<open>A two hop neighbour without the links through the neighbours in \<open>P\<close>.\<close>

definition without :: "ptr set \<Rightarrow> neighbor_2_entry option \<Rightarrow> neighbor_2_entry option" where
  "without P x = (case x of None \<Rightarrow> None | Some e2 \<Rightarrow>
     let xs = filter (\<lambda>x. neighbor x \<notin> P) (neighbor_2_nblist e2)
     in if xs = [] then None else Some (e2\<lparr>neighbor_2_nblist := xs, neighbor_2_pointer := of_nat (length xs)\<rparr>))"

lemma unlinked_simps:
  assumes "two_hops db (neighbor_2 nl) = Some e2"
  shows "neighbors (unlinked q nl db) = neighbors (unlink q nl db)" "nbr2_lists (unlinked q nl db) = (nbr2_lists db)(q := None)"
    "two_hops (unlinked q nl db) = (two_hops db)(neighbor_2 nl := without {nbr2_nbr nl} (Some e2))"
    "mid_set (unlinked q nl db) = mid_set db" "mid_entries (unlinked q nl db) = mid_entries db"
    "reverse_mid_set (unlinked q nl db) = reverse_mid_set db" "mid_addresses (unlinked q nl db) = mid_addresses db"
    "nb_next (unlinked q nl db) = nb_next db" "links (unlinked q nl db) = links db" "link_entry_head (unlinked q nl db) = link_entry_head db"
    "neighbortable (unlinked q nl db) = neighbortable db"
  using assms by (auto simp: unlinked_def without_def Let_def fun_eq_iff split: if_splits)

lemma fold_drop_links:
  assumes "nb_inv db" "neighbors db p = Some e" "neighbor_2_list e = qs"
  shows "\<exists>db'. foldM drop_link qs db = Some db' \<and> nb_inv db' \<and>
    neighbors db' = (neighbors db)(p \<mapsto> e\<lparr>neighbor_2_list := []\<rparr>) \<and>
    nbr2_lists db' = (\<lambda>q. if q \<in> set qs then None else nbr2_lists db q) \<and>
    two_hops db' = (\<lambda>p2. without {p} (two_hops db p2)) \<and>
    neighbortable db' = neighbortable db \<and> nb_next db' = nb_next db \<and> links db' = links db \<and> link_entry_head db' = link_entry_head db \<and>
    mid_set db' = mid_set db \<and> mid_entries db' = mid_entries db \<and> reverse_mid_set db' = reverse_mid_set db \<and> mid_addresses db' = mid_addresses db"
  using assms
proof (induction qs arbitrary: db e)
  case Nil
  note core = nb_inv_core [OF Nil.prems(1)]
  have "without {p} (two_hops db p2) = two_hops db p2" for p2
  proof (cases "two_hops db p2")
    case (Some e2)
    have "neighbor x \<noteq> p" if xin: "x \<in> set (neighbor_2_nblist e2)" for x
    proof
      assume x: "neighbor x = p"
      obtain q nl where "nbr2_lists db q = Some nl" "nbr2_nbr nl = p"
        using nb_core_nbr2D(2) [OF core Some xin] x by blast
      with nb_core_linkD [OF core] Nil.prems(2,3) show False by (metis empty_iff list.set(1) option.inject)
    qed
    hence "filter (\<lambda>x. neighbor x \<notin> {p}) (neighbor_2_nblist e2) = neighbor_2_nblist e2" by (simp add: filter_id_conv)
    with Some nb_core_nbr2D(3) [OF core Some] nb_inv_linked [OF Nil.prems(1) Some] show ?thesis
      by (simp add: without_def)
  qed (simp add: without_def)
  with Nil show ?case by (auto simp: fun_upd_idem)
next
  case (Cons q qs)
  note core = nb_inv_core [OF Cons.prems(1)]
  obtain nl where nl: "nbr2_lists db q = Some nl" "nbr2_nbr nl = p"
    using nb_core_nbrD(2) [OF core Cons.prems(2), of q] Cons.prems(3) by auto
  obtain e2 where e2: "two_hops db (neighbor_2 nl) = Some e2" by (rule nb_core_linkD [OF core nl(1)])
  let ?d = "unlinked q nl db"
  note us = unlinked_simps [OF e2]
  have dist: "q \<notin> set qs" using nb_core_nbrD(1) [OF core Cons.prems(2)] Cons.prems(3) by simp
  hence fq: "filter (\<lambda>x. x \<noteq> q) (q # qs) = qs" by (induction qs) auto
  have step: "drop_link q db = Some ?d" by (rule drop_link_eq [OF core nl(1)])
  have inv: "nb_inv ?d" by (rule inv_unlinked [OF Cons.prems(1) nl(1)])
  have p: "neighbors ?d p = Some (e\<lparr>neighbor_2_list := qs\<rparr>)" using Cons.prems(2,3) fq us(1) nl(2) by simp
  have others: "neighbors ?d p' = neighbors db p'" if "p' \<noteq> p" for p' using that nl(2) us(1) by simp
  have ih: "neighbor_2_list (e\<lparr>neighbor_2_list := qs\<rparr>) = qs" "e\<lparr>neighbor_2_list := qs\<rparr>\<lparr>neighbor_2_list := []\<rparr> = e\<lparr>neighbor_2_list := []\<rparr>"
    by simp_all
  from Cons.IH [OF inv p ih(1), unfolded ih(2)] obtain db' where db': "foldM drop_link qs ?d = Some db'" "nb_inv db'"
    "neighbors db' = (neighbors ?d)(p \<mapsto> e\<lparr>neighbor_2_list := []\<rparr>)"
    "nbr2_lists db' = (\<lambda>q. if q \<in> set qs then None else nbr2_lists ?d q)"
    "two_hops db' = (\<lambda>p2. without {p} (two_hops ?d p2))"
    "neighbortable db' = neighbortable ?d \<and> nb_next db' = nb_next ?d \<and> links db' = links ?d \<and> link_entry_head db' = link_entry_head ?d \<and>
     mid_set db' = mid_set ?d \<and> mid_entries db' = mid_entries ?d \<and> reverse_mid_set db' = reverse_mid_set ?d \<and> mid_addresses db' = mid_addresses ?d"
    by blast
  have "neighbors db' = (neighbors db)(p \<mapsto> e\<lparr>neighbor_2_list := []\<rparr>)" using db'(3) others by (auto simp: fun_eq_iff)
  moreover have "nbr2_lists db' = (\<lambda>x. if x \<in> set (q # qs) then None else nbr2_lists db x)" using db'(4) us(2) by (auto simp: fun_eq_iff)
  moreover have "two_hops db' = (\<lambda>p2. without {p} (two_hops db p2))"
    unfolding db'(5) us(3) nl(2) by (auto simp: fun_eq_iff without_def Let_def e2 split: option.splits)
  ultimately show ?case using step db'(1,2,6) us by auto
qed

text \<open>A neighbour without links can be freed.\<close>

lemma core_free_neighbor:
  assumes core: "nb_core db" and e: "neighbors db p = Some e" "neighbor_2_list e = []"
  shows "nb_core (free_neighbor p db)"
proof -
  note inv = nb_coreD [OF core]
  have nolink: "nbr2_nbr nl \<noteq> p" if "nbr2_lists db q = Some nl" for q nl
    using nb_core_linkD [OF core that] e by (metis empty_iff list.set(1) option.inject)
  have "nbr_side (free_neighbor p db)" using inv(1) by (simp add: nbr_side_def)
  moreover have "link_side (free_neighbor p db)" using inv(2) nolink unfolding link_side_def by auto
  moreover have "link_unique (free_neighbor p db)" using inv(3) by (simp add: link_unique_def)
  moreover have "nbr2_side (free_neighbor p db)" using inv(4) by (simp add: nbr2_side_def)
  moreover have "nbr_few (free_neighbor p db)"
  proof -
    have "dom (neighbors (free_neighbor p db)) = dom (neighbors db) - {p}" by (auto simp: dom_def)
    with inv(5) show ?thesis unfolding nbr_few_def by (metis card_Diff1_le finite_Diff le_less_trans)
  qed
  moreover have "tables_ok (free_neighbor p db)"
  proof -
    have "bucket_ok (neighbortable (free_neighbor p db))
       (\<lambda>p'. map_option (\<lambda>e. ip_hash (neighbor_main_addr e)) (neighbors (free_neighbor p db) p'))"
      using inv(6) unfolding tables_ok_def by (auto intro: bucket_cong [OF bucket_dequeue [of _ _ p]])
    with inv(6) show ?thesis unfolding tables_ok_def by simp
  qed
  moreover have "mid_ok (free_neighbor p db)" by (rule mid_ok_upd [OF inv(7)]) simp_all
  ultimately show ?thesis by (simp add: nb_core_def)
qed

lemma inv_free_neighbor: "nb_inv db \<Longrightarrow> neighbors db p = Some e \<Longrightarrow> neighbor_2_list e = [] \<Longrightarrow> nb_inv (free_neighbor p db)"
  using core_free_neighbor [of db p e] by (simp add: nb_inv_def)

lemma inv_flags [simp]:
  "nb_inv (db\<lparr>changes_neighborhood := b\<rparr>) = nb_inv db"
  "nb_inv (db\<lparr>changes_neighborhood := b, nb_changes_topology := c\<rparr>) = nb_inv db"
  "nb_inv (db\<lparr>changes_neighborhood := b, nb_changes_topology := c, link_changes := d\<rparr>) = nb_inv db"
  "nb_inv (db\<lparr>link_changes := d\<rparr>) = nb_inv db"
  "nb_core (db\<lparr>changes_neighborhood := b, nb_changes_topology := c\<rparr>) = nb_core db"
  by (simp_all add: nb_inv_def nb_core_def nbr_side_def link_side_def link_unique_def nbr2_side_def nbr_few_def tables_ok_def mid_ok_def)

lemma delete_neighbor_ok:
  assumes inv: "nb_inv db" and p: "olsr_lookup_neighbor_table_alias a db = Some (Some p)"
  shows "\<exists>db' e. neighbors db p = Some e \<and> olsr_delete_neighbor_table a db = Some (1, db') \<and> nb_inv db' \<and>
    neighbors db' = (neighbors db)(p := None) \<and>
    nbr2_lists db' = (\<lambda>q. if q \<in> set (neighbor_2_list e) then None else nbr2_lists db q) \<and>
    two_hops db' = (\<lambda>p2. without {p} (two_hops db p2)) \<and>
    changes_neighborhood db' \<and> nb_next db' = nb_next db \<and> links db' = links db \<and> link_entry_head db' = link_entry_head db \<and>
    mid_set db' = mid_set db \<and> mid_entries db' = mid_entries db \<and> reverse_mid_set db' = reverse_mid_set db \<and> mid_addresses db' = mid_addresses db"
proof -
  from lookup_alias_ok [OF nb_inv_core [OF inv], of a] p obtain e where e: "neighbors db p = Some e" by auto
  obtain d where d: "foldM drop_link (neighbor_2_list e) db = Some d" "nb_inv d"
    "neighbors d = (neighbors db)(p \<mapsto> e\<lparr>neighbor_2_list := []\<rparr>)"
    "nbr2_lists d = (\<lambda>q. if q \<in> set (neighbor_2_list e) then None else nbr2_lists db q)"
    "two_hops d = (\<lambda>p2. without {p} (two_hops db p2))" "nb_next d = nb_next db" "links d = links db" "link_entry_head d = link_entry_head db"
    "mid_set d = mid_set db" "mid_entries d = mid_entries db" "reverse_mid_set d = reverse_mid_set db" "mid_addresses d = mid_addresses db"
    using fold_drop_links [OF inv e refl] by blast
  have "nb_inv ((free_neighbor p d)\<lparr>changes_neighborhood := True\<rparr>)"
    using inv_free_neighbor [OF d(2), of p] d(3) by simp
  moreover have "neighbors (free_neighbor p d) = (neighbors db)(p := None)" using d(3) by (simp add: fun_eq_iff)
  ultimately show ?thesis using p e d by (simp add: olsr_delete_neighbor_table_def)
qed

section \<open>Deleting two hop neighbours\<close>

text \<open>
  While the loop of \<open>olsr_delete_two_hop_neighbor_table\<close> runs, the links of the entry are still
  listed; the state is consistent once the list is cut down to those not visited yet.
\<close>

definition cut :: "ptr \<Rightarrow> neighbor_list_entry list \<Rightarrow> neighborhood \<Rightarrow> neighborhood" where
  "cut p2 xs db = upd_nbr2 p2 (\<lambda>e2. e2\<lparr>neighbor_2_nblist := xs, neighbor_2_pointer := of_nat (length xs)\<rparr>) db"

lemma delete_pointer_step:
  assumes core: "nb_core (cut p2 (x # xs) db)" and e2: "two_hops db p2 = Some e2" "1 \<le> sint (neighbor_2_pointer e2)"
  shows "\<exists>db'. olsr_delete_neighbor_2_pointer (neighbor x) p2 db = Some (1, db') \<and> nb_core (cut p2 xs db') \<and>
    two_hops db' = two_hops db \<and> (\<forall>q. nbr2_lists db' q \<noteq> None \<longrightarrow> nbr2_lists db' q = nbr2_lists db q) \<and>
    (\<forall>p. map_option (neighbor_2_list_update (\<lambda>_. [])) (neighbors db' p) = map_option (neighbor_2_list_update (\<lambda>_. [])) (neighbors db p)) \<and>
    neighbortable db' = neighbortable db \<and> two_hop_neighbortable db' = two_hop_neighbortable db \<and>
    nb_next db' = nb_next db \<and> links db' = links db \<and> link_entry_head db' = link_entry_head db \<and>
    mid_set db' = mid_set db \<and> mid_entries db' = mid_entries db \<and> reverse_mid_set db' = reverse_mid_set db \<and> mid_addresses db' = mid_addresses db"
proof -
  let ?c = "cut p2 (x # xs) db"
  have c2: "two_hops ?c p2 = Some (e2\<lparr>neighbor_2_nblist := x # xs, neighbor_2_pointer := of_nat (length (x # xs))\<rparr>)"
    using e2 by (simp add: cut_def)
  have dist: "neighbor x \<notin> neighbor ` set xs" using nb_core_nbr2D(1) [OF core c2] by simp
  obtain q nl where q: "nbr2_lists db q = Some nl" "nbr2_nbr nl = neighbor x" "neighbor_2 nl = p2"
    using nb_core_nbr2D(2) [OF core c2, of x] by (auto simp: cut_def)
  have qc: "nbr2_lists ?c q = Some nl" using q by (simp add: cut_def)
  obtain e where e: "neighbors db (neighbor x) = Some e" "q \<in> set (neighbor_2_list e)"
    by (rule nb_core_linkD [OF core qc]) (use q in \<open>auto simp: cut_def\<close>)
  let ?t = "\<lambda>q. map_option (\<lambda>nl. neighbor_2 nl = p2) (nbr2_lists db q)"
  have ec: "neighbors ?c (neighbor x) = Some e" using e by (simp add: cut_def)
  have tot: "\<forall>q\<in>set (neighbor_2_list e). ?t q \<noteq> None"
    using nb_core_nbrD(2) [OF core ec] by (fastforce simp: cut_def)
  obtain r where r: "findM ?t (neighbor_2_list e) = Some r" using findM_total [OF tot] by blast
  have "r = Some q"
  proof (cases r)
    case None
    with r findM_None [of ?t] e(2) q show ?thesis by auto
  next
    case (Some q')
    with r findM_Some [of ?t] have q': "q' \<in> set (neighbor_2_list e)" "?t q' = Some True" by blast+
    from q'(1) nb_core_nbrD(2) [OF core ec] obtain nl' where "nbr2_lists ?c q' = Some nl'" "nbr2_nbr nl' = neighbor x" by blast
    with q'(2) q qc nb_coreD(3) [OF core] have "q' = q" unfolding link_unique_def by (auto simp: cut_def)
    with Some show ?thesis by simp
  qed
  hence f: "findM ?t (neighbor_2_list e) = Some (Some q)" using r by simp
  let ?d = "(upd_nbr (neighbor x) (\<lambda>e. e\<lparr>neighbor_2_list := filter (\<lambda>x. x \<noteq> q) (neighbor_2_list e)\<rparr>) db)
     \<lparr>nbr2_lists := (nbr2_lists db)(q := None), changes_neighborhood := True, nb_changes_topology := True\<rparr>"
  have del: "olsr_delete_neighbor_2_pointer (neighbor x) p2 db = Some (1, ?d)"
    unfolding olsr_delete_neighbor_2_pointer_def olsr_del_nbr2_list_def using e f q e2 by simp
  have fx: "filter (\<lambda>y. neighbor y \<noteq> neighbor x) (x # xs) = xs"
    using dist by (simp add: filter_id_conv) (metis imageI)
  have "unlink q nl ?c = cut p2 xs ?d"
    by (rule neighborhood_eqI) (use q fx e2 in \<open>simp_all add: cut_def upd_nbr_def upd_nbr2_def unlink_def\<close>)
  hence "nb_core (cut p2 xs ?d)" using core_unlink [OF core qc] by simp
  with del show ?thesis by (intro exI [of _ ?d]) (auto simp: option.map_comp comp_def)
qed

lemma delete_pointers:
  assumes "nb_core (cut p2 xs db)" "two_hops db p2 = Some e2" "1 \<le> sint (neighbor_2_pointer e2)"
  shows "\<exists>db'. foldM (\<lambda>x db. map_option snd (olsr_delete_neighbor_2_pointer (neighbor x) p2 db)) xs db = Some db' \<and>
    nb_core (cut p2 [] db') \<and> two_hops db' = two_hops db \<and> (\<forall>q. nbr2_lists db' q \<noteq> None \<longrightarrow> nbr2_lists db' q = nbr2_lists db q) \<and>
    (\<forall>p. map_option (neighbor_2_list_update (\<lambda>_. [])) (neighbors db' p) = map_option (neighbor_2_list_update (\<lambda>_. [])) (neighbors db p)) \<and>
    neighbortable db' = neighbortable db \<and> two_hop_neighbortable db' = two_hop_neighbortable db \<and>
    nb_next db' = nb_next db \<and> links db' = links db \<and> link_entry_head db' = link_entry_head db \<and>
    mid_set db' = mid_set db \<and> mid_entries db' = mid_entries db \<and> reverse_mid_set db' = reverse_mid_set db \<and> mid_addresses db' = mid_addresses db"
  using assms
proof (induction xs arbitrary: db)
  case (Cons x xs)
  obtain d where d: "olsr_delete_neighbor_2_pointer (neighbor x) p2 db = Some (1, d)" "nb_core (cut p2 xs d)" "two_hops d = two_hops db"
    "\<forall>q. nbr2_lists d q \<noteq> None \<longrightarrow> nbr2_lists d q = nbr2_lists db q"
    "\<forall>p. map_option (neighbor_2_list_update (\<lambda>_. [])) (neighbors d p) = map_option (neighbor_2_list_update (\<lambda>_. [])) (neighbors db p)"
    "neighbortable d = neighbortable db \<and> two_hop_neighbortable d = two_hop_neighbortable db \<and>
     nb_next d = nb_next db \<and> links d = links db \<and> link_entry_head d = link_entry_head db \<and>
     mid_set d = mid_set db \<and> mid_entries d = mid_entries db \<and> reverse_mid_set d = reverse_mid_set db \<and> mid_addresses d = mid_addresses db"
    using delete_pointer_step [OF Cons.prems] by blast
  have "two_hops d p2 = Some e2" using d(3) Cons.prems(2) by simp
  from Cons.IH [OF d(2) this Cons.prems(3)] obtain d' where d': "foldM (\<lambda>x db. map_option snd (olsr_delete_neighbor_2_pointer (neighbor x) p2 db)) xs d = Some d'"
    "nb_core (cut p2 [] d')" "two_hops d' = two_hops d" "\<forall>q. nbr2_lists d' q \<noteq> None \<longrightarrow> nbr2_lists d' q = nbr2_lists d q"
    "\<forall>p. map_option (neighbor_2_list_update (\<lambda>_. [])) (neighbors d' p) = map_option (neighbor_2_list_update (\<lambda>_. [])) (neighbors d p)"
    "neighbortable d' = neighbortable d \<and> two_hop_neighbortable d' = two_hop_neighbortable d \<and>
     nb_next d' = nb_next d \<and> links d' = links d \<and> link_entry_head d' = link_entry_head d \<and>
     mid_set d' = mid_set d \<and> mid_entries d' = mid_entries d \<and> reverse_mid_set d' = reverse_mid_set d \<and> mid_addresses d' = mid_addresses d"
    by blast
  have "\<forall>q. nbr2_lists d' q \<noteq> None \<longrightarrow> nbr2_lists d' q = nbr2_lists db q" using d(4) d'(4) by metis
  thus ?case using d d' by (intro exI [of _ d']) simp
qed simp

lemma delete_two_hop_ok:
  assumes inv: "nb_inv db" and e2: "two_hops db p2 = Some e2"
  shows "\<exists>db'. olsr_delete_two_hop_neighbor_table p2 db = Some db' \<and> nb_inv db' \<and> two_hops db' = (two_hops db)(p2 := None) \<and>
    (\<forall>q. nbr2_lists db' q \<noteq> None \<longrightarrow> nbr2_lists db' q = nbr2_lists db q) \<and>
    (\<forall>p. map_option (neighbor_2_list_update (\<lambda>_. [])) (neighbors db' p) = map_option (neighbor_2_list_update (\<lambda>_. [])) (neighbors db p)) \<and>
    neighbortable db' = neighbortable db \<and> nb_next db' = nb_next db \<and> links db' = links db \<and> link_entry_head db' = link_entry_head db \<and>
    mid_set db' = mid_set db \<and> mid_entries db' = mid_entries db \<and> reverse_mid_set db' = reverse_mid_set db \<and> mid_addresses db' = mid_addresses db"
proof -
  note core = nb_inv_core [OF inv]
  have ptr: "neighbor_2_pointer e2 = of_nat (length (neighbor_2_nblist e2))" by (rule nb_core_nbr2D(3) [OF core e2])
  have "\<not> sint (neighbor_2_pointer e2) < 1" unfolding ptr
    using sint_count [OF nblist_short [OF core e2]] nb_inv_linked [OF inv e2] by simp
  hence pos: "1 \<le> sint (neighbor_2_pointer e2)" by simp
  have "cut p2 (neighbor_2_nblist e2) db = db"
    by (rule neighborhood_eqI) (use e2 ptr in \<open>simp_all add: cut_def upd_nbr2_def\<close>)
  hence "nb_core (cut p2 (neighbor_2_nblist e2) db)" using core by simp
  from delete_pointers [OF this e2 pos] obtain d where
    d: "foldM (\<lambda>x db. map_option snd (olsr_delete_neighbor_2_pointer (neighbor x) p2 db)) (neighbor_2_nblist e2) db = Some d"
    "nb_core (cut p2 [] d)" "two_hops d = two_hops db" "\<forall>q. nbr2_lists d q \<noteq> None \<longrightarrow> nbr2_lists d q = nbr2_lists db q"
    "\<forall>p. map_option (neighbor_2_list_update (\<lambda>_. [])) (neighbors d p) = map_option (neighbor_2_list_update (\<lambda>_. [])) (neighbors db p)"
    "neighbortable d = neighbortable db \<and> nb_next d = nb_next db \<and> links d = links db \<and> link_entry_head d = link_entry_head db \<and>
     mid_set d = mid_set db \<and> mid_entries d = mid_entries db \<and> reverse_mid_set d = reverse_mid_set db \<and> mid_addresses d = mid_addresses db"
    by blast
  have "free_two_hop p2 (cut p2 [] d) = free_two_hop p2 d"
    by (rule neighborhood_eqI) (simp_all add: cut_def free_two_hop_def upd_nbr2_def)
  moreover have "nb_core (free_two_hop p2 (cut p2 [] d))"
    by (rule core_free_two_hop [OF d(2), of _ "e2\<lparr>neighbor_2_nblist := [], neighbor_2_pointer := 0\<rparr>"])
      (use d(3) e2 in \<open>simp_all add: cut_def\<close>)
  ultimately have fc: "nb_core (free_two_hop p2 d)" by simp
  have th: "two_hops (free_two_hop p2 d) = (two_hops db)(p2 := None)" using d(3) by (simp add: fun_eq_iff)
  have "nb_inv (free_two_hop p2 d)" unfolding nb_inv_def th using fc nb_inv_linked [OF inv] by (simp add: fun_upd_def)
  thus ?thesis using d e2 th by (intro exI [of _ "free_two_hop p2 d"]) (simp add: olsr_delete_two_hop_neighbor_table_def)
qed

section \<open>Adding neighbours and links\<close>

lemma tables_fresh:
  assumes "nb_core db"
  shows "neighbors db (nb_next db) = None" "nbr2_lists db (nb_next db) = None" "two_hops db (nb_next db) = None"
    "bucket_ok (neighbortable db) (\<lambda>p. map_option (\<lambda>e. ip_hash (neighbor_main_addr e)) (neighbors db p))"
    "bucket_ok (two_hop_neighbortable db) (\<lambda>p. map_option (\<lambda>e. ip_hash (neighbor_2_addr e)) (two_hops db p))"
    "neighbors db p \<noteq> None \<Longrightarrow> p < nb_next db" "two_hops db p \<noteq> None \<Longrightarrow> p < nb_next db" "nbr2_lists db p \<noteq> None \<Longrightarrow> p < nb_next db"
  using nb_coreD(6) [OF assms] unfolding tables_ok_def by (auto simp: not_less [symmetric])

lemma insert_neighbor_core:
  fixes a :: olsr_ip_addr
  assumes core: "nb_core db" and few: "card (dom (neighbors db)) + 1 < 2 ^ 15"
  defines "d \<equiv> db\<lparr>neighbors := (neighbors db)(nb_next db \<mapsto> new_neighbor a),
                neighbortable := queue_elem (ip_hash a) (nb_next db) (neighbortable db), nb_next := nb_next db + 1\<rparr>"
  shows "nb_core d"
proof -
  note inv = nb_coreD [OF core] and fresh = tables_fresh [OF core]
  have n: "nbr2_nbr nl \<noteq> nb_next db" if "nbr2_lists db q = Some nl" for q nl
    using nb_core_linkD [OF core that] fresh(1) by (metis option.distinct(1))
  have "nbr_side d" using inv(1) by (auto simp: nbr_side_def d_def new_neighbor_def)
  moreover have "link_side d" using inv(2) n by (auto simp: link_side_def d_def)
  moreover have "link_unique d" using inv(3) by (simp add: link_unique_def d_def)
  moreover have "nbr2_side d" using inv(4) by (simp add: nbr2_side_def d_def)
  moreover have "nbr_few d"
  proof -
    have "dom (neighbors d) = insert (nb_next db) (dom (neighbors db))" by (auto simp: d_def)
    with inv(5) few show ?thesis unfolding nbr_few_def by (metis card_insert_le_m1 card_insert_if finite_insert le_less_trans add.commute plus_1_eq_Suc less_imp_le not_less)
  qed
  moreover have "tables_ok d"
  proof -
    have "bucket_ok (neighbortable d) (\<lambda>p. map_option (\<lambda>e. ip_hash (neighbor_main_addr e)) (neighbors d p))"
      using bucket_queue [OF fresh(4), of "nb_next db" "ip_hash a"] fresh(1)
      by (auto simp: d_def new_neighbor_def intro: bucket_cong)
    with inv(6) show ?thesis unfolding tables_ok_def by (auto simp: d_def)
  qed
  moreover have "mid_ok d" by (rule mid_ok_upd [OF inv(7)]) (simp_all add: d_def)
  ultimately show ?thesis by (simp add: nb_core_def)
qed

lemma insert_neighbor_ok:
  assumes inv: "nb_inv db" and few: "card (dom (neighbors db)) + 1 < 2 ^ 15"
  shows "\<exists>p db' e. olsr_insert_neighbor_table a db = Some (p, db') \<and> nb_inv db' \<and> neighbors db' p = Some e \<and>
    neighbor_main_addr e = a \<and> two_hops db' = two_hops db \<and> nbr2_lists db' = nbr2_lists db \<and>
    (\<forall>p'. p' \<noteq> p \<longrightarrow> neighbors db' p' = neighbors db p') \<and> (neighbors db p \<noteq> None \<longrightarrow> db' = db) \<and> same_mid db db'"
proof -
  note core = nb_inv_core [OF inv]
  obtain r where r: "olsr_lookup_neighbor_table_alias a db = Some r"
    "case r of None \<Rightarrow> True | Some p \<Rightarrow> \<exists>e. neighbors db p = Some e \<and> neighbor_main_addr e = a"
    using lookup_alias_ok [OF core, of a] by (fastforce split: option.splits)
  show ?thesis
  proof (cases r)
    case (Some p)
    with r inv show ?thesis by (auto simp: olsr_insert_neighbor_table_def)
  next
    case None
    have "nb_inv (db\<lparr>neighbors := (neighbors db)(nb_next db \<mapsto> new_neighbor a),
                neighbortable := queue_elem (ip_hash a) (nb_next db) (neighbortable db), nb_next := nb_next db + 1\<rparr>)"
      using insert_neighbor_core [OF core few, of a] nb_inv_linked [OF inv] by (simp add: nb_inv_def)
    with None r show ?thesis
      using tables_fresh(1) [OF core] by (simp add: olsr_insert_neighbor_table_def Let_def new_neighbor_def same_mid_def)
  qed
qed

lemma linking_core:
  assumes core: "nb_core db" and e: "neighbors db p = Some e" and e2: "two_hops db p2 = Some e2"
    and new: "\<forall>q nl. nbr2_lists db q = Some nl \<longrightarrow> \<not> (nbr2_nbr nl = p \<and> neighbor_2 nl = p2)"
  shows "\<exists>db'. linking_this_2_entries p p2 vtime db = Some db' \<and> nb_core db' \<and>
    neighbors db' = (neighbors db)(p \<mapsto> e\<lparr>neighbor_2_list := nb_next db # neighbor_2_list e\<rparr>) \<and>
    two_hops db' = (two_hops db)(p2 \<mapsto> e2\<lparr>neighbor_2_nblist := \<lparr>neighbor = p, second_hop_linkcost = LINK_COST_BROKEN,
        path_linkcost = LINK_COST_BROKEN, saved_path_linkcost = LINK_COST_BROKEN\<rparr> # neighbor_2_nblist e2,
        neighbor_2_pointer := neighbor_2_pointer e2 + 1\<rparr>) \<and>
    nbr2_lists db' = (nbr2_lists db)(nb_next db \<mapsto> \<lparr>nbr2_nbr = p, neighbor_2 = p2, nbr2_list_timer = None\<rparr>) \<and>
    neighbortable db' = neighbortable db \<and> nb_next db' = nb_next db + 1 \<and>
    mid_set db' = mid_set db \<and> mid_entries db' = mid_entries db \<and> reverse_mid_set db' = reverse_mid_set db \<and> mid_addresses db' = mid_addresses db \<and>
    changes_neighborhood db' = changes_neighborhood db \<and> nb_changes_topology db' = nb_changes_topology db \<and> links db' = links db \<and>
    link_entry_head db' = link_entry_head db \<and> link_changes db' = link_changes db"
proof -
  note inv = nb_coreD [OF core] and fresh = tables_fresh [OF core]
  let ?x = "\<lparr>neighbor = p, second_hop_linkcost = LINK_COST_BROKEN, path_linkcost = LINK_COST_BROKEN, saved_path_linkcost = LINK_COST_BROKEN\<rparr>"
  let ?e = "e\<lparr>neighbor_2_list := nb_next db # neighbor_2_list e\<rparr>"
  let ?f = "e2\<lparr>neighbor_2_nblist := ?x # neighbor_2_nblist e2, neighbor_2_pointer := neighbor_2_pointer e2 + 1\<rparr>"
  let ?n = "\<lparr>nbr2_nbr = p, neighbor_2 = p2, nbr2_list_timer = None\<rparr>"
  define d where "d = db\<lparr>neighbors := (neighbors db)(p \<mapsto> ?e), two_hops := (two_hops db)(p2 \<mapsto> ?f),
     nbr2_lists := (nbr2_lists db)(nb_next db \<mapsto> ?n), nb_next := nb_next db + 1\<rparr>"
  have step: "linking_this_2_entries p p2 vtime db = Some d"
    using e e2 by (simp add: linking_this_2_entries_def upd_nbr_def upd_nbr2_def d_def Let_def)
  have nq: "nb_next db \<notin> set (neighbor_2_list e')" if "neighbors db p' = Some e'" for p' e'
    using nb_core_nbrD(2) [OF core that, of "nb_next db"] fresh(2) by auto
  have np: "p \<notin> neighbor ` set (neighbor_2_nblist e2)"
    using nb_core_nbr2D(2) [OF core e2] new by (metis imageE)
  have "nbr_side d" using inv(1) e nq unfolding nbr_side_def d_def by (auto split: if_splits)
  moreover have "link_side d"
    unfolding link_side_def
  proof (intro allI impI)
    fix q nl assume q: "nbr2_lists d q = Some nl"
    show "(\<exists>e. neighbors d (nbr2_nbr nl) = Some e \<and> q \<in> set (neighbor_2_list e)) \<and>
       (\<exists>e2. two_hops d (neighbor_2 nl) = Some e2 \<and> nbr2_nbr nl \<in> neighbor ` set (neighbor_2_nblist e2))"
    proof (cases "q = nb_next db")
      case True
      with q show ?thesis by (auto simp: d_def)
    next
      case False
      with q have "nbr2_lists db q = Some nl" by (simp add: d_def)
      from nb_core_linkD [OF core this] obtain e' e2' where "neighbors db (nbr2_nbr nl) = Some e'" "q \<in> set (neighbor_2_list e')"
        "two_hops db (neighbor_2 nl) = Some e2'" "nbr2_nbr nl \<in> neighbor ` set (neighbor_2_nblist e2')" by blast
      with e e2 show ?thesis by (auto simp: d_def)
    qed
  qed
  moreover have "link_unique d" using inv(3) new unfolding link_unique_def d_def by (auto split: if_splits)
  moreover have "nbr2_side d"
    unfolding nbr2_side_def
  proof (intro allI impI)
    fix p2' f assume f: "two_hops d p2' = Some f"
    have keep: "\<exists>q nl. nbr2_lists d q = Some nl \<and> nbr2_nbr nl = neighbor x \<and> neighbor_2 nl = p2'"
      if "two_hops db p2' = Some f'" "x \<in> set (neighbor_2_nblist f')" for f' x
    proof -
      from nb_core_nbr2D(2) [OF core that] obtain q nl where "nbr2_lists db q = Some nl" "nbr2_nbr nl = neighbor x" "neighbor_2 nl = p2'" by blast
      moreover from this fresh(2) have "q \<noteq> nb_next db" by auto
      ultimately show ?thesis by (auto simp: d_def)
    qed
    show "distinct (map neighbor (neighbor_2_nblist f)) \<and>
       (\<forall>x\<in>set (neighbor_2_nblist f). \<exists>q nl. nbr2_lists d q = Some nl \<and> nbr2_nbr nl = neighbor x \<and> neighbor_2 nl = p2') \<and>
       neighbor_2_pointer f = of_nat (length (neighbor_2_nblist f))"
    proof (cases "p2' = p2")
      case True
      with f have f': "f = ?f" by (simp add: d_def)
      have "\<exists>q nl. nbr2_lists d q = Some nl \<and> nbr2_nbr nl = p \<and> neighbor_2 nl = p2" by (auto simp: d_def)
      with True keep [of e2] e2 nb_core_nbr2D [OF core e2] np show ?thesis unfolding f' by auto
    next
      case False
      with f have f': "two_hops db p2' = Some f" by (simp add: d_def)
      show ?thesis using nb_core_nbr2D [OF core f'] keep [OF f'] by blast
    qed
  qed
  moreover have "nbr_few d" by (rule nbr_few_upd [OF inv(5)]) (use e in \<open>simp add: d_def\<close>)
  moreover have "tables_ok d"
  proof -
    have k: "map_option (\<lambda>e. ip_hash (neighbor_main_addr e)) (neighbors d q) = map_option (\<lambda>e. ip_hash (neighbor_main_addr e)) (neighbors db q)"
      "map_option (\<lambda>e. ip_hash (neighbor_2_addr e)) (two_hops d q) = map_option (\<lambda>e. ip_hash (neighbor_2_addr e)) (two_hops db q)"
      "map_option neighbor_2_addr (two_hops d q) = map_option neighbor_2_addr (two_hops db q)" for q
      using e e2 by (simp_all add: d_def)
    have "p < nb_next db" "p2 < nb_next db" using fresh(6) [of p] fresh(7) [of p2] e e2 by auto
    with inv(6) show ?thesis unfolding tables_ok_def k using e2 by (auto simp: d_def split: if_splits)
  qed
  moreover have "mid_ok d" by (rule mid_ok_upd [OF inv(7)]) (simp_all add: d_def)
  ultimately have "nb_core d" by (simp add: nb_core_def)
  with step show ?thesis by (intro exI [of _ d]) (simp add: d_def)
qed

section \<open>Status, address and expiry\<close>

lemma same_shape_nbr:
  "(\<And>e. neighbor_main_addr (f e) = neighbor_main_addr e \<and> neighbor_2_list (f e) = neighbor_2_list e) \<Longrightarrow> same_shape db (upd_nbr p f db)"
  by (simp add: same_shape_def option.map_comp comp_def)

lemma same_shape_nbr2:
  "(\<And>e. neighbor_2_addr (f e) = neighbor_2_addr e \<and> neighbor_2_pointer (f e) = neighbor_2_pointer e \<and>
      map neighbor (neighbor_2_nblist (f e)) = map neighbor (neighbor_2_nblist e)) \<Longrightarrow> same_shape db (upd_nbr2 p f db)"
  by (simp add: same_shape_def option.map_comp comp_def)

lemma update_status_ok:
  assumes inv: "nb_inv db" and e: "neighbors db p = Some e"
  shows "\<exists>s db'. update_neighbor_status cnf p lnk db = Some (s, db') \<and> nb_inv db' \<and>
    s = (if lnk = SYM_LINK then SYM else NOT_SYM) \<and> map_option status (neighbors db' p) = Some s \<and>
    (status e \<noteq> s \<longrightarrow> status e \<in> {SYM, NOT_SYM} \<longrightarrow> changes_neighborhood db' \<and> nb_changes_topology db') \<and>
    same_mid db db' \<and> (\<forall>p'. neighbors db' p' = None \<longleftrightarrow> neighbors db p' = None)"
proof (cases "lnk = SYM_LINK")
  case False
  let ?d = "if status e = SYM then db\<lparr>changes_neighborhood := True, nb_changes_topology := True,
                     link_changes := (link_changes db \<or> tc_redundancy cnf > 1)\<rparr> else db"
  have "nb_inv ?d" using inv by simp
  hence "nb_inv (upd_nbr p (\<lambda>e. e\<lparr>status := NOT_SYM\<rparr>) ?d)" by (rule inv_same_shape) (rule same_shape_nbr, simp)
  with False e show ?thesis by (auto simp: update_neighbor_status_def upd_nbr_def same_mid_def)
next
  case True
  show ?thesis
  proof (cases "status e = NOT_SYM")
    case False
    have "nb_inv (upd_nbr p (\<lambda>e. e\<lparr>status := SYM\<rparr>) db)" by (rule inv_same_shape [OF inv]) (rule same_shape_nbr, simp)
    with True False e show ?thesis by (auto simp: update_neighbor_status_def same_mid_def)
  next
    case ns: True
    note core = nb_inv_core [OF inv]
    obtain r where r: "olsr_lookup_two_hop_neighbor_table (neighbor_main_addr e) db = Some r"
      "case r of None \<Rightarrow> True | Some p2 \<Rightarrow> \<exists>e2. two_hops db p2 = Some e2"
      using lookup_two_hop_ok [OF core, of "neighbor_main_addr e"] by (fastforce split: option.splits)
    have "\<exists>d. (case r of None \<Rightarrow> Some db | Some p2 \<Rightarrow> olsr_delete_two_hop_neighbor_table p2 db) = Some d \<and> nb_inv d \<and>
        same_mid db d \<and> (\<forall>p'. neighbors d p' = None \<longleftrightarrow> neighbors db p' = None)"
    proof (cases r)
      case (Some p2)
      with r obtain e2 where e2: "two_hops db p2 = Some e2" by auto
      from delete_two_hop_ok [OF inv e2] obtain d where d: "olsr_delete_two_hop_neighbor_table p2 db = Some d" "nb_inv d" "same_mid db d"
        "\<And>p. map_option (neighbor_2_list_update (\<lambda>_. [])) (neighbors d p) = map_option (neighbor_2_list_update (\<lambda>_. [])) (neighbors db p)"
        unfolding same_mid_def by blast
      with Some neighbors_kept [OF d(4)] show ?thesis by auto
    qed (use inv e in auto)
    then obtain d where d: "(case r of None \<Rightarrow> Some db | Some p2 \<Rightarrow> olsr_delete_two_hop_neighbor_table p2 db) = Some d" "nb_inv d"
      "same_mid db d" "\<forall>p'. neighbors d p' = None \<longleftrightarrow> neighbors db p' = None"
      by blast
    let ?d = "d\<lparr>changes_neighborhood := True, nb_changes_topology := True, link_changes := (link_changes d \<or> tc_redundancy cnf > 1)\<rparr>"
    have "nb_inv ?d" using d(2) by simp
    hence "nb_inv (upd_nbr p (\<lambda>e. e\<lparr>status := SYM\<rparr>) ?d)" by (rule inv_same_shape) (rule same_shape_nbr, simp)
    moreover have "update_neighbor_status cnf p lnk db = Some (SYM, upd_nbr p (\<lambda>e. e\<lparr>status := SYM\<rparr>) ?d)"
      using True ns e r d(1) by (simp add: update_neighbor_status_def)
    moreover obtain e' where "neighbors d p = Some e'" using d(4) e by (metis not_Some_eq)
    ultimately show ?thesis using True d(3,4) e by (auto simp: upd_nbr_def same_mid_def)
  qed
qed

lemma expire_nbr2_ok:
  assumes inv: "nb_inv db" and q: "nbr2_lists db q = Some nl"
  shows "\<exists>db'. olsr_expire_nbr2_list q db = Some db' \<and> nb_inv db' \<and> nbr2_lists db' = (nbr2_lists db)(q := None) \<and>
    two_hops db' = (two_hops db)(neighbor_2 nl := without {nbr2_nbr nl} (two_hops db (neighbor_2 nl))) \<and>
    same_mid db db' \<and> (\<forall>p'. neighbors db' p' = None \<longleftrightarrow> neighbors db p' = None)"
proof -
  let ?n = "nl\<lparr>nbr2_list_timer := None\<rparr>"
  let ?d = "db\<lparr>nbr2_lists := (nbr2_lists db)(q \<mapsto> ?n)\<rparr>"
  have "same_shape db ?d" using q by (simp add: same_shape_def)
  hence i: "nb_inv ?d" by (rule inv_same_shape [OF inv])
  have qd: "nbr2_lists ?d q = Some ?n" by simp
  obtain e2 where e2: "two_hops ?d (neighbor_2 ?n) = Some e2" by (rule nb_core_linkD [OF nb_inv_core [OF i] qd])
  have "drop_link q ?d = Some (unlinked q ?n ?d)" by (rule drop_link_eq [OF nb_inv_core [OF i] qd])
  moreover have "nb_inv (unlinked q ?n ?d)" by (rule inv_unlinked [OF i qd])
  moreover have "\<forall>p'. neighbors (unlinked q ?n ?d) p' = None \<longleftrightarrow> neighbors db p' = None" unfolding unlinked_simps(1) [OF e2] by simp
  moreover have "same_mid db (unlinked q ?n ?d)" using unlinked_simps(4-10) [OF e2] by (simp add: same_mid_def)
  ultimately show ?thesis using q e2 unlinked_simps(2,3) [OF e2] by (simp add: olsr_expire_nbr2_list_def)
qed

lemma update_main_addr_ok:
  assumes inv: "nb_inv db" and e: "neighbors db p = Some e"
  shows "\<exists>db'. olsr_update_neighbor_main_addr p a db = Some db' \<and> nb_inv db' \<and> neighbors db' = (neighbors db)(p \<mapsto> e\<lparr>neighbor_main_addr := a\<rparr>) \<and>
    two_hops db' = two_hops db \<and> nbr2_lists db' = nbr2_lists db"
proof -
  note core = nb_inv_core [OF inv]
  let ?d = "db\<lparr>neighbors := (neighbors db)(p \<mapsto> e\<lparr>neighbor_main_addr := a\<rparr>),
     neighbortable := queue_elem (ip_hash a) p (dequeue_elem p (neighbortable db))\<rparr>"
  have "nbr_side ?d" using nb_coreD(1) [OF core] e by (auto simp: nbr_side_def)
  moreover have "link_side ?d" using nb_coreD(2) [OF core] e unfolding link_side_def by auto (metis option.inject)
  moreover have "link_unique ?d" "nbr2_side ?d" using nb_coreD(3,4) [OF core] by (simp_all add: link_unique_def nbr2_side_def)
  moreover have "nbr_few ?d" by (rule nbr_few_upd [OF nb_coreD(5) [OF core]]) (use e in simp)
  moreover have "mid_ok ?d" by (rule mid_ok_upd [OF nb_coreD(7) [OF core]]) simp_all
  moreover have "tables_ok ?d"
  proof -
    have "bucket_ok (neighbortable ?d) (\<lambda>p'. map_option (\<lambda>e. ip_hash (neighbor_main_addr e)) (neighbors ?d p'))"
      using bucket_queue [OF bucket_dequeue [OF tables_fresh(4) [OF core], of p], of p "ip_hash a"] e
      by (auto intro: bucket_cong)
    moreover have "p < nb_next db" using tables_fresh(6) [OF core, of p] e by simp
    ultimately show ?thesis using nb_coreD(6) [OF core] unfolding tables_ok_def by auto
  qed
  ultimately have "nb_inv ?d" using nb_inv_linked [OF inv] by (simp add: nb_inv_def nb_core_def)
  thus ?thesis using e by (intro exI [of _ ?d]) (simp add: olsr_update_neighbor_main_addr_def upd_nbr_def Let_def)
qed

end
