(* ===== verification/Olsr_Hello.thy ===== *)
theory Olsr_Hello
  imports Olsr_Neighbor_Ops
begin

text \<open>
  The state of links (\<open>lookup_link_status\<close>, \<open>get_best_link_to_neighbor\<close> and the other look-ups of
  \<^verbatim>\<open>src/link_set.c\<close>) and the part of the processing of HELLO messages that builds the two hop
  neighbourhood (\<open>process_message_neighbors\<close> of \<^verbatim>\<open>src/process_package.c\<close>). The tables implement a
  relation between neighbours and the addresses they announce; every operation is described by
  what it does to that relation.
\<close>

section \<open>Links\<close>

definition ASYM_LINK :: u8 where "ASYM_LINK = 1"
definition LOST_LINK :: u8 where "LOST_LINK = 3"
definition HIDE_LINK :: u8 where "HIDE_LINK = 4"
definition MAX_IF_METRIC :: int where "MAX_IF_METRIC = 100"

definition lookup_link_status :: "nb_config \<Rightarrow> u32 \<Rightarrow> ptr option \<Rightarrow> neighborhood \<Rightarrow> u8 option" where
  "lookup_link_status cnf now entry db =
     (case entry of
        None \<Rightarrow> Some UNSPEC_LINK
      | Some l \<Rightarrow>
          if link_entry_head db = [] then Some UNSPEC_LINK
          else do {
            lk \<leftarrow> links db l;
            Some (if use_hysteresis cnf \<and> \<not> olsr_isTimedOut now (L_LOST_LINK_time lk) then LOST_LINK
                  else if use_hysteresis cnf \<and> L_link_pending lk = 1 then HIDE_LINK
                  else if link_sym_timer lk \<noteq> None then SYM_LINK
                  else if \<not> olsr_isTimedOut now (ASYM_time lk) then ASYM_LINK
                  else LOST_LINK)
          })"

text \<open>The address of an interface is the one in \<open>int_addr\<close> or \<open>int6_addr\<close>, by the IP version.\<close>

definition if_ifwithaddr :: "nb_config \<Rightarrow> olsr_ip_addr \<Rightarrow> interface option" where
  "if_ifwithaddr cnf a = List.find (\<lambda>ifp. ipequal (ip_addr ifp) a) (ifnet cnf)"

definition if_ifwithname :: "nb_config \<Rightarrow> string \<Rightarrow> interface option" where
  "if_ifwithname cnf n = List.find (\<lambda>ifp. int_name ifp = Some n) (ifnet cnf)"

definition check_neighbor_link :: "nb_config \<Rightarrow> u32 \<Rightarrow> olsr_ip_addr \<Rightarrow> neighborhood \<Rightarrow> u8 option" where
  "check_neighbor_link cnf now int_addr db = do {
     found \<leftarrow> findM (\<lambda>l. map_option (\<lambda>lk. ipequal int_addr (neighbor_iface_addr lk)) (links db l)) (link_entry_head db);
     case found of
       None \<Rightarrow> Some UNSPEC_LINK
     | Some l \<Rightarrow> lookup_link_status cnf now (Some l) db
   }"

text \<open>The variables of the loop of \<open>get_best_link_to_neighbor\<close>.\<close>

record best_link =
  curr_metric :: int
  curr_lcost :: olsr_linkcost
  good_link :: "ptr option"
  backup_link :: "ptr option"

definition take_link :: "nb_config \<Rightarrow> u32 \<Rightarrow> neighborhood \<Rightarrow> ptr \<Rightarrow> best_link \<Rightarrow> best_link option" where
  "take_link cnf now db l b = do {
     s \<leftarrow> lookup_link_status cnf now (Some l) db;
     Some (if s = SYM_LINK then b\<lparr>good_link := Some l\<rparr> else b\<lparr>backup_link := Some l\<rparr>)
   }"

definition best_link_step :: "nb_config \<Rightarrow> u32 \<Rightarrow> olsr_ip_addr \<Rightarrow> olsr_ip_addr \<Rightarrow> neighborhood \<Rightarrow> ptr \<Rightarrow> best_link \<Rightarrow> best_link option" where
  "best_link_step cnf now remote main db l b = do {
     walker \<leftarrow> links db l;
     e \<leftarrow> neighbors db (link_neighbor walker);
     if \<not> ipequal (neighbor_main_addr e) main then Some b
     else if lq_level cnf = 0 then
       (case (case if_name walker of Some n \<Rightarrow> if_ifwithname cnf n | None \<Rightarrow> if_ifwithaddr cnf (local_iface_addr walker)) of
          None \<Rightarrow> Some b
        | Some tmp_if \<Rightarrow>
            if int_metric tmp_if < curr_metric b \<or> int_metric tmp_if = curr_metric b \<and> ipequal (local_iface_addr walker) remote
            then take_link cnf now db l (b\<lparr>curr_metric := int_metric tmp_if\<rparr>)
            else Some b)
     else
       (let tmp_lc = linkcost walker in
        if tmp_lc < curr_lcost b \<or> tmp_lc = curr_lcost b \<and> ipequal (local_iface_addr walker) remote
        then take_link cnf now db l (b\<lparr>curr_lcost := tmp_lc\<rparr>)
        else Some b)
   }"

definition get_best_link_to_neighbor :: "nb_config \<Rightarrow> u32 \<Rightarrow> olsr_ip_addr \<Rightarrow> neighborhood \<Rightarrow> ptr option option" where
  "get_best_link_to_neighbor cnf now remote db = do {
     main \<leftarrow> mid_lookup_main_addr remote db;
     b \<leftarrow> foldM (best_link_step cnf now remote (case main of None \<Rightarrow> remote | Some a \<Rightarrow> a) db) (link_entry_head db)
            \<lparr>curr_metric = MAX_IF_METRIC, curr_lcost = LINK_COST_BROKEN, good_link = None, backup_link = None\<rparr>;
     Some (case good_link b of None \<Rightarrow> backup_link b | Some l \<Rightarrow> Some l)
   }"

section \<open>HELLO messages\<close>

record hello_neighbor =
  hello_status :: u8
  hello_link :: u8
  hello_address :: olsr_ip_addr
  hello_cost :: olsr_linkcost

record hello_message =
  hello_vtime :: olsr_reltime
  hello_htime :: olsr_reltime
  hello_source_addr :: olsr_ip_addr
  hello_willingness :: u8
  hello_neighbors :: "hello_neighbor list"

definition hello_sym :: "hello_neighbor \<Rightarrow> bool" where
  "hello_sym mn \<longleftrightarrow> hello_status mn = SYM_NEIGH \<or> hello_status mn = MPR_NEIGH"

fun lookup_mpr_status :: "hello_neighbor list \<Rightarrow> olsr_ip_addr \<Rightarrow> bool" where
  "lookup_mpr_status [] if_addr = False"
| "lookup_mpr_status (n # ns) if_addr =
     (if hello_link n \<noteq> UNSPEC_LINK \<and> ipequal (hello_address n) if_addr
      then hello_link n = SYM_LINK \<and> hello_status n = MPR_NEIGH
      else lookup_mpr_status ns if_addr)"

fun check_link_status :: "hello_neighbor list \<Rightarrow> olsr_ip_addr \<Rightarrow> u8 \<Rightarrow> u8" where
  "check_link_status [] if_addr ret = ret"
| "check_link_status (n # ns) if_addr ret =
     (if ipequal (hello_address n) if_addr \<and> hello_link n \<noteq> UNSPEC_LINK
      then if hello_link n = SYM_LINK then SYM_LINK else check_link_status ns if_addr (hello_link n)
      else check_link_status ns if_addr ret)"

definition olsr_insert_two_hop_neighbor_table :: "ptr \<Rightarrow> neighborhood \<Rightarrow> neighborhood option" where
  "olsr_insert_two_hop_neighbor_table p2 db = do {
     e2 \<leftarrow> two_hops db p2;
     Some (db\<lparr>two_hop_neighbortable := queue_elem (ip_hash (neighbor_2_addr e2)) p2 (two_hop_neighbortable db)\<rparr>)
   }"

definition new_two_hop :: "olsr_ip_addr \<Rightarrow> neighbor_2_entry" where
  "new_two_hop a = \<lparr>neighbor_2_addr = a, mpr_covered_count = 0, processed = 0, neighbor_2_pointer = 0, neighbor_2_nblist = []\<rparr>"

text \<open>The body of the first loop; the address of the message is replaced by the main address.\<close>

definition refresh_link :: "nb_config \<Rightarrow> ptr \<Rightarrow> olsr_reltime \<Rightarrow> ptr \<Rightarrow> neighborhood \<Rightarrow> neighborhood option" where
  "refresh_link cnf p vtime q db = do {
     nl \<leftarrow> nbr2_lists db q;
     let db1 = db\<lparr>nbr2_lists := (nbr2_lists db)(q \<mapsto> nl\<lparr>nbr2_list_timer := set_timer vtime\<rparr>)\<rparr>;
     e2 \<leftarrow> two_hops db (neighbor_2 nl);
     Some (if lq_level cnf > 0
           then upd_nbr2 (neighbor_2 nl) (\<lambda>e2. e2\<lparr>neighbor_2_nblist :=
                  map (\<lambda>x. if neighbor x = p then x\<lparr>path_linkcost := LINK_COST_BROKEN\<rparr> else x) (neighbor_2_nblist e2)\<rparr>) db1
           else db1)
   }"

definition announce :: "nb_config \<Rightarrow> ptr \<Rightarrow> olsr_reltime \<Rightarrow> olsr_ip_addr \<Rightarrow> neighborhood \<Rightarrow> neighborhood option" where
  "announce cnf p vtime a db = do {
     two_hop_neighbor_yet \<leftarrow> olsr_lookup_my_neighbors p a db;
     case two_hop_neighbor_yet of
       Some q \<Rightarrow> refresh_link cnf p vtime q db
     | None \<Rightarrow> do {
         two_hop_neighbor \<leftarrow> olsr_lookup_two_hop_neighbor_table a db;
         let db1 = db\<lparr>changes_neighborhood := True, nb_changes_topology := True\<rparr>;
         case two_hop_neighbor of
           Some p2 \<Rightarrow> linking_this_2_entries p p2 vtime db1
         | None \<Rightarrow> do {
             let p2 = nb_next db1;
             db2 \<leftarrow> olsr_insert_two_hop_neighbor_table p2
                      (db1\<lparr>two_hops := (two_hops db1)(p2 \<mapsto> new_two_hop a), nb_next := p2 + 1\<rparr>);
             linking_this_2_entries p p2 vtime db2
           }
       }
   }"

fun message_pass1 :: "nb_config \<Rightarrow> ptr \<Rightarrow> olsr_reltime \<Rightarrow> hello_neighbor list \<Rightarrow> neighborhood \<Rightarrow> (hello_neighbor list \<times> neighborhood) option" where
  "message_pass1 cnf p vtime [] db = Some ([], db)"
| "message_pass1 cnf p vtime (mn # mns) db =
     (if if_ifwithaddr cnf (hello_address mn) \<noteq> None
      then map_option (map_prod (Cons mn) id) (message_pass1 cnf p vtime mns db)
      else do {
        neigh_addr \<leftarrow> mid_lookup_main_addr (hello_address mn) db;
        let mn' = (case neigh_addr of None \<Rightarrow> mn | Some a \<Rightarrow> mn\<lparr>hello_address := a\<rparr>);
        db1 \<leftarrow> (if hello_sym mn' then announce cnf p vtime (hello_address mn') db else Some db);
        map_option (map_prod (Cons mn') id) (message_pass1 cnf p vtime mns db1)
      })"

text \<open>The second loop: the best path cost over this neighbour, \<open>first\<close> being the cost of the link to it.\<close>

definition better_path :: "olsr_linkcost \<Rightarrow> olsr_linkcost \<Rightarrow> ptr \<Rightarrow> neighbor_list_entry \<Rightarrow> neighbor_list_entry" where
  "better_path first c p x =
     (if neighbor x = p \<and> first + c < path_linkcost x
      then x\<lparr>second_hop_linkcost := c, path_linkcost := first + c, saved_path_linkcost := first + c\<rparr> else x)"

definition improve_path :: "nb_config \<Rightarrow> olsr_linkcost \<Rightarrow> ptr \<Rightarrow> hello_neighbor \<Rightarrow> neighborhood \<Rightarrow> neighborhood option" where
  "improve_path cnf first p mn db =
     (if if_ifwithaddr cnf (hello_address mn) \<noteq> None \<or> \<not> hello_sym mn then Some db
      else do {
        two_hop_neighbor_yet \<leftarrow> olsr_lookup_my_neighbors p (hello_address mn) db;
        case two_hop_neighbor_yet of
          None \<Rightarrow> Some db
        | Some q \<Rightarrow> do {
            nl \<leftarrow> nbr2_lists db q;
            e2 \<leftarrow> two_hops db (neighbor_2 nl);
            let changed = list_ex (\<lambda>x. neighbor x = p \<and> first + hello_cost mn < path_linkcost x) (neighbor_2_nblist e2);
            let db1 = upd_nbr2 (neighbor_2 nl) (\<lambda>e2. e2\<lparr>neighbor_2_nblist := map (better_path first (hello_cost mn) p) (neighbor_2_nblist e2)\<rparr>) db;
            Some (if changed then db1\<lparr>changes_neighborhood := True, nb_changes_topology := True\<rparr> else db1)
          }
      })"

definition process_message_neighbors :: "nb_config \<Rightarrow> u32 \<Rightarrow> ptr \<Rightarrow> hello_message \<Rightarrow> neighborhood \<Rightarrow> neighborhood option" where
  "process_message_neighbors cnf now p message db = do {
     (mns, db1) \<leftarrow> message_pass1 cnf p (hello_vtime message) (hello_neighbors message) db;
     if lq_level cnf > 0 then do {
       e \<leftarrow> neighbors db1 p;
       lnk \<leftarrow> get_best_link_to_neighbor cnf now (neighbor_main_addr e) db1;
       case lnk of
         None \<Rightarrow> Some db1
       | Some l \<Rightarrow> do {
           lk \<leftarrow> links db1 l;
           foldM (improve_path cnf (linkcost lk) p) mns db1
         }
     } else Some db1
   }"

section \<open>The relation between neighbours and announced addresses\<close>

definition reach2 :: "neighborhood \<Rightarrow> (ptr \<times> olsr_ip_addr) set" where
  "reach2 db = {(p, a). \<exists>q nl e2. nbr2_lists db q = Some nl \<and> nbr2_nbr nl = p \<and>
     two_hops db (neighbor_2 nl) = Some e2 \<and> neighbor_2_addr e2 = a}"

lemma mid_lookup_same: "same_mid db db' \<Longrightarrow> mid_lookup_main_addr a db' = mid_lookup_main_addr a db"
  unfolding same_mid_def mid_lookup_main_addr_def alias_is_def by (elim conjE) (simp only:)

text \<open>The main address of an alias is not registered as an alias itself.\<close>

definition mid_flat :: "neighborhood \<Rightarrow> bool" where
  "mid_flat db \<longleftrightarrow> (\<forall>a m. mid_lookup_main_addr a db = Some (Some m) \<longrightarrow> mid_lookup_main_addr m db = Some None)"

lemma reach2_same_shape:
  assumes "same_shape db db'"
  shows "reach2 db' = reach2 db"
  unfolding reach2_def using same_shapeD(3-6) [OF assms] by (auto 0 3) metis+

lemma reach2_iff_list:
  assumes core: "nb_core db" and e: "neighbors db p = Some e"
  shows "(p, a) \<in> reach2 db \<longleftrightarrow> (\<exists>q\<in>set (neighbor_2_list e). \<exists>nl e2. nbr2_lists db q = Some nl \<and>
     two_hops db (neighbor_2 nl) = Some e2 \<and> neighbor_2_addr e2 = a)"
proof
  assume "(p, a) \<in> reach2 db"
  then obtain q nl e2 where q: "nbr2_lists db q = Some nl" "nbr2_nbr nl = p" "two_hops db (neighbor_2 nl) = Some e2" "neighbor_2_addr e2 = a"
    by (auto simp: reach2_def)
  obtain e' where "neighbors db (nbr2_nbr nl) = Some e'" "q \<in> set (neighbor_2_list e')" by (rule nb_core_linkD [OF core q(1)])
  with q e show "\<exists>q\<in>set (neighbor_2_list e). \<exists>nl e2. nbr2_lists db q = Some nl \<and> two_hops db (neighbor_2 nl) = Some e2 \<and> neighbor_2_addr e2 = a"
    by auto
next
  assume "\<exists>q\<in>set (neighbor_2_list e). \<exists>nl e2. nbr2_lists db q = Some nl \<and> two_hops db (neighbor_2 nl) = Some e2 \<and> neighbor_2_addr e2 = a"
  thus "(p, a) \<in> reach2 db" using nb_core_nbrD(2) [OF core e] unfolding reach2_def by (auto 0 4) (metis option.inject)
qed

lemma lookup_my_ok:
  assumes core: "nb_core db" and e: "neighbors db p = Some e"
  shows "\<exists>r. olsr_lookup_my_neighbors p a db = Some r \<and>
    (case r of None \<Rightarrow> (p, a) \<notin> reach2 db
     | Some q \<Rightarrow> \<exists>nl e2. nbr2_lists db q = Some nl \<and> nbr2_nbr nl = p \<and> two_hops db (neighbor_2 nl) = Some e2 \<and> neighbor_2_addr e2 = a)"
proof -
  let ?t = "\<lambda>q. do { nl \<leftarrow> nbr2_lists db q; e2 \<leftarrow> two_hops db (neighbor_2 nl); Some (ipequal (neighbor_2_addr e2) a) }"
  have v: "\<exists>nl e2. nbr2_lists db q = Some nl \<and> nbr2_nbr nl = p \<and> two_hops db (neighbor_2 nl) = Some e2"
    if "q \<in> set (neighbor_2_list e)" for q
    using nb_core_nbrD(2) [OF core e that] nb_core_linkD [OF core] by metis
  have "\<forall>q\<in>set (neighbor_2_list e). ?t q \<noteq> None" using v by fastforce
  from findM_total [OF this] obtain r where r: "findM ?t (neighbor_2_list e) = Some r" by blast
  show ?thesis
  proof (cases r)
    case None
    with r findM_None [of ?t] have "\<forall>q\<in>set (neighbor_2_list e). ?t q = Some False" by blast
    hence "(p, a) \<notin> reach2 db" unfolding reach2_iff_list [OF core e] by fastforce
    with None r e show ?thesis by (simp add: olsr_lookup_my_neighbors_def)
  next
    case (Some q)
    with r findM_Some [of ?t] have q: "q \<in> set (neighbor_2_list e)" "?t q = Some True" by blast+
    from v [OF q(1)] q(2) have "\<exists>nl e2. nbr2_lists db q = Some nl \<and> nbr2_nbr nl = p \<and> two_hops db (neighbor_2 nl) = Some e2 \<and> neighbor_2_addr e2 = a"
      by auto
    with Some r e show ?thesis by (simp add: olsr_lookup_my_neighbors_def)
  qed
qed

lemma reach2I: "nbr2_lists db q = Some nl \<Longrightarrow> two_hops db (neighbor_2 nl) = Some e2 \<Longrightarrow> (nbr2_nbr nl, neighbor_2_addr e2) \<in> reach2 db"
  by (auto simp: reach2_def)

lemma reach2E:
  assumes "(p, a) \<in> reach2 db"
  obtains q nl e2 where "nbr2_lists db q = Some nl" "nbr2_nbr nl = p" "two_hops db (neighbor_2 nl) = Some e2" "neighbor_2_addr e2 = a"
  using assms by (auto simp: reach2_def)

lemma refresh_ok:
  assumes "nb_inv db" "nbr2_lists db q = Some nl" "two_hops db (neighbor_2 nl) = Some e2"
  shows "\<exists>db'. refresh_link cnf p vtime q db = Some db' \<and> same_shape db db' \<and> same_mid db db'"
proof -
  let ?d = "db\<lparr>nbr2_lists := (nbr2_lists db)(q \<mapsto> nl\<lparr>nbr2_list_timer := set_timer vtime\<rparr>)\<rparr>"
  let ?f = "\<lambda>e2. e2\<lparr>neighbor_2_nblist := map (\<lambda>x. if neighbor x = p then x\<lparr>path_linkcost := LINK_COST_BROKEN\<rparr> else x) (neighbor_2_nblist e2)\<rparr>"
  have "same_shape db ?d" using assms(2) by (simp add: same_shape_def)
  moreover have "same_shape ?d (upd_nbr2 (neighbor_2 nl) ?f ?d)" by (rule same_shape_nbr2) (simp add: comp_def if_distrib cong: if_cong)
  ultimately have "same_shape db (upd_nbr2 (neighbor_2 nl) ?f ?d)" "same_shape db ?d" by (blast intro: same_shape_trans)+
  moreover have "same_mid db (upd_nbr2 (neighbor_2 nl) ?f ?d)" "same_mid db ?d" by (simp_all add: same_mid_def)
  ultimately show ?thesis using assms(2,3) by (simp add: refresh_link_def Let_def)
qed

lemma linking_reach2:
  assumes core: "nb_core db" and e: "neighbors db p = Some e" and e2: "two_hops db p2 = Some e2" and a: "neighbor_2_addr e2 = a"
    and new: "(p, a) \<notin> reach2 db" and ne: "\<And>p' e'. two_hops db p' = Some e' \<Longrightarrow> p' \<noteq> p2 \<Longrightarrow> neighbor_2_nblist e' \<noteq> []"
  shows "\<exists>db'. linking_this_2_entries p p2 vtime db = Some db' \<and> nb_inv db' \<and> reach2 db' = insert (p, a) (reach2 db) \<and>
    same_mid db db' \<and> (\<forall>p'. map_option (neighbor_2_list_update (\<lambda>_. [])) (neighbors db' p') = map_option (neighbor_2_list_update (\<lambda>_. [])) (neighbors db p'))"
proof -
  have n: "\<forall>q nl. nbr2_lists db q = Some nl \<longrightarrow> \<not> (nbr2_nbr nl = p \<and> neighbor_2 nl = p2)"
    using new reach2I e2 a by metis
  let ?f = "e2\<lparr>neighbor_2_nblist := \<lparr>neighbor = p, second_hop_linkcost = LINK_COST_BROKEN,
        path_linkcost = LINK_COST_BROKEN, saved_path_linkcost = LINK_COST_BROKEN\<rparr> # neighbor_2_nblist e2,
        neighbor_2_pointer := neighbor_2_pointer e2 + 1\<rparr>"
  let ?n = "\<lparr>nbr2_nbr = p, neighbor_2 = p2, nbr2_list_timer = None\<rparr>"
  obtain d where d: "linking_this_2_entries p p2 vtime db = Some d" "nb_core d"
    "neighbors d = (neighbors db)(p \<mapsto> e\<lparr>neighbor_2_list := nb_next db # neighbor_2_list e\<rparr>)" "two_hops d = (two_hops db)(p2 \<mapsto> ?f)"
    "nbr2_lists d = (nbr2_lists db)(nb_next db \<mapsto> ?n)" "same_mid db d"
    using linking_core [where vtime = vtime, OF core e e2 n] unfolding same_mid_def by blast
  have "nb_inv d" unfolding nb_inv_def d(4) using d(2) ne by auto
  moreover have "reach2 d = insert (p, a) (reach2 db)"
  proof -
    have addr: "map_option neighbor_2_addr (two_hops d x) = map_option neighbor_2_addr (two_hops db x)" for x
      using e2 d(4) by simp
    have fresh: "nbr2_lists db (nb_next db) = None" by (rule tables_fresh(2) [OF core])
    have iff: "(x, b) \<in> reach2 c \<longleftrightarrow> (\<exists>q nl. nbr2_lists c q = Some nl \<and> nbr2_nbr nl = x \<and> map_option neighbor_2_addr (two_hops c (neighbor_2 nl)) = Some b)"
      for x b c by (auto simp: reach2_def)
    have "(x, b) \<in> reach2 d \<longleftrightarrow> (x, b) = (p, a) \<or> (x, b) \<in> reach2 db" for x b
      unfolding iff addr using fresh e2 a d(5) by (auto 0 3 split: if_splits) (metis option.distinct(1) fun_upd_other)+
    thus ?thesis by auto
  qed
  moreover have "\<forall>p'. map_option (neighbor_2_list_update (\<lambda>_. [])) (neighbors d p') = map_option (neighbor_2_list_update (\<lambda>_. [])) (neighbors db p')"
    using d(3) e by simp
  ultimately show ?thesis using d(1,6) by blast
qed

lemma insert_two_hop_core:
  fixes a :: olsr_ip_addr
  assumes inv: "nb_inv db" and new: "\<And>p e2. two_hops db p = Some e2 \<Longrightarrow> neighbor_2_addr e2 \<noteq> a"
  defines "d \<equiv> db\<lparr>two_hops := (two_hops db)(nb_next db \<mapsto> new_two_hop a), nb_next := nb_next db + 1,
     two_hop_neighbortable := queue_elem (ip_hash a) (nb_next db) (two_hop_neighbortable db)\<rparr>"
  shows "nb_core d \<and> reach2 d = reach2 db"
proof -
  note core = nb_inv_core [OF inv]
  note c = nb_coreD [OF core] and fresh = tables_fresh [OF core]
  have n: "neighbor_2 nl \<noteq> nb_next db" if "nbr2_lists db q = Some nl" for q nl
    using nb_core_linkD [OF core that] fresh(3) by (metis option.distinct(1))
  have "nbr_side d" using c(1) by (simp add: nbr_side_def d_def)
  moreover have "link_side d" using c(2) n by (auto simp: link_side_def d_def)
  moreover have "link_unique d" using c(3) by (simp add: link_unique_def d_def)
  moreover have "nbr2_side d" using c(4) by (auto simp: nbr2_side_def d_def new_two_hop_def)
  moreover have "nbr_few d" using c(5) by (simp add: nbr_few_def d_def)
  moreover have "tables_ok d"
  proof -
    have "bucket_ok (two_hop_neighbortable d) (\<lambda>p. map_option (\<lambda>e. ip_hash (neighbor_2_addr e)) (two_hops d p))"
      using bucket_queue [OF fresh(5), of "nb_next db" "ip_hash a"] fresh(3)
      by (auto simp: d_def new_two_hop_def intro: bucket_cong)
    with c(6) new show ?thesis unfolding tables_ok_def by (auto simp: d_def new_two_hop_def split: if_splits)
  qed
  moreover have "mid_ok d" by (rule mid_ok_upd [OF c(7)]) (simp_all add: d_def)
  ultimately have "nb_core d" by (simp add: nb_core_def)
  moreover have "reach2 d = reach2 db" unfolding reach2_def using n by (auto simp: d_def)
  ultimately show ?thesis by blast
qed

lemma announce_ok:
  assumes inv: "nb_inv db" and p: "neighbors db p \<noteq> None" and flat: "mid_lookup_main_addr a db = Some None"
  shows "\<exists>db'. announce cnf p vtime a db = Some db' \<and> nb_inv db' \<and> reach2 db' = insert (p, a) (reach2 db) \<and> same_mid db db' \<and>
    (\<forall>p'. neighbors db' p' = None \<longleftrightarrow> neighbors db p' = None)"
proof -
  note core = nb_inv_core [OF inv]
  from p obtain e where e: "neighbors db p = Some e" by blast
  obtain r where r: "olsr_lookup_my_neighbors p a db = Some r"
    "case r of None \<Rightarrow> (p, a) \<notin> reach2 db
     | Some q \<Rightarrow> \<exists>nl e2. nbr2_lists db q = Some nl \<and> nbr2_nbr nl = p \<and> two_hops db (neighbor_2 nl) = Some e2 \<and> neighbor_2_addr e2 = a"
    using lookup_my_ok [OF core e, of a] by blast
  let ?d = "db\<lparr>changes_neighborhood := True, nb_changes_topology := True\<rparr>"
  have dinv: "nb_inv ?d" "reach2 ?d = reach2 db" using inv by (simp_all add: reach2_def)
  have none: "neighbors d p' = None \<longleftrightarrow> neighbors db p' = None"
    if "map_option (neighbor_2_list_update (\<lambda>_. [])) (neighbors d p') = map_option (neighbor_2_list_update (\<lambda>_. [])) (neighbors db p')" for d p'
    using that by (metis option.map_disc_iff)
  show ?thesis
  proof (cases r)
    case (Some q)
    with r(2) obtain nl e2 where q: "nbr2_lists db q = Some nl" "nbr2_nbr nl = p" "two_hops db (neighbor_2 nl) = Some e2" "neighbor_2_addr e2 = a"
      by auto
    obtain d where d: "refresh_link cnf p vtime q db = Some d" "same_shape db d" "same_mid db d" using refresh_ok [OF inv q(1,3)] by blast
    have "(p, a) \<in> reach2 db" using reach2I [OF q(1,3)] q by simp
    moreover have "\<forall>p'. neighbors d p' = None \<longleftrightarrow> neighbors db p' = None"
      using same_shapeD(1,2) [OF d(2)] by (metis option.distinct(1) not_Some_eq)
    ultimately show ?thesis using Some r(1) d inv_same_shape [OF inv d(2)] reach2_same_shape [OF d(2)]
      by (auto simp: announce_def)
  next
    case None
    obtain t where t: "olsr_lookup_two_hop_neighbor_table a db = Some t"
      "case t of None \<Rightarrow> \<forall>p e2. two_hops db p = Some e2 \<longrightarrow> neighbor_2_addr e2 \<noteq> a
       | Some p2 \<Rightarrow> \<exists>e2. two_hops db p2 = Some e2 \<and> neighbor_2_addr e2 = a"
      using lookup_two_hop_ok [OF core, of a] flat by (fastforce split: option.splits)
    show ?thesis
    proof (cases t)
      case t2: (Some p2)
      with t(2) obtain e2 where e2: "two_hops db p2 = Some e2" "neighbor_2_addr e2 = a" by auto
      obtain d where d: "linking_this_2_entries p p2 vtime ?d = Some d" "nb_inv d" "reach2 d = insert (p, a) (reach2 ?d)" "same_mid ?d d"
        "\<forall>p'. map_option (neighbor_2_list_update (\<lambda>_. [])) (neighbors d p') = map_option (neighbor_2_list_update (\<lambda>_. [])) (neighbors ?d p')"
        using linking_reach2 [of ?d p e p2 e2 a vtime] nb_inv_core [OF dinv(1)] e e2 None r(2) dinv(2) nb_inv_linked [OF inv] by auto
      moreover have "\<forall>p'. neighbors d p' = None \<longleftrightarrow> neighbors db p' = None" using d(5) none [of d] by auto
      moreover have "same_mid db d" using d(4) by (simp add: same_mid_def)
      ultimately show ?thesis using None t2 r(1) t(1) dinv(2) by (simp add: announce_def Let_def)
    next
      case t2: None
      let ?n = "nb_next db"
      let ?c = "?d\<lparr>two_hops := (two_hops ?d)(?n \<mapsto> new_two_hop a), nb_next := ?n + 1,
         two_hop_neighbortable := queue_elem (ip_hash a) ?n (two_hop_neighbortable ?d)\<rparr>"
      have c: "nb_core ?c" "reach2 ?c = reach2 ?d" using insert_two_hop_core [OF dinv(1), of a] t(2) t2 by simp_all
      have "\<And>p' e'. two_hops ?c p' = Some e' \<Longrightarrow> p' \<noteq> ?n \<Longrightarrow> neighbor_2_nblist e' \<noteq> []" using nb_inv_linked [OF inv] by auto
      then obtain d where d: "linking_this_2_entries p ?n vtime ?c = Some d" "nb_inv d" "reach2 d = insert (p, a) (reach2 ?c)" "same_mid ?c d"
        "\<forall>p'. map_option (neighbor_2_list_update (\<lambda>_. [])) (neighbors d p') = map_option (neighbor_2_list_update (\<lambda>_. [])) (neighbors ?c p')"
        using linking_reach2 [of ?c p e ?n "new_two_hop a" a vtime] c e None r(2) dinv(2) by (auto simp: new_two_hop_def)
      moreover have "\<forall>p'. neighbors d p' = None \<longleftrightarrow> neighbors db p' = None" using d(5) none [of d] by auto
      moreover have "same_mid db d" using d(4) by (simp add: same_mid_def)
      moreover have "announce cnf p vtime a db = linking_this_2_entries p ?n vtime ?c"
        using None t2 r(1) t(1) by (simp add: announce_def Let_def olsr_insert_two_hop_neighbor_table_def new_two_hop_def)
      ultimately show ?thesis using c(2) dinv(2) by simp
    qed
  qed
qed

lemma reach2_iff_nblist:
  assumes "nb_core db"
  shows "(p, a) \<in> reach2 db \<longleftrightarrow> (\<exists>p2 e2. two_hops db p2 = Some e2 \<and> neighbor_2_addr e2 = a \<and> p \<in> neighbor ` set (neighbor_2_nblist e2))"
proof
  assume "(p, a) \<in> reach2 db"
  then obtain q nl e2 where q: "nbr2_lists db q = Some nl" "nbr2_nbr nl = p" "two_hops db (neighbor_2 nl) = Some e2" "neighbor_2_addr e2 = a"
    by (rule reach2E)
  thus "\<exists>p2 e2. two_hops db p2 = Some e2 \<and> neighbor_2_addr e2 = a \<and> p \<in> neighbor ` set (neighbor_2_nblist e2)"
    using nb_core_linkD [OF assms q(1)] by (metis option.inject)
next
  assume "\<exists>p2 e2. two_hops db p2 = Some e2 \<and> neighbor_2_addr e2 = a \<and> p \<in> neighbor ` set (neighbor_2_nblist e2)"
  then obtain p2 e2 x where "two_hops db p2 = Some e2" "neighbor_2_addr e2 = a" "x \<in> set (neighbor_2_nblist e2)" "p = neighbor x" by blast
  thus "(p, a) \<in> reach2 db" using nb_core_nbr2D(2) [OF assms] reach2I by metis
qed

lemma reach2_without:
  assumes "nb_core db" "nb_core db'" "two_hops db' = (\<lambda>p2. without {p} (two_hops db p2))"
  shows "reach2 db' = {(x, a) \<in> reach2 db. x \<noteq> p}"
proof -
  have "(x, a) \<in> reach2 db' \<longleftrightarrow> (x, a) \<in> reach2 db \<and> x \<noteq> p" for x a
    unfolding reach2_iff_nblist [OF assms(1)] reach2_iff_nblist [OF assms(2)] assms(3)
    by (auto simp: without_def Let_def filter_empty_conv split: option.splits if_splits) fastforce+
  thus ?thesis by auto
qed

section \<open>Whole messages\<close>

definition main_of :: "neighborhood \<Rightarrow> olsr_ip_addr \<Rightarrow> olsr_ip_addr" where
  "main_of db a = (case mid_lookup_main_addr a db of Some (Some m) \<Rightarrow> m | _ \<Rightarrow> a)"

definition announced :: "nb_config \<Rightarrow> neighborhood \<Rightarrow> hello_neighbor list \<Rightarrow> olsr_ip_addr set" where
  "announced cnf db mns = {main_of db (hello_address mn) | mn. mn \<in> set mns \<and> if_ifwithaddr cnf (hello_address mn) = None \<and> hello_sym mn}"

lemma announced_Cons:
  "announced cnf db (mn # mns) = (if if_ifwithaddr cnf (hello_address mn) = None \<and> hello_sym mn
     then insert (main_of db (hello_address mn)) (announced cnf db mns) else announced cnf db mns)"
  by (auto simp: announced_def)

lemma mid_flat_same: "same_mid db db' \<Longrightarrow> mid_flat db' = mid_flat db"
  by (simp add: mid_flat_def mid_lookup_same)

lemma announced_same: "same_mid db db' \<Longrightarrow> announced cnf db' mns = announced cnf db mns"
  by (simp add: announced_def main_of_def mid_lookup_same)

lemma pass1_ok:
  assumes "nb_inv db" "neighbors db p \<noteq> None" "mid_flat db"
  shows "\<exists>mns' db'. message_pass1 cnf p vtime mns db = Some (mns', db') \<and> nb_inv db' \<and> same_mid db db' \<and>
    reach2 db' = reach2 db \<union> {p} \<times> announced cnf db mns \<and> (\<forall>p'. neighbors db' p' = None \<longleftrightarrow> neighbors db p' = None)"
  using assms
proof (induction mns arbitrary: db)
  case (Cons mn mns)
  let ?a = "hello_address mn"
  show ?case
  proof (cases "if_ifwithaddr cnf ?a = None")
    case False
    with Cons.IH [OF Cons.prems] show ?thesis by (auto simp: announced_Cons)
  next
    case True
    obtain m where m: "mid_lookup_main_addr ?a db = Some m" using mid_lookup_ok [OF nb_coreD(7) [OF nb_inv_core [OF Cons.prems(1)]]] by blast
    let ?mn = "case m of None \<Rightarrow> mn | Some a \<Rightarrow> mn\<lparr>hello_address := a\<rparr>"
    have mn: "hello_sym ?mn = hello_sym mn" "hello_address ?mn = main_of db ?a"
      by (auto simp: hello_sym_def main_of_def m split: option.splits)
    have flat: "mid_lookup_main_addr (main_of db ?a) db = Some None"
      using m Cons.prems(3) by (auto simp: main_of_def mid_flat_def split: option.splits)
    obtain d where d: "(if hello_sym mn then announce cnf p vtime (main_of db ?a) db else Some db) = Some d" "nb_inv d" "same_mid db d"
      "reach2 d = reach2 db \<union> (if hello_sym mn then {(p, main_of db ?a)} else {})" "\<forall>p'. neighbors d p' = None \<longleftrightarrow> neighbors db p' = None"
    proof (cases "hello_sym mn")
      case True
      with announce_ok [OF Cons.prems(1,2) flat, of cnf vtime] that show ?thesis by auto
    next
      case False
      with that [of db] Cons.prems show ?thesis by simp
    qed
    have "neighbors d p \<noteq> None" "mid_flat d" using d(5) Cons.prems(2,3) mid_flat_same [OF d(3)] by simp_all
    from Cons.IH [OF d(2) this] obtain mns' d' where d': "message_pass1 cnf p vtime mns d = Some (mns', d')" "nb_inv d'" "same_mid d d'"
      "reach2 d' = reach2 d \<union> {p} \<times> announced cnf d mns" "\<forall>p'. neighbors d' p' = None \<longleftrightarrow> neighbors d p' = None" by blast
    have "reach2 d' = reach2 db \<union> {p} \<times> announced cnf db (mn # mns)"
      unfolding d'(4) d(4) announced_same [OF d(3)] announced_Cons using True by auto
    moreover have "same_mid db d'" using d(3) d'(3) by (rule same_mid_trans)
    moreover have "message_pass1 cnf p vtime (mn # mns) db = Some (?mn # mns', d')"
      using True m d(1) d'(1) by (auto simp: mn Let_def split: if_splits)
    ultimately show ?thesis using d(5) d'(2,5) by auto
  qed
qed (auto simp: announced_def)

lemma improve_ok:
  assumes inv: "nb_inv db" and p: "neighbors db p \<noteq> None"
  shows "\<exists>db'. improve_path cnf first p mn db = Some db' \<and> same_shape db db' \<and> same_mid db db'"
proof (cases "if_ifwithaddr cnf (hello_address mn) \<noteq> None \<or> \<not> hello_sym mn")
  case False
  from p obtain e where e: "neighbors db p = Some e" by blast
  obtain r where r: "olsr_lookup_my_neighbors p (hello_address mn) db = Some r"
    "case r of None \<Rightarrow> True | Some q \<Rightarrow> \<exists>nl e2. nbr2_lists db q = Some nl \<and> two_hops db (neighbor_2 nl) = Some e2"
    using lookup_my_ok [OF nb_inv_core [OF inv] e, of "hello_address mn"] by (fastforce split: option.splits)
  show ?thesis
  proof (cases r)
    case (Some q)
    with r(2) obtain nl e2 where q: "nbr2_lists db q = Some nl" "two_hops db (neighbor_2 nl) = Some e2" by auto
    let ?d = "upd_nbr2 (neighbor_2 nl) (\<lambda>e2. e2\<lparr>neighbor_2_nblist := map (better_path first (hello_cost mn) p) (neighbor_2_nblist e2)\<rparr>) db"
    have "neighbor (better_path first (hello_cost mn) p x) = neighbor x" for x by (simp add: better_path_def)
    hence "same_shape db ?d" by (intro same_shape_nbr2) (simp add: comp_def)
    moreover have "same_mid db ?d" by (simp add: same_mid_def)
    ultimately have "same_shape db ?d" "same_mid db ?d" "same_shape db (?d\<lparr>changes_neighborhood := True, nb_changes_topology := True\<rparr>)"
      "same_mid db (?d\<lparr>changes_neighborhood := True, nb_changes_topology := True\<rparr>)"
      by (simp_all add: same_shape_def same_mid_def)
    with False Some r(1) q show ?thesis by (simp add: improve_path_def Let_def)
  qed (use False r(1) in \<open>simp add: improve_path_def\<close>)
qed (auto simp: improve_path_def)

lemma improve_all_ok:
  assumes "nb_inv db" "neighbors db p \<noteq> None"
  shows "\<exists>db'. foldM (improve_path cnf first p) mns db = Some db' \<and> same_shape db db' \<and> same_mid db db'"
  using assms
proof (induction mns arbitrary: db)
  case (Cons mn mns)
  obtain d where d: "improve_path cnf first p mn db = Some d" "same_shape db d" "same_mid db d" using improve_ok [OF Cons.prems] by blast
  have "neighbors d p \<noteq> None" using Cons.prems(2) same_shapeD(2) [OF d(2), of p] by force
  from Cons.IH [OF inv_same_shape [OF Cons.prems(1) d(2)] this] d show ?case
    using same_shape_trans same_mid_trans by (simp add: exI) blast
qed simp

text \<open>Every link of the link set belongs to a neighbour.\<close>

definition links_valid :: "neighborhood \<Rightarrow> bool" where
  "links_valid db \<longleftrightarrow> (\<forall>l\<in>set (link_entry_head db). \<exists>lk. links db l = Some lk \<and> neighbors db (link_neighbor lk) \<noteq> None)"

lemma link_status_ok: "links_valid db \<Longrightarrow> l \<in> set (link_entry_head db) \<Longrightarrow> \<exists>s. lookup_link_status cnf now (Some l) db = Some s"
  unfolding links_valid_def lookup_link_status_def by fastforce

lemma best_link_ok:
  assumes "links_valid db" "mid_ok db"
  shows "\<exists>r. get_best_link_to_neighbor cnf now a db = Some r \<and> (case r of None \<Rightarrow> True | Some l \<Rightarrow> l \<in> set (link_entry_head db))"
proof -
  obtain m where m: "mid_lookup_main_addr a db = Some m" using mid_lookup_ok [OF assms(2)] by blast
  let ?ok = "\<lambda>b. (case good_link b of None \<Rightarrow> True | Some l \<Rightarrow> l \<in> set (link_entry_head db)) \<and>
    (case backup_link b of None \<Rightarrow> True | Some l \<Rightarrow> l \<in> set (link_entry_head db))"
  have step: "\<exists>b'. best_link_step cnf now a mm db l b = Some b' \<and> ?ok b'" if l: "l \<in> set (link_entry_head db)" and b: "?ok b" for l b mm
  proof -
    obtain lk e where lk: "links db l = Some lk" "neighbors db (link_neighbor lk) = Some e"
      using assms(1) l unfolding links_valid_def by blast
    obtain s where s: "lookup_link_status cnf now (Some l) db = Some s" using link_status_ok [OF assms(1) l] by blast
    have t: "\<exists>b'. take_link cnf now db l c = Some b' \<and> ?ok b'" if "?ok c" for c
      using that s l by (simp add: take_link_def)
    have "?ok (b\<lparr>curr_lcost := x\<rparr>)" "?ok (b\<lparr>curr_metric := y\<rparr>)" for x y using b by simp_all
    with t b lk show ?thesis by (auto simp: best_link_step_def Let_def split: option.splits)
  qed
  have "\<exists>b'. foldM (best_link_step cnf now a mm db) ls b = Some b' \<and> ?ok b'" if "set ls \<subseteq> set (link_entry_head db)" "?ok b" for ls b mm
    using that
  proof (induction ls arbitrary: b)
    case (Cons l ls)
    then obtain b' where "best_link_step cnf now a mm db l b = Some b'" "?ok b'" using step [of l b mm] by auto
    with Cons show ?case by auto
  qed simp
  from this [of "link_entry_head db" "\<lparr>curr_metric = MAX_IF_METRIC, curr_lcost = LINK_COST_BROKEN, good_link = None, backup_link = None\<rparr>"]
  obtain b' where "foldM (best_link_step cnf now a (case m of None \<Rightarrow> a | Some a \<Rightarrow> a) db) (link_entry_head db)
     \<lparr>curr_metric = MAX_IF_METRIC, curr_lcost = LINK_COST_BROKEN, good_link = None, backup_link = None\<rparr> = Some b'" "?ok b'"
    by (auto simp del: foldM.simps)
  with m show ?thesis by (auto simp: get_best_link_to_neighbor_def split: option.splits)
qed

lemma process_neighbors_ok:
  assumes inv: "nb_inv db" and p: "neighbors db p \<noteq> None" and flat: "mid_flat db" and lv: "links_valid db"
  shows "\<exists>db'. process_message_neighbors cnf now p message db = Some db' \<and> nb_inv db' \<and> same_mid db db' \<and>
    reach2 db' = reach2 db \<union> {p} \<times> announced cnf db (hello_neighbors message) \<and>
    (\<forall>p'. neighbors db' p' = None \<longleftrightarrow> neighbors db p' = None)"
proof -
  obtain mns d where d: "message_pass1 cnf p (hello_vtime message) (hello_neighbors message) db = Some (mns, d)" "nb_inv d" "same_mid db d"
    "reach2 d = reach2 db \<union> {p} \<times> announced cnf db (hello_neighbors message)" "\<forall>p'. neighbors d p' = None \<longleftrightarrow> neighbors db p' = None"
    using pass1_ok [OF inv p flat] by blast
  show ?thesis
  proof (cases "lq_level cnf > 0")
    case False
    with d show ?thesis by (simp add: process_message_neighbors_def)
  next
    case True
    from d(5) p have "neighbors d p \<noteq> None" by simp
    then obtain e where e: "neighbors d p = Some e" by blast
    have lvd: "links_valid d" using lv d(3,5) unfolding links_valid_def same_mid_def by metis
    obtain r where r: "get_best_link_to_neighbor cnf now (neighbor_main_addr e) d = Some r"
      "case r of None \<Rightarrow> True | Some l \<Rightarrow> l \<in> set (link_entry_head d)"
      using best_link_ok [OF lvd nb_coreD(7) [OF nb_inv_core [OF d(2)]]] by blast
    show ?thesis
    proof (cases r)
      case None
      with True d e r show ?thesis by (simp add: process_message_neighbors_def)
    next
      case (Some l)
      with r(2) lvd obtain lk where lk: "links d l = Some lk" unfolding links_valid_def by fastforce
      obtain d' where d': "foldM (improve_path cnf (linkcost lk) p) mns d = Some d'" "same_shape d d'" "same_mid d d'"
        using improve_all_ok [OF d(2)] e by blast
      have "\<forall>p'. neighbors d' p' = None \<longleftrightarrow> neighbors d p' = None"
        using same_shapeD(1,2) [OF d'(2)] by (metis option.distinct(1) not_Some_eq)
      moreover have "process_message_neighbors cnf now p message db = Some d'"
        using True d(1) e r(1) Some lk d'(1) by (simp add: process_message_neighbors_def)
      ultimately show ?thesis
        using d inv_same_shape [OF d(2) d'(2)] reach2_same_shape [OF d'(2)] same_mid_trans [OF d(3) d'(3)] by simp
    qed
  qed
qed

end
