(* ===== verification/Olsr_Mpr.thy ===== *)
theory Olsr_Mpr
  imports Olsr_Hello
begin

text \<open>
  The selection of multipoint relays without link qualities (\<^verbatim>\<open>src/mpr.c\<close>). The counters have the
  widths of the code: the coverage of a two hop neighbour is a byte, the numbers of covered and of
  all two hop neighbours are 16-bit. The loop over the candidates of one willingness runs on fuel;
  one more than the number of neighbours is shown to be enough.
\<close>

section \<open>Helpers of the loops\<close>

definition all_neighbors :: "neighborhood \<Rightarrow> ptr list" where
  "all_neighbors db = concat (map (neighbortable db) [0..<HASHSIZE])"

definition all_two_hops :: "neighborhood \<Rightarrow> ptr list" where
  "all_two_hops db = concat (map (two_hop_neighbortable db) [0..<HASHSIZE])"

text \<open>The status of the neighbour with an address, if there is one (\<open>dup_neighbor\<close>).\<close>

definition dup_status :: "olsr_ip_addr \<Rightarrow> neighborhood \<Rightarrow> u8 option option" where
  "dup_status a db = do {
     dup_neighbor \<leftarrow> olsr_lookup_neighbor_table a db;
     case dup_neighbor of
       None \<Rightarrow> Some None
     | Some p \<Rightarrow> map_option (\<lambda>e. Some (status e)) (neighbors db p)
   }"

fun filterM :: "('a \<Rightarrow> bool option) \<Rightarrow> 'a list \<Rightarrow> 'a list option" where
  "filterM t [] = Some []"
| "filterM t (x # xs) = do { b \<leftarrow> t x; ys \<leftarrow> filterM t xs; Some (if b then x # ys else ys) }"

section \<open>The code\<close>

definition has_1_link :: "u8 \<Rightarrow> neighborhood \<Rightarrow> ptr \<Rightarrow> bool option" where
  "has_1_link will db p2 = do {
     e2 \<leftarrow> two_hops db p2;
     dup \<leftarrow> dup_status (neighbor_2_addr e2) db;
     if (case dup of None \<Rightarrow> False | Some s \<Rightarrow> s \<noteq> NOT_SYM) then Some False
     else if neighbor_2_pointer e2 = 1 then
       (case neighbor_2_nblist e2 of
          [] \<Rightarrow> None
        | x # _ \<Rightarrow> map_option (\<lambda>e. willingness e = will \<and> status e = SYM) (neighbors db (neighbor x)))
     else Some False
   }"

text \<open>The list is built by adding at the front.\<close>

definition olsr_find_2_hop_neighbors_with_1_link :: "u8 \<Rightarrow> neighborhood \<Rightarrow> ptr list option" where
  "olsr_find_2_hop_neighbors_with_1_link will db = map_option rev (filterM (has_1_link will db) (all_two_hops db))"

definition decrement_nocov :: "neighbor_list_entry \<Rightarrow> neighborhood \<Rightarrow> neighborhood option" where
  "decrement_nocov x db = do {
     e \<leftarrow> neighbors db (neighbor x);
     Some (if status e = SYM then upd_nbr (neighbor x) (\<lambda>e. e\<lparr>neighbor_2_nocov := neighbor_2_nocov e - 1\<rparr>) db else db)
   }"

definition cover_two_hop :: "nb_config \<Rightarrow> ptr \<Rightarrow> u16 \<times> neighborhood \<Rightarrow> (u16 \<times> neighborhood) option" where
  "cover_two_hop cnf q = (\<lambda>(count, db). do {
     nl \<leftarrow> nbr2_lists db q;
     e2 \<leftarrow> two_hops db (neighbor_2 nl);
     dup \<leftarrow> dup_status (neighbor_2_addr e2) db;
     if dup = Some SYM then Some (count, db)
     else do {
       let covered = mpr_covered_count e2 + 1;
       let db1 = upd_nbr2 (neighbor_2 nl) (\<lambda>e2. e2\<lparr>mpr_covered_count := mpr_covered_count e2 + 1\<rparr>) db;
       if covered \<ge> mpr_coverage cnf then do {
         db2 \<leftarrow> foldM decrement_nocov (neighbor_2_nblist e2) db1;
         Some (count + 1, db2)
       } else Some (count, db1)
     }
   })"

definition olsr_chosen_mpr :: "nb_config \<Rightarrow> ptr \<Rightarrow> u16 \<times> neighborhood \<Rightarrow> (u16 \<times> neighborhood) option" where
  "olsr_chosen_mpr cnf p = (\<lambda>(count, db). do {
     e \<leftarrow> neighbors db p;
     foldM (cover_two_hop cnf) (neighbor_2_list e) (count, upd_nbr p (\<lambda>e. e\<lparr>is_mpr := True\<rparr>) db)
   })"

definition max_covered_step :: "u8 \<Rightarrow> neighborhood \<Rightarrow> ptr \<Rightarrow> u16 \<times> ptr option \<Rightarrow> (u16 \<times> ptr option) option" where
  "max_covered_step will db p = (\<lambda>(maximum, mpr_candidate). do {
     e \<leftarrow> neighbors db p;
     Some (if \<not> is_mpr e \<and> willingness e = will \<and> uint maximum < neighbor_2_nocov e
           then (word_of_int (neighbor_2_nocov e), Some p) else (maximum, mpr_candidate))
   })"

definition olsr_find_maximum_covered :: "u8 \<Rightarrow> neighborhood \<Rightarrow> ptr option option" where
  "olsr_find_maximum_covered will db = map_option snd (foldM (max_covered_step will db) (all_neighbors db) (0, None))"

definition clear_covered :: "ptr \<Rightarrow> neighborhood \<Rightarrow> neighborhood option" where
  "clear_covered q db = do {
     nl \<leftarrow> nbr2_lists db q;
     e2 \<leftarrow> two_hops db (neighbor_2 nl);
     Some (upd_nbr2 (neighbor_2 nl) (\<lambda>e2. e2\<lparr>mpr_covered_count := 0\<rparr>) db)
   }"

definition clear_mpr :: "ptr \<Rightarrow> neighborhood \<Rightarrow> neighborhood option" where
  "clear_mpr p db = do {
     e \<leftarrow> neighbors db p;
     foldM clear_covered (neighbor_2_list e)
       (if is_mpr e then upd_nbr p (\<lambda>e. e\<lparr>was_mpr := True, is_mpr := False\<rparr>) db else db)
   }"

definition olsr_clear_mprs :: "neighborhood \<Rightarrow> neighborhood option" where
  "olsr_clear_mprs db = foldM clear_mpr (all_neighbors db) db"

definition check_change :: "ptr \<Rightarrow> bool \<times> neighborhood \<Rightarrow> (bool \<times> neighborhood) option" where
  "check_change p = (\<lambda>(retval, db). do {
     e \<leftarrow> neighbors db p;
     Some (if was_mpr e then (retval \<or> \<not> is_mpr e, upd_nbr p (\<lambda>e. e\<lparr>was_mpr := False\<rparr>) db) else (retval, db))
   })"

definition olsr_check_mpr_changes :: "neighborhood \<Rightarrow> (bool \<times> neighborhood) option" where
  "olsr_check_mpr_changes db = foldM check_change (all_neighbors db) (False, db)"

definition clear_processed :: "ptr \<Rightarrow> neighborhood \<Rightarrow> neighborhood option" where
  "clear_processed p2 db = do {
     e2 \<leftarrow> two_hops db p2;
     Some (upd_nbr2 p2 (\<lambda>e2. e2\<lparr>processed := 0\<rparr>) db)
   }"

definition olsr_clear_two_hop_processed :: "neighborhood \<Rightarrow> neighborhood option" where
  "olsr_clear_two_hop_processed db = foldM clear_processed (all_two_hops db) db"

text \<open>The counters \<open>count\<close> and \<open>n_count\<close> are not reset from one neighbour to the next.\<close>

definition count_two_hop :: "ptr \<Rightarrow> u16 \<times> u16 \<times> neighborhood \<Rightarrow> (u16 \<times> u16 \<times> neighborhood) option" where
  "count_two_hop q = (\<lambda>(count, n_count, db). do {
     nl \<leftarrow> nbr2_lists db q;
     e2 \<leftarrow> two_hops db (neighbor_2 nl);
     dup \<leftarrow> dup_status (neighbor_2_addr e2) db;
     if dup = None \<or> dup \<noteq> Some SYM then
       Some (if processed e2 = 0
             then (count + 1, n_count + 1, upd_nbr2 (neighbor_2 nl) (\<lambda>e2. e2\<lparr>processed := 1\<rparr>) db)
             else (count, n_count + 1, db))
     else Some (count, n_count, db)
   })"

definition count_neighbor :: "ptr \<Rightarrow> u16 \<times> u16 \<times> u16 \<times> neighborhood \<Rightarrow> (u16 \<times> u16 \<times> u16 \<times> neighborhood) option" where
  "count_neighbor p = (\<lambda>(sum, count, n_count, db). do {
     e \<leftarrow> neighbors db p;
     if status e = NOT_SYM then Some (sum, count, n_count, upd_nbr p (\<lambda>e. e\<lparr>neighbor_2_nocov := uint count\<rparr>) db)
     else do {
       (count1, n_count1, db1) \<leftarrow> foldM count_two_hop (neighbor_2_list e) (count, n_count, db);
       Some (sum + count1, count1, n_count1, upd_nbr p (\<lambda>e. e\<lparr>neighbor_2_nocov := uint n_count1\<rparr>) db1)
     }
   })"

definition olsr_calculate_two_hop_neighbors :: "neighborhood \<Rightarrow> (u16 \<times> neighborhood) option" where
  "olsr_calculate_two_hop_neighbors db = do {
     db1 \<leftarrow> olsr_clear_two_hop_processed db;
     (sum, _, _, db2) \<leftarrow> foldM count_neighbor (all_neighbors db1) (0, 0, 0, db1);
     Some (sum, db2)
   }"

definition add_will_always :: "nb_config \<Rightarrow> ptr \<Rightarrow> u16 \<times> neighborhood \<Rightarrow> (u16 \<times> neighborhood) option" where
  "add_will_always cnf p s = do {
     e \<leftarrow> neighbors (snd s) p;
     if status e = NOT_SYM \<or> willingness e \<noteq> WILL_ALWAYS then Some s else olsr_chosen_mpr cnf p s
   }"

definition add_will_always_nodes :: "nb_config \<Rightarrow> neighborhood \<Rightarrow> (u16 \<times> neighborhood) option" where
  "add_will_always_nodes cnf db = foldM (add_will_always cnf) (all_neighbors db) (0, db)"

definition choose_1_link :: "nb_config \<Rightarrow> ptr \<Rightarrow> u16 \<times> neighborhood \<Rightarrow> (u16 \<times> neighborhood) option" where
  "choose_1_link cnf p2 s = do {
     e2 \<leftarrow> two_hops (snd s) p2;
     x \<leftarrow> (case neighbor_2_nblist e2 of [] \<Rightarrow> None | x # _ \<Rightarrow> Some x);
     e \<leftarrow> neighbors (snd s) (neighbor x);
     if is_mpr e then Some s else olsr_chosen_mpr cnf (neighbor x) s
   }"

text \<open>The loop over \<open>olsr_find_maximum_covered\<close>; the flag says that everything is covered.\<close>

fun choose_max :: "nat \<Rightarrow> nb_config \<Rightarrow> u8 \<Rightarrow> u16 \<Rightarrow> u16 \<times> neighborhood \<Rightarrow> (bool \<times> u16 \<times> neighborhood) option" where
  "choose_max 0 cnf will two_hop_count s = None"
| "choose_max (Suc fuel) cnf will two_hop_count s = do {
     mprs \<leftarrow> olsr_find_maximum_covered will (snd s);
     case mprs of
       None \<Rightarrow> Some (False, s)
     | Some p \<Rightarrow> do {
         s' \<leftarrow> olsr_chosen_mpr cnf p s;
         if fst s' \<ge> two_hop_count then Some (True, s') else choose_max fuel cnf will two_hop_count s'
       }
   }"

fun choose_by_willingness :: "nb_config \<Rightarrow> u8 list \<Rightarrow> u16 \<Rightarrow> u16 \<times> neighborhood \<Rightarrow> (u16 \<times> neighborhood) option" where
  "choose_by_willingness cnf [] two_hop_count s = Some s"
| "choose_by_willingness cnf (i # is) two_hop_count s = do {
     two_hop_list \<leftarrow> olsr_find_2_hop_neighbors_with_1_link i (snd s);
     s1 \<leftarrow> foldM (choose_1_link cnf) two_hop_list s;
     if fst s1 \<ge> two_hop_count then Some s1
     else do {
       (stop, s2) \<leftarrow> choose_max (length (all_neighbors (snd s1)) + 1) cnf i two_hop_count s1;
       if stop then Some s2 else choose_by_willingness cnf is two_hop_count s2
     }
   }"

definition still_needed :: "nb_config \<Rightarrow> neighborhood \<Rightarrow> ptr \<Rightarrow> bool option" where
  "still_needed cnf db q = do {
     nl \<leftarrow> nbr2_lists db q;
     e2 \<leftarrow> two_hops db (neighbor_2 nl);
     dup \<leftarrow> dup_status (neighbor_2_addr e2) db;
     Some (\<not> (case dup of None \<Rightarrow> False | Some s \<Rightarrow> s \<noteq> NOT_SYM) \<and> mpr_covered_count e2 \<le> mpr_coverage cnf)
   }"

definition optimize_neighbor :: "nb_config \<Rightarrow> u8 \<Rightarrow> ptr \<Rightarrow> neighborhood \<Rightarrow> neighborhood option" where
  "optimize_neighbor cnf i p db = do {
     e \<leftarrow> neighbors db p;
     if willingness e \<noteq> i \<or> \<not> is_mpr e then Some db
     else do {
       needs \<leftarrow> filterM (still_needed cnf db) (neighbor_2_list e);
       Some (if needs = [] then upd_nbr p (\<lambda>e. e\<lparr>is_mpr := False\<rparr>) db else db)
     }
   }"

definition olsr_optimize_mpr_set :: "nb_config \<Rightarrow> neighborhood \<Rightarrow> neighborhood option" where
  "olsr_optimize_mpr_set cnf db =
     foldM (\<lambda>i db. foldM (optimize_neighbor cnf i) (all_neighbors db) db) [1, 2, 3, 4, 5, 6] db"

definition olsr_calculate_mpr :: "nb_config \<Rightarrow> neighborhood \<Rightarrow> neighborhood option" where
  "olsr_calculate_mpr cnf db = do {
     db1 \<leftarrow> olsr_clear_mprs db;
     (two_hop_count, db2) \<leftarrow> olsr_calculate_two_hop_neighbors db1;
     (two_hop_covered_count, db3) \<leftarrow> add_will_always_nodes cnf db2;
     (_, db4) \<leftarrow> choose_by_willingness cnf [6, 5, 4, 3, 2, 1] two_hop_count (two_hop_covered_count, db3);
     db5 \<leftarrow> olsr_optimize_mpr_set cnf db4;
     (changes, db6) \<leftarrow> olsr_check_mpr_changes db5;
     Some (if changes \<and> tc_redundancy cnf > 0 then db6\<lparr>link_changes := True\<rparr> else db6)
   }"

section \<open>What the selection leaves alone\<close>

definition mpr_frame :: "neighborhood \<Rightarrow> neighborhood \<Rightarrow> bool" where
  "mpr_frame db db' \<longleftrightarrow> same_shape db db' \<and> same_mid db db' \<and>
     (\<forall>p. map_option (\<lambda>e. (status e, willingness e)) (neighbors db' p) = map_option (\<lambda>e. (status e, willingness e)) (neighbors db p))"

lemma mpr_frame_refl [simp]: "mpr_frame db db"
  by (simp add: mpr_frame_def)

lemma mpr_frame_trans [trans]: "mpr_frame a b \<Longrightarrow> mpr_frame b c \<Longrightarrow> mpr_frame a c"
  unfolding mpr_frame_def by (auto intro: same_shape_trans same_mid_trans)

lemma mpr_frame_nbr:
  "(\<And>e. neighbor_main_addr (f e) = neighbor_main_addr e \<and> neighbor_2_list (f e) = neighbor_2_list e \<and> status (f e) = status e \<and>
      willingness (f e) = willingness e) \<Longrightarrow> mpr_frame db (upd_nbr p f db)"
  unfolding mpr_frame_def by (auto simp: same_mid_def option.map_comp comp_def intro!: same_shape_nbr)

lemma mpr_frame_nbr2:
  "(\<And>e. neighbor_2_addr (f e) = neighbor_2_addr e \<and> neighbor_2_pointer (f e) = neighbor_2_pointer e \<and>
      map neighbor (neighbor_2_nblist (f e)) = map neighbor (neighbor_2_nblist e)) \<Longrightarrow> mpr_frame db (upd_nbr2 p f db)"
  unfolding mpr_frame_def by (auto simp: same_mid_def intro!: same_shape_nbr2)

lemma mpr_frame_flag [simp]: "mpr_frame db (db'\<lparr>link_changes := b\<rparr>) = mpr_frame db db'"
  by (simp add: mpr_frame_def same_shape_def same_mid_def)

definition mprs :: "neighborhood \<Rightarrow> ptr set" where
  "mprs db = {p. \<exists>e. neighbors db p = Some e \<and> is_mpr e}"

lemma mprs_nbr: "(\<And>e. is_mpr (f e) = is_mpr e) \<Longrightarrow> mprs (upd_nbr p f db) = mprs db"
  by (auto simp: mprs_def)

lemma mprs_nbr2 [simp]: "mprs (upd_nbr2 p f db) = mprs db" "mprs (db\<lparr>link_changes := b\<rparr>) = mprs db"
  by (simp_all add: mprs_def)

text \<open>A loop keeps an invariant that its body keeps; what it does to an observation adds up.\<close>

lemma foldM_keep:
  assumes "\<And>x s. x \<in> set xs \<Longrightarrow> I s \<Longrightarrow> \<exists>s'. f x s = Some s' \<and> I s'" "I s"
  shows "\<exists>s'. foldM f xs s = Some s' \<and> I s'"
  using assms
proof (induction xs arbitrary: s)
  case (Cons x xs)
  obtain s' where "f x s = Some s'" "I s'" using Cons.prems(1) [of x s] Cons.prems(2) by auto
  with Cons show ?case by auto
qed simp

lemma foldM_observe:
  assumes "\<And>x s s'. f x s = Some s' \<Longrightarrow> g s' = h x (g s)" "foldM f xs s = Some s'"
  shows "g s' = fold h xs (g s)"
  using assms
proof (induction xs arbitrary: s)
  case (Cons x xs)
  from Cons.prems(2) obtain t where "f x s = Some t" "foldM f xs t = Some s'" by (auto split: bind_splits)
  with Cons show ?case by simp
qed simp

lemma fold_id: "fold (\<lambda>_ y. y) xs z = z"
  by (induction xs) auto

lemma fold_minus: "fold (\<lambda>x M. M - {x}) xs M = M - set xs"
  by (induction xs arbitrary: M) auto

lemma filterM_total: "\<forall>x\<in>set xs. t x \<noteq> None \<Longrightarrow> filterM t xs = Some (filter (\<lambda>x. t x = Some True) xs)"
  by (induction xs) auto

section \<open>Validity of the pointers followed\<close>

text \<open>Everything reached from the tables of a consistent neighbourhood is valid, whatever the flags.\<close>

lemma frame_inv: "nb_inv d \<Longrightarrow> mpr_frame d db \<Longrightarrow> nb_inv db"
  unfolding mpr_frame_def by (blast intro: inv_same_shape)

lemma all_neighbors_valid:
  assumes "nb_core db"
  shows "p \<in> set (all_neighbors db) \<longleftrightarrow> neighbors db p \<noteq> None"
proof -
  note b = bucket_okD(1) [OF tables_fresh(4) [OF assms]]
  have "p \<in> set (all_neighbors db) \<longleftrightarrow> (\<exists>h<HASHSIZE. p \<in> set (neighbortable db h))" by (auto simp: all_neighbors_def)
  also have "\<dots> \<longleftrightarrow> (\<exists>e. neighbors db p = Some e)" unfolding b by auto
  finally show ?thesis by auto
qed

lemma distinct_all_neighbors:
  assumes "nb_core db"
  shows "distinct (all_neighbors db)"
proof -
  note b = tables_fresh(4) [OF assms]
  have "distinct (concat (map (neighbortable db) [0..<n]))" for n
  proof (induction n)
    case (Suc n)
    have "set (concat (map (neighbortable db) [0..<n])) \<inter> set (neighbortable db n) = {}"
      using bucket_okD(1) [OF b] by fastforce
    with Suc bucket_okD(2) [OF b, of n] show ?case by auto
  qed simp
  thus ?thesis by (simp add: all_neighbors_def)
qed

lemma all_two_hops_valid:
  assumes "nb_core db"
  shows "p \<in> set (all_two_hops db) \<longleftrightarrow> two_hops db p \<noteq> None"
proof -
  note b = bucket_okD(1) [OF tables_fresh(5) [OF assms]]
  have "p \<in> set (all_two_hops db) \<longleftrightarrow> (\<exists>h<HASHSIZE. p \<in> set (two_hop_neighbortable db h))" by (auto simp: all_two_hops_def)
  also have "\<dots> \<longleftrightarrow> (\<exists>e. two_hops db p = Some e)" unfolding b by auto
  finally show ?thesis by auto
qed

lemma frame_tables:
  assumes "mpr_frame d db"
  shows "all_neighbors db = all_neighbors d" "all_two_hops db = all_two_hops d"
  using assms by (simp_all add: mpr_frame_def same_shape_def all_neighbors_def all_two_hops_def)

lemma dup_status_ok: "nb_core db \<Longrightarrow> \<exists>r. dup_status a db = Some r"
  using lookup_neighbor_ok [of db a] by (auto simp: dup_status_def split: option.splits)

lemma list_valid:
  assumes "nb_core db" "neighbors db p = Some e" "q \<in> set (neighbor_2_list e)"
  shows "\<exists>nl e2. nbr2_lists db q = Some nl \<and> nbr2_nbr nl = p \<and> two_hops db (neighbor_2 nl) = Some e2"
  using nb_core_nbrD(2) [OF assms] nb_core_linkD [OF assms(1)] by metis

lemma frame_list:
  assumes "mpr_frame d db" "nb_inv d" "neighbors d p = Some e" "q \<in> set (neighbor_2_list e)"
  shows "\<exists>nl e2. nbr2_lists db q = Some nl \<and> nbr2_nbr nl = p \<and> two_hops db (neighbor_2 nl) = Some e2"
proof -
  obtain e' where "neighbors db p = Some e'" "neighbor_2_list e' = neighbor_2_list e"
    using same_shapeD(2) assms(1,3) unfolding mpr_frame_def by blast
  with assms list_valid [OF nb_inv_core [OF frame_inv [OF assms(2,1)]]] show ?thesis by metis
qed

lemma findM_cong: "(\<And>x. x \<in> set xs \<Longrightarrow> t x = t' x) \<Longrightarrow> findM t xs = findM t' xs"
proof (induction xs)
  case (Cons x xs)
  have "findM t xs = findM t' xs" "t x = t' x" using Cons by simp_all
  thus ?case by (simp only: findM.simps)
qed simp

lemma dup_status_frame:
  assumes "mpr_frame d db"
  shows "dup_status a db = dup_status a d"
proof -
  have sh: "neighbortable db = neighbortable d" "\<And>p. map_option (\<lambda>e. (neighbor_main_addr e, neighbor_2_list e)) (neighbors db p) =
          map_option (\<lambda>e. (neighbor_main_addr e, neighbor_2_list e)) (neighbors d p)" and mid: "same_mid d db"
    and st: "\<And>p. map_option (\<lambda>e. (status e, willingness e)) (neighbors db p) = map_option (\<lambda>e. (status e, willingness e)) (neighbors d p)"
    using assms unfolding mpr_frame_def same_shape_def by blast+
  have "map_option (\<lambda>e. ipequal (neighbor_main_addr e) b) (neighbors db p) = map_option (\<lambda>e. ipequal (neighbor_main_addr e) b) (neighbors d p)" for p b
    using arg_cong [OF sh(2) [of p], of "map_option (\<lambda>x. ipequal (fst x) b)"] by (simp only: option.map_comp comp_def fst_conv)
  hence "olsr_lookup_neighbor_table_alias b db = olsr_lookup_neighbor_table_alias b d" for b
    unfolding olsr_lookup_neighbor_table_alias_def sh(1) by (intro findM_cong)
  hence l: "olsr_lookup_neighbor_table a db = olsr_lookup_neighbor_table a d"
    by (simp add: olsr_lookup_neighbor_table_def mid_lookup_same [OF mid])
  have "map_option (\<lambda>e. Some (status e)) (neighbors db p) = map_option (\<lambda>e. Some (status e)) (neighbors d p)" for p
    using arg_cong [OF st [of p], of "map_option (\<lambda>x. Some (fst x))"] by (simp only: option.map_comp comp_def fst_conv)
  thus ?thesis unfolding dup_status_def l by presburger
qed

section \<open>The pieces\<close>

lemma decrement_ok:
  assumes "nb_core db" "two_hops db p2 = Some e2"
  shows "\<exists>db'. foldM decrement_nocov (neighbor_2_nblist e2) db = Some db' \<and> mpr_frame db db' \<and> mprs db' = mprs db"
proof -
  let ?I = "\<lambda>db'. mpr_frame db db' \<and> mprs db' = mprs db"
  have "\<exists>s'. decrement_nocov x s = Some s' \<and> ?I s'" if x: "x \<in> set (neighbor_2_nblist e2)" and I: "?I s" for x s
  proof -
    obtain e where "neighbors db (neighbor x) = Some e" by (rule nb_core_nblist [OF assms x])
    then obtain e' where e': "neighbors s (neighbor x) = Some e'" using I same_shapeD(2) unfolding mpr_frame_def by blast
    let ?d = "upd_nbr (neighbor x) (\<lambda>e. e\<lparr>neighbor_2_nocov := neighbor_2_nocov e - 1\<rparr>) s"
    have "mpr_frame s ?d" by (rule mpr_frame_nbr) simp
    hence "?I ?d" using I mpr_frame_trans mprs_nbr by simp blast
    with e' I show ?thesis by (simp add: decrement_nocov_def)
  qed
  thus ?thesis by (rule foldM_keep) simp_all
qed

lemma cover_ok:
  assumes core: "nb_core db" and q: "nbr2_lists db q = Some nl" "two_hops db (neighbor_2 nl) = Some e2"
  shows "\<exists>c' db'. cover_two_hop cnf q (c, db) = Some (c', db') \<and> mpr_frame db db' \<and> mprs db' = mprs db"
proof -
  obtain r where r: "dup_status (neighbor_2_addr e2) db = Some r" using dup_status_ok [OF core] by blast
  let ?d = "upd_nbr2 (neighbor_2 nl) (\<lambda>e2. e2\<lparr>mpr_covered_count := mpr_covered_count e2 + 1\<rparr>) db"
  have fr: "mpr_frame db ?d" by (rule mpr_frame_nbr2) simp
  have "nb_core ?d" using fr core core_same_shape unfolding mpr_frame_def by blast
  then obtain d' where d': "foldM decrement_nocov (neighbor_2_nblist e2) ?d = Some d'" "mpr_frame ?d d'" "mprs d' = mprs ?d"
    using decrement_ok [of ?d "neighbor_2 nl" "e2\<lparr>mpr_covered_count := mpr_covered_count e2 + 1\<rparr>"] q by auto
  have "mpr_frame db d'" using fr d'(2) by (rule mpr_frame_trans)
  with fr q r d' show ?thesis by (auto simp: cover_two_hop_def Let_def)
qed

lemma chosen_ok:
  assumes inv: "nb_inv db" and e: "neighbors db p = Some e"
  shows "\<exists>c' db'. olsr_chosen_mpr cnf p (c, db) = Some (c', db') \<and> mpr_frame db db' \<and> mprs db' = insert p (mprs db)"
proof -
  let ?d = "upd_nbr p (\<lambda>e. e\<lparr>is_mpr := True\<rparr>) db"
  let ?I = "\<lambda>(c :: u16, db'). mpr_frame db db' \<and> mprs db' = insert p (mprs db)"
  have "mpr_frame db ?d" by (rule mpr_frame_nbr) simp
  moreover have "mprs ?d = insert p (mprs db)" using e by (auto simp: mprs_def)
  ultimately have start: "?I (c, ?d)" by simp
  have "\<exists>s'. cover_two_hop cnf q s = Some s' \<and> ?I s'" if q: "q \<in> set (neighbor_2_list e)" and I: "?I s" for q s
  proof -
    obtain c d where s: "s = (c, d)" by force
    with I have d: "mpr_frame db d" "mprs d = insert p (mprs db)" by simp_all
    obtain nl e2 where "nbr2_lists d q = Some nl" "two_hops d (neighbor_2 nl) = Some e2"
      using frame_list [OF d(1) inv e q] by blast
    from cover_ok [OF nb_inv_core [OF frame_inv [OF inv d(1)]] this, of cnf c] d show ?thesis
      unfolding s by (auto intro: mpr_frame_trans)
  qed
  from foldM_keep [OF this start, of "neighbor_2_list e"] e show ?thesis by (auto simp: olsr_chosen_mpr_def)
qed

lemma find_max_ok:
  assumes core: "nb_core db"
  shows "\<exists>r. olsr_find_maximum_covered will db = Some r \<and>
    (case r of None \<Rightarrow> True | Some p \<Rightarrow> \<exists>e. neighbors db p = Some e \<and> \<not> is_mpr e \<and> willingness e = will)"
proof -
  let ?I = "\<lambda>(m :: u16, r). case r of None \<Rightarrow> True | Some p \<Rightarrow> \<exists>e. neighbors db p = Some e \<and> \<not> is_mpr e \<and> willingness e = will"
  have step: "\<exists>s'. max_covered_step will db p s = Some s' \<and> ?I s'" if p: "p \<in> set (all_neighbors db)" and I: "?I s" for p s
  proof -
    obtain e where "neighbors db p = Some e" using p all_neighbors_valid [OF core] by blast
    with I show ?thesis by (cases s) (auto simp: max_covered_step_def split: option.splits)
  qed
  have "\<exists>s. foldM (max_covered_step will db) (all_neighbors db) (0, None) = Some s \<and> ?I s"
    by (rule foldM_keep [OF step]) simp_all
  then obtain s where "foldM (max_covered_step will db) (all_neighbors db) (0, None) = Some s" "?I s" by blast
  thus ?thesis by (cases s) (auto simp: olsr_find_maximum_covered_def)
qed

lemma one_link_ok:
  assumes inv: "nb_inv db"
  shows "\<exists>ps. olsr_find_2_hop_neighbors_with_1_link will db = Some ps \<and>
    (\<forall>p2\<in>set ps. \<exists>e2 x xs e. two_hops db p2 = Some e2 \<and> neighbor_2_nblist e2 = x # xs \<and> neighbors db (neighbor x) = Some e \<and>
       willingness e = will \<and> status e = SYM)"
proof -
  note core = nb_inv_core [OF inv]
  have t: "\<exists>b e2 x xs e. has_1_link will db p2 = Some b \<and> two_hops db p2 = Some e2 \<and> neighbor_2_nblist e2 = x # xs \<and>
      neighbors db (neighbor x) = Some e \<and> (b \<longrightarrow> willingness e = will \<and> status e = SYM)" if p2: "p2 \<in> set (all_two_hops db)" for p2
  proof -
    obtain e2 where e2: "two_hops db p2 = Some e2" using p2 all_two_hops_valid [OF core] by blast
    obtain x xs where x: "neighbor_2_nblist e2 = x # xs" using nb_inv_linked [OF inv e2] by (meson neq_Nil_conv)
    obtain e where e: "neighbors db (neighbor x) = Some e" by (rule nb_core_nblist [OF core e2, of x]) (use x in simp)
    obtain r where "dup_status (neighbor_2_addr e2) db = Some r" using dup_status_ok [OF core] by blast
    with e2 x e show ?thesis by (auto simp: has_1_link_def)
  qed
  hence "\<forall>p2\<in>set (all_two_hops db). has_1_link will db p2 \<noteq> None" by (metis option.distinct(1))
  from filterM_total [OF this] have "olsr_find_2_hop_neighbors_with_1_link will db =
      Some (rev (filter (\<lambda>x. has_1_link will db x = Some True) (all_two_hops db)))"
    by (simp add: olsr_find_2_hop_neighbors_with_1_link_def)
  moreover have "\<exists>e2 x xs e. two_hops db p2 = Some e2 \<and> neighbor_2_nblist e2 = x # xs \<and> neighbors db (neighbor x) = Some e \<and>
       willingness e = will \<and> status e = SYM" if "p2 \<in> set (all_two_hops db)" "has_1_link will db p2 = Some True" for p2
    using t [OF that(1)] that(2) by (metis option.inject)
  ultimately show ?thesis by simp
qed

lemma clear_mprs_ok:
  assumes inv: "nb_inv db"
  shows "\<exists>db'. olsr_clear_mprs db = Some db' \<and> mpr_frame db db' \<and> mprs db' = {}"
proof -
  have cov: "\<exists>d'. foldM clear_covered (neighbor_2_list e) d = Some d' \<and> mpr_frame db d'"
    if d: "mpr_frame db d" and e: "neighbors d p = Some e" for d p e
  proof (rule foldM_keep)
    show "mpr_frame db d" by (rule d)
    fix q s assume q: "q \<in> set (neighbor_2_list e)" and s: "mpr_frame db s"
    obtain e0 where e0: "neighbors db p = Some e0" "neighbor_2_list e0 = neighbor_2_list e"
      using d e same_shapeD(1) unfolding mpr_frame_def by metis
    obtain nl e2 where nl: "nbr2_lists s q = Some nl" "two_hops s (neighbor_2 nl) = Some e2"
      using frame_list [OF s inv e0(1), of q] q e0(2) by auto
    have "mpr_frame s (upd_nbr2 (neighbor_2 nl) (\<lambda>e2. e2\<lparr>mpr_covered_count := 0\<rparr>) s)" by (rule mpr_frame_nbr2) simp
    with nl s show "\<exists>s'. clear_covered q s = Some s' \<and> mpr_frame db s'"
      by (auto simp: clear_covered_def intro: mpr_frame_trans)
  qed
  have cov_mprs: "mprs d' = mprs d" if "foldM clear_covered qs d = Some d'" for qs d d'
  proof -
    have "mprs d' = fold (\<lambda>_ M. M) qs (mprs d)"
      by (rule foldM_observe [OF _ that]) (auto simp: clear_covered_def split: bind_splits)
    thus ?thesis by (simp add: fold_id)
  qed
  have "\<exists>s'. clear_mpr p s = Some s' \<and> mpr_frame db s'" if p: "p \<in> set (all_neighbors db)" and s: "mpr_frame db s" for p s
  proof -
    note si = frame_inv [OF inv s]
    obtain e where e: "neighbors s p = Some e"
      using p all_neighbors_valid [OF nb_inv_core [OF si]] frame_tables(1) [OF s] by auto
    let ?s = "if is_mpr e then upd_nbr p (\<lambda>e. e\<lparr>was_mpr := True, is_mpr := False\<rparr>) s else s"
    let ?e = "if is_mpr e then e\<lparr>was_mpr := True, is_mpr := False\<rparr> else e"
    have "mpr_frame s ?s" by (simp add: mpr_frame_nbr)
    hence "mpr_frame db ?s" using s mpr_frame_trans by blast
    from cov [OF this, of p ?e] e show ?thesis by (cases "is_mpr e") (simp_all add: clear_mpr_def)
  qed
  hence "\<exists>db'. foldM clear_mpr (all_neighbors db) db = Some db' \<and> mpr_frame db db'" by (rule foldM_keep) simp_all
  then obtain d where d: "foldM clear_mpr (all_neighbors db) db = Some d" "mpr_frame db d" by blast
  have "mprs d = fold (\<lambda>x M. M - {x}) (all_neighbors db) (mprs db)"
  proof (rule foldM_observe [OF _ d(1)])
    fix p s s' assume "clear_mpr p s = Some s'"
    then obtain e where e: "neighbors s p = Some e"
      "foldM clear_covered (neighbor_2_list e) (if is_mpr e then upd_nbr p (\<lambda>e. e\<lparr>was_mpr := True, is_mpr := False\<rparr>) s else s) = Some s'"
      by (auto simp: clear_mpr_def split: bind_splits)
    have "mprs (if is_mpr e then upd_nbr p (\<lambda>e. e\<lparr>was_mpr := True, is_mpr := False\<rparr>) s else s) = mprs s - {p}"
      using e(1) by (auto simp: mprs_def)
    with cov_mprs [OF e(2)] show "mprs s' = mprs s - {p}" by simp
  qed
  also have "\<dots> = {}" using all_neighbors_valid [OF nb_inv_core [OF inv]] by (auto simp: fold_minus mprs_def)
  finally show ?thesis using d by (simp add: olsr_clear_mprs_def)
qed

lemma count_ok:
  assumes inv: "nb_inv db" and none: "mprs db = {}"
  shows "\<exists>n db'. olsr_calculate_two_hop_neighbors db = Some (n, db') \<and> mpr_frame db db' \<and> mprs db' = {}"
proof -
  let ?F = "\<lambda>d. mpr_frame db d \<and> mprs d = {}"
  have "\<exists>s'. clear_processed p2 s = Some s' \<and> ?F s'" if p2: "p2 \<in> set (all_two_hops db)" and s: "?F s" for p2 s
  proof -
    have "two_hops s p2 \<noteq> None"
      using p2 all_two_hops_valid [OF nb_inv_core [OF frame_inv [OF inv]]] frame_tables(2) s by metis
    moreover have "mpr_frame s (upd_nbr2 p2 (\<lambda>e2. e2\<lparr>processed := 0\<rparr>) s)" by (rule mpr_frame_nbr2) simp
    ultimately show ?thesis using s by (auto simp: clear_processed_def intro: mpr_frame_trans)
  qed
  hence "\<exists>d. foldM clear_processed (all_two_hops db) db = Some d \<and> ?F d" by (rule foldM_keep) (use none in simp_all)
  then obtain d where d: "olsr_clear_two_hop_processed db = Some d" "?F d" by (auto simp: olsr_clear_two_hop_processed_def)
  have two: "\<exists>s'. foldM count_two_hop (neighbor_2_list e) (c, n, t) = Some s' \<and> ?F (snd (snd s'))"
    if t: "?F t" and e: "neighbors t p = Some e" for c n t p e
  proof (rule foldM_keep)
    show "?F (snd (snd (c, n, t)))" using t by simp
    fix q and s :: "u16 \<times> u16 \<times> neighborhood"
    assume q: "q \<in> set (neighbor_2_list e)" and s: "?F (snd (snd s))"
    obtain c' n' u where su: "s = (c', n', u)" by (cases s) auto
    obtain e0 where e0: "neighbors db p = Some e0" "neighbor_2_list e0 = neighbor_2_list e"
      using t e same_shapeD(1) unfolding mpr_frame_def by metis
    have u: "?F u" using s su by simp
    obtain nl e2 where nl: "nbr2_lists u q = Some nl" "two_hops u (neighbor_2 nl) = Some e2"
      using frame_list [OF _ inv e0(1), of u q] q e0(2) u by auto
    obtain r where r: "dup_status (neighbor_2_addr e2) u = Some r" using dup_status_ok [OF nb_inv_core [OF frame_inv [OF inv]]] u by blast
    have "mpr_frame u (upd_nbr2 (neighbor_2 nl) (\<lambda>e2. e2\<lparr>processed := 1\<rparr>) u)" by (rule mpr_frame_nbr2) simp
    with u have "?F (upd_nbr2 (neighbor_2 nl) (\<lambda>e2. e2\<lparr>processed := 1\<rparr>) u)" by (auto intro: mpr_frame_trans)
    with nl r u show "\<exists>s'. count_two_hop q s = Some s' \<and> ?F (snd (snd s'))" unfolding su by (auto simp: count_two_hop_def)
  qed
  have "\<exists>s'. count_neighbor p s = Some s' \<and> ?F (snd (snd (snd s')))" if p: "p \<in> set (all_neighbors d)" and s: "?F (snd (snd (snd s)))" for p s
  proof -
    obtain sm c n t where st: "s = (sm, c, n, t)" by (cases s) auto
    have t: "?F t" using s st by simp
    obtain e where e: "neighbors t p = Some e"
      using p all_neighbors_valid [OF nb_inv_core [OF frame_inv [OF inv, of t]]] frame_tables(1) t d(2) by (metis not_Some_eq)
    have nocov: "?F (upd_nbr p (\<lambda>e. e\<lparr>neighbor_2_nocov := k\<rparr>) u)" if "?F u" for u k
    proof -
      have "mpr_frame u (upd_nbr p (\<lambda>e. e\<lparr>neighbor_2_nocov := k\<rparr>) u)" by (rule mpr_frame_nbr) simp
      with that show ?thesis by (auto intro: mpr_frame_trans simp: mprs_nbr)
    qed
    obtain s' where "foldM count_two_hop (neighbor_2_list e) (c, n, t) = Some s'" "?F (snd (snd s'))" using two [OF t e] by blast
    with nocov e t show ?thesis unfolding st by (cases s') (auto simp: count_neighbor_def)
  qed
  hence "\<exists>s'. foldM count_neighbor (all_neighbors d) (0, 0, 0, d) = Some s' \<and> ?F (snd (snd (snd s')))"
    by (rule foldM_keep) (use d in simp_all)
  with d(1) show ?thesis by (auto simp: olsr_calculate_two_hop_neighbors_def)
qed

text \<open>The neighbours that are always relays, and those that may be chosen.\<close>

definition always_mprs :: "neighborhood \<Rightarrow> ptr set" where
  "always_mprs db = {p. \<exists>e. neighbors db p = Some e \<and> status e \<noteq> NOT_SYM \<and> willingness e = WILL_ALWAYS}"

definition willing :: "neighborhood \<Rightarrow> ptr set" where
  "willing db = {p. \<exists>e. neighbors db p = Some e \<and> WILL_NEVER < willingness e \<and> willingness e < WILL_ALWAYS}"

lemma frame_entry:
  assumes "mpr_frame db d" "neighbors d p = Some e"
  shows "\<exists>e0. neighbors db p = Some e0 \<and> status e0 = status e \<and> willingness e0 = willingness e"
  using assms(1) map_option_Some [OF _ assms(2), of "\<lambda>e. (status e, willingness e)" "neighbors db p"] unfolding mpr_frame_def by auto

lemma frame_entry_rev:
  assumes "mpr_frame db d" "neighbors db p = Some e0"
  shows "\<exists>e. neighbors d p = Some e \<and> status e = status e0 \<and> willingness e = willingness e0"
  using assms(1) map_option_Some [OF _ assms(2), of "\<lambda>e. (status e, willingness e)" "neighbors d p"] unfolding mpr_frame_def by auto

lemma always_ok:
  assumes inv: "nb_inv db" and none: "mprs db = {}"
  shows "\<exists>n db'. add_will_always_nodes cnf db = Some (n, db') \<and> mpr_frame db db' \<and> mprs db' = always_mprs db"
proof -
  have "\<exists>s'. foldM (add_will_always cnf) ps s = Some s' \<and> mpr_frame db (snd s') \<and> mprs (snd s') = mprs (snd s) \<union> (always_mprs db \<inter> set ps)"
    if "set ps \<subseteq> set (all_neighbors db)" "mpr_frame db (snd s)" for ps s
    using that
  proof (induction ps arbitrary: s)
    case (Cons p ps)
    obtain c d where s: "s = (c, d)" by force
    have d: "mpr_frame db d" using Cons.prems(2) s by simp
    note di = frame_inv [OF inv d]
    obtain e where e: "neighbors d p = Some e"
      using Cons.prems(1) all_neighbors_valid [OF nb_inv_core [OF di]] frame_tables(1) [OF d] by auto
    obtain e0 where e0: "neighbors db p = Some e0" "status e0 = status e" "willingness e0 = willingness e" using frame_entry [OF d e] by blast
    show ?case
    proof (cases "status e = NOT_SYM \<or> willingness e \<noteq> WILL_ALWAYS")
      case True
      hence "p \<notin> always_mprs db" using e0 by (auto simp: always_mprs_def)
      hence eq: "always_mprs db \<inter> set (p # ps) = always_mprs db \<inter> set ps" by auto
      have "add_will_always cnf p s = Some s" using True e s by (simp add: add_will_always_def)
      with Cons eq show ?thesis by auto
    next
      case False
      hence "p \<in> always_mprs db" using e0 by (auto simp: always_mprs_def)
      obtain c' d' where d': "olsr_chosen_mpr cnf p (c, d) = Some (c', d')" "mpr_frame d d'" "mprs d' = insert p (mprs d)"
        using chosen_ok [OF di e] by blast
      have "mpr_frame db d'" using d d'(2) by (rule mpr_frame_trans)
      moreover have "add_will_always cnf p s = Some (c', d')" using False e s d'(1) by (simp add: add_will_always_def)
      ultimately show ?thesis using Cons.IH [of "(c', d')"] Cons.prems(1) d'(3) s \<open>p \<in> always_mprs db\<close> by auto
    qed
  qed simp
  from this [of "all_neighbors db" "(0, db)"] obtain n d where d: "add_will_always_nodes cnf db = Some (n, d)" "mpr_frame db d"
    "mprs d = always_mprs db \<inter> set (all_neighbors db)" using none by (auto simp: add_will_always_nodes_def)
  moreover have "always_mprs db \<subseteq> set (all_neighbors db)" using all_neighbors_valid [OF nb_inv_core [OF inv]] by (auto simp: always_mprs_def)
  ultimately show ?thesis by (auto simp: Int_absorb2)
qed

section \<open>The whole selection\<close>

text \<open>Between the relays that must be there and those that may be chosen.\<close>

definition mpr_range :: "neighborhood \<Rightarrow> neighborhood \<Rightarrow> bool" where
  "mpr_range db d \<longleftrightarrow> mpr_frame db d \<and> always_mprs db \<subseteq> mprs d \<and> mprs d \<subseteq> always_mprs db \<union> willing db"

lemma choose_ok:
  assumes inv: "nb_inv db" and r: "mpr_range db d" and p: "neighbors d p = Some e" "WILL_NEVER < willingness e" "willingness e < WILL_ALWAYS"
  shows "\<exists>c' d'. olsr_chosen_mpr cnf p (c, d) = Some (c', d') \<and> mpr_range db d' \<and> mprs d' = insert p (mprs d)"
proof -
  have d: "mpr_frame db d" using r by (simp add: mpr_range_def)
  obtain c' d' where d': "olsr_chosen_mpr cnf p (c, d) = Some (c', d')" "mpr_frame d d'" "mprs d' = insert p (mprs d)"
    using chosen_ok [OF frame_inv [OF inv d] p(1)] by blast
  moreover have "p \<in> willing db" using frame_entry [OF d p(1)] p(2,3) by (auto simp: willing_def)
  moreover have "mpr_frame db d'" using d d'(2) by (rule mpr_frame_trans)
  ultimately show ?thesis using r by (auto simp: mpr_range_def)
qed

lemma choose_1_link_ok:
  assumes inv: "nb_inv db" and r: "mpr_range db d" and i: "WILL_NEVER < i" "i < WILL_ALWAYS"
    and ps: "olsr_find_2_hop_neighbors_with_1_link i d = Some ps"
  shows "\<exists>c' d'. foldM (choose_1_link cnf) ps (c, d) = Some (c', d') \<and> mpr_range db d'"
proof -
  have di: "nb_inv d" using frame_inv [OF inv] r by (simp add: mpr_range_def)
  have "\<exists>s'. choose_1_link cnf p2 s = Some s' \<and> mpr_range db (snd s')" if p2: "p2 \<in> set ps" and s: "mpr_range db (snd s)" for p2 s
  proof -
    obtain c t where st: "s = (c, t)" by force
    have t: "mpr_range db t" "mpr_frame db t" using s st by (simp_all add: mpr_range_def)
    obtain e2 x xs e where e2: "two_hops d p2 = Some e2" "neighbor_2_nblist e2 = x # xs" "neighbors d (neighbor x) = Some e" "willingness e = i"
      using one_link_ok [OF di, of i] ps p2 by auto
    have dt: "\<And>p. map_option (\<lambda>e2. (neighbor_2_addr e2, neighbor_2_pointer e2, map neighbor (neighbor_2_nblist e2))) (two_hops t p) =
          map_option (\<lambda>e2. (neighbor_2_addr e2, neighbor_2_pointer e2, map neighbor (neighbor_2_nblist e2))) (two_hops d p)"
      "\<And>p. map_option (\<lambda>e. (status e, willingness e)) (neighbors t p) = map_option (\<lambda>e. (status e, willingness e)) (neighbors d p)"
      using t(2) r unfolding mpr_range_def mpr_frame_def same_shape_def by simp_all
    obtain e2' where e2': "two_hops t p2 = Some e2'" "map neighbor (neighbor_2_nblist e2') = map neighbor (x # xs)"
      using map_option_Some [OF dt(1) [symmetric] e2(1)] e2(2) by auto
    then obtain y ys where y: "neighbor_2_nblist e2' = y # ys" "neighbor y = neighbor x" by (cases "neighbor_2_nblist e2'") auto
    obtain e' where e': "neighbors t (neighbor x) = Some e'" "willingness e' = i"
      using map_option_Some [OF dt(2) [symmetric] e2(3)] e2(4) by auto
    show ?thesis
    proof (cases "is_mpr e'")
      case True
      with e2'(1) y e' t(1) show ?thesis unfolding st by (simp add: choose_1_link_def)
    next
      case False
      obtain c' d' where "olsr_chosen_mpr cnf (neighbor x) (c, t) = Some (c', d')" "mpr_range db d'"
        using choose_ok [OF inv t(1) e'(1), of cnf c] e'(2) i by blast
      with False e2'(1) y e' show ?thesis unfolding st by (simp add: choose_1_link_def)
    qed
  qed
  hence "\<exists>s'. foldM (choose_1_link cnf) ps (c, d) = Some s' \<and> mpr_range db (snd s')" by (rule foldM_keep) (use r in simp_all)
  thus ?thesis by auto
qed

text \<open>Each pass of the loop makes one more neighbour a relay: the fuel is enough.\<close>

lemma choose_max_ok:
  assumes inv: "nb_inv db" and i: "WILL_NEVER < i" "i < WILL_ALWAYS"
  shows "mpr_range db (snd s) \<Longrightarrow> card (set (all_neighbors db) - mprs (snd s)) < fuel \<Longrightarrow>
    \<exists>b s'. choose_max fuel cnf i n s = Some (b, s') \<and> mpr_range db (snd s')"
proof (induction fuel arbitrary: s)
  case (Suc fuel)
  obtain c d where s: "s = (c, d)" by force
  have r: "mpr_range db d" "mpr_frame db d" using Suc.prems s by (simp_all add: mpr_range_def)
  note core = nb_inv_core [OF frame_inv [OF inv r(2)]]
  obtain m where m: "olsr_find_maximum_covered i d = Some m"
    "case m of None \<Rightarrow> True | Some p \<Rightarrow> \<exists>e. neighbors d p = Some e \<and> \<not> is_mpr e \<and> willingness e = i"
    using find_max_ok [OF core] by blast
  show ?case
  proof (cases m)
    case None
    with m r s show ?thesis by auto
  next
    case (Some p)
    with m(2) obtain e where e: "neighbors d p = Some e" "\<not> is_mpr e" "willingness e = i" by auto
    obtain c' d' where d': "olsr_chosen_mpr cnf p (c, d) = Some (c', d')" "mpr_range db d'" "mprs d' = insert p (mprs d)"
      using choose_ok [OF inv r(1) e(1), of cnf c] e(3) i by blast
    have "p \<in> set (all_neighbors db) - mprs d"
      using e all_neighbors_valid [OF core, of p] frame_tables(1) [OF r(2)] by (simp add: mprs_def)
    hence "card (set (all_neighbors db) - mprs d') < card (set (all_neighbors db) - mprs d)"
      unfolding d'(3) by (intro psubset_card_mono) auto
    hence "card (set (all_neighbors db) - mprs d') < fuel" using Suc.prems(2) s by simp
    with Suc.IH [of "(c', d')"] m(1) Some d'(1,2) s show ?thesis by (cases "c' \<ge> n") auto
  qed
qed simp

lemma choose_all_ok:
  assumes inv: "nb_inv db"
  shows "\<forall>i\<in>set is. WILL_NEVER < i \<and> i < WILL_ALWAYS \<Longrightarrow> mpr_range db (snd s) \<Longrightarrow>
    \<exists>s'. choose_by_willingness cnf is n s = Some s' \<and> mpr_range db (snd s')"
proof (induction "is" arbitrary: s)
  case (Cons i "is")
  obtain c d where s: "s = (c, d)" by force
  have r: "mpr_range db d" "mpr_frame db d" and i: "WILL_NEVER < i" "i < WILL_ALWAYS" using Cons.prems s by (simp_all add: mpr_range_def)
  obtain ps where ps: "olsr_find_2_hop_neighbors_with_1_link i d = Some ps" using one_link_ok [OF frame_inv [OF inv r(2)]] by blast
  obtain c1 d1 where d1: "foldM (choose_1_link cnf) ps (c, d) = Some (c1, d1)" "mpr_range db d1" using choose_1_link_ok [OF inv r(1) i ps] by blast
  have "all_neighbors d1 = all_neighbors db" using d1(2) frame_tables(1) by (simp add: mpr_range_def)
  hence "card (set (all_neighbors db) - mprs d1) < length (all_neighbors d1) + 1"
    using card_mono [of "set (all_neighbors db)" "set (all_neighbors db) - mprs d1"] card_length [of "all_neighbors db"] by auto
  then obtain b s2 where "choose_max (length (all_neighbors d1) + 1) cnf i n (c1, d1) = Some (b, s2)" "mpr_range db (snd s2)"
    using choose_max_ok [OF inv i, of "(c1, d1)" "length (all_neighbors d1) + 1" cnf n] d1(2) by (auto simp del: choose_max.simps)
  thus ?case using ps d1 s Cons.IH [of s2] Cons.prems(1) by (cases "c1 \<ge> n"; cases b) auto
qed simp

lemma optimize_ok:
  assumes inv: "nb_inv db" and r: "mpr_range db d"
  shows "\<exists>d'. olsr_optimize_mpr_set cnf d = Some d' \<and> mpr_range db d' \<and> mprs d' \<subseteq> mprs d"
proof -
  let ?I = "\<lambda>t. mpr_range db t \<and> mprs t \<subseteq> mprs d"
  have one: "\<exists>t'. optimize_neighbor cnf i p t = Some t' \<and> ?I t'" if i: "i < WILL_ALWAYS" and p: "p \<in> set (all_neighbors db)" and t: "?I t" for i p t
  proof -
    have fr: "mpr_frame db t" using t by (simp add: mpr_range_def)
    note core = nb_inv_core [OF frame_inv [OF inv fr]]
    obtain e where e: "neighbors t p = Some e" using p all_neighbors_valid [OF core] frame_tables(1) [OF fr] by auto
    have "still_needed cnf t q \<noteq> None" if q: "q \<in> set (neighbor_2_list e)" for q
    proof -
      obtain nl e2 where nl: "nbr2_lists t q = Some nl" "two_hops t (neighbor_2 nl) = Some e2" using list_valid [OF core e q] by blast
      obtain r where "dup_status (neighbor_2_addr e2) t = Some r" using dup_status_ok [OF core] by blast
      with nl show ?thesis by (simp add: still_needed_def)
    qed
    hence tot: "\<forall>q\<in>set (neighbor_2_list e). still_needed cnf t q \<noteq> None" by blast
    have "?I (upd_nbr p (\<lambda>e. e\<lparr>is_mpr := False\<rparr>) t)" if "willingness e = i"
    proof -
      have f: "mpr_frame t (upd_nbr p (\<lambda>e. e\<lparr>is_mpr := False\<rparr>) t)" by (rule mpr_frame_nbr) simp
      have "p \<notin> always_mprs db" using frame_entry [OF fr e] that i by (auto simp: always_mprs_def)
      moreover have "mprs (upd_nbr p (\<lambda>e. e\<lparr>is_mpr := False\<rparr>) t) = mprs t - {p}" by (auto simp: mprs_def)
      ultimately show ?thesis using t mpr_frame_trans [OF fr f] by (auto simp: mpr_range_def)
    qed
    with e t filterM_total [OF tot] show ?thesis by (auto simp: optimize_neighbor_def)
  qed
  have "\<exists>t'. foldM (optimize_neighbor cnf i) (all_neighbors t) t = Some t' \<and> ?I t'" if i: "i \<in> set [1, 2, 3, 4, 5, 6]" and t: "?I t" for i t
  proof (rule foldM_keep [OF one])
    show "i < WILL_ALWAYS" using i by (auto simp: WILL_ALWAYS_def)
    show "?I t" by (rule t)
    fix p assume "p \<in> set (all_neighbors t)"
    thus "p \<in> set (all_neighbors db)" using t frame_tables(1) by (auto simp: mpr_range_def)
  qed
  hence "\<exists>t'. foldM (\<lambda>i db. foldM (optimize_neighbor cnf i) (all_neighbors db) db) [1, 2, 3, 4, 5, 6] d = Some t' \<and> ?I t'"
    by (rule foldM_keep) (use r in blast)+
  thus ?thesis by (simp add: olsr_optimize_mpr_set_def)
qed

lemma check_ok:
  assumes inv: "nb_inv db"
  shows "\<exists>b d. olsr_check_mpr_changes db = Some (b, d) \<and> mpr_frame db d \<and> mprs d = mprs db"
proof -
  let ?I = "\<lambda>s :: bool \<times> neighborhood. mpr_frame db (snd s) \<and> mprs (snd s) = mprs db"
  have "\<exists>s'. check_change p s = Some s' \<and> ?I s'" if p: "p \<in> set (all_neighbors db)" and s: "?I s" for p s
  proof -
    obtain b t where st: "s = (b, t)" by force
    have t: "mpr_frame db t" "mprs t = mprs db" using s st by simp_all
    obtain e where e: "neighbors t p = Some e"
      using p all_neighbors_valid [OF nb_inv_core [OF frame_inv [OF inv t(1)]]] frame_tables(1) [OF t(1)] by auto
    have "mpr_frame t (upd_nbr p (\<lambda>e. e\<lparr>was_mpr := False\<rparr>) t)" by (rule mpr_frame_nbr) simp
    with t e show ?thesis unfolding st by (auto simp: check_change_def mprs_nbr intro: mpr_frame_trans)
  qed
  hence "\<exists>s'. foldM check_change (all_neighbors db) (False, db) = Some s' \<and> ?I s'" by (rule foldM_keep) simp_all
  thus ?thesis by (auto simp: olsr_check_mpr_changes_def)
qed

lemma calculate_mpr_ok:
  assumes inv: "nb_inv db"
  shows "\<exists>db'. olsr_calculate_mpr cnf db = Some db' \<and> nb_inv db' \<and> mpr_range db db'"
proof -
  obtain d1 where d1: "olsr_clear_mprs db = Some d1" "mpr_frame db d1" "mprs d1 = {}" using clear_mprs_ok [OF inv] by blast
  obtain n d2 where d2: "olsr_calculate_two_hop_neighbors d1 = Some (n, d2)" "mpr_frame d1 d2" "mprs d2 = {}"
    using count_ok [OF frame_inv [OF inv d1(2)] d1(3)] by blast
  have f2: "mpr_frame db d2" using d1(2) d2(2) by (rule mpr_frame_trans)
  obtain c d3 where d3: "add_will_always_nodes cnf d2 = Some (c, d3)" "mpr_frame d2 d3" "mprs d3 = always_mprs d2"
    using always_ok [OF frame_inv [OF inv f2] d2(3)] by blast
  have "always_mprs d2 = always_mprs db"
    using frame_entry [OF f2] frame_entry_rev [OF f2] unfolding always_mprs_def by (auto 0 3) metis+
  hence r3: "mpr_range db d3" using d3(2,3) f2 mpr_frame_trans by (auto simp: mpr_range_def)
  have levels: "\<forall>i\<in>set [6, 5, 4, 3, 2, 1]. WILL_NEVER < i \<and> i < WILL_ALWAYS" by (simp add: WILL_NEVER_def WILL_ALWAYS_def)
  obtain c' d4 where d4: "choose_by_willingness cnf [6, 5, 4, 3, 2, 1] n (c, d3) = Some (c', d4)" "mpr_range db d4"
    using choose_all_ok [OF inv levels, of "(c, d3)" cnf n] r3 by auto
  obtain d5 where d5: "olsr_optimize_mpr_set cnf d4 = Some d5" "mpr_range db d5" using optimize_ok [OF inv d4(2)] by blast
  have i5: "nb_inv d5" using frame_inv [OF inv] d5(2) by (simp add: mpr_range_def)
  obtain b d6 where d6: "olsr_check_mpr_changes d5 = Some (b, d6)" "mpr_frame d5 d6" "mprs d6 = mprs d5" using check_ok [OF i5] by blast
  have "mpr_range db d6" using d5(2) d6(2,3) mpr_frame_trans by (auto simp: mpr_range_def)
  moreover have "mpr_range db (d6\<lparr>link_changes := True\<rparr>) = mpr_range db d6" by (simp add: mpr_range_def)
  moreover have "nb_inv d6" by (rule frame_inv [OF i5 d6(2)])
  ultimately show ?thesis using d1(1) d2(1) d3(1) d4(1) d5(1) d6(1) by (simp add: olsr_calculate_mpr_def del: choose_by_willingness.simps)
qed

end
