(* ===== verification/Olsr_Mpr_Coverage.thy ===== *)
theory Olsr_Mpr_Coverage
  imports Olsr_Mpr
begin

text \<open>
  What the selection without link qualities guarantees, and where it fails: it always ends, never
  touches an invalid pointer and respects the willingness of the neighbours, but its counters can
  make it drop every relay although a two hop neighbour needs one.
\<close>

section \<open>The selection ends and respects willingness\<close>

text \<open>
  C39. In a consistent neighbourhood the relay selection ends (the repeated choice of the neighbour
  with the largest coverage included, whatever the counters hold) and touches no freed object.
  Afterwards only neighbours whose willingness lies between never and always are relays, a
  neighbour that is always willing is one exactly if its link is symmetric, and tables, links,
  status and willingness are as before.
\<close>

theorem mpr_selection_ends:
  assumes "nb_inv db"
  shows "\<exists>db'. olsr_calculate_mpr cnf db = Some db' \<and> nb_inv db' \<and> mpr_frame db db' \<and>
    (\<forall>p e. neighbors db' p = Some e \<longrightarrow>
       (is_mpr e \<longrightarrow> WILL_NEVER < willingness e \<and> willingness e \<le> WILL_ALWAYS) \<and>
       (willingness e = WILL_ALWAYS \<longrightarrow> (is_mpr e \<longleftrightarrow> status e \<noteq> NOT_SYM)))"
proof -
  obtain db' where d: "olsr_calculate_mpr cnf db = Some db'" "nb_inv db'" "mpr_range db db'" using calculate_mpr_ok [OF assms] by blast
  have fr: "mpr_frame db db'" using d(3) by (simp add: mpr_range_def)
  have "(is_mpr e \<longrightarrow> WILL_NEVER < willingness e \<and> willingness e \<le> WILL_ALWAYS) \<and>
       (willingness e = WILL_ALWAYS \<longrightarrow> (is_mpr e \<longleftrightarrow> status e \<noteq> NOT_SYM))" if e: "neighbors db' p = Some e" for p e
  proof -
    obtain e0 where e0: "neighbors db p = Some e0" "status e0 = status e" "willingness e0 = willingness e" using frame_entry [OF fr e] by blast
    have m: "is_mpr e \<longleftrightarrow> p \<in> mprs db'" using e by (auto simp: mprs_def)
    have a: "p \<in> always_mprs db \<longleftrightarrow> status e \<noteq> NOT_SYM \<and> willingness e = WILL_ALWAYS" using e0 by (auto simp: always_mprs_def)
    have w: "p \<in> willing db \<longleftrightarrow> WILL_NEVER < willingness e \<and> willingness e < WILL_ALWAYS" using e0 by (auto simp: willing_def)
    have "p \<in> always_mprs db \<Longrightarrow> p \<in> mprs db'" "p \<in> mprs db' \<Longrightarrow> p \<in> always_mprs db \<or> p \<in> willing db"
      using d(3) by (auto simp: mpr_range_def)
    with m a w show ?thesis by (auto simp: WILL_NEVER_def WILL_ALWAYS_def)
  qed
  with d(1,2) fr show ?thesis by blast
qed

section \<open>Common two hop neighbours\<close>

text \<open>
  Neighbourhoods in which all neighbours are symmetric, of one willingness, and linked to the same
  single two hop neighbour \<open>x\<close>, which is not a neighbour itself.
\<close>

definition common_two_hop :: "u8 \<Rightarrow> ptr \<Rightarrow> neighborhood \<Rightarrow> bool" where
  "common_two_hop w x db \<longleftrightarrow> nb_inv db \<and> dom (two_hops db) = {x} \<and>
     (\<forall>e2. two_hops db x = Some e2 \<longrightarrow> dup_status (neighbor_2_addr e2) db = Some None \<and>
        neighbor ` set (neighbor_2_nblist e2) = dom (neighbors db)) \<and>
     (\<forall>p e. neighbors db p = Some e \<longrightarrow> status e = SYM \<and> willingness e = w)"

text \<open>The values the selection works with: relays, counters of the neighbours, coverage of \<open>x\<close>.\<close>

definition mpr_state :: "neighborhood \<Rightarrow> ptr \<Rightarrow> ptr set \<Rightarrow> (ptr \<Rightarrow> int) \<Rightarrow> u8 \<Rightarrow> neighborhood \<Rightarrow> bool" where
  "mpr_state db x M f k d \<longleftrightarrow> mpr_frame db d \<and> mprs d = M \<and>
     (\<forall>p e. neighbors d p = Some e \<longrightarrow> neighbor_2_nocov e = f p) \<and>
     (\<forall>e2. two_hops d x = Some e2 \<longrightarrow> mpr_covered_count e2 = k)"

lemma common_links:
  assumes c: "common_two_hop w x db" and fr: "mpr_frame db d" and e: "neighbors d p = Some e"
  shows "\<exists>q nl e2. neighbor_2_list e = [q] \<and> nbr2_lists d q = Some nl \<and> neighbor_2 nl = x \<and> two_hops d x = Some e2 \<and>
    dup_status (neighbor_2_addr e2) d = Some None \<and> neighbor ` set (neighbor_2_nblist e2) = dom (neighbors d) \<and>
    distinct (map neighbor (neighbor_2_nblist e2)) \<and> status e = SYM \<and> willingness e = w"
proof -
  have inv: "nb_inv db" using c by (simp add: common_two_hop_def)
  note di = nb_inv_core [OF frame_inv [OF inv fr]]
  have sh: "same_shape db d" using fr by (simp add: mpr_frame_def)
  obtain e0 where e0: "neighbors db p = Some e0" "status e0 = status e" "willingness e0 = willingness e" using frame_entry [OF fr e] by blast
  have "x \<in> dom (two_hops db)" using c by (simp add: common_two_hop_def)
  then obtain f2 where f2: "two_hops db x = Some f2" by blast
  obtain e2 where e2: "two_hops d x = Some e2" "neighbor_2_addr e2 = neighbor_2_addr f2"
    "map neighbor (neighbor_2_nblist e2) = map neighbor (neighbor_2_nblist f2)" using same_shapeD(6) [OF sh f2] by blast
  have dom: "dom (neighbors d) = dom (neighbors db)"
    using same_shapeD(1,2) [OF sh] by (auto simp: dom_def) metis+
  have nb: "neighbor ` set (neighbor_2_nblist e2) = dom (neighbors d)"
    using c f2 map_eq_image [OF e2(3)] dom by (auto simp: common_two_hop_def)
  have only: "neighbor_2 nl = x" if ql: "nbr2_lists d q = Some nl" for q nl
  proof -
    obtain g where "two_hops d (neighbor_2 nl) = Some g" by (rule nb_core_linkD [OF di ql])
    then obtain g' where "two_hops db (neighbor_2 nl) = Some g'" using same_shapeD(5) [OF sh] by blast
    with c show ?thesis by (auto simp: common_two_hop_def dom_def)
  qed
  have "p \<in> neighbor ` set (neighbor_2_nblist e2)" using nb e by auto
  then obtain q nl where q: "nbr2_lists d q = Some nl" "nbr2_nbr nl = p" using nb_core_nbr2D(2) [OF di e2(1)] by blast
  have "q' = q" if q': "q' \<in> set (neighbor_2_list e)" for q'
  proof -
    obtain nl' where "nbr2_lists d q' = Some nl'" "nbr2_nbr nl' = p" using nb_core_nbrD(2) [OF di e q'] by blast
    with q only nb_coreD(3) [OF di] show ?thesis unfolding link_unique_def by metis
  qed
  moreover have "q \<in> set (neighbor_2_list e)" using nb_core_linkD [OF di q(1)] q(2) e by (metis option.inject)
  ultimately have "neighbor_2_list e = [q]"
    using nb_core_nbrD(1) [OF di e] by (metis distinct_length_2_or_more list.set_intros empty_iff list.set(1) neq_Nil_conv list.set_intros(2))
  moreover have "dup_status (neighbor_2_addr e2) d = Some None" unfolding dup_status_frame [OF fr] e2(2) using c f2 by (simp add: common_two_hop_def)
  moreover have "status e = SYM" "willingness e = w" using c e0 by (auto simp: common_two_hop_def)
  ultimately show ?thesis using q only e2(1) nb nb_core_nbr2D(1) [OF di e2(1)] by metis
qed

lemma decrement_all:
  assumes "distinct (map neighbor xs)" "\<forall>x\<in>set xs. \<exists>e. neighbors d (neighbor x) = Some e \<and> status e = SYM"
  shows "\<exists>d'. foldM decrement_nocov xs d = Some d' \<and> two_hops d' = two_hops d \<and> mprs d' = mprs d \<and> mpr_frame d d' \<and>
    (\<forall>p. map_option neighbor_2_nocov (neighbors d' p) = map_option (\<lambda>e. if p \<in> neighbor ` set xs then neighbor_2_nocov e - 1 else neighbor_2_nocov e) (neighbors d p))"
  using assms
proof (induction xs arbitrary: d)
  case (Cons x xs)
  obtain e where e: "neighbors d (neighbor x) = Some e" "status e = SYM" using Cons.prems(2) by auto
  let ?d = "upd_nbr (neighbor x) (\<lambda>e. e\<lparr>neighbor_2_nocov := neighbor_2_nocov e - 1\<rparr>) d"
  have fr: "mpr_frame d ?d" by (rule mpr_frame_nbr) simp
  have nx: "neighbor x \<notin> neighbor ` set xs" "distinct (map neighbor xs)" using Cons.prems(1) by simp_all
  have "\<forall>y\<in>set xs. \<exists>e. neighbors ?d (neighbor y) = Some e \<and> status e = SYM" using Cons.prems(2) nx(1) by auto
  from Cons.IH [OF nx(2) this] obtain d' where d': "foldM decrement_nocov xs ?d = Some d'" "two_hops d' = two_hops ?d" "mprs d' = mprs ?d"
    "mpr_frame ?d d'" "\<And>p. map_option neighbor_2_nocov (neighbors d' p) =
       map_option (\<lambda>e. if p \<in> neighbor ` set xs then neighbor_2_nocov e - 1 else neighbor_2_nocov e) (neighbors ?d p)" by blast
  have "map_option neighbor_2_nocov (neighbors d' p) =
      map_option (\<lambda>e. if p \<in> neighbor ` set (x # xs) then neighbor_2_nocov e - 1 else neighbor_2_nocov e) (neighbors d p)" for p
    unfolding d'(5) using nx(1) e by (cases "p = neighbor x") (simp_all add: option.map_comp comp_def)
  moreover have "mprs ?d = mprs d" by (rule mprs_nbr) simp
  moreover have "two_hops ?d = two_hops d" by simp
  moreover have "decrement_nocov x d = Some ?d" using e by (simp add: decrement_nocov_def)
  ultimately show ?case using d'(1-4) mpr_frame_trans [OF fr d'(4)] by auto
qed simp

lemma common_chosen:
  assumes c: "common_two_hop w x db" and s: "mpr_state db x M f k d" and p: "p \<in> dom (neighbors db)" and k: "k + 1 \<ge> mpr_coverage cnf"
  shows "\<exists>d'. olsr_chosen_mpr cnf p (n, d) = Some (n + 1, d') \<and> mpr_state db x (insert p M) (\<lambda>q. f q - 1) (k + 1) d'"
proof -
  have inv: "nb_inv db" using c by (simp add: common_two_hop_def)
  have fr: "mpr_frame db d" "mprs d = M" "\<And>p e. neighbors d p = Some e \<Longrightarrow> neighbor_2_nocov e = f p"
    "\<And>e2. two_hops d x = Some e2 \<Longrightarrow> mpr_covered_count e2 = k" using s by (auto simp: mpr_state_def)
  obtain e where e: "neighbors d p = Some e" using p frame_entry_rev [OF fr(1)] by blast
  let ?d = "upd_nbr p (\<lambda>e. e\<lparr>is_mpr := True\<rparr>) d"
  let ?e = "e\<lparr>is_mpr := True\<rparr>"
  have fd: "mpr_frame d ?d" by (rule mpr_frame_nbr) simp
  have fd': "mpr_frame db ?d" by (rule mpr_frame_trans [OF fr(1) fd])
  have pe: "neighbors ?d p = Some ?e" using e by simp
  obtain q nl e2 where q: "neighbor_2_list ?e = [q]" "nbr2_lists ?d q = Some nl" "neighbor_2 nl = x" "two_hops ?d x = Some e2"
    "dup_status (neighbor_2_addr e2) ?d = Some None" "neighbor ` set (neighbor_2_nblist e2) = dom (neighbors ?d)"
    "distinct (map neighbor (neighbor_2_nblist e2))"
    using common_links [OF c fd' pe] by blast
  have k2: "mpr_covered_count e2 = k" using fr(4) q(4) by simp
  let ?u = "upd_nbr2 x (\<lambda>e2. e2\<lparr>mpr_covered_count := mpr_covered_count e2 + 1\<rparr>) ?d"
  have fu: "mpr_frame ?d ?u" by (rule mpr_frame_nbr2) simp
  have "\<forall>y\<in>set (neighbor_2_nblist e2). \<exists>e. neighbors ?u (neighbor y) = Some e \<and> status e = SYM"
  proof
    fix y assume "y \<in> set (neighbor_2_nblist e2)"
    hence "neighbor y \<in> dom (neighbors ?d)" using q(6) by blast
    then obtain e' where e': "neighbors ?d (neighbor y) = Some e'" by blast
    with common_links [OF c fd' e'] show "\<exists>e. neighbors ?u (neighbor y) = Some e \<and> status e = SYM" by auto
  qed
  from decrement_all [OF q(7) this] obtain d' where d': "foldM decrement_nocov (neighbor_2_nblist e2) ?u = Some d'" "two_hops d' = two_hops ?u"
    "mprs d' = mprs ?u" "mpr_frame ?u d'" "\<And>p. map_option neighbor_2_nocov (neighbors d' p) =
      map_option (\<lambda>e. if p \<in> neighbor ` set (neighbor_2_nblist e2) then neighbor_2_nocov e - 1 else neighbor_2_nocov e) (neighbors ?u p)"
    by blast
  have "cover_two_hop cnf q (n, ?d) = Some (n + 1, d')"
    using q k k2 d'(1) by (simp add: cover_two_hop_def Let_def)
  hence "olsr_chosen_mpr cnf p (n, d) = Some (n + 1, d')" using e q(1) by (simp add: olsr_chosen_mpr_def)
  moreover have "mpr_frame db d'" by (rule mpr_frame_trans [OF mpr_frame_trans [OF fd' fu] d'(4)])
  moreover have "mprs d' = insert p M" using d'(3) fr(2) e by (auto simp: mprs_def)
  moreover have "neighbor_2_nocov a = f r - 1" if nd: "neighbors d' r = Some a" for r a
  proof -
    have m: "map_option neighbor_2_nocov (neighbors ?d r) = map_option neighbor_2_nocov (neighbors d r)" by (simp add: option.map_comp comp_def)
    have "neighbors ?d r \<noteq> None"
    proof
      assume "neighbors ?d r = None"
      hence "map_option neighbor_2_nocov (neighbors d' r) = None" using d'(5) [of r] by (simp del: upd_nbr_simps)
      with nd show False by simp
    qed
    then obtain b where b: "neighbors ?d r = Some b" by blast
    have "r \<in> neighbor ` set (neighbor_2_nblist e2)" using q(6) b by auto
    hence "neighbor_2_nocov a = neighbor_2_nocov b - 1" using d'(5) [of r] nd b by simp
    moreover have "neighbor_2_nocov b = f r" using m b fr(3) by (cases "neighbors d r") auto
    ultimately show ?thesis by simp
  qed
  moreover have "\<forall>e2. two_hops d' x = Some e2 \<longrightarrow> mpr_covered_count e2 = k + 1" using d'(2) q(4) k2 by simp
  ultimately show ?thesis by (auto simp: mpr_state_def)
qed

lemma three_neighbors:
  assumes "nb_core db" "card (dom (neighbors db)) = 3"
  obtains a b c where "all_neighbors db = [a, b, c]" "distinct [a, b, c]" "dom (neighbors db) = {a, b, c}"
proof -
  have set: "set (all_neighbors db) = dom (neighbors db)" using all_neighbors_valid [OF assms(1)] by auto
  hence "length (all_neighbors db) = 3" using distinct_card [OF distinct_all_neighbors [OF assms(1)]] assms(2) by simp
  then obtain a b c where "all_neighbors db = [a, b, c]" by (auto simp: numeral_3_eq_3 length_Suc_conv)
  with that set distinct_all_neighbors [OF assms(1)] show thesis by simp
qed

lemma mpr_stateD:
  assumes "mpr_state db x M f k d"
  shows "mpr_frame db d" "mprs d = M" "neighbors d p = Some e \<Longrightarrow> neighbor_2_nocov e = f p"
    "two_hops d x = Some e2 \<Longrightarrow> mpr_covered_count e2 = k" "neighbors d p = Some e \<Longrightarrow> is_mpr e \<longleftrightarrow> p \<in> M"
  using assms by (auto simp: mpr_state_def mprs_def)

lemma common_entry:
  assumes c: "common_two_hop w x db" and s: "mpr_frame db d" and p: "p \<in> dom (neighbors db)"
  obtains e q nl e2 where "neighbors d p = Some e" "neighbor_2_list e = [q]" "nbr2_lists d q = Some nl" "neighbor_2 nl = x"
    "two_hops d x = Some e2" "dup_status (neighbor_2_addr e2) d = Some None" "status e = SYM" "willingness e = w"
proof -
  obtain e where "neighbors d p = Some e" using p frame_entry_rev [OF s] by blast
  with common_links [OF c s this] that show thesis by blast
qed

text \<open>Clearing resets the coverage of \<open>x\<close>.\<close>

definition cov :: "ptr \<Rightarrow> neighborhood \<Rightarrow> u8 option" where
  "cov x d = map_option mpr_covered_count (two_hops d x)"

lemma clear_cov:
  assumes c: "common_two_hop w x db" and fr: "mpr_frame db d" and p: "p \<in> dom (neighbors db)"
  shows "\<exists>d'. clear_mpr p d = Some d' \<and> mpr_frame db d' \<and> cov x d' = Some 0"
proof -
  obtain e q nl e2 where e: "neighbors d p = Some e" "neighbor_2_list e = [q]" "nbr2_lists d q = Some nl" "neighbor_2 nl = x" "two_hops d x = Some e2"
    by (rule common_entry [OF c fr p])
  let ?d = "if is_mpr e then upd_nbr p (\<lambda>e. e\<lparr>was_mpr := True, is_mpr := False\<rparr>) d else d"
  let ?u = "upd_nbr2 x (\<lambda>e2. e2\<lparr>mpr_covered_count := 0\<rparr>) ?d"
  have "mpr_frame d ?d" by (simp add: mpr_frame_nbr)
  moreover have "mpr_frame ?d ?u" by (rule mpr_frame_nbr2) simp
  ultimately have "mpr_frame db ?u" using fr mpr_frame_trans by blast
  moreover have "clear_mpr p d = Some ?u" using e by (simp add: clear_mpr_def clear_covered_def)
  ultimately show ?thesis using e(5) by (simp add: cov_def)
qed

lemma common_clear:
  assumes c: "common_two_hop w x db" and abc: "all_neighbors db = [a, b, c']" "dom (neighbors db) = {a, b, c'}"
  shows "\<exists>d. olsr_clear_mprs db = Some d \<and> mpr_frame db d \<and> mprs d = {} \<and> cov x d = Some 0"
proof -
  have inv: "nb_inv db" using c by (simp add: common_two_hop_def)
  obtain d1 where d1: "clear_mpr a db = Some d1" "mpr_frame db d1" using clear_cov [OF c mpr_frame_refl, of a] abc(2) by blast
  obtain d2 where d2: "clear_mpr b d1 = Some d2" "mpr_frame db d2" using clear_cov [OF c d1(2), of b] abc(2) by blast
  obtain d3 where d3: "clear_mpr c' d2 = Some d3" "cov x d3 = Some 0" using clear_cov [OF c d2(2), of c'] abc(2) by blast
  have "olsr_clear_mprs db = Some d3" using d1 d2 d3 by (simp add: olsr_clear_mprs_def abc(1))
  with clear_mprs_ok [OF inv] d3(2) show ?thesis by auto
qed

text \<open>Counting gives the neighbours 1, 2 and 3, since the counter is never reset.\<close>

lemma count_first:
  assumes c: "common_two_hop w x db" and fr: "mpr_frame db d" and p: "p \<in> dom (neighbors db)"
  shows "\<exists>d'. count_neighbor p (sm, ct, nc, d) = Some (sm + (if map_option processed (two_hops d x) = Some 0 then ct + 1 else ct),
      (if map_option processed (two_hops d x) = Some 0 then ct + 1 else ct), nc + 1, d') \<and> mpr_frame db d' \<and>
    mprs d' = mprs d \<and> cov x d' = cov x d \<and>
    map_option processed (two_hops d' x) \<noteq> Some 0 \<and>
    (\<forall>r. map_option neighbor_2_nocov (neighbors d' r) = (if r = p then Some (uint (nc + 1)) else map_option neighbor_2_nocov (neighbors d r)))"
proof -
  obtain e q nl e2 where e: "neighbors d p = Some e" "neighbor_2_list e = [q]" "nbr2_lists d q = Some nl" "neighbor_2 nl = x" "two_hops d x = Some e2"
    "dup_status (neighbor_2_addr e2) d = Some None" "status e = SYM"
    by (rule common_entry [OF c fr p])
  let ?t = "if processed e2 = 0 then upd_nbr2 x (\<lambda>e2. e2\<lparr>processed := 1\<rparr>) d else d"
  let ?u = "upd_nbr p (\<lambda>e. e\<lparr>neighbor_2_nocov := uint (nc + 1)\<rparr>) ?t"
  have "mpr_frame d ?t" by (simp add: mpr_frame_nbr2)
  moreover have "mpr_frame ?t ?u" by (rule mpr_frame_nbr) simp
  ultimately have "mpr_frame db ?u" using fr mpr_frame_trans by blast
  moreover have "count_neighbor p (sm, ct, nc, d) = Some (sm + (if processed e2 = 0 then ct + 1 else ct),
      (if processed e2 = 0 then ct + 1 else ct), nc + 1, ?u)"
    using e by (auto simp: count_neighbor_def count_two_hop_def NOT_SYM_def SYM_def)
  moreover have "mprs ?u = mprs d" by (simp add: mprs_nbr)
  ultimately show ?thesis using e by (intro exI [of _ ?u]) (simp add: cov_def)
qed

lemma clear_processed_zero:
  assumes "foldM clear_processed ps d = Some d'" "x \<in> set ps"
  shows "map_option processed (two_hops d' x) = Some 0"
  using assms
proof (induction ps arbitrary: d)
  case (Cons p ps)
  then obtain d1 where d1: "clear_processed p d = Some d1" "foldM clear_processed ps d1 = Some d'" by (auto split: bind_splits)
  have keep: "map_option processed (two_hops d' x) = Some 0" if "map_option processed (two_hops d1 x) = Some 0"
    using d1(2) that
  proof (induction ps arbitrary: d1)
    case (Cons r rs)
    then obtain u where u: "clear_processed r d1 = Some u" "foldM clear_processed rs u = Some d'" by (auto split: bind_splits)
    have "map_option processed (two_hops u x) = Some 0" using u(1) Cons.prems(2) by (auto simp: clear_processed_def split: bind_splits)
    with Cons.IH u(2) show ?case by blast
  qed simp
  show ?case
  proof (cases "x = p")
    case True
    hence "map_option processed (two_hops d1 x) = Some 0" using d1(1) by (auto simp: clear_processed_def split: bind_splits)
    thus ?thesis by (rule keep)
  next
    case False
    with Cons.IH [OF d1(2)] Cons.prems(2) show ?thesis by simp
  qed
qed simp

lemma common_count:
  assumes c: "common_two_hop w x db" and abc: "all_neighbors db = [a, b, c']" "dom (neighbors db) = {a, b, c'}" "distinct [a, b, c']"
    and d: "mpr_frame db d" "mprs d = {}" "cov x d = Some 0"
  shows "\<exists>d'. olsr_calculate_two_hop_neighbors d = Some (3, d') \<and> mpr_state db x {} ((\<lambda>_. 0)(a := 1, b := 2, c' := 3)) 0 d'"
proof -
  have inv: "nb_inv db" using c by (simp add: common_two_hop_def)
  note di = frame_inv [OF inv d(1)]
  have xd: "two_hops d x \<noteq> None" using d(3) by (auto simp: cov_def)
  hence "x \<in> set (all_two_hops d)" using all_two_hops_valid [OF nb_inv_core [OF di]] by blast
  let ?F = "\<lambda>t. mpr_frame db t \<and> mprs t = {} \<and> cov x t = Some 0"
  have "\<exists>s'. clear_processed p2 s = Some s' \<and> ?F s'" if p2: "p2 \<in> set (all_two_hops d)" and s: "?F s" for p2 s
  proof -
    have "two_hops s p2 \<noteq> None"
      using p2 all_two_hops_valid [OF nb_inv_core [OF frame_inv [OF inv]]] frame_tables(2) s d(1) by metis
    moreover have "mpr_frame s (upd_nbr2 p2 (\<lambda>e2. e2\<lparr>processed := 0\<rparr>) s)" by (rule mpr_frame_nbr2) simp
    moreover have "cov x (upd_nbr2 p2 (\<lambda>e2. e2\<lparr>processed := 0\<rparr>) s) = cov x s" by (simp add: cov_def option.map_comp comp_def)
    ultimately show ?thesis using s by (auto simp: clear_processed_def intro: mpr_frame_trans)
  qed
  hence "\<exists>t. foldM clear_processed (all_two_hops d) d = Some t \<and> ?F t" by (rule foldM_keep) (use d in simp_all)
  then obtain t where t: "olsr_clear_two_hop_processed d = Some t" "foldM clear_processed (all_two_hops d) d = Some t" "?F t"
    by (auto simp: olsr_clear_two_hop_processed_def)
  have p0: "map_option processed (two_hops t x) = Some 0" by (rule clear_processed_zero [OF t(2) \<open>x \<in> set (all_two_hops d)\<close>])
  obtain t1 where t1: "count_neighbor a (0, 0, 0, t) = Some (1, 1, 1, t1)" "mpr_frame db t1" "mprs t1 = mprs t" "cov x t1 = cov x t"
    "map_option processed (two_hops t1 x) \<noteq> Some 0"
    "\<And>r. map_option neighbor_2_nocov (neighbors t1 r) = (if r = a then Some 1 else map_option neighbor_2_nocov (neighbors t r))"
    using count_first [OF c, of t a 0 0 0] t(3) p0 abc(2) by auto
  obtain t2 where t2: "count_neighbor b (1, 1, 1, t1) = Some (2, 1, 2, t2)" "mpr_frame db t2" "mprs t2 = mprs t1" "cov x t2 = cov x t1"
    "map_option processed (two_hops t2 x) \<noteq> Some 0"
    "\<And>r. map_option neighbor_2_nocov (neighbors t2 r) = (if r = b then Some 2 else map_option neighbor_2_nocov (neighbors t1 r))"
    using count_first [OF c t1(2), of b 1 1 1] t1(5) abc(2) by auto
  obtain t3 where t3: "count_neighbor c' (2, 1, 2, t2) = Some (3, 1, 3, t3)" "mpr_frame db t3" "mprs t3 = mprs t2" "cov x t3 = cov x t2"
    "\<And>r. map_option neighbor_2_nocov (neighbors t3 r) = (if r = c' then Some 3 else map_option neighbor_2_nocov (neighbors t2 r))"
    using count_first [OF c t2(2), of c' 2 1 2] t2(5) abc(2) by auto
  have "all_neighbors t = [a, b, c']" using frame_tables(1) t(3) abc(1) by metis
  hence "olsr_calculate_two_hop_neighbors d = Some (3, t3)"
    using t(1) t1(1) t2(1) t3(1) by (simp add: olsr_calculate_two_hop_neighbors_def)
  moreover have "neighbor_2_nocov e = ((\<lambda>_. 0)(a := 1, b := 2, c' := 3)) r" if e: "neighbors t3 r = Some e" for r e
  proof -
    have "r \<in> {a, b, c'}" using frame_entry [OF t3(2) e] abc(2) by blast
    thus ?thesis using t3(5) [of r] t2(6) [of r] t1(6) [of r] e abc(3) by auto
  qed
  moreover have "\<forall>e2. two_hops t3 x = Some e2 \<longrightarrow> mpr_covered_count e2 = 0" using t3(4) t2(4) t1(4) t(3) by (auto simp: cov_def)
  ultimately show ?thesis using t3(2,3) t2(3) t1(3) t(3) by (auto simp: mpr_state_def)
qed

lemma common_find_max:
  assumes c: "common_two_hop w x db" and abc: "all_neighbors db = [a, b, c']" "dom (neighbors db) = {a, b, c'}"
    and s: "mpr_state db x M f k d"
  shows "olsr_find_maximum_covered i d = map_option snd (Some (
    let step = (\<lambda>p (m :: u16, r). if p \<notin> M \<and> w = i \<and> uint m < f p then (word_of_int (f p), Some p) else (m, r))
    in step c' (step b (step a (0, None)))))"
proof -
  note D = mpr_stateD [OF s]
  obtain ea where ea: "neighbors d a = Some ea" "willingness ea = w" by (rule common_entry [OF c D(1), of a]) (use abc in auto)
  obtain eb where eb: "neighbors d b = Some eb" "willingness eb = w" by (rule common_entry [OF c D(1), of b]) (use abc in auto)
  obtain ec where ec: "neighbors d c' = Some ec" "willingness ec = w" by (rule common_entry [OF c D(1), of c']) (use abc in auto)
  have "all_neighbors d = [a, b, c']" using frame_tables(1) [OF D(1)] abc(1) by simp
  thus ?thesis
    using ea eb ec D(3,5) [OF ea(1)] D(3,5) [OF eb(1)] D(3,5) [OF ec(1)]
    by (simp add: olsr_find_maximum_covered_def max_covered_step_def Let_def case_prod_beta)
qed

lemma common_no_1_link:
  assumes c: "common_two_hop w x db" and three: "card (dom (neighbors db)) = 3" and fr: "mpr_frame db d"
  shows "olsr_find_2_hop_neighbors_with_1_link i d = Some []"
proof -
  have inv: "nb_inv db" using c by (simp add: common_two_hop_def)
  note core = nb_inv_core [OF frame_inv [OF inv fr]]
  have sh: "same_shape db d" using fr by (simp add: mpr_frame_def)
  have "has_1_link i d p2 = Some False" if p2: "p2 \<in> set (all_two_hops d)" for p2
  proof -
    obtain e2 where e2: "two_hops d p2 = Some e2" using p2 all_two_hops_valid [OF core] by blast
    then obtain f2 where f2: "two_hops db p2 = Some f2" "neighbor_2_addr e2 = neighbor_2_addr f2"
      "map neighbor (neighbor_2_nblist e2) = map neighbor (neighbor_2_nblist f2)" using same_shapeD(5) [OF sh] by blast
    have x: "p2 = x" using c f2(1) by (auto simp: common_two_hop_def dom_def)
    have dup: "dup_status (neighbor_2_addr e2) d = Some None"
      unfolding dup_status_frame [OF fr] f2(2) using c f2(1) x by (simp add: common_two_hop_def)
    have "neighbor ` set (neighbor_2_nblist e2) = dom (neighbors db)" using map_eq_image [OF f2(3)] c f2(1) x by (simp add: common_two_hop_def)
    hence "length (neighbor_2_nblist e2) = 3" using distinct_card [OF nb_core_nbr2D(1) [OF core e2]] three by simp
    hence "neighbor_2_pointer e2 \<noteq> 1" using nb_core_nbr2D(3) [OF core e2] by simp
    with e2 dup show ?thesis by (simp add: has_1_link_def)
  qed
  hence h: "\<forall>p2\<in>set (all_two_hops d). has_1_link i d p2 = Some False" by blast
  hence "\<forall>p2\<in>set (all_two_hops d). has_1_link i d p2 \<noteq> None" by simp
  from filterM_total [OF this] have "filterM (has_1_link i d) (all_two_hops d) = Some (filter (\<lambda>p2. has_1_link i d p2 = Some True) (all_two_hops d))" .
  moreover have "filter (\<lambda>p2. has_1_link i d p2 = Some True) (all_two_hops d) = []"
    unfolding filter_empty_conv using h by (metis option.inject)
  ultimately show ?thesis unfolding olsr_find_2_hop_neighbors_with_1_link_def by (simp only: option.map rev.simps)
qed

lemma common_always:
  assumes c: "common_two_hop w x db" and fr: "mpr_frame db d" and w: "w \<noteq> WILL_ALWAYS"
  shows "add_will_always_nodes cnf d = Some (0, d)"
proof -
  have inv: "nb_inv db" using c by (simp add: common_two_hop_def)
  have "add_will_always cnf p (n, d) = Some (n, d)" if pin: "p \<in> set (all_neighbors d)" for p n
  proof -
    obtain e where e: "neighbors d p = Some e" using pin all_neighbors_valid [OF nb_inv_core [OF frame_inv [OF inv fr]]] by blast
    with common_links [OF c fr e] w show ?thesis by (auto simp: add_will_always_def)
  qed
  hence "foldM (add_will_always cnf) ps (n, d) = Some (n, d)" if "set ps \<subseteq> set (all_neighbors d)" for ps n
    using that by (induction ps) auto
  thus ?thesis by (simp add: add_will_always_nodes_def)
qed

text \<open>Levels other than \<open>w\<close> choose nobody; at \<open>w\<close> two neighbours become relays.\<close>

lemma common_choose_other:
  assumes c: "common_two_hop w x db" and abc: "all_neighbors db = [a, b, c']" "dom (neighbors db) = {a, b, c'}" "distinct [a, b, c']"
    and s: "mpr_state db x M f k d" and n: "n < 3" and "w \<notin> set is"
  shows "choose_by_willingness cnf is 3 (n, d) = Some (n, d)"
  using assms(7)
proof (induction "is")
  case (Cons i "is")
  have three: "card (dom (neighbors db)) = 3" using abc by simp
  have "olsr_find_maximum_covered i d = Some None"
    using common_find_max [OF c abc(1,2) s, of i] Cons.prems by (simp add: Let_def)
  hence "choose_max (length (all_neighbors d) + 1) cnf i 3 (n, d) = Some (False, n, d)" by simp
  with Cons n common_no_1_link [OF c three mpr_stateD(1) [OF s], of i] show ?case by (simp add: not_le)
qed simp

lemma common_choose_max:
  assumes c: "common_two_hop w x db" and abc: "all_neighbors db = [a, b, c']" "dom (neighbors db) = {a, b, c'}" "distinct [a, b, c']"
    and s: "mpr_state db x {} ((\<lambda>_. 0)(a := 1, b := 2, c' := 3)) 0 d" and cv: "mpr_coverage cnf = 1"
  shows "\<exists>f d'. choose_max 4 cnf w 3 (0, d) = Some (False, 2, d') \<and> mpr_state db x {b, c'} f 2 d'"
proof -
  let ?f = "(\<lambda>_. 0 :: int)(a := 1, b := 2, c' := 3)"
  have m1: "olsr_find_maximum_covered w d = Some (Some c')"
    using common_find_max [OF c abc(1,2) s, of w] abc(3) by (simp add: Let_def)
  obtain d1 where d1: "olsr_chosen_mpr cnf c' (0, d) = Some (1, d1)" "mpr_state db x {c'} (\<lambda>q. ?f q - 1) 1 d1"
    using common_chosen [OF c s, of c' cnf 0] abc(2) cv by auto
  have m2: "olsr_find_maximum_covered w d1 = Some (Some b)"
    using common_find_max [OF c abc(1,2) d1(2), of w] abc(3) by (simp add: Let_def)
  obtain d2 where d2: "olsr_chosen_mpr cnf b (1, d1) = Some (2, d2)" "mpr_state db x {b, c'} (\<lambda>q. ?f q - 1 - 1) 2 d2"
    using common_chosen [OF c d1(2), of b cnf 1] abc(2) cv by auto
  have m3: "olsr_find_maximum_covered w d2 = Some None"
    using common_find_max [OF c abc(1,2) d2(2), of w] abc(3) by (simp add: Let_def)
  have four: "(4 :: nat) = Suc (Suc (Suc (Suc 0)))" by simp
  have "choose_max 4 cnf w 3 (0, d) = Some (False, 2, d2)"
    unfolding four using m1 m2 m3 d1(1) d2(1) by (simp add: word_le_nat_alt)
  with d2(2) show ?thesis by blast
qed

text \<open>The relays cover \<open>x\<close> twice, so both are found to be superfluous.\<close>

lemma common_optimize:
  assumes c: "common_two_hop w x db" and abc: "all_neighbors db = [a, b, c']" "dom (neighbors db) = {a, b, c'}" "distinct [a, b, c']"
    and s: "mpr_state db x M f 2 d" and cv: "mpr_coverage cnf = 1" and w: "w \<in> {1, 2, 3, 4, 5, 6}"
  shows "\<exists>d'. olsr_optimize_mpr_set cnf d = Some d' \<and> mprs d' = {}"
proof -
  have inv: "nb_inv db" using c by (simp add: common_two_hop_def)
  have drop: "\<exists>d'. optimize_neighbor cnf i p t = Some d' \<and> (\<exists>M'. mpr_state db x M' f 2 d' \<and> M' = (if i = w then N - {p} else N))"
    if p: "p \<in> dom (neighbors db)" and t: "mpr_state db x N f 2 t" for i p t N
  proof -
    note D = mpr_stateD [OF t]
    obtain e q nl e2 where e: "neighbors t p = Some e" "neighbor_2_list e = [q]" "nbr2_lists t q = Some nl" "neighbor_2 nl = x"
      "two_hops t x = Some e2" "dup_status (neighbor_2_addr e2) t = Some None" "willingness e = w" by (rule common_entry [OF c D(1) p])
    have needs: "filterM (still_needed cnf t) (neighbor_2_list e) = Some []"
      using e D(4) [OF e(5)] cv by (simp add: still_needed_def word_le_nat_alt)
    let ?u = "upd_nbr p (\<lambda>e. e\<lparr>is_mpr := False\<rparr>) t"
    have "mpr_frame t ?u" by (rule mpr_frame_nbr) simp
    moreover have "mprs ?u = N - {p}" using D(2) by (auto simp: mprs_def)
    ultimately have "mpr_state db x (N - {p}) f 2 ?u"
      using t mpr_frame_trans [OF D(1)] by (auto simp: mpr_state_def split: if_splits)
    moreover have "N - {p} = N" if "\<not> is_mpr e" using D(5) [OF e(1)] that by auto
    ultimately show ?thesis using e needs t by (auto simp: optimize_neighbor_def)
  qed
  have level: "\<exists>d'. foldM (optimize_neighbor cnf i) [a, b, c'] t = Some d' \<and> mpr_state db x (if i = w then N - {a} - {b} - {c'} else N) f 2 d'"
    if t: "mpr_state db x N f 2 t" for i t N
  proof -
    obtain t1 where t1: "optimize_neighbor cnf i a t = Some t1" "mpr_state db x (if i = w then N - {a} else N) f 2 t1"
      using drop [OF _ t, of a i] abc(2) by blast
    obtain t2 where t2: "optimize_neighbor cnf i b t1 = Some t2" "mpr_state db x (if i = w then (if i = w then N - {a} else N) - {b} else (if i = w then N - {a} else N)) f 2 t2"
      using drop [OF _ t1(2), of b i] abc(2) by blast
    obtain t3 where t3: "optimize_neighbor cnf i c' t2 = Some t3" "\<exists>M'. mpr_state db x M' f 2 t3 \<and> M' = (if i = w then
        (if i = w then (if i = w then N - {a} else N) - {b} else (if i = w then N - {a} else N)) - {c'}
        else (if i = w then (if i = w then N - {a} else N) - {b} else (if i = w then N - {a} else N)))"
      using drop [OF _ t2(2), of c' i] abc(2) by blast
    show ?thesis using t1(1) t2(1) t3 by (auto split: if_splits)
  qed
  have "\<exists>d' N'. foldM (\<lambda>i db. foldM (optimize_neighbor cnf i) (all_neighbors db) db) is t = Some d' \<and> mpr_state db x N' f 2 d' \<and>
      N' \<subseteq> N \<and> (w \<in> set is \<longrightarrow> N' \<inter> {a, b, c'} = {})" if "mpr_state db x N f 2 t" for "is" t N
    using that
  proof (induction "is" arbitrary: t N)
    case (Cons i "is")
    have an: "all_neighbors t = [a, b, c']" using frame_tables(1) [OF mpr_stateD(1) [OF Cons.prems]] abc(1) by simp
    obtain t1 where t1: "foldM (optimize_neighbor cnf i) [a, b, c'] t = Some t1" "mpr_state db x (if i = w then N - {a} - {b} - {c'} else N) f 2 t1"
      using level [OF Cons.prems] by blast
    from Cons.IH [OF t1(2)] obtain d' N' where "foldM (\<lambda>i db. foldM (optimize_neighbor cnf i) (all_neighbors db) db) is t1 = Some d'"
      "mpr_state db x N' f 2 d'" "N' \<subseteq> (if i = w then N - {a} - {b} - {c'} else N)" "w \<in> set is \<longrightarrow> N' \<inter> {a, b, c'} = {}" by blast
    moreover from this(3) have "N' \<subseteq> N" "i = w \<Longrightarrow> N' \<inter> {a, b, c'} = {}" by (auto split: if_splits)
    ultimately show ?case using t1(1) an by (auto simp del: foldM.simps simp: foldM.simps(2) [of _ i])
  qed auto
  from this [OF s, of "[1, 2, 3, 4, 5, 6]"] obtain d' N' where d': "olsr_optimize_mpr_set cnf d = Some d'" "mpr_state db x N' f 2 d'"
    "N' \<inter> {a, b, c'} = {}" using w unfolding olsr_optimize_mpr_set_def by auto
  have "mprs d' \<subseteq> dom (neighbors db)" using frame_entry [OF mpr_stateD(1) [OF d'(2)]] by (auto simp: mprs_def)
  with d' mpr_stateD(2) [OF d'(2)] abc(2) show ?thesis by auto
qed

lemma common_choose:
  assumes c: "common_two_hop w x db" and abc: "all_neighbors db = [a, b, c']" "dom (neighbors db) = {a, b, c'}" "distinct [a, b, c']"
    and s: "mpr_state db x {} ((\<lambda>_. 0)(a := 1, b := 2, c' := 3)) 0 d" and cv: "mpr_coverage cnf = 1"
    and "w \<in> set is" "distinct is"
  shows "\<exists>f d'. choose_by_willingness cnf is 3 (0, d) = Some (2, d') \<and> mpr_state db x {b, c'} f 2 d'"
  using assms(7,8)
proof (induction "is")
  case (Cons i "is")
  have three: "card (dom (neighbors db)) = 3" using abc by simp
  note one = common_no_1_link [OF c three mpr_stateD(1) [OF s], of i]
  have fuel: "length (all_neighbors d) + 1 = 4" using frame_tables(1) [OF mpr_stateD(1) [OF s]] abc(1) by simp
  show ?case
  proof (cases "i = w")
    case True
    obtain f d' where d': "choose_max 4 cnf w 3 (0, d) = Some (False, 2, d')" "mpr_state db x {b, c'} f 2 d'"
      using common_choose_max [OF c abc s cv] by blast
    have "choose_by_willingness cnf is 3 (2, d') = Some (2, d')"
      by (rule common_choose_other [OF c abc d'(2)]) (use Cons.prems(2) True in \<open>simp_all add: word_less_nat_alt\<close>)
    with True one fuel d' show ?thesis by (auto simp del: choose_max.simps)
  next
    case False
    have "olsr_find_maximum_covered i d = Some None"
      using common_find_max [OF c abc(1,2) s, of i] False by (simp add: Let_def)
    hence "choose_max (length (all_neighbors d) + 1) cnf i 3 (0, d) = Some (False, 0, d)" by simp
    with one Cons False show ?thesis by (simp del: choose_max.simps)
  qed
qed simp

lemma common_no_relay:
  assumes c: "common_two_hop w x db" and three: "card (dom (neighbors db)) = 3" and cv: "mpr_coverage cnf = 1"
    and w: "WILL_NEVER < w" "w < WILL_ALWAYS"
  shows "\<exists>db'. olsr_calculate_mpr cnf db = Some db' \<and> mprs db' = {}"
proof -
  have inv: "nb_inv db" using c by (simp add: common_two_hop_def)
  obtain a b c' where abc: "all_neighbors db = [a, b, c']" "distinct [a, b, c']" "dom (neighbors db) = {a, b, c'}"
    by (rule three_neighbors [OF nb_inv_core [OF inv] three])
  have "unat w \<in> {1, 2, 3, 4, 5, 6}" using w by (auto simp: WILL_NEVER_def WILL_ALWAYS_def word_less_nat_alt)
  hence "of_nat (unat w) \<in> (of_nat ` {1, 2, 3, 4, 5, 6} :: u8 set)" by blast
  hence w': "w \<in> {1, 2, 3, 4, 5, 6}" by simp
  obtain d1 where d1: "olsr_clear_mprs db = Some d1" "mpr_frame db d1" "mprs d1 = {}" "cov x d1 = Some 0"
    using common_clear [OF c abc(1,3)] by blast
  obtain d2 where d2: "olsr_calculate_two_hop_neighbors d1 = Some (3, d2)" "mpr_state db x {} ((\<lambda>_. 0)(a := 1, b := 2, c' := 3)) 0 d2"
    using common_count [OF c abc(1,3,2) d1(2-4)] by blast
  have d3: "add_will_always_nodes cnf d2 = Some (0, d2)"
    by (rule common_always [OF c mpr_stateD(1) [OF d2(2)]]) (use w(2) in auto)
  obtain f d4 where d4: "choose_by_willingness cnf [6, 5, 4, 3, 2, 1] 3 (0, d2) = Some (2, d4)" "mpr_state db x {b, c'} f 2 d4"
    using common_choose [OF c abc(1,3,2) d2(2) cv, of "[6, 5, 4, 3, 2, 1]"] w' by auto
  obtain d5 where d5: "olsr_optimize_mpr_set cnf d4 = Some d5" "mprs d5 = {}" using common_optimize [OF c abc(1,3,2) d4(2) cv w'] by blast
  have r4: "mpr_frame db d4" by (rule mpr_stateD(1) [OF d4(2)])
  have "nb_inv d5"
  proof -
    obtain db' where "olsr_calculate_mpr cnf db = Some db'" using calculate_mpr_ok [OF inv] by blast
    have "always_mprs db = {}" using c w(2) by (auto simp: always_mprs_def common_two_hop_def)
    moreover have "b \<in> dom (neighbors db)" "c' \<in> dom (neighbors db)" using abc(3) by simp_all
    hence "{b, c'} \<subseteq> willing db" using c w by (auto simp: willing_def common_two_hop_def)
    ultimately have "mpr_range db d4" using r4 mpr_stateD(2) [OF d4(2)] by (simp add: mpr_range_def)
    from optimize_ok [OF inv this, of cnf] d5(1) have "mpr_frame db d5" by (auto simp: mpr_range_def)
    thus ?thesis by (rule frame_inv [OF inv])
  qed
  then obtain ch d6 where d6: "olsr_check_mpr_changes d5 = Some (ch, d6)" "mprs d6 = mprs d5" using check_ok by blast
  show ?thesis using d1(1) d2(1) d3 d4(1) d5 d6 by (simp add: olsr_calculate_mpr_def del: choose_by_willingness.simps)
qed

section \<open>An example\<close>

definition demo_nbr :: "u32 \<Rightarrow> ptr \<Rightarrow> neighbor_entry" where
  "demo_nbr a q = (new_neighbor (V4 a))\<lparr>status := SYM, willingness := 3, neighbor_2_list := [q]\<rparr>"

definition demo_link :: "ptr \<Rightarrow> neighbor_list_entry" where
  "demo_link p = \<lparr>neighbor = p, second_hop_linkcost = 1024, path_linkcost = 2048, saved_path_linkcost = 2048\<rparr>"

definition demo_db :: neighborhood where
  "demo_db = \<lparr>neighbortable = queue_elem (ip_hash (V4 3)) 2 (queue_elem (ip_hash (V4 2)) 1 (queue_elem (ip_hash (V4 1)) 0 (\<lambda>_. []))),
     neighbors = [0 \<mapsto> demo_nbr 1 10, 1 \<mapsto> demo_nbr 2 11, 2 \<mapsto> demo_nbr 3 12],
     nbr2_lists = [10 \<mapsto> \<lparr>nbr2_nbr = 0, neighbor_2 = 20, nbr2_list_timer = None\<rparr>,
       11 \<mapsto> \<lparr>nbr2_nbr = 1, neighbor_2 = 20, nbr2_list_timer = None\<rparr>, 12 \<mapsto> \<lparr>nbr2_nbr = 2, neighbor_2 = 20, nbr2_list_timer = None\<rparr>],
     two_hop_neighbortable = queue_elem (ip_hash (V4 9)) 20 (\<lambda>_. []),
     two_hops = [20 \<mapsto> (\<lparr>neighbor_2_addr = V4 9, mpr_covered_count = 0, processed = 0, neighbor_2_pointer = 3,
       neighbor_2_nblist = map demo_link [0, 1, 2]\<rparr>)],
     mid_set = (\<lambda>_. []), mid_entries = Map.empty, reverse_mid_set = (\<lambda>_. []), mid_addresses = Map.empty,
     link_entry_head = [], links = Map.empty, nb_next = 30,
     changes_neighborhood = False, nb_changes_topology = False, link_changes = False\<rparr>"

lemma demo_tables: "tables_ok demo_db"
proof -
  have "bucket_ok (\<lambda>_. []) (\<lambda>_. None)" by (simp add: bucket_ok_def)
  note e = this
  have "bucket_ok (queue_elem (ip_hash (V4 1)) 0 (\<lambda>_. [])) [0 \<mapsto> ip_hash (V4 1)]" using bucket_queue [OF e, where p = 0] by simp
  from bucket_queue [OF this, of 1] have "bucket_ok (queue_elem (ip_hash (V4 2)) 1 (queue_elem (ip_hash (V4 1)) 0 (\<lambda>_. [])))
     [0 \<mapsto> ip_hash (V4 1), 1 \<mapsto> ip_hash (V4 2)]" by simp
  from bucket_queue [OF this, of 2] have b: "bucket_ok (neighbortable demo_db)
     [0 \<mapsto> ip_hash (V4 1), 1 \<mapsto> ip_hash (V4 2), 2 \<mapsto> ip_hash (V4 3)]" by (simp add: demo_db_def)
  have b2: "bucket_ok (two_hop_neighbortable demo_db) [20 \<mapsto> ip_hash (V4 9)]" using bucket_queue [OF e, where p = 20] by (simp add: demo_db_def)
  have "bucket_ok (neighbortable demo_db) (\<lambda>p. map_option (\<lambda>e. ip_hash (neighbor_main_addr e)) (neighbors demo_db p))"
    by (rule bucket_cong [OF b]) (simp add: demo_db_def demo_nbr_def new_neighbor_def)
  moreover have "bucket_ok (two_hop_neighbortable demo_db) (\<lambda>p. map_option (\<lambda>e. ip_hash (neighbor_2_addr e)) (two_hops demo_db p))"
    by (rule bucket_cong [OF b2]) (simp add: demo_db_def)
  moreover have "\<forall>p e q f. two_hops demo_db p = Some e \<longrightarrow> two_hops demo_db q = Some f \<longrightarrow> neighbor_2_addr e = neighbor_2_addr f \<longrightarrow> p = q"
    by (auto simp: demo_db_def split: if_splits)
  moreover have "\<forall>p\<ge>nb_next demo_db. neighbors demo_db p = None \<and> nbr2_lists demo_db p = None \<and> two_hops demo_db p = None"
    by (auto simp: demo_db_def)
  ultimately show ?thesis by (simp add: tables_ok_def)
qed

lemma demo_inv: "nb_inv demo_db"
proof -
  have "nbr_side demo_db" by (auto simp: nbr_side_def demo_db_def demo_nbr_def split: if_splits)
  moreover have "link_side demo_db" by (auto simp: link_side_def demo_db_def demo_nbr_def demo_link_def split: if_splits)
  moreover have "link_unique demo_db" by (auto simp: link_unique_def demo_db_def split: if_splits)
  moreover have "nbr2_side demo_db"
  proof -
    have "nbr2_lists demo_db 10 = Some \<lparr>nbr2_nbr = 0, neighbor_2 = 20, nbr2_list_timer = None\<rparr>"
      "nbr2_lists demo_db 11 = Some \<lparr>nbr2_nbr = 1, neighbor_2 = 20, nbr2_list_timer = None\<rparr>"
      "nbr2_lists demo_db 12 = Some \<lparr>nbr2_nbr = 2, neighbor_2 = 20, nbr2_list_timer = None\<rparr>" by (simp_all add: demo_db_def)
    hence l: "\<exists>q nl. nbr2_lists demo_db q = Some nl \<and> nbr2_nbr nl = p \<and> neighbor_2 nl = 20" if "p \<in> {0, 1, 2}" for p
      using that by (metis insert_iff empty_iff neighbor_2_list_entry.select_convs(1,2))
    have t: "two_hops demo_db p2 = Some e2 \<Longrightarrow> p2 = 20 \<and> neighbor_2_nblist e2 = map demo_link [0, 1, 2] \<and> neighbor_2_pointer e2 = 3" for p2 e2
      by (auto simp: demo_db_def split: if_splits)
    show ?thesis unfolding nbr2_side_def
    proof (intro allI impI)
      fix p2 e2 assume "two_hops demo_db p2 = Some e2"
      note e2 = t [OF this]
      hence "\<forall>x\<in>set (neighbor_2_nblist e2). neighbor x \<in> {0, 1, 2}" by (simp add: demo_link_def)
      with e2 l show "distinct (map neighbor (neighbor_2_nblist e2)) \<and>
         (\<forall>x\<in>set (neighbor_2_nblist e2). \<exists>q nl. nbr2_lists demo_db q = Some nl \<and> nbr2_nbr nl = neighbor x \<and> neighbor_2 nl = p2) \<and>
         neighbor_2_pointer e2 = of_nat (length (neighbor_2_nblist e2))" by (auto simp: demo_link_def)
    qed
  qed
  moreover have "nbr_few demo_db"
  proof -
    have "dom (neighbors demo_db) = {0, 1, 2}" by (auto simp: demo_db_def split: if_splits)
    thus ?thesis by (simp add: nbr_few_def)
  qed
  moreover have "mid_ok demo_db" by (simp add: mid_ok_def demo_db_def)
  ultimately have "nb_core demo_db" using demo_tables by (simp add: nb_core_def)
  thus ?thesis by (auto simp: nb_inv_def demo_db_def split: if_splits)
qed

lemma demo_common: "common_two_hop 3 20 demo_db" "card (dom (neighbors demo_db)) = 3"
proof -
  have dom: "dom (neighbors demo_db) = {0, 1, 2}" by (auto simp: demo_db_def split: if_splits)
  thus "card (dom (neighbors demo_db)) = 3" by simp
  have "mid_lookup_main_addr (V4 9) demo_db = Some None" by (simp add: mid_lookup_main_addr_def demo_db_def)
  moreover have "olsr_lookup_neighbor_table_alias (V4 9) demo_db = Some None"
  proof -
    obtain r where r: "olsr_lookup_neighbor_table_alias (V4 9) demo_db = Some r"
      "case r of None \<Rightarrow> True | Some p \<Rightarrow> \<exists>e. neighbors demo_db p = Some e \<and> neighbor_main_addr e = V4 9"
      using lookup_alias_ok [OF nb_inv_core [OF demo_inv], of "V4 9"] by (fastforce split: option.splits)
    hence "r = None" by (auto simp: demo_db_def demo_nbr_def new_neighbor_def split: option.splits if_splits)
    with r show ?thesis by simp
  qed
  ultimately have "dup_status (V4 9) demo_db = Some None" by (simp add: dup_status_def olsr_lookup_neighbor_table_def)
  moreover have "two_hops demo_db 20 = Some \<lparr>neighbor_2_addr = V4 9, mpr_covered_count = 0, processed = 0, neighbor_2_pointer = 3,
       neighbor_2_nblist = map demo_link [0, 1, 2]\<rparr>" "dom (two_hops demo_db) = {20}" by (simp_all add: demo_db_def)
  moreover have "\<forall>p e. neighbors demo_db p = Some e \<longrightarrow> status e = SYM \<and> willingness e = 3"
    by (auto simp: demo_db_def demo_nbr_def split: if_splits)
  ultimately show "common_two_hop 3 20 demo_db" using demo_inv dom by (simp add: common_two_hop_def demo_link_def)
qed

definition demo_cnf :: nb_config where
  "demo_cnf = \<lparr>main_addr = V4 100, ip_v6 = False, maxplen = 32, lq_level = 0, min_tc_vtime_ms = 0, fib_metric_correct = False,
     lq_nat_thresh = (1, 0), use_hysteresis = False, tc_redundancy = 2, mpr_coverage = 1, ifnet = []\<rparr>"

theorem mpr_selection_ends_witness:
  "\<exists>db'. olsr_calculate_mpr demo_cnf demo_db = Some db' \<and> nb_inv db'"
  using mpr_selection_ends [OF demo_inv, of demo_cnf] by blast

text \<open>
  C40. The optimisation of the relay set can drop every relay: if three symmetric neighbours of equal
  willingness reach the only two hop neighbour and the coverage wanted is one, the selection ends
  with no relay at all, so the two hop neighbour is not covered.
\<close>

theorem mpr_none_selected:
  assumes "common_two_hop w x db" and "card (dom (neighbors db)) = 3" and "mpr_coverage cnf = 1"
    and "WILL_NEVER < w" and "w < WILL_ALWAYS"
  shows "\<exists>db'. olsr_calculate_mpr cnf db = Some db' \<and> mprs db' = {}"
  by (rule common_no_relay [OF assms])

theorem mpr_none_selected_witness:
  "common_two_hop 3 20 demo_db \<and> (\<exists>db'. olsr_calculate_mpr demo_cnf demo_db = Some db' \<and> mprs db' = {})"
proof -
  have "mpr_coverage demo_cnf = 1" "WILL_NEVER < 3" "3 < WILL_ALWAYS"
    by (simp_all add: demo_cnf_def WILL_NEVER_def WILL_ALWAYS_def)
  with mpr_none_selected [OF demo_common] demo_common(1) show ?thesis by blast
qed

end
