(* ===== verification/Olsr_Lq_Mpr.thy ===== *)
theory Olsr_Lq_Mpr
  imports Olsr_Mpr
begin

text \<open>
  The selection of multipoint relays by link quality (\<^verbatim>\<open>src/lq_mpr.c\<close>), the one in use when the
  daemon runs with a link quality plugin. Every strict two hop neighbour gets as many relays as
  the configuration asks for, the ones with the best path cost.
\<close>

section \<open>The code\<close>

definition lq_first_pass :: "ptr \<Rightarrow> bool \<times> neighborhood \<Rightarrow> (bool \<times> neighborhood) option" where
  "lq_first_pass p = (\<lambda>(mpr_changes, db). do {
     neigh \<leftarrow> neighbors db p;
     let always = (\<not> (status neigh = NOT_SYM \<or> willingness neigh \<noteq> WILL_ALWAYS));
     Some (mpr_changes \<or> always \<and> \<not> is_mpr neigh, upd_nbr p (\<lambda>e. e\<lparr>was_mpr := is_mpr e, is_mpr := always\<rparr>) db)
   })"

definition clear_skip :: "neighbor_list_entry \<Rightarrow> neighborhood \<Rightarrow> neighborhood option" where
  "clear_skip walker db = do {
     e \<leftarrow> neighbors db (neighbor walker);
     Some (upd_nbr (neighbor walker) (\<lambda>e. e\<lparr>skip := False\<rparr>) db)
   }"

definition lq_best_step :: "neighborhood \<Rightarrow> neighbor_list_entry \<Rightarrow> ptr option \<times> olsr_linkcost \<Rightarrow> (ptr option \<times> olsr_linkcost) option" where
  "lq_best_step db walker = (\<lambda>(neigh, best). do {
     e \<leftarrow> neighbors db (neighbor walker);
     Some (if status e = SYM \<and> \<not> skip e \<and> path_linkcost walker < best
           then (Some (neighbor walker), path_linkcost walker) else (neigh, best))
   })"

text \<open>The loop over \<open>k\<close>.\<close>

fun lq_select :: "nat \<Rightarrow> olsr_linkcost \<Rightarrow> neighbor_list_entry list \<Rightarrow> bool \<times> neighborhood \<Rightarrow> (bool \<times> neighborhood) option" where
  "lq_select 0 best_1hop nblist s = Some s"
| "lq_select (Suc k) best_1hop nblist s = do {
     (neigh, best) \<leftarrow> foldM (lq_best_step (snd s)) nblist (None, LINK_COST_BROKEN);
     case neigh of
       None \<Rightarrow> Some s
     | Some p \<Rightarrow>
         if best < best_1hop then do {
           e \<leftarrow> neighbors (snd s) p;
           lq_select k best_1hop nblist
             (fst s \<or> \<not> was_mpr e, upd_nbr p (\<lambda>e. e\<lparr>is_mpr := True, skip := True\<rparr>) (snd s))
         } else Some s
   }"

definition lq_choose :: "nb_config \<Rightarrow> olsr_linkcost \<Rightarrow> neighbor_2_entry \<Rightarrow> bool \<times> neighborhood \<Rightarrow> (bool \<times> neighborhood) option" where
  "lq_choose cnf best_1hop neigh2 s = do {
     db1 \<leftarrow> foldM clear_skip (neighbor_2_nblist neigh2) (snd s);
     lq_select (unat (mpr_coverage cnf)) best_1hop (neighbor_2_nblist neigh2) (fst s, db1)
   }"

definition lq_two_hop :: "nb_config \<Rightarrow> u32 \<Rightarrow> ptr \<Rightarrow> bool \<times> neighborhood \<Rightarrow> (bool \<times> neighborhood) option" where
  "lq_two_hop cnf now p2 s = do {
     neigh2 \<leftarrow> two_hops (snd s) p2;
     neigh \<leftarrow> olsr_lookup_neighbor_table (neighbor_2_addr neigh2) (snd s);
     direct \<leftarrow> (case neigh of
         None \<Rightarrow> Some None
       | Some p \<Rightarrow> map_option (\<lambda>e. if status e = SYM then Some e else None) (neighbors (snd s) p));
     case direct of
       None \<Rightarrow> lq_choose cnf LINK_COST_BROKEN neigh2 s
     | Some e \<Rightarrow> do {
         lnk \<leftarrow> get_best_link_to_neighbor cnf now (neighbor_main_addr e) (snd s);
         case lnk of
           None \<Rightarrow> Some s
         | Some l \<Rightarrow> do {
             lk \<leftarrow> links (snd s) l;
             if list_ex (\<lambda>walker. path_linkcost walker < linkcost lk) (neighbor_2_nblist neigh2)
             then lq_choose cnf (linkcost lk) neigh2 s
             else Some s
           }
       }
   }"

definition olsr_calculate_lq_mpr :: "nb_config \<Rightarrow> u32 \<Rightarrow> neighborhood \<Rightarrow> neighborhood option" where
  "olsr_calculate_lq_mpr cnf now db = do {
     s1 \<leftarrow> foldM lq_first_pass (all_neighbors db) (False, db);
     (mpr_changes, db2) \<leftarrow> foldM (lq_two_hop cnf now) (all_two_hops (snd s1)) s1;
     Some (if mpr_changes \<and> tc_redundancy cnf > 0 then db2\<lparr>link_changes := True\<rparr> else db2)
   }"

section \<open>Relays of one two hop neighbour\<close>

definition lq_frame :: "neighborhood \<Rightarrow> neighborhood \<Rightarrow> bool" where
  "lq_frame db d \<longleftrightarrow> mpr_frame db d \<and> two_hops d = two_hops db"

lemma lq_frame_refl [simp]: "lq_frame db db"
  by (simp add: lq_frame_def)

lemma lq_frame_trans [trans]: "lq_frame a b \<Longrightarrow> lq_frame b c \<Longrightarrow> lq_frame a c"
  unfolding lq_frame_def by (auto intro: mpr_frame_trans)

lemma lq_frame_nbr:
  "(\<And>e. neighbor_main_addr (f e) = neighbor_main_addr e \<and> neighbor_2_list (f e) = neighbor_2_list e \<and> status (f e) = status e \<and>
      willingness (f e) = willingness e) \<Longrightarrow> lq_frame db (upd_nbr p f db)"
  unfolding lq_frame_def by (simp add: mpr_frame_nbr)

text \<open>The neighbours that reach a two hop neighbour over a working path.\<close>

definition usable :: "neighborhood \<Rightarrow> neighbor_2_entry \<Rightarrow> neighbor_list_entry set" where
  "usable db e2 = {x \<in> set (neighbor_2_nblist e2). path_linkcost x < LINK_COST_BROKEN \<and>
     (\<exists>e. neighbors db (neighbor x) = Some e \<and> status e = SYM)}"

definition skipped :: "neighborhood \<Rightarrow> neighbor_2_entry \<Rightarrow> neighbor_list_entry set" where
  "skipped db e2 = {x \<in> set (neighbor_2_nblist e2). \<exists>e. neighbors db (neighbor x) = Some e \<and> skip e}"

lemma usable_frame: "mpr_frame db d \<Longrightarrow> usable d e2 = usable db e2"
  unfolding usable_def using frame_entry frame_entry_rev by metis

text \<open>The result of the search: the old one if no candidate is cheaper, or a cheapest candidate.\<close>

definition candidate :: "neighborhood \<Rightarrow> neighbor_list_entry \<Rightarrow> bool" where
  "candidate db x \<longleftrightarrow> (\<exists>e. neighbors db (neighbor x) = Some e \<and> status e = SYM \<and> \<not> skip e)"

definition is_best :: "neighborhood \<Rightarrow> neighbor_list_entry list \<Rightarrow> ptr option \<times> olsr_linkcost \<Rightarrow> ptr option \<times> olsr_linkcost \<Rightarrow> bool" where
  "is_best db xs s r \<longleftrightarrow>
     r = s \<and> (\<forall>x\<in>set xs. candidate db x \<longrightarrow> snd s \<le> path_linkcost x) \<or>
     (\<exists>x\<in>set xs. candidate db x \<and> r = (Some (neighbor x), path_linkcost x) \<and> path_linkcost x < snd s \<and>
        (\<forall>y\<in>set xs. candidate db y \<longrightarrow> path_linkcost x \<le> path_linkcost y))"

lemma is_best_Cons:
  assumes "is_best db xs (if candidate db x \<and> path_linkcost x < snd s then (Some (neighbor x), path_linkcost x) else s) r"
  shows "is_best db (x # xs) s r"
proof (cases "candidate db x \<and> path_linkcost x < snd s")
  case True
  with assms consider "r = (Some (neighbor x), path_linkcost x)" "\<forall>y\<in>set xs. candidate db y \<longrightarrow> path_linkcost x \<le> path_linkcost y"
    | z where "z \<in> set xs" "candidate db z" "r = (Some (neighbor z), path_linkcost z)" "path_linkcost z < path_linkcost x"
      "\<forall>y\<in>set xs. candidate db y \<longrightarrow> path_linkcost z \<le> path_linkcost y"
    unfolding is_best_def by auto
  thus ?thesis
  proof cases
    case 1
    with True show ?thesis unfolding is_best_def by (intro disjI2 bexI [of _ x]) auto
  next
    case 2
    with True show ?thesis unfolding is_best_def by (intro disjI2 bexI [of _ z]) auto
  qed
next
  case False
  with assms consider "r = s" "\<forall>y\<in>set xs. candidate db y \<longrightarrow> snd s \<le> path_linkcost y"
    | z where "z \<in> set xs" "candidate db z" "r = (Some (neighbor z), path_linkcost z)" "path_linkcost z < snd s"
      "\<forall>y\<in>set xs. candidate db y \<longrightarrow> path_linkcost z \<le> path_linkcost y"
    unfolding is_best_def by auto
  thus ?thesis
  proof cases
    case 1
    with False show ?thesis unfolding is_best_def by auto
  next
    case 2
    with False show ?thesis unfolding is_best_def by (intro disjI2 bexI [of _ z]) auto
  qed
qed

lemma lq_best_ok:
  assumes "\<forall>x\<in>set xs. neighbors db (neighbor x) \<noteq> None"
  shows "\<exists>r. foldM (lq_best_step db) xs s = Some r \<and> is_best db xs s r"
  using assms
proof (induction xs arbitrary: s)
  case (Cons x xs)
  obtain e where e: "neighbors db (neighbor x) = Some e" using Cons.prems by auto
  have step: "lq_best_step db x s = Some (if candidate db x \<and> path_linkcost x < snd s then (Some (neighbor x), path_linkcost x) else s)"
    using e by (cases s) (simp add: lq_best_step_def candidate_def)
  have v: "\<forall>x\<in>set xs. neighbors db (neighbor x) \<noteq> None" using Cons.prems by simp
  from Cons.IH [OF v] obtain r where
    r: "foldM (lq_best_step db) xs (if candidate db x \<and> path_linkcost x < snd s then (Some (neighbor x), path_linkcost x) else s) = Some r"
    "is_best db xs (if candidate db x \<and> path_linkcost x < snd s then (Some (neighbor x), path_linkcost x) else s) r" by blast
  have "foldM (lq_best_step db) (x # xs) s = Some r" by (simp only: foldM.simps step bind.simps r(1))
  with is_best_Cons [OF r(2)] show ?case by blast
qed (simp add: is_best_def)

lemma clear_skip_ok:
  assumes "\<forall>x\<in>set xs. neighbors db (neighbor x) \<noteq> None"
  shows "\<exists>d. foldM clear_skip xs db = Some d \<and> lq_frame db d \<and> mprs d = mprs db \<and>
    (\<forall>p e. neighbors d p = Some e \<longrightarrow> skip e \<longrightarrow> p \<notin> neighbor ` set xs)"
  using assms
proof (induction xs arbitrary: db)
  case (Cons x xs)
  obtain e where e: "neighbors db (neighbor x) = Some e" using Cons.prems by auto
  let ?d = "upd_nbr (neighbor x) (\<lambda>e. e\<lparr>skip := False\<rparr>) db"
  have fr: "lq_frame db ?d" by (rule lq_frame_nbr) simp
  have "\<forall>y\<in>set xs. neighbors ?d (neighbor y) \<noteq> None" using Cons.prems by simp
  from Cons.IH [OF this] obtain d where d: "foldM clear_skip xs ?d = Some d" "lq_frame ?d d" "mprs d = mprs ?d"
    "\<And>p e. neighbors d p = Some e \<Longrightarrow> skip e \<Longrightarrow> p \<notin> neighbor ` set xs" by blast
  have keep: "\<not> skip e'" if "neighbors d (neighbor x) = Some e'" for e'
  proof -
    have "map_option skip (neighbors d' p) = map_option skip (neighbors c p) \<or> map_option skip (neighbors d' p) = Some False"
      if "foldM clear_skip ys c = Some d'" for ys c d' p
      using that
    proof (induction ys arbitrary: c)
      case (Cons y ys)
      then obtain c1 where c1: "clear_skip y c = Some c1" "foldM clear_skip ys c1 = Some d'" by (auto split: bind_splits)
      from c1(1) have "map_option skip (neighbors c1 p) = map_option skip (neighbors c p) \<or> map_option skip (neighbors c1 p) = Some False"
        by (auto simp: clear_skip_def split: bind_splits)
      with Cons.IH [OF c1(2)] show ?case by auto
    qed simp
    from this [OF d(1), of "neighbor x"] that e show ?thesis by auto
  qed
  have "mprs ?d = mprs db" by (rule mprs_nbr) simp
  moreover have "clear_skip x db = Some ?d" using e by (simp add: clear_skip_def)
  ultimately show ?case using d keep lq_frame_trans [OF fr d(2)] by auto
qed simp

text \<open>
  The neighbours chosen so far are cheaper than the rest; \<open>skip\<close> marks exactly them.
\<close>

definition cheapest :: "neighborhood \<Rightarrow> neighbor_2_entry \<Rightarrow> neighbor_list_entry set \<Rightarrow> bool" where
  "cheapest db e2 S \<longleftrightarrow> S \<subseteq> usable db e2 \<and> (\<forall>x\<in>S. \<forall>y\<in>usable db e2 - S. path_linkcost x \<le> path_linkcost y)"

lemma lq_select_ok:
  assumes "nb_inv db" "two_hops db p2 = Some e2"
  shows "lq_frame db (snd s) \<Longrightarrow> skipped (snd s) e2 = S \<Longrightarrow> cheapest db e2 S \<Longrightarrow> neighbor ` S \<subseteq> mprs (snd s) \<Longrightarrow>
    \<exists>s' S'. lq_select k best (neighbor_2_nblist e2) s = Some s' \<and> lq_frame db (snd s') \<and> mprs (snd s) \<subseteq> mprs (snd s') \<and>
      cheapest db e2 S' \<and> S \<subseteq> S' \<and> neighbor ` S' \<subseteq> mprs (snd s') \<and>
      (best = LINK_COST_BROKEN \<longrightarrow> card S' = min (card S + k) (card (usable db e2)))"
proof (induction k arbitrary: s S)
  case 0
  have "finite (usable db e2)" by (simp add: usable_def)
  hence "card S \<le> card (usable db e2)" using 0(3) by (intro card_mono) (auto simp: cheapest_def)
  with 0 show ?case by (intro exI [of _ s] exI [of _ S]) (simp add: min_def)
next
  case (Suc k)
  obtain c d where s: "s = (c, d)" by force
  let ?xs = "neighbor_2_nblist e2"
  have d: "lq_frame db d" "mpr_frame db d" using Suc.prems(1) s by (simp_all add: lq_frame_def)
  note core = nb_inv_core [OF frame_inv [OF assms(1) d(2)]]
  have e2: "two_hops d p2 = Some e2" using assms(2) d(1) by (simp add: lq_frame_def)
  have valid: "\<forall>x\<in>set ?xs. neighbors d (neighbor x) \<noteq> None" using nb_core_nblist [OF core e2] by blast
  obtain r where r: "foldM (lq_best_step d) ?xs (None, LINK_COST_BROKEN) = Some r" "is_best d ?xs (None, LINK_COST_BROKEN) r"
    using lq_best_ok [OF valid] by blast
  have fin: "finite (usable db e2)" by (simp add: usable_def)
  have cand: "x \<in> usable db e2 - S \<longleftrightarrow> x \<in> set ?xs \<and> candidate d x \<and> path_linkcost x < LINK_COST_BROKEN" for x
    unfolding usable_frame [OF d(2), symmetric] using Suc.prems(2) s by (auto simp: usable_def skipped_def candidate_def)
  have SU: "S \<subseteq> usable db e2" using Suc.prems(3) by (simp add: cheapest_def)
  show ?case
  proof (cases "usable db e2 - S = {}")
    case True
    hence "\<forall>x\<in>set ?xs. candidate d x \<longrightarrow> \<not> path_linkcost x < LINK_COST_BROKEN" using cand by blast
    hence "r = (None, LINK_COST_BROKEN)" using r(2) unfolding is_best_def by auto
    moreover have "card S = card (usable db e2)" using True SU by (metis Diff_eq_empty_iff subset_antisym)
    ultimately show ?thesis using r(1) s Suc.prems d by (intro exI [of _ s] exI [of _ S]) simp
  next
    case False
    then obtain z where "z \<in> set ?xs" "candidate d z" "path_linkcost z < LINK_COST_BROKEN" using cand by blast
    with r(2) obtain x where x: "x \<in> set ?xs" "candidate d x" "r = (Some (neighbor x), path_linkcost x)" "path_linkcost x < LINK_COST_BROKEN"
      "\<forall>y\<in>set ?xs. candidate d y \<longrightarrow> path_linkcost x \<le> path_linkcost y" unfolding is_best_def by (auto simp: not_le)
    show ?thesis
    proof (cases "path_linkcost x < best")
      case False
      hence "lq_select (Suc k) best ?xs s = Some s" using r(1) x(3) s by simp
      moreover have "best \<noteq> LINK_COST_BROKEN" using False x(4) by auto
      ultimately show ?thesis using Suc.prems by (intro exI [of _ s] exI [of _ S]) simp
    next
      case True
      obtain e where e: "neighbors d (neighbor x) = Some e" using valid x(1) by blast
      let ?d = "upd_nbr (neighbor x) (\<lambda>e. e\<lparr>is_mpr := True, skip := True\<rparr>) d"
      let ?s = "(c \<or> \<not> was_mpr e, ?d)" and ?S = "insert x S"
      have step: "lq_select (Suc k) best ?xs s = lq_select k best ?xs ?s" using r(1) x(3) True e s by simp
      have xU: "x \<in> usable db e2 - S" using x cand by blast
      have "lq_frame d ?d" by (rule lq_frame_nbr) simp
      hence f: "lq_frame db (snd ?s)" using lq_frame_trans [OF d(1)] by simp
      have inj: "y = x" if "y \<in> set ?xs" "neighbor y = neighbor x" for y
        using nb_core_nbr2D(1) [OF core e2] that x(1) by (simp add: distinct_map inj_on_def)
      have "skipped ?d e2 = insert x (skipped d e2)"
        using x(1) e inj by (auto simp: skipped_def split: if_splits)
      hence sk: "skipped (snd ?s) e2 = ?S" using Suc.prems(2) s by simp
      have ch: "cheapest db e2 ?S"
        using Suc.prems(3) xU x(5) cand unfolding cheapest_def by auto
      have m: "mprs ?d = insert (neighbor x) (mprs d)" using e by (auto simp: mprs_def)
      hence nm: "neighbor ` ?S \<subseteq> mprs (snd ?s)" using Suc.prems(4) s by auto
      from Suc.IH [OF f sk ch nm] obtain s' S' where s': "lq_select k best ?xs ?s = Some s'" "lq_frame db (snd s')" "mprs (snd ?s) \<subseteq> mprs (snd s')"
        "cheapest db e2 S'" "?S \<subseteq> S'" "neighbor ` S' \<subseteq> mprs (snd s')" "best = LINK_COST_BROKEN \<longrightarrow> card S' = min (card ?S + k) (card (usable db e2))"
        by blast
      have "card ?S = Suc (card S)" using xU fin SU by (simp add: card_insert_if finite_subset)
      with s' step m s show ?thesis by (intro exI [of _ s'] exI [of _ S']) auto
    qed
  qed
qed

section \<open>The whole selection\<close>

definition covered :: "nb_config \<Rightarrow> neighborhood \<Rightarrow> neighbor_2_entry \<Rightarrow> ptr set \<Rightarrow> bool" where
  "covered cnf db e2 M \<longleftrightarrow> (\<exists>S. cheapest db e2 S \<and> card S = min (unat (mpr_coverage cnf)) (card (usable db e2)) \<and> neighbor ` S \<subseteq> M)"

lemma covered_mono: "covered cnf db e2 M \<Longrightarrow> M \<subseteq> M' \<Longrightarrow> covered cnf db e2 M'"
  unfolding covered_def by blast

lemma lq_choose_ok:
  assumes inv: "nb_inv db" and e2: "two_hops db p2 = Some e2" and fr: "lq_frame db (snd s)"
  shows "\<exists>s'. lq_choose cnf best e2 s = Some s' \<and> lq_frame db (snd s') \<and> mprs (snd s) \<subseteq> mprs (snd s') \<and>
    (best = LINK_COST_BROKEN \<longrightarrow> covered cnf db e2 (mprs (snd s')))"
proof -
  have mf: "mpr_frame db (snd s)" using fr by (simp add: lq_frame_def)
  have e2s: "two_hops (snd s) p2 = Some e2" using e2 fr by (simp add: lq_frame_def)
  note core = nb_inv_core [OF frame_inv [OF inv mf]]
  have "\<forall>x\<in>set (neighbor_2_nblist e2). neighbors (snd s) (neighbor x) \<noteq> None" using nb_core_nblist [OF core e2s] by blast
  from clear_skip_ok [OF this] obtain d where d: "foldM clear_skip (neighbor_2_nblist e2) (snd s) = Some d" "lq_frame (snd s) d"
    "mprs d = mprs (snd s)" "\<And>p e. neighbors d p = Some e \<Longrightarrow> skip e \<Longrightarrow> p \<notin> neighbor ` set (neighbor_2_nblist e2)" by blast
  have "skipped d e2 = {}" using d(4) by (auto simp: skipped_def)
  moreover have "cheapest db e2 {}" by (simp add: cheapest_def)
  ultimately obtain s' S' where s': "lq_select (unat (mpr_coverage cnf)) best (neighbor_2_nblist e2) (fst s, d) = Some s'"
    "lq_frame db (snd s')" "mprs d \<subseteq> mprs (snd s')" "cheapest db e2 S'" "neighbor ` S' \<subseteq> mprs (snd s')"
    "best = LINK_COST_BROKEN \<longrightarrow> card S' = min (card ({} :: neighbor_list_entry set) + unat (mpr_coverage cnf)) (card (usable db e2))"
    using lq_select_ok [OF inv e2, of "(fst s, d)" "{}" "unat (mpr_coverage cnf)" best] lq_frame_trans [OF fr d(2)] by auto
  show ?thesis using s' d(1,3) by (auto simp: lq_choose_def covered_def)
qed

lemma links_valid_frame:
  assumes "links_valid db" "mpr_frame db d"
  shows "links_valid d"
proof -
  have l: "links d = links db" "link_entry_head d = link_entry_head db" using assms(2) by (simp_all add: mpr_frame_def same_mid_def)
  have "neighbors d p \<noteq> None" if "neighbors db p \<noteq> None" for p using that frame_entry_rev [OF assms(2), of p] by auto
  with assms(1) show ?thesis unfolding links_valid_def l by blast
qed

lemma lq_two_hop_ok:
  assumes inv: "nb_inv db" and lv: "links_valid db" and e2: "two_hops db p2 = Some e2" and fr: "lq_frame db (snd s)"
  shows "\<exists>s'. lq_two_hop cnf now p2 s = Some s' \<and> lq_frame db (snd s') \<and> mprs (snd s) \<subseteq> mprs (snd s') \<and>
    (dup_status (neighbor_2_addr e2) db \<noteq> Some (Some SYM) \<longrightarrow> covered cnf db e2 (mprs (snd s')))"
proof -
  have mf: "mpr_frame db (snd s)" using fr by (simp add: lq_frame_def)
  have e2s: "two_hops (snd s) p2 = Some e2" using e2 fr by (simp add: lq_frame_def)
  note core = nb_inv_core [OF frame_inv [OF inv mf]]
  obtain r where r: "olsr_lookup_neighbor_table (neighbor_2_addr e2) (snd s) = Some r"
    "case r of None \<Rightarrow> True | Some p \<Rightarrow> \<exists>e. neighbors (snd s) p = Some e" using lookup_neighbor_ok [OF core] by blast
  let ?direct = "case r of None \<Rightarrow> Some None | Some p \<Rightarrow> map_option (\<lambda>e. if status e = SYM then Some e else None) (neighbors (snd s) p)"
  obtain dir where dir: "?direct = Some dir" using r(2) by (auto split: option.splits)
  have ds: "dup_status (neighbor_2_addr e2) db = Some (Some SYM)" if "dir \<noteq> None"
    using that dir r(1) unfolding dup_status_frame [OF mf, symmetric] by (auto simp: dup_status_def split: option.splits if_splits)
  show ?thesis
  proof (cases dir)
    case None
    have "lq_two_hop cnf now p2 s = lq_choose cnf LINK_COST_BROKEN e2 s"
      using e2s r(1) dir None by (simp add: lq_two_hop_def)
    with lq_choose_ok [OF inv e2 fr, of cnf LINK_COST_BROKEN] show ?thesis by auto
  next
    case (Some e)
    obtain l where l: "get_best_link_to_neighbor cnf now (neighbor_main_addr e) (snd s) = Some l"
      "case l of None \<Rightarrow> True | Some l \<Rightarrow> l \<in> set (link_entry_head (snd s))"
      using best_link_ok [OF links_valid_frame [OF lv mf] nb_coreD(7) [OF core]] by blast
    show ?thesis
    proof (cases l)
      case None
      hence "lq_two_hop cnf now p2 s = Some s" using e2s r(1) dir Some l(1) by (simp add: lq_two_hop_def)
      with fr ds Some show ?thesis by simp
    next
      case l2: (Some l')
      with l(2) links_valid_frame [OF lv mf] obtain lk where lk: "links (snd s) l' = Some lk" unfolding links_valid_def by fastforce
      have eq: "lq_two_hop cnf now p2 s = (if list_ex (\<lambda>walker. path_linkcost walker < linkcost lk) (neighbor_2_nblist e2)
          then lq_choose cnf (linkcost lk) e2 s else Some s)"
        using e2s r(1) dir Some l(1) l2 lk by (simp add: lq_two_hop_def)
      obtain s' where "lq_choose cnf (linkcost lk) e2 s = Some s'" "lq_frame db (snd s')" "mprs (snd s) \<subseteq> mprs (snd s')"
        using lq_choose_ok [OF inv e2 fr, of cnf "linkcost lk"] by blast
      with eq fr ds Some show ?thesis by (cases "list_ex (\<lambda>walker. path_linkcost walker < linkcost lk) (neighbor_2_nblist e2)") simp_all
    qed
  qed
qed

lemma first_pass_ok:
  assumes inv: "nb_inv db"
  shows "\<exists>s. foldM lq_first_pass (all_neighbors db) (False, db) = Some s \<and> lq_frame db (snd s) \<and> mprs (snd s) = always_mprs db"
proof -
  have "\<exists>s'. foldM lq_first_pass ps s = Some s' \<and> lq_frame db (snd s') \<and> mprs (snd s') = (mprs (snd s) - set ps) \<union> (always_mprs db \<inter> set ps)"
    if "set ps \<subseteq> set (all_neighbors db)" "lq_frame db (snd s)" "distinct ps" for ps s
    using that
  proof (induction ps arbitrary: s)
    case (Cons p ps)
    obtain c d where s: "s = (c, d)" by force
    have d: "lq_frame db d" "mpr_frame db d" using Cons.prems(2) s by (simp_all add: lq_frame_def)
    obtain e where e: "neighbors d p = Some e"
      using Cons.prems(1) all_neighbors_valid [OF nb_inv_core [OF frame_inv [OF inv d(2)]]] frame_tables(1) [OF d(2)] by auto
    obtain e0 where e0: "neighbors db p = Some e0" "status e0 = status e" "willingness e0 = willingness e" using frame_entry [OF d(2) e] by blast
    let ?a = "\<not> (status e = NOT_SYM \<or> willingness e \<noteq> WILL_ALWAYS)"
    let ?d = "upd_nbr p (\<lambda>e. e\<lparr>was_mpr := is_mpr e, is_mpr := ?a\<rparr>) d"
    have a: "?a \<longleftrightarrow> p \<in> always_mprs db" using e0 by (auto simp: always_mprs_def)
    have "lq_frame d ?d" by (rule lq_frame_nbr) simp
    hence f: "lq_frame db ?d" using lq_frame_trans [OF d(1)] by blast
    have m: "mprs ?d = (mprs d - {p}) \<union> (always_mprs db \<inter> {p})" using e a by (auto simp: mprs_def)
    have step: "lq_first_pass p s = Some (c \<or> ?a \<and> \<not> is_mpr e, ?d)" using e s by (simp add: lq_first_pass_def)
    from Cons.IH [of "(c \<or> ?a \<and> \<not> is_mpr e, ?d)"] Cons.prems f obtain s' where s': "foldM lq_first_pass ps (c \<or> ?a \<and> \<not> is_mpr e, ?d) = Some s'"
      "lq_frame db (snd s')" "mprs (snd s') = (mprs ?d - set ps) \<union> (always_mprs db \<inter> set ps)" by auto
    have "mprs (snd s') = (mprs (snd s) - set (p # ps)) \<union> (always_mprs db \<inter> set (p # ps))"
      unfolding s'(3) m using s Cons.prems(3) by auto
    with s'(1,2) step show ?case by simp
  qed simp
  from this [of "all_neighbors db" "(False, db)"] obtain s where s: "foldM lq_first_pass (all_neighbors db) (False, db) = Some s" "lq_frame db (snd s)"
    "mprs (snd s) = (mprs db - set (all_neighbors db)) \<union> (always_mprs db \<inter> set (all_neighbors db))"
    using distinct_all_neighbors [OF nb_inv_core [OF inv]] by auto
  moreover have "mprs db \<subseteq> set (all_neighbors db)" "always_mprs db \<subseteq> set (all_neighbors db)"
    using all_neighbors_valid [OF nb_inv_core [OF inv]] by (auto simp: always_mprs_def mprs_def)
  ultimately show ?thesis by auto
qed

lemma lq_all_two_hops:
  assumes inv: "nb_inv db" and lv: "links_valid db"
  shows "set ps \<subseteq> dom (two_hops db) \<Longrightarrow> lq_frame db (snd s) \<Longrightarrow>
    \<exists>s'. foldM (lq_two_hop cnf now) ps s = Some s' \<and> lq_frame db (snd s') \<and> mprs (snd s) \<subseteq> mprs (snd s') \<and>
      (\<forall>p2\<in>set ps. \<forall>e2. two_hops db p2 = Some e2 \<longrightarrow> dup_status (neighbor_2_addr e2) db \<noteq> Some (Some SYM) \<longrightarrow> covered cnf db e2 (mprs (snd s')))"
proof (induction ps arbitrary: s)
  case (Cons p2 ps)
  then obtain e2 where e2: "two_hops db p2 = Some e2" by auto
  obtain s1 where s1: "lq_two_hop cnf now p2 s = Some s1" "lq_frame db (snd s1)" "mprs (snd s) \<subseteq> mprs (snd s1)"
    "dup_status (neighbor_2_addr e2) db \<noteq> Some (Some SYM) \<longrightarrow> covered cnf db e2 (mprs (snd s1))"
    using lq_two_hop_ok [OF inv lv e2 Cons.prems(2)] by blast
  have "set ps \<subseteq> dom (two_hops db)" using Cons.prems(1) by simp
  from Cons.IH [OF this s1(2)] obtain s' where s': "foldM (lq_two_hop cnf now) ps s1 = Some s'" "lq_frame db (snd s')" "mprs (snd s1) \<subseteq> mprs (snd s')"
    "\<forall>p2\<in>set ps. \<forall>e2. two_hops db p2 = Some e2 \<longrightarrow> dup_status (neighbor_2_addr e2) db \<noteq> Some (Some SYM) \<longrightarrow> covered cnf db e2 (mprs (snd s'))"
    by blast
  have "dup_status (neighbor_2_addr e2) db \<noteq> Some (Some SYM) \<longrightarrow> covered cnf db e2 (mprs (snd s'))"
    using s1(4) covered_mono s'(3) by blast
  with s' s1(1,3) e2 show ?case by auto
qed simp

lemma calculate_lq_mpr_ok:
  assumes inv: "nb_inv db" and lv: "links_valid db"
  shows "\<exists>db'. olsr_calculate_lq_mpr cnf now db = Some db' \<and> lq_frame db db' \<and> always_mprs db \<subseteq> mprs db' \<and>
    (\<forall>p2 e2. two_hops db p2 = Some e2 \<longrightarrow> dup_status (neighbor_2_addr e2) db \<noteq> Some (Some SYM) \<longrightarrow> covered cnf db e2 (mprs db'))"
proof -
  obtain s1 where s1: "foldM lq_first_pass (all_neighbors db) (False, db) = Some s1" "lq_frame db (snd s1)" "mprs (snd s1) = always_mprs db"
    using first_pass_ok [OF inv] by blast
  have two: "set (all_two_hops (snd s1)) = dom (two_hops db)"
    using all_two_hops_valid [OF nb_inv_core [OF inv]] frame_tables(2) s1(2) by (auto simp: lq_frame_def)
  obtain s2 where s2: "foldM (lq_two_hop cnf now) (all_two_hops (snd s1)) s1 = Some s2" "lq_frame db (snd s2)" "mprs (snd s1) \<subseteq> mprs (snd s2)"
    "\<forall>p2\<in>set (all_two_hops (snd s1)). \<forall>e2. two_hops db p2 = Some e2 \<longrightarrow> dup_status (neighbor_2_addr e2) db \<noteq> Some (Some SYM) \<longrightarrow>
       covered cnf db e2 (mprs (snd s2))"
    using lq_all_two_hops [OF inv lv _ s1(2), of "all_two_hops (snd s1)" cnf now] two by auto
  obtain c d where s: "s2 = (c, d)" by force
  let ?d = "if c \<and> tc_redundancy cnf > 0 then d\<lparr>link_changes := True\<rparr> else d"
  have "olsr_calculate_lq_mpr cnf now db = Some ?d" using s1(1) s2(1) s by (simp add: olsr_calculate_lq_mpr_def)
  moreover have "lq_frame db ?d" "mprs ?d = mprs d" using s2(2) s by (simp_all add: lq_frame_def)
  ultimately show ?thesis using s2(3,4) s1(3) s two by (auto 0 3)
qed

end
