(* ===== verification/Olsr_Neighborhood.thy ===== *)
theory Olsr_Neighborhood
  imports Olsr_Mpr_Coverage Olsr_Lq_Mpr
begin

text \<open>
  The neighbourhood as a whole: the steps by which HELLO messages, timers, link changes and relay
  selections change it, the invariant of every reachable state, and the properties of HELLO
  processing, of the removal of neighbours and of the relay selection by link quality.
\<close>

definition nb_ok :: "neighborhood \<Rightarrow> bool" where
  "nb_ok db \<longleftrightarrow> nb_inv db \<and> mid_flat db \<and> links_valid db"

lemma nb_ok_kept:
  assumes "nb_ok db" "nb_inv d" "same_mid db d" "\<And>p. neighbors db p \<noteq> None \<Longrightarrow> neighbors d p \<noteq> None"
  shows "nb_ok d"
proof -
  have "links d = links db" "link_entry_head d = link_entry_head db" using assms(3) by (simp_all add: same_mid_def)
  hence "links_valid d" using assms(1,4) unfolding nb_ok_def links_valid_def by metis
  with assms mid_flat_same [OF assms(3)] show ?thesis by (simp add: nb_ok_def)
qed

text \<open>No link of the link set refers to the neighbour with an address.\<close>

definition unlinked_neighbor :: "olsr_ip_addr \<Rightarrow> neighborhood \<Rightarrow> bool" where
  "unlinked_neighbor a db \<longleftrightarrow> (\<forall>l\<in>set (link_entry_head db). \<forall>lk. links db l = Some lk \<longrightarrow>
     olsr_lookup_neighbor_table_alias a db \<noteq> Some (Some (link_neighbor lk)))"

section \<open>Steps\<close>

inductive nb_step :: "nb_config \<Rightarrow> neighborhood \<Rightarrow> neighborhood \<Rightarrow> bool" for cnf where
  Hello: "neighbors db p \<noteq> None \<Longrightarrow> process_message_neighbors cnf now p m db = Some db' \<Longrightarrow> nb_step cnf db db'"
| Expire: "nbr2_lists db q \<noteq> None \<Longrightarrow> olsr_expire_nbr2_list q db = Some db' \<Longrightarrow> nb_step cnf db db'"
| Insert: "card (dom (neighbors db)) + 1 < 2 ^ 15 \<Longrightarrow> olsr_insert_neighbor_table a db = Some (p, db') \<Longrightarrow> nb_step cnf db db'"
| Delete: "unlinked_neighbor a db \<Longrightarrow> olsr_delete_neighbor_table a db = Some (r, db') \<Longrightarrow> nb_step cnf db db'"
| Main_addr: "neighbors db p \<noteq> None \<Longrightarrow> olsr_update_neighbor_main_addr p a db = Some db' \<Longrightarrow> nb_step cnf db db'"
| Status: "neighbors db p \<noteq> None \<Longrightarrow> update_neighbor_status cnf p lnk db = Some (s, db') \<Longrightarrow> nb_step cnf db db'"
| Willingness: "nb_step cnf db (upd_nbr p (\<lambda>e. e\<lparr>willingness := w\<rparr>) db)"
| Mpr: "olsr_calculate_mpr cnf db = Some db' \<Longrightarrow> nb_step cnf db db'"
| Lq_mpr: "olsr_calculate_lq_mpr cnf now db = Some db' \<Longrightarrow> nb_step cnf db db'"

inductive_cases nb_stepE: "nb_step cnf db db'"

lemma frame_kept: "nb_ok db \<Longrightarrow> mpr_frame db d \<Longrightarrow> nb_ok d"
  using frame_inv [of db d] links_valid_frame [of db d] mid_flat_same [of db d] by (simp add: nb_ok_def mpr_frame_def)

lemma delete_kept:
  assumes ok: "nb_ok db" and un: "unlinked_neighbor a db" and del: "olsr_delete_neighbor_table a db = Some (r, db')"
  shows "nb_ok db'"
proof -
  have inv: "nb_inv db" using ok by (simp add: nb_ok_def)
  obtain l where l: "olsr_lookup_neighbor_table_alias a db = Some l" using lookup_alias_ok [OF nb_inv_core [OF inv]] by blast
  show ?thesis
  proof (cases l)
    case None
    with l del ok show ?thesis by (simp add: olsr_delete_neighbor_table_def)
  next
    case (Some p)
    obtain d where d: "olsr_delete_neighbor_table a db = Some (1, d)" "nb_inv d" "neighbors d = (neighbors db)(p := None)" "same_mid db d"
      using delete_neighbor_ok [OF inv, of a p] l Some unfolding same_mid_def by auto
    have "d = db'" using d(1) del by simp
    moreover have "links d = links db" "link_entry_head d = link_entry_head db" using d(4) by (simp_all add: same_mid_def)
    moreover have "\<forall>l\<in>set (link_entry_head db). \<forall>lk. links db l = Some lk \<longrightarrow> link_neighbor lk \<noteq> p"
      using un l Some by (auto simp: unlinked_neighbor_def)
    moreover have "\<forall>l\<in>set (link_entry_head db). \<exists>lk. links db l = Some lk \<and> neighbors db (link_neighbor lk) \<noteq> None"
      using ok by (simp add: nb_ok_def links_valid_def)
    ultimately have "links_valid db'" using d(3) unfolding links_valid_def by (metis fun_upd_other)
    with \<open>d = db'\<close> d(2,4) ok mid_flat_same [OF d(4)] show ?thesis by (simp add: nb_ok_def)
  qed
qed

lemma step_kept:
  assumes step: "nb_step cnf db db'" and ok: "nb_ok db"
  shows "nb_ok db'"
proof -
  have inv: "nb_inv db" "mid_flat db" "links_valid db" using ok by (simp_all add: nb_ok_def)
  show ?thesis using step
  proof cases
    case (Hello p now m)
    with process_neighbors_ok [OF inv(1) _ inv(2,3), of p cnf now m]
    have d: "nb_inv db'" "same_mid db db'" "\<forall>p'. neighbors db' p' = None \<longleftrightarrow> neighbors db p' = None" by auto
    show ?thesis by (rule nb_ok_kept [OF ok d(1,2)]) (simp add: d(3))
  next
    case (Expire q)
    then obtain nl where "nbr2_lists db q = Some nl" by blast
    from expire_nbr2_ok [OF inv(1) this] Expire
    have d: "nb_inv db'" "same_mid db db'" "\<forall>p'. neighbors db' p' = None \<longleftrightarrow> neighbors db p' = None" by auto
    show ?thesis by (rule nb_ok_kept [OF ok d(1,2)]) (simp add: d(3))
  next
    case (Insert a p)
    from insert_neighbor_ok [OF inv(1) Insert(1), of a] Insert(2) obtain e where e: "nb_inv db'" "neighbors db' p = Some e"
      "\<forall>p'. p' \<noteq> p \<longrightarrow> neighbors db' p' = neighbors db p'" "same_mid db db'" by auto
    show ?thesis by (rule nb_ok_kept [OF ok e(1,4)]) (metis e(2,3) option.distinct(1))
  next
    case (Delete a r)
    with delete_kept [OF ok] show ?thesis by blast
  next
    case (Main_addr p a)
    then obtain e where e: "neighbors db p = Some e" by blast
    let ?d = "upd_nbr p (\<lambda>e. e\<lparr>neighbor_main_addr := a\<rparr>) db"
    have db': "db' = ?d\<lparr>neighbortable := queue_elem (ip_hash a) p (dequeue_elem p (neighbortable ?d))\<rparr>"
      using Main_addr(2) e by (simp add: olsr_update_neighbor_main_addr_def Let_def)
    have "nb_inv db'" using update_main_addr_ok [OF inv(1) e, of a] Main_addr(2) by auto
    thus ?thesis by (rule nb_ok_kept [OF ok]) (auto simp: db' same_mid_def)
  next
    case (Status p lnk s)
    then obtain e where "neighbors db p = Some e" by blast
    from update_status_ok [OF inv(1) this, of cnf lnk] Status
    have d: "nb_inv db'" "same_mid db db'" "\<forall>p'. neighbors db' p' = None \<longleftrightarrow> neighbors db p' = None" by auto
    show ?thesis by (rule nb_ok_kept [OF ok d(1,2)]) (simp add: d(3))
  next
    case (Willingness p w)
    have "same_shape db db'" unfolding Willingness by (rule same_shape_nbr) simp
    hence "nb_inv db'" by (rule inv_same_shape [OF inv(1)])
    thus ?thesis by (rule nb_ok_kept [OF ok]) (auto simp: Willingness same_mid_def)
  next
    case Mpr
    with calculate_mpr_ok [OF inv(1), of cnf] show ?thesis by (auto simp: mpr_range_def intro: frame_kept [OF ok])
  next
    case (Lq_mpr now)
    with calculate_lq_mpr_ok [OF inv(1,3), of cnf now] show ?thesis by (auto simp: lq_frame_def intro: frame_kept [OF ok])
  qed
qed

lemma steps_kept: "(nb_step cnf)\<^sup>*\<^sup>* db db' \<Longrightarrow> nb_ok db \<Longrightarrow> nb_ok db'"
  by (induction rule: rtranclp_induct) (auto intro: step_kept)

lemma can_step:
  assumes ok: "nb_ok db"
  shows "(\<forall>p now m. neighbors db p \<noteq> None \<longrightarrow> process_message_neighbors cnf now p m db \<noteq> None) \<and>
    (\<forall>q. nbr2_lists db q \<noteq> None \<longrightarrow> olsr_expire_nbr2_list q db \<noteq> None) \<and>
    (\<forall>a. olsr_delete_neighbor_table a db \<noteq> None) \<and>
    (\<forall>p lnk. neighbors db p \<noteq> None \<longrightarrow> update_neighbor_status cnf p lnk db \<noteq> None) \<and>
    olsr_calculate_mpr cnf db \<noteq> None \<and> (\<forall>now. olsr_calculate_lq_mpr cnf now db \<noteq> None)"
proof (intro conjI allI impI)
  have inv: "nb_inv db" "mid_flat db" "links_valid db" using ok by (simp_all add: nb_ok_def)
  show "process_message_neighbors cnf now p m db \<noteq> None" if "neighbors db p \<noteq> None" for p now m
    using process_neighbors_ok [OF inv(1) that inv(2,3), of cnf now m] by auto
  show "olsr_expire_nbr2_list q db \<noteq> None" if "nbr2_lists db q \<noteq> None" for q
    using that expire_nbr2_ok [OF inv(1), of q] by fastforce
  show "olsr_delete_neighbor_table a db \<noteq> None" for a
  proof -
    obtain l where l: "olsr_lookup_neighbor_table_alias a db = Some l" using lookup_alias_ok [OF nb_inv_core [OF inv(1)]] by blast
    show ?thesis
    proof (cases l)
      case None
      with l show ?thesis by (simp add: olsr_delete_neighbor_table_def)
    next
      case (Some p)
      with delete_neighbor_ok [OF inv(1), of a p] l show ?thesis by auto
    qed
  qed
  show "update_neighbor_status cnf p lnk db \<noteq> None" if "neighbors db p \<noteq> None" for p lnk
    using that update_status_ok [OF inv(1), of p _ cnf lnk] by fastforce
  show "olsr_calculate_mpr cnf db \<noteq> None" using calculate_mpr_ok [OF inv(1), of cnf] by auto
  show "olsr_calculate_lq_mpr cnf now db \<noteq> None" for now using calculate_lq_mpr_ok [OF inv(1,3), of cnf now] by auto
qed

section \<open>Properties\<close>

text \<open>
  C36. Every neighbourhood reachable from a consistent one through HELLO messages, expiring links,
  appearing, changing and disappearing neighbours and both relay selections is consistent: the
  links of neighbours and two hop neighbours agree with each other and with the counters, and the
  next HELLO message, timer, deletion, status change or selection touches no freed object.
\<close>

theorem neighborhood_reachable:
  assumes "(nb_step cnf)\<^sup>*\<^sup>* db0 db" and "nb_ok db0"
  shows "nb_inv db \<and>
    (\<forall>p now m. neighbors db p \<noteq> None \<longrightarrow> process_message_neighbors cnf now p m db \<noteq> None) \<and>
    (\<forall>q. nbr2_lists db q \<noteq> None \<longrightarrow> olsr_expire_nbr2_list q db \<noteq> None) \<and>
    (\<forall>a. olsr_delete_neighbor_table a db \<noteq> None) \<and>
    (\<forall>p lnk. neighbors db p \<noteq> None \<longrightarrow> update_neighbor_status cnf p lnk db \<noteq> None) \<and>
    olsr_calculate_mpr cnf db \<noteq> None \<and> (\<forall>now. olsr_calculate_lq_mpr cnf now db \<noteq> None)"
  using can_step [OF steps_kept [OF assms]] steps_kept [OF assms] by (simp add: nb_ok_def)

lemma demo_ok: "nb_ok demo_db"
proof -
  have "mid_lookup_main_addr a demo_db = Some None" for a by (simp add: mid_lookup_main_addr_def demo_db_def)
  moreover have "links_valid demo_db" by (simp add: links_valid_def demo_db_def)
  ultimately show ?thesis using demo_inv by (simp add: nb_ok_def mid_flat_def)
qed

theorem neighborhood_reachable_witness:
  "nb_inv demo_db \<and> (\<forall>a. olsr_delete_neighbor_table a demo_db \<noteq> None)"
  using neighborhood_reachable [OF rtranclp.rtrancl_refl demo_ok] by blast


definition demo_hello :: hello_message where
  "demo_hello = \<lparr>hello_vtime = 20000, hello_htime = 5000, hello_source_addr = V4 1, hello_willingness = 3,
     hello_neighbors = [\<lparr>hello_status = SYM_NEIGH, hello_link = UNSPEC_LINK, hello_address = V4 8, hello_cost = 1024\<rparr>]\<rparr>"


text \<open>
  Deleting a neighbour removes it, its links, and every two hop neighbour that was reached
  through it only; the two hop neighbours that others reach stay, with their remaining links.
\<close>

theorem neighbor_deleted:
  assumes "nb_inv db" and "olsr_lookup_neighbor_table_alias a db = Some (Some p)"
  shows "\<exists>db'. olsr_delete_neighbor_table a db = Some (1, db') \<and> nb_inv db' \<and>
    neighbors db' = (neighbors db)(p := None) \<and> reach2 db' = {(x, b) \<in> reach2 db. x \<noteq> p} \<and>
    neighbor_2_addr ` ran (two_hops db') = {b. \<exists>x. (x, b) \<in> reach2 db \<and> x \<noteq> p}"
proof -
  obtain db' where d: "olsr_delete_neighbor_table a db = Some (1, db')" "nb_inv db'" "neighbors db' = (neighbors db)(p := None)"
    "two_hops db' = (\<lambda>p2. without {p} (two_hops db p2))" using delete_neighbor_ok [OF assms] by blast
  have r: "reach2 db' = {(x, b) \<in> reach2 db. x \<noteq> p}"
    by (rule reach2_without [OF nb_inv_core [OF assms(1)] nb_inv_core [OF d(2)] d(4)])
  have "(\<exists>e2\<in>ran (two_hops db'). neighbor_2_addr e2 = b) \<longleftrightarrow> (\<exists>x. (x, b) \<in> reach2 db')" for b
  proof
    assume "\<exists>e2\<in>ran (two_hops db'). neighbor_2_addr e2 = b"
    then obtain p2 e2 where e2: "two_hops db' p2 = Some e2" "neighbor_2_addr e2 = b" by (auto simp: ran_def)
    obtain x xs where "neighbor_2_nblist e2 = x # xs" using nb_inv_linked [OF d(2) e2(1)] by (meson neq_Nil_conv)
    hence "neighbor x \<in> neighbor ` set (neighbor_2_nblist e2)" by simp
    with e2 show "\<exists>x. (x, b) \<in> reach2 db'" unfolding reach2_iff_nblist [OF nb_inv_core [OF d(2)]] by blast
  next
    assume "\<exists>x. (x, b) \<in> reach2 db'"
    thus "\<exists>e2\<in>ran (two_hops db'). neighbor_2_addr e2 = b" by (auto simp: reach2_def ran_def)
  qed
  hence "neighbor_2_addr ` ran (two_hops db') = {b. \<exists>x. (x, b) \<in> reach2 db'}" by (simp add: set_eq_iff image_iff) metis
  also have "\<dots> = {b. \<exists>x. (x, b) \<in> reach2 db \<and> x \<noteq> p}" unfolding r by simp
  finally show ?thesis using d(1-3) r by blast
qed

theorem neighbor_deleted_witness:
  "\<exists>p db'. olsr_delete_neighbor_table (V4 1) demo_db = Some (1, db') \<and> nb_inv db' \<and> neighbors db' = (neighbors demo_db)(p := None)"
proof -
  obtain r where r: "olsr_lookup_neighbor_table_alias (V4 1) demo_db = Some r"
    "r = None \<Longrightarrow> \<forall>p e. neighbors demo_db p = Some e \<longrightarrow> neighbor_main_addr e \<noteq> V4 1"
    using lookup_alias_ok [OF nb_inv_core [OF demo_inv], of "V4 1"] by (auto split: option.splits)
  have "neighbors demo_db 0 = Some (demo_nbr 1 10)" "neighbor_main_addr (demo_nbr 1 10) = V4 1"
    by (simp_all add: demo_db_def demo_nbr_def new_neighbor_def)
  with r obtain p where "olsr_lookup_neighbor_table_alias (V4 1) demo_db = Some (Some p)" by (cases r) blast+
  from neighbor_deleted [OF demo_inv this] show ?thesis by blast
qed

lemma covered_iff:
  "covered cnf db e2 M \<longleftrightarrow> (\<exists>S \<subseteq> usable db e2. card S = min (unat (mpr_coverage cnf)) (card (usable db e2)) \<and> neighbor ` S \<subseteq> M \<and>
     (\<forall>x\<in>S. \<forall>y\<in>usable db e2 - S. path_linkcost x \<le> path_linkcost y))"
  unfolding covered_def cheapest_def by blast

text \<open>
  C37. The relay selection by link quality covers every two hop neighbour that is not a symmetric
  neighbour itself: the configured number of its usable neighbours, or all of them if there are
  fewer, become relays, and no other usable neighbour offers a cheaper path than they do.
  Symmetric neighbours that are always willing are relays as well, and the tables keep their
  shape.
\<close>

theorem lq_mpr_covers:
  assumes "nb_inv db" and "links_valid db"
  shows "\<exists>db'. olsr_calculate_lq_mpr cnf now db = Some db' \<and> nb_inv db' \<and> always_mprs db \<subseteq> mprs db' \<and>
    (\<forall>p2 e2. two_hops db p2 = Some e2 \<longrightarrow> dup_status (neighbor_2_addr e2) db \<noteq> Some (Some SYM) \<longrightarrow>
       (\<exists>S \<subseteq> usable db e2. card S = min (unat (mpr_coverage cnf)) (card (usable db e2)) \<and> neighbor ` S \<subseteq> mprs db' \<and>
          (\<forall>x\<in>S. \<forall>y\<in>usable db e2 - S. path_linkcost x \<le> path_linkcost y)))"
proof -
  obtain db' where d: "olsr_calculate_lq_mpr cnf now db = Some db'" "lq_frame db db'" "always_mprs db \<subseteq> mprs db'"
    "\<And>p2 e2. two_hops db p2 = Some e2 \<Longrightarrow> dup_status (neighbor_2_addr e2) db \<noteq> Some (Some SYM) \<Longrightarrow> covered cnf db e2 (mprs db')"
    using calculate_lq_mpr_ok [OF assms, of cnf now] by blast
  have "nb_inv db'" using frame_inv [OF assms(1)] d(2) by (simp add: lq_frame_def)
  with d(1,3) d(4) [unfolded covered_iff] show ?thesis by (intro exI [of _ db']) simp
qed

theorem lq_mpr_covers_witness:
  "\<exists>db'. olsr_calculate_lq_mpr demo_cnf 0 demo_db = Some db' \<and> mprs db' \<noteq> {}"
proof -
  let ?e = "\<lparr>neighbor_2_addr = V4 9, mpr_covered_count = 0, processed = 0, neighbor_2_pointer = 3,
       neighbor_2_nblist = map demo_link [0, 1, 2]\<rparr>"
  have lv: "links_valid demo_db" using demo_ok by (simp add: nb_ok_def)
  have e2: "two_hops demo_db 20 = Some ?e" by (simp add: demo_db_def)
  have "dup_status (neighbor_2_addr ?e) demo_db = Some None" using demo_common(1) e2 by (simp add: common_two_hop_def)
  hence dup: "dup_status (neighbor_2_addr ?e) demo_db \<noteq> Some (Some SYM)" by simp
  have "demo_link 0 \<in> usable demo_db ?e"
    by (simp add: usable_def demo_link_def demo_db_def demo_nbr_def LINK_COST_BROKEN_def)
  moreover have "finite (usable demo_db ?e)" by (simp add: usable_def)
  ultimately have "card (usable demo_db ?e) \<noteq> 0" by auto
  hence one: "min (unat (mpr_coverage demo_cnf)) (card (usable demo_db ?e)) = 1" by (simp add: demo_cnf_def)
  obtain db' where d: "olsr_calculate_lq_mpr demo_cnf 0 demo_db = Some db'"
    "\<forall>p2 e2. two_hops demo_db p2 = Some e2 \<longrightarrow> dup_status (neighbor_2_addr e2) demo_db \<noteq> Some (Some SYM) \<longrightarrow>
       covered demo_cnf demo_db e2 (mprs db')"
    using lq_mpr_covers [OF demo_inv lv, where cnf = demo_cnf and now = 0] unfolding covered_iff by (elim exE conjE) simp
  have "covered demo_cnf demo_db ?e (mprs db')" by (rule d(2) [rule_format, OF e2 dup])
  then obtain S :: "neighbor_list_entry set" where "card S = 1" "neighbor ` S \<subseteq> mprs db'" unfolding covered_def one by blast
  hence "mprs db' \<noteq> {}" by (metis card.empty image_is_empty subset_empty zero_neq_one)
  with d(1) show ?thesis by blast
qed

end
