(* ===== verification/Olsr_Ipcalc.thy ===== *)
theory Olsr_Ipcalc
  imports Olsr_Packet
begin

unbundle bit_operations_syntax

text \<open>
  Netmasks, prefixes and networks (\<^verbatim>\<open>src/ipcalc.c\<close>, \<^verbatim>\<open>src/ipcalc.h\<close>). The routines work on octets or
  on words in network byte order; the reference is the sequence of bits of an address, most
  significant first.
\<close>

section \<open>Netmasks\<close>

text \<open>
  \<open>prefix_to_netmask\<close> on an array of \<open>len\<close> octets: the value returned and what it writes. The loop
  that skips whole octets ends at the end of the array or when eight bits or fewer are left.
\<close>

fun netmask_loop :: "nat \<Rightarrow> nat \<Rightarrow> int \<times> u8 list" where
  "netmask_loop 0 p = (0, [])"
| "netmask_loop (Suc n) p =
     (if p > 8 then map_prod id (Cons 0xff) (netmask_loop n (p - 8))
      else (1, push_bit (8 - p) 0xff # replicate n 0))"

definition prefix_to_netmask :: "nat \<Rightarrow> u8 \<Rightarrow> int \<times> u8 list" where
  "prefix_to_netmask len prefixlen = netmask_loop len (unat prefixlen)"

definition UCHAR_MAX :: u16 where "UCHAR_MAX = 255"

definition last_byte_bits :: "u8 \<Rightarrow> u16 option" where
  "last_byte_bits b = (if b = 0 then Some 0 else if b = 128 then Some 1 else if b = 192 then Some 2 else if b = 224 then Some 3
     else if b = 240 then Some 4 else if b = 248 then Some 5 else if b = 252 then Some 6 else if b = 254 then Some 7
     else if b = 255 then Some 8 else None)"

fun netmask_prefix :: "u8 list \<Rightarrow> u16 \<Rightarrow> u16" where
  "netmask_prefix [] pfx = pfx"
| "netmask_prefix (b # bs) pfx =
     (if b = 0xff then netmask_prefix bs (pfx + 8)
      else case last_byte_bits b of None \<Rightarrow> UCHAR_MAX | Some n \<Rightarrow> pfx + n)"

definition netmask_to_prefix :: "u8 list \<Rightarrow> u8" where
  "netmask_to_prefix adr = ucast (netmask_prefix adr 0)"

definition olsr_prefix_to_netmask :: "olsrd_config \<Rightarrow> u8 \<Rightarrow> int \<times> u8 list" where
  "olsr_prefix_to_netmask cnf prefixlen = prefix_to_netmask (ipsize cnf) prefixlen"

definition olsr_netmask_to_prefix :: "olsr_ip_addr \<Rightarrow> u8" where
  "olsr_netmask_to_prefix adr = netmask_to_prefix (ip_bytes adr)"

section \<open>Networks\<close>

text \<open>Shifting by a negative number is undefined.\<close>

definition prefix_to_netmask4 :: "nat \<Rightarrow> u32 option" where
  "prefix_to_netmask4 prefixlen =
     (if prefixlen = 0 then Some 0 else if prefixlen \<le> 32 then Some (push_bit (32 - prefixlen) (NOT 0)) else None)"

text \<open>A word of the host with the octets of network byte order in memory.\<close>

definition htonl :: "u32 \<Rightarrow> u32" where
  "htonl x = v4_of_bytes (be_bytes 4 x)"

definition v6_words :: "128 word \<Rightarrow> u32 list" where
  "v6_words a = map (\<lambda>k. v4_of_bytes (take 4 (drop (4 * k) (ip_bytes (V6 a))))) [0..<4]"

fun words_in_net :: "nat \<Rightarrow> u32 list \<Rightarrow> u32 list \<Rightarrow> bool option" where
  "words_in_net plen (i # is) (n # ns) =
     (if plen > 32 then (if i \<noteq> n then Some False else words_in_net (plen - 32) is ns)
      else map_option (\<lambda>m. (i AND htonl m) = (n AND htonl m)) (prefix_to_netmask4 plen))"
| "words_in_net plen _ _ = None"

definition ip_in_net :: "olsr_ip_addr \<Rightarrow> olsr_ip_prefix \<Rightarrow> bool option" where
  "ip_in_net ipaddr net = (case (ipaddr, prefix net) of
       (V4 a, V4 n) \<Rightarrow> map_option (\<lambda>m. (a AND htonl m) = (n AND htonl m)) (prefix_to_netmask4 (unat (prefix_len net)))
     | (V6 a, V6 n) \<Rightarrow> words_in_net (unat (prefix_len net)) (v6_words a) (v6_words n)
     | _ \<Rightarrow> None)"

section \<open>Internet gateways\<close>

definition ipv4_internet_route :: olsr_ip_prefix where
  "ipv4_internet_route = \<lparr>prefix = V4 0, prefix_len = 0\<rparr>"

definition ipv6_mappedv4_route :: olsr_ip_prefix where
  "ipv6_mappedv4_route = \<lparr>prefix = V6 (v6_of_bytes [0,0,0,0,0,0,0,0,0,0,0xff,0xff,0,0,0,0]), prefix_len = 96\<rparr>"

definition ipv6_internet_route :: olsr_ip_prefix where
  "ipv6_internet_route = \<lparr>prefix = V6 (v6_of_bytes [0x20,0,0,0,0,0,0,0,0,0,0,0,0,0,0,0]), prefix_len = 3\<rparr>"

text \<open>\<open>memcmp\<close> over as many octets as the prefix length of the route divided by eight.\<close>

definition same_octets :: "olsr_ip_prefix \<Rightarrow> olsr_ip_prefix \<Rightarrow> bool" where
  "same_octets p route = (let n = unat (prefix_len route div 8) in take n (ip_bytes (prefix p)) = take n (ip_bytes (prefix route)))"

definition ip_prefix_is_mappedv4 :: "olsr_ip_prefix \<Rightarrow> bool" where
  "ip_prefix_is_mappedv4 p \<longleftrightarrow> prefix_len p \<ge> prefix_len ipv6_mappedv4_route \<and> same_octets p ipv6_mappedv4_route"

definition ip_prefix_is_mappedv4_inetgw :: "olsr_ip_prefix \<Rightarrow> bool" where
  "ip_prefix_is_mappedv4_inetgw p \<longleftrightarrow> prefix_len p = prefix_len ipv6_mappedv4_route \<and> same_octets p ipv6_mappedv4_route"

definition ip_prefix_is_v4_inetgw :: "olsr_ip_prefix \<Rightarrow> bool" where
  "ip_prefix_is_v4_inetgw p \<longleftrightarrow> prefix_len p = prefix_len ipv4_internet_route \<and> prefix p = prefix ipv4_internet_route"

definition ip_prefix_is_v6_inetgw :: "olsr_ip_prefix \<Rightarrow> bool" where
  "ip_prefix_is_v6_inetgw p \<longleftrightarrow> prefix_len p = prefix_len ipv6_internet_route \<and> same_octets p ipv6_internet_route"

definition is_prefix_inetgw :: "olsrd_config \<Rightarrow> olsr_ip_prefix \<Rightarrow> bool" where
  "is_prefix_inetgw cnf p \<longleftrightarrow> (if ip_v6 cnf then ip_prefix_is_v6_inetgw p \<or> ip_prefix_is_mappedv4_inetgw p else ip_prefix_is_v4_inetgw p)"

section \<open>Round trip of netmasks\<close>

lemma length_netmask_loop: "p \<le> 8 * n \<Longrightarrow> 0 < n \<Longrightarrow> length (snd (netmask_loop n p)) = n"
  by (induction n p rule: netmask_loop.induct) (auto split: if_splits)

lemma last_byte_roundtrip: "p < 8 \<Longrightarrow> push_bit (8 - p) (0xff :: u8) \<noteq> 0xff \<and> last_byte_bits (push_bit (8 - p) 0xff) = Some (of_nat p)"
proof -
  assume "p < 8"
  hence "p \<in> {0, 1, 2, 3, 4, 5, 6, 7}" by auto
  thus ?thesis by (elim insertE emptyE) (simp_all add: last_byte_bits_def push_bit_eq_mult)
qed

lemma netmask_prefix_loop:
  "p \<le> 8 * n \<Longrightarrow> fst (netmask_loop n p) = 1 \<longrightarrow> netmask_prefix (snd (netmask_loop n p)) q = q + of_nat p"
proof (induction n p arbitrary: q rule: netmask_loop.induct)
  case (2 n p)
  consider (more) "p > 8" | (full) "p = 8" | (part) "p < 8" by linarith
  thus ?case
  proof cases
    case more
    have "of_nat (8 + (p - 8)) = (8 :: u16) + of_nat (p - 8)" by (simp only: of_nat_add of_nat_numeral)
    with more have p: "of_nat p = (8 :: u16) + of_nat (p - 8)" by simp
    have "fst (netmask_loop n (p - 8)) = 1 \<longrightarrow> netmask_prefix (snd (netmask_loop n (p - 8))) (q + 8) = q + 8 + of_nat (p - 8)"
      using "2.IH" [OF more] "2.prems" by simp
    thus ?thesis using more unfolding p by (simp add: add.assoc)
  next
    case full
    have "netmask_prefix (replicate n 0) x = x" for x by (cases n) (simp_all add: last_byte_bits_def)
    with full show ?thesis by simp
  next
    case part
    with last_byte_roundtrip [OF part] show ?thesis by simp
  qed
qed simp

text \<open>The loop succeeds exactly if the bits fit.\<close>

lemma netmask_loop_fst: "0 < n \<Longrightarrow> fst (netmask_loop n p) = (if p \<le> 8 * n then 1 else 0)"
proof (induction n p rule: netmask_loop.induct)
  case (2 n p)
  thus ?case by (cases "n = 0") auto
qed simp

section \<open>Bits of an address\<close>

definition addr_bit :: "olsr_ip_addr \<Rightarrow> nat \<Rightarrow> bool" where
  "addr_bit a i = bit (ip_bytes a ! (i div 8)) (7 - i mod 8)"

text \<open>Where a little-endian host finds the \<open>i\<close>-th bit of four octets.\<close>

definition host_bit :: "nat \<Rightarrow> nat" where
  "host_bit i = 8 * (i div 8) + (7 - i mod 8)"

lemma host_bit_less: "i < 32 \<Longrightarrow> host_bit i < 32" and host_bit_host_bit: "host_bit (host_bit i) = i"
  and host_bit_div: "host_bit i div 8 = i div 8" "host_bit i mod 8 = 7 - i mod 8"
proof -
  have "(8 * (i div 8) + r) div 8 = i div 8" "(8 * (i div 8) + r) mod 8 = r" if "r < 8" for r using that by simp_all
  moreover have "7 - i mod 8 < 8" by simp
  ultimately show d: "host_bit i div 8 = i div 8" "host_bit i mod 8 = 7 - i mod 8" unfolding host_bit_def by blast+
  show "host_bit (host_bit i) = i" unfolding host_bit_def [of "host_bit i"] d by (simp add: mult_div_mod_eq)
  assume "i < 32"
  hence "i div 8 \<le> 3" by simp
  moreover have "7 - i mod 8 \<le> 7" by simp
  ultimately show "host_bit i < 32" unfolding host_bit_def by linarith
qed

lemma v4_of_bytes_bit:
  assumes "length bs = 4" "k < 32"
  shows "bit (v4_of_bytes bs) k = bit (bs ! (k div 8)) (k mod 8)"
proof -
  obtain b0 b1 b2 b3 where bs: "bs = [b0, b1, b2, b3]" using assms(1)
    by (auto simp: length_Suc_conv numeral_eq_Suc)
  have "k < 8 \<or> 8 \<le> k \<and> k < 16 \<or> 16 \<le> k \<and> k < 24 \<or> 24 \<le> k \<and> k < 32" using assms(2) by linarith
  thus ?thesis
  proof (elim disjE conjE)
    assume "k < 8" thus ?thesis by (simp add: bs v4_of_bytes_def bit_simps)
  next
    assume "8 \<le> k" "k < 16"
    hence "k div 8 = 1" "k mod 8 = k - 8" by (simp_all add: div_nat_eqI le_mod_geq)
    with \<open>8 \<le> k\<close> \<open>k < 16\<close> show ?thesis by (auto simp: bs v4_of_bytes_def bit_simps dest: bit_imp_le_length)
  next
    assume "16 \<le> k" "k < 24"
    hence "k div 8 = 2" "k mod 8 = k - 16" by (simp_all add: div_nat_eqI le_mod_geq)
    with \<open>16 \<le> k\<close> \<open>k < 24\<close> show ?thesis by (auto simp: bs v4_of_bytes_def bit_simps dest: bit_imp_le_length)
  next
    assume "24 \<le> k" "k < 32"
    hence "k div 8 = 3" "k mod 8 = k - 24" by (simp_all add: div_nat_eqI le_mod_geq)
    with \<open>24 \<le> k\<close> \<open>k < 32\<close> show ?thesis by (auto simp: bs v4_of_bytes_def bit_simps dest: bit_imp_le_length)
  qed
qed

lemma be_bytes_nth: "i < n \<Longrightarrow> bit (be_bytes n v ! i) k \<longleftrightarrow> k < 8 \<and> bit v (8 * (n - 1 - i) + k)"
proof (induction n v rule: be_bytes.induct)
  case (2 n v)
  show ?case
  proof (cases "i = n")
    case True
    thus ?thesis by (simp add: nth_append bit_simps)
  next
    case False
    with "2.prems" have i: "i < n" by simp
    hence "8 * (n - 1 - i) + k + 8 = 8 * (n - i) + k" by simp
    with "2.IH" [OF i] i show ?thesis by (simp add: nth_append bit_simps add.commute add.left_commute)
  qed
qed simp

text \<open>The mask of a prefix length has the bits of that prefix set.\<close>

lemma htonl_mask_bit:
  assumes "prefix_to_netmask4 p = Some m" "i < 32"
  shows "bit (htonl m) (host_bit i) \<longleftrightarrow> i < p"
proof -
  have h: "host_bit i < 32" by (rule host_bit_less [OF assms(2)])
  have d: "i div 8 \<le> 3" "i mod 8 \<le> 7" "7 - i mod 8 < 8" using assms(2) by simp_all
  have "8 * (3 - i div 8) + (7 - i mod 8) = 31 - i" using d by (simp add: diff_mult_distrib2)
  hence "bit (htonl m) (host_bit i) \<longleftrightarrow> bit m (31 - i)"
    unfolding htonl_def using d by (subst v4_of_bytes_bit) (simp_all add: h host_bit_div be_bytes_nth)
  also have "\<dots> \<longleftrightarrow> i < p"
    using assms by (auto simp: prefix_to_netmask4_def bit_simps split: if_splits)
  finally show ?thesis .
qed

lemma masked_eq_iff:
  fixes a n :: u32
  assumes m: "prefix_to_netmask4 p = Some m"
  shows "(a AND htonl m) = (n AND htonl m) \<longleftrightarrow> (\<forall>i<min p 32. bit a (host_bit i) = bit n (host_bit i))"
proof
  assume eq: "(a AND htonl m) = (n AND htonl m)"
  show "\<forall>i<min p 32. bit a (host_bit i) = bit n (host_bit i)"
  proof (intro allI impI)
    fix i assume "i < min p 32"
    hence "bit (htonl m) (host_bit i)" using htonl_mask_bit [OF m] by simp
    moreover have "bit (a AND htonl m) (host_bit i) = bit (n AND htonl m) (host_bit i)" using eq by simp
    ultimately show "bit a (host_bit i) = bit n (host_bit i)" by (simp add: bit_simps)
  qed
next
  assume r: "\<forall>i<min p 32. bit a (host_bit i) = bit n (host_bit i)"
  show "(a AND htonl m) = (n AND htonl m)"
  proof (rule bit_word_eq, intro allI impI)
    fix k :: nat assume "k < LENGTH(32)"
    hence k: "host_bit k < 32" by (simp add: host_bit_less)
    from htonl_mask_bit [OF m k] r k show "bit (a AND htonl m) k = bit (n AND htonl m) k"
      by (auto simp: bit_simps host_bit_host_bit dest!: spec [of _ "host_bit k"])
  qed
qed

lemma host_bit_eqI: "(\<forall>i<32. bit a (host_bit i) = bit (b :: u32) (host_bit i)) \<longleftrightarrow> a = b"
proof
  assume r: "\<forall>i<32. bit a (host_bit i) = bit b (host_bit i)"
  show "a = b"
  proof (rule bit_word_eq, intro allI impI)
    fix k :: nat assume "k < LENGTH(32)"
    hence "host_bit k < 32" by (simp add: host_bit_less)
    with r show "bit a k = bit b k" by (metis host_bit_host_bit)
  qed
qed simp

definition word_bit :: "u32 list \<Rightarrow> nat \<Rightarrow> bool" where
  "word_bit ws i = bit (ws ! (i div 32)) (host_bit (i mod 32))"

lemma word_bit_Cons: "word_bit (x # xs) (i + 32) = word_bit xs i"
proof -
  have "(i + 32) div 32 = Suc (i div 32)" "(i + 32) mod 32 = i mod 32" by simp_all
  thus ?thesis by (simp only: word_bit_def nth_Cons_Suc)
qed

lemma words_in_net_ok:
  "length is = length ns \<Longrightarrow> 0 < length is \<Longrightarrow> plen \<le> 32 * length is \<Longrightarrow>
   words_in_net plen is ns = Some (\<forall>i<plen. word_bit is i = word_bit ns i)"
proof (induction plen "is" ns rule: words_in_net.induct)
  case (1 plen x xs n ns)
  show ?case
  proof (cases "plen > 32")
    case False
    then obtain m where m: "prefix_to_netmask4 plen = Some m" by (cases "plen = 0") (auto simp: prefix_to_netmask4_def)
    have "min plen 32 = plen" using False by simp
    with masked_eq_iff [OF m, of x n] m False show ?thesis by (simp add: word_bit_def)
  next
    case True
    have split: "(\<forall>i<plen. word_bit (x # xs) i = word_bit (n # ns) i) \<longleftrightarrow>
      (\<forall>i<32. bit x (host_bit i) = bit n (host_bit i)) \<and> (\<forall>i<plen - 32. word_bit xs i = word_bit ns i)"
      (is "?L \<longleftrightarrow> ?R")
    proof
      assume a: ?L
      have "bit x (host_bit i) = bit n (host_bit i)" if "i < 32" for i :: nat
        using a [rule_format, of i] that True by (simp add: word_bit_def)
      moreover have "word_bit xs i = word_bit ns i" if "i < plen - 32" for i
        using a [rule_format, of "i + 32"] that by (simp add: word_bit_Cons)
      ultimately show ?R by blast
    next
      assume a: ?R
      show ?L
      proof (intro allI impI)
        fix i assume i: "i < plen"
        show "word_bit (x # xs) i = word_bit (n # ns) i"
        proof (cases "i < 32")
          case True
          with a show ?thesis by (simp add: word_bit_def)
        next
          case False
          then obtain j where j: "i = j + 32" by (metis add.commute le_Suc_ex not_less)
          with a i have "word_bit xs j = word_bit ns j" by simp
          thus ?thesis by (simp add: word_bit_Cons j)
        qed
      qed
    qed
    have "xs \<noteq> []" "ns \<noteq> []" using True 1(2,4) by auto
    with 1 True host_bit_eqI [of x n] show ?thesis unfolding split by (cases "x = n") auto
  qed
qed simp_all

lemma addr_bit_V4: "i < 32 \<Longrightarrow> addr_bit (V4 a) i = word_bit [a] i"
proof -
  assume i: "i < 32"
  have "bit a (host_bit i) = bit (v4_of_bytes (ip_bytes (V4 a))) (host_bit i)" by (simp only: v4_bytes_id)
  also have "\<dots> = bit (ip_bytes (V4 a) ! (i div 8)) (7 - i mod 8)"
    by (subst v4_of_bytes_bit) (simp_all only: length_ip_bytes host_bit_less [OF i] host_bit_div olsr_ip_addr.case)
  finally show ?thesis using i by (simp add: addr_bit_def word_bit_def del: ip_bytes.simps)
qed

lemma addr_bit_V6: "i < 128 \<Longrightarrow> addr_bit (V6 a) i = word_bit (v6_words a) i"
proof -
  assume i: "i < 128"
  let ?k = "i div 32" and ?r = "i mod 32"
  let ?bs = "take 4 (drop (4 * ?k) (ip_bytes (V6 a)))"
  have k: "?k < 4" "?r < 32" "?r div 8 < 4" using i by simp_all
  have len: "length (ip_bytes (V6 a)) = 16" by (simp only: length_ip_bytes olsr_ip_addr.case)
  hence bs: "length ?bs = 4" using k(1) by simp
  have "?bs ! (?r div 8) = ip_bytes (V6 a) ! (4 * ?k + ?r div 8)" using k len by (simp del: ip_bytes.simps)
  moreover have "i div 8 = 4 * ?k + ?r div 8"
  proof -
    have "i div 8 = (8 * (4 * ?k) + ?r) div 8" by simp
    also have "\<dots> = 4 * ?k + ?r div 8" by (rule div_mult_self4) simp
    finally show ?thesis .
  qed
  moreover have "?r mod 8 = i mod 8" by (simp add: mod_mod_cancel)
  moreover have "bit (v4_of_bytes ?bs) (host_bit ?r) = bit (?bs ! (?r div 8)) (7 - ?r mod 8)"
    using v4_of_bytes_bit [OF bs host_bit_less [OF k(2)]] by (simp only: host_bit_div)
  moreover have "v6_words a ! ?k = v4_of_bytes ?bs" using k(1) by (simp add: v6_words_def del: ip_bytes.simps)
  ultimately show ?thesis by (simp only: addr_bit_def word_bit_def)
qed

lemma length_v6_words [simp]: "length (v6_words a) = 4"
  by (simp add: v6_words_def)

section \<open>Properties\<close>

text \<open>An address and a prefix of the same family, the length of which fits.\<close>

definition net_ok :: "olsr_ip_addr \<Rightarrow> olsr_ip_prefix \<Rightarrow> bool" where
  "net_ok a net \<longleftrightarrow> (case (a, prefix net) of (V4 _, V4 _) \<Rightarrow> prefix_len net \<le> 32 | (V6 _, V6 _) \<Rightarrow> prefix_len net \<le> 128 | _ \<Rightarrow> False)"

text \<open>
  C30. The test whether an address lies in a network, done on whole words with masks in network
  byte order, is equivalent to the comparison of the bits of address and prefix one by one, up to
  the length of the prefix and for both address families.
\<close>

theorem ip_in_net_bits:
  assumes "net_ok a net"
  shows "ip_in_net a net = Some (\<forall>i<unat (prefix_len net). addr_bit a i = addr_bit (prefix net) i)"
proof (cases a)
  case (V4 x)
  with assms obtain n where n: "prefix net = V4 n" "unat (prefix_len net) \<le> 32"
    by (auto simp: net_ok_def word_le_nat_alt split: olsr_ip_addr.splits)
  have "ip_in_net a net = words_in_net (unat (prefix_len net)) [x] [n]" using V4 n by (simp add: ip_in_net_def)
  with words_in_net_ok [of "[x]" "[n]" "unat (prefix_len net)"] n V4 show ?thesis by (auto simp: addr_bit_V4)
next
  case (V6 x)
  with assms obtain n where n: "prefix net = V6 n" "unat (prefix_len net) \<le> 128"
    by (auto simp: net_ok_def word_le_nat_alt split: olsr_ip_addr.splits)
  have "ip_in_net a net = words_in_net (unat (prefix_len net)) (v6_words x) (v6_words n)" using V6 n by (simp add: ip_in_net_def)
  with words_in_net_ok [of "v6_words x" "v6_words n" "unat (prefix_len net)"] n V6 show ?thesis by (auto simp: addr_bit_V6)
qed

theorem ip_in_net_bits_witness:
  "ip_in_net (V4 0x0200000a) \<lparr>prefix = V4 0x0100000a, prefix_len = 8\<rparr> = Some True"
proof -
  let ?n = "\<lparr>prefix = V4 0x0100000a, prefix_len = 8\<rparr> :: olsr_ip_prefix"
  have "net_ok (V4 0x0200000a) ?n" by (simp add: net_ok_def)
  from ip_in_net_bits [OF this]
  have "ip_in_net (V4 0x0200000a) ?n = Some (\<forall>i<8. addr_bit (V4 0x0200000a) i = addr_bit (V4 0x0100000a) i)" by simp
  moreover have "addr_bit (V4 0x0200000a) i = addr_bit (V4 0x0100000a) i" if "i < 8" for i
  proof -
    have "ip_bytes (V4 0x0200000a) ! 0 = ip_bytes (V4 0x0100000a) ! 0" by simp
    with that show ?thesis by (simp add: addr_bit_def del: ip_bytes.simps)
  qed
  ultimately show ?thesis by simp
qed

lemma netmask_loop_snd: "8 * n < p \<Longrightarrow> snd (netmask_loop n p) = replicate n 0xff"
  by (induction n p rule: netmask_loop.induct) auto

text \<open>
  Prefix lengths survive the conversion into a netmask and back, for both sizes of addresses:
  a length that fits gives a mask of the size of an address, from which the length is read again;
  one that does not fit is refused.
\<close>

theorem netmask_roundtrip:
  assumes "len = 4 \<or> len = 16"
  shows "if unat plen \<le> 8 * len
    then fst (prefix_to_netmask len plen) = 1 \<and> length (snd (prefix_to_netmask len plen)) = len \<and>
      netmask_to_prefix (snd (prefix_to_netmask len plen)) = plen
    else prefix_to_netmask len plen = (0, replicate len 0xff)"
proof (cases "unat plen \<le> 8 * len")
  case True
  have l: "0 < len" using assms by auto
  have "netmask_prefix (snd (netmask_loop len (unat plen))) 0 = of_nat (unat plen)"
    using netmask_prefix_loop [OF True, of 0] netmask_loop_fst [OF l, of "unat plen"] True by simp
  moreover have "(ucast (of_nat (unat plen) :: u16) :: u8) = plen"
  proof -
    have "unat (of_nat (unat plen) :: u16) = unat plen"
      using u8_less [of plen] by (simp only: unsigned_of_nat take_bit_nat_eq_self_iff) (simp add: take_bit_nat_eq_self)
    moreover have "unat (ucast (w :: u16) :: u8) = unat w mod 256" for w by (simp add: unsigned_ucast_eq take_bit_eq_mod unat_mod)
    ultimately have "unat (ucast (of_nat (unat plen) :: u16) :: u8) = unat plen" using u8_less [of plen] by simp
    thus ?thesis by (rule unsigned_word_eqI)
  qed
  ultimately have "netmask_to_prefix (snd (prefix_to_netmask len plen)) = plen"
    by (simp add: netmask_to_prefix_def prefix_to_netmask_def)
  with True l show ?thesis by (simp add: prefix_to_netmask_def netmask_loop_fst length_netmask_loop)
next
  case False
  hence "fst (netmask_loop len (unat plen)) = 0" "snd (netmask_loop len (unat plen)) = replicate len 0xff"
    using assms by (auto simp: netmask_loop_fst netmask_loop_snd)
  with False show ?thesis by (simp add: prefix_to_netmask_def prod_eq_iff)
qed

theorem netmask_roundtrip_witness:
  "netmask_to_prefix (snd (prefix_to_netmask 4 20)) = 20 \<and> prefix_to_netmask 4 33 = (0, replicate 4 0xff)"
  using netmask_roundtrip [of 4 20] netmask_roundtrip [of 4 33] by simp

text \<open>
  The route of the IPv6 internet is recognised by its length alone: three bits are no whole octet,
  and no octet is compared.
\<close>

lemma v6_inetgw_any_prefix: "ip_prefix_is_v6_inetgw p \<longleftrightarrow> prefix_len p = 3"
  by (simp add: ip_prefix_is_v6_inetgw_def same_octets_def ipv6_internet_route_def)

end
