(* ===== verification/Olsr_Netbuf.thy ===== *)
theory Olsr_Netbuf
  imports Olsr_Neighbor Olsr_Packet
begin

text \<open>
  The output buffers of the interfaces and the assembly of packets (\<^verbatim>\<open>src/net_olsr.c\<close>,
  \<^verbatim>\<open>src/interfaces.h\<close>). A buffer is the list of the octets allocated for it; a write outside of it is
  \<^term>\<open>None\<close>. What is sent is a trace of datagrams; whether the system accepts the \<open>n\<close>-th one is part of
  the state of the system. Packet transform functions, which plugins register, are arguments.
\<close>

section \<open>Data\<close>

record olsr_netbuf =
  buff :: "u8 list option"
  bufsize :: int
  maxsize :: int
  pending :: int
  reserved :: int

datatype olsr_if_mode = IF_MODE_MESH | IF_MODE_ETHER | IF_MODE_CNT | IF_MODE_PLC

text \<open>The fields of an interface that the output uses; a socket address is an address and a port.\<close>

record out_interface = interface +
  mode :: olsr_if_mode
  int_broadaddr :: "olsr_ip_addr \<times> u16"
  int6_multaddr :: "olsr_ip_addr \<times> u16"
  olsr_socket :: int
  send_socket :: int
  int_mtu :: int
  olsr_seqnum :: u16
  fwdtimer :: u32
  netbuf :: olsr_netbuf

definition OLSR_HEADERSIZE :: int where "OLSR_HEADERSIZE = 4"

record datagram =
  dg_socket :: int
  dg_dest :: "olsr_ip_addr \<times> u16"
  dg_data :: "u8 list"

record net_state =
  ptf_list :: "nat list"
  sent :: "datagram list"
  send_ok :: "nat \<Rightarrow> bool"
  lq_tc_pending :: bool

type_synonym packet_transform = "u8 list \<times> int \<Rightarrow> (u8 list \<times> int) option"

section \<open>Operations\<close>

text \<open>An allocation of a negative size fails, which ends the daemon.\<close>

definition net_add_buffer :: "out_interface \<Rightarrow> (int \<times> out_interface) option" where
  "net_add_buffer ifp =
     (let old = (if bufsize (netbuf ifp) \<noteq> int_mtu ifp then None else buff (netbuf ifp)) in do {
        b \<leftarrow> (case old of Some b \<Rightarrow> Some b
              | None \<Rightarrow> if int_mtu ifp < 0 then None else Some (replicate (nat (int_mtu ifp)) 0));
        Some (0, ifp\<lparr>netbuf := \<lparr>buff = Some b, bufsize = int_mtu ifp, maxsize = int_mtu ifp - OLSR_HEADERSIZE,
          pending = 0, reserved = 0\<rparr>\<rparr>)
      })"

definition net_reserve_bufspace :: "int \<Rightarrow> olsr_netbuf \<Rightarrow> int \<times> olsr_netbuf" where
  "net_reserve_bufspace n nb =
     (if n > maxsize nb then (-1, nb) else (0, nb\<lparr>reserved := n, maxsize := maxsize nb - n\<rparr>))"

definition net_output_pending :: "olsr_netbuf \<Rightarrow> u16" where
  "net_output_pending nb = of_int (pending nb)"

text \<open>The copy into the buffer behind what is pending, after the space of the packet header.\<close>

definition buffer_copy :: "u8 list \<Rightarrow> olsr_netbuf \<Rightarrow> olsr_netbuf option" where
  "buffer_copy data nb = do {
     b \<leftarrow> buff nb;
     (b', _) \<leftarrow> (if pending nb + OLSR_HEADERSIZE < 0 then None else put_bytes data b (nat (pending nb + OLSR_HEADERSIZE)));
     Some (nb\<lparr>buff := Some b', pending := pending nb + int (length data)\<rparr>)
   }"

definition net_outbuffer_push :: "u8 list \<Rightarrow> olsr_netbuf \<Rightarrow> (int \<times> olsr_netbuf) option" where
  "net_outbuffer_push data nb =
     (if pending nb + int (length data) > maxsize nb then Some (0, nb)
      else map_option (Pair (int (length data))) (buffer_copy data nb))"

definition net_outbuffer_push_reserved :: "u8 list \<Rightarrow> olsr_netbuf \<Rightarrow> (int \<times> olsr_netbuf) option" where
  "net_outbuffer_push_reserved data nb =
     (if pending nb + int (length data) > maxsize nb + reserved nb then Some (0, nb)
      else map_option (Pair (int (length data))) (buffer_copy data nb))"

definition net_outbuffer_bytes_left :: "olsr_netbuf \<Rightarrow> int" where
  "net_outbuffer_bytes_left nb = maxsize nb - pending nb"

definition add_ptf :: "nat \<Rightarrow> net_state \<Rightarrow> int \<times> net_state" where
  "add_ptf f st = (1, st\<lparr>ptf_list := f # ptf_list st\<rparr>)"

definition del_ptf :: "nat \<Rightarrow> net_state \<Rightarrow> int \<times> net_state" where
  "del_ptf f st = (if f \<in> set (ptf_list st) then (1, st\<lparr>ptf_list := remove1 f (ptf_list st)\<rparr>) else (0, st))"

text \<open>
  The destination of a packet: the broadcast address of the interface, at the port of the
  configuration if it has none of its own, or its multicast address.
\<close>

definition net_destination :: "olsrd_config \<Rightarrow> u16 \<Rightarrow> out_interface \<Rightarrow> olsr_ip_addr \<times> u16" where
  "net_destination cnf olsrport ifp =
     (if ip_v6 cnf then int6_multaddr ifp
      else if snd (int_broadaddr ifp) = 0 then (fst (int_broadaddr ifp), olsrport) else int_broadaddr ifp)"

text \<open>Length and sequence number, in network byte order, at the start of the packet.\<close>

definition packet_header :: "int \<Rightarrow> u16 \<Rightarrow> u8 list" where
  "packet_header len seqno = be_bytes 2 (of_int len :: u16) @ be_bytes 2 seqno"

definition net_output ::
  "olsrd_config \<Rightarrow> u16 \<Rightarrow> (nat \<Rightarrow> packet_transform) \<Rightarrow> out_interface \<Rightarrow> net_state \<Rightarrow> (int \<times> out_interface \<times> net_state) option" where
  "net_output cnf olsrport ptf ifp st =
     (if pending (netbuf ifp) = 0 then Some (0, ifp, st)
      else do {
        let len = pending (netbuf ifp) + OLSR_HEADERSIZE;
        b \<leftarrow> buff (netbuf ifp);
        (b, _) \<leftarrow> put_bytes (packet_header len (olsr_seqnum ifp)) b 0;
        (b, n) \<leftarrow> foldM ptf (ptf_list st) (b, len);
        if n < 0 \<or> n > int (length b) then None
        else do {
          let dg = \<lparr>dg_socket = send_socket ifp, dg_dest = net_destination cnf olsrport ifp, dg_data = take (nat n) b\<rparr>;
          Some (if send_ok st (length (sent st)) then len else -1,
                ifp\<lparr>olsr_seqnum := olsr_seqnum ifp + 1, netbuf := (netbuf ifp)\<lparr>buff := Some b, pending := 0\<rparr>\<rparr>,
                st\<lparr>sent := sent st @ [dg], lq_tc_pending := False\<rparr>)
        }
      })"

definition net_remove_buffer ::
  "olsrd_config \<Rightarrow> u16 \<Rightarrow> (nat \<Rightarrow> packet_transform) \<Rightarrow> out_interface \<Rightarrow> net_state \<Rightarrow> (int \<times> out_interface \<times> net_state) option" where
  "net_remove_buffer cnf olsrport ptf ifp st = do {
     (_, ifp, st) \<leftarrow> (if pending (netbuf ifp) \<noteq> 0 then net_output cnf olsrport ptf ifp st else Some (0, ifp, st));
     Some (0, ifp\<lparr>netbuf := (netbuf ifp)\<lparr>buff := None\<rparr>\<rparr>, st)
   }"

section \<open>The invariant of a buffer\<close>

text \<open>
  The buffer has its size, what is pending and the header fit, and so do the space for messages and the
  reserved space.
\<close>

definition netbuf_ok :: "olsr_netbuf \<Rightarrow> bool" where
  "netbuf_ok nb \<longleftrightarrow> (\<exists>b. buff nb = Some b \<and> int (length b) = bufsize nb) \<and> 0 \<le> pending nb \<and> 0 \<le> reserved nb \<and>
     maxsize nb + reserved nb + OLSR_HEADERSIZE \<le> bufsize nb \<and> (pending nb = 0 \<or> pending nb + OLSR_HEADERSIZE \<le> bufsize nb)"

text \<open>The messages that are pending.\<close>

definition payload :: "olsr_netbuf \<Rightarrow> u8 list" where
  "payload nb = take (nat (pending nb)) (drop (nat OLSR_HEADERSIZE) (the (buff nb)))"

lemma netbuf_okE:
  assumes "netbuf_ok nb"
  obtains b where "buff nb = Some b" "int (length b) = bufsize nb" "0 \<le> pending nb" "0 \<le> reserved nb"
    "maxsize nb + reserved nb + 4 \<le> bufsize nb" "pending nb = 0 \<or> pending nb + 4 \<le> bufsize nb"
  using assms by (auto simp: netbuf_ok_def OLSR_HEADERSIZE_def)

lemma add_buffer_ok: "0 \<le> int_mtu ifp \<Longrightarrow> netbuf_ok (netbuf ifp) \<or> buff (netbuf ifp) = None \<Longrightarrow>
    \<exists>ifp'. net_add_buffer ifp = Some (0, ifp') \<and> netbuf_ok (netbuf ifp') \<and> payload (netbuf ifp') = []"
  by (auto simp: net_add_buffer_def netbuf_ok_def payload_def OLSR_HEADERSIZE_def Let_def split: option.split)

lemma reserve_ok: "netbuf_ok nb \<Longrightarrow> 0 \<le> n \<Longrightarrow> netbuf_ok (snd (net_reserve_bufspace n nb)) \<and> payload (snd (net_reserve_bufspace n nb)) = payload nb"
  by (auto simp: net_reserve_bufspace_def netbuf_ok_def payload_def)

lemma buffer_copy_ok:
  assumes ok: "netbuf_ok nb" and fits: "pending nb + int (length data) \<le> maxsize nb + reserved nb"
  shows "\<exists>nb'. buffer_copy data nb = Some nb' \<and> netbuf_ok nb' \<and> payload nb' = payload nb @ data \<and>
    pending nb' = pending nb + int (length data) \<and> maxsize nb' = maxsize nb \<and> reserved nb' = reserved nb"
proof -
  from ok obtain b where b: "buff nb = Some b" "int (length b) = bufsize nb" "0 \<le> pending nb" "0 \<le> reserved nb"
    "maxsize nb + reserved nb + 4 \<le> bufsize nb" by (rule netbuf_okE)
  let ?p = "nat (pending nb)"
  have l: "?p + 4 + length data \<le> length b" using b fits by linarith
  have p: "nat (pending nb + 4) = ?p + 4" "nat (pending nb + int (length data)) = ?p + length data" using b(3) by auto
  let ?b = "take (?p + 4) b @ data @ drop (?p + 4 + length data) b"
  have "take (?p + length data) (drop 4 ?b) = take ?p (drop 4 b) @ data"
    using l by (cases data) (auto simp: min_def drop_take)
  with b l p fits show ?thesis by (auto simp: buffer_copy_def put_bytes_def netbuf_ok_def payload_def OLSR_HEADERSIZE_def)
qed

lemma push_ok:
  assumes "netbuf_ok nb"
  shows "\<exists>r nb'. net_outbuffer_push data nb = Some (r, nb') \<and> netbuf_ok nb' \<and>
    (if pending nb + int (length data) \<le> maxsize nb then r = int (length data) \<and> payload nb' = payload nb @ data else r = 0 \<and> nb' = nb)"
  using buffer_copy_ok [OF assms, of data] netbuf_okE [OF assms] assms by (fastforce simp: net_outbuffer_push_def)

lemma push_reserved_ok:
  assumes "netbuf_ok nb"
  shows "\<exists>r nb'. net_outbuffer_push_reserved data nb = Some (r, nb') \<and> netbuf_ok nb' \<and>
    (if pending nb + int (length data) \<le> maxsize nb + reserved nb then r = int (length data) \<and> payload nb' = payload nb @ data else r = 0 \<and> nb' = nb)"
  using buffer_copy_ok [OF assms, of data] assms by (auto simp: net_outbuffer_push_reserved_def)

text \<open>
  What the output needs from the packet transform functions: they keep the buffer and leave a
  length within it.
\<close>

definition transforms_ok :: "(nat \<Rightarrow> packet_transform) \<Rightarrow> nat list \<Rightarrow> bool" where
  "transforms_ok ptf fs \<longleftrightarrow> (\<forall>f\<in>set fs. \<forall>b n. 0 \<le> n \<and> n \<le> int (length b) \<longrightarrow>
     (\<exists>b' n'. ptf f (b, n) = Some (b', n') \<and> length b' = length b \<and> 0 \<le> n' \<and> n' \<le> int (length b')))"

lemma transforms_fold:
  "transforms_ok ptf fs \<Longrightarrow> 0 \<le> n \<Longrightarrow> n \<le> int (length b) \<Longrightarrow>
   \<exists>b' n'. foldM ptf fs (b, n) = Some (b', n') \<and> length b' = length b \<and> 0 \<le> n' \<and> n' \<le> int (length b')"
proof (induction fs arbitrary: b n)
  case (Cons f fs)
  then obtain b1 n1 where "ptf f (b, n) = Some (b1, n1)" "length b1 = length b" "0 \<le> n1" "n1 \<le> int (length b1)"
    unfolding transforms_ok_def by (metis list.set_intros(1))
  moreover have "transforms_ok ptf fs" using Cons.prems(1) by (simp add: transforms_ok_def)
  ultimately show ?case using Cons.IH [of n1 b1] by simp
qed simp

lemma length_packet_header [simp]: "length (packet_header n s) = 4"
  by (simp add: packet_header_def)

text \<open>The packet before the transform functions: the header and what is pending.\<close>

lemma header_written:
  assumes ok: "netbuf_ok nb" and p: "pending nb \<noteq> 0" and b: "buff nb = Some b"
  shows "\<exists>b'. put_bytes (packet_header n s) b 0 = Some (b', 4) \<and> length b' = length b \<and> pending nb + 4 \<le> int (length b') \<and>
    take (nat (pending nb + 4)) b' = packet_header n s @ payload nb"
proof -
  have l: "0 < pending nb" "pending nb + 4 \<le> int (length b)" "4 \<le> length b" using ok p b by (auto simp: netbuf_ok_def OLSR_HEADERSIZE_def)
  have n: "nat (pending nb + 4) = 4 + nat (pending nb)" using l(1) by simp
  show ?thesis using l b unfolding n by (auto simp: put_bytes_def payload_def OLSR_HEADERSIZE_def)
qed

lemma output_ok:
  assumes ok: "netbuf_ok (netbuf ifp)" and t: "transforms_ok ptf (ptf_list st)"
  shows "\<exists>r ifp' st'. net_output cnf port ptf ifp st = Some (r, ifp', st') \<and> netbuf_ok (netbuf ifp') \<and> payload (netbuf ifp') = [] \<and>
    ptf_list st' = ptf_list st \<and> pending (netbuf ifp') = 0 \<and> maxsize (netbuf ifp') = maxsize (netbuf ifp) \<and> mode ifp' = mode ifp \<and>
    bufsize (netbuf ifp') = bufsize (netbuf ifp)"
proof (cases "pending (netbuf ifp) = 0")
  case True
  thus ?thesis using ok by (simp add: net_output_def payload_def)
next
  case False
  obtain b where b: "buff (netbuf ifp) = Some b" "int (length b) = bufsize (netbuf ifp)" "0 \<le> pending (netbuf ifp)" using ok by (rule netbuf_okE)
  let ?n = "pending (netbuf ifp) + 4"
  obtain b1 where b1: "put_bytes (packet_header ?n (olsr_seqnum ifp)) b 0 = Some (b1, 4)" "length b1 = length b" "?n \<le> int (length b1)"
    using header_written [OF ok False b(1), of ?n "olsr_seqnum ifp"] by blast
  obtain b2 n2 where "foldM ptf (ptf_list st) (b1, ?n) = Some (b2, n2)" "length b2 = length b1" "0 \<le> n2" "n2 \<le> int (length b2)"
    using transforms_fold [OF t _ b1(3)] b(3) by auto
  thus ?thesis using False b b1 ok
    by (auto simp: net_output_def OLSR_HEADERSIZE_def Let_def netbuf_ok_def payload_def)
qed

text \<open>Without transform functions the datagram is the header followed by what was pending.\<close>

lemma output_plain:
  assumes ok: "netbuf_ok (netbuf ifp)" and p: "pending (netbuf ifp) \<noteq> 0" and f: "ptf_list st = []"
  shows "\<exists>r ifp' st'. net_output cnf port ptf ifp st = Some (r, ifp', st') \<and>
    r = (if send_ok st (length (sent st)) then pending (netbuf ifp) + 4 else -1) \<and> olsr_seqnum ifp' = olsr_seqnum ifp + 1 \<and>
    sent st' = sent st @ [\<lparr>dg_socket = send_socket ifp, dg_dest = net_destination cnf port ifp,
      dg_data = packet_header (pending (netbuf ifp) + 4) (olsr_seqnum ifp) @ payload (netbuf ifp)\<rparr>]"
proof -
  obtain b where b: "buff (netbuf ifp) = Some b" "0 \<le> pending (netbuf ifp)" using ok by (rule netbuf_okE)
  let ?n = "pending (netbuf ifp) + 4"
  obtain b1 where "put_bytes (packet_header ?n (olsr_seqnum ifp)) b 0 = Some (b1, 4)" "?n \<le> int (length b1)"
    "take (nat ?n) b1 = packet_header ?n (olsr_seqnum ifp) @ payload (netbuf ifp)"
    using header_written [OF ok p b(1), of ?n "olsr_seqnum ifp"] by blast
  thus ?thesis using b p f by (simp add: net_output_def OLSR_HEADERSIZE_def Let_def)
qed

section \<open>Sequences of operations\<close>

datatype buf_op = Push "u8 list" | Push_reserved "u8 list" | Reserve int | Output

fun buf_step :: "olsrd_config \<Rightarrow> u16 \<Rightarrow> (nat \<Rightarrow> packet_transform) \<Rightarrow> buf_op \<Rightarrow> out_interface \<times> net_state \<Rightarrow> (out_interface \<times> net_state) option" where
  "buf_step cnf port ptf (Push d) (ifp, st) = map_option (\<lambda>(_, nb). (ifp\<lparr>netbuf := nb\<rparr>, st)) (net_outbuffer_push d (netbuf ifp))"
| "buf_step cnf port ptf (Push_reserved d) (ifp, st) = map_option (\<lambda>(_, nb). (ifp\<lparr>netbuf := nb\<rparr>, st)) (net_outbuffer_push_reserved d (netbuf ifp))"
| "buf_step cnf port ptf (Reserve n) (ifp, st) = Some (ifp\<lparr>netbuf := snd (net_reserve_bufspace n (netbuf ifp))\<rparr>, st)"
| "buf_step cnf port ptf Output (ifp, st) = map_option snd (net_output cnf port ptf ifp st)"

lemma buf_step_ok:
  assumes "netbuf_ok (netbuf ifp)" "transforms_ok ptf (ptf_list st)" "\<And>n. opn = Reserve n \<Longrightarrow> 0 \<le> n"
  shows "\<exists>ifp' st'. buf_step cnf port ptf opn (ifp, st) = Some (ifp', st') \<and> netbuf_ok (netbuf ifp') \<and> transforms_ok ptf (ptf_list st')"
proof (cases opn)
  case (Push d)
  thus ?thesis using push_ok [OF assms(1), of d] assms(2) by auto
next
  case (Push_reserved d)
  thus ?thesis using push_reserved_ok [OF assms(1), of d] assms(2) by auto
next
  case (Reserve n)
  thus ?thesis using reserve_ok [OF assms(1), of n] assms(2,3) by auto
next
  case Output
  thus ?thesis using output_ok [OF assms(1,2), of cnf port] assms(2) by auto
qed

lemma buf_steps_ok:
  "netbuf_ok (netbuf ifp) \<Longrightarrow> transforms_ok ptf (ptf_list st) \<Longrightarrow> \<forall>n. Reserve n \<in> set ops \<longrightarrow> 0 \<le> n \<Longrightarrow>
   \<exists>ifp' st'. foldM (buf_step cnf port ptf) ops (ifp, st) = Some (ifp', st') \<and> netbuf_ok (netbuf ifp')"
proof (induction ops arbitrary: ifp st)
  case (Cons opn ops)
  obtain ifp1 st1 where "buf_step cnf port ptf opn (ifp, st) = Some (ifp1, st1)" "netbuf_ok (netbuf ifp1)" "transforms_ok ptf (ptf_list st1)"
    using buf_step_ok [OF Cons.prems(1,2), of opn cnf port] Cons.prems(3) by auto
  thus ?case using Cons.IH [of ifp1 st1] Cons.prems(3) by simp
qed simp


definition demo_if :: out_interface where
  "demo_if = \<lparr>ip_addr = V4 1, int_name = Some ''wlan0'', int_metric = 0, mode = IF_MODE_MESH, int_broadaddr = (V4 0xffffffff, 0),
     int6_multaddr = (V6 0, 0), olsr_socket = 3, send_socket = 3, int_mtu = 12, olsr_seqnum = 7, fwdtimer = 0,
     netbuf = \<lparr>buff = None, bufsize = 0, maxsize = 0, pending = 0, reserved = 0\<rparr>\<rparr>"

definition demo_net :: net_state where
  "demo_net = \<lparr>ptf_list = [], sent = [], send_ok = (\<lambda>_. True), lq_tc_pending = True\<rparr>"

definition demo_conf :: olsrd_config where
  "demo_conf = \<lparr>main_addr = V4 1, ip_v6 = False, maxplen = 32, lq_level = 2, min_tc_vtime_ms = 0, fib_metric_correct = True, lq_nat_thresh = (1, 0)\<rparr>"


end
