(* ===== verification/Olsr_Parser.thy ===== *)
theory Olsr_Parser
  imports Olsr_Netbuf Olsr_Tc_Set Olsr_Hello
begin

text \<open>
  The packet parser (\<^verbatim>\<open>src/parser.c\<close>): the registered functions, the loop over the messages of a packet
  and the loop that reads packets from a socket. A packet is the list of the octets received, and
  what lies behind them may not be read. The functions the parser calls, those of the other
  components and those that plugins register, are fields of a record; they get the packet from the
  start of the message on, and none of them changes a part of the packet that is read later.
\<close>

section \<open>The header of a message\<close>

definition olsr_msgtype :: "u8 list \<Rightarrow> u8 option" where
  "olsr_msgtype m = map_option fst (pkt_get_u8 m 0)"

definition olsr_msgsize :: "u8 list \<Rightarrow> u16 option" where
  "olsr_msgsize m = map_option fst (pkt_get_u16 m 2)"

definition msg_originator :: "olsrd_config \<Rightarrow> u8 list \<Rightarrow> olsr_ip_addr option" where
  "msg_originator cnf m = map_option fst (pkt_get_ipaddress cnf m 4)"

definition msg_ttl :: "olsrd_config \<Rightarrow> u8 list \<Rightarrow> u8 option" where
  "msg_ttl cnf m = map_option fst (pkt_get_u8 m (4 + ipsize cnf))"

definition msg_hopcnt :: "olsrd_config \<Rightarrow> u8 list \<Rightarrow> u8 option" where
  "msg_hopcnt cnf m = map_option fst (pkt_get_u8 m (5 + ipsize cnf))"

definition msg_seqno :: "olsrd_config \<Rightarrow> u8 list \<Rightarrow> u16 option" where
  "msg_seqno cnf m = map_option fst (pkt_get_u16 m (6 + ipsize cnf))"

lemmas msg_field_defs = olsr_msgtype_def olsr_msgsize_def msg_originator_def msg_ttl_def msg_hopcnt_def msg_seqno_def pkt_get_defs get_bytes_def

section \<open>The registered functions\<close>

text \<open>A function is the number that stands for its address.\<close>

record parse_function_entry =
  pf_type :: u32
  pf_function :: nat

record parser =
  parse_functions :: "parse_function_entry list"
  preprocessor_functions :: "nat list"
  packetparser_functions :: "nat list"

definition PROMISCUOUS :: u32 where "PROMISCUOUS = 0xffffffff"

definition olsr_parser_add_function :: "nat \<Rightarrow> u32 \<Rightarrow> parser \<Rightarrow> parser" where
  "olsr_parser_add_function f t ps = ps\<lparr>parse_functions := \<lparr>pf_type = t, pf_function = f\<rparr> # parse_functions ps\<rparr>"

definition olsr_preprocessor_add_function :: "nat \<Rightarrow> parser \<Rightarrow> parser" where
  "olsr_preprocessor_add_function f ps = ps\<lparr>preprocessor_functions := f # preprocessor_functions ps\<rparr>"

definition olsr_packetparser_add_function :: "nat \<Rightarrow> parser \<Rightarrow> parser" where
  "olsr_packetparser_add_function f ps = ps\<lparr>packetparser_functions := f # packetparser_functions ps\<rparr>"

text \<open>The walk that unlinks the first entry that matches.\<close>

fun unlink_first :: "('a \<Rightarrow> bool) \<Rightarrow> 'a list \<Rightarrow> int \<times> 'a list" where
  "unlink_first P [] = (0, [])"
| "unlink_first P (x # xs) = (if P x then (1, xs) else map_prod id (Cons x) (unlink_first P xs))"

definition olsr_parser_remove_function :: "nat \<Rightarrow> u32 \<Rightarrow> parser \<Rightarrow> int \<times> parser" where
  "olsr_parser_remove_function f t ps =
     (let (r, l) = unlink_first (\<lambda>e. pf_function e = f \<and> pf_type e = t) (parse_functions ps) in (r, ps\<lparr>parse_functions := l\<rparr>))"

definition olsr_preprocessor_remove_function :: "nat \<Rightarrow> parser \<Rightarrow> int \<times> parser" where
  "olsr_preprocessor_remove_function f ps =
     (let (r, l) = unlink_first (\<lambda>g. g = f) (preprocessor_functions ps) in (r, ps\<lparr>preprocessor_functions := l\<rparr>))"

definition olsr_packetparser_remove_function :: "nat \<Rightarrow> parser \<Rightarrow> int \<times> parser" where
  "olsr_packetparser_remove_function f ps =
     (let (r, l) = unlink_first (\<lambda>g. g = f) (packetparser_functions ps) in (r, ps\<lparr>packetparser_functions := l\<rparr>))"

text \<open>
  What is called: a message handler, a packet parser (with the sequence number in host order), a
  preprocessor (which discards the packet or replaces it), the update of the hysteresis, the
  report of a foreign message with the own address as originator, and the forwarding.
\<close>

record 'st parser_calls =
  parse_function :: "nat \<Rightarrow> u8 list \<Rightarrow> nat \<Rightarrow> olsr_ip_addr \<Rightarrow> 'st \<Rightarrow> (bool \<times> 'st) option"
  packetparser_function :: "nat \<Rightarrow> u16 \<Rightarrow> u8 list \<Rightarrow> nat \<Rightarrow> olsr_ip_addr \<Rightarrow> 'st \<Rightarrow> 'st option"
  preprocessor_function :: "nat \<Rightarrow> u8 list \<Rightarrow> nat \<Rightarrow> olsr_ip_addr \<Rightarrow> 'st \<Rightarrow> (u8 list option \<times> 'st) option"
  hysteresis_incoming :: "olsr_ip_addr \<Rightarrow> nat \<Rightarrow> u16 \<Rightarrow> 'st \<Rightarrow> 'st option"
  originator_collision :: "u8 \<Rightarrow> u16 \<Rightarrow> 'st \<Rightarrow> 'st option"
  forward_message :: "u8 list \<Rightarrow> nat \<Rightarrow> olsr_ip_addr \<Rightarrow> 'st \<Rightarrow> 'st option"

section \<open>Parsing a packet\<close>

definition call_entry :: "'st parser_calls \<Rightarrow> u8 list \<Rightarrow> nat \<Rightarrow> olsr_ip_addr \<Rightarrow> u8 \<Rightarrow> parse_function_entry \<Rightarrow> bool \<times> 'st \<Rightarrow> (bool \<times> 'st) option" where
  "call_entry calls m in_if from_addr type e = (\<lambda>(forward, st).
     if pf_type e = PROMISCUOUS \<or> pf_type e = ucast type
     then map_option (map_prod (\<lambda>r. r \<and> forward) id) (parse_function calls (pf_function e) m in_if from_addr st)
     else Some (forward, st))"

text \<open>What is done with a message whose size is right.\<close>

definition parse_message ::
  "olsrd_config \<Rightarrow> olsr_ip_addr list \<Rightarrow> parser \<Rightarrow> 'st parser_calls \<Rightarrow> nat \<Rightarrow> olsr_ip_addr \<Rightarrow> u8 list \<Rightarrow> 'st \<Rightarrow> 'st option" where
  "parse_message cnf deny ps calls in_if from_addr m st = do {
     type \<leftarrow> olsr_msgtype m;
     seqno \<leftarrow> msg_seqno cnf m;
     orig \<leftarrow> msg_originator cnf m;
     let validated = olsr_validate_address deny orig;
     if ipequal orig (main_addr cnf) \<or> \<not> validated
     then if validated then originator_collision calls type seqno st else Some st
     else do {
       (forward, st) \<leftarrow> foldM (call_entry calls m in_if from_addr type) (parse_functions ps) (True, st);
       if forward then forward_message calls m in_if from_addr st else Some st
     }
   }"

function parse_messages ::
  "olsrd_config \<Rightarrow> (u8 list \<Rightarrow> 'st \<Rightarrow> 'st option) \<Rightarrow> u32 \<Rightarrow> u8 list \<Rightarrow> 'st \<Rightarrow> 'st option" where
  "parse_messages cnf msg cnt m st =
     (if unat cnt < 8 + ipsize cnf then Some st
      else case olsr_msgsize m of
        None \<Rightarrow> None
      | Some sz \<Rightarrow>
          let msgsize = ucast sz :: u32 in
          if unat msgsize < 8 + ipsize cnf \<or> msgsize mod 4 \<noteq> 0 \<or> msgsize > cnt then Some st
          else Option.bind (msg m st) (parse_messages cnf msg (cnt - msgsize) (drop (unat msgsize) m)))"
  by pat_completeness auto
termination
proof (relation "measure (\<lambda>(cnf, msg, cnt, m, st). unat cnt)", simp)
  fix cnf msg cnt m st sz x xa
  assume "xa = (ucast (sz :: u16) :: u32)" "\<not> (unat xa < 8 + ipsize cnf \<or> xa mod 4 \<noteq> 0 \<or> cnt < xa)"
  hence "unat xa \<le> unat cnt" "0 < unat xa" by (simp_all add: not_less word_le_nat_alt)
  thus "((cnf, msg, cnt - xa, drop (unat xa) m, x), cnf, msg, cnt, m, st) \<in> measure (\<lambda>(cnf, msg, cnt, m, st). unat cnt)"
    by (simp add: unat_sub32)
qed

declare parse_messages.simps [simp del]

definition parse_packet ::
  "olsrd_config \<Rightarrow> bool \<Rightarrow> olsr_ip_addr list \<Rightarrow> parser \<Rightarrow> 'st parser_calls \<Rightarrow> u8 list \<Rightarrow> nat \<Rightarrow> olsr_ip_addr \<Rightarrow> 'st \<Rightarrow> 'st option" where
  "parse_packet cnf use_hyst deny ps calls olsr in_if from_addr st =
     (let cnt = of_nat (length olsr) - 4 :: u32 in
      if cnt < 4 then Some st
      else do {
        (packlen, _) \<leftarrow> pkt_get_u16 olsr 0;
        if packlen \<noteq> of_nat (length olsr) then Some st
        else do {
          (seqno, _) \<leftarrow> pkt_get_u16 olsr 2;
          st \<leftarrow> foldM (\<lambda>f. packetparser_function calls f seqno olsr in_if from_addr) (packetparser_functions ps) st;
          st \<leftarrow> (if use_hyst then hysteresis_incoming calls from_addr in_if seqno st else Some st);
          parse_messages cnf (parse_message cnf deny ps calls in_if from_addr) cnt (drop 4 olsr) st
        }
      })"

section \<open>Reading packets from a socket\<close>

text \<open>
  What the socket delivers: the octets, the sender, and whether the sender's address has the size
  of the configured family. The buffer takes \<open>MAXMESSAGESIZE / 4 + 1\<close> words.
\<close>

record received =
  rc_data :: "u8 list"
  rc_from :: olsr_ip_addr
  rc_fromlen_ok :: bool

definition INBUF_SIZE :: nat where "INBUF_SIZE = (1500 div 4 + 1) * 4"

definition if_ifwithsock :: "int \<Rightarrow> out_interface list \<Rightarrow> nat option" where
  "if_ifwithsock fd ifs = List.find (\<lambda>i. olsr_socket (ifs ! i) = fd \<or> send_socket (ifs ! i) = fd) [0..<length ifs]"

fun preprocess :: "'st parser_calls \<Rightarrow> nat \<Rightarrow> olsr_ip_addr \<Rightarrow> nat list \<Rightarrow> u8 list \<Rightarrow> 'st \<Rightarrow> (u8 list option \<times> 'st) option" where
  "preprocess calls in_if from_addr [] packet st = Some (Some packet, st)"
| "preprocess calls in_if from_addr (f # fs) packet st = do {
     (r, st) \<leftarrow> preprocessor_function calls f packet in_if from_addr st;
     case r of None \<Rightarrow> Some (None, st) | Some packet \<Rightarrow> preprocess calls in_if from_addr fs packet st
   }"

text \<open>
  The loop, with the number of passes that are left before the daemon is considered overloaded. It
  returns what is left in the socket; an empty socket ends the loop.
\<close>

fun input_loop :: "nat \<Rightarrow> nb_config \<Rightarrow> olsr_ip_addr list \<Rightarrow> parser \<Rightarrow> 'st parser_calls \<Rightarrow> nat option \<Rightarrow> received list \<Rightarrow> 'st \<Rightarrow>
    (received list \<times> 'st) option" where
  "input_loop 0 cnf deny ps calls in_if q st = Some (q, st)"
| "input_loop (Suc n) cnf deny ps calls in_if [] st = Some ([], st)"
| "input_loop (Suc n) cnf deny ps calls in_if (rc # q) st =
     (if rc_data rc = [] \<or> \<not> rc_fromlen_ok rc \<or> if_ifwithaddr cnf (rc_from rc) \<noteq> None then Some (q, st)
      else case in_if of None \<Rightarrow> Some (q, st)
      | Some i \<Rightarrow> do {
          (packet, st) \<leftarrow> preprocess calls i (rc_from rc) (preprocessor_functions ps) (take INBUF_SIZE (rc_data rc)) st;
          case packet of None \<Rightarrow> Some (q, st)
          | Some packet \<Rightarrow> do {
              st \<leftarrow> parse_packet (olsrd_config.truncate cnf) (use_hysteresis cnf) deny ps calls packet i (rc_from rc) st;
              input_loop n cnf deny ps calls in_if q st
            }
        })"

definition olsr_input :: "nb_config \<Rightarrow> olsr_ip_addr list \<Rightarrow> parser \<Rightarrow> 'st parser_calls \<Rightarrow> int \<Rightarrow> out_interface list \<Rightarrow> received list \<Rightarrow> 'st \<Rightarrow>
    (received list \<times> 'st) option" where
  "olsr_input cnf deny ps calls fd ifs q st = input_loop 32 cnf deny ps calls (if_ifwithsock fd ifs) q st"

section \<open>The messages of a packet\<close>

text \<open>
  The reference: a message is well-formed if it has a header, its size field counts at least the
  header, is a multiple of four and does not exceed what is left of the packet. The messages of a
  packet are well-formed ones in sequence, up to the first that is not.
\<close>

definition own_size :: "u8 list \<Rightarrow> nat" where
  "own_size bs = be_val (take 2 (drop 2 bs))"

definition own_msg :: "u8 list \<Rightarrow> u8 list" where
  "own_msg bs = take (own_size bs) bs"

definition good_msg :: "nat \<Rightarrow> u8 list \<Rightarrow> bool" where
  "good_msg n bs \<longleftrightarrow> 8 + n \<le> own_size bs \<and> own_size bs mod 4 = 0 \<and> own_size bs \<le> length bs"

function msg_tails :: "nat \<Rightarrow> u8 list \<Rightarrow> u8 list list" where
  "msg_tails n bs = (if good_msg n bs then bs # msg_tails n (drop (own_size bs) bs) else [])"
  by pat_completeness auto
termination by (relation "measure (\<lambda>(n, bs). length bs)") (auto simp: good_msg_def)

declare msg_tails.simps [simp del]

lemma be_val2: "be_val [a, b] = 256 * unat a + unat b"
  by (simp add: be_val_def)

lemma be_val2_less: "length bs = 2 \<Longrightarrow> be_val bs < 65536"
proof -
  assume "length bs = 2"
  then obtain a b where "bs = [a, b]" by (metis length_0_conv length_Suc_conv numeral_2_eq_2)
  thus ?thesis using u8_less [of a] u8_less [of b] by (simp add: be_val2)
qed

lemma msgsize_own: "4 \<le> length m \<Longrightarrow> \<exists>sz. olsr_msgsize m = Some sz \<and> unat (ucast sz :: u32) = own_size m \<and>
    ((ucast sz :: u32) mod 4 = 0 \<longleftrightarrow> own_size m mod 4 = 0)"
proof -
  assume l: "4 \<le> length m"
  hence v: "own_size m < 65536" using be_val2_less [of "take 2 (drop 2 m)"] by (simp add: own_size_def)
  let ?s = "of_nat (own_size m) :: u16"
  have u: "unat (ucast ?s :: u32) = own_size m" using v by (simp add: unsigned_ucast_eq take_bit_eq_mod unat_of_nat)
  have "(ucast ?s :: u32) mod 4 = 0 \<longleftrightarrow> own_size m mod 4 = 0" using u by (simp add: word_unat_eq_iff unat_mod)
  with u l show ?thesis by (auto simp: olsr_msgsize_def pkt_get_u16_def get_bytes_def own_size_def)
qed

lemma parse_messages_split:
  "unat cnt = length m \<Longrightarrow> parse_messages cnf msg cnt m st = foldM msg (msg_tails (ipsize cnf) m) st"
proof (induction "ipsize cnf" m arbitrary: cnt st rule: msg_tails.induct)
  case (1 m)
  show ?case
  proof (cases "8 + ipsize cnf \<le> length m")
    case False
    hence "\<not> good_msg (ipsize cnf) m" by (simp add: good_msg_def)
    thus ?thesis using False 1(2) by (subst parse_messages.simps, subst msg_tails.simps) simp
  next
    case True
    hence "4 \<le> length m" by simp
    from msgsize_own [OF this] obtain sz where sz: "olsr_msgsize m = Some sz" "unat (ucast sz :: u32) = own_size m"
      "(ucast sz :: u32) mod 4 = 0 \<longleftrightarrow> own_size m mod 4 = 0"
      by (elim exE conjE)
    have g: "good_msg (ipsize cnf) m \<longleftrightarrow> \<not> (unat (ucast sz :: u32) < 8 + ipsize cnf \<or> (ucast sz :: u32) mod 4 \<noteq> 0 \<or> (ucast sz :: u32) > cnt)"
      using 1(2) sz(2,3) by (auto simp: good_msg_def word_less_nat_alt)
    show ?thesis
    proof (cases "good_msg (ipsize cnf) m")
      case False
      thus ?thesis using True 1(2) sz(1) g by (subst parse_messages.simps, subst msg_tails.simps) (auto simp: Let_def)
    next
      case good: True
      hence "unat (cnt - ucast sz) = length (drop (own_size m) m)" using 1(2) sz(2) by (simp add: unat_sub32 good_msg_def)
      hence "parse_messages cnf msg (cnt - ucast sz) (drop (own_size m) m) = foldM msg (msg_tails (ipsize cnf) (drop (own_size m) m))"
        using 1(1) [OF good] by (intro ext) blast
      thus ?thesis using good g True 1(2) sz(1,2) by (subst parse_messages.simps, subst msg_tails.simps) (simp add: Let_def)
    qed
  qed
qed

text \<open>The messages lie one behind the other from the start of the packet on.\<close>

lemma tails_tile: "\<exists>rest. bs = concat (map own_msg (msg_tails n bs)) @ rest \<and> \<not> good_msg n rest"
proof (induction n bs rule: msg_tails.induct)
  case (1 n bs)
  show ?case
  proof (cases "good_msg n bs")
    case True
    with 1 obtain rest where "drop (own_size bs) bs = concat (map own_msg (msg_tails n (drop (own_size bs) bs))) @ rest" "\<not> good_msg n rest" by blast
    moreover have "bs = own_msg bs @ drop (own_size bs) bs" by (simp add: own_msg_def)
    moreover have "msg_tails n bs = bs # msg_tails n (drop (own_size bs) bs)" using True by (subst msg_tails.simps) simp
    ultimately show ?thesis by (intro exI [of _ rest]) (simp only: list.map concat.simps append.assoc, simp)
  qed (simp add: msg_tails.simps [of n bs])
qed

lemma tails_good: "t \<in> set (msg_tails n bs) \<Longrightarrow> good_msg n t"
proof (induction n bs rule: msg_tails.induct)
  case (1 n bs)
  have "good_msg n bs" using 1(2) by (subst (asm) msg_tails.simps) (simp split: if_splits)
  moreover hence "set (msg_tails n bs) = insert bs (set (msg_tails n (drop (own_size bs) bs)))" by (subst msg_tails.simps) simp
  ultimately show ?case using 1 by auto
qed

lemma good_length: "good_msg n bs \<Longrightarrow> 8 + n \<le> length bs"
  by (simp add: good_msg_def)

text \<open>The parser in terms of the messages of the packet.\<close>

definition parse_reference ::
  "olsrd_config \<Rightarrow> bool \<Rightarrow> olsr_ip_addr list \<Rightarrow> parser \<Rightarrow> 'st parser_calls \<Rightarrow> u8 list \<Rightarrow> nat \<Rightarrow> olsr_ip_addr \<Rightarrow> 'st \<Rightarrow> 'st option" where
  "parse_reference cnf use_hyst deny ps calls olsr in_if from_addr st = do {
     let seqno = of_nat (be_val (take 2 (drop 2 olsr)));
     st \<leftarrow> foldM (\<lambda>f. packetparser_function calls f seqno olsr in_if from_addr) (packetparser_functions ps) st;
     st \<leftarrow> (if use_hyst then hysteresis_incoming calls from_addr in_if seqno st else Some st);
     foldM (parse_message cnf deny ps calls in_if from_addr) (msg_tails (ipsize cnf) (drop 4 olsr)) st
   }"

lemma parse_packet_reference:
  fixes calls :: "'st parser_calls"
  assumes "8 \<le> length olsr" "length olsr < 2 ^ 32"
  shows "parse_packet cnf use_hyst deny ps calls olsr in_if from_addr st =
    (if be_val (take 2 olsr) = length olsr mod 65536 then parse_reference cnf use_hyst deny ps calls olsr in_if from_addr st else Some st)"
proof -
  have u: "unat (of_nat (length olsr) - 4 :: u32) = length (drop 4 olsr)" using assms by (simp add: unat_sub32 unat_of_nat)
  hence c: "\<not> (of_nat (length olsr) - 4 :: u32) < 4" using assms(1) by (simp add: word_less_nat_alt)
  have "be_val (take 2 olsr) < 65536" using assms(1) by (intro be_val2_less) simp
  hence l: "(of_nat (be_val (take 2 olsr)) :: u16) = of_nat (length olsr) \<longleftrightarrow> be_val (take 2 olsr) = length olsr mod 65536"
    by (simp add: word_unat_eq_iff unat_of_nat)
  have "parse_messages cnf msg (of_nat (length olsr) - 4) (drop 4 olsr) = foldM msg (msg_tails (ipsize cnf) (drop 4 olsr))" for msg :: "u8 list \<Rightarrow> 'st \<Rightarrow> 'st option"
    by (rule ext) (rule parse_messages_split [OF u])
  thus ?thesis using assms(1) c l
    by (simp add: parse_packet_def parse_reference_def pkt_get_u16_def get_bytes_def Let_def)
qed

section \<open>What the parser needs from the functions it calls\<close>

text \<open>
  The interface of the components behind the parser: on a message with a complete header each
  function returns and keeps an invariant of the state.
\<close>

locale packet_client =
  fixes cnf :: olsrd_config and use_hyst :: bool and calls :: "'st parser_calls" and ps :: parser and okay :: "'st \<Rightarrow> bool"
  assumes handler_ok: "okay st \<Longrightarrow> good_msg (ipsize cnf) m \<Longrightarrow> e \<in> set (parse_functions ps) \<Longrightarrow>
      \<exists>r st'. parse_function calls (pf_function e) m in_if from_addr st = Some (r, st') \<and> okay st'"
    and packetparser_ok: "okay st \<Longrightarrow> f \<in> set (packetparser_functions ps) \<Longrightarrow>
      \<exists>st'. packetparser_function calls f seqno olsr in_if from_addr st = Some st' \<and> okay st'"
    and hysteresis_ok: "use_hyst \<Longrightarrow> okay st \<Longrightarrow> \<exists>st'. hysteresis_incoming calls from_addr in_if seqno st = Some st' \<and> okay st'"
    and collision_ok: "okay st \<Longrightarrow> \<exists>st'. originator_collision calls type seqno st = Some st' \<and> okay st'"
    and forward_ok: "okay st \<Longrightarrow> good_msg (ipsize cnf) m \<Longrightarrow> \<exists>st'. forward_message calls m in_if from_addr st = Some st' \<and> okay st'"
begin

lemma entries_ok:
  "okay st \<Longrightarrow> good_msg (ipsize cnf) m \<Longrightarrow> set es \<subseteq> set (parse_functions ps) \<Longrightarrow>
   \<exists>fwd' st'. foldM (call_entry calls m in_if from_addr type) es (fwd, st) = Some (fwd', st') \<and> okay st'"
proof (induction es arbitrary: fwd st)
  case (Cons e es)
  have "\<exists>fwd1 st1. call_entry calls m in_if from_addr type e (fwd, st) = Some (fwd1, st1) \<and> okay st1"
    using handler_ok [OF Cons.prems(1,2), of e in_if from_addr] Cons.prems(1,3) by (auto simp: call_entry_def)
  then obtain fwd1 st1 where "call_entry calls m in_if from_addr type e (fwd, st) = Some (fwd1, st1)" "okay st1" by blast
  thus ?case using Cons.IH [of st1 fwd1] Cons.prems(2,3) by simp
qed simp

lemma message_ok:
  assumes "okay st" "good_msg (ipsize cnf) m"
  shows "\<exists>st'. parse_message cnf deny ps calls in_if from_addr m st = Some st' \<and> okay st'"
proof -
  have l: "8 + ipsize cnf \<le> length m" using assms(2) by (rule good_length)
  then obtain type seqno orig where f: "olsr_msgtype m = Some type" "msg_seqno cnf m = Some seqno" "msg_originator cnf m = Some orig"
    by (simp add: msg_field_defs)
  obtain fwd st1 where e: "foldM (call_entry calls m in_if from_addr type) (parse_functions ps) (True, st) = Some (fwd, st1)" "okay st1"
    using entries_ok [OF assms order_refl, of in_if from_addr type True] by blast
  show ?thesis using f e collision_ok [OF assms(1), of type seqno] forward_ok [OF e(2) assms(2), of in_if from_addr] assms(1)
    by (auto simp: parse_message_def Let_def)
qed

lemma messages_ok:
  "okay st \<Longrightarrow> \<forall>m\<in>set ms. good_msg (ipsize cnf) m \<Longrightarrow> \<exists>st'. foldM (parse_message cnf deny ps calls in_if from_addr) ms st = Some st' \<and> okay st'"
proof (induction ms arbitrary: st)
  case (Cons m ms)
  obtain st1 where "parse_message cnf deny ps calls in_if from_addr m st = Some st1" "okay st1"
    using message_ok [OF Cons.prems(1), of m deny in_if from_addr] Cons.prems(2) by auto
  thus ?case using Cons.IH [of st1] Cons.prems(2) by simp
qed simp

lemma packetparsers_ok:
  "okay st \<Longrightarrow> set fs \<subseteq> set (packetparser_functions ps) \<Longrightarrow>
   \<exists>st'. foldM (\<lambda>f. packetparser_function calls f seqno olsr in_if from_addr) fs st = Some st' \<and> okay st'"
proof (induction fs arbitrary: st)
  case (Cons f fs)
  obtain st1 where "packetparser_function calls f seqno olsr in_if from_addr st = Some st1" "okay st1"
    using packetparser_ok [OF Cons.prems(1), of f seqno olsr in_if from_addr] Cons.prems(2) by auto
  thus ?case using Cons.IH [of st1] Cons.prems(2) by simp
qed simp

lemma packet_ok:
  assumes "okay st" "4 \<le> length olsr" "length olsr < 2 ^ 32"
  shows "\<exists>st'. parse_packet cnf use_hyst deny ps calls olsr in_if from_addr st = Some st' \<and> okay st'"
proof (cases "8 \<le> length olsr")
  case False
  have "unat (of_nat (length olsr) - 4 :: u32) = length olsr - 4" using assms(2,3) by (simp add: unat_sub32 unat_of_nat)
  hence "(of_nat (length olsr) - 4 :: u32) < 4" using False by (simp add: word_less_nat_alt)
  thus ?thesis using assms(1) by (simp add: parse_packet_def)
next
  case True
  let ?s = "of_nat (be_val (take 2 (drop 2 olsr)))"
  obtain st1 where 1: "foldM (\<lambda>f. packetparser_function calls f ?s olsr in_if from_addr) (packetparser_functions ps) st = Some st1" "okay st1"
    using packetparsers_ok [OF assms(1) order_refl] by blast
  obtain st2 where 2: "(if use_hyst then hysteresis_incoming calls from_addr in_if ?s st1 else Some st1) = Some st2" "okay st2"
    using hysteresis_ok [OF _ 1(2), of from_addr in_if ?s] 1(2) by (cases use_hyst) auto
  have "parse_reference cnf use_hyst deny ps calls olsr in_if from_addr st =
      foldM (parse_message cnf deny ps calls in_if from_addr) (msg_tails (ipsize cnf) (drop 4 olsr)) st2"
    by (simp only: parse_reference_def Let_def 1(1) 2(1) bind.bind_lunit)
  thus ?thesis using messages_ok [OF 2(2), of "msg_tails (ipsize cnf) (drop 4 olsr)" deny in_if from_addr] tails_good assms(1)
    by (auto simp: parse_packet_reference [OF True assms(3)])
qed

end

section \<open>Properties\<close>

text \<open>
  C16. The parser hands over exactly the messages of a packet. The loop with its machine counter
  does the same as a walk over the reference decomposition of the packet, provided that the
  length field of the packet is right, and otherwise nothing is done; the messages lie one behind
  the other from the header of the packet on, up to a rest that does not start with a well-formed
  message, and each one has a complete header and ends inside the packet.
\<close>

theorem parse_packet_splits:
  assumes "8 \<le> length olsr" "length olsr < 2 ^ 32"
  shows "parse_packet cnf use_hyst deny ps calls olsr in_if from_addr st =
      (if be_val (take 2 olsr) = length olsr mod 65536 then parse_reference cnf use_hyst deny ps calls olsr in_if from_addr st else Some st) \<and>
    (\<exists>rest. drop 4 olsr = concat (map own_msg (msg_tails (ipsize cnf) (drop 4 olsr))) @ rest \<and> \<not> good_msg (ipsize cnf) rest) \<and>
    (\<forall>m\<in>set (msg_tails (ipsize cnf) (drop 4 olsr)). good_msg (ipsize cnf) m)"
  by (intro conjI ballI parse_packet_reference [OF assms] tails_tile) (rule tails_good)

text \<open>A node that keeps the first octets of what it forwards.\<close>

definition demo_calls :: "u8 list parser_calls" where
  "demo_calls = \<lparr>parse_function = (\<lambda>f m i a st. Some (True, st)), packetparser_function = (\<lambda>f s p i a st. Some st),
     preprocessor_function = (\<lambda>f p i a st. Some (Some p, st)), hysteresis_incoming = (\<lambda>a i s st. Some st),
     originator_collision = (\<lambda>t s st. Some st), forward_message = (\<lambda>m i a st. Some (hd m # st))\<rparr>"

definition demo_parser :: parser where
  "demo_parser = \<lparr>parse_functions = [], preprocessor_functions = [], packetparser_functions = []\<rparr>"

definition demo_packet :: "u8 list" where
  "demo_packet = [0, 28, 0, 7] @ [202, 0, 0, 12, 10, 0, 0, 2, 255, 0, 0, 1] @ [201, 0, 0, 12, 10, 0, 0, 3, 255, 0, 0, 1]"

theorem parse_packet_splits_witness:
  "parse_packet demo_conf False [] demo_parser demo_calls demo_packet 0 (V4 2) [] =
     parse_reference demo_conf False [] demo_parser demo_calls demo_packet 0 (V4 2) []"
  using parse_packet_splits [of demo_packet demo_conf False "[]" demo_parser demo_calls 0 "V4 2" "[]"]
  by (simp add: demo_packet_def be_val_def)

text \<open>
  C33. A packet shorter than its own header is not refused: the check of the minimal size
  subtracts the header first and wraps around, so that a packet of two or three octets whose
  length field is right makes the parser read behind the octets received.
\<close>

theorem short_packet_overread:
  assumes "length olsr = 2 \<or> length olsr = 3" "be_val (take 2 olsr) = length olsr"
  shows "parse_packet cnf use_hyst deny ps calls olsr in_if from_addr st = None"
proof -
  have "\<not> (of_nat (length olsr) - 4 :: u32) < 4" using assms(1) by (elim disjE) (simp_all add: word_less_nat_alt unat_sub32 unsigned_minus_1_eq_mask mask_eq_exp_minus_1)
  thus ?thesis using assms by (auto simp: parse_packet_def pkt_get_u16_def get_bytes_def)
qed

theorem short_packet_overread_witness:
  "parse_packet demo_conf False [] demo_parser demo_calls [0, 2] 0 (V4 2) [] = None"
  by (rule short_packet_overread) (simp_all add: be_val_def)

subsection \<open>From the output buffer to the parser\<close>

lemma own_size_append: "4 \<le> length m \<Longrightarrow> own_size (m @ rest) = own_size m"
  by (simp add: own_size_def)

lemma tails_concat:
  "\<forall>m\<in>set ms. good_msg n m \<and> own_size m = length m \<Longrightarrow> map own_msg (msg_tails n (concat ms)) = ms"
proof (induction ms)
  case Nil
  have "\<not> good_msg n []" by (simp add: good_msg_def)
  thus ?case by (subst msg_tails.simps) simp
next
  case (Cons m ms)
  hence m: "good_msg n m" "own_size m = length m" by simp_all
  have o: "own_size (m @ concat ms) = length m" using own_size_append [of m "concat ms"] good_length [OF m(1)] m(2) by simp
  hence "good_msg n (m @ concat ms)" using m by (simp add: good_msg_def)
  hence "msg_tails n (concat (m # ms)) = (m @ concat ms) # msg_tails n (concat ms)" using o by (subst msg_tails.simps) simp
  thus ?case using Cons o by (simp add: own_msg_def)
qed

definition push_all :: "u8 list list \<Rightarrow> olsr_netbuf \<Rightarrow> olsr_netbuf option" where
  "push_all = foldM (\<lambda>m nb. map_option snd (net_outbuffer_push m nb))"

lemma push_all_payload:
  "netbuf_ok nb \<Longrightarrow> pending nb + int (length (concat ms)) \<le> maxsize nb \<Longrightarrow>
   \<exists>nb'. push_all ms nb = Some nb' \<and> netbuf_ok nb' \<and> payload nb' = payload nb @ concat ms \<and> pending nb' = pending nb + int (length (concat ms)) \<and>
     bufsize nb' = bufsize nb"
proof (induction ms arbitrary: nb)
  case (Cons m ms)
  have f: "pending nb + int (length m) \<le> maxsize nb + reserved nb" using Cons.prems by (auto simp: netbuf_ok_def)
  obtain nb1 where 1: "buffer_copy m nb = Some nb1" "netbuf_ok nb1" "payload nb1 = payload nb @ m" "pending nb1 = pending nb + int (length m)"
    "maxsize nb1 = maxsize nb" using buffer_copy_ok [OF Cons.prems(1) f] by blast
  have "bufsize nb1 = bufsize nb" using 1(1) by (auto simp: buffer_copy_def split: Option.bind_splits if_splits)
  thus ?case using 1 Cons.IH [of nb1] Cons.prems(2) by (auto simp: push_all_def net_outbuffer_push_def)
qed (simp add: push_all_def)

text \<open>
  C17. What one node sends another one reads: messages that fit into an empty output buffer are
  sent as one packet, and the parser finds exactly these messages in it, in their order, and sees
  the sequence number of the packet.
\<close>

theorem sent_messages_parsed:
  assumes "netbuf_ok (netbuf ifp)" "pending (netbuf ifp) = 0" "ptf_list st = []" "bufsize (netbuf ifp) < 65536"
    "ms \<noteq> []" "\<forall>m\<in>set ms. good_msg (ipsize cnf) m \<and> own_size m = length m" "int (length (concat ms)) \<le> maxsize (netbuf ifp)"
  shows "\<exists>nb r ifp' st' dg. push_all ms (netbuf ifp) = Some nb \<and>
    net_output cnf port ptf (ifp\<lparr>netbuf := nb\<rparr>) st = Some (r, ifp', st') \<and> sent st' = sent st @ [dg] \<and>
    (\<forall>use_hyst deny ps (calls :: 'st parser_calls) in_if from_addr s. parse_packet cnf use_hyst deny ps calls (dg_data dg) in_if from_addr s =
       parse_reference cnf use_hyst deny ps calls (dg_data dg) in_if from_addr s) \<and>
    map own_msg (msg_tails (ipsize cnf) (drop 4 (dg_data dg))) = ms \<and> be_val (take 2 (drop 2 (dg_data dg))) = unat (olsr_seqnum ifp)"
proof -
  obtain nb where nb: "push_all ms (netbuf ifp) = Some nb" "netbuf_ok nb" "payload nb = concat ms" "pending nb = int (length (concat ms))"
    "bufsize nb = bufsize (netbuf ifp)"
    using push_all_payload [OF assms(1), of ms] assms(2,7) by (auto simp: payload_def)
  have "8 \<le> length (concat ms)" using assms(5,6) good_length by (cases ms) fastforce+
  moreover hence "pending nb \<noteq> 0" using nb(4) by linarith
  ultimately have l: "8 \<le> length (concat ms)" "pending (netbuf (ifp\<lparr>netbuf := nb\<rparr>)) \<noteq> 0" by simp_all
  let ?h = "packet_header (pending nb + 4) (olsr_seqnum ifp)"
  obtain r ifp' st' where out: "net_output cnf port ptf (ifp\<lparr>netbuf := nb\<rparr>) st = Some (r, ifp', st')"
    "sent st' = sent st @ [\<lparr>dg_socket = send_socket ifp, dg_dest = net_destination cnf port (ifp\<lparr>netbuf := nb\<rparr>), dg_data = ?h @ concat ms\<rparr>]"
    using output_plain [OF _ l(2) assms(3), of cnf port ptf] nb(2,3) by auto
  let ?d = "?h @ concat ms"
  have s: "length ?d = length (concat ms) + 4" "length ?d < 65536" using nb(2,4,5) assms(4) l(2) by (auto simp: netbuf_ok_def OLSR_HEADERSIZE_def)
  let ?n = "length (concat ms) + 4"
  have "pending nb + 4 = int ?n" using nb(4) by linarith
  hence w: "(of_int (pending nb + 4) :: u16) = of_nat ?n" by (metis of_int_of_nat_eq)
  have "?n < 65536" using s by linarith
  hence "unat (of_nat ?n :: u16) = ?n" by (simp add: unat_of_nat del: length_concat of_nat_add)
  hence "be_val (be_bytes 2 (of_nat ?n :: u16)) = ?n" using \<open>?n < 65536\<close> unfolding be_val_bytes by (simp del: length_concat of_nat_add)
  hence "be_val (take 2 ?d) = length ?d" unfolding s(1) packet_header_def w by (simp del: length_concat of_nat_add)
  hence "parse_packet cnf use_hyst deny ps calls ?d in_if from_addr s = parse_reference cnf use_hyst deny ps calls ?d in_if from_addr s"
    for use_hyst deny ps in_if from_addr s and calls :: "'st parser_calls"
    using parse_packet_reference [of ?d cnf use_hyst deny ps calls in_if from_addr s] s l(1) by simp
  moreover have "be_val (take 2 (drop 2 ?d)) = unat (olsr_seqnum ifp)" using u16_less [of "olsr_seqnum ifp"] by (simp add: packet_header_def be_val_bytes)
  moreover have "map own_msg (msg_tails (ipsize cnf) (drop 4 ?d)) = ms" using tails_concat [OF assms(6)] by simp
  ultimately show ?thesis using nb(1) out by (intro exI conjI allI) (assumption | simp)+
qed

definition demo_out :: out_interface where
  "demo_out = demo_if\<lparr>netbuf := \<lparr>buff = Some (replicate 64 0), bufsize = 64, maxsize = 60, pending = 0, reserved = 0\<rparr>\<rparr>"

theorem sent_messages_parsed_witness:
  "\<exists>nb r ifp' st' dg. push_all [take 12 (drop 4 demo_packet), drop 16 demo_packet] (netbuf demo_out) = Some nb \<and>
    net_output demo_conf 698 (\<lambda>_. Some) (demo_out\<lparr>netbuf := nb\<rparr>) demo_net = Some (r, ifp', st') \<and> sent st' = sent demo_net @ [dg] \<and>
    map own_msg (msg_tails (ipsize demo_conf) (drop 4 (dg_data dg))) = [take 12 (drop 4 demo_packet), drop 16 demo_packet]"
proof -
  have "netbuf_ok (netbuf demo_out)" by (simp add: demo_out_def netbuf_ok_def OLSR_HEADERSIZE_def)
  moreover have "\<forall>m\<in>set [take 12 (drop 4 demo_packet), drop 16 demo_packet]. good_msg (ipsize demo_conf) m \<and> own_size m = length m"
    by (simp add: demo_packet_def good_msg_def own_size_def demo_conf_def ipsize_def be_val_def)
  ultimately show ?thesis
    using sent_messages_parsed [of demo_out demo_net "[take 12 (drop 4 demo_packet), drop 16 demo_packet]" demo_conf 698 "\<lambda>_. Some", where 'st = unit]
    by (auto simp: demo_out_def demo_net_def demo_packet_def)
qed

text \<open>However many packets wait, one call reads at most 32 of them and leaves the others in their order.\<close>

lemma input_reads_few:
  "input_loop n cnf deny ps calls in_if q st = Some (q', st') \<Longrightarrow> \<exists>k\<le>n. q' = drop k q"
proof (induction n cnf deny ps calls in_if q st rule: input_loop.induct)
  case (3 n cnf deny ps calls in_if rc q st)
  have now: "\<exists>k\<le>Suc n. q = drop k (rc # q)" by (intro exI [of _ 1]) simp
  have later: "\<exists>k\<le>Suc n. q' = drop k (rc # q)" if "\<exists>k\<le>n. q' = drop k q" using that by (metis drop_Suc_Cons Suc_le_mono)
  show ?case using 3 now later by (fastforce split: if_splits option.splits Option.bind_splits)
qed auto

end
