(* ===== verification/Olsr_Scheduler.thy ===== *)
theory Olsr_Scheduler
  imports Olsr_Buckets Olsr_Time
begin

unbundle bit_operations_syntax

text \<open>
  The timers of the daemon (\<^verbatim>\<open>src/scheduler.c\<close>): a wheel of 1024 lists, a timer hanging in the list
  of its firing time modulo 1024, and the walk that calls the functions of the timers that are due.
  The lists are those of \<^verbatim>\<open>src/common/list.c\<close>. The functions called are code of other components that
  may start, change and stop timers; what the walk needs from them is the locale \<open>timer_client\<close>. The
  state of the clients is the extension of the record \<open>scheduler\<close>. The results of \<open>random()\<close> are a
  sequence of numbers in the state. Memory cookies only count allocations and are left out.
\<close>

section \<open>Data\<close>

definition TIMER_WHEEL_SLOTS :: nat where "TIMER_WHEEL_SLOTS = 1024"
definition TIMER_WHEEL_MASK :: u32 where "TIMER_WHEEL_MASK = 1023"
definition OLSR_TIMER_RUNNING :: u8 where "OLSR_TIMER_RUNNING = 1"
definition RAND_MAX :: u32 where "RAND_MAX = 0x7fffffff"

record timer_entry =
  timer_clock :: u32
  timer_period :: u32
  timer_jitter_pct :: u8
  timer_flags :: u8
  timer_random :: u32
  timer_cb :: nat
  timer_cb_context :: ptr

record scheduler =
  timer_wheel :: "nat \<Rightarrow> ptr list"
  timers :: "ptr \<Rightarrow> timer_entry option"
  tmp_head_node :: "ptr list"
  timer_last_run :: u32
  now_times :: u32
  timer_next :: ptr
  random_seq :: "nat \<Rightarrow> u32"
  random_pos :: nat

definition wheel_slot :: "u32 \<Rightarrow> nat" where
  "wheel_slot c = unat (c AND TIMER_WHEEL_MASK)"

section \<open>Lists\<close>

definition list_add_before :: "nat \<Rightarrow> ptr \<Rightarrow> (nat \<Rightarrow> ptr list) \<Rightarrow> nat \<Rightarrow> ptr list" where
  "list_add_before h p T = T(h := T h @ [p])"

definition list_remove :: "ptr \<Rightarrow> 'e scheduler_scheme \<Rightarrow> 'e scheduler_scheme" where
  "list_remove p s = s\<lparr>timer_wheel := dequeue_elem p (timer_wheel s), tmp_head_node := filter (\<lambda>q. q \<noteq> p) (tmp_head_node s)\<rparr>"

text \<open>The merged elements come in front of those of the slot.\<close>

definition list_merge :: "nat \<Rightarrow> 'e scheduler_scheme \<Rightarrow> 'e scheduler_scheme" where
  "list_merge h s = s\<lparr>timer_wheel := (timer_wheel s)(h := tmp_head_node s @ timer_wheel s h), tmp_head_node := []\<rparr>"

section \<open>Starting, changing and stopping timers\<close>

definition random :: "'e scheduler_scheme \<Rightarrow> u32 \<times> 'e scheduler_scheme" where
  "random s = (random_seq s (random_pos s), s\<lparr>random_pos := Suc (random_pos s)\<rparr>)"

definition calc_jitter :: "u32 \<Rightarrow> u32 \<Rightarrow> u8 \<Rightarrow> u32 \<Rightarrow> u32" where
  "calc_jitter now rel_time jitter_pct random_val =
     (if jitter_pct = 0 \<or> jitter_pct > 99 \<or> rel_time > 2 ^ 24 then olsr_getTimestamp now rel_time
      else
        let jitter_time = (ucast jitter_pct * rel_time) div 100;
            jitter_time = random_val div (1 + RAND_MAX div (jitter_time + 1))
        in olsr_getTimestamp now (rel_time - jitter_time))"

definition olsr_start_timer :: "u32 \<Rightarrow> u8 \<Rightarrow> bool \<Rightarrow> nat \<Rightarrow> ptr \<Rightarrow> 'e scheduler_scheme \<Rightarrow> ptr \<times> 'e scheduler_scheme" where
  "olsr_start_timer rel_time jitter_pct periodical cb_func cb_context s =
     (let (r, s1) = random s;
          p = timer_next s1;
          timer = \<lparr>timer_clock = calc_jitter (now_times s1) rel_time jitter_pct r, timer_period = (if periodical then rel_time else 0),
            timer_jitter_pct = jitter_pct, timer_flags = OLSR_TIMER_RUNNING, timer_random = r, timer_cb = cb_func, timer_cb_context = cb_context\<rparr>
      in (p, s1\<lparr>timers := (timers s1)(p \<mapsto> timer), timer_next := p + 1,
                timer_wheel := list_add_before (wheel_slot (timer_clock timer)) p (timer_wheel s1)\<rparr>))"

definition olsr_stop_timer :: "ptr option \<Rightarrow> 'e scheduler_scheme \<Rightarrow> 'e scheduler_scheme option" where
  "olsr_stop_timer timer s = (case timer of
       None \<Rightarrow> Some s
     | Some p \<Rightarrow> do {
         t \<leftarrow> timers s p;
         Some ((list_remove p s)\<lparr>timers := (timers s)(p := None)\<rparr>)
       })"

definition olsr_change_timer :: "ptr option \<Rightarrow> u32 \<Rightarrow> u8 \<Rightarrow> bool \<Rightarrow> 'e scheduler_scheme \<Rightarrow> 'e scheduler_scheme option" where
  "olsr_change_timer timer rel_time jitter_pct periodical s = (case timer of
       None \<Rightarrow> Some s
     | Some p \<Rightarrow> do {
         t \<leftarrow> timers s p;
         let t' = t\<lparr>timer_period := (if periodical then rel_time else 0),
                    timer_clock := calc_jitter (now_times s) rel_time jitter_pct (timer_random t), timer_jitter_pct := jitter_pct\<rparr>;
         let s1 = list_remove p s;
         Some (s1\<lparr>timers := (timers s)(p \<mapsto> t'),
                  timer_wheel := list_add_before (wheel_slot (timer_clock t')) p (timer_wheel s1)\<rparr>)
       })"

definition olsr_set_timer :: "ptr option \<Rightarrow> u32 \<Rightarrow> u8 \<Rightarrow> bool \<Rightarrow> nat \<Rightarrow> ptr \<Rightarrow> 'e scheduler_scheme \<Rightarrow> (ptr option \<times> 'e scheduler_scheme) option" where
  "olsr_set_timer timer_ptr rel_time jitter_pct periodical cb_func cb_context s =
     (if rel_time = 0 then map_option (Pair None) (olsr_stop_timer timer_ptr s)
      else if timer_ptr = None then
        (let (p, s1) = olsr_start_timer rel_time jitter_pct periodical cb_func cb_context s in Some (Some p, s1))
      else map_option (Pair timer_ptr) (olsr_change_timer timer_ptr rel_time jitter_pct periodical s))"

definition olsr_init_timers :: "u32 \<Rightarrow> 'e scheduler_scheme \<Rightarrow> 'e scheduler_scheme" where
  "olsr_init_timers now s = s\<lparr>now_times := now, timer_wheel := (\<lambda>h. []), timer_last_run := now\<rparr>"

section \<open>The walk\<close>

text \<open>
  One pass of the inner loop, for the first timer \<open>p\<close> of a slot. The flags are read after the call:
  a function that has stopped the timer it was called for makes the code read freed memory.
\<close>

definition walk_timer :: "(nat \<Rightarrow> ptr \<Rightarrow> 'e scheduler_scheme \<Rightarrow> 'e scheduler_scheme option) \<Rightarrow> ptr \<Rightarrow> 'e scheduler_scheme \<Rightarrow> 'e scheduler_scheme option" where
  "walk_timer call p s = do {
     timer \<leftarrow> timers s p;
     let s1 = list_remove p s;
     let s2 = s1\<lparr>tmp_head_node := p # tmp_head_node s1\<rparr>;
     if olsr_isTimedOut (now_times s2) (timer_clock timer) then do {
       s3 \<leftarrow> call (timer_cb timer) (timer_cb_context timer) s2;
       timer' \<leftarrow> timers s3 p;
       if timer_flags timer' AND OLSR_TIMER_RUNNING = 0 then Some s3
       else if timer_period timer' \<noteq> 0 then
         (let (r, s4) = random s3
          in olsr_change_timer (Some p) (timer_period timer') (timer_jitter_pct timer') True
               (s4\<lparr>timers := (timers s4)(p \<mapsto> timer'\<lparr>timer_random := r\<rparr>)\<rparr>))
       else olsr_stop_timer (Some p) s3
     } else Some s2
   }"

partial_function (option) walk_slot :: "(nat \<Rightarrow> ptr \<Rightarrow> 'e scheduler_scheme \<Rightarrow> 'e scheduler_scheme option) \<Rightarrow> nat \<Rightarrow> 'e scheduler_scheme \<Rightarrow> 'e scheduler_scheme option" where
  "walk_slot call h s = (case timer_wheel s h of
       [] \<Rightarrow> Some s
     | p # ps \<Rightarrow> Option.bind (walk_timer call p s) (walk_slot call h))"

text \<open>The outer loop; the first argument counts the slots left until all have been walked.\<close>

fun walk_slots :: "(nat \<Rightarrow> ptr \<Rightarrow> 'e scheduler_scheme \<Rightarrow> 'e scheduler_scheme option) \<Rightarrow> nat \<Rightarrow> 'e scheduler_scheme \<Rightarrow> 'e scheduler_scheme option" where
  "walk_slots call 0 s = Some s"
| "walk_slots call (Suc n) s =
     (if timer_last_run s \<le> now_times s then do {
        let h = wheel_slot (timer_last_run s);
        s1 \<leftarrow> walk_slot call h (s\<lparr>tmp_head_node := []\<rparr>);
        let s2 = list_merge h s1;
        walk_slots call n (s2\<lparr>timer_last_run := timer_last_run s2 + 1\<rparr>)
      } else Some s)"

definition walk_timers :: "(nat \<Rightarrow> ptr \<Rightarrow> 'e scheduler_scheme \<Rightarrow> 'e scheduler_scheme option) \<Rightarrow> 'e scheduler_scheme \<Rightarrow> 'e scheduler_scheme option" where
  "walk_timers call s = map_option (\<lambda>s. s\<lparr>timer_last_run := now_times s\<rparr>) (walk_slots call TIMER_WHEEL_SLOTS s)"

definition olsr_flush_timers :: "'e scheduler_scheme \<Rightarrow> 'e scheduler_scheme option" where
  "olsr_flush_timers s = foldM (\<lambda>h s. foldM (\<lambda>p. olsr_stop_timer (Some p)) (timer_wheel s h) s) [0..<TIMER_WHEEL_SLOTS] s"

section \<open>Jitter\<close>

lemma jitter_bound:
  fixes j r :: u32
  assumes r: "r \<le> RAND_MAX" and j: "unat j < 2 ^ 31"
  shows "r div (1 + RAND_MAX div (j + 1)) \<le> j"
proof -
  let ?M = "0x7fffffff :: nat"
  define q where "q = ?M div (unat j + 1)"
  have M: "unat RAND_MAX = ?M" by (simp add: RAND_MAX_def)
  have j1: "unat (j + 1) = unat j + 1" using j by (simp add: unat_add32)
  have "unat (RAND_MAX div (j + 1)) = q" by (simp add: unat_div M j1 q_def)
  moreover have "q \<le> ?M" unfolding q_def by (rule div_le_dividend)
  ultimately have d: "unat (1 + RAND_MAX div (j + 1)) = 1 + q" by (simp add: unat_add32)
  have "?M < (unat j + 1) * (1 + q)"
    using dividend_less_times_div [of "unat j + 1" ?M] unfolding q_def by (simp add: algebra_simps)
  hence "unat r < (unat j + 1) * (1 + q)" using r M by (simp add: word_le_nat_alt)
  hence "unat r div (1 + q) < unat j + 1" by (rule less_mult_imp_div_less)
  thus ?thesis by (simp add: word_le_nat_alt unat_div d)
qed

text \<open>A timer fires no later than asked for and at most the given share earlier.\<close>

lemma calc_jitter_range:
  assumes rel: "0 < rel_time" and r: "r \<le> RAND_MAX"
  shows "\<exists>d. calc_jitter now rel_time jitter_pct r = now + d \<and> 0 < d \<and> d \<le> rel_time \<and>
    unat rel_time - unat jitter_pct * unat rel_time div 100 \<le> unat d"
proof (cases "jitter_pct = 0 \<or> jitter_pct > 99 \<or> rel_time > 2 ^ 24")
  case True
  with rel show ?thesis by (auto simp: calc_jitter_def olsr_getTimestamp_def)
next
  case False
  hence p: "unat jitter_pct \<le> 99" and t: "unat rel_time \<le> 2 ^ 24" by (simp_all add: not_less word_le_nat_alt)
  have "unat jitter_pct * unat rel_time \<le> 99 * 2 ^ 24" by (rule mult_le_mono [OF p t])
  moreover have "unat (ucast jitter_pct :: u32) = unat jitter_pct" by (simp add: unsigned_ucast_eq take_bit_eq_mod u8_less [THEN less_le_trans])
  ultimately have j: "unat ((ucast jitter_pct * rel_time) div 100 :: u32) = unat jitter_pct * unat rel_time div 100"
    by (simp add: unat_div unat_mult_lem [THEN iffD1])
  let ?j = "(ucast jitter_pct * rel_time) div 100 :: u32"
  let ?d = "r div (1 + RAND_MAX div (?j + 1))"
  have "unat jitter_pct * unat rel_time div 100 \<le> 99 * unat rel_time div 100" by (intro div_le_mono mult_le_mono1 p)
  hence less: "unat ?j < unat rel_time" using rel unfolding j by (simp add: word_less_nat_alt)
  have d: "unat ?d \<le> unat ?j" using jitter_bound [OF r, of ?j] less t by (simp add: word_le_nat_alt)
  have "unat (rel_time - ?d) = unat rel_time - unat ?d" using d less by (simp add: unat_sub32)
  with d less j have "0 < rel_time - ?d \<and> rel_time - ?d \<le> rel_time \<and> unat rel_time - unat jitter_pct * unat rel_time div 100 \<le> unat (rel_time - ?d)"
    by (simp add: word_less_nat_alt word_le_nat_alt)
  thus ?thesis using False by (auto simp: calc_jitter_def olsr_getTimestamp_def Let_def intro!: exI [of _ "rel_time - ?d"])
qed

section \<open>The wheel\<close>

text \<open>
  A clock value lies ahead of another one if it is reached within 24 days; timers are started for
  half that time at most.
\<close>

definition ahead :: "u32 \<Rightarrow> u32 \<Rightarrow> bool" where
  "ahead base c \<longleftrightarrow> 0 < c - base \<and> c - base < 2 ^ 31"

definition soon :: "u32 \<Rightarrow> u32 \<Rightarrow> bool" where
  "soon base c \<longleftrightarrow> 0 < c - base \<and> c - base < 2 ^ 30"

lemma soon_ahead: "soon base c \<Longrightarrow> ahead base c"
  by (auto simp: soon_def ahead_def word_less_nat_alt)

lemma soon_ahead_before:
  assumes "soon now c" "base \<le> now" "now - base < 2 ^ 30"
  shows "ahead base c"
  using assms u32_less [of base] u32_less [of now] u32_less [of c]
  by (auto simp: ahead_def soon_def word_less_nat_alt word_le_nat_alt unat_sub32 split: if_splits)

lemma ahead_not_due: "ahead now c \<Longrightarrow> \<not> olsr_isTimedOut now c"
  using u32_less [of now] by (auto simp: ahead_def olsr_isTimedOut_def word_less_nat_alt word_le_nat_alt unat_sub32 split: if_splits)

lemma ahead_due:
  assumes "ahead base c" "olsr_isTimedOut now c" "base \<le> now"
  shows "c - base \<le> now - base"
  using assms u32_less [of base] u32_less [of now]
  by (auto simp: ahead_def olsr_isTimedOut_def word_less_nat_alt word_le_nat_alt unat_sub32 split: if_splits)

lemma ahead_later:
  assumes "ahead base c" "\<not> olsr_isTimedOut now c" "base \<le> now" "now - base < 2 ^ 31"
  shows "ahead now c"
  using assms u32_less [of base] u32_less [of now] u32_less [of c]
  by (auto simp: ahead_def olsr_isTimedOut_def word_less_nat_alt word_le_nat_alt unat_sub32 split: if_splits)

definition due :: "'e scheduler_scheme \<Rightarrow> ptr \<Rightarrow> bool" where
  "due s p \<longleftrightarrow> (\<exists>t. timers s p = Some t \<and> olsr_isTimedOut (now_times s) (timer_clock t))"

definition wheel_key :: "'e scheduler_scheme \<Rightarrow> ptr \<Rightarrow> nat option" where
  "wheel_key s p = map_option (\<lambda>t. wheel_slot (timer_clock t)) (timers s p)"

definition timer_ok :: "timer_entry \<Rightarrow> bool" where
  "timer_ok t \<longleftrightarrow> timer_flags t = OLSR_TIMER_RUNNING \<and> timer_random t \<le> RAND_MAX \<and> timer_period t < 2 ^ 30"

text \<open>Every timer hangs in its slot or, while slot \<open>h\<close> is walked, in the temporary list.\<close>

definition wheel_ok :: "nat \<Rightarrow> 'e scheduler_scheme \<Rightarrow> bool" where
  "wheel_ok h s \<longleftrightarrow> bucket_ok ((timer_wheel s)(h := tmp_head_node s @ timer_wheel s h)) (wheel_key s) \<and>
     (\<forall>p t. timers s p = Some t \<longrightarrow> p < timer_next s \<and> timer_ok t) \<and>
     (\<forall>n. random_seq s n \<le> RAND_MAX)"

text \<open>What a function called by a timer may do to the timers while slot \<open>h\<close> is walked.\<close>

definition wheel_step :: "nat \<Rightarrow> 'e scheduler_scheme \<Rightarrow> 'e scheduler_scheme \<Rightarrow> bool" where
  "wheel_step h s s' \<longleftrightarrow> (wheel_ok h s \<longrightarrow> wheel_ok h s') \<and> now_times s' = now_times s \<and> timer_last_run s' = timer_last_run s \<and>
     set (tmp_head_node s') \<subseteq> set (tmp_head_node s) \<and>
     (\<forall>p t. timers s' p = Some t \<longrightarrow> timers s p = Some t \<or> soon (now_times s) (timer_clock t)) \<and>
     (\<forall>p\<in>set (timer_wheel s' h). p \<in> set (timer_wheel s h) \<or> \<not> due s' p)"

lemma step_due: "wheel_step h s s' \<Longrightarrow> due s' p \<Longrightarrow> due s p"
  unfolding wheel_step_def due_def using soon_ahead ahead_not_due by metis

lemma wheel_step_refl [simp]: "wheel_step h s s"
  by (simp add: wheel_step_def)

lemma wheel_step_trans:
  assumes a: "wheel_step h s s1" and b: "wheel_step h s1 s2"
  shows "wheel_step h s s2"
proof -
  have "p \<in> set (timer_wheel s h) \<or> \<not> due s2 p" if "p \<in> set (timer_wheel s2 h)" for p
    using that a b step_due [OF b] unfolding wheel_step_def by blast
  moreover have "timers s p = Some t \<or> soon (now_times s) (timer_clock t)" if "timers s2 p = Some t" for p t
    using that a b unfolding wheel_step_def by metis
  moreover have "(wheel_ok h s \<longrightarrow> wheel_ok h s2) \<and> now_times s2 = now_times s \<and> timer_last_run s2 = timer_last_run s \<and>
     set (tmp_head_node s2) \<subseteq> set (tmp_head_node s)"
    using a b unfolding wheel_step_def by simp blast
  ultimately show ?thesis unfolding wheel_step_def by blast
qed

lemma wheel_step_env: "wheel_step h s (scheduler.more_update f s)"
  by (cases s) (simp add: wheel_step_def wheel_ok_def wheel_key_def [abs_def] due_def scheduler.defs)

section \<open>The operations on timers\<close>

lemma bucket_append: "bucket_ok T key \<Longrightarrow> key p = None \<Longrightarrow> bucket_ok (list_add_before h p T) (key(p \<mapsto> h))"
  unfolding bucket_ok_def list_add_before_def by auto

lemma list_remove_simps [simp]:
  "timers (list_remove p s) = timers s" "now_times (list_remove p s) = now_times s" "timer_last_run (list_remove p s) = timer_last_run s"
  "timer_next (list_remove p s) = timer_next s" "random_seq (list_remove p s) = random_seq s" "random_pos (list_remove p s) = random_pos s"
  "timer_wheel (list_remove p s) = dequeue_elem p (timer_wheel s)"
  "tmp_head_node (list_remove p s) = filter (\<lambda>q. q \<noteq> p) (tmp_head_node s)" "scheduler.more (list_remove p s) = scheduler.more s"
  by (simp_all add: list_remove_def)

lemma removed_wheel:
  "(dequeue_elem p T)(h := filter (\<lambda>q. q \<noteq> p) xs @ dequeue_elem p T h) = dequeue_elem p (T(h := xs @ T h))"
  by (auto simp: dequeue_elem_def fun_eq_iff)

lemma added_wheel: "(list_add_before k p T)(h := xs @ list_add_before k p T h) = list_add_before k p (T(h := xs @ T h))"
  by (auto simp: list_add_before_def fun_eq_iff)

lemma stop_step:
  assumes "timers s p = Some t"
  shows "\<exists>s'. olsr_stop_timer (Some p) s = Some s' \<and> wheel_step h s s' \<and> timers s' = (timers s)(p := None) \<and>
    scheduler.more s' = scheduler.more s \<and> p \<notin> set (tmp_head_node s')"
proof -
  let ?s = "(list_remove p s)\<lparr>timers := (timers s)(p := None)\<rparr>"
  have "wheel_ok h ?s" if "wheel_ok h s"
    using that bucket_dequeue [of "(timer_wheel s)(h := tmp_head_node s @ timer_wheel s h)" "wheel_key s" p]
    by (auto simp: wheel_ok_def removed_wheel wheel_key_def elim: bucket_cong)
  hence "wheel_step h s ?s" by (auto simp: wheel_step_def dequeue_elem_def)
  with assms show ?thesis by (simp add: olsr_stop_timer_def)
qed

text \<open>Hanging a live or new timer into the slot of its new time.\<close>

lemma put_step:
  assumes t: "soon (now_times s) (timer_clock t)" "timer_ok t" and p: "p < n" "timer_next s \<le> n"
    and s': "timers s' = (timers s)(p \<mapsto> t)" "tmp_head_node s' = filter (\<lambda>q. q \<noteq> p) (tmp_head_node s)"
      "timer_wheel s' = list_add_before (wheel_slot (timer_clock t)) p (dequeue_elem p (timer_wheel s))"
      "now_times s' = now_times s" "timer_last_run s' = timer_last_run s" "timer_next s' = n" "random_seq s' = random_seq s"
  shows "wheel_step h s s' \<and> p \<notin> set (tmp_head_node s')"
proof -
  have "wheel_ok h s'" if ok: "wheel_ok h s"
  proof -
    let ?T = "(timer_wheel s)(h := tmp_head_node s @ timer_wheel s h)"
    have "bucket_ok (dequeue_elem p ?T) ((wheel_key s)(p := None))" using ok by (intro bucket_dequeue) (simp add: wheel_ok_def)
    hence "bucket_ok (list_add_before (wheel_slot (timer_clock t)) p (dequeue_elem p ?T)) ((wheel_key s)(p \<mapsto> wheel_slot (timer_clock t)))"
      using bucket_append [of "dequeue_elem p ?T" "(wheel_key s)(p := None)" p] by simp
    hence "bucket_ok ((timer_wheel s')(h := tmp_head_node s' @ timer_wheel s' h)) (wheel_key s')"
      unfolding s' added_wheel removed_wheel by (rule bucket_cong) (simp add: wheel_key_def s')
    moreover have "pa < n \<and> timer_ok ta" if "timers s' pa = Some ta" for pa ta
    proof (cases "pa = p")
      case False
      hence "pa < timer_next s \<and> timer_ok ta" using that ok by (simp add: wheel_ok_def s')
      with p(2) show ?thesis by simp
    qed (use that t(2) p(1) in \<open>simp add: s'\<close>)
    ultimately show ?thesis using ok by (simp add: wheel_ok_def s'(6,7))
  qed
  moreover have "\<not> due s' p" using ahead_not_due [OF soon_ahead [OF t(1)]] by (simp add: due_def s')
  ultimately show ?thesis using t by (auto simp: wheel_step_def s' list_add_before_def dequeue_elem_def)
qed

lemma change_eq:
  fixes rel :: u32 and pct :: u8 and per :: bool
  assumes "timers s p = Some t"
  defines "c \<equiv> calc_jitter (now_times s) rel pct (timer_random t)"
  defines "t' \<equiv> t\<lparr>timer_period := (if per then rel else 0), timer_clock := c, timer_jitter_pct := pct\<rparr>"
  shows "olsr_change_timer (Some p) rel pct per s = Some (s\<lparr>timers := (timers s)(p \<mapsto> t'),
    tmp_head_node := filter (\<lambda>q. q \<noteq> p) (tmp_head_node s), timer_wheel := list_add_before (wheel_slot c) p (dequeue_elem p (timer_wheel s))\<rparr>)"
  using assms(1) by (simp add: olsr_change_timer_def list_remove_def Let_def t'_def c_def)

lemma jitter_soon:
  assumes "0 < rel" "rel < 2 ^ 30" "r \<le> RAND_MAX"
  shows "soon now (calc_jitter now rel pct r)"
proof -
  obtain d where "calc_jitter now rel pct r = now + d" "0 < d" "d \<le> rel" using calc_jitter_range [OF assms(1,3)] by blast
  with assms(2) show ?thesis by (auto simp: soon_def)
qed

lemma change_step:
  assumes ok: "wheel_ok h s" and t: "timers s p = Some t" and rel: "0 < rel" "rel < 2 ^ 30"
  shows "\<exists>s' t'. olsr_change_timer (Some p) rel pct per s = Some s' \<and> wheel_step h s s' \<and> timers s' = (timers s)(p \<mapsto> t') \<and>
    timer_cb t' = timer_cb t \<and> timer_cb_context t' = timer_cb_context t \<and> scheduler.more s' = scheduler.more s \<and>
    timer_period t' = (if per then rel else 0) \<and> p \<notin> set (tmp_head_node s')"
proof -
  have tk: "timer_ok t" "p < timer_next s" using ok t by (auto simp: wheel_ok_def)
  hence a: "soon (now_times s) (calc_jitter (now_times s) rel pct (timer_random t))" using jitter_soon rel by (simp add: timer_ok_def)
  let ?c = "calc_jitter (now_times s) rel pct (timer_random t)"
  let ?t = "t\<lparr>timer_period := (if per then rel else 0), timer_clock := ?c, timer_jitter_pct := pct\<rparr>"
  let ?s = "s\<lparr>timers := (timers s)(p \<mapsto> ?t), tmp_head_node := filter (\<lambda>q. q \<noteq> p) (tmp_head_node s),
    timer_wheel := list_add_before (wheel_slot ?c) p (dequeue_elem p (timer_wheel s))\<rparr>"
  have "timer_ok ?t" using tk(1) rel by (simp add: timer_ok_def)
  hence "wheel_step h s ?s" using put_step [of s ?t p "timer_next s" ?s h] a tk(2) by simp
  thus ?thesis by (intro exI [of _ ?s] exI [of _ ?t]) (simp add: change_eq [OF t])
qed

lemma start_step:
  assumes ok: "wheel_ok h s" and rel: "0 < rel" "rel < 2 ^ 30"
  shows "\<exists>s' t. olsr_start_timer rel pct per cb ctx s = (timer_next s, s') \<and> wheel_step h s s' \<and> timers s (timer_next s) = None \<and>
    timers s' = (timers s)(timer_next s \<mapsto> t) \<and> timer_cb t = cb \<and> timer_cb_context t = ctx \<and> timer_period t = (if per then rel else 0) \<and>
    scheduler.more s' = scheduler.more s"
proof -
  have new: "timers s (timer_next s) = None" using ok by (cases "timers s (timer_next s)") (auto simp: wheel_ok_def)
  have r: "random_seq s (random_pos s) \<le> RAND_MAX" using ok by (simp add: wheel_ok_def)
  have a: "soon (now_times s) (calc_jitter (now_times s) rel pct (random_seq s (random_pos s)))" by (rule jitter_soon [OF rel r])
  have "wheel_key s (timer_next s) = None" using new by (simp add: wheel_key_def)
  hence notin: "timer_next s \<notin> set (tmp_head_node s)" "\<forall>k. timer_next s \<notin> set (timer_wheel s k)"
    using ok unfolding wheel_ok_def bucket_ok_def by (auto split: if_splits) (metis option.distinct(1))+
  hence "filter (\<lambda>q. q \<noteq> timer_next s) (tmp_head_node s) = tmp_head_node s" "dequeue_elem (timer_next s) (timer_wheel s) = timer_wheel s"
    by (auto simp: filter_id_conv dequeue_elem_def fun_eq_iff)
  note removed = this
  let ?c = "calc_jitter (now_times s) rel pct (random_seq s (random_pos s))"
  let ?t = "\<lparr>timer_clock = ?c, timer_period = (if per then rel else 0), timer_jitter_pct = pct, timer_flags = OLSR_TIMER_RUNNING,
    timer_random = random_seq s (random_pos s), timer_cb = cb, timer_cb_context = ctx\<rparr>"
  let ?s = "s\<lparr>random_pos := Suc (random_pos s), timers := (timers s)(timer_next s \<mapsto> ?t), timer_next := timer_next s + 1,
    timer_wheel := list_add_before (wheel_slot ?c) (timer_next s) (timer_wheel s)\<rparr>"
  have "timer_ok ?t" using rel r by (simp add: timer_ok_def)
  hence "wheel_step h s ?s" using put_step [of s ?t "timer_next s" "timer_next s + 1" ?s h] a removed by simp
  thus ?thesis using new by (intro exI [of _ ?s] exI [of _ ?t]) (simp add: olsr_start_timer_def random_def Let_def)
qed

section \<open>Walking the wheel\<close>

lemma moved:
  assumes ok: "wheel_ok h s" and p: "timer_wheel s h = p # ps"
  defines "s2 \<equiv> s\<lparr>timer_wheel := (timer_wheel s)(h := ps), tmp_head_node := p # tmp_head_node s\<rparr>"
  shows "(list_remove p s)\<lparr>tmp_head_node := p # tmp_head_node (list_remove p s)\<rparr> = s2" "wheel_ok h s2" "\<exists>t. timers s p = Some t" "p \<notin> set ps"
proof -
  let ?T = "(timer_wheel s)(h := tmp_head_node s @ timer_wheel s h)"
  have b: "bucket_ok ?T (wheel_key s)" using ok by (simp add: wheel_ok_def)
  have key: "wheel_key s p = Some h" using bucket_okD(1) [OF b, of p h] p by simp
  thus "\<exists>t. timers s p = Some t" by (auto simp: wheel_key_def)
  have d: "distinct (tmp_head_node s @ p # ps)" using bucket_okD(2) [OF b, of h] p by simp
  thus "p \<notin> set ps" by simp
  have other: "p \<notin> set (timer_wheel s k)" if "k \<noteq> h" for k using bucket_okD(1) [OF b, of p k] key that by simp
  have "dequeue_elem p (timer_wheel s) = (timer_wheel s)(h := ps)"
    using d p other by (auto simp: dequeue_elem_def fun_eq_iff filter_id_conv)
  moreover have "filter (\<lambda>q. q \<noteq> p) (tmp_head_node s) = tmp_head_node s" using d by (auto simp: filter_id_conv)
  ultimately show "(list_remove p s)\<lparr>tmp_head_node := p # tmp_head_node (list_remove p s)\<rparr> = s2" by (simp add: list_remove_def s2_def)
  have "bucket_ok (?T(h := p # tmp_head_node s @ ps)) (wheel_key s)"
    using b d p unfolding bucket_ok_def by (auto split: if_splits)
  thus "wheel_ok h s2" using ok by (simp add: wheel_ok_def s2_def wheel_key_def [abs_def])
qed

lemma unat_of_nat32: "n < 2 ^ 32 \<Longrightarrow> unat (of_nat n :: u32) = n"
  by (simp add: unsigned_of_nat take_bit_nat_eq_self)

lemma wheel_slot_mod: "wheel_slot x = unat x mod 1024"
proof -
  have "TIMER_WHEEL_MASK = mask 10" by (simp add: TIMER_WHEEL_MASK_def mask_eq_exp_minus_1)
  hence "wheel_slot x = unat (take_bit 10 x)" by (simp add: wheel_slot_def take_bit_eq_mask)
  also have "\<dots> = take_bit 10 (unat x)" by (rule unsigned_take_bit_eq)
  also have "\<dots> = unat x mod 2 ^ 10" by (rule take_bit_eq_mod)
  finally show ?thesis by simp
qed

lemma wheel_slot_add: "wheel_slot (a + b) = (unat a + unat b) mod 1024"
proof -
  have "unat (a + b) = (unat a + unat b) mod 2 ^ 32" by (simp add: unat_word_ariths)
  thus ?thesis by (simp add: wheel_slot_mod mod_mod_cancel)
qed

lemma slot_hit: "\<exists>j<1024. wheel_slot c = wheel_slot (base + of_nat j)"
proof (intro exI conjI)
  let ?j = "unat (c - base) mod 1024"
  have "unat (of_nat ?j :: u32) = ?j" by (rule unat_of_nat32) (simp add: less_trans [OF mod_less_divisor])
  hence "wheel_slot (base + of_nat ?j) = (unat base + unat (c - base)) mod 1024" by (simp add: wheel_slot_add mod_simps)
  thus "wheel_slot c = wheel_slot (base + of_nat ?j)" using wheel_slot_add [of base "c - base"] by simp
qed simp

text \<open>Nothing is due that was not due before.\<close>

definition later :: "'e scheduler_scheme \<Rightarrow> 'e scheduler_scheme \<Rightarrow> bool" where
  "later s s' \<longleftrightarrow> now_times s' = now_times s \<and> timer_last_run s' = timer_last_run s \<and>
     (\<forall>p t. timers s' p = Some t \<longrightarrow> timers s p = Some t \<or> ahead (now_times s) (timer_clock t))"

definition due_in :: "nat \<Rightarrow> 'e scheduler_scheme \<Rightarrow> ptr set" where
  "due_in h s = {p \<in> set (timer_wheel s h). due s p}"

text \<open>
  What the walk needs from the functions it calls, for clients with the invariant \<open>inv\<close>: the
  invariant is about timers and the state of the client only; called for a timer that is due, a
  function returns, does to the timers what \<open>wheel_step\<close> allows, leaves the timer it is called for
  alone, and establishes the invariant for the time when that timer is gone or restarted.
\<close>

locale timer_client =
  fixes call :: "nat \<Rightarrow> ptr \<Rightarrow> 'e scheduler_scheme \<Rightarrow> 'e scheduler_scheme option"
    and inv :: "'e scheduler_scheme \<Rightarrow> bool"
  assumes frame: "inv s \<Longrightarrow> timers s' = timers s \<Longrightarrow> scheduler.more s' = scheduler.more s \<Longrightarrow> now_times s' = now_times s \<Longrightarrow> inv s'"
    and called: "wheel_ok h s \<Longrightarrow> inv s \<Longrightarrow> timers s p = Some t \<Longrightarrow> due s p \<Longrightarrow>
      \<exists>s'. call (timer_cb t) (timer_cb_context t) s = Some s' \<and> wheel_step h s s' \<and> timers s' p = Some t \<and>
        (timer_period t = 0 \<longrightarrow> inv (s'\<lparr>timers := (timers s')(p := None)\<rparr>)) \<and>
        (timer_period t \<noteq> 0 \<longrightarrow> (\<forall>t'. timer_cb t' = timer_cb t \<longrightarrow> timer_cb_context t' = timer_cb_context t \<longrightarrow>
           inv (s'\<lparr>timers := (timers s')(p \<mapsto> t')\<rparr>)))"
begin

text \<open>One timer: it leaves the slot, and if it is due it is gone or ahead afterwards.\<close>

lemma fire_ok:
  assumes ok: "wheel_ok h s" and inv: "inv s" and t: "timers s p = Some t" and due: "due s p"
  shows "\<exists>s'. Option.bind (call (timer_cb t) (timer_cb_context t) s) (\<lambda>s3. Option.bind (timers s3 p) (\<lambda>timer'.
      if timer_flags timer' AND OLSR_TIMER_RUNNING = 0 then Some s3
      else if timer_period timer' \<noteq> 0 then
        (let (r, s4) = random s3
         in olsr_change_timer (Some p) (timer_period timer') (timer_jitter_pct timer') True
              (s4\<lparr>timers := (timers s4)(p \<mapsto> timer'\<lparr>timer_random := r\<rparr>)\<rparr>))
      else olsr_stop_timer (Some p) s3)) = Some s' \<and> wheel_step h s s' \<and> inv s' \<and> p \<notin> set (tmp_head_node s')"
proof -
  have tk: "timer_ok t" using ok t by (auto simp: wheel_ok_def)
  hence run: "timer_flags t AND OLSR_TIMER_RUNNING \<noteq> 0" by (simp add: timer_ok_def OLSR_TIMER_RUNNING_def)
  obtain s3 where s3: "call (timer_cb t) (timer_cb_context t) s = Some s3" "wheel_step h s s3" "timers s3 p = Some t"
    "timer_period t = 0 \<longrightarrow> inv (s3\<lparr>timers := (timers s3)(p := None)\<rparr>)"
    "timer_period t \<noteq> 0 \<longrightarrow> (\<forall>t'. timer_cb t' = timer_cb t \<longrightarrow> timer_cb_context t' = timer_cb_context t \<longrightarrow>
           inv (s3\<lparr>timers := (timers s3)(p \<mapsto> t')\<rparr>))"
    using called [OF ok inv t due] by blast
  have ok3: "wheel_ok h s3" using s3(2) ok by (simp add: wheel_step_def)
  show ?thesis
  proof (cases "timer_period t = 0")
    case True
    obtain s' where s': "olsr_stop_timer (Some p) s3 = Some s'" "wheel_step h s3 s'" "timers s' = (timers s3)(p := None)"
      "scheduler.more s' = scheduler.more s3" "p \<notin> set (tmp_head_node s')"
      using stop_step [OF s3(3), of h] by blast
    have "now_times s' = now_times s3" using s'(2) by (simp add: wheel_step_def)
    with frame [of "s3\<lparr>timers := (timers s3)(p := None)\<rparr>" s'] s3(4) True s' have "inv s'" by simp
    with s' s3 run True wheel_step_trans [OF s3(2) s'(2)] show ?thesis by simp
  next
    case False
    define r where "r = random_seq s3 (random_pos s3)"
    let ?s = "s3\<lparr>random_pos := Suc (random_pos s3), timers := (timers s3)(p \<mapsto> t\<lparr>timer_random := r\<rparr>)\<rparr>"
    have r: "r \<le> RAND_MAX" using ok3 by (simp add: r_def wheel_ok_def)
    have rel: "0 < timer_period t" "timer_period t < 2 ^ 30" using tk False by (simp_all add: timer_ok_def word_gt_0)
    let ?c = "calc_jitter (now_times s3) (timer_period t) (timer_jitter_pct t) r"
    let ?t = "t\<lparr>timer_random := r, timer_clock := ?c\<rparr>"
    let ?s' = "?s\<lparr>timers := (timers s3)(p \<mapsto> ?t), tmp_head_node := filter (\<lambda>q. q \<noteq> p) (tmp_head_node s3),
      timer_wheel := list_add_before (wheel_slot ?c) p (dequeue_elem p (timer_wheel s3))\<rparr>"
    have "timers ?s p = Some (t\<lparr>timer_random := r\<rparr>)" by simp
    from change_eq [OF this, of "timer_period t" "timer_jitter_pct t" True]
    have c: "olsr_change_timer (Some p) (timer_period t) (timer_jitter_pct t) True ?s = Some ?s'" by simp
    have "timer_ok ?t" using tk r by (simp add: timer_ok_def)
    moreover have "p < timer_next s3" using ok3 s3(3) by (auto simp: wheel_ok_def)
    ultimately have w: "wheel_step h s3 ?s' \<and> p \<notin> set (tmp_head_node ?s')"
      using put_step [of s3 ?t p "timer_next s3" ?s' h] jitter_soon [OF rel r] by simp
    have "inv (s3\<lparr>timers := (timers s3)(p \<mapsto> ?t)\<rparr>)" using s3(5) False by simp
    hence "inv ?s'" by (rule frame) simp_all
    with w c s3 run False wheel_step_trans [OF s3(2)] show ?thesis by (auto simp: random_def r_def Let_def)
  qed
qed

lemma walk_timer_ok:
  assumes ok: "wheel_ok h s" and inv: "inv s" and p: "timer_wheel s h = p # ps" and tmp: "\<forall>q\<in>set (tmp_head_node s). \<not> due s q"
  shows "\<exists>s'. walk_timer call p s = Some s' \<and> wheel_ok h s' \<and> inv s' \<and> later s s' \<and> (\<forall>q\<in>set (tmp_head_node s'). \<not> due s' q) \<and>
    ((card (due_in h s'), length (timer_wheel s' h)), (card (due_in h s), length (timer_wheel s h))) \<in> less_than <*lex*> less_than"
proof -
  let ?s = "s\<lparr>timer_wheel := (timer_wheel s)(h := ps), tmp_head_node := p # tmp_head_node s\<rparr>"
  note m = moved [OF ok p]
  obtain t where t: "timers s p = Some t" using m(3) by blast
  have inv2: "inv ?s" by (rule frame [OF inv]) simp_all
  have due2: "due ?s = due s" by (simp add: due_def [abs_def])
  show ?thesis
  proof (cases "due s p")
    case False
    hence "walk_timer call p s = Some ?s" using t by (simp add: walk_timer_def m(1) due_def Let_def del: list_remove_simps(8))
    moreover have "due_in h ?s = due_in h s" using False p due2 by (auto simp: due_in_def)
    ultimately show ?thesis using m(2) inv2 tmp False p due2 by (auto simp: later_def)
  next
    case True
    hence t2: "timers ?s p = Some t" "due ?s p" using t due2 by simp_all
    obtain s' where s': "walk_timer call p s = Some s'" "wheel_step h ?s s'" "inv s'" "p \<notin> set (tmp_head_node s')"
      using fire_ok [OF m(2) inv2 t2] True t
      by (auto simp: walk_timer_def m(1) due_def Let_def simp del: list_remove_simps(8))
    have sub: "due_in h s' \<subseteq> due_in h s - {p}"
      using s'(2) m(4) p step_due [OF s'(2)] due2 by (auto simp: due_in_def wheel_step_def)
    have "p \<in> due_in h s" using True p by (simp add: due_in_def)
    hence "card (due_in h s') < card (due_in h s)"
      by (intro psubset_card_mono) (use sub in \<open>auto simp: due_in_def\<close>)
    moreover have "\<forall>q\<in>set (tmp_head_node s'). \<not> due s' q"
      using s'(2,4) tmp step_due [OF s'(2)] due2 by (auto simp: wheel_step_def)
    moreover have "later s s'" using s'(2) soon_ahead unfolding wheel_step_def later_def by simp metis
    ultimately show ?thesis using s' m(2) by (auto simp: wheel_step_def)
  qed
qed

lemma later_trans: "later s s1 \<Longrightarrow> later s1 s2 \<Longrightarrow> later s s2"
  unfolding later_def by metis

lemma later_due: "later s s' \<Longrightarrow> due s' p \<Longrightarrow> due s p \<and> timers s p = timers s' p"
  unfolding later_def due_def using ahead_not_due by metis

lemma walk_slot_ok:
  "wheel_ok h s \<Longrightarrow> inv s \<Longrightarrow> \<forall>q\<in>set (tmp_head_node s). \<not> due s q \<Longrightarrow>
   \<exists>s'. walk_slot call h s = Some s' \<and> wheel_ok h s' \<and> inv s' \<and> later s s' \<and> timer_wheel s' h = [] \<and>
     (\<forall>q\<in>set (tmp_head_node s'). \<not> due s' q)"
proof (induction s rule: wf_induct_rule [OF wf_inv_image [OF wf_lex_prod [OF wf_less_than wf_less_than],
      where f = "\<lambda>s. (card (due_in h s), length (timer_wheel s h))"]])
  case (1 s)
  show ?case
  proof (cases "timer_wheel s h")
    case Nil
    with 1 show ?thesis by (simp add: walk_slot.simps later_def)
  next
    case (Cons p ps)
    obtain s1 where s1: "walk_timer call p s = Some s1" "wheel_ok h s1" "inv s1" "later s s1" "\<forall>q\<in>set (tmp_head_node s1). \<not> due s1 q"
      "((card (due_in h s1), length (timer_wheel s1 h)), (card (due_in h s), length (timer_wheel s h))) \<in> less_than <*lex*> less_than"
      using walk_timer_ok [OF 1(2,3) Cons 1(4)] by blast
    have "(s1, s) \<in> inv_image (less_than <*lex*> less_than) (\<lambda>s. (card (due_in h s), length (timer_wheel s h)))"
      using s1(6) by simp
    from 1(1) [OF this s1(2,3,5)] obtain s' where s': "walk_slot call h s1 = Some s'" "wheel_ok h s'" "inv s'" "later s1 s'" "timer_wheel s' h = []"
      "\<forall>q\<in>set (tmp_head_node s'). \<not> due s' q" by blast
    have "walk_slot call h s = Some s'" using s1(1) s'(1) Cons by (simp add: walk_slot.simps [of call h s])
    with s' later_trans [OF s1(4) s'(4)] show ?thesis by blast
  qed
qed

text \<open>Between two slots every timer is in the wheel.\<close>

lemma visit_ok:
  assumes ok: "wheel_ok h s" and tmp: "tmp_head_node s = []" and inv: "inv s"
  shows "\<exists>s1. walk_slot call h (s\<lparr>tmp_head_node := []\<rparr>) = Some s1 \<and> wheel_ok k (list_merge h s1) \<and> tmp_head_node (list_merge h s1) = [] \<and>
    inv (list_merge h s1) \<and> later s (list_merge h s1) \<and> (\<forall>p t. due (list_merge h s1) p \<longrightarrow> timers (list_merge h s1) p = Some t \<longrightarrow> wheel_slot (timer_clock t) \<noteq> h)"
proof -
  have s: "s\<lparr>tmp_head_node := []\<rparr> = s" using tmp by simp
  obtain s1 where s1: "walk_slot call h s = Some s1" "wheel_ok h s1" "inv s1" "later s s1" "timer_wheel s1 h = []" "\<forall>q\<in>set (tmp_head_node s1). \<not> due s1 q"
    using walk_slot_ok [OF ok inv] tmp by auto
  let ?m = "list_merge h s1"
  have m: "timers ?m = timers s1" "now_times ?m = now_times s1" "scheduler.more ?m = scheduler.more s1" "tmp_head_node ?m = []"
    by (simp_all add: list_merge_def)
  have "(timer_wheel ?m)(k := tmp_head_node ?m @ timer_wheel ?m k) = (timer_wheel s1)(h := tmp_head_node s1 @ timer_wheel s1 h)"
    by (auto simp: list_merge_def fun_eq_iff)
  hence w: "wheel_ok k ?m" using s1(2) unfolding wheel_ok_def by (simp add: m(1) list_merge_def wheel_key_def [abs_def])
  have "wheel_slot (timer_clock t) \<noteq> h" if "due ?m p" "timers ?m p = Some t" for p t
  proof
    assume "wheel_slot (timer_clock t) = h"
    hence "wheel_key s1 p = Some h" using that(2) by (simp add: wheel_key_def m)
    moreover have "bucket_ok ((timer_wheel s1)(h := tmp_head_node s1 @ timer_wheel s1 h)) (wheel_key s1)" using s1(2) by (simp add: wheel_ok_def)
    ultimately have "p \<in> set (tmp_head_node s1)" using bucket_okD(1) [of _ "wheel_key s1" p h] s1(5) by fastforce
    moreover have "due s1 p" using that(1) by (simp add: due_def m)
    ultimately show False using s1(6) by blast
  qed
  moreover have "inv ?m" by (rule frame [OF s1(3) m(1,3,2)])
  moreover have "later s ?m" using s1(4) by (simp add: later_def m list_merge_def)
  ultimately show ?thesis using s1(1) w m(4) s by auto
qed

text \<open>\<open>k\<close> slots have been walked, beginning with that of the clock value \<open>base\<close>.\<close>

lemma walk_slots_ok:
  "wheel_ok h s \<Longrightarrow> tmp_head_node s = [] \<Longrightarrow> inv s \<Longrightarrow> timer_last_run s = base + of_nat k \<Longrightarrow> base \<le> now_times s \<Longrightarrow>
   \<forall>p t. due s p \<longrightarrow> timers s p = Some t \<longrightarrow> ahead base (timer_clock t) \<and> (\<forall>j<k. wheel_slot (timer_clock t) \<noteq> wheel_slot (base + of_nat j)) \<Longrightarrow>
   k + n = TIMER_WHEEL_SLOTS \<Longrightarrow>
   \<exists>s'. walk_slots call n s = Some s' \<and> wheel_ok h s' \<and> tmp_head_node s' = [] \<and> inv s' \<and> now_times s' = now_times s \<and>
     (\<forall>p t. timers s' p = Some t \<longrightarrow> timers s p = Some t \<or> ahead (now_times s) (timer_clock t)) \<and> (\<forall>p. \<not> due s' p)"
proof (induction n arbitrary: s k)
  case 0
  have "\<not> due s p" for p
  proof
    assume d: "due s p"
    then obtain t where t: "timers s p = Some t" by (auto simp: due_def)
    obtain j where "j < 1024" "wheel_slot (timer_clock t) = wheel_slot (base + of_nat j)" using slot_hit by blast
    with 0(6,7) d t show False by (simp add: TIMER_WHEEL_SLOTS_def)
  qed
  with 0 show ?case by simp
next
  case (Suc n)
  show ?case
  proof (cases "timer_last_run s \<le> now_times s")
    case True
    let ?h = "wheel_slot (timer_last_run s)"
    have okh: "wheel_ok ?h s" using Suc.prems(1,2) by (simp add: wheel_ok_def)
    obtain s1 where s1: "walk_slot call ?h (s\<lparr>tmp_head_node := []\<rparr>) = Some s1" "wheel_ok h (list_merge ?h s1)" "tmp_head_node (list_merge ?h s1) = []"
      "inv (list_merge ?h s1)" "later s (list_merge ?h s1)"
      "\<forall>p t. due (list_merge ?h s1) p \<longrightarrow> timers (list_merge ?h s1) p = Some t \<longrightarrow> wheel_slot (timer_clock t) \<noteq> ?h"
      using visit_ok [OF okh Suc.prems(2,3), of h] by blast
    let ?s = "list_merge ?h s1\<lparr>timer_last_run := timer_last_run (list_merge ?h s1) + 1\<rparr>"
    have l: "now_times ?s = now_times s" "timer_last_run (list_merge ?h s1) = timer_last_run s" using s1(5) by (simp_all add: later_def)
    have dm: "due ?s = due (list_merge ?h s1)" by (simp add: due_def [abs_def])
    hence due: "due ?s p \<Longrightarrow> due s p \<and> timers s p = timers ?s p" for p using later_due [OF s1(5), of p] by simp
    have "\<exists>s'. walk_slots call n ?s = Some s' \<and> wheel_ok h s' \<and> tmp_head_node s' = [] \<and> inv s' \<and> now_times s' = now_times ?s \<and>
       (\<forall>p t. timers s' p = Some t \<longrightarrow> timers ?s p = Some t \<or> ahead (now_times ?s) (timer_clock t)) \<and> (\<forall>p. \<not> due s' p)"
    proof (rule Suc.IH [of _ "Suc k"])
      show "inv ?s" by (rule frame [OF s1(4)]) simp_all
      show "wheel_ok h ?s" using s1(2) by (simp add: wheel_ok_def wheel_key_def [abs_def])
      show "\<forall>p t. due ?s p \<longrightarrow> timers ?s p = Some t \<longrightarrow> ahead base (timer_clock t) \<and> (\<forall>j<Suc k. wheel_slot (timer_clock t) \<noteq> wheel_slot (base + of_nat j))"
      proof (intro allI impI)
        fix p t assume a: "due ?s p" "timers ?s p = Some t"
        hence "due s p" "timers s p = Some t" using due [OF a(1)] by simp_all
        moreover have "wheel_slot (timer_clock t) \<noteq> ?h" using s1(6) a dm by simp
        ultimately show "ahead base (timer_clock t) \<and> (\<forall>j<Suc k. wheel_slot (timer_clock t) \<noteq> wheel_slot (base + of_nat j))"
          using Suc.prems(4,6) less_Suc_eq by metis
      qed
    qed (use s1(3) l Suc.prems in simp_all)
    then obtain s' where s': "walk_slots call n ?s = Some s'" "wheel_ok h s'" "tmp_head_node s' = []" "inv s'" "now_times s' = now_times ?s"
       "\<forall>p t. timers s' p = Some t \<longrightarrow> timers ?s p = Some t \<or> ahead (now_times ?s) (timer_clock t)" "\<forall>p. \<not> due s' p" by blast
    have "walk_slots call (Suc n) s = Some s'" using True s1(1) s'(1) by (simp add: Let_def)
    moreover have "\<forall>p t. timers s' p = Some t \<longrightarrow> timers s p = Some t \<or> ahead (now_times s) (timer_clock t)"
      using s'(6) s1(5) l(1) unfolding later_def by simp metis
    ultimately show ?thesis using s' l(1) by metis
  next
    case False
    have "\<not> due s p" for p
    proof
      assume d: "due s p"
      then obtain t where t: "timers s p = Some t" "olsr_isTimedOut (now_times s) (timer_clock t)" by (auto simp: due_def)
      let ?m = "unat (timer_clock t - base)"
      have a: "ahead base (timer_clock t)" "\<forall>j<k. wheel_slot (timer_clock t) \<noteq> wheel_slot (base + of_nat j)" using Suc.prems(6) d t by auto
      have le: "unat base + ?m \<le> unat (now_times s)"
        using ahead_due [OF a(1) t(2) Suc.prems(5)] Suc.prems(5) by (simp add: word_le_nat_alt unat_sub32)
      have "?m < k"
      proof (rule ccontr)
        assume "\<not> ?m < k"
        hence "unat base + k \<le> unat (now_times s)" using le by simp
        moreover from this have "k < 2 ^ 32" using u32_less [of "now_times s"] by linarith
        ultimately have "unat (base + of_nat k) = unat base + k" using u32_less [of "now_times s"]
          by (simp add: unat_add32 unat_of_nat32)
        with \<open>unat base + k \<le> unat (now_times s)\<close> False Suc.prems(4) show False by (simp add: word_le_nat_alt)
      qed
      moreover have "base + of_nat ?m = timer_clock t" by simp
      ultimately show False using a(2) by metis
    qed
    with False Suc.prems show ?thesis by simp
  qed
qed

lemma walk_timers_ok:
  assumes "wheel_ok h s" "tmp_head_node s = []" "inv s" "timer_last_run s \<le> now_times s" "now_times s - timer_last_run s < 2 ^ 31"
    and "\<forall>p t. timers s p = Some t \<longrightarrow> ahead (timer_last_run s) (timer_clock t)"
  shows "\<exists>s'. walk_timers call s = Some s' \<and> wheel_ok h s' \<and> tmp_head_node s' = [] \<and> inv s' \<and>
    now_times s' = now_times s \<and> timer_last_run s' = now_times s \<and> (\<forall>p t. timers s' p = Some t \<longrightarrow> ahead (now_times s) (timer_clock t))"
proof -
  obtain s' where s': "walk_slots call TIMER_WHEEL_SLOTS s = Some s'" "wheel_ok h s'" "tmp_head_node s' = []" "inv s'" "now_times s' = now_times s"
     "\<forall>p t. timers s' p = Some t \<longrightarrow> timers s p = Some t \<or> ahead (now_times s) (timer_clock t)" "\<forall>p. \<not> due s' p"
    using walk_slots_ok [OF assms(1-3), of "timer_last_run s" 0 TIMER_WHEEL_SLOTS] assms(4,6) by auto
  let ?s = "s'\<lparr>timer_last_run := now_times s'\<rparr>"
  have "inv ?s" by (rule frame [OF s'(4)]) simp_all
  moreover have "wheel_ok h ?s" using s'(2) by (simp add: wheel_ok_def wheel_key_def [abs_def])
  moreover have "ahead (now_times s) (timer_clock t)" if "timers s' p = Some t" for p t
    using that s'(5-7) assms(4-6) ahead_later [of "timer_last_run s" "timer_clock t" "now_times s"] by (metis due_def)
  ultimately show ?thesis using s'(1,3,5) by (simp add: walk_timers_def)
qed

end

end
