(* ===== verification/Olsr_Mpr_Selector.thy ===== *)
theory Olsr_Mpr_Selector
  imports Olsr_Scheduler
begin

text \<open>
  The set of neighbours that chose this node as a relay (\<^verbatim>\<open>src/mpr_selector_set.c\<close>), together with
  the timers that remove its entries: the set is a client of the timer wheel, its interpretation of
  the locale \<open>timer_client\<close> shows that entries disappear when, and only when, their time is over.
\<close>

section \<open>Data\<close>

record mpr_selector =
  MS_main_addr :: olsr_ip_addr
  MS_timer :: "ptr option"

record mprs_set = scheduler +
  mprs_list :: "ptr list"
  mpr_selectors :: "ptr \<Rightarrow> mpr_selector option"
  mprs_next :: ptr
  mprs_link_changes :: bool
  local_ansn :: u16

definition OLSR_MPR_SEL_JITTER :: u8 where "OLSR_MPR_SEL_JITTER = 5"

text \<open>The only function the timers of this component call, by the number that stands for its address.\<close>

definition EXPIRE_MPR_SEL :: nat where "EXPIRE_MPR_SEL = 0"

section \<open>Operations\<close>

definition olsr_init_mprs_set :: "mprs_set \<Rightarrow> mprs_set" where
  "olsr_init_mprs_set s = s\<lparr>local_ansn := 0, mprs_list := []\<rparr>"

definition get_local_ansn :: "mprs_set \<Rightarrow> u16" where
  "get_local_ansn s = local_ansn s"

definition increase_local_ansn :: "mprs_set \<Rightarrow> mprs_set" where
  "increase_local_ansn s = s\<lparr>local_ansn := local_ansn s + 1\<rparr>"

definition olsr_expire_mpr_sel_entry :: "ptr \<Rightarrow> mprs_set \<Rightarrow> mprs_set option" where
  "olsr_expire_mpr_sel_entry p s = do {
     mpr_sel \<leftarrow> mpr_selectors s p;
     Some (s\<lparr>mprs_list := filter (\<lambda>q. q \<noteq> p) (mprs_list s), mpr_selectors := (mpr_selectors s)(p := None), mprs_link_changes := True\<rparr>)
   }"

definition mprs_call :: "nat \<Rightarrow> ptr \<Rightarrow> mprs_set \<Rightarrow> mprs_set option" where
  "mprs_call cb p s = (if cb = EXPIRE_MPR_SEL then olsr_expire_mpr_sel_entry p s else None)"

definition olsr_set_mpr_sel_timer :: "ptr \<Rightarrow> olsr_reltime \<Rightarrow> mprs_set \<Rightarrow> mprs_set option" where
  "olsr_set_mpr_sel_timer p rel_timer s = do {
     mpr_sel \<leftarrow> mpr_selectors s p;
     (tm, s1) \<leftarrow> olsr_set_timer (MS_timer mpr_sel) rel_timer OLSR_MPR_SEL_JITTER False EXPIRE_MPR_SEL p s;
     Some (s1\<lparr>mpr_selectors := (mpr_selectors s1)(p \<mapsto> mpr_sel\<lparr>MS_timer := tm\<rparr>)\<rparr>)
   }"

definition olsr_add_mpr_selector :: "olsr_ip_addr \<Rightarrow> olsr_reltime \<Rightarrow> mprs_set \<Rightarrow> (ptr \<times> mprs_set) option" where
  "olsr_add_mpr_selector a vtime s = do {
     let p = mprs_next s;
     let s1 = s\<lparr>mpr_selectors := (mpr_selectors s)(p \<mapsto> \<lparr>MS_main_addr = a, MS_timer = None\<rparr>), mprs_next := p + 1\<rparr>;
     s2 \<leftarrow> olsr_set_mpr_sel_timer p vtime s1;
     Some (p, s2\<lparr>mprs_list := p # mprs_list s2\<rparr>)
   }"

definition olsr_lookup_mprs_set :: "olsr_ip_addr \<Rightarrow> mprs_set \<Rightarrow> ptr option option" where
  "olsr_lookup_mprs_set a s = findM (\<lambda>p. map_option (\<lambda>e. ipequal (MS_main_addr e) a) (mpr_selectors s p)) (mprs_list s)"

definition olsr_update_mprs_set :: "olsr_ip_addr \<Rightarrow> olsr_reltime \<Rightarrow> mprs_set \<Rightarrow> (int \<times> mprs_set) option" where
  "olsr_update_mprs_set a vtime s = do {
     mprs \<leftarrow> olsr_lookup_mprs_set a s;
     case mprs of
       None \<Rightarrow> do {
         (p, s1) \<leftarrow> olsr_add_mpr_selector a vtime s;
         Some (1, s1\<lparr>mprs_link_changes := True\<rparr>)
       }
     | Some p \<Rightarrow> map_option (Pair 0) (olsr_set_mpr_sel_timer p vtime s)
   }"

text \<open>
  The part of the main loop that concerns the set: timers are walked, and a change of links makes
  the next TC message a new one. \<open>olsr_process_changes\<close> runs in between and does not touch it.
\<close>

definition mprs_tick :: "mprs_set \<Rightarrow> mprs_set option" where
  "mprs_tick s = do {
     s1 \<leftarrow> walk_timers mprs_call s;
     Some (if mprs_link_changes s1 then (increase_local_ansn s1)\<lparr>mprs_link_changes := False\<rparr> else s1)
   }"

section \<open>The invariant\<close>

definition mprs_core :: "mprs_set \<Rightarrow> bool" where
  "mprs_core s \<longleftrightarrow>
     (\<forall>p e. mpr_selectors s p = Some e \<longrightarrow> p < mprs_next s) \<and>
     (\<forall>p q e f. mpr_selectors s p = Some e \<longrightarrow> mpr_selectors s q = Some f \<longrightarrow> MS_main_addr e = MS_main_addr f \<longrightarrow> p = q) \<and>
     (\<forall>p e q. mpr_selectors s p = Some e \<longrightarrow> MS_timer e = Some q \<longrightarrow> (\<exists>t. timers s q = Some t \<and> timer_cb_context t = p)) \<and>
     (\<forall>q t. timers s q = Some t \<longrightarrow> timer_cb t = EXPIRE_MPR_SEL \<and> timer_period t = 0 \<and>
        (\<exists>e. mpr_selectors s (timer_cb_context t) = Some e \<and> MS_timer e = Some q))"

definition mprs_ok :: "mprs_set \<Rightarrow> bool" where
  "mprs_ok s \<longleftrightarrow> mprs_core s \<and> distinct (mprs_list s) \<and> set (mprs_list s) = dom (mpr_selectors s)"

lemma mprs_more:
  assumes "scheduler.more s' = scheduler.more (s :: mprs_set)"
  shows "mprs_list s' = mprs_list s" "mpr_selectors s' = mpr_selectors s" "mprs_next s' = mprs_next s"
    "mprs_link_changes s' = mprs_link_changes s" "local_ansn s' = local_ansn s"
  using assms by (cases s; cases s'; simp)+

lemma mprs_entryD: "mprs_core s \<Longrightarrow> mpr_selectors s p = Some e \<Longrightarrow> MS_timer e = Some q \<Longrightarrow> \<exists>t. timers s q = Some t \<and> timer_cb_context t = p"
  unfolding mprs_core_def by blast

lemma mprs_timerD: "mprs_core s \<Longrightarrow> timers s q = Some t \<Longrightarrow> timer_cb t = EXPIRE_MPR_SEL \<and> timer_period t = 0 \<and>
    (\<exists>e. mpr_selectors s (timer_cb_context t) = Some e \<and> MS_timer e = Some q)"
  unfolding mprs_core_def by blast

text \<open>Relative to the state before the walk: only entries and timers that are due have gone.\<close>

definition mprs_since :: "mprs_set \<Rightarrow> mprs_set \<Rightarrow> bool" where
  "mprs_since s0 s \<longleftrightarrow> mprs_ok s \<and> now_times s = now_times s0 \<and> mprs_next s = mprs_next s0 \<and> local_ansn s = local_ansn s0 \<and>
     (\<forall>q. timers s q = timers s0 q \<or> timers s q = None \<and> due s0 q) \<and>
     (\<forall>p. mpr_selectors s p = mpr_selectors s0 p \<or>
        mpr_selectors s p = None \<and> (\<exists>e q. mpr_selectors s0 p = Some e \<and> MS_timer e = Some q \<and> due s0 q)) \<and>
     (mprs_link_changes s \<longleftrightarrow> mprs_link_changes s0 \<or> mpr_selectors s \<noteq> mpr_selectors s0)"

lemma expire_step:
  "wheel_step h s (s\<lparr>mprs_list := l, mpr_selectors := m, mprs_link_changes := b\<rparr>)"
  by (simp add: wheel_step_def wheel_ok_def wheel_key_def [abs_def] due_def)

lemma selectors_step: "wheel_step h s (s\<lparr>mpr_selectors := m\<rparr>)" "wheel_step h s (s\<lparr>mpr_selectors := m, mprs_next := n\<rparr>)"
  "wheel_step h s (s\<lparr>mprs_list := l\<rparr>)" "wheel_step h s (s\<lparr>mprs_link_changes := b\<rparr>)"
  by (simp_all add: wheel_step_def wheel_ok_def wheel_key_def [abs_def] due_def)

lemma mprs_called:
  assumes inv: "mprs_since s0 s" and t: "timers s p = Some t" and due: "due s p"
  shows "\<exists>s'. mprs_call (timer_cb t) (timer_cb_context t) s = Some s' \<and> wheel_step h s s' \<and> timers s' p = Some t \<and>
    timer_period t = 0 \<and> mprs_since s0 (s'\<lparr>timers := (timers s')(p := None)\<rparr>)"
proof -
  have ok: "mprs_core s" "mprs_ok s" using inv by (simp_all add: mprs_since_def mprs_ok_def)
  let ?c = "timer_cb_context t"
  obtain e where e: "mpr_selectors s ?c = Some e" "MS_timer e = Some p" "timer_cb t = EXPIRE_MPR_SEL" "timer_period t = 0"
    using mprs_timerD [OF ok(1) t] by blast
  let ?s = "s\<lparr>mprs_list := filter (\<lambda>q. q \<noteq> ?c) (mprs_list s), mpr_selectors := (mpr_selectors s)(?c := None), mprs_link_changes := True\<rparr>"
  have c: "mprs_call (timer_cb t) ?c s = Some ?s" using e by (simp add: mprs_call_def olsr_expire_mpr_sel_entry_def)
  have "timers s p = timers s0 p \<or> timers s p = None \<and> due s0 p" "now_times s = now_times s0" using inv unfolding mprs_since_def by blast+
  hence t0: "timers s0 p = Some t" "due s0 p" using t due by (auto simp: due_def)
  have e0: "mpr_selectors s0 ?c = Some e" using inv e(1) unfolding mprs_since_def by (metis option.distinct(1))
  have "mprs_core (?s\<lparr>timers := (timers s)(p := None)\<rparr>)"
    unfolding mprs_core_def
  proof (intro conjI allI impI)
    fix q t' assume "timers (?s\<lparr>timers := (timers s)(p := None)\<rparr>) q = Some t'"
    hence q: "q \<noteq> p" "timers s q = Some t'" by (auto split: if_splits)
    obtain e' where "timer_cb t' = EXPIRE_MPR_SEL" "timer_period t' = 0" "mpr_selectors s (timer_cb_context t') = Some e'" "MS_timer e' = Some q"
      using mprs_timerD [OF ok(1) q(2)] by blast
    moreover from this q(1) e have "timer_cb_context t' \<noteq> ?c" by auto
    ultimately show "timer_cb t' = EXPIRE_MPR_SEL" "timer_period t' = 0"
      "\<exists>e. mpr_selectors (?s\<lparr>timers := (timers s)(p := None)\<rparr>) (timer_cb_context t') = Some e \<and> MS_timer e = Some q" by auto
  next
    fix p' e' q assume a: "mpr_selectors (?s\<lparr>timers := (timers s)(p := None)\<rparr>) p' = Some e'" "MS_timer e' = Some q"
    hence p': "p' \<noteq> ?c" "mpr_selectors s p' = Some e'" by (auto split: if_splits)
    then obtain t' where t': "timers s q = Some t'" "timer_cb_context t' = p'" using mprs_entryD [OF ok(1) p'(2) a(2)] by blast
    with t p'(1) have "q \<noteq> p" by auto
    with t' show "\<exists>t. timers (?s\<lparr>timers := (timers s)(p := None)\<rparr>) q = Some t \<and> timer_cb_context t = p'" by simp
  qed (use ok(1) in \<open>auto simp: mprs_core_def split: if_splits\<close>)
  hence "mprs_ok (?s\<lparr>timers := (timers s)(p := None)\<rparr>)" using ok(2) by (auto simp: mprs_ok_def)
  moreover have "mpr_selectors ?s \<noteq> mpr_selectors s0" using e0 by (auto simp: fun_eq_iff)
  ultimately have "mprs_since s0 (?s\<lparr>timers := (timers ?s)(p := None)\<rparr>)"
    using inv t0 e0 e(2) by (auto simp: mprs_since_def)
  with c t e(4) expire_step show ?thesis by (intro exI [of _ ?s]) simp
qed

interpretation mprs: timer_client mprs_call "mprs_since s0" for s0
proof
  fix s s' :: mprs_set
  assume a: "mprs_since s0 s" "timers s' = timers s" "scheduler.more s' = scheduler.more s" "now_times s' = now_times s"
  note m = mprs_more [OF a(3)]
  show "mprs_since s0 s'" using a(1) unfolding mprs_since_def mprs_ok_def mprs_core_def m a(2,4) .
next
  fix h s p t assume "mprs_since s0 s" "timers s p = Some t" "due s p"
  from mprs_called [OF this, of h] show "\<exists>s'. mprs_call (timer_cb t) (timer_cb_context t) s = Some s' \<and> wheel_step h s s' \<and> timers s' p = Some t \<and>
        (timer_period t = 0 \<longrightarrow> mprs_since s0 (s'\<lparr>timers := (timers s')(p := None)\<rparr>)) \<and>
        (timer_period t \<noteq> 0 \<longrightarrow> (\<forall>t'. timer_cb t' = timer_cb t \<longrightarrow> timer_cb_context t' = timer_cb_context t \<longrightarrow>
           mprs_since s0 (s'\<lparr>timers := (timers s')(p \<mapsto> t')\<rparr>)))" by auto
qed

section \<open>Updating an entry\<close>

lemma set_timer_ok:
  assumes ok: "wheel_ok h s" and v: "vtime < 2 ^ 30"
    and tm0: "\<forall>q. tm0 = Some q \<longrightarrow> (\<exists>t. timers s q = Some t \<and> timer_cb t = cb \<and> timer_cb_context t = p)"
  shows "\<exists>s1 tm. olsr_set_timer tm0 vtime pct False cb p s = Some (tm, s1) \<and> wheel_step h s s1 \<and>
     scheduler.more s1 = scheduler.more s \<and> (tm = None \<longleftrightarrow> vtime = 0) \<and> (tm0 \<noteq> None \<longrightarrow> tm \<noteq> None \<longrightarrow> tm = tm0) \<and>
     (\<forall>q. tm = Some q \<longrightarrow> tm0 = None \<longrightarrow> timers s q = None) \<and>
     (\<forall>q. tm = Some q \<longrightarrow> (\<exists>t. timers s1 q = Some t \<and> timer_cb t = cb \<and> timer_period t = 0 \<and> timer_cb_context t = p)) \<and>
     (\<forall>q. tm \<noteq> Some q \<longrightarrow> timers s1 q = (if tm0 = Some q then None else timers s q))"
proof (cases tm0)
  case None
  show ?thesis
  proof (cases "vtime = 0")
    case True
    with None show ?thesis by (simp add: olsr_set_timer_def olsr_stop_timer_def)
  next
    case False
    hence "0 < vtime" by (simp add: word_gt_0)
    from start_step [OF ok this v, of pct False cb p] obtain s' t where "olsr_start_timer vtime pct False cb p s = (timer_next s, s')" "wheel_step h s s'"
      "timers s (timer_next s) = None" "timers s' = (timers s)(timer_next s \<mapsto> t)" "timer_cb t = cb" "timer_cb_context t = p" "timer_period t = 0"
      "scheduler.more s' = scheduler.more s" by auto
    with None False show ?thesis by (auto simp: olsr_set_timer_def)
  qed
next
  case (Some q)
  then obtain t where t: "timers s q = Some t" "timer_cb t = cb" "timer_cb_context t = p" using tm0 by blast
  show ?thesis
  proof (cases "vtime = 0")
    case True
    from stop_step [OF t(1), of h] obtain s' where "olsr_stop_timer (Some q) s = Some s'" "wheel_step h s s'" "timers s' = (timers s)(q := None)"
      "scheduler.more s' = scheduler.more s" by blast
    with Some True show ?thesis by (auto simp: olsr_set_timer_def)
  next
    case False
    hence "0 < vtime" by (simp add: word_gt_0)
    from change_step [OF ok t(1) this v, of pct False] obtain s' t' where "olsr_change_timer (Some q) vtime pct False s = Some s'" "wheel_step h s s'"
      "timers s' = (timers s)(q \<mapsto> t')" "timer_cb t' = cb" "timer_cb_context t' = p" "timer_period t' = 0" "scheduler.more s' = scheduler.more s"
      using t(2,3) by auto
    with Some False show ?thesis by (auto simp: olsr_set_timer_def)
  qed
qed

lemma set_sel_timer_ok:
  assumes ok: "wheel_ok h s" "mprs_core s" and e: "mpr_selectors s p = Some e" and v: "vtime < 2 ^ 30"
  shows "\<exists>s' tm. olsr_set_mpr_sel_timer p vtime s = Some s' \<and> wheel_step h s s' \<and> mprs_core s' \<and> mprs_list s' = mprs_list s \<and>
    mpr_selectors s' = (mpr_selectors s)(p \<mapsto> e\<lparr>MS_timer := tm\<rparr>) \<and> mprs_next s' = mprs_next s \<and>
    mprs_link_changes s' = mprs_link_changes s \<and> local_ansn s' = local_ansn s \<and> (tm = None \<longleftrightarrow> vtime = 0)"
proof -
  have "\<forall>q. MS_timer e = Some q \<longrightarrow> (\<exists>t. timers s q = Some t \<and> timer_cb t = EXPIRE_MPR_SEL \<and> timer_cb_context t = p)"
    using mprs_entryD [OF ok(2) e] mprs_timerD [OF ok(2)] by blast
  from set_timer_ok [OF ok(1) v this, of OLSR_MPR_SEL_JITTER]
  obtain s1 tm where s1: "olsr_set_timer (MS_timer e) vtime OLSR_MPR_SEL_JITTER False EXPIRE_MPR_SEL p s = Some (tm, s1)" "wheel_step h s s1"
     "scheduler.more s1 = scheduler.more s" "tm = None \<longleftrightarrow> vtime = 0" "MS_timer e \<noteq> None \<longrightarrow> tm \<noteq> None \<longrightarrow> tm = MS_timer e"
     "\<forall>q. tm = Some q \<longrightarrow> MS_timer e = None \<longrightarrow> timers s q = None"
     "\<forall>q. tm = Some q \<longrightarrow> (\<exists>t. timers s1 q = Some t \<and> timer_cb t = EXPIRE_MPR_SEL \<and> timer_period t = 0 \<and> timer_cb_context t = p)"
     "\<forall>q. tm \<noteq> Some q \<longrightarrow> timers s1 q = (if MS_timer e = Some q then None else timers s q)" by (elim exE conjE)
  note m = mprs_more [OF s1(3)]
  let ?s = "s1\<lparr>mpr_selectors := (mpr_selectors s1)(p \<mapsto> e\<lparr>MS_timer := tm\<rparr>)\<rparr>"
  have "mprs_core ?s" unfolding mprs_core_def
  proof (intro conjI allI impI)
    fix p' e' q assume a: "mpr_selectors ?s p' = Some e'" "MS_timer e' = Some q"
    show "\<exists>t. timers ?s q = Some t \<and> timer_cb_context t = p'"
    proof (cases "p' = p")
      case True
      with a s1(7) show ?thesis by auto
    next
      case False
      then obtain t where t: "timers s q = Some t" "timer_cb_context t = p'" using mprs_entryD [OF ok(2) _ a(2)] a(1) m by auto
      have "MS_timer e \<noteq> Some q" using mprs_entryD [OF ok(2) e] t False by auto
      moreover have "tm \<noteq> Some q" using s1(5,6) t(1) calculation by (cases "MS_timer e") auto
      ultimately show ?thesis using s1(8) t by auto
    qed
  next
    fix q t assume "timers ?s q = Some t"
    hence t: "timers s1 q = Some t" by simp
    show "timer_cb t = EXPIRE_MPR_SEL" "timer_period t = 0" "\<exists>e. mpr_selectors ?s (timer_cb_context t) = Some e \<and> MS_timer e = Some q"
    proof (atomize (full), cases "tm = Some q")
      case True
      with t s1(7) show "timer_cb t = EXPIRE_MPR_SEL \<and> timer_period t = 0 \<and> (\<exists>e. mpr_selectors ?s (timer_cb_context t) = Some e \<and> MS_timer e = Some q)" by auto
    next
      case False
      hence t': "timers s q = Some t" "MS_timer e \<noteq> Some q" using s1(8) t by (auto split: if_splits)
      then obtain e' where e': "timer_cb t = EXPIRE_MPR_SEL" "timer_period t = 0" "mpr_selectors s (timer_cb_context t) = Some e'" "MS_timer e' = Some q"
        using mprs_timerD [OF ok(2) t'(1)] by blast
      with t'(2) e have "timer_cb_context t \<noteq> p" by auto
      with e' m show "timer_cb t = EXPIRE_MPR_SEL \<and> timer_period t = 0 \<and> (\<exists>e. mpr_selectors ?s (timer_cb_context t) = Some e \<and> MS_timer e = Some q)" by auto
    qed
  qed (use ok(2) e m in \<open>auto simp: mprs_core_def split: if_splits\<close>)
  moreover have "wheel_step h s ?s" by (rule wheel_step_trans [OF s1(2) selectors_step(1)])
  ultimately show ?thesis using s1(1,4) e m by (intro exI [of _ ?s] exI [of _ tm]) (simp add: olsr_set_mpr_sel_timer_def)
qed

definition selectors_of :: "mprs_set \<Rightarrow> olsr_ip_addr set" where
  "selectors_of s = MS_main_addr ` ran (mpr_selectors s)"

lemma selectors_iff: "a \<in> selectors_of s \<longleftrightarrow> (\<exists>p e. mpr_selectors s p = Some e \<and> MS_main_addr e = a)"
  by (auto simp: selectors_of_def ran_def)

lemma selectors_upd:
  assumes m: "mpr_selectors s' = (mpr_selectors s)(p \<mapsto> e')" and e: "\<forall>e. mpr_selectors s p = Some e \<longrightarrow> MS_main_addr e = MS_main_addr e'"
  shows "selectors_of s' = insert (MS_main_addr e') (selectors_of s)"
proof -
  have "ran (mpr_selectors s') = insert e' (ran ((mpr_selectors s)(p := None)))" unfolding m by (auto simp: ran_def)
  hence "selectors_of s' = insert (MS_main_addr e') (MS_main_addr ` ran ((mpr_selectors s)(p := None)))" by (simp add: selectors_of_def)
  moreover have "selectors_of s \<subseteq> insert (MS_main_addr e') (MS_main_addr ` ran ((mpr_selectors s)(p := None)))"
  proof
    fix a assume "a \<in> selectors_of s"
    then obtain q f where f: "mpr_selectors s q = Some f" "MS_main_addr f = a" unfolding selectors_iff by blast
    show "a \<in> insert (MS_main_addr e') (MS_main_addr ` ran ((mpr_selectors s)(p := None)))"
    proof (cases "q = p")
      case True
      with f(1) have "mpr_selectors s p = Some f" by simp
      hence "MS_main_addr f = MS_main_addr e'" using e by blast
      with f(2) show ?thesis by simp
    next
      case False
      with f(1) have "f \<in> ran ((mpr_selectors s)(p := None))" by (intro ranI [of _ q]) simp
      with f(2) show ?thesis by blast
    qed
  qed
  moreover have "MS_main_addr ` ran ((mpr_selectors s)(p := None)) \<subseteq> selectors_of s" by (auto simp: selectors_of_def ran_def split: if_splits)
  ultimately show ?thesis by blast
qed

lemma lookup_mprs_ok:
  assumes "mprs_ok s"
  shows "\<exists>r. olsr_lookup_mprs_set a s = Some r \<and> (r = None \<longleftrightarrow> a \<notin> selectors_of s) \<and>
    (\<forall>p. r = Some p \<longrightarrow> (\<exists>e. mpr_selectors s p = Some e \<and> MS_main_addr e = a))"
proof -
  let ?t = "\<lambda>p. map_option (\<lambda>e. ipequal (MS_main_addr e) a) (mpr_selectors s p)"
  have dom: "set (mprs_list s) = dom (mpr_selectors s)" using assms by (simp add: mprs_ok_def)
  hence "\<forall>p\<in>set (mprs_list s). ?t p \<noteq> None" by auto
  then obtain r where r: "findM ?t (mprs_list s) = Some r" by (simp add: findM_total)
  show ?thesis
  proof (cases r)
    case None
    hence "\<forall>p\<in>set (mprs_list s). ?t p = Some False" using r findM_None [of ?t] by simp
    hence "MS_main_addr e \<noteq> a" if "mpr_selectors s p = Some e" for p e using that dom domI [where m = "mpr_selectors s", OF that] by force
    hence "a \<notin> selectors_of s" by (simp add: selectors_iff)
    with r None show ?thesis by (simp add: olsr_lookup_mprs_set_def)
  next
    case (Some p)
    from findM_Some [OF r [unfolded this]] obtain e where "mpr_selectors s p = Some e" "MS_main_addr e = a" by auto
    with r Some show ?thesis by (auto simp: olsr_lookup_mprs_set_def selectors_of_def ran_def)
  qed
qed

lemma update_mprs_ok:
  assumes ok: "wheel_ok h s" "mprs_ok s" and v: "vtime < 2 ^ 30"
  shows "\<exists>r s'. olsr_update_mprs_set a vtime s = Some (r, s') \<and> wheel_step h s s' \<and> mprs_ok s' \<and> selectors_of s' = insert a (selectors_of s) \<and>
    (r = 1 \<longleftrightarrow> a \<notin> selectors_of s) \<and> (mprs_link_changes s' \<longleftrightarrow> mprs_link_changes s \<or> r = 1)"
proof -
  obtain l where l: "olsr_lookup_mprs_set a s = Some l" "l = None \<longleftrightarrow> a \<notin> selectors_of s"
    "\<forall>p. l = Some p \<longrightarrow> (\<exists>e. mpr_selectors s p = Some e \<and> MS_main_addr e = a)" using lookup_mprs_ok [OF ok(2)] by blast
  have core: "mprs_core s" using ok(2) by (simp add: mprs_ok_def)
  show ?thesis
  proof (cases l)
    case (Some p)
    then obtain e where e: "mpr_selectors s p = Some e" "MS_main_addr e = a" using l(3) by blast
    from set_sel_timer_ok [OF ok(1) core e(1) v] obtain s' tm where s': "olsr_set_mpr_sel_timer p vtime s = Some s'" "wheel_step h s s'" "mprs_core s'"
      "mprs_list s' = mprs_list s" "mpr_selectors s' = (mpr_selectors s)(p \<mapsto> e\<lparr>MS_timer := tm\<rparr>)" "mprs_link_changes s' = mprs_link_changes s" by blast
    have "mprs_ok s'" using s'(3-5) e ok(2) by (auto simp: mprs_ok_def)
    moreover have "selectors_of s' = insert a (selectors_of s)"
      using selectors_upd [OF s'(5)] e by simp
    ultimately show ?thesis using s' l Some by (simp add: olsr_update_mprs_set_def)
  next
    case None
    hence new: "a \<notin> selectors_of s" using l(2) by simp
    let ?p = "mprs_next s"
    let ?e = "\<lparr>MS_main_addr = a, MS_timer = None\<rparr>"
    let ?s = "s\<lparr>mpr_selectors := (mpr_selectors s)(?p \<mapsto> ?e), mprs_next := ?p + 1\<rparr>"
    have fresh: "mpr_selectors s ?p = None" using core by (cases "mpr_selectors s ?p") (auto simp: mprs_core_def)
    have addr: "\<forall>p e. mpr_selectors s p = Some e \<longrightarrow> MS_main_addr e \<noteq> a" using new by (simp add: selectors_iff)
    have "mprs_core ?s" unfolding mprs_core_def
    proof (intro conjI allI impI)
      fix q t assume "timers ?s q = Some t"
      from mprs_timerD [OF core, of q t] this fresh show "timer_cb t = EXPIRE_MPR_SEL" "timer_period t = 0"
        "\<exists>e. mpr_selectors ?s (timer_cb_context t) = Some e \<and> MS_timer e = Some q" by auto
    next
      fix p e q assume "mpr_selectors ?s p = Some e" "MS_timer e = Some q"
      with mprs_entryD [OF core, of p e q] show "\<exists>t. timers ?s q = Some t \<and> timer_cb_context t = p" by (auto split: if_splits)
    next
      fix p q e f assume a: "mpr_selectors ?s p = Some e" "mpr_selectors ?s q = Some f" "MS_main_addr e = MS_main_addr f"
      show "p = q"
      proof (rule ccontr)
        assume "p \<noteq> q"
        then consider "p = ?p" "q \<noteq> ?p" | "p \<noteq> ?p" "q = ?p" | "p \<noteq> ?p" "q \<noteq> ?p" by blast
        thus False
        proof cases
          case 1
          hence "mpr_selectors s q = Some f" "MS_main_addr f = a" using a by auto
          with addr show False by blast
        next
          case 2
          hence "mpr_selectors s p = Some e" "MS_main_addr e = a" using a by auto
          with addr show False by blast
        next
          case 3
          hence "mpr_selectors s p = Some e" "mpr_selectors s q = Some f" using a by auto
          with a(3) core \<open>p \<noteq> q\<close> show False unfolding mprs_core_def by blast
        qed
      qed
    qed (use core in \<open>auto simp: mprs_core_def less_SucI split: if_splits\<close>)
    have "wheel_ok h ?s" using selectors_step(2) ok(1) by (auto simp: wheel_step_def)
    from set_sel_timer_ok [OF this \<open>mprs_core ?s\<close> _ v, of ?p ?e] obtain s' tm where s': "olsr_set_mpr_sel_timer ?p vtime ?s = Some s'" "wheel_step h ?s s'" "mprs_core s'"
      "mprs_list s' = mprs_list s" "mpr_selectors s' = (mpr_selectors s)(?p \<mapsto> ?e\<lparr>MS_timer := tm\<rparr>)" "mprs_link_changes s' = mprs_link_changes s" by auto
    let ?s' = "s'\<lparr>mprs_list := ?p # mprs_list s', mprs_link_changes := True\<rparr>"
    have "wheel_step h s ?s'"
      by (rule wheel_step_trans [OF wheel_step_trans [OF selectors_step(2) s'(2)]], rule wheel_step_trans [OF selectors_step(3) selectors_step(4)])
    moreover have "mprs_ok ?s'"
    proof -
      have "mprs_core ?s'" using s'(3) unfolding mprs_core_def by simp
      moreover have "distinct (mprs_list s)" "set (mprs_list s) = dom (mpr_selectors s)" using ok(2) by (simp_all add: mprs_ok_def)
      moreover have "?p \<notin> dom (mpr_selectors s)" using fresh by blast
      ultimately show ?thesis by (simp add: mprs_ok_def s'(4,5))
    qed
    moreover have "selectors_of ?s' = insert a (selectors_of s)"
      using selectors_upd [of ?s' s ?p "?e\<lparr>MS_timer := tm\<rparr>"] s'(5) fresh by simp
    ultimately show ?thesis using s' l None new by (simp add: olsr_update_mprs_set_def olsr_add_mpr_selector_def Let_def)
  qed
qed

section \<open>The running set\<close>

definition mprs_running :: "mprs_set \<Rightarrow> bool" where
  "mprs_running s \<longleftrightarrow> wheel_ok 0 s \<and> tmp_head_node s = [] \<and> mprs_ok s \<and> timer_last_run s \<le> now_times s \<and>
     now_times s - timer_last_run s < 2 ^ 30 \<and> (\<forall>q t. timers s q = Some t \<longrightarrow> ahead (timer_last_run s) (timer_clock t))"

text \<open>A HELLO message that names this node as relay, the clock going on, and a turn of the main loop.\<close>

inductive mprs_step :: "mprs_set \<Rightarrow> mprs_set \<Rightarrow> bool" where
  Update: "vtime < 2 ^ 30 \<Longrightarrow> olsr_update_mprs_set a vtime s = Some (r, s') \<Longrightarrow> mprs_step s s'"
| Clock: "now_times s \<le> now \<Longrightarrow> now - timer_last_run s < 2 ^ 30 \<Longrightarrow> mprs_step s (s\<lparr>now_times := now\<rparr>)"
| Tick: "mprs_tick s = Some s' \<Longrightarrow> mprs_step s s'"

inductive_cases mprs_stepE: "mprs_step s s'"

definition entry_due :: "mprs_set \<Rightarrow> mpr_selector \<Rightarrow> bool" where
  "entry_due s e \<longleftrightarrow> (\<exists>q. MS_timer e = Some q \<and> due s q)"

lemma walk_mprs_ok:
  assumes run: "mprs_running s"
  shows "\<exists>s'. walk_timers mprs_call s = Some s' \<and> mprs_running s' \<and> local_ansn s' = local_ansn s \<and> now_times s' = now_times s \<and>
    (\<forall>p. mpr_selectors s' p = (case mpr_selectors s p of None \<Rightarrow> None | Some e \<Rightarrow> if entry_due s e then None else Some e)) \<and>
    (mprs_link_changes s' \<longleftrightarrow> mprs_link_changes s \<or> (\<exists>e\<in>ran (mpr_selectors s). entry_due s e))"
proof -
  have since: "mprs_since s s" using run by (simp add: mprs_since_def mprs_running_def)
  have b: "now_times s - timer_last_run s < 2 ^ 31" using run by (auto simp: mprs_running_def word_less_nat_alt)
  obtain s' where s': "walk_timers mprs_call s = Some s'" "wheel_ok 0 s'" "tmp_head_node s' = []" "mprs_since s s'" "now_times s' = now_times s"
    "timer_last_run s' = now_times s" "\<forall>p t. timers s' p = Some t \<longrightarrow> ahead (now_times s) (timer_clock t)"
    using mprs.walk_timers_ok [of 0 s s] since b run unfolding mprs_running_def by blast
  have ok: "mprs_core s'" using s'(4) by (simp add: mprs_since_def mprs_ok_def)
  have notdue: "\<not> due s' q" for q using s'(5,7) ahead_not_due by (auto simp: due_def)
  have sel: "mpr_selectors s' p = (case mpr_selectors s p of None \<Rightarrow> None | Some e \<Rightarrow> if entry_due s e then None else Some e)" for p
  proof (cases "mpr_selectors s p")
    case None
    with s'(4) show ?thesis unfolding mprs_since_def by (metis option.simps(4))
  next
    case (Some e)
    have "mpr_selectors s' p = mpr_selectors s p \<or> mpr_selectors s' p = None \<and> entry_due s e"
      using s'(4) Some unfolding mprs_since_def entry_due_def by (metis option.inject)
    moreover have "\<not> entry_due s e" if e: "mpr_selectors s' p = Some e"
    proof
      assume "entry_due s e"
      then obtain q where q: "MS_timer e = Some q" "due s q" by (auto simp: entry_due_def)
      obtain t where t: "timers s' q = Some t" using mprs_entryD [OF ok e q(1)] by blast
      have "\<forall>q. timers s' q = timers s q \<or> timers s' q = None \<and> due s q" using s'(4) by (simp add: mprs_since_def)
      hence "timers s' q = timers s q \<or> timers s' q = None" by metis
      with t q(2) s'(5) have "due s' q" by (auto simp: due_def)
      with notdue show False by blast
    qed
    ultimately show ?thesis using Some by auto
  qed
  have "mpr_selectors s' \<noteq> mpr_selectors s \<longleftrightarrow> (\<exists>e\<in>ran (mpr_selectors s). entry_due s e)"
  proof
    assume "mpr_selectors s' \<noteq> mpr_selectors s"
    then obtain p where "mpr_selectors s' p \<noteq> mpr_selectors s p" by blast
    then obtain e where "mpr_selectors s p = Some e" "entry_due s e" using sel [of p] by (auto split: option.splits if_splits)
    thus "\<exists>e\<in>ran (mpr_selectors s). entry_due s e" by (auto simp: ran_def)
  next
    assume "\<exists>e\<in>ran (mpr_selectors s). entry_due s e"
    then obtain p e where "mpr_selectors s p = Some e" "entry_due s e" by (auto simp: ran_def)
    with sel [of p] show "mpr_selectors s' \<noteq> mpr_selectors s" by auto
  qed
  hence "mprs_link_changes s' \<longleftrightarrow> mprs_link_changes s \<or> (\<exists>e\<in>ran (mpr_selectors s). entry_due s e)"
    using s'(4) by (simp add: mprs_since_def)
  moreover have "mprs_running s'" using s'(2-7) by (simp add: mprs_running_def mprs_since_def)
  moreover have "local_ansn s' = local_ansn s" using s'(4) by (simp add: mprs_since_def)
  ultimately show ?thesis using s'(1,5) sel by blast
qed

lemma wheel_ok_frame:
  "wheel_ok h (s\<lparr>now_times := now\<rparr>) = wheel_ok h s" "wheel_ok h ((m :: mprs_set)\<lparr>local_ansn := n, mprs_link_changes := b\<rparr>) = wheel_ok h m"
  by (simp_all add: wheel_ok_def wheel_key_def [abs_def])

lemma mprs_ok_frame:
  "mprs_ok (s\<lparr>now_times := now\<rparr>) = mprs_ok s" "mprs_ok (s\<lparr>local_ansn := n, mprs_link_changes := b\<rparr>) = mprs_ok s"
  by (simp_all add: mprs_ok_def mprs_core_def)

lemma tick_running:
  assumes "mprs_running s" "mprs_tick s = Some s'"
  shows "mprs_running s'"
proof -
  obtain s1 where s1: "walk_timers mprs_call s = Some s1" "mprs_running s1" using walk_mprs_ok [OF assms(1)] by blast
  have "s' = (if mprs_link_changes s1 then (increase_local_ansn s1)\<lparr>mprs_link_changes := False\<rparr> else s1)"
    using assms(2) s1(1) by (simp add: mprs_tick_def)
  moreover have "mprs_running ((increase_local_ansn s1)\<lparr>mprs_link_changes := False\<rparr>)" using s1(2)
    by (simp add: mprs_running_def increase_local_ansn_def wheel_ok_frame mprs_ok_frame)
  ultimately show ?thesis using s1(2) by simp
qed

lemma update_running:
  assumes run: "mprs_running s" and v: "vtime < 2 ^ 30" and up: "olsr_update_mprs_set a vtime s = Some (r, s')"
  shows "mprs_running s'"
proof -
  have s': "wheel_step 0 s s'" "mprs_ok s'" using update_mprs_ok [OF _ _ v, of 0 s a] run up by (auto simp: mprs_running_def)
  have "ahead (timer_last_run s) (timer_clock t)" if "timers s' q = Some t" for q t
    using s'(1) that run soon_ahead_before [of "now_times s" "timer_clock t" "timer_last_run s"] unfolding wheel_step_def mprs_running_def by blast
  with s' run show ?thesis by (auto simp: mprs_running_def wheel_step_def)
qed

lemma step_running:
  assumes "mprs_step s s'" and run: "mprs_running s"
  shows "mprs_running s'"
  using assms(1)
proof cases
  case (Clock now)
  moreover have "timer_last_run s \<le> now"
    using order.trans [of "timer_last_run s" "now_times s" now] run Clock(2) by (simp add: mprs_running_def)
  ultimately show ?thesis using run by (simp add: mprs_running_def wheel_ok_frame mprs_ok_frame)
qed (use run in \<open>auto intro: tick_running update_running\<close>)

lemma steps_running: "mprs_step\<^sup>*\<^sup>* s s' \<Longrightarrow> mprs_running s \<Longrightarrow> mprs_running s'"
  by (induction rule: rtranclp_induct) (auto intro: step_running)

section \<open>Properties\<close>

text \<open>The state after \<open>olsr_init_timers\<close> and \<open>olsr_init_mprs_set\<close>, in zeroed memory.\<close>

definition mprs_start :: "u32 \<Rightarrow> (nat \<Rightarrow> u32) \<Rightarrow> mprs_set" where
  "mprs_start now rnd = olsr_init_mprs_set (olsr_init_timers now
     \<lparr>timer_wheel = (\<lambda>h. []), timers = Map.empty, tmp_head_node = [], timer_last_run = 0, now_times = 0, timer_next = 0,
      random_seq = rnd, random_pos = 0, mprs_list = [], mpr_selectors = Map.empty, mprs_next = 0, mprs_link_changes = False, local_ansn = 0\<rparr>)"

lemma start_running: "(\<And>n. rnd n \<le> RAND_MAX) \<Longrightarrow> mprs_running (mprs_start now rnd)"
  by (simp add: mprs_running_def mprs_start_def olsr_init_timers_def olsr_init_mprs_set_def wheel_ok_def bucket_ok_def wheel_key_def
      mprs_ok_def mprs_core_def)

text \<open>A node whose clock stands at 200 and that knows one selector, the time of which was over at 100.\<close>

definition demo_mprs :: mprs_set where
  "demo_mprs = \<lparr>timer_wheel = (\<lambda>h. if h = 100 then [0] else []),
     timers = [0 \<mapsto> \<lparr>timer_clock = 100, timer_period = 0, timer_jitter_pct = 5, timer_flags = OLSR_TIMER_RUNNING, timer_random = 0,
       timer_cb = EXPIRE_MPR_SEL, timer_cb_context = 0\<rparr>],
     tmp_head_node = [], timer_last_run = 0, now_times = 200, timer_next = 1, random_seq = (\<lambda>n. 0), random_pos = 1,
     mprs_list = [0], mpr_selectors = [0 \<mapsto> \<lparr>MS_main_addr = V4 1, MS_timer = Some 0\<rparr>], mprs_next = 1, mprs_link_changes = False, local_ansn = 0\<rparr>"

lemma demo_mprs_running: "mprs_running demo_mprs"
proof -
  have "wheel_slot 100 = 100" by (simp add: wheel_slot_mod)
  hence "wheel_ok 0 demo_mprs" by (auto simp: wheel_ok_def bucket_ok_def wheel_key_def demo_mprs_def timer_ok_def)
  moreover have "mprs_ok demo_mprs" by (simp add: mprs_ok_def mprs_core_def demo_mprs_def)
  ultimately show ?thesis by (simp add: mprs_running_def demo_mprs_def ahead_def)
qed

text \<open>
  C12. Whatever well-behaved functions the timers call (starting, changing and stopping timers
  included), the walk over the timer wheel ends, touches no freed timer and overlooks no timer that
  is due: afterwards every timer is in its slot and lies ahead of the clock. It is enough that the
  clock has not wrapped since the last walk, however late the walk comes.
\<close>

theorem timers_on_time:
  assumes "timer_client call client_ok" and "wheel_ok h s" and "tmp_head_node s = []" and "client_ok s"
    and "timer_last_run s \<le> now_times s" and "now_times s - timer_last_run s < 2 ^ 31"
    and "\<forall>p t. timers s p = Some t \<longrightarrow> ahead (timer_last_run s) (timer_clock t)"
  shows "\<exists>s'. walk_timers call s = Some s' \<and> wheel_ok h s' \<and> client_ok s' \<and> timer_last_run s' = now_times s \<and>
    (\<forall>p t. timers s' p = Some t \<longrightarrow> ahead (now_times s) (timer_clock t) \<and> \<not> olsr_isTimedOut (now_times s) (timer_clock t))"
  using timer_client.walk_timers_ok [OF assms] ahead_not_due by metis

theorem timers_on_time_witness:
  "\<exists>s'. walk_timers mprs_call demo_mprs = Some s' \<and> timer_last_run s' = 200 \<and> mprs_since demo_mprs s'"
proof -
  have r: "wheel_ok 0 demo_mprs" "tmp_head_node demo_mprs = []" "timer_last_run demo_mprs \<le> now_times demo_mprs"
    "\<forall>p t. timers demo_mprs p = Some t \<longrightarrow> ahead (timer_last_run demo_mprs) (timer_clock t)" "mprs_since demo_mprs demo_mprs"
    using demo_mprs_running by (simp_all add: mprs_running_def mprs_since_def)
  have "now_times demo_mprs - timer_last_run demo_mprs < 2 ^ 31" by (simp add: demo_mprs_def)
  from timers_on_time [OF mprs.timer_client_axioms r(1,2,5,3) this r(4)]
  obtain s' where "walk_timers mprs_call demo_mprs = Some s'" "mprs_since demo_mprs s'" "timer_last_run s' = now_times demo_mprs" by blast
  thus ?thesis by (simp add: demo_mprs_def)
qed

text \<open>
  C13. Neighbours that chose this node as relay are forgotten when their time is over and not
  before: in every state reachable by HELLO messages, the progress of the clock and turns of the
  main loop, a turn of the main loop succeeds, drops exactly the selectors whose timer is due, and
  gives the next TC message a new sequence number if the set has changed since the last turn.
\<close>

theorem selectors_expire:
  assumes "mprs_step\<^sup>*\<^sup>* s0 s" and "mprs_running s0"
  shows "\<exists>s'. mprs_tick s = Some s' \<and> mprs_running s' \<and>
    mpr_selectors s' = (\<lambda>p. case mpr_selectors s p of None \<Rightarrow> None | Some e \<Rightarrow> if entry_due s e then None else Some e) \<and>
    get_local_ansn s' = (if mprs_link_changes s \<or> (\<exists>e\<in>ran (mpr_selectors s). entry_due s e) then get_local_ansn s + 1 else get_local_ansn s)"
proof -
  have run: "mprs_running s" by (rule steps_running [OF assms])
  obtain s1 where s1: "walk_timers mprs_call s = Some s1" "local_ansn s1 = local_ansn s"
    "\<forall>p. mpr_selectors s1 p = (case mpr_selectors s p of None \<Rightarrow> None | Some e \<Rightarrow> if entry_due s e then None else Some e)"
    "mprs_link_changes s1 \<longleftrightarrow> mprs_link_changes s \<or> (\<exists>e\<in>ran (mpr_selectors s). entry_due s e)" using walk_mprs_ok [OF run] by blast
  let ?s = "if mprs_link_changes s1 then (increase_local_ansn s1)\<lparr>mprs_link_changes := False\<rparr> else s1"
  have t: "mprs_tick s = Some ?s" using s1(1) by (simp add: mprs_tick_def)
  moreover have "mpr_selectors ?s = mpr_selectors s1" by (simp add: increase_local_ansn_def)
  moreover have "get_local_ansn ?s = (if mprs_link_changes s1 then get_local_ansn s + 1 else get_local_ansn s)"
    using s1(2) by (simp add: increase_local_ansn_def get_local_ansn_def)
  ultimately show ?thesis using tick_running [OF run t] s1(3,4) by (intro exI [of _ ?s]) (simp add: fun_eq_iff)
qed

theorem selectors_expire_witness:
  "\<exists>s'. mprs_tick demo_mprs = Some s' \<and> mpr_selectors s' = Map.empty \<and> get_local_ansn s' = 1"
proof -
  have due: "entry_due demo_mprs \<lparr>MS_main_addr = V4 1, MS_timer = Some 0\<rparr>"
    by (simp add: entry_due_def due_def demo_mprs_def olsr_isTimedOut_def)
  obtain s' where s': "mprs_tick demo_mprs = Some s'"
    "mpr_selectors s' = (\<lambda>p. case mpr_selectors demo_mprs p of None \<Rightarrow> None | Some e \<Rightarrow> if entry_due demo_mprs e then None else Some e)"
    "get_local_ansn s' = (if mprs_link_changes demo_mprs \<or> (\<exists>e\<in>ran (mpr_selectors demo_mprs). entry_due demo_mprs e)
       then get_local_ansn demo_mprs + 1 else get_local_ansn demo_mprs)"
    using selectors_expire [OF rtranclp.rtrancl_refl demo_mprs_running] by blast
  have m: "mpr_selectors demo_mprs = [0 \<mapsto> \<lparr>MS_main_addr = V4 1, MS_timer = Some 0\<rparr>]" by (simp add: demo_mprs_def)
  have "mpr_selectors s' = Map.empty" unfolding s'(2) m using due by auto
  moreover have "get_local_ansn s' = 1" unfolding s'(3) m using due by (simp add: get_local_ansn_def demo_mprs_def)
  ultimately show ?thesis using s'(1) by blast
qed

text \<open>
  The jitter only shortens a timer, and by no more than the given percentage: a timer started
  for \<open>rel_time\<close> milliseconds fires strictly in the future, no later than that and not before the
  share of it that the percentage leaves.
\<close>

theorem jitter_bounds:
  assumes "0 < rel_time" and "random_val \<le> RAND_MAX"
  shows "\<exists>d. calc_jitter now rel_time jitter_pct random_val = now + d \<and> 0 < d \<and> d \<le> rel_time \<and>
    unat rel_time - unat jitter_pct * unat rel_time div 100 \<le> unat d"
  by (rule calc_jitter_range [OF assms])

theorem jitter_bounds_witness:
  "\<exists>d. calc_jitter 5 20000 5 RAND_MAX = 5 + d \<and> d \<le> 20000 \<and> 19000 \<le> unat d"
proof -
  have "(0 :: u32) < 20000" by simp
  from jitter_bounds [OF this order.refl, of 5 5] show ?thesis by auto
qed

end
