(* ===== verification/Olsr_Forward.thy ===== *)
theory Olsr_Forward
  imports Olsr_Parser Olsr_Mpr_Selector Olsr_Duplicate_Set Olsr_Mpr_Coverage
begin

text \<open>
  The forwarding of messages (\<^verbatim>\<open>src/olsr.c\<close>, \<^verbatim>\<open>src/duplicate_handler.c\<close>): whether a message is retransmitted,
  how it ages, and how it gets into the output buffers of the interfaces. The state puts the
  neighbourhood, the relay selectors, the duplicate set and the output together; the clock is a
  field of it, and so are the random delays, a sequence and the number drawn so far.
\<close>

section \<open>The state\<close>

record relay =
  rl_nb :: neighborhood
  rl_mprs :: mprs_set
  rl_dups :: dup_state
  rl_ifs :: "out_interface list"
  rl_net :: net_state
  rl_now :: u32
  rl_delays :: "nat \<Rightarrow> u32"
  rl_draws :: nat
  message_seqno :: u16
  spam_orig_counter :: u32
  duplicate_handlers :: "nat list"
  collisions :: "(nat \<times> u8) list"

section \<open>Operations\<close>

definition set_buffer_timer :: "u32 \<Rightarrow> u32 \<Rightarrow> out_interface \<Rightarrow> out_interface" where
  "set_buffer_timer now delay ifn = ifn\<lparr>fwdtimer := olsr_getTimestamp now delay\<rparr>"

definition ttl_is_1 :: "u8 \<Rightarrow> u8 \<Rightarrow> bool" where
  "ttl_is_1 ttl hopcnt \<longleftrightarrow> ttl < 2 \<or> 255 < unat hopcnt + unat ttl"

definition age_message :: "olsrd_config \<Rightarrow> u8 list \<Rightarrow> u8 list" where
  "age_message cnf m = m[5 + ipsize cnf := m ! (5 + ipsize cnf) + 1, 4 + ipsize cnf := m ! (4 + ipsize cnf) - 1]"

definition push_message :: "u8 list \<Rightarrow> out_interface \<Rightarrow> (bool \<times> out_interface) option" where
  "push_message m ifn = do {
     msgsize \<leftarrow> olsr_msgsize m;
     (data, _) \<leftarrow> get_bytes (unat msgsize) m 0;
     (r, nb) \<leftarrow> net_outbuffer_push data (netbuf ifn);
     Some (r = int (unat msgsize), ifn\<lparr>netbuf := nb\<rparr>)
   }"

definition skip_if :: "nat \<Rightarrow> bool \<Rightarrow> nat \<Rightarrow> out_interface \<Rightarrow> bool" where
  "skip_if in_if is_ttl_1 i ifn \<longleftrightarrow> (i = in_if \<and> mode ifn = IF_MODE_ETHER) \<or> (is_ttl_1 \<and> mode ifn \<noteq> IF_MODE_ETHER)"

text \<open>The body of the loop over the interfaces; the last component counts the delays drawn.\<close>

definition forward_on ::
  "olsrd_config \<Rightarrow> u16 \<Rightarrow> (nat \<Rightarrow> packet_transform) \<Rightarrow> u32 \<Rightarrow> (nat \<Rightarrow> u32) \<Rightarrow> u8 list \<Rightarrow> out_interface \<Rightarrow> net_state \<times> nat \<Rightarrow>
   (out_interface \<times> net_state \<times> nat) option" where
  "forward_on cnf port ptf now delays m ifn = (\<lambda>(net, k).
     if net_output_pending (netbuf ifn) \<noteq> 0 then do {
       (whole, ifn) \<leftarrow> push_message m ifn;
       if whole then Some (ifn, net, k)
       else do {
         (_, ifn, net) \<leftarrow> net_output cnf port ptf ifn net;
         (_, ifn) \<leftarrow> push_message m (set_buffer_timer now (delays k) ifn);
         Some (ifn, net, k + 1)
       }
     } else do {
       (_, ifn) \<leftarrow> push_message m (set_buffer_timer now (delays k) ifn);
       Some (ifn, net, k + 1)
     })"

fun forward_loop ::
  "olsrd_config \<Rightarrow> u16 \<Rightarrow> (nat \<Rightarrow> packet_transform) \<Rightarrow> u32 \<Rightarrow> (nat \<Rightarrow> u32) \<Rightarrow> nat \<Rightarrow> bool \<Rightarrow> u8 list \<Rightarrow> nat \<Rightarrow> out_interface list \<Rightarrow> net_state \<times> nat \<Rightarrow>
   (out_interface list \<times> net_state \<times> nat) option" where
  "forward_loop cnf port ptf now delays in_if is_ttl_1 m i [] s = Some ([], s)"
| "forward_loop cnf port ptf now delays in_if is_ttl_1 m i (ifn # ifs) s = do {
     (ifn, s) \<leftarrow> (if skip_if in_if is_ttl_1 i ifn then Some (ifn, s) else forward_on cnf port ptf now delays m ifn s);
     (ifs, s) \<leftarrow> forward_loop cnf port ptf now delays in_if is_ttl_1 m (i + 1) ifs s;
     Some (ifn # ifs, s)
   }"

definition olsr_forward_message ::
  "olsrd_config \<Rightarrow> u16 \<Rightarrow> (nat \<Rightarrow> packet_transform) \<Rightarrow> u8 list \<Rightarrow> nat \<Rightarrow> olsr_ip_addr \<Rightarrow> relay \<Rightarrow> (int \<times> relay) option" where
  "olsr_forward_message cnf port ptf m in_if from_addr st = do {
     ttl \<leftarrow> msg_ttl cnf m;
     hopcnt \<leftarrow> msg_hopcnt cnf m;
     main \<leftarrow> mid_lookup_main_addr from_addr (rl_nb st);
     let src = (case main of None \<Rightarrow> from_addr | Some a \<Rightarrow> a);
     found \<leftarrow> olsr_lookup_neighbor_table src (rl_nb st);
     case found of None \<Rightarrow> Some (0, st)
     | Some p \<Rightarrow> do {
         e \<leftarrow> neighbors (rl_nb st) p;
         if status e \<noteq> SYM then Some (0, st)
         else do {
           selector \<leftarrow> olsr_lookup_mprs_set src (rl_mprs st);
           if selector = None then Some (0, st)
           else do {
             orig \<leftarrow> msg_originator cnf m;
             seqno \<leftarrow> msg_seqno cnf m;
             (dup, d) \<leftarrow> olsr_message_is_duplicate (rl_now st) orig seqno (rl_dups st);
             let st = st\<lparr>rl_dups := d\<rparr>;
             if dup then Some (0, st)
             else do {
               let is_ttl_1 = ttl_is_1 ttl hopcnt;
               (ifs, net, k) \<leftarrow> forward_loop cnf port ptf (rl_now st) (rl_delays st) in_if is_ttl_1
                 (if is_ttl_1 then m else age_message cnf m) 0 (rl_ifs st) (rl_net st, rl_draws st);
               Some (1, st\<lparr>rl_ifs := ifs, rl_net := net, rl_draws := k\<rparr>)
             }
           }
         }
       }
   }"

definition olsr_is_bad_duplicate_msg_seqno :: "u16 \<Rightarrow> u16 \<Rightarrow> bool" where
  "olsr_is_bad_duplicate_msg_seqno seqno own =
     (let diff = int (unat seqno) - int (unat own);
          diff = (if diff < -32768 then diff + 65536 else if diff > 32767 then diff - 65536 else diff)
      in diff > 0)"

text \<open>The warning is only written to the log; the handlers of plugins are recorded with the message type.\<close>

definition olsr_test_originator_collision :: "u8 \<Rightarrow> u16 \<Rightarrow> relay \<Rightarrow> relay" where
  "olsr_test_originator_collision msgType seqno st =
     (if \<not> olsr_is_bad_duplicate_msg_seqno seqno (message_seqno st) then st
      else st\<lparr>spam_orig_counter := spam_orig_counter st + 1, collisions := collisions st @ map (\<lambda>h. (h, msgType)) (duplicate_handlers st)\<rparr>)"

section \<open>Ageing\<close>

lemma length_age [simp]: "length (age_message cnf m) = length m"
  by (simp add: age_message_def)

lemma age_fields: "k < 4 + ipsize cnf \<or> 5 + ipsize cnf < k \<Longrightarrow> age_message cnf m ! k = m ! k"
  by (auto simp: age_message_def)

lemma age_size: "own_size (age_message cnf m) = own_size m"
  by (simp add: age_message_def own_size_def drop_update_swap ipsize_def)

lemma age_good: "good_msg (ipsize cnf) (age_message cnf m) \<longleftrightarrow> good_msg (ipsize cnf) m"
  by (simp add: good_msg_def age_size)

text \<open>An aged message has lived one hop more and has one hop less to go.\<close>

lemma age_ttl:
  assumes "8 + ipsize cnf \<le> length m" "msg_ttl cnf m = Some ttl" "msg_hopcnt cnf m = Some hopcnt" "\<not> ttl_is_1 ttl hopcnt"
  shows "\<exists>ttl' hopcnt'. msg_ttl cnf (age_message cnf m) = Some ttl' \<and> msg_hopcnt cnf (age_message cnf m) = Some hopcnt' \<and>
    unat ttl' = unat ttl - 1 \<and> 0 < unat ttl' \<and> unat hopcnt' = unat hopcnt + 1"
proof -
  have v: "m ! (4 + ipsize cnf) = ttl" "m ! (5 + ipsize cnf) = hopcnt"
    using assms(1-3) by (auto simp: msg_field_defs hd_drop_conv_nth)
  have "2 \<le> unat ttl" "unat hopcnt + unat ttl \<le> 255" using assms(4) by (simp_all add: ttl_is_1_def word_less_nat_alt not_less)
  hence "unat (ttl - 1) = unat ttl - 1" "unat (hopcnt + 1) = unat hopcnt + 1" "2 \<le> unat ttl"
    by (simp_all add: unat_sub_if' unat_plus_if')
  thus ?thesis using assms(1) v by (simp add: msg_field_defs age_message_def hd_drop_conv_nth)
qed

section \<open>The output buffers\<close>

definition if_ready :: "out_interface \<Rightarrow> bool" where
  "if_ready ifn \<longleftrightarrow> netbuf_ok (netbuf ifn) \<and> bufsize (netbuf ifn) < 65536"

text \<open>What is pending after a message has been added: behind what was there, or alone after a packet has been sent.\<close>

definition queued :: "u8 list \<Rightarrow> olsr_netbuf \<Rightarrow> u8 list" where
  "queued data nb = (if pending nb + int (length data) \<le> maxsize nb then payload nb @ data else data)"

lemma pending_iff: "if_ready ifn \<Longrightarrow> net_output_pending (netbuf ifn) = 0 \<longleftrightarrow> pending (netbuf ifn) = 0"
proof -
  assume "if_ready ifn"
  hence "0 \<le> pending (netbuf ifn)" "pending (netbuf ifn) < 65536" by (auto simp: if_ready_def netbuf_ok_def OLSR_HEADERSIZE_def)
  hence "uint (of_int (pending (netbuf ifn)) :: u16) = pending (netbuf ifn)" by (simp add: uint_word_of_int)
  thus ?thesis unfolding net_output_pending_def by (metis of_int_0 uint_0_eq)
qed

lemma push_frame: "net_outbuffer_push data nb = Some (r, nb') \<Longrightarrow> maxsize nb' = maxsize nb \<and> bufsize nb' = bufsize nb"
  by (auto simp: net_outbuffer_push_def buffer_copy_def split: if_splits Option.bind_splits)

lemma push_message_ok:
  assumes "if_ready ifn" "good_msg n m"
  shows "\<exists>r ifn'. push_message m ifn = Some (r, ifn') \<and> if_ready ifn' \<and> mode ifn' = mode ifn \<and> maxsize (netbuf ifn') = maxsize (netbuf ifn) \<and>
    (if pending (netbuf ifn) + int (own_size m) \<le> maxsize (netbuf ifn) then r \<and> payload (netbuf ifn') = payload (netbuf ifn) @ own_msg m
     else \<not> r \<and> ifn' = ifn)"
proof -
  have l: "4 \<le> length m" "8 \<le> own_size m" "own_size m \<le> length m" using assms(2) by (auto simp: good_msg_def)
  from msgsize_own [OF l(1)] obtain sz where "olsr_msgsize m = Some sz" "unat (ucast sz :: u32) = own_size m" by blast
  hence sz: "olsr_msgsize m = Some sz" "unat sz = own_size m" using u16_less [of sz] by (simp_all add: unsigned_ucast_eq take_bit_eq_mod)
  have g: "get_bytes (own_size m) m 0 = Some (own_msg m, own_size m)" "length (own_msg m) = own_size m" using l by (simp_all add: get_bytes_def own_msg_def)
  have ok: "netbuf_ok (netbuf ifn)" "bufsize (netbuf ifn) < 65536" using assms(1) by (simp_all add: if_ready_def)
  from push_ok [OF ok(1), of "own_msg m"] obtain r nb' where p: "net_outbuffer_push (own_msg m) (netbuf ifn) = Some (r, nb')" "netbuf_ok nb'"
    "if pending (netbuf ifn) + int (own_size m) \<le> maxsize (netbuf ifn) then r = int (own_size m) \<and> payload nb' = payload (netbuf ifn) @ own_msg m
     else r = 0 \<and> nb' = netbuf ifn" unfolding g(2) by blast
  have "push_message m ifn = Some (r = int (own_size m), ifn\<lparr>netbuf := nb'\<rparr>)" 
  proof -
    have "uint sz = int (own_size m)" unfolding sz(2) [symmetric] by simp
    thus ?thesis using sz g(1) p(1) by (simp add: push_message_def)
  qed
  thus ?thesis using p(2,3) push_frame [OF p(1)] ok l(2) by (auto simp: if_ready_def)
qed

lemma forward_on_ok:
  assumes "if_ready ifn" "good_msg n m" "transforms_ok ptf (ptf_list net)"
  shows "\<exists>ifn' net' k'. forward_on cnf port ptf now delays m ifn (net, k) = Some (ifn', net', k') \<and> if_ready ifn' \<and> ptf_list net' = ptf_list net \<and>
    (int (own_size m) \<le> maxsize (netbuf ifn) \<longrightarrow> payload (netbuf ifn') = queued (own_msg m) (netbuf ifn))"
proof -
  have o: "int (length (own_msg m)) = int (own_size m)" using assms(2) by (simp add: good_msg_def own_msg_def)
  let ?t = "set_buffer_timer now (delays k)"
  have t: "if_ready (?t i) \<longleftrightarrow> if_ready i" "netbuf (?t i) = netbuf i" for i by (simp_all add: set_buffer_timer_def if_ready_def)
  show ?thesis
  proof (cases "pending (netbuf ifn) = 0")
    case True
    obtain r ifn' where "push_message m (?t ifn) = Some (r, ifn')" "if_ready ifn'"
      "int (own_size m) \<le> maxsize (netbuf ifn) \<longrightarrow> payload (netbuf ifn') = payload (netbuf ifn) @ own_msg m"
      using push_message_ok [of "?t ifn" n m] assms(1,2) t True by (auto split: if_splits)
    thus ?thesis using True pending_iff [OF assms(1)] o by (simp add: forward_on_def queued_def)
  next
    case pend: False
    obtain r ifn1 where p: "push_message m ifn = Some (r, ifn1)" "if_ready ifn1"
      "if pending (netbuf ifn) + int (own_size m) \<le> maxsize (netbuf ifn) then r \<and> payload (netbuf ifn1) = payload (netbuf ifn) @ own_msg m else \<not> r \<and> ifn1 = ifn"
      using push_message_ok [OF assms(1,2)] by blast
    show ?thesis
    proof (cases r)
      case True
      thus ?thesis using p pend pending_iff [OF assms(1)] o by (auto simp: forward_on_def queued_def split: if_splits)
    next
      case False
      hence n: "ifn1 = ifn" "\<not> pending (netbuf ifn) + int (own_size m) \<le> maxsize (netbuf ifn)" using p(3) by (auto split: if_splits)
      obtain r2 ifn2 net2 where out: "net_output cnf port ptf ifn net = Some (r2, ifn2, net2)" "netbuf_ok (netbuf ifn2)" "payload (netbuf ifn2) = []"
        "ptf_list net2 = ptf_list net" "pending (netbuf ifn2) = 0" "maxsize (netbuf ifn2) = maxsize (netbuf ifn)" "bufsize (netbuf ifn2) = bufsize (netbuf ifn)"
        using output_ok [OF _ assms(3), of ifn cnf port] assms(1) unfolding if_ready_def by blast
      have "if_ready (?t ifn2)" using out(2,7) assms(1) by (simp add: t if_ready_def)
      then obtain r3 ifn3 where "push_message m (?t ifn2) = Some (r3, ifn3)" "if_ready ifn3"
        "int (own_size m) \<le> maxsize (netbuf ifn) \<longrightarrow> payload (netbuf ifn3) = own_msg m"
        using push_message_ok [of "?t ifn2" n m] assms(2) t(2) out(3,5,6) by (auto split: if_splits)
      thus ?thesis using False p(1) n pend pending_iff [OF assms(1)] o out(1,4) by (simp add: forward_on_def queued_def)
    qed
  qed
qed

definition forwarded :: "nat \<Rightarrow> bool \<Rightarrow> u8 list \<Rightarrow> nat \<Rightarrow> out_interface \<Rightarrow> out_interface \<Rightarrow> bool" where
  "forwarded in_if is_ttl_1 m i ifn ifn' \<longleftrightarrow> if_ready ifn' \<and>
     (if skip_if in_if is_ttl_1 i ifn then ifn' = ifn
      else int (own_size m) \<le> maxsize (netbuf ifn) \<longrightarrow> payload (netbuf ifn') = queued (own_msg m) (netbuf ifn))"

lemma forward_loop_ok:
  "\<forall>ifn\<in>set ifs. if_ready ifn \<Longrightarrow> good_msg n m \<Longrightarrow> transforms_ok ptf (ptf_list net) \<Longrightarrow>
   \<exists>ifs' net' k'. forward_loop cnf port ptf now delays in_if t m i ifs (net, k) = Some (ifs', net', k') \<and> ptf_list net' = ptf_list net \<and>
     length ifs' = length ifs \<and> (\<forall>j<length ifs. forwarded in_if t m (i + j) (ifs ! j) (ifs' ! j))"
proof (induction ifs arbitrary: i net k)
  case (Cons ifn ifs)
  have "\<exists>ifn' net1 k1. (if skip_if in_if t i ifn then Some (ifn, net, k) else forward_on cnf port ptf now delays m ifn (net, k)) = Some (ifn', net1, k1) \<and>
      ptf_list net1 = ptf_list net \<and> forwarded in_if t m i ifn ifn'"
    using forward_on_ok [of ifn n m ptf net cnf port now delays k] Cons.prems by (auto simp: forwarded_def)
  then obtain ifn' net1 k1 where 1: "(if skip_if in_if t i ifn then Some (ifn, net, k) else forward_on cnf port ptf now delays m ifn (net, k)) = Some (ifn', net1, k1)"
    "ptf_list net1 = ptf_list net" "forwarded in_if t m i ifn ifn'" by blast
  obtain ifs' net' k' where 2: "forward_loop cnf port ptf now delays in_if t m (i + 1) ifs (net1, k1) = Some (ifs', net', k')" "ptf_list net' = ptf_list net1"
    "length ifs' = length ifs" "\<forall>j<length ifs. forwarded in_if t m (i + 1 + j) (ifs ! j) (ifs' ! j)"
    using Cons.IH [of net1 "i + 1" k1] Cons.prems 1(2) by auto
  have "forward_loop cnf port ptf now delays in_if t m i (ifn # ifs) (net, k) = Some (ifn' # ifs', net', k')"
    by (simp only: forward_loop.simps 1(1) 2(1) bind.bind_lunit prod.case)
  moreover have "forwarded in_if t m (i + j) ((ifn # ifs) ! j) ((ifn' # ifs') ! j)" if "j < length (ifn # ifs)" for j
    using that 1(3) 2(4) by (cases j) auto
  ultimately show ?case using 1(2) 2(2,3) by auto
qed simp

section \<open>Forwarding\<close>

text \<open>The invariant: every component is consistent and every interface has a buffer.\<close>

definition relay_ok :: "(nat \<Rightarrow> packet_transform) \<Rightarrow> relay \<Rightarrow> bool" where
  "relay_ok ptf st \<longleftrightarrow> nb_core (rl_nb st) \<and> mprs_ok (rl_mprs st) \<and> dup_ok (rl_dups st) \<and> (\<forall>ifn\<in>set (rl_ifs st). if_ready ifn) \<and>
     transforms_ok ptf (ptf_list (rl_net st))"

text \<open>
  The rule of flooding: the sender, under its main address, is a symmetric neighbour that has
  chosen this node as a relay, and the message is not known by the duplicate set.
\<close>

definition sender_main :: "olsr_ip_addr \<Rightarrow> relay \<Rightarrow> olsr_ip_addr" where
  "sender_main a st = (case the (mid_lookup_main_addr a (rl_nb st)) of None \<Rightarrow> a | Some b \<Rightarrow> b)"

definition sender_symmetric :: "olsr_ip_addr \<Rightarrow> relay \<Rightarrow> bool" where
  "sender_symmetric a st \<longleftrightarrow> (\<exists>p e. olsr_lookup_neighbor_table (sender_main a st) (rl_nb st) = Some (Some p) \<and>
     neighbors (rl_nb st) p = Some e \<and> status e = SYM)"

definition flood_sender :: "olsr_ip_addr \<Rightarrow> relay \<Rightarrow> bool" where
  "flood_sender a st \<longleftrightarrow> sender_symmetric a st \<and> sender_main a st \<in> selectors_of (rl_mprs st)"

definition msg_known :: "olsrd_config \<Rightarrow> u8 list \<Rightarrow> relay \<Rightarrow> bool" where
  "msg_known cnf m st \<longleftrightarrow> fst (spec_check (the (msg_seqno cnf m)) (dup_abs (rl_dups st) (the (msg_originator cnf m))))"

definition sent_form :: "olsrd_config \<Rightarrow> u8 list \<Rightarrow> u8 list" where
  "sent_form cnf m = (if ttl_is_1 (the (msg_ttl cnf m)) (the (msg_hopcnt cnf m)) then m else age_message cnf m)"

lemma good_fields:
  assumes "good_msg (ipsize cnf) m"
  obtains ttl hopcnt orig seqno where "msg_ttl cnf m = Some ttl" "msg_hopcnt cnf m = Some hopcnt" "msg_originator cnf m = Some orig" "msg_seqno cnf m = Some seqno"
  using good_length [OF assms] by (simp add: msg_field_defs)

lemma sent_form_good: "good_msg (ipsize cnf) m \<Longrightarrow> good_msg (ipsize cnf) (sent_form cnf m)"
  by (simp add: sent_form_def age_good)

lemma forward_rejects:
  assumes ok: "relay_ok ptf st" and g: "good_msg (ipsize cnf) m" and no: "\<not> flood_sender from_addr st"
  shows "olsr_forward_message cnf port ptf m in_if from_addr st = Some (0, st)"
proof -
  have c: "nb_core (rl_nb st)" "mprs_ok (rl_mprs st)" using ok by (simp_all add: relay_ok_def)
  obtain ttl hopcnt where f: "msg_ttl cnf m = Some ttl" "msg_hopcnt cnf m = Some hopcnt" by (rule good_fields [OF g])
  obtain main where main: "mid_lookup_main_addr from_addr (rl_nb st) = Some main" using mid_lookup_ok [OF nb_coreD(7) [OF c(1)]] by blast
  hence src: "sender_main from_addr st = (case main of None \<Rightarrow> from_addr | Some a \<Rightarrow> a)" by (simp add: sender_main_def)
  let ?src = "sender_main from_addr st"
  obtain r where r: "olsr_lookup_neighbor_table ?src (rl_nb st) = Some r" "case r of None \<Rightarrow> True | Some p \<Rightarrow> \<exists>e. neighbors (rl_nb st) p = Some e"
    using lookup_neighbor_ok [OF c(1)] by blast
  obtain l where l: "olsr_lookup_mprs_set ?src (rl_mprs st) = Some l" "l = None \<longleftrightarrow> ?src \<notin> selectors_of (rl_mprs st)"
    using lookup_mprs_ok [OF c(2)] by blast
  show ?thesis
  proof (cases r)
    case None
    thus ?thesis using f main r(1) src by (simp add: olsr_forward_message_def Let_def)
  next
    case (Some p)
    then obtain e where "neighbors (rl_nb st) p = Some e" using r(2) by auto
    thus ?thesis using Some f main r(1) src l no by (auto simp: olsr_forward_message_def Let_def flood_sender_def sender_symmetric_def)
  qed
qed

lemma forward_accepts:
  assumes ok: "relay_ok ptf st" and g: "good_msg (ipsize cnf) m" and yes: "flood_sender from_addr st"
  shows "\<exists>d. dup_ok d \<and> olsr_message_is_duplicate (rl_now st) (the (msg_originator cnf m)) (the (msg_seqno cnf m)) (rl_dups st) = Some (msg_known cnf m st, d) \<and>
    (if msg_known cnf m st then olsr_forward_message cnf port ptf m in_if from_addr st = Some (0, st\<lparr>rl_dups := d\<rparr>)
     else \<exists>ifs' net' k'. olsr_forward_message cnf port ptf m in_if from_addr st = Some (1, st\<lparr>rl_dups := d, rl_ifs := ifs', rl_net := net', rl_draws := k'\<rparr>) \<and>
       ptf_list net' = ptf_list (rl_net st) \<and> length ifs' = length (rl_ifs st) \<and>
       (\<forall>j<length ifs'. forwarded in_if (ttl_is_1 (the (msg_ttl cnf m)) (the (msg_hopcnt cnf m))) (sent_form cnf m) j (rl_ifs st ! j) (ifs' ! j)))"
proof -
  have c: "nb_core (rl_nb st)" "mprs_ok (rl_mprs st)" "dup_ok (rl_dups st)" "\<forall>ifn\<in>set (rl_ifs st). if_ready ifn" "transforms_ok ptf (ptf_list (rl_net st))"
    using ok by (simp_all add: relay_ok_def)
  obtain ttl hopcnt orig seqno where f: "msg_ttl cnf m = Some ttl" "msg_hopcnt cnf m = Some hopcnt" "msg_originator cnf m = Some orig" "msg_seqno cnf m = Some seqno"
    by (rule good_fields [OF g])
  obtain main where main: "mid_lookup_main_addr from_addr (rl_nb st) = Some main" using mid_lookup_ok [OF nb_coreD(7) [OF c(1)]] by blast
  hence src: "(case main of None \<Rightarrow> from_addr | Some a \<Rightarrow> a) = sender_main from_addr st" by (simp add: sender_main_def)
  let ?src = "sender_main from_addr st"
  obtain p e where pe: "olsr_lookup_neighbor_table ?src (rl_nb st) = Some (Some p)" "neighbors (rl_nb st) p = Some e" "status e = SYM"
    using yes by (auto simp: flood_sender_def sender_symmetric_def)
  obtain q where q: "olsr_lookup_mprs_set ?src (rl_mprs st) = Some (Some q)"
    using lookup_mprs_ok [OF c(2), of ?src] yes by (auto simp: flood_sender_def)
  obtain r d v where d: "olsr_message_is_duplicate (rl_now st) orig seqno (rl_dups st) = Some (r, d)" "dup_ok d"
    "spec_check seqno (dup_abs (rl_dups st) orig) = (r, v)" using is_duplicate_ok [OF c(3)] by blast
  have r: "r = msg_known cnf m st" using d(3) f by (simp add: msg_known_def)
  let ?t = "ttl_is_1 ttl hopcnt"
  obtain ifs' net' k' where l: "forward_loop cnf port ptf (rl_now st) (rl_delays st) in_if ?t (sent_form cnf m) 0 (rl_ifs st) (rl_net st, rl_draws st) = Some (ifs', net', k')"
    "ptf_list net' = ptf_list (rl_net st)" "length ifs' = length (rl_ifs st)" "\<forall>j<length (rl_ifs st). forwarded in_if ?t (sent_form cnf m) (0 + j) (rl_ifs st ! j) (ifs' ! j)"
    using forward_loop_ok [OF c(4) sent_form_good [OF g] c(5)] by blast
  have s: "sent_form cnf m = (if ?t then m else age_message cnf m)" using f by (simp add: sent_form_def)
  have "olsr_forward_message cnf port ptf m in_if from_addr st = (if r then Some (0, st\<lparr>rl_dups := d\<rparr>) else Some (1, st\<lparr>rl_dups := d, rl_ifs := ifs', rl_net := net', rl_draws := k'\<rparr>))"
    using l(1) pe q d(1) by (simp add: olsr_forward_message_def f main src s [symmetric] Let_def)
  hence "if r then olsr_forward_message cnf port ptf m in_if from_addr st = Some (0, st\<lparr>rl_dups := d\<rparr>)
     else \<exists>ifs' net' k'. olsr_forward_message cnf port ptf m in_if from_addr st = Some (1, st\<lparr>rl_dups := d, rl_ifs := ifs', rl_net := net', rl_draws := k'\<rparr>) \<and>
       ptf_list net' = ptf_list (rl_net st) \<and> length ifs' = length (rl_ifs st) \<and>
       (\<forall>j<length ifs'. forwarded in_if ?t (sent_form cnf m) j (rl_ifs st ! j) (ifs' ! j))"
    using l(2-4) by (cases r, simp, simp only: if_False simp_thms) (intro exI [of _ ifs'] exI [of _ net'] exI [of _ k'], simp)
  thus ?thesis using d(1,2) unfolding r f option.sel by (intro exI [of _ d] conjI)
qed

lemma relay_ok_step:
  assumes "relay_ok ptf st" "dup_ok d" "ptf_list net' = ptf_list (rl_net st)" "\<forall>j<length ifs'. forwarded in_if t m j (rl_ifs st ! j) (ifs' ! j)"
  shows "relay_ok ptf (st\<lparr>rl_dups := d, rl_ifs := ifs', rl_net := net', rl_draws := k'\<rparr>)"
  using assms by (auto simp: relay_ok_def forwarded_def in_set_conv_nth)

lemma forward_ok:
  assumes "relay_ok ptf st" "good_msg (ipsize cnf) m"
  shows "\<exists>r st'. olsr_forward_message cnf port ptf m in_if from_addr st = Some (r, st') \<and> relay_ok ptf st'"
proof (cases "flood_sender from_addr st")
  case False
  thus ?thesis using forward_rejects [OF assms False] assms(1) by simp
next
  case True
  from forward_accepts [OF assms True, of port in_if] obtain d where d: "dup_ok d"
    "if msg_known cnf m st then olsr_forward_message cnf port ptf m in_if from_addr st = Some (0, st\<lparr>rl_dups := d\<rparr>)
     else \<exists>ifs' net' k'. olsr_forward_message cnf port ptf m in_if from_addr st = Some (1, st\<lparr>rl_dups := d, rl_ifs := ifs', rl_net := net', rl_draws := k'\<rparr>) \<and>
       ptf_list net' = ptf_list (rl_net st) \<and> length ifs' = length (rl_ifs st) \<and>
       (\<forall>j<length ifs'. forwarded in_if (ttl_is_1 (the (msg_ttl cnf m)) (the (msg_hopcnt cnf m))) (sent_form cnf m) j (rl_ifs st ! j) (ifs' ! j))"
    by blast
  show ?thesis
  proof (cases "msg_known cnf m st")
    case True
    thus ?thesis using d assms(1) by (simp add: relay_ok_def)
  next
    case False
    thus ?thesis using d(2) relay_ok_step [OF assms(1) d(1)] by auto
  qed
qed

text \<open>
  C14. The forwarding follows the rule of flooding. A message is retransmitted if and only if its
  sender is a symmetric neighbour and a relay selector and the message is no duplicate; if not,
  no buffer is touched. A retransmitted message that fits into the buffer of an interface is
  queued there last, after the earlier ones have been sent where it does not fit beside them;
  interfaces of Ethernet kind do not get back what they delivered, and messages at the end of
  their life only go to those. The sender's main address decides, and the invariant is kept.
\<close>

theorem forward_rule:
  assumes "relay_ok ptf st" "good_msg (ipsize cnf) m"
  shows "\<exists>r st'. olsr_forward_message cnf port ptf m in_if from_addr st = Some (r, st') \<and> relay_ok ptf st' \<and>
    (r = 1 \<longleftrightarrow> flood_sender from_addr st \<and> \<not> msg_known cnf m st) \<and>
    (if r = 1 then length (rl_ifs st') = length (rl_ifs st) \<and>
       (\<forall>j<length (rl_ifs st). forwarded in_if (ttl_is_1 (the (msg_ttl cnf m)) (the (msg_hopcnt cnf m))) (sent_form cnf m) j (rl_ifs st ! j) (rl_ifs st' ! j))
     else rl_ifs st' = rl_ifs st \<and> rl_net st' = rl_net st)"
proof -
  obtain r st' where f: "olsr_forward_message cnf port ptf m in_if from_addr st = Some (r, st')" "relay_ok ptf st'" using forward_ok [OF assms] by blast
  have "(r = 1 \<longleftrightarrow> flood_sender from_addr st \<and> \<not> msg_known cnf m st) \<and>
    (if r = 1 then length (rl_ifs st') = length (rl_ifs st) \<and>
       (\<forall>j<length (rl_ifs st). forwarded in_if (ttl_is_1 (the (msg_ttl cnf m)) (the (msg_hopcnt cnf m))) (sent_form cnf m) j (rl_ifs st ! j) (rl_ifs st' ! j))
     else rl_ifs st' = rl_ifs st \<and> rl_net st' = rl_net st)"
    using forward_rejects [OF assms, of from_addr port in_if] forward_accepts [OF assms, of from_addr port in_if] f(1)
    by (cases "flood_sender from_addr st"; cases "msg_known cnf m st") auto
  with f show ?thesis by blast
qed

text \<open>
  A retransmitted message ages: unless it is at the end of its life it leaves with one hop more
  on its way and one less to go, the time to live does not reach zero, and nothing else of it
  changes.
\<close>

theorem forward_ages:
  assumes "good_msg (ipsize cnf) m" "msg_ttl cnf m = Some ttl" "msg_hopcnt cnf m = Some hopcnt" "\<not> ttl_is_1 ttl hopcnt"
  shows "\<exists>ttl' hopcnt'. msg_ttl cnf (sent_form cnf m) = Some ttl' \<and> msg_hopcnt cnf (sent_form cnf m) = Some hopcnt' \<and>
    unat ttl' = unat ttl - 1 \<and> 0 < unat ttl' \<and> unat hopcnt' = unat hopcnt + 1 \<and> length (sent_form cnf m) = length m \<and>
    (\<forall>k. k < 4 + ipsize cnf \<or> 5 + ipsize cnf < k \<longrightarrow> sent_form cnf m ! k = m ! k)"
proof -
  have s: "sent_form cnf m = age_message cnf m" using assms(2-4) by (simp add: sent_form_def)
  show ?thesis unfolding s using age_ttl [OF good_length [OF assms(1)] assms(2-4)] age_fields [of _ cnf m] by auto
qed

theorem forward_ages_witness:
  "\<exists>ttl'. msg_ttl demo_conf (sent_form demo_conf (take 12 (drop 4 demo_packet))) = Some ttl' \<and> unat ttl' = 254"
proof -
  let ?m = "take 12 (drop 4 demo_packet)"
  have "good_msg (ipsize demo_conf) ?m" by (simp add: demo_packet_def good_msg_def own_size_def demo_conf_def ipsize_def be_val_def)
  moreover have "msg_ttl demo_conf ?m = Some 255" "msg_hopcnt demo_conf ?m = Some 0" by (simp_all add: msg_field_defs demo_packet_def demo_conf_def ipsize_def)
  moreover have "\<not> ttl_is_1 255 0" by (simp add: ttl_is_1_def)
  ultimately show ?thesis using forward_ages [of demo_conf ?m 255 0] by auto
qed


section \<open>A node that relays\<close>

text \<open>
  The calls of the parser on this state: messages are forwarded and collisions of the own address
  counted. No handler is registered and the hysteresis is off.
\<close>

definition relay_calls :: "olsrd_config \<Rightarrow> u16 \<Rightarrow> (nat \<Rightarrow> packet_transform) \<Rightarrow> relay parser_calls" where
  "relay_calls cnf port ptf = \<lparr>parse_function = (\<lambda>f m i a st. None), packetparser_function = (\<lambda>f s p i a st. None),
     preprocessor_function = (\<lambda>f p i a st. None), hysteresis_incoming = (\<lambda>a i s st. None),
     originator_collision = (\<lambda>type seqno st. Some (olsr_test_originator_collision type seqno st)),
     forward_message = (\<lambda>m i a st. map_option snd (olsr_forward_message cnf port ptf m i a st))\<rparr>"

definition relay_parser :: parser where
  "relay_parser = \<lparr>parse_functions = [], preprocessor_functions = [], packetparser_functions = []\<rparr>"

lemma collision_keeps: "relay_ok ptf st \<Longrightarrow> relay_ok ptf (olsr_test_originator_collision type seqno st)"
  by (simp add: relay_ok_def olsr_test_originator_collision_def)

interpretation relay_node: packet_client cnf False "relay_calls cnf port ptf" relay_parser "relay_ok ptf" for cnf port ptf
proof unfold_locales
  fix st m in_if from_addr assume "relay_ok ptf st" "good_msg (ipsize cnf) m"
  thus "\<exists>st'. forward_message (relay_calls cnf port ptf) m in_if from_addr st = Some st' \<and> relay_ok ptf st'"
    using forward_ok [of ptf st cnf m port in_if from_addr] by (auto simp: relay_calls_def)
qed (simp_all add: relay_calls_def relay_parser_def collision_keeps)


subsection \<open>A concrete node\<close>

text \<open>A neighbour 1.0.0.0 that is symmetric and a relay selector, and a message it relays.\<close>

definition demo_relay :: relay where
  "demo_relay = \<lparr>rl_nb = demo_db, rl_mprs = demo_mprs, rl_dups = empty_dups, rl_ifs = [demo_out], rl_net = demo_net, rl_now = 0,
     rl_delays = (\<lambda>_. 100), rl_draws = 0, message_seqno = 0, spam_orig_counter = 0, duplicate_handlers = [], collisions = []\<rparr>"

definition demo_fwd :: "u8 list" where
  "demo_fwd = [202, 0, 0, 12, 10, 0, 0, 2, 255, 0, 0, 1]"

lemma demo_relay_ok: "relay_ok ptf demo_relay"
proof -
  have "nb_core demo_db" using demo_inv by (simp add: nb_inv_def)
  moreover have "mprs_ok demo_mprs" using demo_mprs_running by (simp add: mprs_running_def)
  moreover have "if_ready demo_out" by (simp add: if_ready_def demo_out_def netbuf_ok_def OLSR_HEADERSIZE_def)
  ultimately show ?thesis using empty_dups_ok(1) by (simp add: relay_ok_def demo_relay_def demo_net_def transforms_ok_def)
qed

lemma demo_fwd_good: "good_msg (ipsize demo_conf) demo_fwd"
  by (simp add: demo_fwd_def good_msg_def own_size_def demo_conf_def ipsize_def be_val_def)

lemma demo_sender: "flood_sender (V4 1) (demo_relay\<lparr>rl_dups := d\<rparr>)"
proof -
  have m: "mid_lookup_main_addr a demo_db = Some None" for a by (simp add: mid_lookup_main_addr_def demo_db_def)
  have "olsr_lookup_neighbor_table (V4 1) demo_db = Some (Some 0)"
    by (auto simp: olsr_lookup_neighbor_table_def m olsr_lookup_neighbor_table_alias_def) 
       (auto simp: demo_db_def demo_nbr_def new_neighbor_def queue_elem_def)
  moreover have "sender_main (V4 1) (demo_relay\<lparr>rl_dups := d\<rparr>) = V4 1" by (simp add: sender_main_def demo_relay_def m)
  ultimately show ?thesis
    by (simp add: flood_sender_def sender_symmetric_def demo_relay_def selectors_of_def demo_mprs_def)
       (simp add: demo_db_def demo_nbr_def)
qed

lemma demo_fwd_fields: "msg_originator demo_conf demo_fwd = Some (V4 0x0200000a)" "msg_seqno demo_conf demo_fwd = Some 1"
  by (simp_all add: msg_field_defs demo_fwd_def demo_conf_def ipsize_def ip_of_bytes_def v4_of_bytes_def be_val_def)

theorem forward_rule_witness:
  "\<exists>st'. olsr_forward_message demo_conf 698 (\<lambda>_. Some) demo_fwd 0 (V4 1) demo_relay = Some (1, st') \<and>
     payload (netbuf (rl_ifs st' ! 0)) = age_message demo_conf demo_fwd"
proof -
  have f: "flood_sender (V4 1) demo_relay" using demo_sender [of empty_dups] by (simp add: demo_relay_def)
  have k: "\<not> msg_known demo_conf demo_fwd demo_relay" by (simp add: msg_known_def demo_relay_def empty_dups_ok spec_check_def)
  have t: "msg_ttl demo_conf demo_fwd = Some 255" "msg_hopcnt demo_conf demo_fwd = Some 0" "\<not> ttl_is_1 255 0"
    by (simp_all add: msg_field_defs demo_fwd_def demo_conf_def ipsize_def ttl_is_1_def)
  have s: "sent_form demo_conf demo_fwd = age_message demo_conf demo_fwd" using t by (simp add: sent_form_def)
  have n: "own_size (age_message demo_conf demo_fwd) = 12" "own_msg (age_message demo_conf demo_fwd) = age_message demo_conf demo_fwd"
    by (simp_all add: own_msg_def age_size) (simp_all add: own_size_def demo_fwd_def be_val_def)
  obtain r st' where o: "olsr_forward_message demo_conf 698 (\<lambda>_. Some) demo_fwd 0 (V4 1) demo_relay = Some (r, st')" "r = 1"
    "\<forall>j<length (rl_ifs demo_relay). forwarded 0 (ttl_is_1 255 0) (sent_form demo_conf demo_fwd) j (rl_ifs demo_relay ! j) (rl_ifs st' ! j)"
    using forward_rule [OF demo_relay_ok [of "\<lambda>_. Some"] demo_fwd_good, of 698 0 "V4 1"] f k by (auto simp: t)
  have "forwarded 0 (ttl_is_1 255 0) (age_message demo_conf demo_fwd) 0 demo_out (rl_ifs st' ! 0)" using o(3) s by (simp add: demo_relay_def)
  hence "payload (netbuf (rl_ifs st' ! 0)) = age_message demo_conf demo_fwd"
    using t(3) n by (simp add: forwarded_def skip_if_def queued_def demo_out_def demo_if_def payload_def)
  with o(1,2) show ?thesis by blast
qed



end
