(* ===== verification/Olsr_Process_Routes.thy ===== *)
theory Olsr_Process_Routes
  imports Olsr_Topology
begin

unbundle bit_operations_syntax

text \<open>
  From the routing information base to the routes of the kernel (\<^verbatim>\<open>src/process_routes.c\<close>): outdated
  paths are dropped, the best path of every prefix is elected, changes are queued and sent to the
  kernel. The functions that add and delete routes are called through pointers that plugins may
  replace; what they are called with is recorded, together with their outcome, which is part of
  the state. A route entry that has left the tree lives in a store of its own until it is freed.
\<close>

section \<open>The state\<close>

datatype kernel_call =
    Add_route olsr_ip_prefix rt_nexthop rt_metric
  | Del_route olsr_ip_prefix rt_nexthop rt_metric
  | Niit_route olsr_ip_prefix bool

record kernel =
  chg_kernel_list :: "ptr list"
  del_kernel_list :: "ptr list"
  detached :: "ptr \<rightharpoonup> rt_entry"
  kernel_calls :: "(kernel_call \<times> bool) list"
  kernel_ok :: "nat \<Rightarrow> bool"

text \<open>The options, and whether the exported functions are those of the daemon.\<close>

record kr_config =
  host_emul :: bool
  use_niit :: bool
  own_export :: bool

definition do_call :: "kernel_call \<Rightarrow> kernel \<Rightarrow> bool \<times> kernel" where
  "do_call c k = (let r = kernel_ok k (length (kernel_calls k)) in (r, k\<lparr>kernel_calls := kernel_calls k @ [(c, r)]\<rparr>))"

definition olsr_init_export_route :: "kernel \<Rightarrow> kernel" where
  "olsr_init_export_route k = k\<lparr>chg_kernel_list := [], del_kernel_list := []\<rparr>"

section \<open>Queues\<close>

definition RTF_UP :: u8 where "RTF_UP = 1"
definition RTF_GATEWAY :: u8 where "RTF_GATEWAY = 2"
definition RTF_HOST :: u8 where "RTF_HOST = 4"

definition olsr_rt_flags :: "olsrd_config \<Rightarrow> rt_entry \<Rightarrow> 'lq lsdb \<Rightarrow> u8 option" where
  "olsr_rt_flags cnf rt db = do {
     let flags = (if prefix_len (rt_dst rt) = maxplen cnf then RTF_UP OR RTF_HOST else RTF_UP);
     nh \<leftarrow> olsr_get_nh rt db;
     Some (if \<not> ipequal (prefix (rt_dst rt)) (gateway nh) then flags OR RTF_GATEWAY else flags)
   }"

text \<open>The place of an entry in a queue: routes to a next hop come first.\<close>

definition place :: "ptr \<Rightarrow> rt_entry \<Rightarrow> 'lq lsdb \<Rightarrow> ptr list \<Rightarrow> ptr list option" where
  "place x rt db l = do {
     nh \<leftarrow> olsr_get_nh rt db;
     Some (if ipequal (prefix (rt_dst rt)) (gateway nh) then x # l else l @ [x])
   }"

definition on_list :: "ptr \<Rightarrow> kernel \<Rightarrow> bool" where
  "on_list x k \<longleftrightarrow> x \<in> set (chg_kernel_list k) \<or> x \<in> set (del_kernel_list k)"

definition enqueue_chg :: "ptr \<Rightarrow> rt_entry \<Rightarrow> 'lq lsdb \<Rightarrow> kernel \<Rightarrow> kernel option" where
  "enqueue_chg x rt db k =
     (if on_list x k then Some k else map_option (\<lambda>l. k\<lparr>chg_kernel_list := l\<rparr>) (place x rt db (chg_kernel_list k)))"

definition enqueue_del :: "ptr \<Rightarrow> rt_entry \<Rightarrow> 'lq lsdb \<Rightarrow> kernel \<Rightarrow> kernel option" where
  "enqueue_del x rt db k =
     (if on_list x k then Some k else map_option (\<lambda>l. k\<lparr>del_kernel_list := l\<rparr>) (place x rt db (del_kernel_list k)))"

section \<open>Kernel routes\<close>

definition ip_is_linklocal :: "olsrd_config \<Rightarrow> olsr_ip_addr \<Rightarrow> bool" where
  "ip_is_linklocal cnf a \<longleftrightarrow> ip_v6 cnf \<and> ip_bytes a ! 0 = 0xfe \<and> ip_bytes a ! 1 AND 0xc0 = 0x80"

definition niit_call :: "kr_config \<Rightarrow> olsr_ip_prefix \<Rightarrow> bool \<Rightarrow> kernel \<Rightarrow> kernel" where
  "niit_call kc d b k = (if use_niit kc then snd (do_call (Niit_route d b) k) else k)"

definition olsr_delete_kernel_route :: "olsrd_config \<Rightarrow> kr_config \<Rightarrow> rt_entry \<Rightarrow> kernel \<Rightarrow> kernel" where
  "olsr_delete_kernel_route cnf kc rt k =
     (if rtm_hops (rt_metric rt) > 1 \<and> ip_is_linklocal cnf (prefix (rt_dst rt)) then k
      else if host_emul kc then k
      else niit_call kc (rt_dst rt) False (snd (do_call (Del_route (rt_dst rt) (rt_nexthop rt) (rt_metric rt)) k)))"

definition olsr_add_kernel_route :: "olsrd_config \<Rightarrow> kr_config \<Rightarrow> ptr \<Rightarrow> 'lq lsdb \<times> kernel \<Rightarrow> ('lq lsdb \<times> kernel) option" where
  "olsr_add_kernel_route cnf kc x = (\<lambda>(db, k). do {
     rt \<leftarrow> rt_entries db x;
     b \<leftarrow> rt_best rt;
     rp \<leftarrow> rt_paths db b;
     if rtm_hops (rtp_metric rp) > 1 \<and> ip_is_linklocal cnf (prefix (rtp_dst rp)) then Some (db, k)
     else if host_emul kc then Some (db, k)
     else do {
       let (ok, k) = do_call (Add_route (rt_dst rt) (rtp_nexthop rp) (rtp_metric rp)) k;
       Some (if \<not> ok then (db, k)
         else (upd_rt x (\<lambda>rt. rt\<lparr>rt_nexthop := rtp_nexthop rp, rt_metric := rtp_metric rp\<rparr>) db, niit_call kc (rt_dst rt) True k))
     }
   })"

text \<open>Only where the kernel cannot replace a route is the old one deleted before.\<close>

definition olsr_chg_kernel_route :: "olsrd_config \<Rightarrow> kr_config \<Rightarrow> ptr \<Rightarrow> 'lq lsdb \<times> kernel \<Rightarrow> ('lq lsdb \<times> kernel) option" where
  "olsr_chg_kernel_route cnf kc x = (\<lambda>(db, k). do {
     rt \<leftarrow> rt_entries db x;
     let k = (if (ip_v6 cnf \<or> \<not> own_export kc) \<and> iif_index (rt_nexthop rt) > -1 then olsr_delete_kernel_route cnf kc rt k else k);
     (db, k) \<leftarrow> olsr_add_kernel_route cnf kc x (db, k);
     Some (db, k\<lparr>chg_kernel_list := remove1 x (chg_kernel_list k)\<rparr>)
   })"

definition olsr_chg_kernel_routes :: "olsrd_config \<Rightarrow> kr_config \<Rightarrow> 'lq lsdb \<times> kernel \<Rightarrow> ('lq lsdb \<times> kernel) option" where
  "olsr_chg_kernel_routes cnf kc s = foldM (olsr_chg_kernel_route cnf kc) (chg_kernel_list (snd s)) s"

definition olsr_del_kernel_route :: "olsrd_config \<Rightarrow> kr_config \<Rightarrow> ptr \<Rightarrow> kernel \<Rightarrow> kernel option" where
  "olsr_del_kernel_route cnf kc x k = do {
     rt \<leftarrow> detached k x;
     let k = (if iif_index (rt_nexthop rt) \<ge> 0 then olsr_delete_kernel_route cnf kc rt k else k);
     Some (k\<lparr>del_kernel_list := remove1 x (del_kernel_list k), detached := (detached k)(x := None)\<rparr>)
   }"

text \<open>The queue is walked from its tail.\<close>

definition olsr_del_kernel_routes :: "olsrd_config \<Rightarrow> kr_config \<Rightarrow> kernel \<Rightarrow> kernel option" where
  "olsr_del_kernel_routes cnf kc k = foldM (olsr_del_kernel_route cnf kc) (rev (del_kernel_list k)) k"

definition olsr_update_kernel_routes :: "olsrd_config \<Rightarrow> kr_config \<Rightarrow> 'lq lsdb \<times> kernel \<Rightarrow> ('lq lsdb \<times> kernel) option" where
  "olsr_update_kernel_routes cnf kc s = do {
     k \<leftarrow> olsr_del_kernel_routes cnf kc (snd s);
     olsr_chg_kernel_routes cnf kc (fst s, k)
   }"

section \<open>The update of the base\<close>

text \<open>A path that leaves the tree of its prefix; the entry forgets it as its best one.\<close>

definition unlink_path :: "ptr \<Rightarrow> ptr \<Rightarrow> 'lq lsdb \<Rightarrow> 'lq lsdb option" where
  "unlink_path x r db = do {
     rt \<leftarrow> rt_entries db x;
     T \<leftarrow> avl_delete (rt_path_tree rt) r;
     Some (upd_rt x (\<lambda>rt. rt\<lparr>rt_path_tree := T, rt_best := (if rt_best rt = Some r then None else rt_best rt)\<rparr>)
       (upd_rtp r (\<lambda>rp. rp\<lparr>rtp_rt := None\<rparr>) db))
   }"

definition drop_outdated :: "ptr \<Rightarrow> ptr \<Rightarrow> 'lq lsdb \<Rightarrow> 'lq lsdb option" where
  "drop_outdated x r db = do {
     rp \<leftarrow> rt_paths db r;
     if routingtree_version db \<noteq> rtp_version rp then unlink_path x r db else Some db
   }"

definition olsr_delete_outdated_routes :: "ptr \<Rightarrow> 'lq lsdb \<Rightarrow> 'lq lsdb option" where
  "olsr_delete_outdated_routes x db = do {
     rt \<leftarrow> rt_entries db x;
     foldM (drop_outdated x) (map snd (avl_walk (rt_path_tree rt))) db
   }"

definition detach_entry :: "ptr \<Rightarrow> rt_entry \<Rightarrow> 'lq lsdb \<Rightarrow> kernel \<Rightarrow> ('lq lsdb \<times> kernel) option" where
  "detach_entry x rt db k = do {
     T \<leftarrow> avl_delete (routingtree db) x;
     Some (db\<lparr>routingtree := T, rt_entries := (rt_entries db)(x := None)\<rparr>, k\<lparr>detached := (detached k)(x \<mapsto> rt)\<rparr>)
   }"

definition update_rib_route :: "olsrd_config \<Rightarrow> ptr \<Rightarrow> 'lq lsdb \<times> kernel \<Rightarrow> ('lq lsdb \<times> kernel) option" where
  "update_rib_route cnf x = (\<lambda>(db, k). do {
     db \<leftarrow> olsr_delete_outdated_routes x db;
     rt \<leftarrow> rt_entries db x;
     if count (rt_path_tree rt) = 0 then do {
       (db, k) \<leftarrow> detach_entry x rt db k;
       k \<leftarrow> enqueue_del x rt db k;
       Some (db, k)
     } else do {
       db \<leftarrow> olsr_rt_best cnf x db;
       rt \<leftarrow> rt_entries db x;
       b \<leftarrow> rt_best rt;
       rp \<leftarrow> rt_paths db b;
       if olsr_nh_change (rtp_nexthop rp) (rt_nexthop rt) \<or>
          (fib_metric_correct cnf \<and> olsr_hopcount_change (rtp_metric rp) (rt_metric rt))
       then do { k \<leftarrow> enqueue_chg x rt db k; Some (db, k) }
       else Some (db, k)
     }
   })"

definition olsr_update_rib_routes :: "olsrd_config \<Rightarrow> 'lq lsdb \<times> kernel \<Rightarrow> ('lq lsdb \<times> kernel) option" where
  "olsr_update_rib_routes cnf s = foldM (update_rib_route cnf) (map snd (avl_walk (routingtree (fst s)))) s"

definition olsr_delete_all_kernel_routes :: "olsrd_config \<Rightarrow> kr_config \<Rightarrow> 'lq lsdb \<times> kernel \<Rightarrow> ('lq lsdb \<times> kernel) option" where
  "olsr_delete_all_kernel_routes cnf kc s = do {
     s \<leftarrow> olsr_update_rib_routes cnf (olsr_bump_routingtree_version (fst s), snd s);
     olsr_update_kernel_routes cnf kc s
   }"

definition olsr_force_kernelroutes_refresh :: "olsrd_config \<Rightarrow> kr_config \<Rightarrow> 'lq lsdb \<times> kernel \<Rightarrow> ('lq lsdb \<times> kernel) option" where
  "olsr_force_kernelroutes_refresh cnf kc s = do {
     k \<leftarrow> foldM (\<lambda>x k. do { rt \<leftarrow> rt_entries (fst s) x; enqueue_chg x rt (fst s) k }) (map snd (avl_walk (routingtree (fst s)))) (snd s);
     olsr_chg_kernel_routes cnf kc (fst s, k)
   }"

text \<open>The loss of an interface: the paths over it go, and entries without paths leave the tree.\<close>

definition drop_over_if :: "int \<Rightarrow> ptr \<Rightarrow> ptr \<Rightarrow> bool \<times> 'lq lsdb \<Rightarrow> (bool \<times> 'lq lsdb) option" where
  "drop_over_if if_index x r = (\<lambda>(might, db). do {
     rp \<leftarrow> rt_paths db r;
     rt \<leftarrow> rt_entries db x;
     if iif_index (rtp_nexthop rp) = if_index
     then map_option (Pair (might \<or> rt_best rt = Some r)) (unlink_path x r db)
     else Some (might, db)
   })"

definition drop_interface_routes :: "int \<Rightarrow> ptr \<Rightarrow> bool \<times> 'lq lsdb \<times> kernel \<Rightarrow> (bool \<times> 'lq lsdb \<times> kernel) option" where
  "drop_interface_routes if_index x = (\<lambda>(trigger, db, k). do {
     rt \<leftarrow> rt_entries db x;
     (might, db) \<leftarrow> foldM (drop_over_if if_index x) (map snd (avl_walk (rt_path_tree rt))) (False, db);
     rt \<leftarrow> rt_entries db x;
     (db, k) \<leftarrow> (if might \<and> count (rt_path_tree rt) = 0 then detach_entry x rt db k else Some (db, k));
     Some (trigger \<or> might, db, k)
   })"

definition olsr_delete_interface_routes :: "olsrd_config \<Rightarrow> kr_config \<Rightarrow> int \<Rightarrow> 'lq lsdb \<times> kernel \<Rightarrow> ('lq lsdb \<times> kernel) option" where
  "olsr_delete_interface_routes cnf kc if_index s = do {
     (trigger, db, k) \<leftarrow> foldM (drop_interface_routes if_index) (map snd (avl_walk (routingtree (fst s)))) (False, fst s, snd s);
     if trigger then do { s \<leftarrow> olsr_update_rib_routes cnf (db, k); olsr_update_kernel_routes cnf kc s } else Some (db, k)
   }"

section \<open>Dropping outdated paths\<close>

text \<open>The database after the paths in \<open>D\<close> have left the tree of the entry \<open>x\<close>.\<close>

definition trim_db :: "ptr \<Rightarrow> ptr set \<Rightarrow> (olsr_ip_addr, ptr) avl_tree \<Rightarrow> 'lq lsdb \<Rightarrow> 'lq lsdb" where
  "trim_db x D T db = db\<lparr>rt_paths := (\<lambda>r. if r \<in> D then map_option (\<lambda>rp. rp\<lparr>rtp_rt := None\<rparr>) (rt_paths db r) else rt_paths db r),
     rt_entries := (rt_entries db)(x := map_option (\<lambda>rt. rt\<lparr>rt_path_tree := T,
       rt_best := (if rt_best rt \<in> Some ` D then None else rt_best rt)\<rparr>) (rt_entries db x))\<rparr>"

lemma trim_trim: "trim_db x D2 T2 (trim_db x D1 T1 db) = trim_db x (D1 \<union> D2) T2 db"
proof (rule lsdb.equality)
  show "rt_entries (trim_db x D2 T2 (trim_db x D1 T1 db)) = rt_entries (trim_db x (D1 \<union> D2) T2 db)"
    by (cases "rt_entries db x") (auto simp: trim_db_def)
qed (auto simp: trim_db_def fun_eq_iff option.map_comp comp_def)

lemma trim_none: "rt_entries db x = Some rt \<Longrightarrow> trim_db x {} (rt_path_tree rt) db = db"
  by (auto simp: trim_db_def fun_eq_iff)

lemma trim_keys:
  "vertex_key (trim_db x D T db) = vertex_key db" "edge_key (trim_db x D T db) = edge_key db" "edge_ends (trim_db x D T db) = edge_ends db"
  "prefix_key (trim_db x D T db) = prefix_key db" "entry_key (trim_db x D T db) = entry_key db"
  "path_key (trim_db x D T db) y r = (if r \<in> D then None else path_key db y r)"
  by (auto simp: key_defs trim_db_def fun_eq_iff option.map_comp comp_def split: option.splits)

lemma trim_ok:
  assumes ok: "lsdb_ok db" and x: "rt_entries db x = Some rt" and r: "path_key db x r = Some a"
  shows "\<exists>T. unlink_path x r db = Some (trim_db x {r} T db) \<and> lsdb_ok (trim_db x {r} T db)"
proof -
  note D = lsdb_okD [OF ok]
  from indexes_delete [OF D(5) [OF x] r] obtain T where T: "avl_delete (rt_path_tree rt) r = Some T" "indexes T ((path_key db x)(r := None))" by blast
  from r obtain rp where rp: "rt_paths db r = Some rp" "rtp_rt rp = Some x" by (auto simp: path_key_def split: option.splits if_splits)
  let ?db = "trim_db x {r} T db"
  have "unlink_path x r db = Some ?db"
    using x T(1) by (auto simp: unlink_path_def trim_db_def upd_rt_def upd_rtp_def fun_eq_iff)
  moreover have "lsdb_ok ?db"
  proof (rule lsdb_okI, goal_cases)
    case 1 show ?case using D(1) unfolding trim_keys by (simp add: trim_db_def)
  next
    case (2 p tc) thus ?case using D(2) unfolding vertex_ok_def trim_keys by (simp add: trim_db_def)
  next
    case (3 e ed) thus ?case using D(3) unfolding edge_wf_def trim_keys by (simp add: trim_db_def)
  next
    case 4 show ?case using D(4) unfolding trim_keys by (simp add: trim_db_def)
  next
    case (5 y rty)
    have k: "path_key ?db y = (path_key db y)(r := None)" by (auto simp: trim_keys fun_eq_iff)
    show ?case
    proof (cases "y = x")
      case True
      thus ?thesis using 5 T(2) x unfolding k by (auto simp: trim_db_def)
    next
      case False
      hence "(path_key db y)(r := None) = path_key db y" using rp by (auto simp: path_key_def fun_eq_iff)
      thus ?thesis using 5 False D(5) unfolding k by (simp add: trim_db_def)
    qed
  next
    case (6 i rpi)
    then obtain rp0 where rp0: "rt_paths db i = Some rp0" "rpi = rp0 \<or> rpi = rp0\<lparr>rtp_rt := None\<rparr>" by (auto simp: trim_db_def split: if_splits)
    hence "path_wf db rpi" using D(6) [OF rp0(1)] by (auto simp: path_wf_def split: option.splits)
    thus ?case by (rule path_wf_mono) (simp_all only: trim_keys, simp add: trim_db_def)
  next
    case (7 q) thus ?case using D(7) x by (auto simp: allocated_def trim_db_def split: if_splits)
  next
    case (8 q) thus ?case using D(8) [of q] by (auto simp: trim_db_def)
  qed
  ultimately show ?thesis by blast
qed

definition stale :: "'lq lsdb \<Rightarrow> ptr \<Rightarrow> bool" where
  "stale db r \<longleftrightarrow> (\<exists>rp. rt_paths db r = Some rp \<and> rtp_version rp \<noteq> routingtree_version db)"

lemma stale_trim [simp]: "stale (trim_db x D T db) r = stale db r"
  by (auto simp: stale_def trim_db_def)

lemma drop_all_ok:
  "lsdb_ok db \<Longrightarrow> rt_entries db x \<noteq> None \<Longrightarrow> distinct rs \<Longrightarrow> \<forall>r\<in>set rs. path_key db x r \<noteq> None \<Longrightarrow>
   \<exists>T. foldM (drop_outdated x) rs db = Some (trim_db x {r \<in> set rs. stale db r} T db) \<and> lsdb_ok (trim_db x {r \<in> set rs. stale db r} T db)"
proof (induction rs arbitrary: db)
  case Nil
  thus ?case using trim_none [of db x] by (auto intro!: exI [of _ "rt_path_tree (the (rt_entries db x))"])
next
  case (Cons r rs)
  obtain a where a: "path_key db x r = Some a" using Cons.prems(4) by auto
  obtain rt where rt: "rt_entries db x = Some rt" using Cons.prems(2) by blast
  obtain rp where rp: "rt_paths db r = Some rp" using a by (auto simp: path_key_def split: option.splits)
  obtain T1 where 1: "drop_outdated x r db = Some (trim_db x (if stale db r then {r} else {}) T1 db)"
    "lsdb_ok (trim_db x (if stale db r then {r} else {}) T1 db)"
  proof (cases "stale db r")
    case True
    thus ?thesis using that trim_ok [OF Cons.prems(1) rt a] rp by (auto simp: drop_outdated_def stale_def)
  next
    case False
    thus ?thesis using that [of "rt_path_tree rt"] trim_none [OF rt] rp Cons.prems(1) by (auto simp: drop_outdated_def stale_def)
  qed
  let ?db1 = "trim_db x (if stale db r then {r} else {}) T1 db"
  have "rt_entries ?db1 x \<noteq> None" using rt by (simp add: trim_db_def)
  moreover have "\<forall>q\<in>set rs. path_key ?db1 x q \<noteq> None" using Cons.prems(3,4) by (auto simp: trim_keys)
  ultimately obtain T where 2: "foldM (drop_outdated x) rs ?db1 = Some (trim_db x {q \<in> set rs. stale db q} T ?db1)"
    "lsdb_ok (trim_db x {q \<in> set rs. stale db q} T ?db1)" using Cons.IH [OF 1(2)] Cons.prems(3) by auto
  have u: "(if stale db r then {r} else {}) \<union> {q \<in> set rs. stale db q} = {q \<in> set (r # rs). stale db q}" by auto
  show ?case using 1(1) 2 unfolding trim_trim u by auto
qed

lemma delete_outdated_ok:
  assumes ok: "lsdb_ok db" and x: "rt_entries db x = Some rt"
  shows "\<exists>T. olsr_delete_outdated_routes x db = Some (trim_db x {r. path_key db x r \<noteq> None \<and> stale db r} T db) \<and>
    lsdb_ok (trim_db x {r. path_key db x r \<noteq> None \<and> stale db r} T db)"
proof -
  let ?rs = "map snd (avl_walk (rt_path_tree rt))"
  note ix = lsdb_okD(5) [OF ok x]
  have m: "r \<in> set ?rs \<longleftrightarrow> path_key db x r \<noteq> None" for r by (rule indexes_nodes [OF ix])
  hence e: "{r \<in> set ?rs. stale db r} = {r. path_key db x r \<noteq> None \<and> stale db r}" by blast
  have "rt_entries db x \<noteq> None" "\<forall>r\<in>set ?rs. path_key db x r \<noteq> None" using x m by simp_all
  from drop_all_ok [OF ok this(1) indexes_distinct [OF ix] this(2)] show ?thesis unfolding e using x by (simp add: olsr_delete_outdated_routes_def)
qed

section \<open>One entry\<close>

text \<open>An entry is alive if a path of the current version belongs to it.\<close>

definition alive :: "'lq lsdb \<Rightarrow> ptr \<Rightarrow> bool" where
  "alive db x \<longleftrightarrow> (\<exists>r rp. rt_paths db r = Some rp \<and> rtp_rt rp = Some x \<and> rtp_version rp = routingtree_version db)"

text \<open>What the kernel knows of an entry.\<close>

definition same_route :: "rt_entry \<Rightarrow> rt_entry \<Rightarrow> bool" where
  "same_route rt rt' \<longleftrightarrow> rt_dst rt' = rt_dst rt \<and> rt_nexthop rt' = rt_nexthop rt \<and> rt_metric rt' = rt_metric rt"

definition route_changed :: "olsrd_config \<Rightarrow> rt_entry \<Rightarrow> rt_path \<Rightarrow> bool" where
  "route_changed cnf rt rp \<longleftrightarrow> olsr_nh_change (rtp_nexthop rp) (rt_nexthop rt) \<or>
     (fib_metric_correct cnf \<and> olsr_hopcount_change (rtp_metric rp) (rt_metric rt))"

definition elected :: "olsrd_config \<Rightarrow> 'lq lsdb \<Rightarrow> ptr \<Rightarrow> ptr \<Rightarrow> rt_path \<Rightarrow> bool" where
  "elected cnf db x b rp \<longleftrightarrow> rt_paths db b = Some rp \<and> rtp_rt rp = Some x \<and>
     (\<exists>g. \<forall>r rq. rt_paths db r = Some rq \<and> rtp_rt rq = Some x \<longrightarrow> \<not> olsr_cmp_rtp cnf (r, rq) (b, rp) g)"

text \<open>The paths when those of the entries in \<open>X\<close> that are outdated have been unlinked.\<close>

definition paths_trimmed :: "ptr set \<Rightarrow> 'lq lsdb \<Rightarrow> 'lq lsdb \<Rightarrow> bool" where
  "paths_trimmed X db db' \<longleftrightarrow> routingtree_version db' = routingtree_version db \<and> heap_next db' = heap_next db \<and>
     (\<forall>r. rt_paths db' r = (if stale db r \<and> (\<exists>x\<in>X. path_key db x r \<noteq> None)
       then map_option (\<lambda>rp. rp\<lparr>rtp_rt := None\<rparr>) (rt_paths db r) else rt_paths db r))"

lemma count_zero:
  assumes "lsdb_ok db" "heap_next db < 2 ^ 31" "rt_entries db x = Some rt"
  shows "count (rt_path_tree rt) = 0 \<longleftrightarrow> (\<forall>r. path_key db x r = None)"
proof -
  note ix = lsdb_okD(5) [OF assms(1,3)]
  have "avl_inv (rt_path_tree rt)" using uix.uniq_inv indexes_uniq [OF ix] by blast
  hence c: "count (rt_path_tree rt) = of_nat (length (avl_walk (rt_path_tree rt)))" by (rule avl_inv_facts(6))
  have "n < heap_next db" if "path_key db x n \<noteq> None" for n
    using lsdb_okD(7) [OF assms(1), of n] that by (auto simp: path_key_def allocated_def split: option.splits)
  hence "length (avl_walk (rt_path_tree rt)) \<le> heap_next db" using length_index_le [OF ix] by blast
  hence "length (avl_walk (rt_path_tree rt)) < 2 ^ 32" using assms(2) by simp
  hence "count (rt_path_tree rt) = 0 \<longleftrightarrow> avl_walk (rt_path_tree rt) = []" unfolding c
    by (cases "avl_walk (rt_path_tree rt) = []") (auto simp: word_of_nat_eq_0_iff dest: dvd_imp_le)
  also have "\<dots> \<longleftrightarrow> (\<forall>r. path_key db x r = None)" using indexes_nodes [OF ix] by (cases "avl_walk (rt_path_tree rt)") fastforce+
  finally show ?thesis .
qed

lemma detach_ok:
  assumes ok: "lsdb_ok db" and x: "rt_entries db x = Some rt" and e: "\<forall>r. path_key db x r = None"
  shows "\<exists>T. avl_delete (routingtree db) x = Some T \<and> lsdb_ok (db\<lparr>routingtree := T, rt_entries := (rt_entries db)(x := None)\<rparr>)"
proof -
  note D = lsdb_okD [OF ok]
  have "entry_key db x = Some (rt_dst rt)" using x by (simp add: entry_key_def)
  from indexes_delete [OF D(4) this] obtain T where T: "avl_delete (routingtree db) x = Some T" "indexes T ((entry_key db)(x := None))" by blast
  let ?db = "db\<lparr>routingtree := T, rt_entries := (rt_entries db)(x := None)\<rparr>"
  have k: "vertex_key ?db = vertex_key db" "edge_key ?db = edge_key db" "edge_ends ?db = edge_ends db" "prefix_key ?db = prefix_key db"
    "path_key ?db = path_key db" "entry_key ?db = (entry_key db)(x := None)"
    by (auto simp: key_defs fun_eq_iff split: option.splits)
  have "lsdb_ok ?db"
  proof (rule lsdb_okI, goal_cases)
    case (2 p tc) thus ?case using D(2) unfolding vertex_ok_def k by simp
  next
    case (3 e ed) thus ?case using D(3) unfolding edge_wf_def k by simp
  next
    case (6 i rpi)
    hence i: "rt_paths db i = Some rpi" by simp
    have "rtp_rt rpi \<noteq> Some x" using e [rule_format, of i] i by (auto simp: path_key_def split: option.splits)
    thus ?case using D(6) [OF i] unfolding path_wf_def k by (auto split: option.splits)
  next
    case (7 q) thus ?case using D(7) by (auto simp: allocated_def split: if_splits)
  next
    case (8 q) thus ?case using D(8) [of q] by simp
  qed (use D(1,5) T(2) in \<open>simp_all add: k split: if_splits\<close>)
  with T(1) show ?thesis by blast
qed

lemma place_ok: "olsr_get_nh rt db \<noteq> None \<Longrightarrow> \<exists>l'. place x rt db l = Some l' \<and> set l' = insert x (set l) \<and> (x \<notin> set l \<longrightarrow> distinct l \<longrightarrow> distinct l')"
  by (auto simp: place_def)

text \<open>The paths of an entry after the outdated ones have been dropped.\<close>

lemma trimmed_facts:
  fixes db :: "'lq lsdb"
  assumes x: "rt_entries db x = Some rt" and d: "D = {r. path_key db x r \<noteq> None \<and> stale db r}"
  shows "\<exists>rt1. rt_entries (trim_db x D T db) = (rt_entries db)(x \<mapsto> rt1) \<and> same_route rt rt1 \<and>
      (\<forall>r. rt_best rt1 = Some r \<longrightarrow> rt_best rt = Some r)"
    and "(\<forall>r. path_key (trim_db x D T db) x r = None) \<longleftrightarrow> \<not> alive db x" and "paths_trimmed {x} db (trim_db x D T db)"
proof -
  show "\<exists>rt1. rt_entries (trim_db x D T db) = (rt_entries db)(x \<mapsto> rt1) \<and> same_route rt rt1 \<and> (\<forall>r. rt_best rt1 = Some r \<longrightarrow> rt_best rt = Some r)"
    using x by (intro exI [of _ "rt\<lparr>rt_path_tree := T, rt_best := (if rt_best rt \<in> Some ` D then None else rt_best rt)\<rparr>"])
      (simp add: trim_db_def same_route_def)
  have "path_key db x r \<noteq> None \<and> \<not> stale db r \<longleftrightarrow> (\<exists>rp. rt_paths db r = Some rp \<and> rtp_rt rp = Some x \<and> rtp_version rp = routingtree_version db)" for r
    by (auto simp: path_key_def stale_def split: option.splits)
  hence "alive db x \<longleftrightarrow> (\<exists>r. path_key db x r \<noteq> None \<and> \<not> stale db r)" unfolding alive_def by blast
  thus "(\<forall>r. path_key (trim_db x D T db) x r = None) \<longleftrightarrow> \<not> alive db x" by (auto simp: trim_keys d)
  show "paths_trimmed {x} db (trim_db x D T db)" by (auto simp: paths_trimmed_def trim_db_def d)
qed

lemma update_dead_ok:
  fixes db :: "'lq lsdb"
  assumes ok: "lsdb_ok db" "heap_next db < 2 ^ 31" and x: "rt_entries db x = Some rt" and dead: "\<not> alive db x"
    and best: "\<forall>r. rt_best rt = Some r \<longrightarrow> rt_paths db r \<noteq> None" and off: "\<not> on_list x k"
  shows "\<exists>db' k' rt'. update_rib_route cnf x (db, k) = Some (db', k') \<and> lsdb_ok db' \<and> paths_trimmed {x} db db' \<and> rt_entries db' = (rt_entries db)(x := None) \<and>
    same_route rt rt' \<and> detached k' = (detached k)(x \<mapsto> rt') \<and> chg_kernel_list k' = chg_kernel_list k \<and> set (del_kernel_list k') = insert x (set (del_kernel_list k)) \<and>
    (distinct (del_kernel_list k) \<longrightarrow> distinct (del_kernel_list k')) \<and> kernel_calls k' = kernel_calls k \<and> kernel_ok k' = kernel_ok k"
proof -
  let ?D = "{r. path_key db x r \<noteq> None \<and> stale db r}"
  obtain T where T: "olsr_delete_outdated_routes x db = Some (trim_db x ?D T db)" "lsdb_ok (trim_db x ?D T db)" using delete_outdated_ok [OF ok(1) x] by blast
  let ?db1 = "trim_db x ?D T db"
  note t = trimmed_facts [OF x refl, of T]
  from t(1) obtain rt1 where rt1: "rt_entries ?db1 = (rt_entries db)(x \<mapsto> rt1)" "same_route rt rt1" "\<forall>r. rt_best rt1 = Some r \<longrightarrow> rt_best rt = Some r" by blast
  have e: "rt_entries ?db1 x = Some rt1" using rt1(1) by simp
  have n: "\<forall>r. path_key ?db1 x r = None" using t(2) dead by blast
  have h: "heap_next ?db1 < 2 ^ 31" using ok(2) by (simp add: trim_db_def)
  have c: "count (rt_path_tree rt1) = 0" using count_zero [OF T(2) h e] n by blast
  obtain U where U: "avl_delete (routingtree ?db1) x = Some U" "lsdb_ok (?db1\<lparr>routingtree := U, rt_entries := (rt_entries ?db1)(x := None)\<rparr>)"
    using detach_ok [OF T(2) e n] by blast
  let ?db2 = "?db1\<lparr>routingtree := U, rt_entries := (rt_entries ?db1)(x := None)\<rparr>" and ?k1 = "k\<lparr>detached := (detached k)(x \<mapsto> rt1)\<rparr>"
  have live: "rt_paths ?db1 r \<noteq> None" if "rt_best rt1 = Some r" for r using best rt1(3) that by (simp add: trim_db_def)
  have "olsr_get_nh rt1 ?db2 \<noteq> None" using live by (auto simp: olsr_get_nh_def split: option.split)
  from place_ok [OF this, of x "del_kernel_list k"] off obtain l where l: "place x rt1 ?db2 (del_kernel_list k) = Some l"
    "set l = insert x (set (del_kernel_list k))" "distinct (del_kernel_list k) \<longrightarrow> distinct l" by (auto simp: on_list_def)
  have "enqueue_del x rt1 ?db2 ?k1 = Some (?k1\<lparr>del_kernel_list := l\<rparr>)" using off l(1) by (simp add: enqueue_del_def on_list_def)
  hence res: "update_rib_route cnf x (db, k) = Some (?db2, ?k1\<lparr>del_kernel_list := l\<rparr>)"
    using T(1) e c U(1) by (simp add: update_rib_route_def detach_entry_def)
  have "paths_trimmed {x} db ?db2" using t(3) by (simp add: paths_trimmed_def)
  moreover have "rt_entries ?db2 = (rt_entries db)(x := None)" using rt1(1) by simp
  ultimately show ?thesis using res U(2) rt1(2) l(2,3) by (intro exI [of _ ?db2] exI [of _ "?k1\<lparr>del_kernel_list := l\<rparr>"] exI [of _ rt1]) simp
qed

lemma update_alive_ok:
  fixes db :: "'lq lsdb"
  assumes ok: "lsdb_ok db" "heap_next db < 2 ^ 31" and x: "rt_entries db x = Some rt" and al: "alive db x" and off: "\<not> on_list x k"
  shows "\<exists>db' l rt' b rp. update_rib_route cnf x (db, k) = Some (db', k\<lparr>chg_kernel_list := l\<rparr>) \<and> lsdb_ok db' \<and> paths_trimmed {x} db db' \<and>
    rt_entries db' = (rt_entries db)(x \<mapsto> rt') \<and> same_route rt rt' \<and> rt_best rt' = Some b \<and> elected cnf db' x b rp \<and>
    (if route_changed cnf rt rp then set l = insert x (set (chg_kernel_list k)) else l = chg_kernel_list k) \<and>
    (distinct (chg_kernel_list k) \<longrightarrow> distinct l)"
proof -
  let ?D = "{r. path_key db x r \<noteq> None \<and> stale db r}"
  obtain T where T: "olsr_delete_outdated_routes x db = Some (trim_db x ?D T db)" "lsdb_ok (trim_db x ?D T db)" using delete_outdated_ok [OF ok(1) x] by blast
  let ?db1 = "trim_db x ?D T db"
  note t = trimmed_facts [OF x refl, of T]
  from t(1) obtain rt1 where rt1: "rt_entries ?db1 = (rt_entries db)(x \<mapsto> rt1)" "same_route rt rt1" by blast
  have e: "rt_entries ?db1 x = Some rt1" using rt1(1) by simp
  have n: "\<not> (\<forall>r. path_key ?db1 x r = None)" using t(2) al by blast
  have h: "heap_next ?db1 < 2 ^ 31" using ok(2) by (simp add: trim_db_def)
  have c: "count (rt_path_tree rt1) \<noteq> 0" using count_zero [OF T(2) h e] n by blast
  have "avl_walk (rt_path_tree rt1) \<noteq> []" using n indexes_nodes [OF lsdb_okD(5) [OF T(2) e]] by auto
  from rt_best_ok [OF T(2) e this, of cnf] obtain b rp where b: "olsr_rt_best cnf x ?db1 = Some (with_best x rt1 b ?db1)" "lsdb_ok (with_best x rt1 b ?db1)"
    "path_key ?db1 x b \<noteq> None" "rt_paths ?db1 b = Some rp"
    "\<forall>r rp'. rt_paths ?db1 r = Some rp' \<and> rtp_rt rp' = Some x \<longrightarrow> \<not> olsr_cmp_rtp cnf (r, rp') (b, rp) (current_inetgw ?db1)" by (elim exE conjE)
  let ?db2 = "with_best x rt1 b ?db1" and ?rt2 = "rt1\<lparr>rt_best := Some b\<rparr>"
  have w: "rt_entries ?db2 = (rt_entries db)(x \<mapsto> ?rt2)" "rt_paths ?db2 = rt_paths ?db1" "routingtree_version ?db2 = routingtree_version ?db1" "heap_next ?db2 = heap_next ?db1"
    using rt1(1) by (simp_all add: with_best_def upd_rt_def)
  have "rtp_rt rp = Some x" using b(3,4) by (simp add: path_key_def split: if_splits)
  hence el: "elected cnf ?db2 x b rp" using b(4,5) unfolding elected_def w(2) by blast
  have ch: "route_changed cnf rt rp \<longleftrightarrow> olsr_nh_change (rtp_nexthop rp) (rt_nexthop ?rt2) \<or> (fib_metric_correct cnf \<and> olsr_hopcount_change (rtp_metric rp) (rt_metric ?rt2))"
    using rt1(2) by (simp add: route_changed_def same_route_def)
  have "olsr_get_nh ?rt2 ?db2 \<noteq> None" using b(4) w(2) by (simp add: olsr_get_nh_def)
  from place_ok [OF this, of x "chg_kernel_list k"] off obtain l where l: "place x ?rt2 ?db2 (chg_kernel_list k) = Some l"
    "set l = insert x (set (chg_kernel_list k))" "distinct (chg_kernel_list k) \<longrightarrow> distinct l" by (auto simp: on_list_def)
  let ?l = "if route_changed cnf rt rp then l else chg_kernel_list k"
  have res: "update_rib_route cnf x (db, k) = Some (?db2, k\<lparr>chg_kernel_list := ?l\<rparr>)"
    using T(1) e c b(1,4) w(1,2) ch off l(1) by (simp add: update_rib_route_def enqueue_chg_def)
  have "paths_trimmed {x} db ?db2" using t(3) unfolding paths_trimmed_def w .
  moreover have "same_route rt ?rt2" using rt1(2) by (simp add: same_route_def)
  ultimately show ?thesis using res b(2) w(1) el l(2,3)
    by (intro exI [of _ ?db2] exI [of _ ?l] exI [of _ ?rt2] exI [of _ b] exI [of _ rp]) auto
qed

section \<open>All entries\<close>

lemma trimmed_alive: "paths_trimmed X db db' \<Longrightarrow> alive db' y = alive db y"
proof -
  assume "paths_trimmed X db db'"
  hence v: "routingtree_version db' = routingtree_version db"
    "\<And>r. rt_paths db' r = (if stale db r \<and> (\<exists>x\<in>X. path_key db x r \<noteq> None) then map_option (\<lambda>rp. rp\<lparr>rtp_rt := None\<rparr>) (rt_paths db r) else rt_paths db r)"
    by (simp_all add: paths_trimmed_def)
  have "(\<exists>rp. rt_paths db' r = Some rp \<and> rtp_rt rp = Some y \<and> rtp_version rp = routingtree_version db) \<longleftrightarrow>
      (\<exists>rp. rt_paths db r = Some rp \<and> rtp_rt rp = Some y \<and> rtp_version rp = routingtree_version db)" for r
    unfolding v(2) by (auto simp: stale_def)
  thus ?thesis unfolding alive_def v(1) by blast
qed

lemma trimmed_stale: "paths_trimmed X db db' \<Longrightarrow> stale db' r = stale db r"
  by (auto simp: paths_trimmed_def stale_def split: if_splits)

lemma linked_iff: "path_key db x r \<noteq> None \<longleftrightarrow> (\<exists>rp. rt_paths db r = Some rp \<and> rtp_rt rp = Some x)"
  by (auto simp: path_key_def split: option.splits)

lemma trimmed_key: "paths_trimmed X db db' \<Longrightarrow> path_key db' y r \<noteq> None \<longleftrightarrow> path_key db y r \<noteq> None \<and> \<not> (stale db r \<and> y \<in> X)"
proof -
  assume "paths_trimmed X db db'"
  hence v: "rt_paths db' r = (if stale db r \<and> (\<exists>x\<in>X. path_key db x r \<noteq> None) then map_option (\<lambda>rp. rp\<lparr>rtp_rt := None\<rparr>) (rt_paths db r) else rt_paths db r)"
    by (simp add: paths_trimmed_def)
  show ?thesis unfolding linked_iff using v unfolding linked_iff by auto
qed

lemma trimmed_trans:
  assumes "paths_trimmed X db db1" "paths_trimmed Y db1 db2"
  shows "paths_trimmed (X \<union> Y) db db2"
proof -
  have s: "stale db1 r = stale db r" "path_key db1 y r \<noteq> None \<longleftrightarrow> path_key db y r \<noteq> None \<and> \<not> (stale db r \<and> y \<in> X)" for r y
    using trimmed_stale [OF assms(1)] trimmed_key [OF assms(1)] by blast+
  have 1: "rt_paths db1 r = (if stale db r \<and> (\<exists>x\<in>X. path_key db x r \<noteq> None) then map_option (\<lambda>rp. rp\<lparr>rtp_rt := None\<rparr>) (rt_paths db r) else rt_paths db r)"
    and 2: "rt_paths db2 r = (if stale db1 r \<and> (\<exists>x\<in>Y. path_key db1 x r \<noteq> None) then map_option (\<lambda>rp. rp\<lparr>rtp_rt := None\<rparr>) (rt_paths db1 r) else rt_paths db1 r)"
    and v: "routingtree_version db2 = routingtree_version db" "heap_next db2 = heap_next db" for r
    using assms by (simp_all add: paths_trimmed_def)
  have "rt_paths db2 r = (if stale db r \<and> (\<exists>x\<in>X \<union> Y. path_key db x r \<noteq> None) then map_option (\<lambda>rp. rp\<lparr>rtp_rt := None\<rparr>) (rt_paths db r) else rt_paths db r)" for r
    unfolding 2 s 1 by (auto simp: option.map_comp comp_def)
  with v show ?thesis by (simp add: paths_trimmed_def)
qed

text \<open>What has been decided about an entry.\<close>

definition decided :: "olsrd_config \<Rightarrow> 'lq lsdb \<Rightarrow> kernel \<Rightarrow> 'lq lsdb \<Rightarrow> kernel \<Rightarrow> ptr \<Rightarrow> bool" where
  "decided cnf db k db' k' x \<longleftrightarrow> (\<exists>rt rt'. rt_entries db x = Some rt \<and> same_route rt rt' \<and>
     (if alive db x then \<exists>b rp. rt_entries db' x = Some rt' \<and> detached k' x = detached k x \<and> rt_best rt' = Some b \<and> elected cnf db' x b rp \<and>
        (x \<in> set (chg_kernel_list k') \<longleftrightarrow> route_changed cnf rt rp) \<and> x \<notin> set (del_kernel_list k')
      else rt_entries db' x = None \<and> detached k' x = Some rt' \<and> x \<in> set (del_kernel_list k') \<and> x \<notin> set (chg_kernel_list k')))"

definition untouched :: "'lq lsdb \<Rightarrow> kernel \<Rightarrow> 'lq lsdb \<Rightarrow> kernel \<Rightarrow> ptr \<Rightarrow> bool" where
  "untouched db k db' k' x \<longleftrightarrow> rt_entries db' x = rt_entries db x \<and> detached k' x = detached k x \<and>
     (x \<in> set (chg_kernel_list k') \<longleftrightarrow> x \<in> set (chg_kernel_list k)) \<and> (x \<in> set (del_kernel_list k') \<longleftrightarrow> x \<in> set (del_kernel_list k))"

definition best_live :: "'lq lsdb \<Rightarrow> bool" where
  "best_live db \<longleftrightarrow> (\<forall>x rt r. rt_entries db x = Some rt \<and> rt_best rt = Some r \<longrightarrow> rt_paths db r \<noteq> None)"

lemma trimmed_live: "paths_trimmed X db db' \<Longrightarrow> rt_paths db' r \<noteq> None \<longleftrightarrow> rt_paths db r \<noteq> None"
  by (auto simp: paths_trimmed_def)

text \<open>One step, in terms of what is decided and what is untouched.\<close>

lemma update_rib_route_ok:
  fixes db :: "'lq lsdb"
  assumes ok: "lsdb_ok db" "heap_next db < 2 ^ 31" "best_live db" and x: "rt_entries db x = Some rt" and off: "\<not> on_list x k"
    and dist: "distinct (chg_kernel_list k)" "distinct (del_kernel_list k)"
  shows "\<exists>db' k'. update_rib_route cnf x (db, k) = Some (db', k') \<and> lsdb_ok db' \<and> best_live db' \<and> paths_trimmed {x} db db' \<and>
    decided cnf db k db' k' x \<and> (\<forall>y. y \<noteq> x \<longrightarrow> untouched db k db' k' y) \<and> distinct (chg_kernel_list k') \<and> distinct (del_kernel_list k') \<and>
    kernel_calls k' = kernel_calls k \<and> kernel_ok k' = kernel_ok k"
proof (cases "alive db x")
  case True
  from update_alive_ok [OF ok(1,2) x True off, of cnf] obtain db' l rt' b rp where u: "update_rib_route cnf x (db, k) = Some (db', k\<lparr>chg_kernel_list := l\<rparr>)" "lsdb_ok db'"
    "paths_trimmed {x} db db'" "rt_entries db' = (rt_entries db)(x \<mapsto> rt')" "same_route rt rt'" "rt_best rt' = Some b" "elected cnf db' x b rp"
    "if route_changed cnf rt rp then set l = insert x (set (chg_kernel_list k)) else l = chg_kernel_list k" "distinct (chg_kernel_list k) \<longrightarrow> distinct l"
    by (elim exE conjE)
  have "best_live db'" unfolding best_live_def u(4) trimmed_live [OF u(3)]
  proof (intro allI impI)
    fix y rty r assume a: "((rt_entries db)(x \<mapsto> rt')) y = Some rty \<and> rt_best rty = Some r"
    show "rt_paths db r \<noteq> None"
    proof (cases "y = x")
      case True
      hence "r = b" using a u(6) by simp
      thus ?thesis using u(7) trimmed_live [OF u(3), of r] by (simp add: elected_def)
    qed (use a ok(3) in \<open>simp add: best_live_def\<close>)
  qed
  moreover have "decided cnf db k db' (k\<lparr>chg_kernel_list := l\<rparr>) x"
    unfolding decided_def using True x u(4-8) off by (intro exI [of _ rt] exI [of _ rt']) (auto simp: on_list_def split: if_splits)
  moreover have "untouched db k db' (k\<lparr>chg_kernel_list := l\<rparr>) y" if "y \<noteq> x" for y
    using that u(4,8) by (auto simp: untouched_def split: if_splits)
  ultimately show ?thesis using u(1-3,9) dist by (intro exI [of _ db'] exI [of _ "k\<lparr>chg_kernel_list := l\<rparr>"]) simp
next
  case False
  have best: "\<forall>r. rt_best rt = Some r \<longrightarrow> rt_paths db r \<noteq> None" using ok(3) x by (auto simp: best_live_def)
  from update_dead_ok [OF ok(1,2) x False best off, of cnf] obtain db' k' rt' where u: "update_rib_route cnf x (db, k) = Some (db', k')" "lsdb_ok db'"
    "paths_trimmed {x} db db'" "rt_entries db' = (rt_entries db)(x := None)" "same_route rt rt'" "detached k' = (detached k)(x \<mapsto> rt')"
    "chg_kernel_list k' = chg_kernel_list k" "set (del_kernel_list k') = insert x (set (del_kernel_list k))"
    "distinct (del_kernel_list k) \<longrightarrow> distinct (del_kernel_list k')" "kernel_calls k' = kernel_calls k" "kernel_ok k' = kernel_ok k" by (elim exE conjE)
  have "best_live db'" unfolding best_live_def u(4) trimmed_live [OF u(3)] using ok(3) by (auto simp: best_live_def)
  moreover have "decided cnf db k db' k' x"
    unfolding decided_def using False x u(4-8) off by (intro exI [of _ rt] exI [of _ rt']) (auto simp: on_list_def)
  moreover have "untouched db k db' k' y" if "y \<noteq> x" for y using that u(4,6-8) by (auto simp: untouched_def)
  ultimately show ?thesis using u dist by (intro exI [of _ db'] exI [of _ k']) simp
qed

lemma elected_keep:
  assumes "paths_trimmed X db db'" "x \<notin> X" "elected cnf db x b rp"
  shows "elected cnf db' x b rp"
proof -
  have "rt_paths db' r = Some rq \<and> rtp_rt rq = Some x \<longleftrightarrow> rt_paths db r = Some rq \<and> rtp_rt rq = Some x" for r rq
  proof -
    have v: "rt_paths db' r = (if stale db r \<and> (\<exists>x\<in>X. path_key db x r \<noteq> None) then map_option (\<lambda>rp. rp\<lparr>rtp_rt := None\<rparr>) (rt_paths db r) else rt_paths db r)"
      using assms(1) by (simp add: paths_trimmed_def)
    show ?thesis unfolding v linked_iff using assms(2) by auto
  qed
  thus ?thesis using assms(3) unfolding elected_def by blast
qed

lemma decided_later:
  assumes d: "decided cnf db k db1 k1 x" and t: "paths_trimmed X db1 db'" "x \<notin> X" and u: "untouched db1 k1 db' k' x"
  shows "decided cnf db k db' k' x"
proof -
  from d obtain rt rt' where r: "rt_entries db x = Some rt" "same_route rt rt'"
    "if alive db x then \<exists>b rp. rt_entries db1 x = Some rt' \<and> detached k1 x = detached k x \<and> rt_best rt' = Some b \<and> elected cnf db1 x b rp \<and>
        (x \<in> set (chg_kernel_list k1) \<longleftrightarrow> route_changed cnf rt rp) \<and> x \<notin> set (del_kernel_list k1)
      else rt_entries db1 x = None \<and> detached k1 x = Some rt' \<and> x \<in> set (del_kernel_list k1) \<and> x \<notin> set (chg_kernel_list k1)"
    unfolding decided_def by blast
  have "if alive db x then \<exists>b rp. rt_entries db' x = Some rt' \<and> detached k' x = detached k x \<and> rt_best rt' = Some b \<and> elected cnf db' x b rp \<and>
        (x \<in> set (chg_kernel_list k') \<longleftrightarrow> route_changed cnf rt rp) \<and> x \<notin> set (del_kernel_list k')
      else rt_entries db' x = None \<and> detached k' x = Some rt' \<and> x \<in> set (del_kernel_list k') \<and> x \<notin> set (chg_kernel_list k')"
    using r(3) elected_keep [OF t] u unfolding untouched_def by (cases "alive db x") (simp, blast, simp)
  thus ?thesis unfolding decided_def using r(1,2) by blast
qed

lemma decided_earlier:
  assumes "decided cnf db1 k1 db' k' y" "untouched db k db1 k1 y" "alive db1 y = alive db y"
  shows "decided cnf db k db' k' y"
  using assms unfolding decided_def untouched_def by auto

lemma untouched_trans: "untouched db k db1 k1 y \<Longrightarrow> untouched db1 k1 db' k' y \<Longrightarrow> untouched db k db' k' y"
  by (simp add: untouched_def)

lemma rib_fold_ok:
  fixes db :: "'lq lsdb"
  assumes "lsdb_ok db" "heap_next db < 2 ^ 31" "best_live db" "distinct xs" "\<forall>x\<in>set xs. rt_entries db x \<noteq> None \<and> \<not> on_list x k"
    "distinct (chg_kernel_list k)" "distinct (del_kernel_list k)"
  shows "\<exists>db' k'. foldM (update_rib_route cnf) xs (db, k) = Some (db', k') \<and> lsdb_ok db' \<and> paths_trimmed (set xs) db db' \<and>
    (\<forall>x\<in>set xs. decided cnf db k db' k' x) \<and> (\<forall>y. y \<notin> set xs \<longrightarrow> untouched db k db' k' y) \<and> distinct (chg_kernel_list k') \<and>
    distinct (del_kernel_list k') \<and> kernel_calls k' = kernel_calls k \<and> kernel_ok k' = kernel_ok k"
  using assms
proof (induction xs arbitrary: db k)
  case Nil
  thus ?case by (simp add: paths_trimmed_def untouched_def)
next
  case (Cons x xs)
  obtain rt where rt: "rt_entries db x = Some rt" "\<not> on_list x k" using Cons.prems(5) by auto
  from update_rib_route_ok [OF Cons.prems(1-3) rt Cons.prems(6,7), of cnf] obtain db1 k1 where 1: "update_rib_route cnf x (db, k) = Some (db1, k1)" "lsdb_ok db1"
    "best_live db1" "paths_trimmed {x} db db1" "decided cnf db k db1 k1 x" "\<forall>y. y \<noteq> x \<longrightarrow> untouched db k db1 k1 y" "distinct (chg_kernel_list k1)"
    "distinct (del_kernel_list k1)" "kernel_calls k1 = kernel_calls k" "kernel_ok k1 = kernel_ok k" by (elim exE conjE)
  have n: "y \<noteq> x" if "y \<in> set xs" for y using Cons.prems(4) that by auto
  have "heap_next db1 < 2 ^ 31" using 1(4) Cons.prems(2) by (simp add: paths_trimmed_def)
  moreover have "\<forall>y\<in>set xs. rt_entries db1 y \<noteq> None \<and> \<not> on_list y k1"
  proof
    fix y assume y: "y \<in> set xs"
    have "untouched db k db1 k1 y" using 1(6) n [OF y] by blast
    moreover have "rt_entries db y \<noteq> None" "\<not> on_list y k" using Cons.prems(5) y by simp_all
    ultimately show "rt_entries db1 y \<noteq> None \<and> \<not> on_list y k1" by (simp add: untouched_def on_list_def)
  qed
  ultimately obtain db' k' where 2: "foldM (update_rib_route cnf) xs (db1, k1) = Some (db', k')" "lsdb_ok db'" "paths_trimmed (set xs) db1 db'"
    "\<forall>x\<in>set xs. decided cnf db1 k1 db' k' x" "\<forall>y. y \<notin> set xs \<longrightarrow> untouched db1 k1 db' k' y" "distinct (chg_kernel_list k')" "distinct (del_kernel_list k')"
    "kernel_calls k' = kernel_calls k1" "kernel_ok k' = kernel_ok k1" using Cons.IH [OF 1(2) _ 1(3)] 1(7,8) Cons.prems(4) by (metis distinct.simps(2))
  have xn: "x \<notin> set xs" using Cons.prems(4) by simp
  have "decided cnf db k db' k' x" using decided_later [OF 1(5) 2(3) xn] 2(5) xn by blast
  moreover have "decided cnf db k db' k' y" if "y \<in> set xs" for y
    using decided_earlier [of cnf db1 k1 db' k' y] 2(4) 1(6) n [OF that] trimmed_alive [OF 1(4)] that by blast
  moreover have "untouched db k db' k' y" if "y \<notin> set (x # xs)" for y using 1(6) 2(5) that untouched_trans by simp blast
  moreover have "paths_trimmed (set (x # xs)) db db'" using trimmed_trans [OF 1(4) 2(3)] by simp
  ultimately show ?case using 1(1,9,10) 2(1,2,6-9) by (intro exI [of _ db'] exI [of _ k']) auto
qed

section \<open>The routes of the kernel\<close>

text \<open>The forwarding table that the accepted calls leave.\<close>

fun fib_step :: "(olsr_ip_prefix \<rightharpoonup> rt_nexthop) \<Rightarrow> kernel_call \<times> bool \<Rightarrow> (olsr_ip_prefix \<rightharpoonup> rt_nexthop)" where
  "fib_step F (Add_route d nh m, True) = F(d \<mapsto> nh)"
| "fib_step F (Del_route d nh m, True) = F(d := None)"
| "fib_step F _ = F"

definition fib :: "(olsr_ip_prefix \<rightharpoonup> rt_nexthop) \<Rightarrow> kernel \<Rightarrow> (olsr_ip_prefix \<rightharpoonup> rt_nexthop)" where
  "fib F k = foldl fib_step F (kernel_calls k)"

text \<open>Calls change the record of calls only.\<close>

definition same_queues :: "kernel \<Rightarrow> kernel \<Rightarrow> bool" where
  "same_queues k k' \<longleftrightarrow> k' = k\<lparr>kernel_calls := kernel_calls k'\<rparr>"

lemma same_queuesD: "same_queues k k' \<Longrightarrow> chg_kernel_list k' = chg_kernel_list k \<and> del_kernel_list k' = del_kernel_list k \<and> detached k' = detached k \<and> kernel_ok k' = kernel_ok k"
  unfolding same_queues_def by (metis kernel.select_convs kernel.surjective kernel.update_convs(4))

lemma same_queues_trans: "same_queues a b \<Longrightarrow> same_queues b c \<Longrightarrow> same_queues a c"
  by (cases a; cases b; cases c) (simp add: same_queues_def)

lemma fib_frame: "kernel_calls k' = kernel_calls k \<Longrightarrow> fib F k' = fib F k"
  by (simp add: fib_def)

lemma niit_fib: "fib F (niit_call kc d b k) = fib F k \<and> same_queues k (niit_call kc d b k)"
  by (simp add: niit_call_def do_call_def Let_def fib_def same_queues_def)

lemma delete_fib:
  assumes "kernel_ok k = (\<lambda>_. True)" "\<not> host_emul kc" "\<not> ip_is_linklocal cnf (prefix (rt_dst rt))"
  shows "fib F (olsr_delete_kernel_route cnf kc rt k) = (fib F k)(rt_dst rt := None) \<and> same_queues k (olsr_delete_kernel_route cnf kc rt k)"
  using assms by (simp add: olsr_delete_kernel_route_def niit_call_def do_call_def Let_def fib_def same_queues_def)

text \<open>The deletions.\<close>

definition dead_dsts :: "kernel \<Rightarrow> ptr set \<Rightarrow> olsr_ip_prefix set" where
  "dead_dsts k X = {rt_dst rt |x rt. x \<in> X \<and> detached k x = Some rt \<and> 0 \<le> iif_index (rt_nexthop rt)}"

lemma del_fold_ok:
  assumes "kernel_ok k = (\<lambda>_. True)" "\<not> host_emul kc" "distinct ds" "distinct (del_kernel_list k)"
    "\<forall>x\<in>set ds. \<exists>rt. detached k x = Some rt \<and> \<not> ip_is_linklocal cnf (prefix (rt_dst rt))"
  shows "\<exists>k'. foldM (olsr_del_kernel_route cnf kc) ds k = Some k' \<and> fib F k' = (\<lambda>d. if d \<in> dead_dsts k (set ds) then None else fib F k d) \<and>
    chg_kernel_list k' = chg_kernel_list k \<and> del_kernel_list k' = filter (\<lambda>x. x \<notin> set ds) (del_kernel_list k) \<and> kernel_ok k' = kernel_ok k"
  using assms
proof (induction ds arbitrary: k)
  case Nil
  thus ?case by (simp add: dead_dsts_def)
next
  case (Cons x ds)
  obtain rt where rt: "detached k x = Some rt" "\<not> ip_is_linklocal cnf (prefix (rt_dst rt))" using Cons.prems(5) by auto
  let ?k0 = "if 0 \<le> iif_index (rt_nexthop rt) then olsr_delete_kernel_route cnf kc rt k else k"
  let ?k1 = "?k0\<lparr>del_kernel_list := remove1 x (del_kernel_list ?k0), detached := (detached ?k0)(x := None)\<rparr>"
  have q: "same_queues k ?k0" "fib F ?k0 = (if 0 \<le> iif_index (rt_nexthop rt) then (fib F k)(rt_dst rt := None) else fib F k)"
    using delete_fib [OF Cons.prems(1,2) rt(2), of F] by (auto simp: same_queues_def)
  note f = same_queuesD [OF q(1)]
  have step: "olsr_del_kernel_route cnf kc x k = Some ?k1" using rt(1) by (simp add: olsr_del_kernel_route_def Let_def)
  have xn: "x \<notin> set ds" using Cons.prems(3) by simp
  have "kernel_ok ?k1 = (\<lambda>_. True)" "distinct (del_kernel_list ?k1)" using f Cons.prems(1,4) by simp_all
  moreover have d1: "\<forall>y\<in>set ds. detached ?k1 y = detached k y" using f xn by auto
  hence "\<forall>y\<in>set ds. \<exists>rt. detached ?k1 y = Some rt \<and> \<not> ip_is_linklocal cnf (prefix (rt_dst rt))" using Cons.prems(5) by simp
  ultimately obtain k' where k': "foldM (olsr_del_kernel_route cnf kc) ds ?k1 = Some k'" "fib F k' = (\<lambda>d. if d \<in> dead_dsts ?k1 (set ds) then None else fib F ?k1 d)"
    "chg_kernel_list k' = chg_kernel_list ?k1" "del_kernel_list k' = filter (\<lambda>x. x \<notin> set ds) (del_kernel_list ?k1)" "kernel_ok k' = kernel_ok ?k1"
    using Cons.IH [of ?k1] Cons.prems(2,3) by auto
  have dd: "dead_dsts ?k1 (set ds) = dead_dsts k (set ds)" using d1 unfolding dead_dsts_def by (metis (no_types, lifting))
  have de: "dead_dsts k (set (x # ds)) = (if 0 \<le> iif_index (rt_nexthop rt) then insert (rt_dst rt) (dead_dsts k (set ds)) else dead_dsts k (set ds))"
    using rt(1) by (auto simp: dead_dsts_def)
  have "fib F ?k1 = fib F ?k0" by (rule fib_frame) simp
  hence "fib F k' = (\<lambda>d. if d \<in> dead_dsts k (set (x # ds)) then None else fib F k d)" unfolding k'(2) dd de using q(2) by (auto simp: fun_eq_iff)
  moreover have "del_kernel_list k' = filter (\<lambda>y. y \<notin> set (x # ds)) (del_kernel_list k)"
    unfolding k'(4) using f Cons.prems(4) by (simp add: distinct_remove1_removeAll removeAll_filter_not_eq) (rule filter_cong, auto)
  ultimately show ?case using step k'(1,3,5) f by auto
qed

text \<open>The additions: what the elected path of an entry says.\<close>

definition best_path :: "'lq lsdb \<Rightarrow> ptr \<Rightarrow> rt_path option" where
  "best_path db x = Option.bind (rt_entries db x) (\<lambda>rt. Option.bind (rt_best rt) (rt_paths db))"

definition installed :: "'lq lsdb \<Rightarrow> ptr set \<Rightarrow> 'lq lsdb" where
  "installed db X = db\<lparr>rt_entries := (\<lambda>x. case best_path db x of
     Some rp \<Rightarrow> if x \<in> X then map_option (\<lambda>rt. rt\<lparr>rt_nexthop := rtp_nexthop rp, rt_metric := rtp_metric rp\<rparr>) (rt_entries db x) else rt_entries db x
   | None \<Rightarrow> rt_entries db x)\<rparr>"

definition add_fib :: "'lq lsdb \<Rightarrow> ptr \<Rightarrow> (olsr_ip_prefix \<rightharpoonup> rt_nexthop) \<Rightarrow> (olsr_ip_prefix \<rightharpoonup> rt_nexthop)" where
  "add_fib db x F = F(rt_dst (the (rt_entries db x)) \<mapsto> rtp_nexthop (the (best_path db x)))"

lemma installed_best: "best_path (installed db X) y = best_path db y"
  by (auto simp: best_path_def installed_def split: option.splits Option.bind_splits)

lemma installed_empty: "installed db {} = db"
  by (auto simp: installed_def fun_eq_iff intro!: lsdb.equality split: option.splits)

lemma installed_add: "installed (installed db X) Y = installed db (X \<union> Y)"
proof (rule lsdb.equality)
  show "rt_entries (installed (installed db X) Y) = rt_entries (installed db (X \<union> Y))"
  proof
    fix x
    show "rt_entries (installed (installed db X) Y) x = rt_entries (installed db (X \<union> Y)) x"
      using installed_best [of db X x] by (cases "best_path db x"; cases "rt_entries db x") (auto simp: installed_def)
  qed
qed (simp_all add: installed_def)

lemma installed_dst: "map_option rt_dst (rt_entries (installed db X) y) = map_option rt_dst (rt_entries db y)"
  by (auto simp: installed_def option.map_comp comp_def split: option.splits)

lemma installed_ok: "lsdb_ok db \<Longrightarrow> best_path db x = Some rp \<Longrightarrow> lsdb_ok (installed db {x})"
proof -
  assume a: "lsdb_ok db" "best_path db x = Some rp"
  have "installed db {x} = upd_rt x (\<lambda>rt. rt\<lparr>rt_nexthop := rtp_nexthop rp, rt_metric := rtp_metric rp\<rparr>) db"
    by (rule lsdb.equality) (use a(2) in \<open>auto simp: installed_def upd_rt_def fun_eq_iff split: option.splits\<close>)
  thus ?thesis using upd_rt_ok [OF a(1)] by simp
qed

lemma add_route_ok:
  assumes "kernel_ok k = (\<lambda>_. True)" "\<not> host_emul kc" "best_path db x = Some rp" "rt_entries db x = Some rt"
    "\<not> ip_is_linklocal cnf (prefix (rtp_dst rp))"
  shows "\<exists>k'. olsr_add_kernel_route cnf kc x (db, k) = Some (installed db {x}, k') \<and> fib F k' = add_fib db x (fib F k) \<and> same_queues k k'"
proof -
  let ?k1 = "snd (do_call (Add_route (rt_dst rt) (rtp_nexthop rp) (rtp_metric rp)) k)"
  let ?k2 = "niit_call kc (rt_dst rt) True ?k1"
  from assms(3,4) obtain b where b: "rt_best rt = Some b" "rt_paths db b = Some rp" by (auto simp: best_path_def split: Option.bind_splits)
  have e: "upd_rt x (\<lambda>rt. rt\<lparr>rt_nexthop := rtp_nexthop rp, rt_metric := rtp_metric rp\<rparr>) db = installed db {x}"
    by (rule lsdb.equality) (use assms(3) in \<open>auto simp: installed_def upd_rt_def fun_eq_iff split: option.splits\<close>)
  have "olsr_add_kernel_route cnf kc x (db, k) = Some (installed db {x}, ?k2)"
    using assms b e by (simp add: olsr_add_kernel_route_def do_call_def Let_def)
  moreover have "fib F ?k2 = add_fib db x (fib F k)" "same_queues k ?k1"
    using assms(1,3,4) niit_fib [of F kc "rt_dst rt" True ?k1] by (simp_all add: add_fib_def do_call_def Let_def fib_def same_queues_def)
  moreover have "same_queues k ?k2" using niit_fib [of F kc "rt_dst rt" True ?k1] same_queues_trans [OF \<open>same_queues k ?k1\<close>] by blast
  ultimately show ?thesis by blast
qed

lemma chg_route_ok:
  assumes k: "kernel_ok k = (\<lambda>_. True)" "\<not> host_emul kc" and x: "best_path db x = Some rp" "rt_entries db x = Some rt"
    and l: "\<not> ip_is_linklocal cnf (prefix (rtp_dst rp))" "\<not> ip_is_linklocal cnf (prefix (rt_dst rt))"
  shows "\<exists>k'. olsr_chg_kernel_route cnf kc x (db, k) = Some (installed db {x}, k') \<and> fib F k' = add_fib db x (fib F k) \<and>
    chg_kernel_list k' = remove1 x (chg_kernel_list k) \<and> del_kernel_list k' = del_kernel_list k \<and> kernel_ok k' = kernel_ok k"
proof -
  let ?k0 = "if (ip_v6 cnf \<or> \<not> own_export kc) \<and> iif_index (rt_nexthop rt) > -1 then olsr_delete_kernel_route cnf kc rt k else k"
  have q: "same_queues k ?k0" "fib F ?k0 = fib F k \<or> fib F ?k0 = (fib F k)(rt_dst rt := None)"
    using delete_fib [OF k l(2), of F] by (auto simp: same_queues_def)
  note f = same_queuesD [OF q(1)]
  have "kernel_ok ?k0 = (\<lambda>_. True)" using f k(1) by simp
  from add_route_ok [OF this k(2) x l(1), of F] obtain k1 where k1: "olsr_add_kernel_route cnf kc x (db, ?k0) = Some (installed db {x}, k1)"
    "fib F k1 = add_fib db x (fib F ?k0)" "same_queues ?k0 k1" by blast
  note g = same_queuesD [OF k1(3)]
  have "add_fib db x (fib F ?k0) = add_fib db x (fib F k)" using q(2) x(2) by (auto simp: add_fib_def)
  moreover have "fib F (k1\<lparr>chg_kernel_list := l\<rparr>) = fib F k1" for l by (rule fib_frame) simp
  moreover have "olsr_chg_kernel_route cnf kc x (db, k) = Some (installed db {x}, k1\<lparr>chg_kernel_list := remove1 x (chg_kernel_list k1)\<rparr>)"
    using x(2) k1(1) by (simp add: olsr_chg_kernel_route_def Let_def)
  ultimately show ?thesis using f g k1(2) by auto
qed

lemma chg_fold_ok:
  assumes "kernel_ok k = (\<lambda>_. True)" "\<not> host_emul kc" "distinct cs" "lsdb_ok db" "distinct (chg_kernel_list k)"
    "\<forall>x\<in>set cs. \<exists>rt rp. rt_entries db x = Some rt \<and> best_path db x = Some rp \<and> rtp_dst rp = rt_dst rt \<and> \<not> ip_is_linklocal cnf (prefix (rt_dst rt))"
  shows "\<exists>k'. foldM (olsr_chg_kernel_route cnf kc) cs (db, k) = Some (installed db (set cs), k') \<and> lsdb_ok (installed db (set cs)) \<and>
    fib F k' = fold (add_fib db) cs (fib F k) \<and> chg_kernel_list k' = filter (\<lambda>x. x \<notin> set cs) (chg_kernel_list k) \<and>
    del_kernel_list k' = del_kernel_list k \<and> kernel_ok k' = kernel_ok k"
  using assms
proof (induction cs arbitrary: db k)
  case Nil
  thus ?case by (simp add: installed_empty)
next
  case (Cons x cs)
  obtain rt rp where x: "rt_entries db x = Some rt" "best_path db x = Some rp" "rtp_dst rp = rt_dst rt" "\<not> ip_is_linklocal cnf (prefix (rt_dst rt))"
    using Cons.prems(6) by auto
  from chg_route_ok [OF Cons.prems(1,2) x(2,1) _ x(4), of F] x(3,4) obtain k1 where k1: "olsr_chg_kernel_route cnf kc x (db, k) = Some (installed db {x}, k1)"
    "fib F k1 = add_fib db x (fib F k)" "chg_kernel_list k1 = remove1 x (chg_kernel_list k)" "del_kernel_list k1 = del_kernel_list k" "kernel_ok k1 = kernel_ok k" by auto
  let ?db1 = "installed db {x}"
  have "\<forall>y\<in>set cs. \<exists>rt rp. rt_entries ?db1 y = Some rt \<and> best_path ?db1 y = Some rp \<and> rtp_dst rp = rt_dst rt \<and> \<not> ip_is_linklocal cnf (prefix (rt_dst rt))"
  proof
    fix y assume "y \<in> set cs"
    then obtain rty rpy where y: "rt_entries db y = Some rty" "best_path db y = Some rpy" "rtp_dst rpy = rt_dst rty" "\<not> ip_is_linklocal cnf (prefix (rt_dst rty))"
      using Cons.prems(6) by auto
    obtain rt' where "rt_entries ?db1 y = Some rt'" "rt_dst rt' = rt_dst rty" using installed_dst [of db "{x}" y] y(1) by (cases "rt_entries ?db1 y") auto
    thus "\<exists>rt rp. rt_entries ?db1 y = Some rt \<and> best_path ?db1 y = Some rp \<and> rtp_dst rp = rt_dst rt \<and> \<not> ip_is_linklocal cnf (prefix (rt_dst rt))"
      using y installed_best [of db "{x}" y] by auto
  qed
  moreover have "kernel_ok k1 = (\<lambda>_. True)" "distinct (chg_kernel_list k1)" using k1(3,5) Cons.prems(1,5) by simp_all
  ultimately obtain k' where k': "foldM (olsr_chg_kernel_route cnf kc) cs (?db1, k1) = Some (installed ?db1 (set cs), k')" "lsdb_ok (installed ?db1 (set cs))"
    "fib F k' = fold (add_fib ?db1) cs (fib F k1)" "chg_kernel_list k' = filter (\<lambda>x. x \<notin> set cs) (chg_kernel_list k1)" "del_kernel_list k' = del_kernel_list k1"
    "kernel_ok k' = kernel_ok k1" using Cons.IH [of k1 ?db1] Cons.prems(2,3) installed_ok [OF Cons.prems(4) x(2)] by auto
  have "add_fib ?db1 y = add_fib db y" if "y \<in> set cs" for y
  proof -
    have "y \<in> set (x # cs)" using that by simp
    then obtain rty where "rt_entries db y = Some rty" using Cons.prems(6) by blast
    hence "rt_dst (the (rt_entries ?db1 y)) = rt_dst (the (rt_entries db y))" using installed_dst [of db "{x}" y] by (cases "rt_entries ?db1 y") auto
    thus ?thesis by (simp add: add_fib_def installed_best fun_eq_iff)
  qed
  hence "fold (add_fib ?db1) cs (fib F k1) = fold (add_fib db) cs (fib F k1)" by (intro fold_cong) auto
  moreover have "chg_kernel_list k' = filter (\<lambda>y. y \<notin> set (x # cs)) (chg_kernel_list k)"
    unfolding k'(4) k1(3) using Cons.prems(5) by (simp add: distinct_remove1_removeAll removeAll_filter_not_eq) (rule filter_cong, auto)
  ultimately show ?case using k1 k' by (simp add: installed_add)
qed

lemma fold_add_other: "d \<notin> (\<lambda>x. rt_dst (the (rt_entries db x))) ` set cs \<Longrightarrow> fold (add_fib db) cs F d = F d"
  by (induction cs arbitrary: F) (auto simp: add_fib_def)

lemma fold_add_fib:
  assumes "inj_on (\<lambda>x. rt_dst (the (rt_entries db x))) (set cs)" "x \<in> set cs"
  shows "fold (add_fib db) cs F (rt_dst (the (rt_entries db x))) = Some (rtp_nexthop (the (best_path db x)))"
  using assms
proof (induction cs arbitrary: F)
  case (Cons y cs)
  show ?case
  proof (cases "x \<in> set cs")
    case True
    thus ?thesis using Cons by simp
  next
    case False
    hence "x = y" using Cons.prems(2) by simp
    moreover have "rt_dst (the (rt_entries db y)) \<notin> (\<lambda>x. rt_dst (the (rt_entries db x))) ` set cs"
      using Cons.prems(1) False \<open>x = y\<close> by (auto simp: inj_on_def)
    moreover have "add_fib db y F (rt_dst (the (rt_entries db y))) = Some (rtp_nexthop (the (best_path db y)))" by (simp add: add_fib_def)
    ultimately show ?thesis using fold_add_other [of "rt_dst (the (rt_entries db y))" db cs "add_fib db y F"] by simp
  qed
qed simp

section \<open>The kernel follows the base\<close>

definition fib_synced :: "(olsr_ip_prefix \<rightharpoonup> rt_nexthop) \<Rightarrow> 'lq lsdb \<Rightarrow> bool" where
  "fib_synced F db \<longleftrightarrow> (\<forall>d nh. F d = Some nh \<longleftrightarrow>
     (\<exists>x rt. rt_entries db x = Some rt \<and> rt_dst rt = d \<and> rt_nexthop rt = nh \<and> 0 \<le> iif_index nh))"

text \<open>
  What the update may rely on: the queues are empty, the best paths of the entries are no freed
  ones, every path leads over an interface, and no destination is link-local (those are kept out
  of the kernel).
\<close>

definition update_ready :: "olsrd_config \<Rightarrow> 'lq lsdb \<Rightarrow> kernel \<Rightarrow> bool" where
  "update_ready cnf db k \<longleftrightarrow> lsdb_ok db \<and> heap_next db < 2 ^ 31 \<and> best_live db \<and> chg_kernel_list k = [] \<and> del_kernel_list k = [] \<and>
     (\<forall>r rp. rt_paths db r = Some rp \<longrightarrow> 0 \<le> iif_index (rtp_nexthop rp)) \<and>
     (\<forall>x rt. rt_entries db x = Some rt \<longrightarrow> \<not> ip_is_linklocal cnf (prefix (rt_dst rt)))"

lemma update_rib_ok:
  fixes db :: "'lq lsdb"
  assumes "update_ready cnf db k"
  shows "\<exists>db1 k1. olsr_update_rib_routes cnf (db, k) = Some (db1, k1) \<and> lsdb_ok db1 \<and> paths_trimmed {x. rt_entries db x \<noteq> None} db db1 \<and>
    (\<forall>x. rt_entries db x \<noteq> None \<longrightarrow> decided cnf db k db1 k1 x) \<and> (\<forall>x. rt_entries db x = None \<longrightarrow> untouched db k db1 k1 x) \<and>
    distinct (chg_kernel_list k1) \<and> distinct (del_kernel_list k1) \<and> kernel_calls k1 = kernel_calls k \<and> kernel_ok k1 = kernel_ok k"
proof -
  let ?xs = "map snd (avl_walk (routingtree db))"
  have ok: "lsdb_ok db" "heap_next db < 2 ^ 31" "best_live db" "chg_kernel_list k = []" "del_kernel_list k = []" using assms by (simp_all add: update_ready_def)
  have m: "x \<in> set ?xs \<longleftrightarrow> rt_entries db x \<noteq> None" for x
    using indexes_nodes [OF lsdb_okD(4) [OF ok(1)], of x] by (simp add: entry_key_def)
  hence e: "set ?xs = {x. rt_entries db x \<noteq> None}" by blast
  have d: "distinct ?xs" using indexes_distinct [OF lsdb_okD(4) [OF ok(1)]] .
  have "\<forall>x\<in>set ?xs. rt_entries db x \<noteq> None \<and> \<not> on_list x k" using m ok(4,5) by (simp add: on_list_def)
  from rib_fold_ok [OF ok(1-3) d this, of cnf] ok(4,5) show ?thesis unfolding e olsr_update_rib_routes_def fst_conv by simp
qed

text \<open>The entries between the two phases.\<close>

lemma decided_alive:
  assumes "decided cnf db k db1 k1 x" "alive db x"
  obtains rt rt' b rp where "rt_entries db x = Some rt" "same_route rt rt'" "rt_entries db1 x = Some rt'" "rt_best rt' = Some b" "elected cnf db1 x b rp"
    "best_path db1 x = Some rp" "x \<in> set (chg_kernel_list k1) \<longleftrightarrow> route_changed cnf rt rp" "x \<notin> set (del_kernel_list k1)"
proof -
  from assms obtain rt rt' b rp where d: "rt_entries db x = Some rt" "same_route rt rt'" "rt_entries db1 x = Some rt'" "rt_best rt' = Some b" "elected cnf db1 x b rp"
    "x \<in> set (chg_kernel_list k1) \<longleftrightarrow> route_changed cnf rt rp" "x \<notin> set (del_kernel_list k1)" unfolding decided_def by auto
  moreover have "best_path db1 x = Some rp" using d(3-5) by (simp add: best_path_def elected_def)
  ultimately show thesis using that by blast
qed

lemma decided_dead:
  assumes "decided cnf db k db1 k1 x" "\<not> alive db x"
  obtains rt rt' where "rt_entries db x = Some rt" "same_route rt rt'" "rt_entries db1 x = None" "detached k1 x = Some rt'" "x \<in> set (del_kernel_list k1)" "x \<notin> set (chg_kernel_list k1)"
  using assms unfolding decided_def by auto

lemma alive_entry: "lsdb_ok db \<Longrightarrow> alive db x \<Longrightarrow> rt_entries db x \<noteq> None"
  unfolding alive_def using lsdb_okD(6) by (fastforce simp: path_wf_def entry_key_def split: option.splits)

lemma entry_inj: "lsdb_ok db \<Longrightarrow> rt_entries db x = Some rt \<Longrightarrow> rt_entries db y = Some rt' \<Longrightarrow> rt_dst rt = rt_dst rt' \<Longrightarrow> x = y"
  using indexes_inj [OF lsdb_okD(4), of db x "rt_dst rt" y] by (simp add: entry_key_def)

lemma update_kernel_ok:
  fixes db :: "'lq lsdb"
  assumes r: "update_ready cnf db k" and k: "kernel_ok k = (\<lambda>_. True)" "\<not> host_emul kc"
    and s: "lsdb_ok db1" "\<And>x. rt_entries db x \<noteq> None \<Longrightarrow> decided cnf db k db1 k1 x" "\<And>x. rt_entries db x = None \<Longrightarrow> untouched db k db1 k1 x"
    "distinct (chg_kernel_list k1)" "distinct (del_kernel_list k1)" "kernel_ok k1 = kernel_ok k"
  shows "\<exists>k'. olsr_update_kernel_routes cnf kc (db1, k1) = Some (installed db1 (set (chg_kernel_list k1)), k') \<and>
    lsdb_ok (installed db1 (set (chg_kernel_list k1))) \<and> chg_kernel_list k' = [] \<and> del_kernel_list k' = [] \<and>
    fib F k' = fold (add_fib db1) (chg_kernel_list k1) (\<lambda>d. if d \<in> dead_dsts k1 (set (del_kernel_list k1)) then None else fib F k1 d)"
proof -
  have ok: "lsdb_ok db" "chg_kernel_list k = []" "del_kernel_list k = []" "\<And>x rt. rt_entries db x = Some rt \<Longrightarrow> \<not> ip_is_linklocal cnf (prefix (rt_dst rt))"
    using r by (auto simp: update_ready_def)
  have known: "rt_entries db x \<noteq> None" if "on_list x k1" for x using s(3) [of x] that ok(2,3) by (auto simp: on_list_def untouched_def)
  have d: "\<exists>rt. detached k1 x = Some rt \<and> \<not> ip_is_linklocal cnf (prefix (rt_dst rt))" if "x \<in> set (del_kernel_list k1)" for x
  proof -
    have x: "decided cnf db k db1 k1 x" using s(2) known that by (auto simp: on_list_def)
    moreover have "\<not> alive db x" using decided_alive [OF x] that by blast
    ultimately obtain rt rt' where "rt_entries db x = Some rt" "same_route rt rt'" "detached k1 x = Some rt'" by (rule decided_dead)
    thus ?thesis using ok(4) by (auto simp: same_route_def)
  qed
  have k1: "kernel_ok k1 = (\<lambda>_. True)" using s(6) k(1) by simp
  obtain k2 where k2: "olsr_del_kernel_routes cnf kc k1 = Some k2" "fib F k2 = (\<lambda>d. if d \<in> dead_dsts k1 (set (del_kernel_list k1)) then None else fib F k1 d)"
    "chg_kernel_list k2 = chg_kernel_list k1" "del_kernel_list k2 = []" "kernel_ok k2 = (\<lambda>_. True)"
    using del_fold_ok [OF k1 k(2), of "rev (del_kernel_list k1)" cnf F] s(5) d k1 by (auto simp: olsr_del_kernel_routes_def)
  have c: "\<exists>rt rp. rt_entries db1 x = Some rt \<and> best_path db1 x = Some rp \<and> rtp_dst rp = rt_dst rt \<and> \<not> ip_is_linklocal cnf (prefix (rt_dst rt))"
    if "x \<in> set (chg_kernel_list k1)" for x
  proof -
    have x: "decided cnf db k db1 k1 x" using s(2) known that by (auto simp: on_list_def)
    moreover have "alive db x" using decided_dead [OF x] that by blast
    ultimately obtain rt rt' b rp where e: "rt_entries db x = Some rt" "same_route rt rt'" "rt_entries db1 x = Some rt'" "elected cnf db1 x b rp" "best_path db1 x = Some rp"
      by (rule decided_alive)
    have "rtp_dst rp = rt_dst rt'" using e(3,4) lsdb_okD(6) [OF s(1), of b rp] by (simp add: elected_def path_wf_def entry_key_def split: option.splits)
    thus ?thesis using e ok(4) by (auto simp: same_route_def)
  qed
  have "distinct (chg_kernel_list k2)" using k2(3) s(4) by simp
  from chg_fold_ok [OF k2(5) k(2) s(4) s(1) this, of cnf F] c obtain k' where
    "foldM (olsr_chg_kernel_route cnf kc) (chg_kernel_list k1) (db1, k2) = Some (installed db1 (set (chg_kernel_list k1)), k')"
    "lsdb_ok (installed db1 (set (chg_kernel_list k1)))" "fib F k' = fold (add_fib db1) (chg_kernel_list k1) (fib F k2)"
    "chg_kernel_list k' = filter (\<lambda>x. x \<notin> set (chg_kernel_list k1)) (chg_kernel_list k2)" "del_kernel_list k' = del_kernel_list k2" by blast
  thus ?thesis using k2 by (auto simp: olsr_update_kernel_routes_def olsr_chg_kernel_routes_def)
qed

lemma trimmed_iif:
  assumes "paths_trimmed X db db1" "\<forall>r rp. rt_paths db r = Some rp \<longrightarrow> 0 \<le> iif_index (rtp_nexthop rp)"
  shows "\<forall>r rp. rt_paths db1 r = Some rp \<longrightarrow> 0 \<le> iif_index (rtp_nexthop rp)"
  using assms by (auto simp: paths_trimmed_def split: if_splits)

text \<open>What the first phase has achieved.\<close>

definition rib_updated :: "olsrd_config \<Rightarrow> 'lq lsdb \<Rightarrow> kernel \<Rightarrow> 'lq lsdb \<Rightarrow> kernel \<Rightarrow> bool" where
  "rib_updated cnf db k db1 k1 \<longleftrightarrow> lsdb_ok db \<and> (\<forall>x. rt_entries db x \<noteq> None \<longrightarrow> decided cnf db k db1 k1 x) \<and>
     (\<forall>x. rt_entries db x = None \<longrightarrow> untouched db k db1 k1 x) \<and> chg_kernel_list k = [] \<and> del_kernel_list k = [] \<and>
     (\<forall>r rp. rt_paths db1 r = Some rp \<longrightarrow> 0 \<le> iif_index (rtp_nexthop rp))"

lemma updated_entry:
  assumes u: "rib_updated cnf db k db1 k1" and a: "alive db x"
  shows "\<exists>rt0 rt2. rt_entries db x = Some rt0 \<and> rt_entries (installed db1 (set (chg_kernel_list k1))) x = Some rt2 \<and> rt_dst rt2 = rt_dst rt0 \<and>
    rt_dst (the (rt_entries db1 x)) = rt_dst rt0 \<and> 0 \<le> iif_index (rtp_nexthop (the (best_path db1 x))) \<and>
    rt_nexthop rt2 = (if x \<in> set (chg_kernel_list k1) then rtp_nexthop (the (best_path db1 x)) else rt_nexthop rt0)"
proof -
  have "decided cnf db k db1 k1 x" using u alive_entry [OF _ a] unfolding rib_updated_def by blast
  then obtain rt rt' b rp where e: "rt_entries db x = Some rt" "same_route rt rt'" "rt_entries db1 x = Some rt'" "elected cnf db1 x b rp" "best_path db1 x = Some rp"
    using a by (rule decided_alive)
  moreover have "0 \<le> iif_index (rtp_nexthop rp)" using e(4) u unfolding elected_def rib_updated_def by blast
  ultimately show ?thesis by (auto simp: installed_def same_route_def)
qed

lemma updated_listed:
  assumes u: "rib_updated cnf db k db1 k1"
  shows "on_list x k1 \<Longrightarrow> decided cnf db k db1 k1 x" "x \<in> set (chg_kernel_list k1) \<Longrightarrow> alive db x"
    "rt_entries db1 x \<noteq> None \<Longrightarrow> alive db x"
proof -
  have known: "rt_entries db x \<noteq> None" if "on_list x k1" for x using u that by (fastforce simp: rib_updated_def on_list_def untouched_def)
  have dec: "decided cnf db k db1 k1 x" if "rt_entries db x \<noteq> None" for x using u that by (simp add: rib_updated_def)
  show "on_list x k1 \<Longrightarrow> decided cnf db k db1 k1 x" using dec known by blast
  show "alive db x" if "x \<in> set (chg_kernel_list k1)"
    using dec [OF known, of x] that decided_dead [of cnf db k db1 k1 x] by (metis on_list_def)
  show "alive db x" if l: "rt_entries db1 x \<noteq> None"
  proof (rule ccontr)
    assume n: "\<not> alive db x"
    show False
    proof (cases "rt_entries db x = None")
      case True
      thus ?thesis using u l by (simp add: rib_updated_def untouched_def)
    next
      case False
      have "rt_entries db1 x = None" by (rule decided_dead [OF dec [OF False] n])
      thus ?thesis using l by simp
    qed
  qed
qed

lemma updated_dead:
  assumes u: "rib_updated cnf db k db1 k1"
  shows "d \<in> dead_dsts k1 (set (del_kernel_list k1)) \<longleftrightarrow>
    (\<exists>x rt. rt_entries db x = Some rt \<and> \<not> alive db x \<and> rt_dst rt = d \<and> 0 \<le> iif_index (rt_nexthop rt))"
proof
  assume "d \<in> dead_dsts k1 (set (del_kernel_list k1))"
  then obtain x rt where x: "x \<in> set (del_kernel_list k1)" "detached k1 x = Some rt" "rt_dst rt = d" "0 \<le> iif_index (rt_nexthop rt)" by (auto simp: dead_dsts_def)
  have dx: "decided cnf db k db1 k1 x" using updated_listed(1) [OF u] x(1) by (simp add: on_list_def)
  moreover have n: "\<not> alive db x" using decided_alive [OF dx] x(1) by blast
  ultimately obtain rt0 where "rt_entries db x = Some rt0" "same_route rt0 rt" using x(2) by (auto elim: decided_dead)
  thus "\<exists>x rt. rt_entries db x = Some rt \<and> \<not> alive db x \<and> rt_dst rt = d \<and> 0 \<le> iif_index (rt_nexthop rt)" using n x(3,4) by (auto simp: same_route_def)
next
  assume "\<exists>x rt. rt_entries db x = Some rt \<and> \<not> alive db x \<and> rt_dst rt = d \<and> 0 \<le> iif_index (rt_nexthop rt)"
  then obtain x rt where x: "rt_entries db x = Some rt" "\<not> alive db x" "rt_dst rt = d" "0 \<le> iif_index (rt_nexthop rt)" by blast
  hence "decided cnf db k db1 k1 x" using u by (simp add: rib_updated_def)
  then obtain rt' where "same_route rt rt'" "detached k1 x = Some rt'" "x \<in> set (del_kernel_list k1)" using x(1,2) by (auto elim: decided_dead)
  thus "d \<in> dead_dsts k1 (set (del_kernel_list k1))" using x(3,4)
    unfolding dead_dsts_def mem_Collect_eq same_route_def by (intro exI [of _ x] exI [of _ rt']) simp
qed

text \<open>The forwarding table that the second phase leaves, at the prefix of a live entry and elsewhere.\<close>

definition fib_left :: "'lq lsdb \<Rightarrow> kernel \<Rightarrow> (olsr_ip_prefix \<rightharpoonup> rt_nexthop) \<Rightarrow> (olsr_ip_prefix \<rightharpoonup> rt_nexthop)" where
  "fib_left db1 k1 G = fold (add_fib db1) (chg_kernel_list k1) (\<lambda>d. if d \<in> dead_dsts k1 (set (del_kernel_list k1)) then None else G d)"

lemma updated_dst:
  assumes u: "rib_updated cnf db k db1 k1" and y: "y \<in> set (chg_kernel_list k1)" "rt_entries db x = Some rt0" "rt_dst (the (rt_entries db1 y)) = rt_dst rt0"
  shows "y = x"
proof -
  have "lsdb_ok db" using u by (simp add: rib_updated_def)
  thus ?thesis using updated_entry [OF u updated_listed(2) [OF u y(1)]] entry_inj [of db y _ x rt0] y(2,3) by auto
qed

lemma fib_left_alive:
  assumes u: "rib_updated cnf db k db1 k1" and a: "alive db x" "rt_entries db x = Some rt0"
  shows "fib_left db1 k1 G (rt_dst rt0) = (if x \<in> set (chg_kernel_list k1) then Some (rtp_nexthop (the (best_path db1 x))) else G (rt_dst rt0))"
proof -
  let ?cs = "chg_kernel_list k1" and ?D = "dead_dsts k1 (set (del_kernel_list k1))"
  have e: "rt_dst (the (rt_entries db1 y)) = rt_dst rty" if "alive db y" "rt_entries db y = Some rty" for y rty
    using updated_entry [OF u that(1)] that(2) by auto
  have inj: "inj_on (\<lambda>x. rt_dst (the (rt_entries db1 x))) (set ?cs)"
  proof (rule inj_onI)
    fix y z assume z: "y \<in> set ?cs" "z \<in> set ?cs" "rt_dst (the (rt_entries db1 y)) = rt_dst (the (rt_entries db1 z))"
    obtain rtz where "rt_entries db z = Some rtz" using updated_entry [OF u updated_listed(2) [OF u z(2)]] by blast
    thus "y = z" using updated_dst [OF u z(1)] e [OF updated_listed(2) [OF u z(2)]] z(3) by simp
  qed
  show ?thesis
  proof (cases "x \<in> set ?cs")
    case True
    thus ?thesis using fold_add_fib [OF inj True, of "\<lambda>d. if d \<in> ?D then None else G d"] e [OF a] by (simp add: fib_left_def)
  next
    case False
    have "rt_dst rt0 \<notin> (\<lambda>x. rt_dst (the (rt_entries db1 x))) ` set ?cs" using updated_dst [OF u _ a(2)] False by fastforce
    moreover have "rt_dst rt0 \<notin> ?D" unfolding updated_dead [OF u] using u entry_inj [of db x rt0] a by (metis rib_updated_def)
    ultimately show ?thesis using False fold_add_other [of "rt_dst rt0" db1 ?cs] by (simp add: fib_left_def)
  qed
qed

lemma fib_left_other:
  assumes u: "rib_updated cnf db k db1 k1" and G: "fib_synced G db" and d: "\<not> (\<exists>x rt0. alive db x \<and> rt_entries db x = Some rt0 \<and> rt_dst rt0 = d)"
  shows "fib_left db1 k1 G d = None"
proof -
  have "d \<noteq> rt_dst (the (rt_entries db1 y))" if y: "y \<in> set (chg_kernel_list k1)" for y
  proof
    assume e: "d = rt_dst (the (rt_entries db1 y))"
    have a: "alive db y" by (rule updated_listed(2) [OF u y])
    obtain rt0 where rt0: "rt_entries db y = Some rt0" using updated_entry [OF u a] by blast
    hence "rt_dst (the (rt_entries db1 y)) = rt_dst rt0" using updated_entry [OF u a] by auto
    hence "rt_dst rt0 = d" using e by simp
    with a rt0 have "\<exists>x rt0. alive db x \<and> rt_entries db x = Some rt0 \<and> rt_dst rt0 = d" by (intro exI conjI)
    with d show False by contradiction
  qed
  hence "d \<notin> (\<lambda>x. rt_dst (the (rt_entries db1 x))) ` set (chg_kernel_list k1)" by blast
  moreover have "d \<in> dead_dsts k1 (set (del_kernel_list k1))" if "G d = Some n" for n
  proof -
    from G that obtain x rt where x: "rt_entries db x = Some rt" "rt_dst rt = d" "rt_nexthop rt = n" "0 \<le> iif_index n"
      unfolding fib_synced_def by metis
    have "\<not> alive db x"
    proof
      assume "alive db x"
      with x(1,2) have "\<exists>x rt0. alive db x \<and> rt_entries db x = Some rt0 \<and> rt_dst rt0 = d" by (intro exI conjI)
      with d show False by contradiction
    qed
    with x show ?thesis unfolding updated_dead [OF u] by (intro exI [of _ x] exI [of _ rt] conjI) simp_all
  qed
  ultimately show ?thesis using fold_add_other [of d db1 "chg_kernel_list k1"] by (cases "G d") (auto simp: fib_left_def)
qed

lemma fib_update:
  assumes u: "rib_updated cnf db k db1 k1" and G: "fib_synced G db"
  shows "fib_synced (fib_left db1 k1 G) (installed db1 (set (chg_kernel_list k1)))"
  unfolding fib_synced_def
proof (intro allI)
  fix d nh
  let ?db2 = "installed db1 (set (chg_kernel_list k1))"
  have ok: "lsdb_ok db" using u by (simp add: rib_updated_def)
  have orig: "\<exists>rt0. alive db y \<and> rt_entries db y = Some rt0 \<and> rt_dst rt0 = rt_dst rty" if "rt_entries ?db2 y = Some rty" for y rty
  proof -
    have "rt_entries db1 y \<noteq> None" using that by (auto simp: installed_def split: option.splits if_splits)
    hence a: "alive db y" by (rule updated_listed(3) [OF u])
    show ?thesis using updated_entry [OF u a] that a by auto
  qed
  show "fib_left db1 k1 G d = Some nh \<longleftrightarrow> (\<exists>x rt. rt_entries ?db2 x = Some rt \<and> rt_dst rt = d \<and> rt_nexthop rt = nh \<and> 0 \<le> iif_index nh)"
  proof (cases "\<exists>x rt0. alive db x \<and> rt_entries db x = Some rt0 \<and> rt_dst rt0 = d")
    case True
    then obtain x rt0 where x: "alive db x" "rt_entries db x = Some rt0" "rt_dst rt0 = d" by blast
    obtain rt2 where rt2: "rt_entries ?db2 x = Some rt2" "rt_dst rt2 = d" "0 \<le> iif_index (rtp_nexthop (the (best_path db1 x)))"
      "rt_nexthop rt2 = (if x \<in> set (chg_kernel_list k1) then rtp_nexthop (the (best_path db1 x)) else rt_nexthop rt0)" using updated_entry [OF u x(1)] x(2,3) by auto
    have "G d = Some nh \<longleftrightarrow> rt_nexthop rt0 = nh \<and> 0 \<le> iif_index nh" for nh
      using G x(2,3) entry_inj [OF ok x(2)] unfolding fib_synced_def by (metis option.inject)
    hence "fib_left db1 k1 G d = Some nh \<longleftrightarrow> rt_nexthop rt2 = nh \<and> 0 \<le> iif_index nh" using fib_left_alive [OF u x(1,2), of G] x(3) rt2(3,4) by auto
    moreover have "y = x" if "rt_entries ?db2 y = Some rty" "rt_dst rty = d" for y rty using orig [OF that(1)] that(2) entry_inj [OF ok x(2)] x(3) by metis
    ultimately show ?thesis using rt2(1,2) by (metis option.inject)
  next
    case False
    have "\<not> (\<exists>y rty. rt_entries ?db2 y = Some rty \<and> rt_dst rty = d)"
    proof (intro notI, elim exE conjE)
      fix y rty assume y: "rt_entries ?db2 y = Some rty" "rt_dst rty = d"
      obtain rt0 where "alive db y" "rt_entries db y = Some rt0" "rt_dst rt0 = rt_dst rty" using orig [OF y(1)] by (elim exE conjE)
      thus False using False y(2) by blast
    qed
    moreover have "fib_left db1 k1 G d \<noteq> Some nh" using fib_left_other [OF u G False] by simp
    ultimately show ?thesis by blast
  qed
qed

lemma update_follows:
  fixes db :: "'lq lsdb"
  assumes "update_ready cnf db k" "kernel_ok k = (\<lambda>_. True)" "\<not> host_emul kc" "fib_synced (fib F k) db"
  shows "\<exists>s1 db' k'. olsr_update_rib_routes cnf (db, k) = Some s1 \<and> olsr_update_kernel_routes cnf kc s1 = Some (db', k') \<and> lsdb_ok db' \<and>
    chg_kernel_list k' = [] \<and> del_kernel_list k' = [] \<and> (\<forall>x. rt_entries db' x \<noteq> None \<longleftrightarrow> alive db x) \<and>
    (\<forall>x rt. rt_entries db' x = Some rt \<longrightarrow> (\<exists>b rp. rt_best rt = Some b \<and> elected cnf db' x b rp \<and> rt_nexthop rt = rtp_nexthop rp)) \<and>
    fib_synced (fib F k') db'"
proof -
  have ok: "lsdb_ok db" using assms(1) by (simp add: update_ready_def)
  obtain db1 k1 where 1: "olsr_update_rib_routes cnf (db, k) = Some (db1, k1)" "lsdb_ok db1" "paths_trimmed {x. rt_entries db x \<noteq> None} db db1"
    "\<forall>x. rt_entries db x \<noteq> None \<longrightarrow> decided cnf db k db1 k1 x" "\<forall>x. rt_entries db x = None \<longrightarrow> untouched db k db1 k1 x"
    "distinct (chg_kernel_list k1)" "distinct (del_kernel_list k1)" "kernel_calls k1 = kernel_calls k" "kernel_ok k1 = kernel_ok k"
    using update_rib_ok [OF assms(1)] by blast
  let ?cs = "chg_kernel_list k1" let ?db2 = "installed db1 (set ?cs)"
  obtain k' where 2: "olsr_update_kernel_routes cnf kc (db1, k1) = Some (?db2, k')" "lsdb_ok ?db2" "chg_kernel_list k' = []" "del_kernel_list k' = []"
    "fib F k' = fold (add_fib db1) ?cs (\<lambda>d. if d \<in> dead_dsts k1 (set (del_kernel_list k1)) then None else fib F k1 d)"
    using update_kernel_ok [OF assms(1-3) 1(2)] 1(4-7,9) by blast
  have al: "rt_entries db1 x \<noteq> None \<longleftrightarrow> alive db x" for x
  proof (cases "rt_entries db x = None")
    case True
    thus ?thesis using 1(5) alive_entry [OF ok, of x] by (auto simp: untouched_def)
  next
    case False
    hence "decided cnf db k db1 k1 x" using 1(4) by blast
    thus ?thesis by (cases "alive db x") (auto elim: decided_alive decided_dead)
  qed
  have dec: "decided cnf db k db1 k1 x" if "alive db x" for x using 1(4) alive_entry [OF ok that] by blast
  have e2: "rt_entries ?db2 x \<noteq> None \<longleftrightarrow> alive db x" for x using al [of x] by (auto simp: installed_def split: option.splits)
  have nh: "\<exists>b rp. rt_best rt = Some b \<and> elected cnf ?db2 x b rp \<and> best_path db1 x = Some rp \<and> rt_nexthop rt = rtp_nexthop rp" if x: "rt_entries ?db2 x = Some rt" for x rt
  proof -
    have "alive db x" using e2 [of x] x by simp
    with dec [OF this] obtain rt0 rt1 b rp where d: "rt_entries db x = Some rt0" "same_route rt0 rt1" "rt_entries db1 x = Some rt1" "rt_best rt1 = Some b"
      "elected cnf db1 x b rp" "best_path db1 x = Some rp" "x \<in> set ?cs \<longleftrightarrow> route_changed cnf rt0 rp" by (rule decided_alive)
    have "elected cnf ?db2 x b rp" using d(5) by (simp add: elected_def installed_def)
    moreover have "rt_best rt = Some b \<and> rt_nexthop rt = rtp_nexthop rp"
    proof (cases "x \<in> set ?cs")
      case True
      thus ?thesis using x d(3,4,6) by (auto simp: installed_def)
    next
      case False
      hence "\<not> olsr_nh_change (rtp_nexthop rp) (rt_nexthop rt0)" using d(7) by (simp add: route_changed_def)
      hence "rt_nexthop rt1 = rtp_nexthop rp" using d(2) by (simp add: olsr_nh_change_def same_route_def ipequal_def)
      thus ?thesis using x False d(3,4,6) by (simp add: installed_def)
    qed
    ultimately show ?thesis using d(6) by blast
  qed
  have f: "fib F k1 = fib F k" using 1(8) by (rule fib_frame)
  have "rib_updated cnf db k db1 k1" using 1(4,5) trimmed_iif [OF 1(3)] ok assms(1) unfolding rib_updated_def update_ready_def by blast
  hence "fib_synced (fib F k') ?db2" using fib_update [of cnf db k db1 k1 "fib F k"] assms(4) unfolding 2(5) f fib_left_def by blast
  thus ?thesis using 1(1) 2(1-4) e2 nh by (intro exI [of _ "(db1, k1)"] exI [of _ ?db2] exI [of _ k'] conjI allI impI) blast+
qed


text \<open>A kernel that accepts all calls, and holds the route of \<^const>\<open>demo_path\<close>.\<close>

definition demo_kernel :: kernel where
  "demo_kernel = \<lparr>chg_kernel_list = [], del_kernel_list = [], detached = Map.empty, kernel_calls = [], kernel_ok = (\<lambda>_. True)\<rparr>"

lemma demo_synced:
  obtains db :: "default_lq_hybrid_plc lsdb" where "update_ready demo_cnf db demo_kernel"
    "fib_synced (fib [rtp_dst demo_path \<mapsto> rtp_nexthop demo_path] demo_kernel) db" "rt_entries db 2 \<noteq> None"
    "\<forall>r rp. rt_paths db r = Some rp \<longrightarrow> rtp_version rp \<noteq> routingtree_version db + 1"
proof -
  obtain db :: "default_lq_hybrid_plc lsdb" and T where d: "lsdb_ok db" "rt_paths db = [1 \<mapsto> demo_path]" "heap_next db = 3" "routingtree_version db = 0"
    "rt_entries db = [2 \<mapsto> \<lparr>rt_dst = rtp_dst demo_path, rt_best = Some 1, rt_nexthop = rtp_nexthop demo_path, rt_metric = rtp_metric demo_path, rt_path_tree = T\<rparr>]"
    by (rule demo_route)
  show thesis
  proof (rule that)
    show "update_ready demo_cnf db demo_kernel"
      using d by (auto simp: update_ready_def best_live_def demo_kernel_def demo_path_def demo_cnf_def ip_is_linklocal_def split: if_splits)
    show "fib_synced (fib [rtp_dst demo_path \<mapsto> rtp_nexthop demo_path] demo_kernel) db"
      using d(5) by (auto simp: fib_synced_def fib_def demo_kernel_def demo_path_def)
  qed (use d(2,4,5) in \<open>auto simp: demo_path_def split: if_splits\<close>)
qed


lemma bump_ready: "update_ready cnf db k \<Longrightarrow> update_ready cnf (olsr_bump_routingtree_version db) k"
  by (simp add: update_ready_def best_live_def olsr_bump_routingtree_version_def)



section \<open>A freed best path\<close>

lemma unlink_rt_keeps_best:
  assumes "unlink_rtp_rt r rp db = Some db'" "rt_entries db x = Some rt"
  shows "\<exists>rt'. rt_entries db' x = Some rt' \<and> rt_best rt' = rt_best rt"
  using assms by (auto simp: unlink_rtp_rt_def upd_rt_def upd_rtp_def Option.bind_eq_Some_conv split: option.splits)

lemma unlink_tc_keeps_entries: "unlink_rtp_tc r rp db = Some db' \<Longrightarrow> rt_entries db' = rt_entries db"
  by (auto simp: unlink_rtp_tc_def olsr_unlock_tc_entry_def upd_tc_def upd_rtp_def Let_def Option.bind_eq_Some_conv split: option.splits if_splits)

lemma delete_keeps_best:
  assumes d: "olsr_delete_rt_path r db = Some db'" and x: "rt_entries db x = Some rt"
  shows "\<exists>rt'. rt_entries db' x = Some rt' \<and> rt_best rt' = rt_best rt"
proof -
  from d obtain rp db1 db2 where 1: "unlink_rtp_rt r rp db = Some db1" "unlink_rtp_tc r rp db1 = Some db2" "rt_entries db' = rt_entries db2"
    by (auto simp: olsr_delete_rt_path_def Let_def Option.bind_eq_Some_conv split: if_splits)
  thus ?thesis using unlink_rt_keeps_best [OF 1(1) x] unlink_tc_keeps_entries [OF 1(2)] by simp
qed

lemma update_dangling:
  fixes db :: "'lq lsdb"
  assumes ok: "lsdb_ok db" "heap_next db < 2 ^ 31" and x: "rt_entries db x = Some rt" and dead: "\<forall>r. path_key db x r = None"
    and best: "rt_best rt = Some r" "rt_paths db r = None" and off: "\<not> on_list x k"
  shows "update_rib_route cnf x (db, k) = None"
proof -
  have D: "{r. path_key db x r \<noteq> None \<and> stale db r} = {}" using dead by simp
  obtain T where T: "olsr_delete_outdated_routes x db = Some (trim_db x {} T db)" "lsdb_ok (trim_db x {} T db)"
    using delete_outdated_ok [OF ok(1) x] unfolding D by blast
  let ?db1 = "trim_db x {} T db" and ?rt1 = "rt\<lparr>rt_path_tree := T\<rparr>"
  have e: "rt_entries ?db1 x = Some ?rt1" using x by (simp add: trim_db_def)
  have n: "\<forall>r. path_key ?db1 x r = None" using dead by (simp add: trim_keys)
  have "heap_next ?db1 < 2 ^ 31" using ok(2) by (simp add: trim_db_def)
  hence c: "count T = 0" using count_zero [OF T(2) _ e] n by simp
  have "olsr_get_nh ?rt1 (?db1\<lparr>routingtree := U, rt_entries := E\<rparr>) = None" for U E
    using best by (simp add: olsr_get_nh_def trim_db_def)
  hence "enqueue_del x ?rt1 (?db1\<lparr>routingtree := U, rt_entries := E\<rparr>) (k\<lparr>detached := M\<rparr>) = None" for U E M
    using off by (simp add: enqueue_del_def on_list_def place_def)
  thus ?thesis using T(1) e c detach_ok [OF T(2) e n] by (auto simp: update_rib_route_def detach_entry_def)
qed

text \<open>
  C31. When the only path of a prefix is deleted, as when its announcement times out, the entry of
  the prefix keeps the pointer to the freed path as its best one. The database is otherwise
  consistent, but the next update of the base reads the freed path, to find the place of the
  entry in the queue of deletions.
\<close>

theorem freed_best_read:
  fixes db :: "'lq lsdb"
  assumes "lsdb_ok db" "heap_next db < 2 ^ 31" "rt_entries db x = Some rt" "rt_best rt = Some r" "rt_paths db r \<noteq> None"
    and "\<forall>q. path_key db x q \<noteq> None \<longrightarrow> q = r" "\<not> on_list x k"
  shows "\<exists>db'. olsr_delete_rt_path r db = Some db' \<and> lsdb_ok db' \<and> update_rib_route cnf x (db', k) = None"
proof -
  obtain db' where d: "olsr_delete_rt_path r db = Some db'" "lsdb_ok db'" "rt_paths db' = (rt_paths db)(r := None)" "only_paths db db'"
    using assms(5) delete_rt_path_ok [OF assms(1,2), of r] by blast
  obtain rt' where rt': "rt_entries db' x = Some rt'" "rt_best rt' = Some r" using delete_keeps_best [OF d(1) assms(3)] assms(4) by auto
  have "path_key db' x q = (if q = r then None else path_key db x q)" for q using d(3) by (simp add: path_key_def)
  hence "\<forall>q. path_key db' x q = None" using assms(6) by auto
  moreover have "heap_next db' < 2 ^ 31" using only_pathsD(1) [OF d(4)] assms(2) by simp
  ultimately have "update_rib_route cnf x (db', k) = None" using update_dangling [OF d(2) _ rt'(1) _ rt'(2) _ assms(7)] d(3) by simp
  thus ?thesis using d(1,2) by blast
qed

theorem freed_best_read_witness:
  "\<exists>(db :: default_lq_hybrid_plc lsdb) db'. olsr_delete_rt_path 1 db = Some db' \<and> lsdb_ok db' \<and>
    update_rib_route demo_cnf 2 (db', demo_kernel) = None"
proof -
  obtain db :: "default_lq_hybrid_plc lsdb" and T where d: "lsdb_ok db" "rt_paths db = [1 \<mapsto> demo_path]" "heap_next db = 3"
    "rt_entries db = [2 \<mapsto> \<lparr>rt_dst = rtp_dst demo_path, rt_best = Some 1, rt_nexthop = rtp_nexthop demo_path, rt_metric = rtp_metric demo_path, rt_path_tree = T\<rparr>]"
    by (rule demo_route)
  have "\<forall>q. path_key db 2 q \<noteq> None \<longrightarrow> q = 1" using d(2) by (simp add: path_key_def)
  with freed_best_read [OF d(1), of 2 _ 1 demo_kernel demo_cnf] d(2-4) show ?thesis by (auto simp: on_list_def demo_kernel_def)
qed

end
