(* ===== verification/Olsr_Gateway.thy ===== *)
theory Olsr_Gateway
  imports Olsr_Ipcalc Olsr_Duplicate_Set Olsr_Topology
begin

unbundle bit_operations_syntax

text \<open>
  Internet gateways (\<^verbatim>\<open>src/gateway.c\<close> and its default handler \<^verbatim>\<open>src/gateway_default_handler.c\<close>): the set of
  nodes that announce a way to the internet, with the speed of their uplinks, the choice of the
  nearest one and the tunnel to it. An announcement hides flags and speeds in the zero octets of
  the netmask of a default route. The functions of the operating system that build tunnels are a
  trace of calls; whether a tunnel could be built is part of the state. Entries are objects of a
  store, so that a pointer to a freed one shows.
\<close>

section \<open>Data\<close>

definition FORCE_DELETE_GW_ENTRY :: u8 where "FORCE_DELETE_GW_ENTRY = 255"

definition GW_HNA_FLAG_LINKSPEED :: u8 where "GW_HNA_FLAG_LINKSPEED = 1"
definition GW_HNA_FLAG_IPV4 :: u8 where "GW_HNA_FLAG_IPV4 = 2"
definition GW_HNA_FLAG_IPV4_NAT :: u8 where "GW_HNA_FLAG_IPV4_NAT = 4"
definition GW_HNA_FLAG_IPV6 :: u8 where "GW_HNA_FLAG_IPV6 = 8"
definition GW_HNA_FLAG_IPV6PREFIX :: u8 where "GW_HNA_FLAG_IPV6PREFIX = 16"

lemmas gw_flags = GW_HNA_FLAG_LINKSPEED_def GW_HNA_FLAG_IPV4_def GW_HNA_FLAG_IPV4_NAT_def GW_HNA_FLAG_IPV6_def GW_HNA_FLAG_IPV6PREFIX_def

definition GW_HNA_PAD :: nat where "GW_HNA_PAD = 0"
definition GW_HNA_FLAGS :: nat where "GW_HNA_FLAGS = 1"
definition GW_HNA_UPLINK :: nat where "GW_HNA_UPLINK = 2"
definition GW_HNA_DOWNLINK :: nat where "GW_HNA_DOWNLINK = 3"
definition GW_HNA_V6PREFIXLEN :: nat where "GW_HNA_V6PREFIXLEN = 4"
definition GW_HNA_V6PREFIX :: nat where "GW_HNA_V6PREFIX = 5"

lemmas gw_fields = GW_HNA_PAD_def GW_HNA_FLAGS_def GW_HNA_UPLINK_def GW_HNA_DOWNLINK_def GW_HNA_V6PREFIXLEN_def GW_HNA_V6PREFIX_def

definition GW_DEFAULT_STABLE_COUNT :: u32 where "GW_DEFAULT_STABLE_COUNT = 6"

record gateway_entry =
  gw_originator :: olsr_ip_addr
  external_prefix :: olsr_ip_prefix
  uplink :: u32
  downlink :: u32
  gw_ipv4 :: bool
  gw_ipv4nat :: bool
  gw_ipv6 :: bool
  cleanup_timer :: bool
  gw_seqno :: u16

datatype tunnel_call =
    Add_tunnel olsr_ip_addr bool
  | Del_tunnel nat
  | Tunnel_route nat bool bool
  | Tunnel_ip nat olsr_ip_addr bool

record gw_config =
  smart_gw_active :: bool
  smart_gw_allow_nat :: bool
  smart_gw_uplink_nat :: bool
  smart_gw_uplink :: u32
  smart_gw_downlink :: u32
  smart_gw_prefix :: olsr_ip_prefix
  has_ipv4_gateway :: bool
  has_ipv6_gateway :: bool
  gw_use_niit :: bool

text \<open>The variables of both files; \<open>tunnel_result n\<close> is what the \<open>n\<close>-th call would return.\<close>

record gw_state =
  gateway_tree :: "(olsr_ip_addr, ptr) avl_tree"
  gateways :: "ptr \<rightharpoonup> gateway_entry"
  gw_next :: nat
  smart_gateway_netmask :: "u8 list"
  current_ipv4_gw :: "ptr option"
  current_ipv6_gw :: "ptr option"
  v4gw_tunnel :: "nat option"
  v6gw_tunnel :: "nat option"
  v4gw_choosen_external :: bool
  v6gw_choosen_external :: bool
  gw_def_nodecount :: u32
  gw_def_stablecount :: u32
  gw_def_finished_ipv4 :: bool
  gw_def_finished_ipv6 :: bool
  gw_def_timer :: bool
  tunnel_calls :: "tunnel_call list"
  tunnel_result :: "nat \<Rightarrow> nat option"

definition upd_gw :: "ptr \<Rightarrow> (gateway_entry \<Rightarrow> gateway_entry) \<Rightarrow> gw_state \<Rightarrow> gw_state" where
  "upd_gw p f g = g\<lparr>gateways := (gateways g)(p := map_option f (gateways g p))\<rparr>"

definition tunnel_do :: "tunnel_call \<Rightarrow> gw_state \<Rightarrow> gw_state" where
  "tunnel_do c g = g\<lparr>tunnel_calls := tunnel_calls g @ [c]\<rparr>"

definition add_tunnel :: "olsr_ip_addr \<Rightarrow> bool \<Rightarrow> gw_state \<Rightarrow> nat option \<times> gw_state" where
  "add_tunnel a v4 g = (tunnel_result g (length (tunnel_calls g)), tunnel_do (Add_tunnel a v4) g)"

section \<open>Speeds\<close>

definition deserialize_gw_speed :: "u8 \<Rightarrow> u32" where
  "deserialize_gw_speed value = ((ucast (drop_bit 3 value) + 1) * 10 ^ unat (value AND 7))"

text \<open>The loop is entered with a positive speed only, which it keeps positive.\<close>

function gw_speed_loop :: "nat \<Rightarrow> nat \<Rightarrow> nat \<times> nat" where
  "gw_speed_loop speed exp = (if speed > 0 \<and> (speed > 32 \<or> speed mod 10 = 0) then gw_speed_loop (speed div 10) (exp + 1) else (speed, exp))"
  by pat_completeness auto
termination by (relation "measure fst") auto

declare gw_speed_loop.simps [simp del]

definition serialize_gw_speed :: "u32 \<Rightarrow> u8" where
  "serialize_gw_speed speed =
     (if speed = 0 \<or> speed > 320000000 then 0
      else let (s, exp) = gw_speed_loop (unat speed) 0 in push_bit 3 (of_nat (s - 1)) OR of_nat exp)"

section \<open>Announcements\<close>

definition byte_of :: "u8 list \<Rightarrow> nat \<Rightarrow> u8 option" where
  "byte_of bs i = (if i < length bs then Some (bs ! i) else None)"

definition set_byte :: "nat \<Rightarrow> (u8 \<Rightarrow> u8) \<Rightarrow> u8 list \<Rightarrow> u8 list option" where
  "set_byte i f bs = (if i < length bs then Some (bs[i := f (bs ! i)]) else None)"

text \<open>The netmask is an array of the size of the address union.\<close>

definition refresh_smartgw_netmask :: "olsrd_config \<Rightarrow> gw_config \<Rightarrow> gw_state \<Rightarrow> gw_state option" where
  "refresh_smartgw_netmask cnf gc g = do {
     let m = replicate 16 0;
     m \<leftarrow> (if smart_gw_active gc \<and> (smart_gw_uplink gc > 0 \<or> smart_gw_downlink gc > 0) then do {
         m \<leftarrow> set_byte GW_HNA_FLAGS (\<lambda>b. b OR GW_HNA_FLAG_LINKSPEED) m;
         m \<leftarrow> set_byte GW_HNA_DOWNLINK (\<lambda>_. serialize_gw_speed (smart_gw_downlink gc)) m;
         set_byte GW_HNA_UPLINK (\<lambda>_. serialize_gw_speed (smart_gw_uplink gc)) m
       } else Some m);
     m \<leftarrow> (if smart_gw_active gc \<and> ip_v6 cnf \<and> prefix_len (smart_gw_prefix gc) > 0 then do {
         m \<leftarrow> set_byte GW_HNA_FLAGS (\<lambda>b. b OR GW_HNA_FLAG_IPV6PREFIX) m;
         m \<leftarrow> set_byte GW_HNA_V6PREFIXLEN (\<lambda>_. prefix_len (smart_gw_prefix gc)) m;
         map_option fst (put_bytes (take 8 (ip_bytes (prefix (smart_gw_prefix gc)))) m GW_HNA_V6PREFIX)
       } else Some m);
     Some (g\<lparr>smart_gateway_netmask := m\<rparr>)
   }"

definition mask_offset :: "nat \<Rightarrow> nat" where
  "mask_offset prefixlen = (prefixlen + 7) div 8"

definition olsr_is_smart_gateway :: "olsrd_config \<Rightarrow> olsr_ip_prefix \<Rightarrow> olsr_ip_addr \<Rightarrow> bool option" where
  "olsr_is_smart_gateway cnf p netmask =
     (if \<not> is_prefix_inetgw cnf p then Some False
      else do {
        let i = mask_offset (unat (prefix_len p));
        pad \<leftarrow> byte_of (ip_bytes netmask) (i + GW_HNA_PAD);
        flags \<leftarrow> byte_of (ip_bytes netmask) (i + GW_HNA_FLAGS);
        Some (pad = 0 \<and> flags \<noteq> 0)
      })"

definition olsr_modifiy_inetgw_netmask :: "gw_config \<Rightarrow> nat \<Rightarrow> gw_state \<Rightarrow> u8 list \<Rightarrow> u8 list option" where
  "olsr_modifiy_inetgw_netmask gc prefixlen g netmask = do {
     let i = mask_offset prefixlen;
     (netmask, _) \<leftarrow> put_bytes (take (16 - prefixlen div 8) (smart_gateway_netmask g)) netmask i;
     netmask \<leftarrow> (if has_ipv4_gateway gc then do {
         netmask \<leftarrow> set_byte (i + GW_HNA_FLAGS) (\<lambda>b. b OR GW_HNA_FLAG_IPV4) netmask;
         if smart_gw_uplink_nat gc then set_byte (i + GW_HNA_FLAGS) (\<lambda>b. b OR GW_HNA_FLAG_IPV4_NAT) netmask else Some netmask
       } else Some netmask);
     netmask \<leftarrow> (if has_ipv6_gateway gc then set_byte (i + GW_HNA_FLAGS) (\<lambda>b. b OR GW_HNA_FLAG_IPV6) netmask else Some netmask);
     if \<not> has_ipv6_gateway gc \<or> prefixlen \<noteq> unat (prefix_len ipv6_internet_route)
     then set_byte (i + GW_HNA_FLAGS) (\<lambda>b. b AND NOT GW_HNA_FLAG_IPV6PREFIX) netmask else Some netmask
   }"

section \<open>The current gateway\<close>

definition olsr_find_gateway_entry :: "olsr_ip_addr \<Rightarrow> gw_state \<Rightarrow> ptr option" where
  "olsr_find_gateway_entry a g = avl_find (gateway_tree g) a"

text \<open>What \<open>olsr_set_inet_gateway\<close> does when the gateway has changed.\<close>

definition switch_v4 :: "ptr option \<Rightarrow> nat option \<Rightarrow> bool \<Rightarrow> gw_state \<Rightarrow> gw_state option" where
  "switch_v4 old tunnel external g =
     (if old = current_ipv4_gw g then Some g
      else do {
        p \<leftarrow> current_ipv4_gw g;
        e \<leftarrow> gateways g p;
        let (t, g) = add_tunnel (gw_originator e) True g;
        let g = g\<lparr>v4gw_tunnel := t\<rparr>;
        let g = (case t of
                   Some i \<Rightarrow> (tunnel_do (Tunnel_route i True True) g)\<lparr>v4gw_choosen_external := external\<rparr>
                 | None \<Rightarrow> g\<lparr>current_ipv4_gw := None\<rparr>);
        if old \<noteq> None then map_option (\<lambda>i. tunnel_do (Del_tunnel i) g) tunnel else Some g
      })"

definition switch_v6 :: "ptr option \<Rightarrow> nat option \<Rightarrow> bool \<Rightarrow> gw_state \<Rightarrow> gw_state option" where
  "switch_v6 old tunnel external g =
     (if old = current_ipv6_gw g then Some g
      else do {
        p \<leftarrow> current_ipv6_gw g;
        e \<leftarrow> gateways g p;
        let (t, g) = add_tunnel (gw_originator e) False g;
        let g = g\<lparr>v6gw_tunnel := t\<rparr>;
        let g = (case t of
                   Some i \<Rightarrow> (tunnel_do (Tunnel_route i False True) g)\<lparr>v6gw_choosen_external := external\<rparr>
                 | None \<Rightarrow> g\<lparr>current_ipv6_gw := None\<rparr>);
        if old \<noteq> None then map_option (\<lambda>i. tunnel_do (Del_tunnel i) g) tunnel else Some g
      })"

definition legal_ipv4_gw :: "gw_config \<Rightarrow> gateway_entry \<Rightarrow> bool" where
  "legal_ipv4_gw gc e \<longleftrightarrow> gw_ipv4 e \<and> (\<not> gw_ipv4nat e \<or> smart_gw_allow_nat gc)"

text \<open>The entry of the originator takes the place of the gateways asked for, if it is legal.\<close>

definition enter_gateway :: "gw_config \<Rightarrow> olsr_ip_addr \<Rightarrow> bool \<Rightarrow> bool \<Rightarrow> gw_state \<Rightarrow> gw_state option" where
  "enter_gateway gc originator ipv4 ipv6 g = do {
     let g = (if ipv4 then g\<lparr>current_ipv4_gw := None\<rparr> else g);
     let g = (if ipv6 then g\<lparr>current_ipv6_gw := None\<rparr> else g);
     case olsr_find_gateway_entry originator g of
       None \<Rightarrow> Some g
     | Some p \<Rightarrow> do {
         e \<leftarrow> gateways g p;
         let g = (if ipv4 \<and> current_ipv4_gw g \<noteq> Some p \<and> legal_ipv4_gw gc e then g\<lparr>current_ipv4_gw := Some p\<rparr> else g);
         Some (if ipv6 \<and> current_ipv6_gw g \<noteq> Some p \<and> gw_ipv6 e then g\<lparr>current_ipv6_gw := Some p\<rparr> else g)
       }
   }"

definition olsr_set_inet_gateway :: "olsrd_config \<Rightarrow> gw_config \<Rightarrow> olsr_ip_addr \<Rightarrow> bool \<Rightarrow> bool \<Rightarrow> bool \<Rightarrow> gw_state \<Rightarrow> (bool \<times> gw_state) option" where
  "olsr_set_inet_gateway cnf gc originator ipv4 ipv6 external g = do {
     let ipv4 = (ipv4 \<and> (\<not> ip_v6 cnf \<or> gw_use_niit gc));
     let ipv6 = (ipv6 \<and> ip_v6 cnf);
     g1 \<leftarrow> enter_gateway gc originator ipv4 ipv6 g;
     g2 \<leftarrow> switch_v4 (current_ipv4_gw g) (v4gw_tunnel g) external g1;
     g3 \<leftarrow> switch_v6 (current_ipv6_gw g) (v6gw_tunnel g) external g2;
     Some ((ipv4 \<and> current_ipv4_gw g3 = None) \<or> (ipv6 \<and> current_ipv6_gw g3 = None), g3)
   }"

definition olsr_get_ipv4_inet_gateway :: "gw_state \<Rightarrow> ptr option" where
  "olsr_get_ipv4_inet_gateway g = current_ipv4_gw g"

definition olsr_get_ipv6_inet_gateway :: "gw_state \<Rightarrow> ptr option" where
  "olsr_get_ipv6_inet_gateway g = current_ipv6_gw g"

section \<open>The default handler\<close>

type_synonym gw_pick = "(ptr option \<times> olsr_linkcost) \<times> (ptr option \<times> olsr_linkcost)"

definition consider_gateway :: "gw_config \<Rightarrow> 'lq lsdb \<Rightarrow> gw_state \<Rightarrow> ptr \<Rightarrow> gw_pick \<Rightarrow> gw_pick option" where
  "consider_gateway gc db g p = (\<lambda>(b4, b6). do {
     e \<leftarrow> gateways g p;
     case olsr_lookup_tc_entry (gw_originator e) db of
       None \<Rightarrow> Some (b4, b6)
     | Some q \<Rightarrow> do {
         tc \<leftarrow> tcs db q;
         Some (if \<not> gw_def_finished_ipv4 g \<and> gw_ipv4 e \<and> gw_ipv4nat e = smart_gw_allow_nat gc \<and> path_cost tc < snd b4
               then (Some p, path_cost tc) else b4,
               if \<not> gw_def_finished_ipv6 g \<and> gw_ipv6 e \<and> path_cost tc < snd b6 then (Some p, path_cost tc) else b6)
       }
   })"

definition set_chosen :: "olsrd_config \<Rightarrow> gw_config \<Rightarrow> ptr \<Rightarrow> bool \<Rightarrow> bool \<Rightarrow> gw_state \<Rightarrow> gw_state option" where
  "set_chosen cnf gc p ipv4 ipv6 g = do {
     e \<leftarrow> gateways g p;
     map_option snd (olsr_set_inet_gateway cnf gc (gw_originator e) ipv4 ipv6 False g)
   }"

definition gw_default_choose_gateway :: "olsrd_config \<Rightarrow> gw_config \<Rightarrow> 'lq lsdb \<Rightarrow> gw_state \<Rightarrow> gw_state option" where
  "gw_default_choose_gateway cnf gc db g = do {
     ((inet4, _), (inet6, _)) \<leftarrow> foldM (consider_gateway gc db g) (map snd (avl_walk (gateway_tree g)))
       ((None, ROUTE_COST_BROKEN), (None, ROUTE_COST_BROKEN));
     let g = g\<lparr>gw_def_finished_ipv4 := gw_def_finished_ipv4 g \<or> inet4 \<noteq> None, gw_def_finished_ipv6 := gw_def_finished_ipv6 g \<or> inet6 \<noteq> None\<rparr>;
     let dual = (inet4 = inet6);
     g \<leftarrow> (case inet4 of None \<Rightarrow> Some g | Some p \<Rightarrow> set_chosen cnf gc p True dual g);
     g \<leftarrow> (case inet6 of None \<Rightarrow> Some g | Some p \<Rightarrow> if dual then Some g else set_chosen cnf gc p False True g);
     Some (if gw_def_finished_ipv4 g \<and> gw_def_finished_ipv6 g then g\<lparr>gw_def_timer := False\<rparr> else g)
   }"

definition olsr_gw_default_lookup_gateway :: "olsrd_config \<Rightarrow> gw_config \<Rightarrow> 'lq lsdb \<Rightarrow> bool \<Rightarrow> bool \<Rightarrow> gw_state \<Rightarrow> gw_state option" where
  "olsr_gw_default_lookup_gateway cnf gc db ipv4 ipv6 g =
     (let g = (if ipv4 then g\<lparr>gw_def_finished_ipv4 := ip_v6 cnf \<and> \<not> gw_use_niit gc\<rparr> else g);
          g = (if ipv6 then g\<lparr>gw_def_finished_ipv6 := \<not> ip_v6 cnf\<rparr> else g)
      in if \<not> (gw_def_finished_ipv4 g \<and> gw_def_finished_ipv6 g) then gw_default_choose_gateway cnf gc db g else Some g)"

definition gw_default_startup_handler :: "olsrd_config \<Rightarrow> gw_config \<Rightarrow> 'lq lsdb \<Rightarrow> gw_state \<Rightarrow> gw_state" where
  "gw_default_startup_handler cnf gc db g = g\<lparr>gw_def_nodecount := count (tc_tree db), gw_def_stablecount := 0,
     gw_def_finished_ipv4 := (ip_v6 cnf \<and> \<not> gw_use_niit gc) \<or> has_ipv4_gateway gc,
     gw_def_finished_ipv6 := \<not> ip_v6 cnf \<or> has_ipv6_gateway gc, gw_def_timer := True\<rparr>"

definition gw_default_timer :: "olsrd_config \<Rightarrow> gw_config \<Rightarrow> 'lq lsdb \<Rightarrow> gw_state \<Rightarrow> gw_state option" where
  "gw_default_timer cnf gc db g =
     (let n = count (tc_tree db);
          g = (if n * 10 \<le> gw_def_nodecount g * 11 then g\<lparr>gw_def_nodecount := n\<rparr> else g);
          g = (if n \<le> gw_def_nodecount g then g\<lparr>gw_def_stablecount := gw_def_stablecount g + 1\<rparr>
               else g\<lparr>gw_def_nodecount := n, gw_def_stablecount := 0\<rparr>)
      in if gw_def_stablecount g \<ge> GW_DEFAULT_STABLE_COUNT then gw_default_choose_gateway cnf gc db g else Some g)"

definition gw_default_update_handler :: "olsrd_config \<Rightarrow> gw_config \<Rightarrow> 'lq lsdb \<Rightarrow> ptr \<Rightarrow> gw_state \<Rightarrow> gw_state option" where
  "gw_default_update_handler cnf gc db p g = do {
     e \<leftarrow> gateways g p;
     let v4changed = (olsr_get_ipv4_inet_gateway g = Some p \<and> (\<not> gw_ipv4 e \<or> (gw_ipv4nat e \<and> \<not> smart_gw_allow_nat gc)));
     let v6changed = (olsr_get_ipv6_inet_gateway g = Some p \<and> \<not> gw_ipv6 e);
     if v4changed \<or> v6changed then olsr_gw_default_lookup_gateway cnf gc db v4changed v6changed g else Some g
   }"

definition gw_default_delete_handler :: "olsrd_config \<Rightarrow> gw_config \<Rightarrow> 'lq lsdb \<Rightarrow> ptr \<Rightarrow> gw_state \<Rightarrow> gw_state option" where
  "gw_default_delete_handler cnf gc db p g =
     (let isv4 = (olsr_get_ipv4_inet_gateway g = Some p); isv6 = (olsr_get_ipv6_inet_gateway g = Some p)
      in if isv4 \<or> isv6 then olsr_gw_default_lookup_gateway cnf gc db isv4 isv6 g else Some g)"

definition gw_default_choosegw_handler :: "olsrd_config \<Rightarrow> gw_config \<Rightarrow> 'lq lsdb \<Rightarrow> bool \<Rightarrow> bool \<Rightarrow> gw_state \<Rightarrow> gw_state option" where
  "gw_default_choosegw_handler cnf gc db ipv4 ipv6 g = do {
     g \<leftarrow> olsr_gw_default_lookup_gateway cnf gc db ipv4 ipv6 g;
     Some (if \<not> (gw_def_finished_ipv4 g \<and> gw_def_finished_ipv6 g) then gw_default_startup_handler cnf gc db g else g)
   }"

definition olsr_gw_default_init :: "gw_state \<Rightarrow> gw_state" where
  "olsr_gw_default_init g = g\<lparr>gw_def_timer := False, gw_def_finished_ipv4 := False, gw_def_finished_ipv6 := False,
     gw_def_nodecount := 0, gw_def_stablecount := 0\<rparr>"

section \<open>The set of gateways\<close>

definition olsr_init_gateways :: "olsrd_config \<Rightarrow> gw_config \<Rightarrow> bool \<Rightarrow> gw_state \<Rightarrow> (int \<times> gw_state) option" where
  "olsr_init_gateways cnf gc tunnel_error g = do {
     g \<leftarrow> refresh_smartgw_netmask cnf gc
       (g\<lparr>gateway_tree := avl_init, current_ipv4_gw := None, current_ipv6_gw := None, v4gw_tunnel := None, v6gw_tunnel := None\<rparr>);
     Some (if tunnel_error then (1, g) else (0, olsr_gw_default_init g))
   }"

definition olsr_cleanup_gateways :: "gw_state \<Rightarrow> gw_state option" where
  "olsr_cleanup_gateways g = do {
     g \<leftarrow> (if current_ipv4_gw g \<noteq> None then map_option (\<lambda>i. tunnel_do (Del_tunnel i) g) (v4gw_tunnel g) else Some g);
     if current_ipv6_gw g \<noteq> None then map_option (\<lambda>i. tunnel_do (Del_tunnel i) g) (v6gw_tunnel g) else Some g
   }"

text \<open>The monitor is called when an interface changes; a tunnel is known by its index.\<close>

definition smartgw_tunnel_monitor :: "olsrd_config \<Rightarrow> nat \<Rightarrow> bool \<Rightarrow> gw_state \<Rightarrow> gw_state option" where
  "smartgw_tunnel_monitor cnf if_index if_add g = do {
     g \<leftarrow> (if current_ipv4_gw g \<noteq> None
            then map_option (\<lambda>i. if if_index = i \<and> if_add then tunnel_do (Tunnel_ip i (main_addr cnf) True) (tunnel_do (Tunnel_route i True True) g) else g) (v4gw_tunnel g)
            else Some g);
     if current_ipv6_gw g \<noteq> None
     then map_option (\<lambda>i. if if_index = i \<and> if_add then tunnel_do (Tunnel_ip i (main_addr cnf) True) (tunnel_do (Tunnel_route i False True) g) else g) (v6gw_tunnel g)
     else Some g
   }"

definition olsr_trigger_inetgw_selection :: "olsrd_config \<Rightarrow> gw_config \<Rightarrow> 'lq lsdb \<Rightarrow> bool \<Rightarrow> bool \<Rightarrow> gw_state \<Rightarrow> (int \<times> gw_state) option" where
  "olsr_trigger_inetgw_selection cnf gc db ipv4 ipv6 g = do {
     g \<leftarrow> gw_default_choosegw_handler cnf gc db ipv4 ipv6 g;
     Some (if (ipv4 \<and> current_ipv4_gw g = None) \<or> (ipv6 \<and> current_ipv6_gw g = None) then -1 else 0, g)
   }"

definition gateway_lost :: "'lq lsdb \<Rightarrow> ptr option \<Rightarrow> gw_state \<Rightarrow> bool option" where
  "gateway_lost db c g = (case c of
       None \<Rightarrow> Some False
     | Some p \<Rightarrow> do {
         e \<leftarrow> gateways g p;
         case olsr_lookup_tc_entry (gw_originator e) db of
           None \<Rightarrow> Some True
         | Some q \<Rightarrow> map_option (\<lambda>tc. path_cost tc = ROUTE_COST_BROKEN) (tcs db q)
       })"

definition olsr_trigger_gatewayloss_check :: "olsrd_config \<Rightarrow> gw_config \<Rightarrow> 'lq lsdb \<Rightarrow> gw_state \<Rightarrow> gw_state option" where
  "olsr_trigger_gatewayloss_check cnf gc db g = do {
     ipv4 \<leftarrow> gateway_lost db (current_ipv4_gw g) g;
     ipv6 \<leftarrow> gateway_lost db (current_ipv6_gw g) g;
     if ipv4 \<or> ipv6 then map_option snd (olsr_trigger_inetgw_selection cnf gc db ipv4 ipv6 g) else Some g
   }"

definition zero_prefix :: "olsrd_config \<Rightarrow> olsr_ip_prefix" where
  "zero_prefix cnf = \<lparr>prefix = (if ip_v6 cnf then V6 0 else V4 0), prefix_len = 0\<rparr>"

definition new_gateway :: "olsrd_config \<Rightarrow> olsr_ip_addr \<Rightarrow> gateway_entry" where
  "new_gateway cnf a = \<lparr>gw_originator = a, external_prefix = zero_prefix cnf, uplink = 0, downlink = 0,
     gw_ipv4 = False, gw_ipv4nat = False, gw_ipv6 = False, cleanup_timer = False, gw_seqno = 0\<rparr>"

text \<open>The data an announcement carries in its netmask.\<close>

definition read_external :: "olsrd_config \<Rightarrow> olsr_ip_addr \<Rightarrow> nat \<Rightarrow> u8 \<Rightarrow> olsr_ip_prefix option" where
  "read_external cnf netmask i flags =
     (if flags AND GW_HNA_FLAG_IPV6PREFIX \<noteq> 0 \<and> netmask = prefix ipv6_internet_route then do {
        len \<leftarrow> byte_of (ip_bytes netmask) (i + GW_HNA_V6PREFIXLEN);
        (bs, _) \<leftarrow> get_bytes 8 (ip_bytes netmask) (i + GW_HNA_V6PREFIX);
        Some \<lparr>prefix = V6 (v6_of_bytes (bs @ replicate 8 0)), prefix_len = len\<rparr>
      } else Some (zero_prefix cnf))"

definition read_gateway :: "olsrd_config \<Rightarrow> olsr_ip_addr \<Rightarrow> nat \<Rightarrow> u16 \<Rightarrow> gateway_entry \<Rightarrow> gateway_entry option" where
  "read_gateway cnf netmask prefixlen seqno e = do {
     let i = mask_offset prefixlen;
     flags \<leftarrow> byte_of (ip_bytes netmask) (i + GW_HNA_FLAGS);
     (up, down) \<leftarrow> (if flags AND GW_HNA_FLAG_LINKSPEED \<noteq> 0 then do {
         up \<leftarrow> byte_of (ip_bytes netmask) (i + GW_HNA_UPLINK);
         down \<leftarrow> byte_of (ip_bytes netmask) (i + GW_HNA_DOWNLINK);
         Some (deserialize_gw_speed up, deserialize_gw_speed down)
       } else Some (1, 1));
     let e = e\<lparr>gw_seqno := seqno, uplink := up, downlink := down,
       gw_ipv4 := (flags AND GW_HNA_FLAG_IPV4 \<noteq> 0), gw_ipv4nat := (flags AND GW_HNA_FLAG_IPV4_NAT \<noteq> 0)\<rparr>;
     e \<leftarrow> (if \<not> ip_v6 cnf then Some e
            else let e = e\<lparr>gw_ipv6 := (flags AND GW_HNA_FLAG_IPV6 \<noteq> 0)\<rparr>
                 in if prefixlen = unat (prefix_len ipv6_internet_route)
                    then map_option (\<lambda>x. e\<lparr>external_prefix := x\<rparr>) (read_external cnf netmask i flags) else Some e);
     Some (e\<lparr>cleanup_timer := False\<rparr>)
   }"

definition olsr_update_gateway_entry :: "olsrd_config \<Rightarrow> gw_config \<Rightarrow> 'lq lsdb \<Rightarrow> olsr_ip_addr \<Rightarrow> olsr_ip_addr \<Rightarrow> nat \<Rightarrow> u16 \<Rightarrow> gw_state \<Rightarrow> gw_state option" where
  "olsr_update_gateway_entry cnf gc db originator netmask prefixlen seqno g = do {
     (p, old, g) \<leftarrow> (case olsr_find_gateway_entry originator g of
         None \<Rightarrow> do {
           (T, _) \<leftarrow> avl_insert (gateway_tree g) originator (gw_next g) False;
           Some (gw_next g, False, g\<lparr>gateway_tree := T, gateways := (gateways g)(gw_next g \<mapsto> new_gateway cnf originator), gw_next := Suc (gw_next g)\<rparr>)
         }
       | Some p \<Rightarrow> do { e \<leftarrow> gateways g p; Some (p, olsr_seqno_diff seqno (gw_seqno e) \<le> 0, g) });
     if old then Some g
     else do {
       e \<leftarrow> gateways g p;
       e \<leftarrow> read_gateway cnf netmask prefixlen seqno e;
       gw_default_update_handler cnf gc db p (g\<lparr>gateways := (gateways g)(p \<mapsto> e)\<rparr>)
     }
   }"

definition cleanup_gateway_handler :: "ptr \<Rightarrow> gw_state \<Rightarrow> gw_state option" where
  "cleanup_gateway_handler p g = do {
     e \<leftarrow> gateways g p;
     if gw_ipv4 e \<or> gw_ipv6 e then Some g
     else do {
       T \<leftarrow> avl_delete (gateway_tree g) p;
       Some (g\<lparr>gateway_tree := T, gateways := (gateways g)(p := None)\<rparr>)
     }
   }"

text \<open>The tunnel of a lost gateway is taken down.\<close>

definition drop_v4 :: "ptr \<Rightarrow> gw_state \<Rightarrow> gw_state option" where
  "drop_v4 p g =
     (if current_ipv4_gw g = Some p
      then map_option (\<lambda>i. (tunnel_do (Del_tunnel i) (tunnel_do (Tunnel_route i True False) g))\<lparr>current_ipv4_gw := None, v4gw_tunnel := None\<rparr>) (v4gw_tunnel g)
      else Some g)"

definition drop_v6 :: "ptr \<Rightarrow> gw_state \<Rightarrow> gw_state option" where
  "drop_v6 p g =
     (if current_ipv6_gw g = Some p
      then map_option (\<lambda>i. (tunnel_do (Del_tunnel i) (tunnel_do (Tunnel_route i False False) g))\<lparr>current_ipv6_gw := None, v6gw_tunnel := None\<rparr>) (v6gw_tunnel g)
      else Some g)"

text \<open>The route of an announcement that is withdrawn, and whether the entry had it.\<close>

definition withdraw_route :: "olsrd_config \<Rightarrow> u8 \<Rightarrow> gateway_entry \<Rightarrow> bool \<times> gateway_entry" where
  "withdraw_route cnf prefixlen e =
     (if \<not> ip_v6 cnf \<and> prefixlen = 0 then (gw_ipv4 e, e\<lparr>gw_ipv4 := False, gw_ipv4nat := False\<rparr>)
      else if ip_v6 cnf \<and> prefixlen = prefix_len ipv6_internet_route then (gw_ipv6 e, e\<lparr>gw_ipv6 := False\<rparr>)
      else if ip_v6 cnf \<and> prefixlen = prefix_len ipv6_mappedv4_route then (gw_ipv4 e, e\<lparr>gw_ipv4 := False, gw_ipv4nat := False\<rparr>)
      else (False, e))"

definition olsr_delete_gateway_entry :: "olsrd_config \<Rightarrow> gw_config \<Rightarrow> 'lq lsdb \<Rightarrow> olsr_ip_addr \<Rightarrow> u8 \<Rightarrow> gw_state \<Rightarrow> gw_state option" where
  "olsr_delete_gateway_entry cnf gc db originator prefixlen g = (case olsr_find_gateway_entry originator g of
       None \<Rightarrow> Some g
     | Some p \<Rightarrow> do {
         e \<leftarrow> gateways g p;
         if \<not> cleanup_timer e \<or> gw_ipv4 e \<or> gw_ipv6 e then do {
           let (change, e) = withdraw_route cnf prefixlen e;
           let g = g\<lparr>gateways := (gateways g)(p \<mapsto> e)\<rparr>;
           if prefixlen = FORCE_DELETE_GW_ENTRY \<or> \<not> (gw_ipv4 e \<or> gw_ipv6 e) then do {
             g \<leftarrow> gw_default_delete_handler cnf gc db p (upd_gw p (\<lambda>e. e\<lparr>gw_ipv4 := False, gw_ipv4nat := False, gw_ipv6 := False\<rparr>) g);
             g \<leftarrow> drop_v4 p g;
             g \<leftarrow> drop_v6 p g;
             Some (upd_gw p (\<lambda>e. e\<lparr>cleanup_timer := True\<rparr>) g)
           }
           else if change then gw_default_update_handler cnf gc db p g
           else Some g
         }
         else Some g
       })"

section \<open>Speeds survive the encoding\<close>

lemma gw_speed_loop_range:
  "0 < s \<Longrightarrow> gw_speed_loop s k = (m, k') \<Longrightarrow> 0 < m \<and> m \<le> 32 \<and> k \<le> k' \<and> m * 10 ^ (k' - k) \<le> s \<and>
     (k' = k \<and> m = s \<or> k < k' \<and> 3 * s + 3 \<le> 4 * m * 10 ^ (k' - k))"
proof (induction s k rule: gw_speed_loop.induct)
  case (1 s k)
  show ?case
  proof (cases "s > 32 \<or> s mod 10 = 0")
    case False
    thus ?thesis using 1(2,3) by (simp add: gw_speed_loop.simps [of s k])
  next
    case True
    have d: "0 < s div 10" "s = 10 * (s div 10) + s mod 10" "s mod 10 < 10" using True 1(2) by auto
    have "gw_speed_loop (s div 10) (k + 1) = (m, k')" using 1(2,3) True by (simp add: gw_speed_loop.simps [of s k])
    hence IH: "0 < m" "m \<le> 32" "k + 1 \<le> k'" "m * 10 ^ (k' - (k + 1)) \<le> s div 10"
      "k' = k + 1 \<and> m = s div 10 \<or> k + 1 < k' \<and> 3 * (s div 10) + 3 \<le> 4 * m * 10 ^ (k' - (k + 1))" using 1(1) 1(2) True d(1) by blast+
    have p: "(10::nat) ^ (k' - k) = 10 * 10 ^ (k' - (k + 1))" using IH(3) by (simp add: Suc_diff_Suc flip: power_Suc)
    have "m * 10 ^ (k' - k) \<le> s" using IH(4) d(2) unfolding p by simp
    moreover have "3 * s + 3 \<le> 4 * m * 10 ^ (k' - k)" using IH(5)
    proof
      assume e: "k' = k + 1 \<and> m = s div 10"
      have "3 \<le> s div 10" if "s > 32" using that by simp
      hence "3 * s + 3 \<le> 40 * (s div 10)" using True d by fastforce
      thus ?thesis using e p by simp
    next
      assume "k + 1 < k' \<and> 3 * (s div 10) + 3 \<le> 4 * m * 10 ^ (k' - (k + 1))"
      hence "10 * (3 * (s div 10) + 3) \<le> 10 * (4 * m * 10 ^ (k' - (k + 1)))" by (intro mult_le_mono2) blast
      moreover have "3 * s + 3 \<le> 10 * (3 * (s div 10) + 3)" by presburger
      ultimately show ?thesis unfolding p by simp
    qed
    ultimately show ?thesis using IH(1-3) by simp
  qed
qed

lemma gw_speed_loop_steps:
  "0 < s \<Longrightarrow> s < 33 * 10 ^ n \<Longrightarrow> s div 10 ^ n \<notin> {10, 20, 30} \<Longrightarrow> snd (gw_speed_loop s k) \<le> k + n"
proof (induction n arbitrary: s k)
  case 0
  hence "s \<le> 32" "s \<noteq> 10" "s \<noteq> 20" "s \<noteq> 30" by simp_all
  hence "\<not> (s > 32 \<or> s mod 10 = 0)" using 0(1) by presburger
  thus ?case by (simp add: gw_speed_loop.simps [of s k])
next
  case (Suc n)
  show ?case
  proof (cases "s > 32 \<or> s mod 10 = 0")
    case True
    have "0 < s div 10" using True Suc.prems(1) by auto
    moreover have "s div 10 < 33 * 10 ^ n" using Suc.prems(2) by (simp add: less_mult_imp_div_less mult.commute mult.left_commute)
    moreover have "s div 10 div 10 ^ n \<notin> {10, 20, 30}" using Suc.prems(3) by (simp add: div_mult2_eq)
    ultimately have "snd (gw_speed_loop (s div 10) (k + 1)) \<le> k + 1 + n" by (rule Suc.IH)
    thus ?thesis using True Suc.prems(1) by (simp add: gw_speed_loop.simps [of s k])
  qed (simp add: gw_speed_loop.simps [of s k])
qed

lemma gw_speed_code:
  assumes "x < 32" "k < 8"
  shows "deserialize_gw_speed (push_bit 3 (of_nat x) OR of_nat k) = of_nat ((x + 1) * 10 ^ k)"
proof -
  let ?v = "push_bit 3 (of_nat x) OR of_nat k :: u8"
  have "push_bit 3 (of_nat x) AND of_nat k = (0 :: u8)"
  proof (rule bit_word_eqI)
    fix n :: nat
    have "take_bit 3 k = k" using assms(2) by (simp add: take_bit_nat_eq_self)
    hence "bit k n \<longrightarrow> n < 3" by (metis bit_take_bit_iff)
    thus "bit (push_bit 3 (of_nat x) AND of_nat k :: u8) n = bit (0 :: u8) n" by (auto simp: bit_simps)
  qed
  hence "?v = push_bit 3 (of_nat x) + of_nat k" by (simp add: disjunctive_add_eq_or)
  hence "?v = of_nat (8 * x + k)" by (simp add: push_bit_eq_mult)
  hence v: "unat ?v = 8 * x + k" using assms by (simp only: unat_of_nat) simp
  have "unat (drop_bit 3 ?v) = x" using v assms(2) unfolding unat_drop_bit_eq by (simp add: drop_bit_eq_div)
  hence "ucast (drop_bit 3 ?v) = (of_nat x :: u32)" by (metis of_nat_unat)
  moreover have "?v AND 7 = take_bit 3 ?v" by (simp add: take_bit_eq_mask mask_eq_exp_minus_1)
  hence "unat (?v AND 7) = take_bit 3 (8 * x + k)" using v by (simp only: unsigned_take_bit_eq)
  hence "unat (?v AND 7) = k" using assms(2) by (simp add: take_bit_eq_mod)
  ultimately show ?thesis by (simp add: deserialize_gw_speed_def distrib_right)
qed

text \<open>
  A speed survives the encoding into an octet up to a quarter: what a receiver decodes is at
  most the speed announced and more than three quarters of it. This holds up to 320 Gbit/s, apart from
  the speeds whose leading digits are 10, 20 or 30 at the largest exponent.
\<close>

theorem gw_speed_precision:
  assumes "0 < speed" "speed \<le> 320000000" "unat speed div 10 ^ 7 \<notin> {10, 20, 30}"
  shows "unat (deserialize_gw_speed (serialize_gw_speed speed)) \<le> unat speed \<and>
    3 * unat speed < 4 * unat (deserialize_gw_speed (serialize_gw_speed speed))"
proof -
  obtain m k where mk: "gw_speed_loop (unat speed) 0 = (m, k)" by fastforce
  have u: "0 < unat speed" "unat speed \<le> 320000000" using assms(1,2) by (simp_all add: unat_gt_0 word_le_nat_alt)
  have r: "0 < m" "m \<le> 32" "m * 10 ^ k \<le> unat speed" "k = 0 \<and> m = unat speed \<or> 0 < k \<and> 3 * unat speed + 3 \<le> 4 * m * 10 ^ k"
    using gw_speed_loop_range [OF u(1) mk] by simp_all
  have "k \<le> 7" using gw_speed_loop_steps [OF u(1) _ assms(3), of 0] u(2) mk by simp
  have "unat speed < 2 ^ 32" by (rule u32_less)
  hence "m * 10 ^ k < 2 ^ 32" using r(3) by linarith
  hence c: "unat (of_nat (m * 10 ^ k) :: u32) = m * 10 ^ k" by (simp only: unat_of_nat) simp
  have "m - 1 < 32" "k < 8" "m - 1 + 1 = m" using r(1,2) \<open>k \<le> 7\<close> by auto
  hence "deserialize_gw_speed (push_bit 3 (of_nat (m - 1)) OR of_nat k) = of_nat (m * 10 ^ k)" using gw_speed_code by metis
  moreover have "serialize_gw_speed speed = push_bit 3 (of_nat (m - 1)) OR of_nat k" using u assms(2) mk by (auto simp: serialize_gw_speed_def linorder_not_less)
  ultimately have "unat (deserialize_gw_speed (serialize_gw_speed speed)) = m * 10 ^ k" using c by simp
  thus ?thesis using r u(1) by auto
qed

theorem gw_speed_precision_witness:
  "unat (deserialize_gw_speed (serialize_gw_speed 16000)) \<le> 16000 \<and> 3 * 16000 < 4 * unat (deserialize_gw_speed (serialize_gw_speed 16000))"
  using gw_speed_precision [of 16000] by simp

text \<open>
  The exponent may overflow: a speed of 100 Gbit/s is announced as 2 kbit/s, since the loop
  divides once more when the last digit is a zero.
\<close>

theorem gw_speed_overflow: "deserialize_gw_speed (serialize_gw_speed 100000000) = 2"
proof -
  have "gw_speed_loop (unat (100000000 :: u32)) 0 = (1, 8)" by (simp add: gw_speed_loop.simps)
  thus ?thesis by (simp add: serialize_gw_speed_def deserialize_gw_speed_def)
qed

section \<open>The gateways in use\<close>

definition gw_key :: "gw_state \<Rightarrow> ptr \<rightharpoonup> olsr_ip_addr" where
  "gw_key g p = map_option gw_originator (gateways g p)"

text \<open>
  The tree holds the entries that are not freed; an entry that waits for its removal is no gateway
  any more and is not in use; the gateways in use exist and have a tunnel.
\<close>

definition gw_ok :: "gw_state \<Rightarrow> bool" where
  "gw_ok g \<longleftrightarrow> indexes (gateway_tree g) (gw_key g) \<and> (\<forall>p. gateways g p \<noteq> None \<longrightarrow> p < gw_next g) \<and>
     (\<forall>p e. gateways g p = Some e \<longrightarrow> cleanup_timer e \<longrightarrow> \<not> gw_ipv4 e \<and> \<not> gw_ipv6 e) \<and>
     (\<forall>p. current_ipv4_gw g = Some p \<longrightarrow> (\<exists>e. gateways g p = Some e \<and> \<not> cleanup_timer e) \<and> v4gw_tunnel g \<noteq> None) \<and>
     (\<forall>p. current_ipv6_gw g = Some p \<longrightarrow> (\<exists>e. gateways g p = Some e \<and> \<not> cleanup_timer e) \<and> v6gw_tunnel g \<noteq> None)"

text \<open>An entry that may be in use.\<close>

definition usable :: "gw_state \<Rightarrow> ptr \<Rightarrow> bool" where
  "usable g p \<longleftrightarrow> (\<exists>e. gateways g p = Some e \<and> \<not> cleanup_timer e)"

lemma gw_okD:
  assumes "gw_ok g"
  shows "indexes (gateway_tree g) (gw_key g)" "gateways g p = Some e \<Longrightarrow> p < gw_next g" "gateways g p = Some e \<Longrightarrow> gw_ipv4 e \<or> gw_ipv6 e \<Longrightarrow> \<not> cleanup_timer e"
    "current_ipv4_gw g = Some p \<Longrightarrow> usable g p" "current_ipv4_gw g \<noteq> None \<Longrightarrow> v4gw_tunnel g \<noteq> None"
    "current_ipv6_gw g = Some p \<Longrightarrow> usable g p" "current_ipv6_gw g \<noteq> None \<Longrightarrow> v6gw_tunnel g \<noteq> None"
  using assms unfolding gw_ok_def usable_def by blast+

lemma gw_okI:
  assumes "indexes (gateway_tree g) (gw_key g)" "\<And>p e. gateways g p = Some e \<Longrightarrow> p < gw_next g"
    "\<And>p e. gateways g p = Some e \<Longrightarrow> cleanup_timer e \<Longrightarrow> \<not> gw_ipv4 e \<and> \<not> gw_ipv6 e"
    "\<And>p. current_ipv4_gw g = Some p \<Longrightarrow> usable g p" "current_ipv4_gw g \<noteq> None \<Longrightarrow> v4gw_tunnel g \<noteq> None"
    "\<And>p. current_ipv6_gw g = Some p \<Longrightarrow> usable g p" "current_ipv6_gw g \<noteq> None \<Longrightarrow> v6gw_tunnel g \<noteq> None"
  shows "gw_ok g"
  unfolding gw_ok_def using assms unfolding usable_def by auto

text \<open>What the choice of a gateway leaves alone.\<close>

definition same_gws :: "gw_state \<Rightarrow> gw_state \<Rightarrow> bool" where
  "same_gws g g' \<longleftrightarrow> gateway_tree g' = gateway_tree g \<and> gateways g' = gateways g \<and> gw_next g' = gw_next g \<and> tunnel_result g' = tunnel_result g"

lemma same_gws_refl [simp]: "same_gws g g" and same_gws_trans: "same_gws g g' \<Longrightarrow> same_gws g' g'' \<Longrightarrow> same_gws g g''"
  by (simp_all add: same_gws_def)

text \<open>The gateway \<open>c'\<close> that is in use after \<open>Some p\<close> was to replace \<open>c\<close>.\<close>

definition replaced :: "gw_state \<Rightarrow> bool \<Rightarrow> ptr \<Rightarrow> ptr option \<Rightarrow> ptr option \<Rightarrow> bool" where
  "replaced g asked p c c' \<longleftrightarrow> (if asked then c' = Some p \<or> c' = None \<and> (\<exists>n. tunnel_result g n = None) else c' = c)"

lemma switch_v4_ok:
  assumes "current_ipv4_gw g = old \<or> (\<exists>p e. current_ipv4_gw g = Some p \<and> gateways g p = Some e)" "old \<noteq> None \<longrightarrow> tunnel \<noteq> None" "v4gw_tunnel g = tunnel"
  obtains g' where "switch_v4 old tunnel external g = Some g'" "same_gws g g'" "current_ipv6_gw g' = current_ipv6_gw g" "v6gw_tunnel g' = v6gw_tunnel g"
    "current_ipv4_gw g' = current_ipv4_gw g \<or> current_ipv4_gw g \<noteq> old \<and> current_ipv4_gw g' = None \<and> (\<exists>n. tunnel_result g n = None)"
    "current_ipv4_gw g' \<noteq> None \<longrightarrow> v4gw_tunnel g' \<noteq> None" "gw_def_finished_ipv4 g' = gw_def_finished_ipv4 g" "gw_def_finished_ipv6 g' = gw_def_finished_ipv6 g"
proof (cases "old = current_ipv4_gw g")
  case True
  thus thesis using that [of g] assms(2,3) by (auto simp: switch_v4_def)
next
  case False
  then obtain p e where p: "current_ipv4_gw g = Some p" "gateways g p = Some e" using assms(1) by auto
  let ?t = "tunnel_result g (length (tunnel_calls g))"
  have "\<exists>g'. switch_v4 old tunnel external g = Some g' \<and> same_gws g g' \<and> current_ipv6_gw g' = current_ipv6_gw g \<and> v6gw_tunnel g' = v6gw_tunnel g \<and>
      gw_def_finished_ipv4 g' = gw_def_finished_ipv4 g \<and> gw_def_finished_ipv6 g' = gw_def_finished_ipv6 g \<and>
      v4gw_tunnel g' = ?t \<and> current_ipv4_gw g' = (if ?t = None then None else current_ipv4_gw g)"
    using False p assms(2)
    by (cases ?t; cases tunnel) (auto simp: switch_v4_def add_tunnel_def tunnel_do_def same_gws_def Let_def)
  thus thesis using that False by (metis p(1))
qed

lemma switch_v6_ok:
  assumes "current_ipv6_gw g = old \<or> (\<exists>p e. current_ipv6_gw g = Some p \<and> gateways g p = Some e)" "old \<noteq> None \<longrightarrow> tunnel \<noteq> None" "v6gw_tunnel g = tunnel"
  obtains g' where "switch_v6 old tunnel external g = Some g'" "same_gws g g'" "current_ipv4_gw g' = current_ipv4_gw g" "v4gw_tunnel g' = v4gw_tunnel g"
    "current_ipv6_gw g' = current_ipv6_gw g \<or> current_ipv6_gw g \<noteq> old \<and> current_ipv6_gw g' = None \<and> (\<exists>n. tunnel_result g n = None)"
    "current_ipv6_gw g' \<noteq> None \<longrightarrow> v6gw_tunnel g' \<noteq> None" "gw_def_finished_ipv4 g' = gw_def_finished_ipv4 g" "gw_def_finished_ipv6 g' = gw_def_finished_ipv6 g"
proof (cases "old = current_ipv6_gw g")
  case True
  thus thesis using that [of g] assms(2,3) by (auto simp: switch_v6_def)
next
  case False
  then obtain p e where p: "current_ipv6_gw g = Some p" "gateways g p = Some e" using assms(1) by auto
  let ?t = "tunnel_result g (length (tunnel_calls g))"
  have "\<exists>g'. switch_v6 old tunnel external g = Some g' \<and> same_gws g g' \<and> current_ipv4_gw g' = current_ipv4_gw g \<and> v4gw_tunnel g' = v4gw_tunnel g \<and>
      gw_def_finished_ipv4 g' = gw_def_finished_ipv4 g \<and> gw_def_finished_ipv6 g' = gw_def_finished_ipv6 g \<and>
      v6gw_tunnel g' = ?t \<and> current_ipv6_gw g' = (if ?t = None then None else current_ipv6_gw g)"
    using False p assms(2)
    by (cases ?t; cases tunnel) (auto simp: switch_v6_def add_tunnel_def tunnel_do_def same_gws_def Let_def)
  thus thesis using that False by (metis p(1))
qed

lemma enter_gateway_ok:
  assumes "olsr_find_gateway_entry a g = Some p" "gateways g p = Some e" "ipv4 \<longrightarrow> legal_ipv4_gw gc e" "ipv6 \<longrightarrow> gw_ipv6 e"
  shows "enter_gateway gc a ipv4 ipv6 g =
    Some (g\<lparr>current_ipv4_gw := (if ipv4 then Some p else current_ipv4_gw g), current_ipv6_gw := (if ipv6 then Some p else current_ipv6_gw g)\<rparr>)"
  using assms by (cases ipv4; cases ipv6) (simp_all add: enter_gateway_def olsr_find_gateway_entry_def)

lemma set_inet_gateway_ok:
  assumes ok: "gw_ok g" and p: "gateways g p = Some e"
    and i4: "ipv4 \<longrightarrow> legal_ipv4_gw gc e" and i6: "ipv6 \<longrightarrow> gw_ipv6 e"
  obtains r g' where "olsr_set_inet_gateway cnf gc (gw_originator e) ipv4 ipv6 external g = Some (r, g')" "same_gws g g'" "gw_ok g'"
    "replaced g (ipv4 \<and> (\<not> ip_v6 cnf \<or> gw_use_niit gc)) p (current_ipv4_gw g) (current_ipv4_gw g')"
    "replaced g (ipv6 \<and> ip_v6 cnf) p (current_ipv6_gw g) (current_ipv6_gw g')"
    "gw_def_finished_ipv4 g' = gw_def_finished_ipv4 g" "gw_def_finished_ipv6 g' = gw_def_finished_ipv6 g"
proof -
  let ?i4 = "ipv4 \<and> (\<not> ip_v6 cnf \<or> gw_use_niit gc)" and ?i6 = "ipv6 \<and> ip_v6 cnf"
  have k: "gw_key g p = Some (gw_originator e)" using p by (simp add: gw_key_def)
  have f: "avl_find (gateway_tree g) (gw_originator e) = Some p" using indexes_find [OF gw_okD(1) [OF ok]] k by blast
  let ?g1 = "g\<lparr>current_ipv4_gw := (if ?i4 then Some p else current_ipv4_gw g), current_ipv6_gw := (if ?i6 then Some p else current_ipv6_gw g)\<rparr>"
  have t: "usable g p" if "?i4 \<or> ?i6" using that gw_okD(3) [OF ok p] p i4 i6 unfolding legal_ipv4_gw_def usable_def by blast
  have tun: "current_ipv4_gw g \<noteq> None \<longrightarrow> v4gw_tunnel g \<noteq> None" "current_ipv6_gw g \<noteq> None \<longrightarrow> v6gw_tunnel g \<noteq> None"
    using gw_okD(5,7) [OF ok] by blast+
  obtain g2 where g2: "switch_v4 (current_ipv4_gw g) (v4gw_tunnel g) external ?g1 = Some g2" "same_gws ?g1 g2"
    "current_ipv6_gw g2 = current_ipv6_gw ?g1" "v6gw_tunnel g2 = v6gw_tunnel ?g1"
    "current_ipv4_gw g2 = current_ipv4_gw ?g1 \<or> current_ipv4_gw ?g1 \<noteq> current_ipv4_gw g \<and> current_ipv4_gw g2 = None \<and> (\<exists>n. tunnel_result ?g1 n = None)"
    "current_ipv4_gw g2 \<noteq> None \<longrightarrow> v4gw_tunnel g2 \<noteq> None" "gw_def_finished_ipv4 g2 = gw_def_finished_ipv4 ?g1" "gw_def_finished_ipv6 g2 = gw_def_finished_ipv6 ?g1"
    by (rule switch_v4_ok [of ?g1 "current_ipv4_gw g" "v4gw_tunnel g" external]) (use p tun(1) in auto)
  have s2: "gateways g2 = gateways g" using g2(2) by (simp add: same_gws_def)
  obtain g3 where g3: "switch_v6 (current_ipv6_gw g) (v6gw_tunnel g) external g2 = Some g3" "same_gws g2 g3"
    "current_ipv4_gw g3 = current_ipv4_gw g2" "v4gw_tunnel g3 = v4gw_tunnel g2"
    "current_ipv6_gw g3 = current_ipv6_gw g2 \<or> current_ipv6_gw g2 \<noteq> current_ipv6_gw g \<and> current_ipv6_gw g3 = None \<and> (\<exists>n. tunnel_result g2 n = None)"
    "current_ipv6_gw g3 \<noteq> None \<longrightarrow> v6gw_tunnel g3 \<noteq> None" "gw_def_finished_ipv4 g3 = gw_def_finished_ipv4 g2" "gw_def_finished_ipv6 g3 = gw_def_finished_ipv6 g2"
    by (rule switch_v6_ok [of g2 "current_ipv6_gw g" "v6gw_tunnel g" external]) (use p tun(2) g2(3,4) s2 in auto)
  have res: "olsr_set_inet_gateway cnf gc (gw_originator e) ipv4 ipv6 external g =
      Some ((?i4 \<and> current_ipv4_gw g3 = None) \<or> (?i6 \<and> current_ipv6_gw g3 = None), g3)"
    using g2(1) g3(1) enter_gateway_ok [of "gw_originator e" g p e ?i4 gc ?i6] f p i4 i6
    by (simp add: olsr_set_inet_gateway_def olsr_find_gateway_entry_def)
  have s: "same_gws g g3" using g2(2) g3(2) by (simp add: same_gws_def)
  have r4: "replaced g ?i4 p (current_ipv4_gw g) (current_ipv4_gw g3)" using g2(5) g3(3) by (auto simp: replaced_def)
  have r6: "replaced g ?i6 p (current_ipv6_gw g) (current_ipv6_gw g3)" using g2(2,3) g3(5) by (auto simp: replaced_def same_gws_def)
  have c: "usable g q" if "replaced g a p c c'" "c' = Some q" "a \<longrightarrow> ?i4 \<or> ?i6" "\<And>p. c = Some p \<Longrightarrow> usable g p" for a c c' q
    using that t by (cases a) (auto simp: replaced_def)
  have key: "gw_key g3 = gw_key g" "\<And>q. usable g3 q = usable g q" using s by (simp_all add: gw_key_def same_gws_def usable_def fun_eq_iff)
  have "gw_ok g3"
  proof (rule gw_okI, unfold key)
    show "indexes (gateway_tree g3) (gw_key g)" using gw_okD(1) [OF ok] s by (simp add: same_gws_def)
    show "usable g q" if "current_ipv4_gw g3 = Some q" for q using c [OF r4 that] gw_okD(4) [OF ok] by blast
    show "usable g q" if "current_ipv6_gw g3 = Some q" for q using c [OF r6 that] gw_okD(6) [OF ok] by blast
    show "q < gw_next g3" if "gateways g3 q = Some e'" for q e' using that s gw_okD(2) [OF ok] by (simp add: same_gws_def)
    show "\<not> gw_ipv4 e' \<and> \<not> gw_ipv6 e'" if "gateways g3 q = Some e'" "cleanup_timer e'" for q e'
      using that s gw_okD(3) [OF ok, of q e'] by (auto simp: same_gws_def)
  qed (use g2(6) g3(3,4,6) in auto)
  thus thesis using that [OF res s] r4 r6 g2(7,8) g3(7,8) by simp
qed

section \<open>The nearest gateway\<close>

definition tc_cost :: "'lq lsdb \<Rightarrow> olsr_ip_addr \<Rightarrow> olsr_linkcost option" where
  "tc_cost db a = (case olsr_lookup_tc_entry a db of None \<Rightarrow> None | Some q \<Rightarrow> map_option path_cost (tcs db q))"

text \<open>The costs of the entries that the handler considers for each family.\<close>

definition cost4 :: "gw_config \<Rightarrow> 'lq lsdb \<Rightarrow> gw_state \<Rightarrow> ptr \<Rightarrow> olsr_linkcost option" where
  "cost4 gc db g p = do {
     e \<leftarrow> gateways g p;
     if \<not> gw_def_finished_ipv4 g \<and> gw_ipv4 e \<and> gw_ipv4nat e = smart_gw_allow_nat gc then tc_cost db (gw_originator e) else None
   }"

definition cost6 :: "'lq lsdb \<Rightarrow> gw_state \<Rightarrow> ptr \<Rightarrow> olsr_linkcost option" where
  "cost6 db g p = do {
     e \<leftarrow> gateways g p;
     if \<not> gw_def_finished_ipv6 g \<and> gw_ipv6 e then tc_cost db (gw_originator e) else None
   }"

definition nearer :: "(ptr \<Rightarrow> olsr_linkcost option) \<Rightarrow> ptr \<Rightarrow> ptr option \<times> olsr_linkcost \<Rightarrow> ptr option \<times> olsr_linkcost" where
  "nearer K p b = (case K p of None \<Rightarrow> b | Some c \<Rightarrow> if c < snd b then (Some p, c) else b)"

lemma known_vertex:
  assumes "lsdb_ok db" "olsr_lookup_tc_entry a db = Some q"
  shows "\<exists>tc. tcs db q = Some tc"
  using indexes_find [OF lsdb_okD(1) [OF assms(1)]] assms(2) by (auto simp: olsr_lookup_tc_entry_def vertex_key_def)

lemma consider_nearer:
  assumes "lsdb_ok db" "gateways g p \<noteq> None"
  shows "consider_gateway gc db g p (b4, b6) = Some (nearer (cost4 gc db g) p b4, nearer (cost6 db g) p b6)"
proof -
  obtain e where e: "gateways g p = Some e" using assms(2) by blast
  show ?thesis
  proof (cases "olsr_lookup_tc_entry (gw_originator e) db")
    case None
    thus ?thesis using e by (simp add: consider_gateway_def nearer_def cost4_def cost6_def tc_cost_def)
  next
    case (Some q)
    then obtain tc where "tcs db q = Some tc" using known_vertex [OF assms(1)] by blast
    thus ?thesis using e Some by (simp add: consider_gateway_def nearer_def cost4_def cost6_def tc_cost_def)
  qed
qed

lemma consider_all:
  assumes "lsdb_ok db"
  shows "\<forall>p\<in>set ps. gateways g p \<noteq> None \<Longrightarrow>
    foldM (consider_gateway gc db g) ps (b4, b6) = Some (fold (nearer (cost4 gc db g)) ps b4, fold (nearer (cost6 db g)) ps b6)"
  by (induction ps arbitrary: b4 b6) (simp_all add: consider_nearer [OF assms])

lemma fold_nearer:
  "snd (fold (nearer K) ps b) \<le> snd b \<and> (\<forall>q\<in>set ps. \<forall>c. K q = Some c \<longrightarrow> snd (fold (nearer K) ps b) \<le> c) \<and>
   (fold (nearer K) ps b = b \<or> (\<exists>p\<in>set ps. fold (nearer K) ps b = (Some p, snd (fold (nearer K) ps b)) \<and> K p = Some (snd (fold (nearer K) ps b)) \<and>
      snd (fold (nearer K) ps b) < snd b))"
proof (induction ps arbitrary: b)
  case (Cons p ps)
  let ?b = "nearer K p b"
  have 1: "snd ?b \<le> snd b" "\<forall>c. K p = Some c \<longrightarrow> snd ?b \<le> c" "?b = b \<or> ?b = (Some p, snd ?b) \<and> K p = Some (snd ?b) \<and> snd ?b < snd b"
    by (auto simp: nearer_def split: option.split)
  show ?case using Cons.IH [of ?b] 1 by (auto intro: order_trans order_less_le_trans)
qed simp

text \<open>The best of all entries, or none if no entry is reachable.\<close>

definition nearest :: "(ptr \<Rightarrow> olsr_linkcost option) \<Rightarrow> ptr option \<Rightarrow> bool" where
  "nearest K i \<longleftrightarrow> (case i of
       None \<Rightarrow> \<forall>q c. K q = Some c \<longrightarrow> c = ROUTE_COST_BROKEN
     | Some p \<Rightarrow> \<exists>d. K p = Some d \<and> d < ROUTE_COST_BROKEN \<and> (\<forall>q c. K q = Some c \<longrightarrow> d \<le> c))"

lemma nearest_fold:
  assumes "\<forall>q. K q \<noteq> None \<longrightarrow> q \<in> set ps"
  shows "nearest K (fst (fold (nearer K) ps (None, ROUTE_COST_BROKEN)))"
proof -
  let ?b = "fold (nearer K) ps (None, ROUTE_COST_BROKEN)"
  note f = fold_nearer [of K ps "(None, ROUTE_COST_BROKEN)"]
  have le: "snd ?b \<le> c" if "K q = Some c" for q c using f assms that by blast
  have top: "c = ROUTE_COST_BROKEN" if "ROUTE_COST_BROKEN \<le> c" for c :: olsr_linkcost
  proof -
    have "ROUTE_COST_BROKEN = - 1" by (simp add: ROUTE_COST_BROKEN_def)
    thus ?thesis using that word_order.extremum [of c] by (simp only: antisym)
  qed
  from f have "?b = (None, ROUTE_COST_BROKEN) \<or> (\<exists>p\<in>set ps. ?b = (Some p, snd ?b) \<and> K p = Some (snd ?b) \<and> snd ?b < ROUTE_COST_BROKEN)" by simp
  thus ?thesis
  proof
    assume "?b = (None, ROUTE_COST_BROKEN)"
    thus ?thesis using le top by (auto simp: nearest_def)
  next
    assume "\<exists>p\<in>set ps. ?b = (Some p, snd ?b) \<and> K p = Some (snd ?b) \<and> snd ?b < ROUTE_COST_BROKEN"
    then obtain p where "?b = (Some p, snd ?b)" "K p = Some (snd ?b)" "snd ?b < ROUTE_COST_BROKEN" by blast
    hence "fst ?b = Some p" "K p = Some (snd ?b)" "snd ?b < ROUTE_COST_BROKEN" by (metis fst_conv)+
    thus ?thesis using le unfolding nearest_def by auto
  qed
qed

lemma set_chosen_ok:
  assumes "gw_ok g" "gateways g p = Some e" "ipv4 \<longrightarrow> legal_ipv4_gw gc e" "ipv6 \<longrightarrow> gw_ipv6 e"
  obtains g' where "set_chosen cnf gc p ipv4 ipv6 g = Some g'" "same_gws g g'" "gw_ok g'"
    "replaced g (ipv4 \<and> (\<not> ip_v6 cnf \<or> gw_use_niit gc)) p (current_ipv4_gw g) (current_ipv4_gw g')"
    "replaced g (ipv6 \<and> ip_v6 cnf) p (current_ipv6_gw g) (current_ipv6_gw g')"
  by (rule set_inet_gateway_ok [OF assms, of cnf False]) (rule that, auto simp: set_chosen_def assms(2))

text \<open>What the choice has to achieve for a family: its nearest gateway is in use.\<close>

definition settled :: "gw_state \<Rightarrow> bool \<Rightarrow> ptr option \<Rightarrow> ptr option \<Rightarrow> ptr option \<Rightarrow> bool" where
  "settled g family i c c' \<longleftrightarrow> (case i of None \<Rightarrow> c' = c | Some p \<Rightarrow> replaced g family p c c')"

lemma gw_ok_flags: "gw_ok g \<Longrightarrow> gw_ok (g\<lparr>gw_def_finished_ipv4 := a, gw_def_finished_ipv6 := b\<rparr>)" and gw_ok_timer: "gw_ok g \<Longrightarrow> gw_ok (g\<lparr>gw_def_timer := c\<rparr>)"
proof -
  have "gw_key (g\<lparr>gw_def_finished_ipv4 := a, gw_def_finished_ipv6 := b\<rparr>) = gw_key g" "gw_key (g\<lparr>gw_def_timer := c\<rparr>) = gw_key g"
    by (simp_all add: gw_key_def fun_eq_iff)
  thus "gw_ok g \<Longrightarrow> gw_ok (g\<lparr>gw_def_finished_ipv4 := a, gw_def_finished_ipv6 := b\<rparr>)" "gw_ok g \<Longrightarrow> gw_ok (g\<lparr>gw_def_timer := c\<rparr>)"
    by (simp_all add: gw_ok_def)
qed

lemma choose_gateway_ok:
  fixes db :: "'lq lsdb"
  assumes ok: "gw_ok g" and db: "lsdb_ok db"
  obtains g' i4 i6 where "gw_default_choose_gateway cnf gc db g = Some g'" "gw_ok g'" "same_gws g g'" "nearest (cost4 gc db g) i4" "nearest (cost6 db g) i6"
    "settled g (\<not> ip_v6 cnf \<or> gw_use_niit gc) i4 (current_ipv4_gw g) (current_ipv4_gw g')" "settled g (ip_v6 cnf) i6 (current_ipv6_gw g) (current_ipv6_gw g')"
proof -
  let ?ps = "map snd (avl_walk (gateway_tree g))" and ?K4 = "cost4 gc db g" and ?K6 = "cost6 db g" and ?z = "(None, ROUTE_COST_BROKEN)"
  have m: "p \<in> set ?ps \<longleftrightarrow> gateways g p \<noteq> None" for p using indexes_nodes [OF gw_okD(1) [OF ok], of p] by (simp add: gw_key_def)
  obtain i4 c4 i6 c6 where b: "fold (nearer ?K4) ?ps ?z = (i4, c4)" "fold (nearer ?K6) ?ps ?z = (i6, c6)" by fastforce
  have "p \<in> set ?ps" if "?K4 p \<noteq> None \<or> ?K6 p \<noteq> None" for p using that unfolding m by (auto simp: cost4_def cost6_def split: bind_splits)
  hence n: "nearest ?K4 i4" "nearest ?K6 i6" using nearest_fold [of ?K4 ?ps] nearest_fold [of ?K6 ?ps] unfolding b by auto
  have f: "foldM (consider_gateway gc db g) ?ps (?z, ?z) = Some ((i4, c4), (i6, c6))"
    using consider_all [OF db, of ?ps g gc ?z ?z] m unfolding b by blast
  have e4: "\<exists>e. gateways g p = Some e \<and> legal_ipv4_gw gc e" if "i4 = Some p" for p
    using n(1) that by (auto simp: nearest_def cost4_def legal_ipv4_gw_def split: bind_splits if_splits)
  have e6: "\<exists>e. gateways g p = Some e \<and> gw_ipv6 e" if "i6 = Some p" for p
    using n(2) that by (auto simp: nearest_def cost6_def split: bind_splits if_splits)
  define g1 where "g1 = g\<lparr>gw_def_finished_ipv4 := gw_def_finished_ipv4 g \<or> i4 \<noteq> None, gw_def_finished_ipv6 := gw_def_finished_ipv6 g \<or> i6 \<noteq> None\<rparr>"
  have ok1: "gw_ok g1" "gateways g1 = gateways g" "same_gws g g1" "current_ipv4_gw g1 = current_ipv4_gw g" "current_ipv6_gw g1 = current_ipv6_gw g"
    using ok by (simp_all add: g1_def gw_ok_flags same_gws_def)
  let ?dual = "i4 = i6"
  obtain g2 where g2: "(case i4 of None \<Rightarrow> Some g1 | Some p \<Rightarrow> set_chosen cnf gc p True ?dual g1) = Some g2" "same_gws g g2" "gw_ok g2"
    "settled g (\<not> ip_v6 cnf \<or> gw_use_niit gc) i4 (current_ipv4_gw g) (current_ipv4_gw g2)"
    "settled g (ip_v6 cnf) (if ?dual then i6 else None) (current_ipv6_gw g) (current_ipv6_gw g2)"
  proof (cases i4)
    case None
    thus thesis using that [of g1] ok1 by (auto simp: settled_def)
  next
    case (Some p)
    then obtain e where e: "gateways g1 p = Some e" "legal_ipv4_gw gc e" using e4 ok1(2) by auto
    have d: "?dual \<longrightarrow> gw_ipv6 e" using e6 [of p] Some e(1) ok1(2) by auto
    obtain g2 where g2: "set_chosen cnf gc p True ?dual g1 = Some g2" "same_gws g1 g2" "gw_ok g2"
      "replaced g1 (\<not> ip_v6 cnf \<or> gw_use_niit gc) p (current_ipv4_gw g1) (current_ipv4_gw g2)"
      "replaced g1 (?dual \<and> ip_v6 cnf) p (current_ipv6_gw g1) (current_ipv6_gw g2)"
      by (rule set_chosen_ok [OF ok1(1) e(1), of True gc ?dual cnf]) (use e(2) d in simp_all)
    have r: "replaced g1 = replaced g" using ok1(3) by (simp add: replaced_def same_gws_def fun_eq_iff)
    have "settled g (ip_v6 cnf) (if ?dual then i6 else None) (current_ipv6_gw g) (current_ipv6_gw g2)"
      using g2(5) Some unfolding r ok1(5) by (cases ?dual) (auto simp: settled_def replaced_def)
    thus thesis using that [of g2] g2 Some same_gws_trans [OF ok1(3) g2(2)] unfolding r ok1(4) by (simp add: settled_def)
  qed
  obtain g3 where g3: "(case i6 of None \<Rightarrow> Some g2 | Some p \<Rightarrow> if ?dual then Some g2 else set_chosen cnf gc p False True g2) = Some g3" "same_gws g g3" "gw_ok g3"
    "current_ipv4_gw g3 = current_ipv4_gw g2" "settled g (ip_v6 cnf) i6 (current_ipv6_gw g) (current_ipv6_gw g3)"
  proof (cases "i6 = None \<or> ?dual")
    case True
    hence i: "(if ?dual then i6 else None) = i6" by auto
    thus thesis using that [of g2] g2(2-5) True unfolding i by (cases i6) auto
  next
    case False
    then obtain p where p: "i6 = Some p" by (cases i6) simp_all
    have gs: "gateways g2 = gateways g" using g2(2) by (simp add: same_gws_def)
    obtain e where e: "gateways g2 p = Some e" "gw_ipv6 e" using e6 [OF p] gs by auto
    have c: "current_ipv6_gw g2 = current_ipv6_gw g" using g2(5) False by (simp add: settled_def)
    obtain g3 where g3: "set_chosen cnf gc p False True g2 = Some g3" "same_gws g2 g3" "gw_ok g3"
      "replaced g2 False p (current_ipv4_gw g2) (current_ipv4_gw g3)" "replaced g2 (ip_v6 cnf) p (current_ipv6_gw g2) (current_ipv6_gw g3)"
      by (rule set_chosen_ok [OF g2(3) e(1), of False gc True cnf]) (use e(2) in simp_all)
    have r: "replaced g2 = replaced g" using g2(2) by (simp add: replaced_def same_gws_def fun_eq_iff)
    have "current_ipv4_gw g3 = current_ipv4_gw g2" using g3(4) by (simp add: replaced_def)
    thus thesis using that [of g3] g3 p False same_gws_trans [OF g2(2) g3(2)] unfolding r c by (simp add: settled_def)
  qed
  let ?g4 = "if gw_def_finished_ipv4 g3 \<and> gw_def_finished_ipv6 g3 then g3\<lparr>gw_def_timer := False\<rparr> else g3"
  have "gw_default_choose_gateway cnf gc db g = Some ?g4"
    unfolding gw_default_choose_gateway_def f Option.bind.simps prod.case Let_def g1_def [symmetric] g2(1) g3(1) by (rule refl)
  moreover have "gw_ok ?g4" using g3(3) gw_ok_timer [of g3 False] by simp
  moreover have "same_gws g ?g4" using g3(2) by (simp add: same_gws_def)
  ultimately show thesis using that [of ?g4 i4 i6] n g2(4) g3(4,5) by simp
qed

section \<open>Safety of all operations\<close>

lemma gw_ok_cong:
  assumes "gw_ok g" "same_gws g g'" "current_ipv4_gw g' = current_ipv4_gw g" "current_ipv6_gw g' = current_ipv6_gw g" "v4gw_tunnel g' = v4gw_tunnel g" "v6gw_tunnel g' = v6gw_tunnel g"
  shows "gw_ok g'"
proof -
  have "gw_key g' = gw_key g" using assms(2) by (simp add: gw_key_def same_gws_def fun_eq_iff)
  thus ?thesis using assms by (simp add: gw_ok_def same_gws_def)
qed

text \<open>An operation returns, keeps the invariant and the entries.\<close>

definition gw_safe :: "gw_state \<Rightarrow> gw_state option \<Rightarrow> bool" where
  "gw_safe g r \<longleftrightarrow> (\<exists>g'. r = Some g' \<and> gw_ok g' \<and> same_gws g g')"

lemma gw_safeE: "gw_safe g r \<Longrightarrow> (\<And>g'. r = Some g' \<Longrightarrow> gw_ok g' \<Longrightarrow> same_gws g g' \<Longrightarrow> thesis) \<Longrightarrow> thesis"
  by (auto simp: gw_safe_def)

lemma choose_safe: "gw_ok g \<Longrightarrow> lsdb_ok db \<Longrightarrow> gw_safe g (gw_default_choose_gateway cnf gc db g)"
  by (rule choose_gateway_ok) (auto simp: gw_safe_def)

lemma choose_safe':
  assumes "gw_ok g" "lsdb_ok db" "same_gws g g'" "current_ipv4_gw g' = current_ipv4_gw g" "current_ipv6_gw g' = current_ipv6_gw g"
    "v4gw_tunnel g' = v4gw_tunnel g" "v6gw_tunnel g' = v6gw_tunnel g"
  shows "gw_safe g (gw_default_choose_gateway cnf gc db g')" "gw_safe g (Some g')"
proof -
  have ok: "gw_ok g'" using gw_ok_cong [OF assms(1,3-7)] .
  show "gw_safe g (gw_default_choose_gateway cnf gc db g')"
    using choose_safe [OF ok assms(2), of cnf gc] same_gws_trans [OF assms(3)] unfolding gw_safe_def by blast
  show "gw_safe g (Some g')" using ok assms(3) by (simp add: gw_safe_def)
qed

lemma lookup_safe: "gw_ok g \<Longrightarrow> lsdb_ok db \<Longrightarrow> gw_safe g (olsr_gw_default_lookup_gateway cnf gc db a b g)"
  unfolding olsr_gw_default_lookup_gateway_def Let_def
  by (simp split del: if_split) (rule if_split [THEN iffD2], auto intro!: choose_safe' simp: same_gws_def)

lemma timer_safe: "gw_ok g \<Longrightarrow> lsdb_ok db \<Longrightarrow> gw_safe g (gw_default_timer cnf gc db g)"
  unfolding gw_default_timer_def Let_def by (auto intro!: choose_safe' simp: same_gws_def)

lemma update_handler_safe: "gw_ok g \<Longrightarrow> lsdb_ok db \<Longrightarrow> gateways g p \<noteq> None \<Longrightarrow> gw_safe g (gw_default_update_handler cnf gc db p g)"
  using lookup_safe [of g db cnf gc] by (auto simp: gw_default_update_handler_def Let_def gw_safe_def)

lemma delete_handler_safe: "gw_ok g \<Longrightarrow> lsdb_ok db \<Longrightarrow> gw_safe g (gw_default_delete_handler cnf gc db p g)"
  using lookup_safe [of g db cnf gc] by (auto simp: gw_default_delete_handler_def Let_def gw_safe_def)

lemma startup_ok: "gw_ok g \<Longrightarrow> gw_ok (gw_default_startup_handler cnf gc db g) \<and> same_gws g (gw_default_startup_handler cnf gc db g)"
  by (auto intro!: gw_ok_cong [of g] simp: gw_default_startup_handler_def same_gws_def)

lemma selection_safe:
  assumes "gw_ok g" "lsdb_ok db"
  shows "gw_safe g (map_option snd (olsr_trigger_inetgw_selection cnf gc db a b g))"
proof -
  obtain g' where g': "olsr_gw_default_lookup_gateway cnf gc db a b g = Some g'" "gw_ok g'" "same_gws g g'"
    using lookup_safe [OF assms] by (rule gw_safeE)
  show ?thesis using g' startup_ok [OF g'(2), of cnf gc db] same_gws_trans [OF g'(3)]
    by (auto simp: olsr_trigger_inetgw_selection_def gw_default_choosegw_handler_def gw_safe_def)
qed

lemma loss_check_safe:
  assumes "gw_ok g" "lsdb_ok db"
  shows "gw_safe g (olsr_trigger_gatewayloss_check cnf gc db g)"
proof -
  have "\<exists>b. gateway_lost db c g = Some b" if "c \<noteq> None \<longrightarrow> usable g (the c)" for c
    using that known_vertex [OF assms(2)] by (cases c) (auto simp: gateway_lost_def usable_def split: option.split)
  then obtain a b where "gateway_lost db (current_ipv4_gw g) g = Some a" "gateway_lost db (current_ipv6_gw g) g = Some b"
    using gw_okD(4,6) [OF assms(1)] by fastforce
  thus ?thesis using selection_safe [OF assms, of cnf gc a b] assms(1) by (auto simp: olsr_trigger_gatewayloss_check_def gw_safe_def)
qed

lemma gw_ok_replace:
  assumes ok: "gw_ok g" and p: "gateways g p = Some e" "gw_originator e' = gw_originator e" and t: "cleanup_timer e' \<longrightarrow> \<not> gw_ipv4 e' \<and> \<not> gw_ipv6 e' \<and> current_ipv4_gw g \<noteq> Some p \<and> current_ipv6_gw g \<noteq> Some p"
  shows "gw_ok (g\<lparr>gateways := (gateways g)(p \<mapsto> e')\<rparr>)"
proof -
  let ?g = "g\<lparr>gateways := (gateways g)(p \<mapsto> e')\<rparr>"
  have k: "gw_key ?g = gw_key g" using p by (auto simp: gw_key_def fun_eq_iff)
  have u: "usable ?g q" if "usable g q" "q = p \<longrightarrow> \<not> cleanup_timer e'" for q using that by (auto simp: usable_def)
  show ?thesis
  proof (rule gw_okI, unfold k)
    show "usable ?g q" if "current_ipv4_gw ?g = Some q" for q using u [OF gw_okD(4) [OF ok]] that t by auto
    show "usable ?g q" if "current_ipv6_gw ?g = Some q" for q using u [OF gw_okD(6) [OF ok]] that t by auto
    show "q < gw_next ?g" if "gateways ?g q = Some x" for q x using that gw_okD(2) [OF ok] p(1) by (auto split: if_splits)
    show "\<not> gw_ipv4 x \<and> \<not> gw_ipv6 x" if "gateways ?g q = Some x" "cleanup_timer x" for q x
      using that t gw_okD(3) [OF ok, of q x] by (auto split: if_splits)
  qed (use gw_okD(1,5,7) [OF ok] in simp_all)
qed

lemma gw_ok_new:
  assumes ok: "gw_ok g" and a: "olsr_find_gateway_entry a g = None" and e: "gw_originator e = a" "\<not> cleanup_timer e"
  shows "\<exists>T. avl_insert (gateway_tree g) a (gw_next g) False = Some (T, 0) \<and>
    gw_ok (g\<lparr>gateway_tree := T, gw_next := Suc (gw_next g), gateways := (gateways g)(gw_next g \<mapsto> e)\<rparr>)"
proof -
  have n: "gateways g (gw_next g) = None" using gw_okD(2) [OF ok, of "gw_next g"] by (cases "gateways g (gw_next g)") auto
  have "\<forall>q. gw_key g q \<noteq> Some a" using a indexes_find_None [OF gw_okD(1) [OF ok]] by (simp add: olsr_find_gateway_entry_def)
  then obtain T where T: "avl_insert (gateway_tree g) a (gw_next g) False = Some (T, 0)" "indexes T ((gw_key g)(gw_next g \<mapsto> a))"
    using indexes_insert [OF gw_okD(1) [OF ok], of "gw_next g" a False] n by (auto simp: gw_key_def)
  let ?g = "g\<lparr>gateway_tree := T, gw_next := Suc (gw_next g), gateways := (gateways g)(gw_next g \<mapsto> e)\<rparr>"
  have k: "gw_key ?g = (gw_key g)(gw_next g \<mapsto> a)" using e(1) by (auto simp: gw_key_def fun_eq_iff)
  have u: "usable ?g q" if "usable g q" for q using that n by (auto simp: usable_def)
  have "gw_ok ?g"
  proof (rule gw_okI, unfold k)
    show "usable ?g q" if "current_ipv4_gw ?g = Some q" for q using u [OF gw_okD(4) [OF ok]] that by simp
    show "usable ?g q" if "current_ipv6_gw ?g = Some q" for q using u [OF gw_okD(6) [OF ok]] that by simp
    show "q < gw_next ?g" if "gateways ?g q = Some x" for q x using that gw_okD(2) [OF ok, of q] by (auto simp: less_Suc_eq split: if_splits)
    show "\<not> gw_ipv4 x \<and> \<not> gw_ipv6 x" if "gateways ?g q = Some x" "cleanup_timer x" for q x
      using that e(2) gw_okD(3) [OF ok, of q x] by (auto split: if_splits)
  qed (use gw_okD(5,7) [OF ok] T(2) in simp_all)
  with T(1) show ?thesis by blast
qed

lemma read_gateway_ok:
  assumes s: "olsr_is_smart_gateway cnf q netmask = Some True" and f: "family_ok cnf netmask"
  shows "\<exists>e'. read_gateway cnf netmask (unat (prefix_len q)) seqno e = Some e' \<and> gw_originator e' = gw_originator e \<and> \<not> cleanup_timer e'"
proof -
  have l: "length (ip_bytes netmask) = (if ip_v6 cnf then 16 else 4)" using f by (cases netmask) (auto simp: family_ok_def length_ip_bytes)
  have "is_prefix_inetgw cnf q" using s by (auto simp: olsr_is_smart_gateway_def split: if_splits)
  hence pl: "unat (prefix_len q) \<in> (if ip_v6 cnf then {3, 96} else {0})"
    by (auto simp: is_prefix_inetgw_def ip_prefix_is_v6_inetgw_def ip_prefix_is_mappedv4_inetgw_def ip_prefix_is_v4_inetgw_def
        ipv6_internet_route_def ipv6_mappedv4_route_def ipv4_internet_route_def split: if_splits)
  hence b: "\<forall>j<4. \<exists>x. byte_of (ip_bytes netmask) (mask_offset (unat (prefix_len q)) + j) = Some x"
    using l by (auto simp: byte_of_def mask_offset_def split: if_splits)
  have x: "\<exists>x. read_external cnf netmask (mask_offset (unat (prefix_len q))) flags = Some x" if "ip_v6 cnf" "unat (prefix_len q) = 3" for flags
    using that l by (auto simp: read_external_def byte_of_def get_bytes_def mask_offset_def gw_fields)
  have y: "unat (prefix_len ipv6_internet_route) = 3" by (simp add: ipv6_internet_route_def)
  obtain flags up down where "byte_of (ip_bytes netmask) (mask_offset (unat (prefix_len q)) + 1) = Some flags"
    "byte_of (ip_bytes netmask) (mask_offset (unat (prefix_len q)) + 2) = Some up" "byte_of (ip_bytes netmask) (mask_offset (unat (prefix_len q)) + 3) = Some down"
    using b by (metis one_less_numeral_iff semiring_norm(76,77) numeral_less_iff semiring_norm(79,81,78))
  thus ?thesis using x [of flags] y unfolding read_gateway_def gw_fields by (auto simp: Let_def)
qed

lemma update_entry_ok:
  assumes ok: "gw_ok g" and db: "lsdb_ok db" and m: "olsr_is_smart_gateway cnf q netmask = Some True" "family_ok cnf netmask"
  shows "\<exists>g'. olsr_update_gateway_entry cnf gc db a netmask (unat (prefix_len q)) seqno g = Some g' \<and> gw_ok g'"
proof (cases "olsr_find_gateway_entry a g")
  case None
  obtain e where e: "read_gateway cnf netmask (unat (prefix_len q)) seqno (new_gateway cnf a) = Some e" "gw_originator e = a" "\<not> cleanup_timer e"
    using read_gateway_ok [OF m, of seqno "new_gateway cnf a"] by (auto simp: new_gateway_def)
  obtain T where T: "avl_insert (gateway_tree g) a (gw_next g) False = Some (T, 0)"
    "gw_ok (g\<lparr>gateway_tree := T, gw_next := Suc (gw_next g), gateways := (gateways g)(gw_next g \<mapsto> e)\<rparr>)" using gw_ok_new [OF ok None e(2,3)] by blast
  let ?g = "g\<lparr>gateway_tree := T, gw_next := Suc (gw_next g), gateways := (gateways g)(gw_next g \<mapsto> e)\<rparr>"
  obtain g' where "gw_default_update_handler cnf gc db (gw_next g) ?g = Some g'" "gw_ok g'"
    using update_handler_safe [OF T(2) db, of "gw_next g" cnf gc] by (auto elim: gw_safeE)
  thus ?thesis using None T(1) e(1) by (simp add: olsr_update_gateway_entry_def)
next
  case (Some p)
  then obtain e where e: "gateways g p = Some e" using indexes_find [OF gw_okD(1) [OF ok]] by (auto simp: olsr_find_gateway_entry_def gw_key_def)
  show ?thesis
  proof (cases "olsr_seqno_diff seqno (gw_seqno e) \<le> 0")
    case True
    thus ?thesis using Some e ok by (simp add: olsr_update_gateway_entry_def)
  next
    case False
    obtain e' where e': "read_gateway cnf netmask (unat (prefix_len q)) seqno e = Some e'" "gw_originator e' = gw_originator e" "\<not> cleanup_timer e'"
      using read_gateway_ok [OF m] by blast
    have "gw_ok (g\<lparr>gateways := (gateways g)(p \<mapsto> e')\<rparr>)" using gw_ok_replace [OF ok e e'(2)] e'(3) by blast
    from update_handler_safe [OF this db, of p cnf gc] obtain g' where
      "gw_default_update_handler cnf gc db p (g\<lparr>gateways := (gateways g)(p \<mapsto> e')\<rparr>) = Some g'" "gw_ok g'" by (auto elim: gw_safeE)
    thus ?thesis using Some e e'(1) False by (simp add: olsr_update_gateway_entry_def)
  qed
qed

lemma cleanup_handler_ok:
  assumes ok: "gw_ok g" and p: "gateways g p = Some e" "cleanup_timer e"
  shows "\<exists>g'. cleanup_gateway_handler p g = Some g' \<and> gw_ok g' \<and> gateways g' = (gateways g)(p := None)"
proof -
  have f: "\<not> gw_ipv4 e" "\<not> gw_ipv6 e" using gw_okD(3) [OF ok p(1)] p(2) by blast+
  have c: "\<not> usable g p" using p by (simp add: usable_def)
  have "gw_key g p = Some (gw_originator e)" using p(1) by (simp add: gw_key_def)
  from indexes_delete [OF gw_okD(1) [OF ok] this] obtain T where T: "avl_delete (gateway_tree g) p = Some T" "indexes T ((gw_key g)(p := None))" by blast
  let ?g = "g\<lparr>gateway_tree := T, gateways := (gateways g)(p := None)\<rparr>"
  have k: "gw_key ?g = (gw_key g)(p := None)" by (auto simp: gw_key_def fun_eq_iff)
  have u: "usable ?g q" if "usable g q" for q using that c by (auto simp: usable_def)
  have "gw_ok ?g"
  proof (rule gw_okI, unfold k)
    show "usable ?g q" if "current_ipv4_gw ?g = Some q" for q using u [OF gw_okD(4) [OF ok]] that by simp
    show "usable ?g q" if "current_ipv6_gw ?g = Some q" for q using u [OF gw_okD(6) [OF ok]] that by simp
    show "q < gw_next ?g" if "gateways ?g q = Some x" for q x using that gw_okD(2) [OF ok, of q] by (simp split: if_splits)
    show "\<not> gw_ipv4 x \<and> \<not> gw_ipv6 x" if "gateways ?g q = Some x" "cleanup_timer x" for q x
      using that gw_okD(3) [OF ok, of q x] by (auto split: if_splits)
  qed (use gw_okD(5,7) [OF ok] T(2) in simp_all)
  thus ?thesis using p(1) f T(1) by (simp add: cleanup_gateway_handler_def)
qed

lemma drop_ok:
  assumes ok: "gw_ok g"
  obtains g' where "Option.bind (drop_v4 p g) (drop_v6 p) = Some g'" "gw_ok g'" "same_gws g g'" "current_ipv4_gw g' \<noteq> Some p" "current_ipv6_gw g' \<noteq> Some p"
proof -
  have *: "\<exists>g1. drop_v4 p g = Some g1 \<and> gw_ok g1 \<and> same_gws g g1 \<and> current_ipv4_gw g1 \<noteq> Some p"
  proof (cases "current_ipv4_gw g = Some p")
    case True
    then obtain i where i: "v4gw_tunnel g = Some i" using gw_okD(5) [OF ok] by auto
    let ?g = "(tunnel_do (Del_tunnel i) (tunnel_do (Tunnel_route i True False) g))\<lparr>current_ipv4_gw := None, v4gw_tunnel := None\<rparr>"
    have "gw_key ?g = gw_key g" by (simp add: gw_key_def tunnel_do_def fun_eq_iff)
    hence "gw_ok ?g" using ok by (simp add: gw_ok_def tunnel_do_def)
    thus ?thesis using True i by (simp add: drop_v4_def same_gws_def tunnel_do_def)
  qed (use ok in \<open>simp add: drop_v4_def\<close>)
  then obtain g1 where 1: "drop_v4 p g = Some g1" "gw_ok g1" "same_gws g g1" "current_ipv4_gw g1 \<noteq> Some p" by blast
  show thesis
  proof (cases "current_ipv6_gw g1 = Some p")
    case True
    then obtain i where i: "v6gw_tunnel g1 = Some i" using gw_okD(7) [OF 1(2)] by auto
    let ?g = "(tunnel_do (Del_tunnel i) (tunnel_do (Tunnel_route i False False) g1))\<lparr>current_ipv6_gw := None, v6gw_tunnel := None\<rparr>"
    have "gw_key ?g = gw_key g1" by (simp add: gw_key_def tunnel_do_def fun_eq_iff)
    hence "gw_ok ?g" using 1(2) by (simp add: gw_ok_def tunnel_do_def)
    thus thesis using that [of ?g] True i 1 by (simp add: drop_v6_def same_gws_def tunnel_do_def)
  qed (use that [of g1] 1 in \<open>simp add: drop_v6_def\<close>)
qed

lemma withdraw_route_facts: "gw_originator (snd (withdraw_route cnf l e)) = gw_originator e" "cleanup_timer (snd (withdraw_route cnf l e)) = cleanup_timer e"
  by (simp_all add: withdraw_route_def)

lemma delete_entry_ok:
  assumes ok: "gw_ok g" and db: "lsdb_ok db"
  shows "\<exists>g'. olsr_delete_gateway_entry cnf gc db a l g = Some g' \<and> gw_ok g'"
proof (cases "olsr_find_gateway_entry a g")
  case None
  thus ?thesis using ok by (simp add: olsr_delete_gateway_entry_def)
next
  case (Some p)
  then obtain e where e: "gateways g p = Some e" using indexes_find [OF gw_okD(1) [OF ok]] by (auto simp: olsr_find_gateway_entry_def gw_key_def)
  show ?thesis
  proof (cases "\<not> cleanup_timer e \<or> gw_ipv4 e \<or> gw_ipv6 e")
    case False
    thus ?thesis using Some e ok by (simp add: olsr_delete_gateway_entry_def)
  next
    case True
    hence t: "\<not> cleanup_timer e" using gw_okD(3) [OF ok e] by blast
    obtain change e1 where w: "withdraw_route cnf l e = (change, e1)" by fastforce
    have e1: "gw_originator e1 = gw_originator e" "\<not> cleanup_timer e1" using withdraw_route_facts [of cnf l e] t w by simp_all
    let ?g1 = "g\<lparr>gateways := (gateways g)(p \<mapsto> e1)\<rparr>" and ?e2 = "e1\<lparr>gw_ipv4 := False, gw_ipv4nat := False, gw_ipv6 := False\<rparr>"
    let ?g2 = "?g1\<lparr>gateways := (gateways ?g1)(p \<mapsto> ?e2)\<rparr>"
    have ok1: "gw_ok ?g1" using gw_ok_replace [OF ok e e1(1)] e1(2) by blast
    have ok2: "gw_ok ?g2" by (rule gw_ok_replace [OF ok1]) (use e1(2) in simp_all)
    have u2: "upd_gw p (\<lambda>e. e\<lparr>gw_ipv4 := False, gw_ipv4nat := False, gw_ipv6 := False\<rparr>) ?g1 = ?g2" by (simp add: upd_gw_def)
    show ?thesis
    proof (cases "l = FORCE_DELETE_GW_ENTRY \<or> \<not> (gw_ipv4 e1 \<or> gw_ipv6 e1)")
      case True
      obtain g3 where g3: "gw_default_delete_handler cnf gc db p ?g2 = Some g3" "gw_ok g3" "same_gws ?g2 g3"
        using delete_handler_safe [OF ok2 db] by (rule gw_safeE)
      obtain g4 where g4: "Option.bind (drop_v4 p g3) (drop_v6 p) = Some g4" "gw_ok g4" "same_gws g3 g4" "current_ipv4_gw g4 \<noteq> Some p" "current_ipv6_gw g4 \<noteq> Some p"
        by (rule drop_ok [OF g3(2)])
      have e4: "gateways g4 p = Some ?e2" using g3(3) g4(3) by (simp add: same_gws_def)
      have "gw_ok (g4\<lparr>gateways := (gateways g4)(p \<mapsto> ?e2\<lparr>cleanup_timer := True\<rparr>)\<rparr>)" by (rule gw_ok_replace [OF g4(2) e4]) (use g4(4,5) in simp_all)
      moreover have "olsr_delete_gateway_entry cnf gc db a l g = Some (upd_gw p (\<lambda>e. e\<lparr>cleanup_timer := True\<rparr>) g4)"
        using Some e t w True g3(1) g4(1) u2 by (auto simp: olsr_delete_gateway_entry_def split: bind_splits)
      ultimately show ?thesis using e4 by (simp add: upd_gw_def)
    next
      case False
      thus ?thesis using Some e t w ok1 update_handler_safe [OF ok1 db, of p cnf gc]
        by (auto simp: olsr_delete_gateway_entry_def gw_safe_def Let_def)
    qed
  qed
qed

section \<open>Every reachable state\<close>

text \<open>
  What happens to the gateways: an announcement arrives or times out, a timer fires, the routes
  have been computed anew, an interface changes. The database is that of the moment.
\<close>

datatype 'lq gw_event =
    Announced "'lq lsdb" olsr_ip_addr olsr_ip_prefix olsr_ip_addr u16
  | Withdrawn "'lq lsdb" olsr_ip_addr u8
  | Cleanup ptr
  | Gw_timer "'lq lsdb"
  | Startup "'lq lsdb"
  | Selection "'lq lsdb" bool bool
  | Loss_check "'lq lsdb"
  | If_change nat bool

fun gw_do :: "olsrd_config \<Rightarrow> gw_config \<Rightarrow> 'lq gw_event \<Rightarrow> gw_state \<Rightarrow> gw_state option" where
  "gw_do cnf gc (Announced db a q netmask seqno) g = do {
     smart \<leftarrow> olsr_is_smart_gateway cnf q netmask;
     if smart_gw_active gc \<and> smart then olsr_update_gateway_entry cnf gc db a netmask (unat (prefix_len q)) seqno g else Some g
   }"
| "gw_do cnf gc (Withdrawn db a l) g = olsr_delete_gateway_entry cnf gc db a l g"
| "gw_do cnf gc (Cleanup p) g = cleanup_gateway_handler p g"
| "gw_do cnf gc (Gw_timer db) g = gw_default_timer cnf gc db g"
| "gw_do cnf gc (Startup db) g = Some (gw_default_startup_handler cnf gc db g)"
| "gw_do cnf gc (Selection db a b) g = map_option snd (olsr_trigger_inetgw_selection cnf gc db a b g)"
| "gw_do cnf gc (Loss_check db) g = olsr_trigger_gatewayloss_check cnf gc db g"
| "gw_do cnf gc (If_change i up) g = smartgw_tunnel_monitor cnf i up g"

text \<open>When it can happen: databases are consistent, netmasks of the family in use, timers running.\<close>

fun gw_enabled :: "olsrd_config \<Rightarrow> 'lq gw_event \<Rightarrow> gw_state \<Rightarrow> bool" where
  "gw_enabled cnf (Announced db a q netmask seqno) g \<longleftrightarrow> lsdb_ok db \<and> family_ok cnf netmask"
| "gw_enabled cnf (Withdrawn db a l) g \<longleftrightarrow> lsdb_ok db"
| "gw_enabled cnf (Cleanup p) g \<longleftrightarrow> (\<exists>e. gateways g p = Some e \<and> cleanup_timer e)"
| "gw_enabled cnf (Gw_timer db) g \<longleftrightarrow> lsdb_ok db \<and> gw_def_timer g"
| "gw_enabled cnf (Startup db) g \<longleftrightarrow> lsdb_ok db"
| "gw_enabled cnf (Selection db a b) g \<longleftrightarrow> lsdb_ok db"
| "gw_enabled cnf (Loss_check db) g \<longleftrightarrow> lsdb_ok db"
| "gw_enabled cnf (If_change i up) g \<longleftrightarrow> True"

inductive gw_run :: "olsrd_config \<Rightarrow> gw_config \<Rightarrow> gw_state \<Rightarrow> bool" for cnf :: olsrd_config and gc :: gw_config where
  started: "gateways g0 = Map.empty \<Longrightarrow> olsr_init_gateways cnf gc err g0 = Some (r, g) \<Longrightarrow> gw_run cnf gc g"
| event: "gw_run cnf gc g \<Longrightarrow> gw_enabled cnf (ev :: default_lq_hybrid_plc gw_event) g \<Longrightarrow> gw_do cnf gc ev g = Some g' \<Longrightarrow> gw_run cnf gc g'"

lemma set_byte_Some: "i < length bs \<Longrightarrow> set_byte i f bs = Some (bs[i := f (bs ! i)])"
  by (simp add: set_byte_def)

lemma gw_refresh_ok: "\<exists>m. refresh_smartgw_netmask cnf gc g = Some (g\<lparr>smart_gateway_netmask := m\<rparr>) \<and> length m = 16"
  by (auto simp: refresh_smartgw_netmask_def gw_fields set_byte_Some put_bytes_def Let_def)

lemma init_gateways_ok:
  assumes "gateways g0 = Map.empty"
  shows "\<exists>r g. olsr_init_gateways cnf gc err g0 = Some (r, g) \<and> gw_ok g"
proof -
  let ?g = "g0\<lparr>gateway_tree := avl_init, current_ipv4_gw := None, current_ipv6_gw := None, v4gw_tunnel := None, v6gw_tunnel := None\<rparr>"
  obtain m where m: "refresh_smartgw_netmask cnf gc ?g = Some (?g\<lparr>smart_gateway_netmask := m\<rparr>)" using gw_refresh_ok by blast
  have "gw_key ?g = (\<lambda>n. None)" using assms by (simp add: gw_key_def fun_eq_iff)
  hence "gw_ok ?g" using assms indexes_init by (simp add: gw_ok_def)
  hence "gw_ok (?g\<lparr>smart_gateway_netmask := m\<rparr>)" "gw_ok (olsr_gw_default_init (?g\<lparr>smart_gateway_netmask := m\<rparr>))"
    by (rule gw_ok_cong; simp add: same_gws_def olsr_gw_default_init_def)+
  thus ?thesis using m by (simp add: olsr_init_gateways_def)
qed

lemma monitor_ok:
  assumes ok: "gw_ok g"
  shows "\<exists>g'. smartgw_tunnel_monitor cnf i up g = Some g' \<and> gw_ok g'"
proof -
  have t: "gw_ok (tunnel_do c g)" if "gw_ok g" for c g using that by (rule gw_ok_cong) (simp_all add: same_gws_def tunnel_do_def)
  let ?m = "\<lambda>b g. if up then tunnel_do (Tunnel_ip i (main_addr cnf) True) (tunnel_do (Tunnel_route i b True) g) else g"
  have m: "gw_ok (?m b g)" if "gw_ok g" for b g using that t by simp
  have "\<exists>g'. (if current_ipv4_gw g \<noteq> None then map_option (\<lambda>j. if i = j \<and> up then
      tunnel_do (Tunnel_ip j (main_addr cnf) True) (tunnel_do (Tunnel_route j True True) g) else g) (v4gw_tunnel g) else Some g) = Some g' \<and> gw_ok g'"
    using gw_okD(5) [OF ok] m [OF ok, of True] ok by (cases "current_ipv4_gw g"; cases "v4gw_tunnel g") auto
  then obtain g1 where 1: "(if current_ipv4_gw g \<noteq> None then map_option (\<lambda>j. if i = j \<and> up then
      tunnel_do (Tunnel_ip j (main_addr cnf) True) (tunnel_do (Tunnel_route j True True) g) else g) (v4gw_tunnel g) else Some g) = Some g1" "gw_ok g1" by blast
  have "\<exists>g'. (if current_ipv6_gw g1 \<noteq> None then map_option (\<lambda>j. if i = j \<and> up then
      tunnel_do (Tunnel_ip j (main_addr cnf) True) (tunnel_do (Tunnel_route j False True) g1) else g1) (v6gw_tunnel g1) else Some g1) = Some g' \<and> gw_ok g'"
    using gw_okD(7) [OF 1(2)] m [OF 1(2), of False] 1(2) by (cases "current_ipv6_gw g1"; cases "v6gw_tunnel g1") auto
  thus ?thesis unfolding smartgw_tunnel_monitor_def 1(1) Option.bind.simps .
qed

lemma event_gw_ok:
  assumes "gw_ok g" "gw_enabled cnf ev g"
  shows "\<exists>g'. gw_do cnf gc ev g = Some g' \<and> gw_ok g'"
proof (cases ev)
  case (Announced db a q netmask seqno)
  have "family_ok cnf netmask" "lsdb_ok db" using assms(2) Announced by simp_all
  moreover have "olsr_is_smart_gateway cnf q netmask \<noteq> None"
  proof -
    have "length (ip_bytes netmask) = (if ip_v6 cnf then 16 else 4)"
      using \<open>family_ok cnf netmask\<close> by (cases netmask) (auto simp: family_ok_def length_ip_bytes)
    thus ?thesis by (auto simp: olsr_is_smart_gateway_def byte_of_def mask_offset_def gw_fields is_prefix_inetgw_def ip_prefix_is_v6_inetgw_def
        ip_prefix_is_mappedv4_inetgw_def ip_prefix_is_v4_inetgw_def ipv6_internet_route_def ipv6_mappedv4_route_def ipv4_internet_route_def split: if_splits)
  qed
  ultimately show ?thesis using Announced assms(1) update_entry_ok [OF assms(1), of db cnf q netmask gc a seqno] by auto
next
  case (Withdrawn db a l)
  thus ?thesis using delete_entry_ok [OF assms(1)] assms(2) by simp
next
  case (Cleanup p)
  thus ?thesis using cleanup_handler_ok [OF assms(1)] assms(2) by fastforce
next
  case (Gw_timer db)
  thus ?thesis using timer_safe [OF assms(1), of db cnf gc] assms(2) by (auto simp: gw_safe_def)
next
  case (Startup db)
  thus ?thesis using startup_ok [OF assms(1), of cnf gc db] by simp
next
  case (Selection db a b)
  thus ?thesis using selection_safe [OF assms(1), of db cnf gc a b] assms(2) by (auto simp: gw_safe_def)
next
  case (Loss_check db)
  thus ?thesis using loss_check_safe [OF assms(1), of db cnf gc] assms(2) by (auto simp: gw_safe_def)
next
  case (If_change i up)
  thus ?thesis using monitor_ok [OF assms(1)] by simp
qed

lemma gw_run_ok: "gw_run cnf gc g \<Longrightarrow> gw_ok g"
proof (induction rule: gw_run.induct)
  case (started g0 err r g)
  thus ?case using init_gateways_ok [OF started(1), of cnf gc err] by auto
next
  case (event g ev g')
  thus ?case using event_gw_ok [of g cnf ev gc] by auto
qed

text \<open>
  C11. The gateway machinery never follows a stale pointer. Whatever announcements, timeouts, timers
  and changes of routes and interfaces a daemon has seen, the next one is handled: no freed entry
  and no missing tunnel is dereferenced, no netmask is read behind its end, and a gateway in use is
  an entry of the set that has a tunnel and is not about to be removed.
\<close>

theorem gateways_never_dangle:
  assumes "gw_run cnf gc g" "gw_enabled cnf (ev :: default_lq_hybrid_plc gw_event) g"
  shows "\<exists>g'. gw_do cnf gc ev g = Some g' \<and> gw_run cnf gc g' \<and>
    (\<forall>p. current_ipv4_gw g' = Some p \<longrightarrow> (\<exists>e. gateways g' p = Some e \<and> \<not> cleanup_timer e) \<and> v4gw_tunnel g' \<noteq> None) \<and>
    (\<forall>p. current_ipv6_gw g' = Some p \<longrightarrow> (\<exists>e. gateways g' p = Some e \<and> \<not> cleanup_timer e) \<and> v6gw_tunnel g' \<noteq> None)"
proof -
  obtain g' where "gw_do cnf gc ev g = Some g'" "gw_ok g'" using event_gw_ok [OF gw_run_ok [OF assms(1)] assms(2)] by blast
  thus ?thesis using gw_run.event [OF assms] unfolding gw_ok_def by blast
qed


definition demo_gw_config :: gw_config where
  "demo_gw_config = \<lparr>smart_gw_active = True, smart_gw_allow_nat = True, smart_gw_uplink_nat = True, smart_gw_uplink = 1000, smart_gw_downlink = 16000,
     smart_gw_prefix = \<lparr>prefix = V4 0, prefix_len = 0\<rparr>, has_ipv4_gateway = True, has_ipv6_gateway = False, gw_use_niit = False\<rparr>"

definition demo_gw_state :: gw_state where
  "demo_gw_state = \<lparr>gateway_tree = avl_init, gateways = Map.empty, gw_next = 0, smart_gateway_netmask = replicate 16 0,
     current_ipv4_gw = None, current_ipv6_gw = None, v4gw_tunnel = None, v6gw_tunnel = None, v4gw_choosen_external = False, v6gw_choosen_external = False,
     gw_def_nodecount = 0, gw_def_stablecount = 0, gw_def_finished_ipv4 = False, gw_def_finished_ipv6 = False, gw_def_timer = False,
     tunnel_calls = [], tunnel_result = Some\<rparr>"

lemma demo_gw_ok: "gw_ok demo_gw_state"
proof -
  have "gw_key demo_gw_state = (\<lambda>n. None)" by (simp add: gw_key_def demo_gw_state_def fun_eq_iff)
  thus ?thesis using indexes_init by (simp add: gw_ok_def demo_gw_state_def)
qed

theorem gateways_never_dangle_witness:
  "\<exists>g g'. gw_run demo_cnf demo_gw_config g \<and> gw_run demo_cnf demo_gw_config g' \<and>
     gw_do demo_cnf demo_gw_config (Announced (empty_lsdb :: default_lq_hybrid_plc lsdb) (V4 1) ipv4_internet_route (V4 0x200) 7) g = Some g'"
proof -
  have "gateways demo_gw_state = Map.empty" by (simp add: demo_gw_state_def)
  then obtain g where g: "gw_run demo_cnf demo_gw_config g"
    using init_gateways_ok [of demo_gw_state demo_cnf demo_gw_config False] gw_run.started by blast
  have "gw_enabled demo_cnf (Announced (empty_lsdb :: default_lq_hybrid_plc lsdb) (V4 1) ipv4_internet_route (V4 0x200) 7) g"
    using empty_lsdb_ok(1) by (simp add: family_ok_def demo_cnf_def)
  from gateways_never_dangle [OF g this] g show ?thesis by blast
qed


section \<open>Announcements are understood\<close>

lemma bytes_v4: "ip_bytes (V4 (v4_of_bytes [a, b, c, d])) = [a, b, c, d]"
proof -
  have l: "length (ip_bytes (V4 (v4_of_bytes [a, b, c, d]))) = 4" by (simp add: length_ip_bytes)
  have "ip_bytes (V4 (v4_of_bytes [a, b, c, d])) ! i = [a, b, c, d] ! i" if "i < 4" for i
  proof (rule bit_word_eq, intro allI impI)
    fix n :: nat assume n: "n < LENGTH(8)"
    have o: "\<not> bit x (8 + n)" "\<not> bit x (16 + n)" "\<not> bit x (24 + n)" for x :: u8 by (auto dest: bit_imp_le_length)
    have "i \<in> {0, 1, 2, 3}" using that by auto
    thus "bit (ip_bytes (V4 (v4_of_bytes [a, b, c, d])) ! i) n = bit ([a, b, c, d] ! i) n"
      using n by (auto simp: v4_of_bytes_def upt_rec bit_simps o)
  qed
  thus ?thesis using l by (intro nth_equalityI) simp_all
qed


text \<open>
  C32. On IPv6 the announcement of the default route writes behind the netmask: for the prefix
  2000::/3 the copy starts one octet into the address but has its full length.
\<close>

theorem inetgw_netmask_overflow:
  assumes "length m0 = 16" "refresh_smartgw_netmask cnf gc g0 = Some g"
  shows "olsr_modifiy_inetgw_netmask gc 3 g m0 = None \<and> olsr_modifiy_inetgw_netmask gc 96 g m0 \<noteq> None"
proof -
  have l: "length (smart_gateway_netmask g) = 16" using gw_refresh_ok [of cnf gc g0] assms(2) by auto
  show ?thesis using assms(1) l by (auto simp: olsr_modifiy_inetgw_netmask_def mask_offset_def put_bytes_def set_byte_def gw_fields)
qed


theorem inetgw_netmask_overflow_witness:
  "\<exists>g. refresh_smartgw_netmask demo_cnf demo_gw_config demo_gw_state = Some g \<and> olsr_modifiy_inetgw_netmask demo_gw_config 3 g (replicate 16 0) = None"
proof -
  obtain g where g: "refresh_smartgw_netmask demo_cnf demo_gw_config demo_gw_state = Some g" using gw_refresh_ok by blast
  from inetgw_netmask_overflow [OF _ g, of "replicate 16 0"] g show ?thesis by simp
qed

section \<open>Further defects\<close>

text \<open>
  The prefix an IPv6 gateway delegates is never learned: the test that is to recognise the
  default route compares the netmask instead of the prefix.
\<close>

theorem external_prefix_lost:
  assumes "ip_v6 cnf" "read_gateway cnf netmask 3 seqno e = Some e'"
  shows "external_prefix e' = zero_prefix cnf"
proof -
  have y: "unat (prefix_len ipv6_internet_route) = 3" by (simp add: ipv6_internet_route_def)
  obtain flags where f: "byte_of (ip_bytes netmask) (Suc (Suc 0)) = Some flags"
    using assms(2) by (cases "byte_of (ip_bytes netmask) (Suc (Suc 0))") (simp_all add: read_gateway_def mask_offset_def gw_fields)
  have "netmask \<noteq> prefix ipv6_internet_route" if "flags AND 16 \<noteq> 0"
  proof
    assume n: "netmask = prefix ipv6_internet_route"
    have "ip_bytes (prefix ipv6_internet_route) ! 2 = 0" by (simp add: ipv6_internet_route_def v6_of_bytes_def)
    hence "flags = 0" using f n by (simp add: byte_of_def numeral_2_eq_2 split: if_splits)
    thus False using that by simp
  qed
  hence "read_external cnf netmask 1 flags = Some (zero_prefix cnf)" by (auto simp: read_external_def gw_flags)
  thus ?thesis using assms y f by (auto simp: read_gateway_def mask_offset_def gw_fields Let_def split: bind_splits if_splits)
qed

text \<open>
  With address translation allowed the default handler takes translating gateways only, although
  the others are legal as well.
\<close>

theorem plain_gateway_ignored:
  fixes db :: "'lq lsdb"
  assumes "gw_ok g" "lsdb_ok db" "smart_gw_allow_nat gc" "\<forall>p e. gateways g p = Some e \<longrightarrow> \<not> gw_ipv4nat e"
  shows "\<exists>g'. gw_default_choose_gateway cnf gc db g = Some g' \<and> current_ipv4_gw g' = current_ipv4_gw g"
proof -
  obtain g' i4 i6 where 1: "gw_default_choose_gateway cnf gc db g = Some g'" "nearest (cost4 gc db g) i4"
    "settled g (\<not> ip_v6 cnf \<or> gw_use_niit gc) i4 (current_ipv4_gw g) (current_ipv4_gw g')"
    by (rule choose_gateway_ok [OF assms(1,2), of cnf gc])
  have "cost4 gc db g p = None" for p using assms(3,4) by (cases "gateways g p") (auto simp: cost4_def)
  hence "i4 = None" using 1(2) by (cases i4) (auto simp: nearest_def)
  thus ?thesis using 1(1,3) by (simp add: settled_def)
qed

text \<open>Setting a gateway that is not known, while another one is in use, takes the address of a field of a null pointer.\<close>

theorem unknown_gateway_set:
  assumes "current_ipv4_gw g = Some p" "\<not> ip_v6 cnf" "olsr_find_gateway_entry a g = None"
  shows "olsr_set_inet_gateway cnf gc a True ipv6 external g = None"
  using assms by (simp add: olsr_set_inet_gateway_def enter_gateway_def olsr_find_gateway_entry_def switch_v4_def)

end
