(* ===== verification/Olsr_Hna_Set.thy ===== *)
theory Olsr_Hna_Set
  imports Olsr_Gateway Olsr_Buckets
begin

text \<open>
  Networks behind other nodes (\<^verbatim>\<open>src/hna_set.c\<close>): for every gateway the prefixes it announces in HNA
  messages, each with a timer. The set feeds the routing table and the internet gateways, so its
  operations work on all three; entries and networks are objects of stores, in hash buckets and
  in the lists of their gateways.
\<close>

section \<open>Data\<close>

record hna_net =
  hna_prefix :: olsr_ip_prefix
  hna_net_timer :: "olsr_reltime option"
  hna_gw :: ptr

record hna_entry =
  A_gateway_addr :: olsr_ip_addr
  networks :: "ptr list"

text \<open>The tables, with the components they work on and the collisions reported.\<close>

record 'lq hna_world =
  hna_set :: "nat \<Rightarrow> ptr list"
  hna_entries :: "ptr \<rightharpoonup> hna_entry"
  hna_nets :: "ptr \<rightharpoonup> hna_net"
  hna_next :: nat
  hna_db :: "'lq lsdb"
  hna_gws :: gw_state
  hna_collisions :: "(olsr_ip_addr \<times> olsr_ip_addr) list"

text \<open>The addresses of the interfaces and the prefixes the node announces itself.\<close>

record hna_config =
  if_addrs :: "olsr_ip_addr list"
  own_hna :: "olsr_ip_prefix list"

definition HNA_MESSAGE :: u8 where "HNA_MESSAGE = 4"
definition OLSR_RT_ORIGIN_HNA :: u8 where "OLSR_RT_ORIGIN_HNA = 3"

definition upd_hna :: "ptr \<Rightarrow> (hna_entry \<Rightarrow> hna_entry) \<Rightarrow> 'lq hna_world \<Rightarrow> 'lq hna_world" where
  "upd_hna p f w = w\<lparr>hna_entries := (hna_entries w)(p := map_option f (hna_entries w p))\<rparr>"

section \<open>Operations\<close>

definition olsr_init_hna_set :: "'lq hna_world \<Rightarrow> 'lq hna_world" where
  "olsr_init_hna_set w = w\<lparr>hna_set := (\<lambda>_. [])\<rparr>"

definition olsr_lookup_hna_net :: "ptr list \<Rightarrow> olsr_ip_addr \<Rightarrow> u8 \<Rightarrow> 'lq hna_world \<Rightarrow> ptr option option" where
  "olsr_lookup_hna_net nets net prefixlen w =
     findM (\<lambda>n. map_option (\<lambda>x. prefix_len (hna_prefix x) = prefixlen \<and> ipequal (prefix (hna_prefix x)) net) (hna_nets w n)) nets"

definition olsr_lookup_hna_gw :: "olsr_ip_addr \<Rightarrow> 'lq hna_world \<Rightarrow> ptr option option" where
  "olsr_lookup_hna_gw gw w = findM (\<lambda>p. map_option (\<lambda>e. ipequal (A_gateway_addr e) gw) (hna_entries w p)) (hna_set w (ip_hash gw))"

definition olsr_add_hna_entry :: "olsr_ip_addr \<Rightarrow> 'lq hna_world \<Rightarrow> ptr \<times> 'lq hna_world" where
  "olsr_add_hna_entry a w = (let p = hna_next w in
     (p, w\<lparr>hna_set := queue_elem (ip_hash a) p (hna_set w), hna_entries := (hna_entries w)(p \<mapsto> \<lparr>A_gateway_addr = a, networks = []\<rparr>), hna_next := Suc p\<rparr>))"

definition olsr_add_hna_net :: "ptr \<Rightarrow> olsr_ip_addr \<Rightarrow> u8 \<Rightarrow> 'lq hna_world \<Rightarrow> (ptr \<times> 'lq hna_world) option" where
  "olsr_add_hna_net p net prefixlen w = do {
     e \<leftarrow> hna_entries w p;
     let n = hna_next w;
     Some (n, w\<lparr>hna_entries := (hna_entries w)(p \<mapsto> e\<lparr>networks := n # networks e\<rparr>),
       hna_nets := (hna_nets w)(n \<mapsto> \<lparr>hna_prefix = \<lparr>prefix = net, prefix_len = prefixlen\<rparr>, hna_net_timer = None, hna_gw = p\<rparr>),
       hna_next := Suc n\<rparr>)
   }"

definition olsr_delete_hna_net_entry :: "olsrd_config \<Rightarrow> gw_config \<Rightarrow> ptr \<Rightarrow> 'lq hna_world \<Rightarrow> (bool \<times> 'lq hna_world) option" where
  "olsr_delete_hna_net_entry cnf gc n w = do {
     net \<leftarrow> hna_nets w n;
     e \<leftarrow> hna_entries w (hna_gw net);
     gws \<leftarrow> (if is_prefix_inetgw cnf (hna_prefix net)
              then olsr_delete_gateway_entry cnf gc (hna_db w) (A_gateway_addr e) (prefix_len (hna_prefix net)) (hna_gws w) else Some (hna_gws w));
     db \<leftarrow> olsr_delete_routing_table cnf (prefix (hna_prefix net)) (prefix_len (hna_prefix net)) (A_gateway_addr e) (hna_db w);
     let w = w\<lparr>hna_gws := gws, hna_db := db\<rparr>;
     let e = e\<lparr>networks := filter (\<lambda>m. m \<noteq> n) (networks e)\<rparr>;
     let w = w\<lparr>hna_nets := (hna_nets w)(n := None)\<rparr>;
     Some (if networks e = []
       then (True, w\<lparr>hna_set := dequeue_elem (hna_gw net) (hna_set w), hna_entries := (hna_entries w)(hna_gw net := None)\<rparr>)
       else (False, w\<lparr>hna_entries := (hna_entries w)(hna_gw net \<mapsto> e)\<rparr>))
   }"

definition olsr_expire_hna_net_entry :: "olsrd_config \<Rightarrow> gw_config \<Rightarrow> ptr \<Rightarrow> 'lq hna_world \<Rightarrow> 'lq hna_world option" where
  "olsr_expire_hna_net_entry cnf gc n w = map_option snd (olsr_delete_hna_net_entry cnf gc n w)"

text \<open>
  \<open>olsr_cleanup_hna\<close> deletes the first network of the gateway until the gateway is gone; as many
  turns as there are networks.
\<close>

fun cleanup_loop :: "olsrd_config \<Rightarrow> gw_config \<Rightarrow> nat \<Rightarrow> ptr \<Rightarrow> 'lq hna_world \<Rightarrow> 'lq hna_world option" where
  "cleanup_loop cnf gc 0 p w = None"
| "cleanup_loop cnf gc (Suc k) p w = do {
     e \<leftarrow> hna_entries w p;
     case networks e of
       [] \<Rightarrow> None
     | n # _ \<Rightarrow> do {
         (removed, w) \<leftarrow> olsr_delete_hna_net_entry cnf gc n w;
         if removed then Some w else cleanup_loop cnf gc k p w
       }
   }"

definition cleanup_entry :: "olsrd_config \<Rightarrow> gw_config \<Rightarrow> olsr_ip_addr \<Rightarrow> ptr \<Rightarrow> 'lq hna_world \<Rightarrow> 'lq hna_world option" where
  "cleanup_entry cnf gc orig p w = do {
     e \<leftarrow> hna_entries w p;
     if networks e \<noteq> [] \<and> ipequal (A_gateway_addr e) orig then cleanup_loop cnf gc (length (networks e)) p w else Some w
   }"

definition olsr_cleanup_hna :: "olsrd_config \<Rightarrow> gw_config \<Rightarrow> olsr_ip_addr \<Rightarrow> 'lq hna_world \<Rightarrow> 'lq hna_world option" where
  "olsr_cleanup_hna cnf gc orig w = foldM (\<lambda>h w. foldM (cleanup_entry cnf gc orig) (hna_set w h) w) [0..<HASHSIZE] w"

text \<open>A time of zero stops the timer.\<close>

definition set_net_timer :: "ptr \<Rightarrow> olsr_reltime \<Rightarrow> 'lq hna_world \<Rightarrow> 'lq hna_world" where
  "set_net_timer n vtime w = w\<lparr>hna_nets := (hna_nets w)(n := map_option (\<lambda>x. x\<lparr>hna_net_timer := (if vtime = 0 then None else Some vtime)\<rparr>) (hna_nets w n))\<rparr>"

definition olsr_update_hna_entry :: "olsrd_config \<Rightarrow> olsr_ip_addr \<Rightarrow> olsr_ip_addr \<Rightarrow> u8 \<Rightarrow> olsr_reltime \<Rightarrow> 'lq hna_world \<Rightarrow> 'lq hna_world option" where
  "olsr_update_hna_entry cnf gw net prefixlen vtime w = do {
     found \<leftarrow> olsr_lookup_hna_gw gw w;
     let (p, w) = (case found of Some p \<Rightarrow> (p, w) | None \<Rightarrow> olsr_add_hna_entry gw w);
     e \<leftarrow> hna_entries w p;
     known \<leftarrow> olsr_lookup_hna_net (networks e) net prefixlen w;
     (n, w) \<leftarrow> (case known of
         Some n \<Rightarrow> Some (n, w)
       | None \<Rightarrow> map_option (\<lambda>(n, w). (n, w\<lparr>hna_db := (hna_db w)\<lparr>changes_hna := True\<rparr>\<rparr>)) (olsr_add_hna_net p net prefixlen w));
     x \<leftarrow> hna_nets w n;
     e \<leftarrow> hna_entries w p;
     (_, db) \<leftarrow> olsr_insert_routing_table cnf (prefix (hna_prefix x)) (prefix_len (hna_prefix x)) (A_gateway_addr e) OLSR_RT_ORIGIN_HNA (hna_db w);
     Some (set_net_timer n vtime (w\<lparr>hna_db := db\<rparr>))
   }"

section \<open>Messages\<close>

definition ip_prefix_list_find :: "olsr_ip_prefix list \<Rightarrow> olsr_ip_addr \<Rightarrow> u8 \<Rightarrow> olsr_ip_prefix option" where
  "ip_prefix_list_find l net len = List.find (\<lambda>h. len = prefix_len h \<and> ipequal net (prefix h)) l"

definition olsr_handle_hna_collision :: "olsr_ip_addr \<Rightarrow> olsr_ip_addr \<Rightarrow> 'lq hna_world \<Rightarrow> 'lq hna_world" where
  "olsr_handle_hna_collision hna orig w = w\<lparr>hna_collisions := hna_collisions w @ [(hna, orig)]\<rparr>"

text \<open>One prefix of a message.\<close>

definition input_net ::
  "olsrd_config \<Rightarrow> gw_config \<Rightarrow> hna_config \<Rightarrow> olsr_ip_addr \<Rightarrow> olsr_reltime \<Rightarrow> u16 \<Rightarrow> olsr_ip_addr \<Rightarrow> olsr_ip_addr \<Rightarrow> 'lq hna_world \<Rightarrow> 'lq hna_world option" where
  "input_net cnf gc hc originator vtime seqno net netmask w = do {
     let q = \<lparr>prefix = net, prefix_len = olsr_netmask_to_prefix netmask\<rparr>;
     smart \<leftarrow> (if smart_gw_active gc then olsr_is_smart_gateway cnf q netmask else Some False);
     gws \<leftarrow> (if smart then olsr_update_gateway_entry cnf gc (hna_db w) originator netmask (unat (prefix_len q)) seqno (hna_gws w) else Some (hna_gws w));
     let w = w\<lparr>hna_gws := gws\<rparr>;
     if net \<in> set (if_addrs hc) then Some (olsr_handle_hna_collision net originator w)
     else if ip_prefix_list_find (own_hna hc) net (prefix_len q) = None then olsr_update_hna_entry cnf originator net (prefix_len q) vtime w
     else Some w
   }"

function input_nets ::
  "olsrd_config \<Rightarrow> gw_config \<Rightarrow> hna_config \<Rightarrow> olsr_ip_addr \<Rightarrow> olsr_reltime \<Rightarrow> u16 \<Rightarrow> u8 list \<Rightarrow> nat \<Rightarrow> nat \<Rightarrow> 'lq hna_world \<Rightarrow> 'lq hna_world option" where
  "input_nets cnf gc hc originator vtime seqno buf cur fin w =
     (if cur < fin then
        case pkt_get_ipaddress cnf buf cur of None \<Rightarrow> None
        | Some (net, cur1) \<Rightarrow> (case pkt_get_ipaddress cnf buf cur1 of None \<Rightarrow> None
          | Some (netmask, cur2) \<Rightarrow> (case input_net cnf gc hc originator vtime seqno net netmask w of None \<Rightarrow> None
            | Some w' \<Rightarrow> input_nets cnf gc hc originator vtime seqno buf cur2 fin w'))
      else Some w)"
  by pat_completeness auto
termination
  by (relation "measure (\<lambda>(cnf, gc, hc, orig, v, s, buf, cur, fin, w). fin - cur)")
    (auto simp: pkt_get_ipaddress_def get_bytes_def ipsize_def split: if_splits)

declare input_nets.simps [simp del]

record hna_header =
  hna_vtime :: olsr_reltime
  hna_msgsize :: u16
  hna_originator :: olsr_ip_addr
  hna_seqno :: u16

definition read_hna_header :: "olsrd_config \<Rightarrow> u8 list \<Rightarrow> nat \<Rightarrow> (hna_header \<times> nat) option" where
  "read_hna_header cnf buf p = do {
     (vtime, p) \<leftarrow> pkt_get_reltime buf p;
     (size, p) \<leftarrow> pkt_get_u16 buf p;
     (orig, p) \<leftarrow> pkt_get_ipaddress cnf buf p;
     let p = pkt_ignore_u8 p;
     (hop, p) \<leftarrow> pkt_get_u8 buf p;
     (seq, p) \<leftarrow> pkt_get_u16 buf p;
     Some (\<lparr>hna_vtime = vtime, hna_msgsize = size, hna_originator = orig, hna_seqno = seq\<rparr>, p)
   }"

definition olsr_input_hna :: "olsrd_config \<Rightarrow> gw_config \<Rightarrow> hna_config \<Rightarrow> bool \<Rightarrow> u8 list \<Rightarrow> 'lq hna_world \<Rightarrow> (bool \<times> 'lq hna_world) option" where
  "olsr_input_hna cnf gc hc symm buf w = do {
     (type, p) \<leftarrow> pkt_get_u8 buf 0;
     if type \<noteq> HNA_MESSAGE then Some (False, w)
     else do {
       (h, cur) \<leftarrow> read_hna_header cnf buf p;
       let hnasize = int (unat (hna_msgsize h)) - 8 - int (ipsize cnf);
       if \<not> int (2 * ipsize cnf) dvd hnasize then Some (False, w)
       else if \<not> symm then Some (False, w)
       else map_option (Pair True) (input_nets cnf gc hc (hna_originator h) (hna_vtime h) (hna_seqno h) buf cur (unat (hna_msgsize h)) w)
     }
   }"

section \<open>The invariant\<close>

definition gw_hash :: "'lq hna_world \<Rightarrow> ptr \<Rightarrow> nat option" where
  "gw_hash w p = map_option (\<lambda>e. ip_hash (A_gateway_addr e)) (hna_entries w p)"

text \<open>The networks of a gateway, by their backpointers.\<close>

definition nets_at :: "'lq hna_world \<Rightarrow> ptr \<Rightarrow> ptr set" where
  "nets_at w p = {n. \<exists>x. hna_nets w n = Some x \<and> hna_gw x = p}"

definition hna_ok :: "'lq hna_world \<Rightarrow> bool" where
  "hna_ok w \<longleftrightarrow> bucket_ok (hna_set w) (gw_hash w) \<and>
     (\<forall>p e p' e'. hna_entries w p = Some e \<and> hna_entries w p' = Some e' \<and> A_gateway_addr e = A_gateway_addr e' \<longrightarrow> p = p') \<and>
     (\<forall>p e. hna_entries w p = Some e \<longrightarrow> distinct (networks e) \<and> set (networks e) = nets_at w p) \<and>
     (\<forall>n x. hna_nets w n = Some x \<longrightarrow> hna_entries w (hna_gw x) \<noteq> None) \<and>
     (\<forall>n x n' x'. hna_nets w n = Some x \<and> hna_nets w n' = Some x' \<and> hna_gw x = hna_gw x' \<and> hna_prefix x = hna_prefix x' \<longrightarrow> n = n') \<and>
     (\<forall>p. hna_entries w p \<noteq> None \<or> hna_nets w p \<noteq> None \<longrightarrow> p < hna_next w)"

definition no_empty_gw :: "'lq hna_world \<Rightarrow> bool" where
  "no_empty_gw w \<longleftrightarrow> (\<forall>p e. hna_entries w p = Some e \<longrightarrow> networks e \<noteq> [])"

lemma hna_okD:
  assumes "hna_ok w"
  shows "bucket_ok (hna_set w) (gw_hash w)"
    "hna_entries w p = Some e \<Longrightarrow> hna_entries w p' = Some e' \<Longrightarrow> A_gateway_addr e = A_gateway_addr e' \<Longrightarrow> p = p'"
    "hna_entries w p = Some e \<Longrightarrow> distinct (networks e)" "hna_entries w p = Some e \<Longrightarrow> set (networks e) = nets_at w p"
    "hna_nets w n = Some x \<Longrightarrow> \<exists>e. hna_entries w (hna_gw x) = Some e"
    "hna_nets w n = Some x \<Longrightarrow> hna_nets w n' = Some x' \<Longrightarrow> hna_gw x = hna_gw x' \<Longrightarrow> hna_prefix x = hna_prefix x' \<Longrightarrow> n = n'"
    "hna_entries w p = Some e \<Longrightarrow> p < hna_next w" "hna_nets w n = Some x \<Longrightarrow> n < hna_next w"
  using assms unfolding hna_ok_def by blast+

lemma hna_okI:
  assumes "bucket_ok (hna_set w) (gw_hash w)"
    "\<And>p e p' e'. hna_entries w p = Some e \<Longrightarrow> hna_entries w p' = Some e' \<Longrightarrow> A_gateway_addr e = A_gateway_addr e' \<Longrightarrow> p = p'"
    "\<And>p e. hna_entries w p = Some e \<Longrightarrow> distinct (networks e) \<and> set (networks e) = nets_at w p"
    "\<And>n x. hna_nets w n = Some x \<Longrightarrow> hna_entries w (hna_gw x) \<noteq> None"
    "\<And>n x n' x'. hna_nets w n = Some x \<Longrightarrow> hna_nets w n' = Some x' \<Longrightarrow> hna_gw x = hna_gw x' \<Longrightarrow> hna_prefix x = hna_prefix x' \<Longrightarrow> n = n'"
    "\<And>p e. hna_entries w p = Some e \<Longrightarrow> p < hna_next w" "\<And>n x. hna_nets w n = Some x \<Longrightarrow> n < hna_next w"
  shows "hna_ok w"
  unfolding hna_ok_def using assms by auto

text \<open>What the set says: a gateway announces a prefix, which is valid for some time.\<close>

definition announced :: "'lq hna_world \<Rightarrow> olsr_ip_addr \<times> olsr_ip_prefix \<Rightarrow> olsr_reltime option \<Rightarrow> bool" where
  "announced w k t \<longleftrightarrow> (\<exists>n x e. hna_nets w n = Some x \<and> hna_entries w (hna_gw x) = Some e \<and> k = (A_gateway_addr e, hna_prefix x) \<and> t = hna_net_timer x)"

lemma announcedI: "hna_nets w n = Some x \<Longrightarrow> hna_entries w (hna_gw x) = Some e \<Longrightarrow> k = (A_gateway_addr e, hna_prefix x) \<Longrightarrow> announced w k (hna_net_timer x)"
  unfolding announced_def by blast

lemma lookup_gw_ok:
  assumes "hna_ok w"
  shows "\<exists>r. olsr_lookup_hna_gw a w = Some r \<and> (\<forall>p. r = Some p \<longleftrightarrow> (\<exists>e. hna_entries w p = Some e \<and> A_gateway_addr e = a))"
proof -
  let ?t = "\<lambda>p. map_option (\<lambda>e. ipequal (A_gateway_addr e) a) (hna_entries w p)" and ?l = "hna_set w (ip_hash a)"
  have m: "p \<in> set ?l \<longleftrightarrow> (\<exists>e. hna_entries w p = Some e \<and> ip_hash (A_gateway_addr e) = ip_hash a)" for p
    using bucket_okD(1) [OF hna_okD(1) [OF assms]] by (auto simp: gw_hash_def)
  hence f: "olsr_lookup_hna_gw a w = Some (List.find (\<lambda>p. ?t p = Some True) ?l)" unfolding olsr_lookup_hna_gw_def by (intro findM_total) auto
  show ?thesis
  proof (cases "\<exists>p e. hna_entries w p = Some e \<and> A_gateway_addr e = a")
    case True
    then obtain p e where p: "hna_entries w p = Some e" "A_gateway_addr e = a" by blast
    have "List.find (\<lambda>p. ?t p = Some True) ?l \<noteq> None" using p m [of p] by (auto simp: find_None_iff)
    then obtain q where q: "List.find (\<lambda>p. ?t p = Some True) ?l = Some q" by blast
    hence "\<exists>e. hna_entries w q = Some e \<and> A_gateway_addr e = a" by (auto simp: find_Some_iff)
    thus ?thesis using f q hna_okD(2) [OF assms] by (intro exI [of _ "Some q"]) auto
  next
    case False
    hence "List.find (\<lambda>p. ?t p = Some True) ?l = None" by (auto simp: find_None_iff)
    thus ?thesis using f False by auto
  qed
qed

lemma lookup_net_ok:
  assumes ok: "hna_ok w" and p: "hna_entries w p = Some e"
  shows "\<exists>r. olsr_lookup_hna_net (networks e) net len w = Some r \<and>
    (\<forall>n. r = Some n \<longleftrightarrow> (\<exists>x. hna_nets w n = Some x \<and> hna_gw x = p \<and> hna_prefix x = \<lparr>prefix = net, prefix_len = len\<rparr>))"
proof -
  let ?q = "\<lparr>prefix = net, prefix_len = len\<rparr>"
  let ?t = "\<lambda>n. map_option (\<lambda>x. prefix_len (hna_prefix x) = len \<and> ipequal (prefix (hna_prefix x)) net) (hna_nets w n)"
  have t: "?t n = Some True \<longleftrightarrow> (\<exists>x. hna_nets w n = Some x \<and> hna_prefix x = ?q)" for n by (auto intro!: olsr_ip_prefix.equality)
  have m: "n \<in> set (networks e) \<longleftrightarrow> (\<exists>x. hna_nets w n = Some x \<and> hna_gw x = p)" for n using hna_okD(4) [OF ok p] by (auto simp: nets_at_def)
  hence f: "olsr_lookup_hna_net (networks e) net len w = Some (List.find (\<lambda>n. ?t n = Some True) (networks e))"
    unfolding olsr_lookup_hna_net_def by (intro findM_total) auto
  show ?thesis
  proof (cases "\<exists>n x. hna_nets w n = Some x \<and> hna_gw x = p \<and> hna_prefix x = ?q")
    case True
    then obtain n x where n: "hna_nets w n = Some x" "hna_gw x = p" "hna_prefix x = ?q" by blast
    have "List.find (\<lambda>n. ?t n = Some True) (networks e) \<noteq> None" using n m [of n] by (auto simp: find_None_iff)
    then obtain k where k: "List.find (\<lambda>n. ?t n = Some True) (networks e) = Some k" by blast
    hence "k \<in> set (networks e)" "?t k = Some True" by (auto simp: find_Some_iff)
    hence "\<exists>x. hna_nets w k = Some x \<and> hna_gw x = p \<and> hna_prefix x = ?q" unfolding t m by auto
    thus ?thesis using f k hna_okD(6) [OF ok] by (intro exI [of _ "Some k"]) fastforce
  next
    case False
    hence "List.find (\<lambda>n. ?t n = Some True) (networks e) = None" unfolding find_None_iff t m by auto
    thus ?thesis using f False by auto
  qed
qed

section \<open>Creating entries\<close>

lemma announced_cong: "hna_nets w' = hna_nets w \<Longrightarrow> hna_entries w' = hna_entries w \<Longrightarrow> announced w' = announced w"
  by (simp add: announced_def fun_eq_iff)

lemma hna_ok_cong:
  assumes "hna_ok w" "hna_set w' = hna_set w" "hna_nets w' = hna_nets w" "hna_entries w' = hna_entries w" "hna_next w' = hna_next w"
  shows "hna_ok w'"
proof -
  have e: "gw_hash w' = gw_hash w" "nets_at w' = nets_at w" using assms by (simp_all add: gw_hash_def nets_at_def fun_eq_iff)
  show ?thesis using assms(1) unfolding hna_ok_def assms(2-5) e .
qed

lemma add_entry_ok:
  assumes ok: "hna_ok w" and a: "\<forall>p e. hna_entries w p = Some e \<longrightarrow> A_gateway_addr e \<noteq> a"
  obtains p w' where "olsr_add_hna_entry a w = (p, w')" "hna_ok w'" "hna_entries w' = (hna_entries w)(p \<mapsto> \<lparr>A_gateway_addr = a, networks = []\<rparr>)"
    "hna_nets w' = hna_nets w" "hna_db w' = hna_db w" "hna_gws w' = hna_gws w" "announced w' = announced w" "hna_entries w p = None" "hna_collisions w' = hna_collisions w"
proof -
  let ?p = "hna_next w" let ?w = "w\<lparr>hna_set := queue_elem (ip_hash a) ?p (hna_set w), hna_entries := (hna_entries w)(?p \<mapsto> \<lparr>A_gateway_addr = a, networks = []\<rparr>), hna_next := Suc ?p\<rparr>"
  have n: "hna_entries w ?p = None" "hna_nets w ?p = None" using hna_okD(7) [OF ok, of ?p] hna_okD(8) [OF ok, of ?p] by (meson less_irrefl not_Some_eq)+
  have g: "hna_gw x \<noteq> ?p" if "hna_nets w m = Some x" for m x using hna_okD(5) [OF ok that] n(1) by auto
  have h: "gw_hash ?w = (gw_hash w)(?p \<mapsto> ip_hash a)" by (auto simp: gw_hash_def fun_eq_iff)
  have na: "nets_at ?w q = nets_at w q" for q by (simp add: nets_at_def)
  have "hna_ok ?w"
  proof (rule hna_okI, unfold h na)
    show "bucket_ok (hna_set ?w) ((gw_hash w)(?p \<mapsto> ip_hash a))"
      using bucket_queue [OF hna_okD(1) [OF ok], of ?p "ip_hash a"] n(1) by (simp add: gw_hash_def)
    show "q = q'" if "hna_entries ?w q = Some e" "hna_entries ?w q' = Some e'" "A_gateway_addr e = A_gateway_addr e'" for q e q' e'
      using that a hna_okD(2) [OF ok, of q e q' e'] by (auto split: if_splits; blast)
    show "distinct (networks e) \<and> set (networks e) = nets_at w q" if "hna_entries ?w q = Some e" for q e
      using that hna_okD(3,4) [OF ok, of q e] g by (auto simp: nets_at_def split: if_splits)
    show "hna_entries ?w (hna_gw x) \<noteq> None" if "hna_nets ?w m = Some x" for m x using that hna_okD(5) [OF ok, of m x] by auto
    show "m = m'" if "hna_nets ?w m = Some x" "hna_nets ?w m' = Some x'" "hna_gw x = hna_gw x'" "hna_prefix x = hna_prefix x'" for m x m' x'
      using that hna_okD(6) [OF ok] by simp
    show "q < hna_next ?w" if "hna_entries ?w q = Some e" for q e using that hna_okD(7) [OF ok, of q e] by (auto split: if_splits)
    show "m < hna_next ?w" if "hna_nets ?w m = Some x" for m x using that hna_okD(8) [OF ok, of m x] by simp
  qed
  moreover have "announced ?w = announced w" using g by (auto simp: announced_def fun_eq_iff split: if_splits)
  ultimately show thesis by (intro that [of ?p ?w]) (simp_all add: olsr_add_hna_entry_def Let_def n(1))
qed

lemma add_net_ok:
  assumes ok: "hna_ok w" and p: "hna_entries w p = Some e"
    and q: "\<forall>n x. hna_nets w n = Some x \<and> hna_gw x = p \<longrightarrow> hna_prefix x \<noteq> \<lparr>prefix = net, prefix_len = len\<rparr>"
  obtains n w' where "olsr_add_hna_net p net len w = Some (n, w')" "hna_ok w'" "hna_entries w' = (hna_entries w)(p \<mapsto> e\<lparr>networks := n # networks e\<rparr>)"
    "hna_nets w' = (hna_nets w)(n \<mapsto> \<lparr>hna_prefix = \<lparr>prefix = net, prefix_len = len\<rparr>, hna_net_timer = None, hna_gw = p\<rparr>)" "hna_db w' = hna_db w" "hna_gws w' = hna_gws w"
    "hna_nets w n = None" "hna_collisions w' = hna_collisions w"
proof -
  let ?n = "hna_next w" and ?x = "\<lparr>hna_prefix = \<lparr>prefix = net, prefix_len = len\<rparr>, hna_net_timer = None, hna_gw = p\<rparr>"
  let ?w = "w\<lparr>hna_entries := (hna_entries w)(p \<mapsto> e\<lparr>networks := ?n # networks e\<rparr>), hna_nets := (hna_nets w)(?n \<mapsto> ?x), hna_next := Suc ?n\<rparr>"
  have n: "hna_entries w ?n = None" "hna_nets w ?n = None" using hna_okD(7) [OF ok, of ?n] hna_okD(8) [OF ok, of ?n] by (meson less_irrefl not_Some_eq)+
  have h: "gw_hash ?w = gw_hash w" using p by (auto simp: gw_hash_def fun_eq_iff)
  have na: "nets_at ?w q = (if q = p then insert ?n (nets_at w q) else nets_at w q)" for q using n by (auto simp: nets_at_def)
  have nn: "?n \<notin> set (networks e)" using hna_okD(4) [OF ok p] n by (auto simp: nets_at_def)
  have "hna_ok ?w"
  proof (rule hna_okI, unfold h na)
    show "bucket_ok (hna_set ?w) (gw_hash w)" using hna_okD(1) [OF ok] by simp
    show "q = q'" if "hna_entries ?w q = Some e1" "hna_entries ?w q' = Some e2" "A_gateway_addr e1 = A_gateway_addr e2" for q e1 q' e2
      using that p hna_okD(2) [OF ok] by (auto split: if_splits)
    show "distinct (networks e1) \<and> set (networks e1) = (if q = p then insert ?n (nets_at w q) else nets_at w q)" if "hna_entries ?w q = Some e1" for q e1
      using that hna_okD(3,4) [OF ok, of q] hna_okD(3,4) [OF ok p] nn by (auto split: if_splits)
    show "hna_entries ?w (hna_gw x) \<noteq> None" if "hna_nets ?w m = Some x" for m x using that hna_okD(5) [OF ok, of m x] by (auto split: if_splits)
    show "m = m'" if "hna_nets ?w m = Some x" "hna_nets ?w m' = Some x'" "hna_gw x = hna_gw x'" "hna_prefix x = hna_prefix x'" for m x m' x'
      using that q hna_okD(6) [OF ok, of m x m' x'] by (auto split: if_splits; blast)
    show "r < hna_next ?w" if "hna_entries ?w r = Some e1" for r e1 using that p hna_okD(7) [OF ok, of r] by (auto split: if_splits intro: less_SucI)
    show "m < hna_next ?w" if "hna_nets ?w m = Some x" for m x using that hna_okD(8) [OF ok, of m x] by (auto split: if_splits)
  qed
  thus thesis by (intro that [of ?n ?w]) (simp_all add: olsr_add_hna_net_def Let_def p n(2))
qed

section \<open>Refreshing a network\<close>

text \<open>All components are well.\<close>

definition world_ok :: "'lq hna_world \<Rightarrow> bool" where
  "world_ok w \<longleftrightarrow> hna_ok w \<and> no_empty_gw w \<and> lsdb_ok (hna_db w) \<and> gw_ok (hna_gws w)"

lemma net_timer_ok:
  assumes ok: "hna_ok w" and n: "hna_nets w n = Some x" "hna_entries w (hna_gw x) = Some e" and v: "vtime \<noteq> 0"
  shows "hna_ok (set_net_timer n vtime w)"
    "announced (set_net_timer n vtime w) k t \<longleftrightarrow> (if k = (A_gateway_addr e, hna_prefix x) then t = Some vtime else announced w k t)"
proof -
  let ?w = "set_net_timer n vtime w" and ?x = "x\<lparr>hna_net_timer := Some vtime\<rparr>"
  have nets: "hna_nets ?w = (hna_nets w)(n \<mapsto> ?x)" using n(1) v by (simp add: set_net_timer_def)
  have e: "hna_entries ?w = hna_entries w" "hna_set ?w = hna_set w" "hna_next ?w = hna_next w" by (simp_all add: set_net_timer_def)
  have h: "gw_hash ?w = gw_hash w" "nets_at ?w = nets_at w" using n(1) by (auto simp: gw_hash_def nets_at_def e nets fun_eq_iff)
  show "hna_ok ?w"
  proof (rule hna_okI, unfold h e)
    show "m = m'" if "hna_nets ?w m = Some y" "hna_nets ?w m' = Some y'" "hna_gw y = hna_gw y'" "hna_prefix y = hna_prefix y'" for m y m' y'
      using that hna_okD(6) [OF ok, of m _ m'] n(1) unfolding nets by (fastforce split: if_splits)
    show "hna_entries w (hna_gw y) \<noteq> None" if "hna_nets ?w m = Some y" for m y
      using that hna_okD(5) [OF ok, of m y] n unfolding nets by (auto split: if_splits)
    show "m < hna_next w" if "hna_nets ?w m = Some y" for m y using that hna_okD(8) [OF ok] n(1) unfolding nets by (auto split: if_splits)
  qed (use hna_okD(1-4,7) [OF ok] in blast)+
  have u: "m = n" if "hna_nets w m = Some y" "hna_entries w (hna_gw y) = Some e'" "A_gateway_addr e' = A_gateway_addr e" "hna_prefix y = hna_prefix x" for m y e'
    using hna_okD(6) [OF ok that(1) n(1)] hna_okD(2) [OF ok that(2) n(2) that(3)] that(4) by blast
  show "announced ?w k t \<longleftrightarrow> (if k = (A_gateway_addr e, hna_prefix x) then t = Some vtime else announced w k t)"
  proof (cases "k = (A_gateway_addr e, hna_prefix x)")
    case True
    have "announced ?w k (Some vtime)" unfolding announced_def nets e using n True by (intro exI [of _ n] exI [of _ ?x] exI [of _ e]) simp
    moreover have "t = Some vtime" if "announced ?w k t" using that u True unfolding announced_def nets e by (auto split: if_splits)
    ultimately show ?thesis using True by auto
  next
    case False
    have "announced ?w k t \<longleftrightarrow> announced w k t"
    proof
      assume "announced ?w k t" thus "announced w k t" using False n unfolding announced_def nets e by (auto split: if_splits)
    next
      assume "announced w k t"
      then obtain m y e' where m: "hna_nets w m = Some y" "hna_entries w (hna_gw y) = Some e'" "k = (A_gateway_addr e', hna_prefix y)" "t = hna_net_timer y"
        unfolding announced_def by blast
      hence "m \<noteq> n" using False n by auto
      thus "announced ?w k t" unfolding announced_def nets e using m by (intro exI [of _ m] exI [of _ y] exI [of _ e']) simp
    qed
    thus ?thesis using False by simp
  qed
qed

lemma gw_located:
  assumes ok: "world_ok w"
  obtains r p w1 e where "olsr_lookup_hna_gw a w = Some r" "(case r of Some p \<Rightarrow> (p, w) | None \<Rightarrow> olsr_add_hna_entry a w) = (p, w1)"
    "hna_ok w1" "hna_entries w1 p = Some e" "A_gateway_addr e = a" "announced w1 = announced w" "hna_db w1 = hna_db w" "hna_gws w1 = hna_gws w"
    "hna_collisions w1 = hna_collisions w" "\<forall>q e. hna_entries w1 q = Some e \<and> q \<noteq> p \<longrightarrow> networks e \<noteq> []"
proof -
  have h: "hna_ok w" "no_empty_gw w" using ok by (simp_all add: world_ok_def)
  obtain r where r: "olsr_lookup_hna_gw a w = Some r" "\<forall>p. r = Some p \<longleftrightarrow> (\<exists>e. hna_entries w p = Some e \<and> A_gateway_addr e = a)" using lookup_gw_ok [OF h(1)] by blast
  show thesis
  proof (cases r)
    case (Some p)
    then obtain e where "hna_entries w p = Some e" "A_gateway_addr e = a" using r(2) by blast
    thus thesis by (intro that [of r p w e]) (use Some r(1) h in \<open>auto simp: no_empty_gw_def\<close>)
  next
    case None
    hence "\<forall>p e. hna_entries w p = Some e \<longrightarrow> A_gateway_addr e \<noteq> a" using r(2) by auto
    then obtain p w1 where 1: "olsr_add_hna_entry a w = (p, w1)" "hna_ok w1" "hna_entries w1 = (hna_entries w)(p \<mapsto> \<lparr>A_gateway_addr = a, networks = []\<rparr>)"
      "hna_nets w1 = hna_nets w" "hna_db w1 = hna_db w" "hna_gws w1 = hna_gws w" "announced w1 = announced w" "hna_entries w p = None" "hna_collisions w1 = hna_collisions w"
      by (rule add_entry_ok [OF h(1)])
    show thesis by (rule that [of r p w1 "\<lparr>A_gateway_addr = a, networks = []\<rparr>"]) (use None 1 r(1) h(2) in \<open>auto simp: no_empty_gw_def\<close>)
  qed
qed

lemma announced_new_net:
  assumes ok: "hna_ok w" and p: "hna_entries w p = Some e" and w': "hna_entries w' = (hna_entries w)(p \<mapsto> e\<lparr>networks := l\<rparr>)"
    "hna_nets w' = (hna_nets w)(n \<mapsto> \<lparr>hna_prefix = q, hna_net_timer = None, hna_gw = p\<rparr>)" "hna_nets w n = None" and k: "k \<noteq> (A_gateway_addr e, q)"
  shows "announced w' k t \<longleftrightarrow> announced w k t"
proof
  assume "announced w' k t"
  then obtain m y e' where m: "hna_nets w' m = Some y" "hna_entries w' (hna_gw y) = Some e'" "k = (A_gateway_addr e', hna_prefix y)" "t = hna_net_timer y"
    unfolding announced_def by blast
  have "m \<noteq> n" using m k p unfolding w' by (auto split: if_splits)
  hence 1: "hna_nets w m = Some y" using m(1) unfolding w' by simp
  have "\<exists>e0. hna_entries w (hna_gw y) = Some e0 \<and> A_gateway_addr e0 = A_gateway_addr e'" using m(2) p unfolding w' by (auto split: if_splits)
  thus "announced w k t" using announcedI [OF 1] m(3,4) by metis
next
  assume "announced w k t"
  then obtain m y e' where m: "hna_nets w m = Some y" "hna_entries w (hna_gw y) = Some e'" "k = (A_gateway_addr e', hna_prefix y)" "t = hna_net_timer y"
    unfolding announced_def by blast
  have 1: "hna_nets w' m = Some y" using m(1) w'(2,3) by auto
  have "\<exists>e0. hna_entries w' (hna_gw y) = Some e0 \<and> A_gateway_addr e0 = A_gateway_addr e'" using m(2) p unfolding w' by auto
  thus "announced w' k t" using announcedI [OF 1] m(3,4) by metis
qed

lemma net_located:
  assumes ok: "hna_ok w" and p: "hna_entries w p = Some e"
  obtains r n w2 x where "olsr_lookup_hna_net (networks e) net len w = Some r"
    "(case r of Some n \<Rightarrow> Some (n, w) | None \<Rightarrow> map_option (\<lambda>(n, w). (n, w\<lparr>hna_db := (hna_db w)\<lparr>changes_hna := True\<rparr>\<rparr>)) (olsr_add_hna_net p net len w)) = Some (n, w2)"
    "hna_ok w2" "hna_nets w2 n = Some x" "hna_gw x = p" "hna_prefix x = \<lparr>prefix = net, prefix_len = len\<rparr>"
    "\<And>k t. k \<noteq> (A_gateway_addr e, \<lparr>prefix = net, prefix_len = len\<rparr>) \<Longrightarrow> announced w2 k t \<longleftrightarrow> announced w k t"
    "hna_db w2 = hna_db w \<or> hna_db w2 = (hna_db w)\<lparr>changes_hna := True\<rparr>" "hna_gws w2 = hna_gws w" "hna_collisions w2 = hna_collisions w"
    "\<exists>e2. hna_entries w2 = (hna_entries w)(p \<mapsto> e2) \<and> A_gateway_addr e2 = A_gateway_addr e \<and> networks e2 \<noteq> []"
proof -
  let ?q = "\<lparr>prefix = net, prefix_len = len\<rparr>"
  obtain r where r: "olsr_lookup_hna_net (networks e) net len w = Some r"
    "\<forall>n. r = Some n \<longleftrightarrow> (\<exists>x. hna_nets w n = Some x \<and> hna_gw x = p \<and> hna_prefix x = ?q)" using lookup_net_ok [OF ok p] by blast
  show thesis
  proof (cases r)
    case (Some n)
    then obtain x where x: "hna_nets w n = Some x" "hna_gw x = p" "hna_prefix x = ?q" using r(2) by blast
    have "n \<in> set (networks e)" using hna_okD(4) [OF ok p] x by (auto simp: nets_at_def)
    moreover have "(hna_entries w)(p \<mapsto> e) = hna_entries w" using p by auto
    ultimately have e: "\<exists>e2. hna_entries w = (hna_entries w)(p \<mapsto> e2) \<and> A_gateway_addr e2 = A_gateway_addr e \<and> networks e2 \<noteq> []"
      by (intro exI [of _ e]) auto
    show thesis by (rule that [OF r(1), of n w x]) (use Some ok x e in simp_all)
  next
    case None
    hence q: "\<forall>n x. hna_nets w n = Some x \<and> hna_gw x = p \<longrightarrow> hna_prefix x \<noteq> ?q" using r(2) by auto
    obtain n w' where 1: "olsr_add_hna_net p net len w = Some (n, w')" "hna_ok w'" "hna_entries w' = (hna_entries w)(p \<mapsto> e\<lparr>networks := n # networks e\<rparr>)"
      "hna_nets w' = (hna_nets w)(n \<mapsto> \<lparr>hna_prefix = ?q, hna_net_timer = None, hna_gw = p\<rparr>)" "hna_db w' = hna_db w" "hna_gws w' = hna_gws w" "hna_nets w n = None"
      "hna_collisions w' = hna_collisions w" by (rule add_net_ok [OF ok p q])
    let ?w = "w'\<lparr>hna_db := (hna_db w')\<lparr>changes_hna := True\<rparr>\<rparr>"
    have "announced ?w = announced w'" by (rule announced_cong) simp_all
    hence a: "announced ?w k t \<longleftrightarrow> announced w k t" if "k \<noteq> (A_gateway_addr e, ?q)" for k t using announced_new_net [OF ok p 1(3,4,7) that] by simp
    have w: "hna_ok ?w" by (rule hna_ok_cong [OF 1(2)]) simp_all
    show thesis by (rule that [OF r(1), of n ?w]) (use None 1 a w in auto)
  qed
qed

text \<open>
  The update of an entry, of the routing table and of the timer together.
\<close>

lemma update_hna_ok:
  assumes ok: "world_ok w" and m: "main_addr cnf \<noteq> all_zero cnf" and v: "vtime \<noteq> 0"
  obtains w' where "olsr_update_hna_entry cnf a net len vtime w = Some w'" "world_ok w'" "hna_gws w' = hna_gws w" "hna_collisions w' = hna_collisions w"
    "\<And>k t. announced w' k t \<longleftrightarrow> (if k = (a, \<lparr>prefix = net, prefix_len = len\<rparr>) then t = Some vtime else announced w k t)"
proof -
  let ?q = "\<lparr>prefix = net, prefix_len = len\<rparr>"
  obtain r p w1 e where 1: "olsr_lookup_hna_gw a w = Some r" "(case r of Some p \<Rightarrow> (p, w) | None \<Rightarrow> olsr_add_hna_entry a w) = (p, w1)"
    "hna_ok w1" "hna_entries w1 p = Some e" "A_gateway_addr e = a" "announced w1 = announced w" "hna_db w1 = hna_db w" "hna_gws w1 = hna_gws w"
    "hna_collisions w1 = hna_collisions w" "\<forall>q e. hna_entries w1 q = Some e \<and> q \<noteq> p \<longrightarrow> networks e \<noteq> []" by (rule gw_located [OF ok])
  obtain r2 n w2 x where 2: "olsr_lookup_hna_net (networks e) net len w1 = Some r2"
    "(case r2 of Some n \<Rightarrow> Some (n, w1) | None \<Rightarrow> map_option (\<lambda>(n, w). (n, w\<lparr>hna_db := (hna_db w)\<lparr>changes_hna := True\<rparr>\<rparr>)) (olsr_add_hna_net p net len w1)) = Some (n, w2)"
    "hna_ok w2" "hna_nets w2 n = Some x" "hna_gw x = p" "hna_prefix x = ?q"
    "\<And>k t. k \<noteq> (A_gateway_addr e, ?q) \<Longrightarrow> announced w2 k t \<longleftrightarrow> announced w1 k t"
    "hna_db w2 = hna_db w1 \<or> hna_db w2 = (hna_db w1)\<lparr>changes_hna := True\<rparr>" "hna_gws w2 = hna_gws w1" "hna_collisions w2 = hna_collisions w1"
    "\<exists>e2. hna_entries w2 = (hna_entries w1)(p \<mapsto> e2) \<and> A_gateway_addr e2 = A_gateway_addr e \<and> networks e2 \<noteq> []" by (rule net_located [OF 1(3,4)]) (assumption | blast)+
  from 2(11) obtain e2 where e2: "hna_entries w2 = (hna_entries w1)(p \<mapsto> e2)" "A_gateway_addr e2 = a" "networks e2 \<noteq> []" using 1(5) by blast
  have "lsdb_ok (hna_db w2)" using 2(8) 1(7) ok by (auto simp: world_ok_def lsdb_ok_flags)
  from insert_routing_table_ok [OF this m, of net len a OLSR_RT_ORIGIN_HNA] obtain r3 db where
    3: "olsr_insert_routing_table cnf net len a OLSR_RT_ORIGIN_HNA (hna_db w2) = Some (r3, db)" "lsdb_ok db" by blast
  let ?w3 = "w2\<lparr>hna_db := db\<rparr>"
  have ok3: "hna_ok ?w3" by (rule hna_ok_cong [OF 2(3)]) simp_all
  have a3: "announced ?w3 = announced w2" by (rule announced_cong) simp_all
  have n3: "hna_nets ?w3 n = Some x" "hna_entries ?w3 (hna_gw x) = Some e2" using 2(4,5) e2(1) by simp_all
  let ?w4 = "set_net_timer n vtime ?w3"
  have res: "olsr_update_hna_entry cnf a net len vtime w = Some ?w4"
    using 1(1,2,4) 2(1,2,4,6) e2 3(1) by (simp add: olsr_update_hna_entry_def)
  have f: "hna_entries ?w4 = hna_entries w2" "hna_db ?w4 = db" "hna_gws ?w4 = hna_gws w" "hna_collisions ?w4 = hna_collisions w"
    using 1(8,9) 2(9,10) by (simp_all add: set_net_timer_def)
  have "no_empty_gw ?w4" unfolding no_empty_gw_def f e2(1) using 1(10) e2(3) by auto
  hence "world_ok ?w4" using net_timer_ok(1) [OF ok3 n3 v] 3(2) ok unfolding world_ok_def f by simp
  moreover have "announced ?w4 k t \<longleftrightarrow> (if k = (a, ?q) then t = Some vtime else announced w k t)" for k t
    using net_timer_ok(2) [OF ok3 n3 v, of k t] 2(6) e2(2) 2(7) [of k t] 1(5,6) a3 by simp
  ultimately show thesis using that [OF res] f by blast
qed

section \<open>Deleting networks\<close>

text \<open>The tables after a network has left the list of its gateway, which is then empty or not.\<close>

definition without_net :: "ptr \<Rightarrow> hna_net \<Rightarrow> hna_entry \<Rightarrow> 'lq hna_world \<Rightarrow> 'lq hna_world" where
  "without_net n x e w = (let l = filter (\<lambda>m. m \<noteq> n) (networks e) in
     if l = [] then w\<lparr>hna_set := dequeue_elem (hna_gw x) (hna_set w), hna_entries := (hna_entries w)(hna_gw x := None), hna_nets := (hna_nets w)(n := None)\<rparr>
     else w\<lparr>hna_entries := (hna_entries w)(hna_gw x \<mapsto> e\<lparr>networks := l\<rparr>), hna_nets := (hna_nets w)(n := None)\<rparr>)"

lemma without_net_ok:
  assumes ok: "hna_ok w" and n: "hna_nets w n = Some x" "hna_entries w (hna_gw x) = Some e"
  shows "hna_ok (without_net n x e w)"
    "announced (without_net n x e w) k t \<longleftrightarrow> k \<noteq> (A_gateway_addr e, hna_prefix x) \<and> announced w k t"
proof -
  let ?l = "filter (\<lambda>m. m \<noteq> n) (networks e)" and ?p = "hna_gw x" and ?w = "without_net n x e w"
  have nets: "hna_nets ?w = (hna_nets w)(n := None)" "hna_next ?w = hna_next w" by (simp_all add: without_net_def Let_def)
  have ent: "hna_entries ?w = (hna_entries w)(?p := (if ?l = [] then None else Some (e\<lparr>networks := ?l\<rparr>)))" by (simp add: without_net_def Let_def)
  have na: "nets_at ?w q = nets_at w q - {n}" for q by (auto simp: nets_at_def nets)
  have l: "set ?l = nets_at w ?p - {n}" using hna_okD(4) [OF ok n(2)] by auto
  show "hna_ok ?w"
  proof (rule hna_okI)
    have h: "gw_hash ?w = (if ?l = [] then (gw_hash w)(?p := None) else gw_hash w)" using n(2) by (auto simp: gw_hash_def ent fun_eq_iff)
    show "bucket_ok (hna_set ?w) (gw_hash ?w)" unfolding h
      using hna_okD(1) [OF ok] bucket_dequeue [OF hna_okD(1) [OF ok], of ?p] by (simp add: without_net_def Let_def)
    show "q = q'" if "hna_entries ?w q = Some e1" "hna_entries ?w q' = Some e2" "A_gateway_addr e1 = A_gateway_addr e2" for q e1 q' e2
      using that n(2) hna_okD(2) [OF ok] unfolding ent by (auto split: if_splits)
    show "distinct (networks e1) \<and> set (networks e1) = nets_at ?w q" if "hna_entries ?w q = Some e1" for q e1
    proof (cases "q = ?p")
      case True
      hence "e1 = e\<lparr>networks := ?l\<rparr>" using that unfolding ent by (simp split: if_splits)
      thus ?thesis using hna_okD(3) [OF ok n(2)] l True by (simp add: na)
    next
      case False
      hence q: "hna_entries w q = Some e1" using that unfolding ent by simp
      have "n \<notin> nets_at w q" using n(1) False by (auto simp: nets_at_def)
      thus ?thesis using hna_okD(3,4) [OF ok q] by (simp add: na)
    qed
    show "hna_entries ?w (hna_gw y) \<noteq> None" if "hna_nets ?w m = Some y" for m y
    proof -
      have y: "hna_nets w m = Some y" "m \<noteq> n" using that unfolding nets by (auto split: if_splits)
      hence "m \<in> nets_at w (hna_gw y)" by (auto simp: nets_at_def)
      hence "hna_gw y = ?p \<longrightarrow> m \<in> set ?l" unfolding l using y(2) by auto
      thus ?thesis using hna_okD(5) [OF ok y(1)] unfolding ent by (cases "hna_gw y = ?p") (auto simp: filter_empty_conv)
    qed
    show "m = m'" if "hna_nets ?w m = Some y" "hna_nets ?w m' = Some y'" "hna_gw y = hna_gw y'" "hna_prefix y = hna_prefix y'" for m y m' y'
      using that hna_okD(6) [OF ok, of m y m' y'] unfolding nets by (auto split: if_splits)
    show "q < hna_next ?w" if "hna_entries ?w q = Some e1" for q e1 using that n(2) hna_okD(7) [OF ok, of q] unfolding ent nets(2) by (auto split: if_splits)
    show "m < hna_next ?w" if "hna_nets ?w m = Some y" for m y using that hna_okD(8) [OF ok, of m y] unfolding nets by (auto split: if_splits)
  qed
  show "announced ?w k t \<longleftrightarrow> k \<noteq> (A_gateway_addr e, hna_prefix x) \<and> announced w k t"
  proof
    assume "announced ?w k t"
    then obtain m y e1 where m: "hna_nets ?w m = Some y" "hna_entries ?w (hna_gw y) = Some e1" "k = (A_gateway_addr e1, hna_prefix y)" "t = hna_net_timer y"
      unfolding announced_def by blast
    have y: "hna_nets w m = Some y" "m \<noteq> n" using m(1) unfolding nets by (auto split: if_splits)
    obtain e0 where e0: "hna_entries w (hna_gw y) = Some e0" "A_gateway_addr e0 = A_gateway_addr e1" using m(2) n(2) unfolding ent by (auto split: if_splits)
    have "k \<noteq> (A_gateway_addr e, hna_prefix x)"
      using hna_okD(6) [OF ok y(1) n(1)] hna_okD(2) [OF ok e0(1) n(2)] e0(2) m(3) y(2) by auto
    thus "k \<noteq> (A_gateway_addr e, hna_prefix x) \<and> announced w k t" using announcedI [OF y(1) e0(1)] e0(2) m(3,4) by simp
  next
    assume "k \<noteq> (A_gateway_addr e, hna_prefix x) \<and> announced w k t"
    then obtain m y e1 where m: "hna_nets w m = Some y" "hna_entries w (hna_gw y) = Some e1" "k = (A_gateway_addr e1, hna_prefix y)" "t = hna_net_timer y"
      and k: "k \<noteq> (A_gateway_addr e, hna_prefix x)" unfolding announced_def by blast
    have mn: "m \<noteq> n" using m n k by auto
    hence y: "hna_nets ?w m = Some y" using m(1) unfolding nets by simp
    have "m \<in> nets_at w (hna_gw y)" using m(1) by (auto simp: nets_at_def)
    hence "hna_gw y = ?p \<longrightarrow> m \<in> set ?l" unfolding l using mn by auto
    hence "\<exists>e0. hna_entries ?w (hna_gw y) = Some e0 \<and> A_gateway_addr e0 = A_gateway_addr e1" using m(2) n(2) unfolding ent by (cases "hna_gw y = ?p") (auto simp: filter_empty_conv)
    thus "announced ?w k t" using announcedI [OF y] m(3,4) by metis
  qed
qed

lemma delete_net_ok:
  assumes ok: "world_ok w" and hp: "heap_next (hna_db w) < 2 ^ 31" and n: "hna_nets w n = Some x" "hna_entries w (hna_gw x) = Some e"
  obtains r w' where "olsr_delete_hna_net_entry cnf gc n w = Some (r, w')" "world_ok w'" "heap_next (hna_db w') = heap_next (hna_db w)"
    "\<And>k t. announced w' k t \<longleftrightarrow> k \<noteq> (A_gateway_addr e, hna_prefix x) \<and> announced w k t"
    "r \<longleftrightarrow> filter (\<lambda>m. m \<noteq> n) (networks e) = []"
    "hna_entries w' = (hna_entries w)(hna_gw x := (if r then None else Some (e\<lparr>networks := filter (\<lambda>m. m \<noteq> n) (networks e)\<rparr>)))"
proof -
  let ?q = "hna_prefix x" and ?l = "filter (\<lambda>m. m \<noteq> n) (networks e)"
  have w: "hna_ok w" "no_empty_gw w" "lsdb_ok (hna_db w)" "gw_ok (hna_gws w)" using ok by (simp_all add: world_ok_def)
  obtain gws where gws: "(if is_prefix_inetgw cnf ?q then olsr_delete_gateway_entry cnf gc (hna_db w) (A_gateway_addr e) (prefix_len ?q) (hna_gws w) else Some (hna_gws w)) = Some gws" "gw_ok gws"
    using delete_entry_ok [OF w(4,3), of cnf gc "A_gateway_addr e" "prefix_len ?q"] w(4) by (cases "is_prefix_inetgw cnf ?q") auto
  obtain db where db: "olsr_delete_routing_table cnf (prefix ?q) (prefix_len ?q) (A_gateway_addr e) (hna_db w) = Some db" "lsdb_ok db" "same_graph (hna_db w) db"
    using delete_routing_table_ok [OF w(3) hp] by blast
  let ?w1 = "w\<lparr>hna_gws := gws, hna_db := db\<rparr>" let ?w = "without_net n x e ?w1"
  have ok1: "hna_ok ?w1" by (rule hna_ok_cong [OF w(1)]) simp_all
  have a1: "announced ?w1 = announced w" by (rule announced_cong) simp_all
  have n1: "hna_nets ?w1 n = Some x" "hna_entries ?w1 (hna_gw x) = Some e" using n by simp_all
  have res: "olsr_delete_hna_net_entry cnf gc n w = Some (?l = [], ?w)"
    using n gws(1) db(1) by (auto simp: olsr_delete_hna_net_entry_def without_net_def Let_def)
  have ent: "hna_entries ?w = (hna_entries w)(hna_gw x := (if ?l = [] then None else Some (e\<lparr>networks := ?l\<rparr>)))" by (simp add: without_net_def Let_def)
  have f: "hna_db ?w = db" "hna_gws ?w = gws" by (simp_all add: without_net_def Let_def)
  have "no_empty_gw ?w" using w(2) unfolding no_empty_gw_def ent by auto
  hence "world_ok ?w" using without_net_ok(1) [OF ok1 n1] db(2) gws(2) by (simp add: world_ok_def f)
  moreover have "heap_next (hna_db ?w) = heap_next (hna_db w)" using db(3) by (simp add: f same_graph_def)
  moreover have "announced ?w k t \<longleftrightarrow> k \<noteq> (A_gateway_addr e, ?q) \<and> announced w k t" for k t using without_net_ok(2) [OF ok1 n1] a1 by simp
  ultimately show thesis using that [OF res] ent by simp
qed

section \<open>Deleting gateways\<close>

lemma cleanup_loop_ok:
  "world_ok w \<Longrightarrow> heap_next (hna_db w) < 2 ^ 31 \<Longrightarrow> hna_entries w p = Some e \<Longrightarrow> length (networks e) = k \<Longrightarrow>
   \<exists>w'. cleanup_loop cnf gc k p w = Some w' \<and> world_ok w' \<and> heap_next (hna_db w') = heap_next (hna_db w) \<and> hna_entries w' = (hna_entries w)(p := None) \<and>
     (\<forall>c t. announced w' c t \<longleftrightarrow> fst c \<noteq> A_gateway_addr e \<and> announced w c t)"
proof (induction k arbitrary: w e)
  case 0
  thus ?case by (auto simp: world_ok_def no_empty_gw_def)
next
  case (Suc k)
  have ok: "hna_ok w" using Suc.prems(1) by (simp add: world_ok_def)
  obtain n l where nl: "networks e = n # l" "length l = k" using Suc.prems(4) by (cases "networks e") auto
  have "n \<in> nets_at w p" using hna_okD(4) [OF ok Suc.prems(3)] nl(1) by auto
  then obtain x where x: "hna_nets w n = Some x" "hna_gw x = p" by (auto simp: nets_at_def)
  have f: "filter (\<lambda>m. m \<noteq> n) (networks e) = l" using hna_okD(3) [OF ok Suc.prems(3)] nl(1) by (auto simp: filter_id_conv)
  have e: "hna_entries w (hna_gw x) = Some e" using Suc.prems(3) x(2) by simp
  obtain r w1 where 1: "olsr_delete_hna_net_entry cnf gc n w = Some (r, w1)" "world_ok w1" "heap_next (hna_db w1) = heap_next (hna_db w)"
    "\<And>c t. announced w1 c t \<longleftrightarrow> c \<noteq> (A_gateway_addr e, hna_prefix x) \<and> announced w c t" "r \<longleftrightarrow> l = []"
    "hna_entries w1 = (hna_entries w)(p := (if r then None else Some (e\<lparr>networks := l\<rparr>)))"
    by (rule delete_net_ok [OF Suc.prems(1,2) x(1) e, of cnf gc]) (simp add: f x(2))
  show ?case
  proof (cases r)
    case True
    have only: "c = (A_gateway_addr e, hna_prefix x)" if a: "announced w c t" "fst c = A_gateway_addr e" for c t
    proof -
      obtain m y e1 where m: "hna_nets w m = Some y" "hna_entries w (hna_gw y) = Some e1" "c = (A_gateway_addr e1, hna_prefix y)" using a(1) unfolding announced_def by blast
      have "hna_gw y = p" using hna_okD(2) [OF ok m(2) Suc.prems(3)] m(3) a(2) by simp
      hence "m \<in> set (networks e)" using hna_okD(4) [OF ok Suc.prems(3)] m(1) by (auto simp: nets_at_def)
      hence "m = n" using nl(1) True 1(5) by simp
      thus ?thesis using m x(1) a(2) by simp
    qed
    have "announced w1 c t \<longleftrightarrow> fst c \<noteq> A_gateway_addr e \<and> announced w c t" for c t using only [of c t] 1(4) [of c t] by auto
    thus ?thesis using 1(1-3,6) True Suc.prems(3) nl(1) by (simp add: fun_upd_def)
  next
    case False
    have 2: "hna_entries w1 p = Some (e\<lparr>networks := l\<rparr>)" "heap_next (hna_db w1) < 2 ^ 31" using 1(3,6) False Suc.prems(2) by simp_all
    have "length (networks (e\<lparr>networks := l\<rparr>)) = k" using nl(2) by simp
    from Suc.IH [OF 1(2) 2(2,1) this] obtain w' where 3: "cleanup_loop cnf gc k p w1 = Some w'" "world_ok w'" "heap_next (hna_db w') = heap_next (hna_db w1)" "hna_entries w' = (hna_entries w1)(p := None)"
      "\<forall>c t. announced w' c t \<longleftrightarrow> fst c \<noteq> A_gateway_addr (e\<lparr>networks := l\<rparr>) \<and> announced w1 c t" by blast
    have "announced w' c t \<longleftrightarrow> fst c \<noteq> A_gateway_addr e \<and> announced w c t" for c t using 3(5) [rule_format, of c t] 1(4) [of c t] by auto
    moreover have "hna_entries w' = (hna_entries w)(p := None)" unfolding 3(4) 1(6) by simp
    moreover have "cleanup_loop cnf gc (Suc k) p w = Some w'" using 1(1) 3(1) False Suc.prems(3) nl(1) by simp
    ultimately show ?thesis using 1(3) 3(2,3) by (intro exI [of _ w'] conjI allI) simp_all
  qed
qed

lemma cleanup_entry_ok:
  assumes "world_ok w" "heap_next (hna_db w) < 2 ^ 31" "hna_entries w p = Some e"
  obtains w' where "cleanup_entry cnf gc orig p w = Some w'" "world_ok w'" "heap_next (hna_db w') = heap_next (hna_db w)"
    "hna_entries w' = (if A_gateway_addr e = orig then (hna_entries w)(p := None) else hna_entries w)"
    "\<And>c t. announced w' c t \<longleftrightarrow> (A_gateway_addr e = orig \<longrightarrow> fst c \<noteq> orig) \<and> announced w c t"
proof (cases "A_gateway_addr e = orig")
  case True
  have "networks e \<noteq> []" using assms(1,3) by (auto simp: world_ok_def no_empty_gw_def)
  hence "cleanup_entry cnf gc orig p w = cleanup_loop cnf gc (length (networks e)) p w" using assms(3) True by (simp add: cleanup_entry_def)
  thus thesis using cleanup_loop_ok [OF assms refl, of cnf gc] that True by metis
next
  case False
  thus thesis using that [of w] assms by (simp add: cleanup_entry_def)
qed

lemma cleanup_bucket_ok:
  "world_ok w \<Longrightarrow> heap_next (hna_db w) < 2 ^ 31 \<Longrightarrow> distinct ps \<Longrightarrow> \<forall>p\<in>set ps. hna_entries w p \<noteq> None \<Longrightarrow>
   \<exists>w'. foldM (cleanup_entry cnf gc orig) ps w = Some w' \<and> world_ok w' \<and> heap_next (hna_db w') = heap_next (hna_db w) \<and>
     (\<forall>c t. announced w' c t \<longleftrightarrow> (fst c = orig \<longrightarrow> (\<forall>p\<in>set ps. \<forall>e. hna_entries w p = Some e \<longrightarrow> A_gateway_addr e \<noteq> orig)) \<and> announced w c t)"
proof (induction ps arbitrary: w)
  case Nil
  thus ?case by simp
next
  case (Cons p ps)
  obtain e where e: "hna_entries w p = Some e" using Cons.prems(4) by auto
  obtain w1 where 1: "cleanup_entry cnf gc orig p w = Some w1" "world_ok w1" "heap_next (hna_db w1) = heap_next (hna_db w)"
    "hna_entries w1 = (if A_gateway_addr e = orig then (hna_entries w)(p := None) else hna_entries w)"
    "\<And>c t. announced w1 c t \<longleftrightarrow> (A_gateway_addr e = orig \<longrightarrow> fst c \<noteq> orig) \<and> announced w c t"
    by (rule cleanup_entry_ok [OF Cons.prems(1,2) e, of cnf gc orig]) (assumption | blast)+
  have o: "hna_entries w1 q = hna_entries w q" if "q \<in> set ps" for q using 1(4) that Cons.prems(3) by auto
  obtain w' where 2: "foldM (cleanup_entry cnf gc orig) ps w1 = Some w'" "world_ok w'" "heap_next (hna_db w') = heap_next (hna_db w1)"
    "\<forall>c t. announced w' c t \<longleftrightarrow> (fst c = orig \<longrightarrow> (\<forall>p\<in>set ps. \<forall>e. hna_entries w1 p = Some e \<longrightarrow> A_gateway_addr e \<noteq> orig)) \<and> announced w1 c t"
    using Cons.IH [OF 1(2)] 1(3) Cons.prems(2-4) o by auto
  have "announced w' c t \<longleftrightarrow> (fst c = orig \<longrightarrow> (\<forall>p\<in>set (p # ps). \<forall>e. hna_entries w p = Some e \<longrightarrow> A_gateway_addr e \<noteq> orig)) \<and> announced w c t" for c t
    using 2(4) [rule_format, of c t] 1(5) [of c t] o e by auto
  thus ?case using 1(1,3) 2(1-3) by auto
qed

lemma cleanup_buckets_ok:
  "world_ok w \<Longrightarrow> heap_next (hna_db w) < 2 ^ 31 \<Longrightarrow>
   \<exists>w'. foldM (\<lambda>h w. foldM (cleanup_entry cnf gc orig) (hna_set w h) w) hs w = Some w' \<and> world_ok w' \<and>
     (\<forall>c t. announced w' c t \<longleftrightarrow> (fst c = orig \<longrightarrow> ip_hash orig \<notin> set hs) \<and> announced w c t)"
proof (induction hs arbitrary: w)
  case (Cons h hs)
  have ok: "hna_ok w" using Cons.prems(1) by (simp add: world_ok_def)
  have m: "p \<in> set (hna_set w h) \<longleftrightarrow> (\<exists>e. hna_entries w p = Some e \<and> ip_hash (A_gateway_addr e) = h)" for p
    using bucket_okD(1) [OF hna_okD(1) [OF ok]] by (auto simp: gw_hash_def)
  hence live: "\<forall>p\<in>set (hna_set w h). hna_entries w p \<noteq> None" by auto
  have d: "distinct (hna_set w h)" using bucket_okD(2) [OF hna_okD(1) [OF ok]] .
  obtain w1 where 1: "foldM (cleanup_entry cnf gc orig) (hna_set w h) w = Some w1" "world_ok w1" "heap_next (hna_db w1) = heap_next (hna_db w)"
    "\<forall>c t. announced w1 c t \<longleftrightarrow> (fst c = orig \<longrightarrow> (\<forall>p\<in>set (hna_set w h). \<forall>e. hna_entries w p = Some e \<longrightarrow> A_gateway_addr e \<noteq> orig)) \<and> announced w c t"
    using cleanup_bucket_ok [OF Cons.prems d live] by blast
  have a1: "announced w1 c t \<longleftrightarrow> (fst c = orig \<longrightarrow> ip_hash orig \<noteq> h) \<and> announced w c t" for c t
  proof (cases "announced w c t \<and> fst c = orig")
    case True
    then obtain p e where "hna_entries w p = Some e" "A_gateway_addr e = orig" unfolding announced_def by auto
    thus ?thesis using 1(4) True m by (metis option.inject)
  qed (use 1(4) in blast)
  obtain w' where 2: "foldM (\<lambda>h w. foldM (cleanup_entry cnf gc orig) (hna_set w h) w) hs w1 = Some w'" "world_ok w'"
    "\<forall>c t. announced w' c t \<longleftrightarrow> (fst c = orig \<longrightarrow> ip_hash orig \<notin> set hs) \<and> announced w1 c t" using Cons.IH [OF 1(2)] 1(3) Cons.prems(2) by auto
  thus ?case using 1(1) a1 by auto
qed simp

section \<open>Messages\<close>

definition accepted :: "hna_config \<Rightarrow> olsr_ip_addr \<Rightarrow> u8 \<Rightarrow> bool" where
  "accepted hc net len \<longleftrightarrow> net \<notin> set (if_addrs hc) \<and> ip_prefix_list_find (own_hna hc) net len = None"

lemma input_net_ok:
  assumes ok: "world_ok w" and m: "main_addr cnf \<noteq> all_zero cnf" and v: "vtime \<noteq> 0" and f: "family_ok cnf netmask"
  obtains w' where "input_net cnf gc hc orig vtime seqno net netmask w = Some w'" "world_ok w'"
    "\<And>k t. announced w' k t \<longleftrightarrow> (if accepted hc net (olsr_netmask_to_prefix netmask) \<and> k = (orig, \<lparr>prefix = net, prefix_len = olsr_netmask_to_prefix netmask\<rparr>)
       then t = Some vtime else announced w k t)"
proof -
  let ?len = "olsr_netmask_to_prefix netmask" let ?q = "\<lparr>prefix = net, prefix_len = ?len\<rparr>"
  have db: "lsdb_ok (hna_db w)" "gw_ok (hna_gws w)" using ok by (simp_all add: world_ok_def)
  have "\<exists>g'. gw_do cnf gc (Announced (hna_db w) orig ?q netmask seqno) (hna_gws w) = Some g' \<and> gw_ok g'"
    using event_gw_ok [OF db(2), of cnf "Announced (hna_db w) orig ?q netmask seqno" gc] db(1) f by simp
  then obtain b gws where b: "olsr_is_smart_gateway cnf ?q netmask = Some b"
    "(if smart_gw_active gc \<and> b then olsr_update_gateway_entry cnf gc (hna_db w) orig netmask (unat ?len) seqno (hna_gws w) else Some (hna_gws w)) = Some gws" "gw_ok gws"
    unfolding gw_do.simps olsr_ip_prefix.select_convs by (cases "olsr_is_smart_gateway cnf ?q netmask") auto
  let ?s = "smart_gw_active gc \<and> b"
  have s: "(if smart_gw_active gc then olsr_is_smart_gateway cnf ?q netmask else Some False) = Some ?s"
    "(if ?s then olsr_update_gateway_entry cnf gc (hna_db w) orig netmask (unat ?len) seqno (hna_gws w) else Some (hna_gws w)) = Some gws" "gw_ok gws"
    using b by simp_all
  let ?w1 = "w\<lparr>hna_gws := gws\<rparr>"
  have u: "input_net cnf gc hc orig vtime seqno net netmask w = (if net \<in> set (if_addrs hc) then Some (olsr_handle_hna_collision net orig ?w1)
      else if ip_prefix_list_find (own_hna hc) net ?len = None then olsr_update_hna_entry cnf orig net ?len vtime ?w1 else Some ?w1)"
    unfolding input_net_def Let_def olsr_ip_prefix.select_convs s(1) Option.bind.simps s(2) by (rule refl)
  have c: "hna_ok ?w1" "announced ?w1 = announced w" using ok by (auto intro: hna_ok_cong announced_cong simp: world_ok_def)
  have ok1: "world_ok ?w1" using ok c(1) s(3) by (simp add: world_ok_def no_empty_gw_def)
  show thesis
  proof (cases "accepted hc net ?len")
    case True
    obtain w' where w': "olsr_update_hna_entry cnf orig net ?len vtime ?w1 = Some w'" "world_ok w'"
      "\<And>k t. announced w' k t \<longleftrightarrow> (if k = (orig, ?q) then t = Some vtime else announced ?w1 k t)" by (rule update_hna_ok [OF ok1 m v, of orig net ?len]) (assumption | blast)+
    have "input_net cnf gc hc orig vtime seqno net netmask w = Some w'" using w'(1) True by (simp add: u accepted_def)
    thus thesis using that [of w'] w'(2,3) c(2) True by simp
  next
    case False
    let ?w2 = "if net \<in> set (if_addrs hc) then olsr_handle_hna_collision net orig ?w1 else ?w1"
    have "input_net cnf gc hc orig vtime seqno net netmask w = Some ?w2" using False by (auto simp: u accepted_def)
    moreover have "hna_ok ?w2" "announced ?w2 = announced ?w1" using c(1) by (auto intro: hna_ok_cong announced_cong simp: olsr_handle_hna_collision_def)
    moreover have "world_ok ?w2" using ok1 calculation(2) by (simp add: world_ok_def no_empty_gw_def olsr_handle_hna_collision_def)
    ultimately show thesis using that [of ?w2] c(2) False by simp
  qed
qed

text \<open>The networks of a message, decoded from the octets behind its header.\<close>

function hna_pairs :: "olsrd_config \<Rightarrow> u8 list \<Rightarrow> (olsr_ip_addr \<times> olsr_ip_addr) list" where
  "hna_pairs cnf bs = (if length bs < 2 * ipsize cnf then []
     else (ip_of_bytes cnf (take (ipsize cnf) bs), ip_of_bytes cnf (take (ipsize cnf) (drop (ipsize cnf) bs))) # hna_pairs cnf (drop (2 * ipsize cnf) bs))"
  by pat_completeness auto
termination by (relation "measure (\<lambda>(cnf, bs). length bs)") (auto simp: ipsize_def)

declare hna_pairs.simps [simp del]

lemma family_of_bytes: "family_ok cnf (ip_of_bytes cnf bs)"
  by (simp add: family_ok_def ip_of_bytes_def)

text \<open>What a sequence of announcements of one gateway says.\<close>

definition said :: "hna_config \<Rightarrow> olsr_ip_addr \<Rightarrow> (olsr_ip_addr \<times> olsr_ip_addr) list \<Rightarrow> olsr_ip_addr \<times> olsr_ip_prefix \<Rightarrow> bool" where
  "said hc orig nets k \<longleftrightarrow> (\<exists>(net, netmask)\<in>set nets. accepted hc net (olsr_netmask_to_prefix netmask) \<and>
     k = (orig, \<lparr>prefix = net, prefix_len = olsr_netmask_to_prefix netmask\<rparr>))"

lemma input_nets_ok:
  "world_ok w \<Longrightarrow> main_addr cnf \<noteq> all_zero cnf \<Longrightarrow> vtime \<noteq> 0 \<Longrightarrow> cur \<le> length buf \<Longrightarrow> 2 * ipsize cnf dvd length buf - cur \<Longrightarrow>
   \<exists>w'. input_nets cnf gc hc orig vtime seqno buf cur (length buf) w = Some w' \<and> world_ok w' \<and>
     (\<forall>k t. announced w' k t \<longleftrightarrow> (if said hc orig (hna_pairs cnf (drop cur buf)) k then t = Some vtime else announced w k t))"
proof (induction "length buf - cur" arbitrary: cur w rule: less_induct)
  case less
  show ?case
  proof (cases "cur < length buf")
    case False
    hence "hna_pairs cnf (drop cur buf) = []" by (subst hna_pairs.simps) (simp add: ipsize_def)
    moreover have "input_nets cnf gc hc orig vtime seqno buf cur (length buf) w = Some w" using False by (subst input_nets.simps) simp
    ultimately show ?thesis using less.prems(1) by (simp add: said_def)
  next
    case True
    let ?i = "ipsize cnf" let ?net = "ip_of_bytes cnf (take ?i (drop cur buf))" and ?nm = "ip_of_bytes cnf (take ?i (drop (cur + ?i) buf))"
    have i: "0 < ?i" by (simp add: ipsize_def)
    have l: "2 * ?i \<le> length buf - cur" using less.prems(5) True by (intro dvd_imp_le) simp_all
    have g: "pkt_get_ipaddress cnf buf cur = Some (?net, cur + ?i)" "pkt_get_ipaddress cnf buf (cur + ?i) = Some (?nm, cur + 2 * ?i)"
      using l True by (simp_all add: pkt_get_ipaddress_def get_bytes_def)
    obtain w1 where 1: "input_net cnf gc hc orig vtime seqno ?net ?nm w = Some w1" "world_ok w1"
      "\<And>k t. announced w1 k t \<longleftrightarrow> (if accepted hc ?net (olsr_netmask_to_prefix ?nm) \<and> k = (orig, \<lparr>prefix = ?net, prefix_len = olsr_netmask_to_prefix ?nm\<rparr>)
         then t = Some vtime else announced w k t)"
      by (rule input_net_ok [OF less.prems(1-3) family_of_bytes, of gc hc orig seqno ?net]) (assumption | blast)+
    have "2 * ?i dvd length buf - cur - 2 * ?i" using less.prems(5) by (rule dvd_diff_nat) simp
    hence d: "2 * ?i dvd length buf - (cur + 2 * ?i)" by (simp only: diff_diff_left)
    have d': "cur + 2 * ?i \<le> length buf" "length buf - (cur + 2 * ?i) < length buf - cur" using l i True by simp_all
    obtain w' where 2: "input_nets cnf gc hc orig vtime seqno buf (cur + 2 * ?i) (length buf) w1 = Some w'" "world_ok w'"
      "\<forall>k t. announced w' k t \<longleftrightarrow> (if said hc orig (hna_pairs cnf (drop (cur + 2 * ?i) buf)) k then t = Some vtime else announced w1 k t)"
      using less.hyps [OF d'(2) 1(2) less.prems(2,3) d'(1) d] by blast
    have p: "hna_pairs cnf (drop cur buf) = (?net, ?nm) # hna_pairs cnf (drop (cur + 2 * ?i) buf)"
      using l by (subst hna_pairs.simps) (simp add: add.commute)
    have "announced w' k t \<longleftrightarrow> (if said hc orig (hna_pairs cnf (drop cur buf)) k then t = Some vtime else announced w k t)" for k t
    proof -
      let ?new = "accepted hc ?net (olsr_netmask_to_prefix ?nm) \<and> k = (orig, \<lparr>prefix = ?net, prefix_len = olsr_netmask_to_prefix ?nm\<rparr>)"
      have "said hc orig (hna_pairs cnf (drop cur buf)) k \<longleftrightarrow> ?new \<or> said hc orig (hna_pairs cnf (drop (cur + 2 * ?i) buf)) k" unfolding p by (simp add: said_def)
      thus ?thesis using 2(3) [rule_format, of k t] 1(3) [of k t] by (cases ?new; cases "said hc orig (hna_pairs cnf (drop (cur + 2 * ?i) buf)) k") simp_all
    qed
    moreover have "input_nets cnf gc hc orig vtime seqno buf cur (length buf) w = Some w'" using True g 1(1) 2(1) by (subst input_nets.simps) simp
    ultimately show ?thesis using 2(2) by blast
  qed
qed

text \<open>No validity time of a message is zero.\<close>

lemma me_to_reltime_pos: "me_to_reltime me \<noteq> 0"
proof -
  have me: "me = me_pack (unat me div 16) (unat me mod 16)" unfolding me_pack_def by simp
  have "unat me < 2 ^ 8" by (rule u8_less)
  hence "unat me div 16 < 16" "unat me mod 16 < 16" by simp_all
  from decode_closed [OF this] have "unat (me_to_reltime me) = (16 + unat me div 16) * (125 * 2 ^ (unat me mod 16)) div 32" using me by simp
  moreover have "16 * 125 \<le> (16 + unat me div 16) * (125 * 2 ^ (unat me mod 16))" by (intro mult_le_mono) simp_all
  ultimately have "2000 div 32 \<le> unat (me_to_reltime me)" by (simp only: div_le_mono)
  thus ?thesis by auto
qed

lemma hna_header_facts:
  assumes "read_hna_header cnf buf p = Some (h, cur)"
  shows "cur = p + 7 + ipsize cnf" "cur \<le> length buf" "hna_vtime h \<noteq> 0"
  using assms me_to_reltime_pos by (auto simp: read_hna_header_def pkt_get_defs pkt_ignore_u8_def get_bytes_def split: bind_splits if_splits)

text \<open>
  C10. A node learns exactly what an HNA message says. For every well-formed message from a
  symmetric neighbour, whatever networks and netmasks it holds, the daemon neither reads outside
  the message nor follows a stale pointer, and routing table, gateways and the set itself stay
  consistent. Afterwards the originator announces each network of the message for the validity
  time it states, except for addresses of own interfaces and prefixes the node announces itself;
  all other announcements are as before. The message is to be forwarded.
\<close>

theorem hna_message_learned:
  fixes w :: "'lq hna_world"
  assumes "world_ok w" "main_addr cnf \<noteq> all_zero cnf" "pkt_get_u8 buf 0 = Some (HNA_MESSAGE, 1)" "read_hna_header cnf buf 1 = Some (h, cur)"
    "unat (hna_msgsize h) = length buf" "2 * ipsize cnf dvd length buf - cur"
  shows "\<exists>w'. olsr_input_hna cnf gc hc True buf w = Some (True, w') \<and> world_ok w' \<and>
    (\<forall>k t. announced w' k t \<longleftrightarrow> (if said hc (hna_originator h) (hna_pairs cnf (drop cur buf)) k then t = Some (hna_vtime h) else announced w k t))"
proof -
  note c = hna_header_facts [OF assms(4)]
  obtain w' where w': "input_nets cnf gc hc (hna_originator h) (hna_vtime h) (hna_seqno h) buf cur (length buf) w = Some w'" "world_ok w'"
    "\<forall>k t. announced w' k t \<longleftrightarrow> (if said hc (hna_originator h) (hna_pairs cnf (drop cur buf)) k then t = Some (hna_vtime h) else announced w k t)"
    using input_nets_ok [OF assms(1,2) c(3,2) assms(6)] by blast
  have "int (length buf) - 8 - int (ipsize cnf) = int (length buf - cur)" using c(1,2) by simp
  moreover have "int (2 * ipsize cnf) dvd int (length buf - cur)" using assms(6) by (simp only: int_dvd_int_iff)
  ultimately have "int (2 * ipsize cnf) dvd int (length buf) - 8 - int (ipsize cnf)" by (simp only:)
  moreover have "uint (hna_msgsize h) = int (length buf)" using assms(5) by (metis uint_nat)
  ultimately have "olsr_input_hna cnf gc hc True buf w = Some (True, w')" using assms(3-5) w'(1) by (simp add: olsr_input_hna_def)
  thus ?thesis using w'(2,3) by blast
qed

text \<open>
  When a gateway leaves, everything it announced is withdrawn and nothing else; the loop over
  its networks ends although the entry is freed on the way.
\<close>

theorem hna_cleanup_exact:
  fixes w :: "'lq hna_world"
  assumes "world_ok w" "heap_next (hna_db w) < 2 ^ 31"
  shows "\<exists>w'. olsr_cleanup_hna cnf gc orig w = Some w' \<and> world_ok w' \<and>
    (\<forall>k t. announced w' k t \<longleftrightarrow> fst k \<noteq> orig \<and> announced w k t)"
proof -
  have "ip_hash orig \<in> set [0..<HASHSIZE]" by simp
  thus ?thesis using cleanup_buckets_ok [OF assms, of cnf gc orig "[0..<HASHSIZE]"] unfolding olsr_cleanup_hna_def by metis
qed

text \<open>
  The expiry of a network withdraws this network only; the entry of its gateway goes with its last one.
\<close>

theorem hna_expiry_exact:
  fixes w :: "'lq hna_world"
  assumes "world_ok w" "heap_next (hna_db w) < 2 ^ 31" "hna_nets w n = Some x" "hna_entries w (hna_gw x) = Some e"
  shows "\<exists>w'. olsr_expire_hna_net_entry cnf gc n w = Some w' \<and> world_ok w' \<and>
    (\<forall>k t. announced w' k t \<longleftrightarrow> k \<noteq> (A_gateway_addr e, hna_prefix x) \<and> announced w k t) \<and>
    (hna_entries w' (hna_gw x) = None \<longleftrightarrow> filter (\<lambda>m. m \<noteq> n) (networks e) = [])"
proof -
  obtain r w' where "olsr_delete_hna_net_entry cnf gc n w = Some (r, w')" "world_ok w'"
    "\<And>k t. announced w' k t \<longleftrightarrow> k \<noteq> (A_gateway_addr e, hna_prefix x) \<and> announced w k t" "r \<longleftrightarrow> filter (\<lambda>m. m \<noteq> n) (networks e) = []"
    "hna_entries w' = (hna_entries w)(hna_gw x := (if r then None else Some (e\<lparr>networks := filter (\<lambda>m. m \<noteq> n) (networks e)\<rparr>)))"
    by (rule delete_net_ok [OF assms, of cnf gc]) (assumption | blast)+
  thus ?thesis by (intro exI [of _ w']) (simp add: olsr_expire_hna_net_entry_def)
qed

section \<open>Examples\<close>

definition demo_world :: "default_lq_hybrid_plc hna_world" where
  "demo_world = \<lparr>hna_set = (\<lambda>_. []), hna_entries = Map.empty, hna_nets = Map.empty, hna_next = 0, hna_db = empty_lsdb, hna_gws = demo_gw_state, hna_collisions = []\<rparr>"

lemma demo_world_ok: "world_ok demo_world"
proof -
  have "hna_ok demo_world" by (auto simp: hna_ok_def bucket_ok_def gw_hash_def demo_world_def)
  thus ?thesis using empty_lsdb_ok(1) demo_gw_ok by (simp add: world_ok_def no_empty_gw_def demo_world_def)
qed

definition demo_hna :: "u8 list" where
  "demo_hna = [4, 0x35, 0, 20, 10, 0, 0, 2, 64, 0, 0, 7, 192, 168, 5, 0, 255, 255, 255, 0]"

theorem hna_message_learned_witness:
  "\<exists>w'. olsr_input_hna demo_cnf demo_gw_config \<lparr>if_addrs = [], own_hna = []\<rparr> True demo_hna demo_world = Some (True, w') \<and> world_ok w'"
proof -
  have "\<exists>h. read_hna_header demo_cnf demo_hna 1 = Some (h, 12) \<and> hna_msgsize h = 20"
    by (simp add: read_hna_header_def demo_hna_def demo_cnf_def pkt_get_defs pkt_ignore_u8_def get_bytes_def ipsize_def be_val_def)
  then obtain h where h: "read_hna_header demo_cnf demo_hna 1 = Some (h, 12)" "hna_msgsize h = 20" by blast
  have "main_addr demo_cnf \<noteq> all_zero demo_cnf" "pkt_get_u8 demo_hna 0 = Some (HNA_MESSAGE, 1)" "unat (hna_msgsize h) = length demo_hna" 
    using h(2) by (simp_all add: demo_cnf_def all_zero_def demo_hna_def pkt_get_u8_def get_bytes_def HNA_MESSAGE_def ipsize_def)
  moreover have "length demo_hna = 20" by (simp add: demo_hna_def)
  hence "2 * ipsize demo_cnf dvd length demo_hna - 12" by (simp add: ipsize_def demo_cnf_def)
  ultimately show ?thesis using hna_message_learned [OF demo_world_ok _ _ h(1)] by blast
qed

theorem hna_cleanup_exact_witness:
  "\<exists>w'. olsr_cleanup_hna demo_cnf demo_gw_config (V4 1) demo_world = Some w' \<and> world_ok w'"
  using hna_cleanup_exact [OF demo_world_ok, of demo_cnf demo_gw_config "V4 1"] by (auto simp: demo_world_def empty_lsdb_def)

end
