(* ===== verification/Spec2Isabelle.thy ===== *)
theory Spec2Isabelle
  imports Olsr_Topology Olsr_Duplicate_Set Olsr_Mantissa Olsr_Time Olsr_Lq_Hybrid_Plc Olsr_Neighborhood Olsr_Ipcalc Olsr_Forward Olsr_Process_Routes Olsr_Hna_Set
begin

text \<open>
  A verification library for the core of olsrd, a routing daemon for ad-hoc networks, in a version
  for networks that mix wireless and power line links. All paths below are relative to the
  repository. Every node broadcasts HELLO messages to its neighbours and floods TC messages
  through the network; from what it receives a node maintains its neighbourhood and a map of the
  topology, computes shortest paths and fills its routing table.

  \<^bold>\<open>Conventions.\<close> Pointers are natural numbers; objects of the heap live in stores, partial
  functions from pointers to records, and a freed object is a missing key. An operation that could
  dereference an invalid pointer or break a tree returns an option, and \<open>None\<close> stands for the
  undefined behaviour; a theorem that a result is \<open>Some\<close> shows that the code never gets there.
  Machine integers keep their widths as words where they can wrap. Loops over lists of objects are
  \<open>foldM\<close>, loops that walk a data structure are recursive functions. Global options are arguments
  (\<open>olsrd_config\<close>, \<open>nb_config\<close>), and so are the clock and received octets.

  \<^bold>\<open>Trees and their contract.\<close> \<open>Olsr_Avl\<close> models \<^verbatim>\<open>src/src/common/avl.c\<close> function by function:
  tree, list threading, balance factors, leaders of equal keys. \<open>Olsr_Avl_Correct\<close> proves that
  insertion and deletion keep the invariant, and states what a client sees as the locale
  \<open>sorted_index\<close>, interpreted on the tree; \<open>Olsr_Index\<close> extends it to \<open>unique_index\<close> for trees without
  duplicates, in which all databases below are proved.

  \<^bold>\<open>Topology and routes.\<close> \<open>Olsr_Types\<close> has addresses and prefixes with their order
  (\<^verbatim>\<open>src/src/olsr_types.h\<close>, \<^verbatim>\<open>src/src/ipcalc.h\<close>); \<open>Olsr_Lsdb\<close> the records of vertices, edges, routes and
  the database; \<open>Olsr_Packet\<close> the readers and writers of message fields (\<^verbatim>\<open>src/src/lq_packet.h\<close>);
  \<open>Olsr_Routing_Table\<close> the routing information base (\<^verbatim>\<open>src/src/routing_table.c\<close>); \<open>Olsr_Tc_Set\<close> the
  link state database with the handler \<open>olsr_input_tc\<close> and both timers (\<^verbatim>\<open>src/src/tc_set.c\<close>);
  \<open>Olsr_Spf\<close> the shortest path computation (\<^verbatim>\<open>src/src/olsr_spf.c\<close>). \<open>Olsr_Lsdb_Inv\<close>, \<open>Olsr_Rib_Inv\<close>,
  \<open>Olsr_Tc_Inv\<close> and \<open>Olsr_Tc_Input\<close> prove that every operation keeps the invariant \<open>lsdb_ok\<close> (trees
  index exactly the live objects, inverse edges are mutual, reference counts are exact), the last
  one inside the locale \<open>tc_lq_plugin\<close>, which states what the handler needs from a link quality
  plugin. \<open>Olsr_Topology\<close> interprets it on the power line plugin and puts handlers and timers
  together as a step relation: reachable databases are consistent, the next step is always
  possible, and they satisfy the precondition of the shortest path computation. Bounds: the
  computation is proved for at most 1024 vertices, for which path costs cannot wrap; the
  reference counts for fewer than \<open>2\<^sup>3\<^sup>1\<close> allocations; the fuel of its main loop is the number of
  vertices, of the loop over the addresses of a TC message the size of the message, and both are
  proved to be enough, since the results are \<open>Some\<close>. Calls into the alias, HNA, gateway and
  duplicate sets are recorded in order as values (\<open>lsdb_call\<close>).

  \<^bold>\<open>Neighbourhood.\<close> \<open>Olsr_Neighbor\<close> models the neighbour table, the two hop neighbours and the links
  between them (\<^verbatim>\<open>src/src/neighbor_table.c\<close>, \<^verbatim>\<open>src/src/two_hop_neighbor_table.c\<close>) and the look-ups of
  interface aliases (\<^verbatim>\<open>src/src/mid_set.c\<close>); \<open>Olsr_Neighbor_Inv\<close> its invariant \<open>nb_inv\<close> and
  \<open>Olsr_Neighbor_Ops\<close> what each operation does to it; \<open>Olsr_Hello\<close> the state of links
  (\<^verbatim>\<open>src/src/link_set.c\<close>) and the processing of HELLO messages (\<^verbatim>\<open>src/src/process_package.c\<close>);
  \<open>Olsr_Mpr\<close> and \<open>Olsr_Mpr_Coverage\<close> the selection of multipoint relays (\<^verbatim>\<open>src/src/mpr.c\<close>), with the
  proof that it ends (fuel: one more than the number of neighbours, as every pass adds a relay)
  and that its optimisation can drop relays that are needed; \<open>Olsr_Lq_Mpr\<close> the selection by link
  quality (\<^verbatim>\<open>src/src/lq_mpr.c\<close>), which does cover every two hop neighbour; \<open>Olsr_Neighborhood\<close> the
  step relation over all of them. HELLO processing is proved for alias tables whose main
  addresses are no aliases themselves (\<open>mid_flat\<close>), insertion for fewer than \<open>2\<^sup>1\<^sup>5\<close> neighbours, the
  range of the link counter.

  \<^bold>\<open>Flooding, time and link quality.\<close> \<open>Olsr_Duplicate_Set\<close> is the duplicate set
  (\<^verbatim>\<open>src/src/duplicate_set.c\<close>), which implements a window of seen sequence numbers. \<open>Olsr_Time\<close> is
  the clock (\<^verbatim>\<open>src/src/scheduler.c\<close>), \<open>Olsr_Mantissa\<close> the encoding of times (\<^verbatim>\<open>src/src/mantissa.c\<close>),
  \<open>Olsr_Hashing\<close> the hash of addresses (\<^verbatim>\<open>src/src/hashing.c\<close>). \<open>Olsr_Plc_Data\<close> is the table of power
  line peers (\<^verbatim>\<open>src/src/linklayer_plc_data.c\<close>), a map by the locale \<open>peer_table\<close>;
  \<open>Olsr_Lq_Hybrid_Plc\<close> the link quality plugin (\<^verbatim>\<open>src/src/lq_plugin_default_hybrid_plc.c\<close>), with the
  single precision arithmetic of \<open>Olsr_Float\<close>.

  \<^bold>\<open>Packets.\<close> \<open>Olsr_Netbuf\<close> has the output buffers of the interfaces and the assembly of packets
  (\<^verbatim>\<open>src/src/net_olsr.c\<close>), \<open>Olsr_Parser\<close> the parser (\<^verbatim>\<open>src/src/parser.c\<close>): the loop over the messages of a
  packet, compared with a reference decomposition of its octets, and the input loop, which takes
  at most 32 packets from a socket. The locale \<open>packet_client\<close> states what the functions registered
  with the parser keep; \<open>Olsr_Forward\<close> models the retransmission of messages (\<^verbatim>\<open>src/src/olsr.c\<close>,
  \<^verbatim>\<open>src/src/duplicate_handler.c\<close>) and interprets it on a node that relays every message. What
  \<open>sendto\<close> returns and the random delays are arguments.

  \<^bold>\<open>Timers and relay selectors.\<close> \<open>Olsr_Buckets\<close> has the circular lists and hash tables of
  \<^verbatim>\<open>src/src/defs.h\<close>; \<open>Olsr_Scheduler\<close> the timer wheel (\<^verbatim>\<open>src/src/scheduler.c\<close>) with the locale
  \<open>timer_client\<close> for the functions the timers call, and the theorems that a walk fires what is due
  and nothing else. They are for timers below \<open>2\<^sup>3\<^sup>0\<close> ms and a clock that has not wrapped since the
  last walk; the outer loop is bounded by the 1024 slots of the wheel, as in the code.
  \<open>Olsr_Mpr_Selector\<close> is the set of neighbours that chose this node as a relay
  (\<^verbatim>\<open>src/src/mpr_selector_set.c\<close>), the client the locale is interpreted on.

  \<^bold>\<open>Kernel routes, networks and gateways.\<close> \<open>Olsr_Ipcalc\<close> has the arithmetic of netmasks and prefixes
  (\<^verbatim>\<open>src/src/ipcalc.c\<close>). \<open>Olsr_Process_Routes\<close> goes from the routing information base to the kernel
  (\<^verbatim>\<open>src/src/process_routes.c\<close>): outdated paths are dropped, best paths chosen, changes queued and
  exported; the specification is the forwarding table that results from the calls to the kernel.
  It also shows the case where a route keeps a best path that has been freed. \<open>Olsr_Gateway\<close>
  models internet gateways (\<^verbatim>\<open>src/src/gateway.c\<close>, \<^verbatim>\<open>src/src/gateway_default_handler.c\<close>): the encoding of
  speeds, the announcement hidden in a netmask, the choice of the nearest gateway, and, over all
  sequences of events, that no pointer to a gateway dangles; calls that set up tunnels are a trace.
  \<open>Olsr_Hna_Set\<close> has the networks announced by other nodes (\<^verbatim>\<open>src/src/hna_set.c\<close>) on top of the routing
  table and the gateways: the set implements an abstract relation between gateways and prefixes.

  \<^bold>\<open>Not modelled.\<close> Sockets, the kernel interface and the operating system layers
  (\<^verbatim>\<open>src/src/linux\<close>, \<^verbatim>\<open>bsd\<close>, \<^verbatim>\<open>unix\<close>, \<^verbatim>\<open>win32\<close>, \<^verbatim>\<open>src/android\<close>) are input and output. The configuration
  parser is generated by bison and flex; the plugins under \<^verbatim>\<open>src/lib\<close>, the control program and the
  graphical front ends are clients of the daemon. The parts of the daemon itself that are left are
  the operations that create and remove links and interface aliases, the building of HELLO, TC, MID
  and HNA messages, hysteresis, the variants for the host emulator, and the other link quality
  plugins.
\<close>

end
